(* ===== verification/Prelude.thy ===== *)
theory Prelude
  imports Main "HOL-Library.Word"
begin

text \<open>
  What every component shares: the machine types of include/kernel.h, the error codes the
  kernel returns, the two loop shapes the sources use on fixed-size tables, and the
  arithmetic of circular buffers.

  A fixed-size C array is a function on its indices (the invariants of the components state
  that every index the code uses is in range), a byte is a word of eight bits, a signed
  result (i64) is an integer, and a size or an index is a natural number.  Where a
  calculation of the source can leave its width, the component writes the reduction
  modulo the width out, or uses words.
\<close>

unbundle bit_operations_syntax

type_synonym u8 = "8 word"
type_synonym u16 = "16 word"
type_synonym u32 = "32 word"
type_synonym u64 = "64 word"

named_theorems errno "the numeric values of the error codes"
named_theorems ring_simps "contents of circular buffers"
named_theorems scan "loops that look for the first matching slot"

section \<open>Error codes\<close>

text \<open>The codes of include/kernel.h; every one is a negative i64.\<close>

definition EPERM :: int where [errno]: "EPERM = -1"
definition ENOENT :: int where [errno]: "ENOENT = -2"
definition ESRCH :: int where [errno]: "ESRCH = -3"
definition EBADF :: int where [errno]: "EBADF = -9"
definition EAGAIN :: int where [errno]: "EAGAIN = -11"
definition ENOMEM :: int where [errno]: "ENOMEM = -12"
definition EFAULT :: int where [errno]: "EFAULT = -14"
definition ENOTDIR :: int where [errno]: "ENOTDIR = -20"
definition EINVAL :: int where [errno]: "EINVAL = -22"
definition ENOSPC :: int where [errno]: "ENOSPC = -28"
definition ENAMETOOLONG :: int where [errno]: "ENAMETOOLONG = -36"
definition ETIMEDOUT :: int where [errno]: "ETIMEDOUT = -110"

section \<open>Scanning a table for the first slot\<close>

text \<open>
  The loop \<open>for (i = lo; i < lo + n; i++) if (P(i)) return i;\<close>: the first index
  from \<open>lo\<close> on, among \<open>n\<close>, where the test holds.
\<close>

primrec first_idx :: "(nat \<Rightarrow> bool) \<Rightarrow> nat \<Rightarrow> nat \<Rightarrow> nat option" where
  "first_idx P lo 0 = None"
| "first_idx P lo (Suc n) = (if P lo then Some lo else first_idx P (Suc lo) n)"

lemma first_idx_None [scan]:
  "first_idx P lo n = None \<longleftrightarrow> (\<forall>i. lo \<le> i \<and> i < lo + n \<longrightarrow> \<not> P i)"
proof (induction n arbitrary: lo)
  case (Suc n)
  have "lo \<le> i \<and> i < lo + Suc n \<longleftrightarrow> i = lo \<or> Suc lo \<le> i \<and> i < Suc lo + n" for i
    by arith
  then show ?case using Suc.IH [of "Suc lo"] by auto
qed auto

lemma first_idx_Some [scan]:
  "first_idx P lo n = Some i
    \<longleftrightarrow> lo \<le> i \<and> i < lo + n \<and> P i \<and> (\<forall>j. lo \<le> j \<and> j < i \<longrightarrow> \<not> P j)"
proof (induction n arbitrary: lo)
  case (Suc n)
  show ?case
  proof (cases "P lo")
    case True
    then show ?thesis by (auto intro: le_neq_implies_less)
  next
    case False
    have split: "(lo \<le> j \<and> j < i) = (j = lo \<and> lo < i \<or> Suc lo \<le> j \<and> j < i)" for j
      by arith
    have "(lo \<le> i \<and> i < lo + Suc n \<and> P i) = (Suc lo \<le> i \<and> i < Suc lo + n \<and> P i)"
      using False by (metis Suc_leI add_Suc_shift le_neq_implies_less Suc_leD)
    with False Suc.IH [of "Suc lo"] show ?thesis
      unfolding split by auto
  qed
qed simp

lemma first_idxD:
  assumes "first_idx P lo n = Some i"
  shows "lo \<le> i" "i < lo + n" "P i" "\<And>j. lo \<le> j \<Longrightarrow> j < i \<Longrightarrow> \<not> P j"
  using assms by (auto simp: scan)

lemma first_idx_SomeI:
  assumes "lo \<le> i" "i < lo + n" "P i" "\<And>j. lo \<le> j \<Longrightarrow> j < i \<Longrightarrow> \<not> P j"
  shows "first_idx P lo n = Some i"
  using assms by (auto simp: scan)

lemma first_idx_ex:
  assumes "lo \<le> i" "i < lo + n" "P i"
  obtains k where "first_idx P lo n = Some k" "k \<le> i"
proof (cases "first_idx P lo n")
  case None
  with assms show ?thesis by (auto simp: scan)
next
  case (Some k)
  then have "k \<le> i" using assms by (metis first_idx_Some not_le)
  with Some show ?thesis using that by blast
qed

lemma first_idx_cong:
  "(\<And>i. lo \<le> i \<Longrightarrow> i < lo + n \<Longrightarrow> P i = Q i) \<Longrightarrow> first_idx P lo n = first_idx Q lo n"
  by (induction n arbitrary: lo) auto

section \<open>C strings\<close>

text \<open>
  A C string is the function from an index to the byte there; \<open>nul_at j n s\<close> is where
  a loop over at most \<open>n\<close> bytes from index \<open>j\<close> stops: at the terminator or at the
  bound.
\<close>

type_synonym cstr = "nat \<Rightarrow> u8"

fun nul_at :: "nat \<Rightarrow> nat \<Rightarrow> cstr \<Rightarrow> nat" where
  "nul_at j 0 s = j"
| "nul_at j (Suc n) s = (if s j = 0 then j else nul_at (Suc j) n s)"

lemma nul_at_bounds: "j \<le> nul_at j n s" "nul_at j n s \<le> j + n"
  by (induction j n s rule: nul_at.induct) auto

lemma nul_at_before: "j \<le> i \<Longrightarrow> i < nul_at j n s \<Longrightarrow> s i \<noteq> 0"
proof (induction j n s rule: nul_at.induct)
  case (2 j n s)
  then show ?case by (cases "i = j") (auto split: if_splits)
qed simp

lemma nul_at_nul: "nul_at j n s < j + n \<Longrightarrow> s (nul_at j n s) = 0"
  by (induction j n s rule: nul_at.induct) auto

lemma nul_at_Suc_ge: "nul_at j n s \<le> nul_at j (Suc n) s"
  by (induction j n s rule: nul_at.induct) auto

lemma nul_at_Suc_same: "s (nul_at j n s) = 0 \<Longrightarrow> nul_at j (Suc n) s = nul_at j n s"
  by (induction j n s rule: nul_at.induct) auto

lemma nul_at_eqI:
  assumes "j \<le> m" "m \<le> j + n" "\<And>i. j \<le> i \<Longrightarrow> i < m \<Longrightarrow> s i \<noteq> 0" "m < j + n \<Longrightarrow> s m = 0"
  shows "nul_at j n s = m"
  using assms
proof (induction j n s rule: nul_at.induct)
  case (2 j n s)
  show ?case
  proof (cases "s j = 0")
    case True
    with 2 show ?thesis by (metis le_neq_implies_less nul_at.simps(2) order_refl)
  next
    case False
    with 2 have "j \<noteq> m" by (metis add_Suc_right less_add_Suc1)
    with False 2 show ?thesis by simp
  qed
qed simp

section \<open>Integers and lists\<close>

text \<open>The cast \<open>(i64)x\<close> of a u64 value.\<close>

definition i64_of_u64 :: "nat \<Rightarrow> int" where
  "i64_of_u64 n = (if n < 2 ^ 63 then int n else int n - 2 ^ 64)"

lemma i64_of_u64_small [simp]: "n < 2 ^ 63 \<Longrightarrow> i64_of_u64 n = int n"
  by (simp add: i64_of_u64_def)

lemma take_min_length [simp]: "take (min (length xs) n) xs = take n xs"
  by (metis min.commute take_all_iff take_take linorder_le_cases)

section \<open>Circular buffers\<close>

text \<open>
  The contents of a circular buffer of capacity \<open>cap\<close> that holds \<open>n\<close> elements
  from index \<open>h\<close> on, oldest first.
\<close>

definition ring_list :: "nat \<Rightarrow> (nat \<Rightarrow> 'a) \<Rightarrow> nat \<Rightarrow> nat \<Rightarrow> 'a list" where
  "ring_list cap b h n = map (\<lambda>i. b ((h + i) mod cap)) [0..<n]"

lemma length_ring_list [simp, ring_simps]: "length (ring_list cap b h n) = n"
  by (simp add: ring_list_def)

lemma ring_list_0 [simp, ring_simps]: "ring_list cap b h 0 = []"
  by (simp add: ring_list_def)

lemma ring_list_eq_Nil [simp]: "ring_list cap b h n = [] \<longleftrightarrow> n = 0"
  by (simp add: ring_list_def)

lemma ring_list_Suc:
  "ring_list cap b h (Suc n) = b (h mod cap) # ring_list cap b (Suc h mod cap) n"
proof -
  have "ring_list cap b h (Suc n)
      = b (h mod cap) # map (\<lambda>i. b ((h + Suc i) mod cap)) [0..<n]"
    unfolding ring_list_def
    by (simp add: upt_conv_Cons map_Suc_upt [symmetric] comp_def del: upt_Suc)
  moreover have "(Suc h mod cap + i) mod cap = (h + Suc i) mod cap" for i
    by (simp add: mod_add_left_eq)
  ultimately show ?thesis by (simp add: ring_list_def)
qed

lemma ring_list_hd [ring_simps]:
  "0 < n \<Longrightarrow> h < cap \<Longrightarrow> hd (ring_list cap b h n) = b h"
  by (cases n) (simp_all add: ring_list_Suc)

lemma ring_list_tl [ring_simps]:
  "0 < n \<Longrightarrow> ring_list cap b (Suc h mod cap) (n - Suc 0) = tl (ring_list cap b h n)"
  by (cases n) (simp_all add: ring_list_Suc)

lemma ring_slot_inj:
  assumes "i < n" "n < cap"
  shows "(h + i) mod cap \<noteq> (h + n) mod (cap :: nat)"
proof
  assume "(h + i) mod cap = (h + n) mod cap"
  then have "cap dvd (h + n) - (h + i)"
    using assms by (metis mod_eq_dvd_iff_nat add_le_cancel_left less_imp_le)
  moreover have "(h + n) - (h + i) = n - i" by simp
  ultimately have "cap dvd n - i" by simp
  with assms show False by (metis dvd_imp_le less_imp_diff_less not_le zero_less_diff)
qed

lemma ring_list_put [ring_simps]:
  assumes "n < cap"
  shows "ring_list cap (b((h + n) mod cap := x)) h (Suc n) = ring_list cap b h n @ [x]"
proof -
  have "map (\<lambda>i. (b((h + n) mod cap := x)) ((h + i) mod cap)) [0..<n] = ring_list cap b h n"
    unfolding ring_list_def using ring_slot_inj [OF _ assms] by (intro map_cong) auto
  then show ?thesis by (simp add: ring_list_def)
qed

text \<open>
  The interface of a bounded first-in first-out buffer, as the pipe and the message inbox
  use it: one element goes in when there is room, the oldest comes out.
\<close>

locale bounded_fifo =
  fixes put :: "'a \<Rightarrow> 's \<Rightarrow> 's"
    and get :: "'s \<Rightarrow> 'a \<times> 's"
    and cnt :: "'s \<Rightarrow> nat"
    and cap :: nat
    and items :: "'s \<Rightarrow> 'a list"
    and inv :: "'s \<Rightarrow> bool"
  assumes cnt_items: "inv s \<Longrightarrow> cnt s = length (items s)"
    and items_bound: "inv s \<Longrightarrow> length (items s) \<le> cap"
    and inv_put: "inv s \<Longrightarrow> cnt s < cap \<Longrightarrow> inv (put x s)"
    and items_put: "inv s \<Longrightarrow> cnt s < cap \<Longrightarrow> items (put x s) = items s @ [x]"
    and inv_get: "inv s \<Longrightarrow> cnt s \<noteq> 0 \<Longrightarrow> inv (snd (get s))"
    and fst_get: "inv s \<Longrightarrow> cnt s \<noteq> 0 \<Longrightarrow> fst (get s) = hd (items s)"
    and items_get: "inv s \<Longrightarrow> cnt s \<noteq> 0 \<Longrightarrow> items (snd (get s)) = tl (items s)"
begin

lemma cnt_0: "inv s \<Longrightarrow> cnt s = 0 \<longleftrightarrow> items s = []"
  by (simp add: cnt_items)

lemma get_split:
  assumes "inv s" "cnt s \<noteq> 0"
  shows "items s = fst (get s) # items (snd (get s))"
  using assms by (simp add: fst_get items_get cnt_0)

lemma get_after_put_empty:
  assumes "inv s" "cnt s = 0" "0 < cap"
  shows "fst (get (put x s)) = x" "items (snd (get (put x s))) = []"
proof -
  have p: "items (put x s) = [x]" "inv (put x s)"
    using assms by (simp_all add: items_put inv_put) (simp add: cnt_0)
  then have "cnt (put x s) \<noteq> 0" by (simp add: cnt_items)
  with p show "fst (get (put x s)) = x" "items (snd (get (put x s))) = []"
    by (simp_all add: fst_get items_get)
qed

end

end
