(* ===== verification/Pipe.thy ===== *)
theory Pipe
  imports Prelude
begin

text \<open>
  kernel/pipe.c: the anonymous pipe.  The record is the struct \<open>Pipe\<close>; one byte step of
  each copy loop (\<open>pipe_put\<close>, \<open>pipe_get\<close>) is an instance of the bounded
  first-in first-out interface, and the two loops are shown to move exactly a prefix of the
  data and to report its length, \<open>EAGAIN\<close>, end of file or \<open>EBADF\<close>.
\<close>

definition PIPE_BUF_SIZE :: nat where
  "PIPE_BUF_SIZE = 4096"

record pipe =
  p_buf :: "nat \<Rightarrow> u8"
  p_head :: nat
  p_tail :: nat
  p_count :: nat
  p_read_open :: bool
  p_write_open :: bool

text \<open>\<open>pipe_create\<close> after the allocation succeeded: memset to zero, both ends open.\<close>

definition pipe_empty :: pipe where
  "pipe_empty = \<lparr>p_buf = (\<lambda>_. 0), p_head = 0, p_tail = 0, p_count = 0,
     p_read_open = True, p_write_open = True\<rparr>"

text \<open>The bodies of the two copy loops: one byte out of the head, one byte in at the tail.\<close>

definition pipe_get :: "pipe \<Rightarrow> u8 \<times> pipe" where
  "pipe_get p = (p_buf p (p_head p),
     p\<lparr>p_head := (p_head p + 1) mod PIPE_BUF_SIZE, p_count := p_count p - 1\<rparr>)"

definition pipe_put :: "u8 \<Rightarrow> pipe \<Rightarrow> pipe" where
  "pipe_put x p = p\<lparr>p_buf := (p_buf p)(p_tail p := x),
     p_tail := (p_tail p + 1) mod PIPE_BUF_SIZE, p_count := p_count p + 1\<rparr>"

text \<open>
  The read loop with \<open>k\<close> bytes still to copy and \<open>out\<close> copied so far (in order);
  the result is the return value, the pipe, and the bytes left in the caller's buffer.
\<close>

fun pipe_read_loop :: "nat \<Rightarrow> u8 list \<Rightarrow> pipe \<Rightarrow> int \<times> pipe \<times> u8 list" where
  "pipe_read_loop 0 out p = (int (length out), p, out)"
| "pipe_read_loop (Suc k) out p =
     (if p_count p = 0 then
        (if \<not> p_write_open p then (int (length out), p, out)
         else (if length out > 0 then int (length out) else EAGAIN, p, out))
      else let (x, p') = pipe_get p in pipe_read_loop k (out @ [x]) p')"

definition pipe_read :: "pipe option \<Rightarrow> nat \<Rightarrow> int \<times> pipe option \<times> u8 list" where
  "pipe_read pp n = (case pp of
     None \<Rightarrow> (EBADF, None, [])
   | Some p \<Rightarrow>
       (if \<not> p_read_open p then (EBADF, pp, [])
        else if n = 0 then (0, pp, [])
        else let (r, p', out) = pipe_read_loop n [] p in (r, Some p', out)))"

text \<open>The write loop: \<open>w\<close> bytes are written, the list is what is left to write.\<close>

fun pipe_write_loop :: "nat \<Rightarrow> u8 list \<Rightarrow> pipe \<Rightarrow> int \<times> pipe" where
  "pipe_write_loop w [] p = (int w, p)"
| "pipe_write_loop w (x # xs) p =
     (if p_count p = PIPE_BUF_SIZE then (if w > 0 then int w else EAGAIN, p)
      else pipe_write_loop (Suc w) xs (pipe_put x p))"

definition pipe_write :: "pipe option \<Rightarrow> u8 list \<Rightarrow> int \<times> pipe option" where
  "pipe_write pp xs = (case pp of
     None \<Rightarrow> (EBADF, None)
   | Some p \<Rightarrow>
       (if \<not> p_write_open p then (EBADF, pp)
        else if xs = [] then (0, pp)
        else let (r, p') = pipe_write_loop 0 xs p in (r, Some p')))"

section \<open>Contents and invariant\<close>

definition pipe_items :: "pipe \<Rightarrow> u8 list" where
  "pipe_items p = ring_list PIPE_BUF_SIZE (p_buf p) (p_head p) (p_count p)"

definition pipe_inv :: "pipe \<Rightarrow> bool" where
  "pipe_inv p \<longleftrightarrow> p_head p < PIPE_BUF_SIZE \<and> p_count p \<le> PIPE_BUF_SIZE \<and>
     p_tail p = (p_head p + p_count p) mod PIPE_BUF_SIZE"

lemma PIPE_BUF_SIZE_pos [simp]: "0 < PIPE_BUF_SIZE"
  by (simp add: PIPE_BUF_SIZE_def)

lemma pipe_inv_empty [simp]: "pipe_inv pipe_empty"
  and pipe_items_empty [simp]: "pipe_items pipe_empty = []"
  and pipe_empty_ends [simp]: "p_read_open pipe_empty" "p_write_open pipe_empty"
  by (simp_all add: pipe_inv_def pipe_items_def pipe_empty_def)

interpretation pq: bounded_fifo pipe_put pipe_get p_count PIPE_BUF_SIZE pipe_items pipe_inv
proof unfold_locales
  fix p x
  assume inv: "pipe_inv p"
  show "p_count p = length (pipe_items p)" "length (pipe_items p) \<le> PIPE_BUF_SIZE"
    using inv by (simp_all add: pipe_items_def pipe_inv_def)
  show "pipe_inv (pipe_put x p)" if "p_count p < PIPE_BUF_SIZE"
    using inv that by (simp add: pipe_inv_def pipe_put_def mod_Suc_eq)
  show "pipe_items (pipe_put x p) = pipe_items p @ [x]" if "p_count p < PIPE_BUF_SIZE"
    using inv that by (simp add: pipe_inv_def pipe_items_def pipe_put_def ring_simps)
next
  fix p
  assume inv: "pipe_inv p" and ne: "p_count p \<noteq> 0"
  from inv have "(Suc (p_head p) mod PIPE_BUF_SIZE + (p_count p - Suc 0)) mod PIPE_BUF_SIZE
      = p_tail p"
    using ne by (cases "p_count p") (simp_all add: pipe_inv_def mod_add_left_eq)
  then show "pipe_inv (snd (pipe_get p))"
    using inv by (auto simp: pipe_inv_def pipe_get_def)
  show "fst (pipe_get p) = hd (pipe_items p)"
    using inv ne by (simp add: pipe_inv_def pipe_items_def pipe_get_def ring_simps)
  show "pipe_items (snd (pipe_get p)) = tl (pipe_items p)"
    using inv ne by (simp add: pipe_inv_def pipe_items_def pipe_get_def ring_simps)
qed

lemma pipe_get_ends [simp]:
  "p_read_open (snd (pipe_get p)) = p_read_open p"
  "p_write_open (snd (pipe_get p)) = p_write_open p"
  by (simp_all add: pipe_get_def)

lemma pipe_put_ends [simp]:
  "p_read_open (pipe_put x p) = p_read_open p"
  "p_write_open (pipe_put x p) = p_write_open p"
  by (simp_all add: pipe_put_def)

section \<open>The loops move a prefix\<close>

definition read_result :: "pipe \<Rightarrow> u8 list \<Rightarrow> nat \<Rightarrow> int" where
  "read_result p out k = (if out = [] \<and> 0 < k \<and> p_write_open p then EAGAIN else int (length out))"

lemma pipe_read_loop_spec:
  assumes "pipe_inv p"
  obtains p' where
    "pipe_read_loop k out p =
       (read_result p (out @ take k (pipe_items p)) k, p', out @ take k (pipe_items p))"
    "pipe_inv p'" "pipe_items p' = drop k (pipe_items p)"
    "p_read_open p' = p_read_open p" "p_write_open p' = p_write_open p"
  using assms
proof (induction k arbitrary: out p thesis)
  case 0
  show ?case by (rule "0.prems"(1) [of p]) (simp_all add: "0.prems" read_result_def)
next
  case (Suc k)
  show ?case
  proof (cases "p_count p = 0")
    case True
    then have "pipe_items p = []" using Suc.prems(2) by (simp add: pq.cnt_0)
    then show ?thesis
      by (intro Suc.prems(1) [of p]) (use True in \<open>simp_all add: Suc.prems read_result_def\<close>)
  next
    case False
    let ?q = "snd (pipe_get p)" and ?x = "fst (pipe_get p)"
    have inv: "pipe_inv ?q" using Suc.prems(2) False by (rule pq.inv_get)
    have items: "pipe_items p = ?x # pipe_items ?q"
      using Suc.prems(2) False by (rule pq.get_split)
    obtain p' where p': "pipe_read_loop k (out @ [?x]) ?q =
         (read_result ?q ((out @ [?x]) @ take k (pipe_items ?q)) k, p',
          (out @ [?x]) @ take k (pipe_items ?q))"
       "pipe_inv p'" "pipe_items p' = drop k (pipe_items ?q)"
       "p_read_open p' = p_read_open p" "p_write_open p' = p_write_open p"
      using Suc.IH [OF _ inv] by (metis pipe_get_ends)
    show ?thesis
      by (rule Suc.prems(1) [of p'])
        (use p' False in \<open>simp_all add: items read_result_def case_prod_beta\<close>)
  qed
qed

lemma pipe_write_loop_spec:
  assumes "pipe_inv p"
  obtains p' where
    "pipe_write_loop w xs p =
       (let m = min (length xs) (PIPE_BUF_SIZE - p_count p) in
        if m + w = 0 \<and> xs \<noteq> [] then EAGAIN else int (w + m), p')"
    "pipe_inv p'"
    "pipe_items p' = pipe_items p @ take (PIPE_BUF_SIZE - p_count p) xs"
    "p_read_open p' = p_read_open p" "p_write_open p' = p_write_open p"
  using assms
proof (induction xs arbitrary: w p thesis)
  case Nil
  show ?case by (rule Nil.prems(1) [of p]) (simp_all add: Nil.prems)
next
  case (Cons x xs)
  have bound: "p_count p \<le> PIPE_BUF_SIZE" using Cons.prems(2) by (simp add: pipe_inv_def)
  show ?case
  proof (cases "p_count p = PIPE_BUF_SIZE")
    case True
    then show ?thesis
      by (intro Cons.prems(1) [of p]) (simp_all add: Cons.prems)
  next
    case False
    with bound have room: "p_count p < PIPE_BUF_SIZE" by simp
    let ?q = "pipe_put x p"
    have q: "pipe_inv ?q" "pipe_items ?q = pipe_items p @ [x]" "p_count ?q = Suc (p_count p)"
      using Cons.prems(2) room by (simp_all add: pq.inv_put pq.items_put) (simp add: pipe_put_def)
    obtain p' where p': "pipe_write_loop (Suc w) xs ?q =
         (let m = min (length xs) (PIPE_BUF_SIZE - p_count ?q) in
          if m + Suc w = 0 \<and> xs \<noteq> [] then EAGAIN else int (Suc w + m), p')"
       "pipe_inv p'" "pipe_items p' = pipe_items ?q @ take (PIPE_BUF_SIZE - p_count ?q) xs"
       "p_read_open p' = p_read_open p" "p_write_open p' = p_write_open p"
      using Cons.IH [OF _ q(1)] by (metis pipe_put_ends)
    obtain d where d: "PIPE_BUF_SIZE - p_count p = Suc d"
      using room by (metis Suc_diff_Suc)
    then have d': "PIPE_BUF_SIZE - Suc (p_count p) = d" by simp
    show ?thesis
      by (rule Cons.prems(1) [of p'])
        (use p' room in \<open>simp_all add: q d d' Let_def\<close>)
  qed
qed

section \<open>Properties\<close>

lemma pipe_readE:
  assumes "pipe_inv p" "p_read_open p"
  obtains p' where
    "pipe_read (Some p) n =
      (read_result p (take n (pipe_items p)) n, Some p', take n (pipe_items p))"
    "pipe_inv p'" "pipe_items p' = drop n (pipe_items p)"
    "p_read_open p' = p_read_open p" "p_write_open p' = p_write_open p"
proof (cases "n = 0")
  case True
  then show ?thesis
    by (intro that [of p]) (use assms in \<open>simp_all add: pipe_read_def read_result_def\<close>)
next
  case False
  obtain p' where p': "pipe_read_loop n [] p =
       (read_result p ([] @ take n (pipe_items p)) n, p', [] @ take n (pipe_items p))"
     "pipe_inv p'" "pipe_items p' = drop n (pipe_items p)"
     "p_read_open p' = p_read_open p" "p_write_open p' = p_write_open p"
    using pipe_read_loop_spec [OF assms(1)] by metis
  show ?thesis
    by (rule that [of p']) (use p' False assms in \<open>simp_all add: pipe_read_def\<close>)
qed

lemma pipe_writeE:
  assumes "pipe_inv p" "p_write_open p"
  obtains p' where
    "pipe_write (Some p) xs =
       (if p_count p = PIPE_BUF_SIZE \<and> xs \<noteq> [] then EAGAIN
        else int (min (length xs) (PIPE_BUF_SIZE - p_count p)), Some p')"
    "pipe_inv p'" "pipe_items p' = pipe_items p @ take (PIPE_BUF_SIZE - p_count p) xs"
    "p_read_open p' = p_read_open p" "p_write_open p' = p_write_open p"
proof (cases "xs = []")
  case True
  then show ?thesis
    by (intro that [of p]) (use assms in \<open>simp_all add: pipe_write_def\<close>)
next
  case False
  have "p_count p \<le> PIPE_BUF_SIZE" using assms(1) by (simp add: pipe_inv_def)
  moreover obtain p' where p': "pipe_write_loop 0 xs p =
       (let m = min (length xs) (PIPE_BUF_SIZE - p_count p) in
        if m + 0 = 0 \<and> xs \<noteq> [] then EAGAIN else int (0 + m), p')"
     "pipe_inv p'" "pipe_items p' = pipe_items p @ take (PIPE_BUF_SIZE - p_count p) xs"
     "p_read_open p' = p_read_open p" "p_write_open p' = p_write_open p"
    using pipe_write_loop_spec [OF assms(1)] by metis
  ultimately show ?thesis
    by (intro that [of p'])
      (use p' False assms in \<open>auto simp: pipe_write_def Let_def min_def\<close>)
qed

text \<open>pipe_read hands out exactly the first \<open>n\<close> bytes waiting in the pipe, keeps
  the rest in order, and reports the number of bytes, EAGAIN when nothing is waiting and the
  writer is still there, or 0 (end of file) when it is gone.\<close>
theorem pipe_read_correct:
  assumes "pipe_inv p" "p_read_open p" "0 < n"
  shows "\<exists>p'. pipe_read (Some p) n =
           (if pipe_items p = [] then (if p_write_open p then EAGAIN else 0)
            else int (min n (p_count p)), Some p', take n (pipe_items p))
         \<and> pipe_inv p' \<and> pipe_items p' = drop n (pipe_items p)"
  by (rule pipe_readE [OF assms(1,2), of n])
    (use assms in \<open>auto simp: read_result_def pq.cnt_items\<close>)

theorem pipe_read_correct_witness:
  "\<exists>p'. pipe_read (Some (pipe_put 7 pipe_empty)) 3 = (1, Some p', [7]) \<and> pipe_items p' = []"
proof -
  have inv: "pipe_inv (pipe_put 7 pipe_empty)" and items: "pipe_items (pipe_put 7 pipe_empty) = [7]"
    by (simp_all add: pq.inv_put pq.items_put pq.cnt_items)
  have "p_read_open (pipe_put 7 pipe_empty)" by (simp add: pipe_empty_def)
  from pipe_read_correct [OF inv this, of 3] show ?thesis
    by (auto simp: items pq.cnt_items inv)
qed

text \<open>pipe_write appends the longest prefix of the data that fits, reports its length, and
  says EAGAIN exactly when the buffer is full already; the capacity is never exceeded.\<close>
theorem pipe_write_correct:
  assumes "pipe_inv p" "p_write_open p" "xs \<noteq> []"
  shows "\<exists>p'. pipe_write (Some p) xs =
           (if p_count p = PIPE_BUF_SIZE then EAGAIN
            else int (min (length xs) (PIPE_BUF_SIZE - p_count p)), Some p')
         \<and> pipe_inv p' \<and> pipe_items p' = pipe_items p @ take (PIPE_BUF_SIZE - p_count p) xs"
  by (rule pipe_writeE [OF assms(1,2), of xs]) (use assms in auto)

theorem pipe_write_correct_witness:
  "\<exists>p'. pipe_write (Some pipe_empty) [1, 2] = (2, Some p') \<and> pipe_items p' = [1, 2]"
proof -
  have "p_write_open pipe_empty" "p_count pipe_empty = 0" by (simp_all add: pipe_empty_def)
  with pipe_write_correct [OF pipe_inv_empty, of "[1, 2]"] show ?thesis
    by (auto simp: PIPE_BUF_SIZE_def)
qed

text \<open>A history of a pipe: reads and writes in any order, with what each one moved.\<close>

datatype pipe_op = P_read nat | P_write "u8 list"

text \<open>One call: the pipe after it, the bytes it handed to the reader, the bytes it accepted
  from the writer (as many as the return value says).\<close>

fun pipe_step :: "pipe option \<Rightarrow> pipe_op \<Rightarrow> pipe option \<times> u8 list \<times> u8 list" where
  "pipe_step pp (P_read n) = (let (r, pp', out) = pipe_read pp n in (pp', take (nat r) out, []))"
| "pipe_step pp (P_write xs) = (let (r, pp') = pipe_write pp xs in (pp', [], take (nat r) xs))"

fun pipe_run :: "pipe option \<Rightarrow> pipe_op list \<Rightarrow> pipe option \<times> u8 list \<times> u8 list" where
  "pipe_run pp [] = (pp, [], [])"
| "pipe_run pp (x # xs) =
     (let (pp1, r1, w1) = pipe_step pp x; (pp2, r2, w2) = pipe_run pp1 xs
      in (pp2, r1 @ r2, w1 @ w2))"

lemma pipe_step_stream:
  assumes "pipe_inv p" "p_read_open p" "p_write_open p"
  obtains p' r w where "pipe_step (Some p) x = (Some p', r, w)" "pipe_inv p'"
    "p_read_open p'" "p_write_open p'" "pipe_items p @ w = r @ pipe_items p'"
proof (cases x)
  case (P_read n)
  obtain p' where p': "pipe_read (Some p) n =
      (read_result p (take n (pipe_items p)) n, Some p', take n (pipe_items p))"
    "pipe_inv p'" "pipe_items p' = drop n (pipe_items p)"
    "p_read_open p'" "p_write_open p'"
    using pipe_readE [OF assms(1,2)] assms by metis
  have "take (nat (read_result p (take n (pipe_items p)) n)) (take n (pipe_items p))
      = take n (pipe_items p)"
    by (auto simp: read_result_def errno)
  with p' P_read show ?thesis
    by (intro that [of p' "take n (pipe_items p)" "[]"]) simp_all
next
  case (P_write xs)
  obtain p' where p': "pipe_write (Some p) xs =
       (if p_count p = PIPE_BUF_SIZE \<and> xs \<noteq> [] then EAGAIN
        else int (min (length xs) (PIPE_BUF_SIZE - p_count p)), Some p')"
    "pipe_inv p'" "pipe_items p' = pipe_items p @ take (PIPE_BUF_SIZE - p_count p) xs"
    "p_read_open p'" "p_write_open p'"
    using pipe_writeE [OF assms(1,3)] assms by metis
  have "take (nat (fst (pipe_write (Some p) xs))) xs = take (PIPE_BUF_SIZE - p_count p) xs"
    by (simp add: p' errno min_def)
  with p' P_write show ?thesis
    by (intro that [of p' "[]" "take (PIPE_BUF_SIZE - p_count p) xs"]) (simp_all add: case_prod_beta)
qed

text \<open>C28: over any sequence of reads and writes of an open pipe, the bytes handed to the readers
  followed by the bytes still buffered are the bytes that were buffered at the start followed
  by the bytes accepted from the writers: nothing is lost, duplicated or reordered.\<close>
theorem pipe_stream_preserved:
  assumes "pipe_inv p" "p_read_open p" "p_write_open p"
  shows "\<exists>p' r w. pipe_run (Some p) ops = (Some p', r, w) \<and> pipe_inv p' \<and>
           pipe_items p @ w = r @ pipe_items p'"
  using assms
proof (induction ops arbitrary: p)
  case (Cons x ops)
  obtain p1 r1 w1 where s: "pipe_step (Some p) x = (Some p1, r1, w1)" "pipe_inv p1"
      "p_read_open p1" "p_write_open p1" "pipe_items p @ w1 = r1 @ pipe_items p1"
    using pipe_step_stream [OF Cons.prems] by metis
  obtain p2 r2 w2 where "pipe_run (Some p1) ops = (Some p2, r2, w2)" "pipe_inv p2"
      "pipe_items p1 @ w2 = r2 @ pipe_items p2"
    using Cons.IH [OF s(2-4)] by blast
  moreover from this s(5) have "pipe_items p @ w1 @ w2 = r1 @ r2 @ pipe_items p2"
    by (metis append.assoc)
  ultimately show ?case using s(1) by auto
qed simp

theorem pipe_stream_preserved_witness:
  "\<exists>p' r w. pipe_run (Some pipe_empty) [P_write [1, 2, 3], P_read 2] = (Some p', r, w)
     \<and> w = r @ pipe_items p'"
  using pipe_stream_preserved [OF pipe_inv_empty, of "[P_write [1, 2, 3], P_read 2]"]
  by (auto simp del: pipe_run.simps)

end
