(* ===== verification/ProcTable.thy ===== *)
theory ProcTable
  imports Prelude
begin

text \<open>
  The process table of include/kernel.h and kernel/process.c: the process control block, its
  states, and the two searches of the table every other component makes (the running
  process, a process by its number).
\<close>

definition PROC_MAX :: nat where "PROC_MAX = 64"

definition PSTATE_EMPTY :: nat where "PSTATE_EMPTY = 0"
definition PSTATE_READY :: nat where "PSTATE_READY = 1"
definition PSTATE_RUNNING :: nat where "PSTATE_RUNNING = 2"
definition PSTATE_DEAD :: nat where "PSTATE_DEAD = 3"
definition PSTATE_BLOCKED :: nat where "PSTATE_BLOCKED = 4"

lemmas pstate_defs = PSTATE_EMPTY_def PSTATE_READY_def PSTATE_RUNNING_def PSTATE_DEAD_def
  PSTATE_BLOCKED_def

record pcb =
  pcb_state :: nat
  pcb_kstack :: u64
  pcb_ursp :: u64
  pcb_entry :: u64
  pcb_pid :: nat
  pcb_cr3 :: nat
  pcb_brk :: u64
  pcb_name :: "u8 list"
  pcb_kbase :: nat
  pcb_vma_table :: nat

type_synonym proc_table = "nat \<Rightarrow> pcb"

definition pcb_zero :: pcb where
  "pcb_zero = \<lparr>pcb_state = PSTATE_EMPTY, pcb_kstack = 0, pcb_ursp = 0, pcb_entry = 0, pcb_pid = 0,
     pcb_cr3 = 0, pcb_brk = 0, pcb_name = [], pcb_kbase = 0, pcb_vma_table = 0\<rparr>"

text \<open>\<open>process_init\<close>: memset of the whole table.\<close>

definition process_init :: proc_table where
  "process_init = (\<lambda>_. pcb_zero)"

text \<open>\<open>process_current_pcb\<close>: the first slot whose state is RUNNING, as a slot index.\<close>

definition process_current_pcb :: "proc_table \<Rightarrow> nat option" where
  "process_current_pcb T = first_idx (\<lambda>i. pcb_state (T i) = PSTATE_RUNNING) 0 PROC_MAX"

text \<open>Writing the state word of one slot, as every component that kills or wakes does.\<close>

definition set_pstate :: "nat \<Rightarrow> nat \<Rightarrow> proc_table \<Rightarrow> proc_table" where
  "set_pstate i st T = T(i := (T i)\<lparr>pcb_state := st\<rparr>)"

lemma set_pstate_same [simp]: "pcb_state (set_pstate i st T i) = st"
  and set_pstate_other [simp]: "j \<noteq> i \<Longrightarrow> set_pstate i st T j = T j"
  and set_pstate_pid [simp]: "pcb_pid (set_pstate i st T j) = pcb_pid (T j)"
  by (simp_all add: set_pstate_def)

text \<open>
  What process_create establishes and every operation keeps: the process of slot \<open>i\<close> is
  numbered \<open>i + 1\<close> (a slot that has never been used has number 0).
\<close>

definition pids_ok :: "proc_table \<Rightarrow> bool" where
  "pids_ok T \<longleftrightarrow> (\<forall>i < PROC_MAX. pcb_state (T i) \<noteq> PSTATE_EMPTY \<longrightarrow> pcb_pid (T i) = Suc i)"

lemma pids_ok_init [simp]: "pids_ok process_init"
  by (simp add: pids_ok_def process_init_def pcb_zero_def)

lemma pids_okD:
  "pids_ok T \<Longrightarrow> i < PROC_MAX \<Longrightarrow> pcb_state (T i) \<noteq> PSTATE_EMPTY \<Longrightarrow> pcb_pid (T i) = Suc i"
  by (simp add: pids_ok_def)

lemma pids_ok_set_pstate:
  "pids_ok T \<Longrightarrow> pcb_state (T i) \<noteq> PSTATE_EMPTY \<Longrightarrow> pids_ok (set_pstate i st T)"
  by (auto simp: pids_ok_def set_pstate_def)

lemma process_current_pcbD:
  assumes "process_current_pcb T = Some i"
  shows "i < PROC_MAX" "pcb_state (T i) = PSTATE_RUNNING"
  using assms by (auto simp: process_current_pcb_def scan)

end
