(* ===== verification/Signal.thy ===== *)
theory Signal
  imports ProcTable
begin

text \<open>
  kernel/signal.c: the signal tables, one per process slot, and the five operations.  A handler
  is the u64 address of the code (SIG_DFL = 0, SIG_IGN = 1, SIG_ERR = -1).  Delivery pushes
  two words on the user stack of the process; the user memory is a map of u64 words.
\<close>

definition MAX_SIGNAL :: nat where "MAX_SIGNAL = 32"
definition SIGKILL :: nat where "SIGKILL = 9"
definition SIGCHLD :: nat where "SIGCHLD = 17"
definition SIGCONT :: nat where "SIGCONT = 18"
definition SIGSTOP :: nat where "SIGSTOP = 19"
definition SIG_DFL :: u64 where "SIG_DFL = 0"
definition SIG_IGN :: u64 where "SIG_IGN = 1"
definition SIG_ERR :: u64 where "SIG_ERR = - 1"

lemmas signo_defs = MAX_SIGNAL_def SIGKILL_def SIGCHLD_def SIGCONT_def SIGSTOP_def

record sigaction =
  sa_handler :: u64
  sa_mask :: u64
  sa_flags :: int

record signal_state =
  ss_pending :: u64
  ss_blocked :: u64
  ss_actions :: "nat \<Rightarrow> sigaction"

record sig_sys =
  sg_procs :: proc_table
  sg_sigs :: "nat \<Rightarrow> signal_state"
  sg_umem :: "u64 \<Rightarrow> u64"

definition signal_state_zero :: signal_state where
  "signal_state_zero = \<lparr>ss_pending = 0, ss_blocked = 0,
     ss_actions = (\<lambda>_. \<lparr>sa_handler = 0, sa_mask = 0, sa_flags = 0\<rparr>)\<rparr>"

definition signal_init :: "sig_sys \<Rightarrow> sig_sys" where
  "signal_init s = s\<lparr>sg_sigs := (\<lambda>_. signal_state_zero)\<rparr>"

text \<open>
  The slot of the calling process: \<open>(int)(pcb->pid - 1)\<close>, the lower 32 bits of the
  difference read as a signed number, rejected outside the table.  A pid of 0 gives -1 and is
  rejected too.
\<close>

definition sig_slot :: "nat \<Rightarrow> nat option" where
  "sig_slot pid =
     (let idx = sint (of_nat pid - 1 :: u32)
      in if idx < 0 \<or> idx \<ge> int PROC_MAX then None else Some (nat idx))"

definition sig_caller :: "sig_sys \<Rightarrow> nat option" where
  "sig_caller s = (case process_current_pcb (sg_procs s) of
     None \<Rightarrow> None | Some i \<Rightarrow> sig_slot (pcb_pid (sg_procs s i)))"

definition sig_settable :: "int \<Rightarrow> bool" where
  "sig_settable signum \<longleftrightarrow>
     \<not> (signum < 1 \<or> signum \<ge> int MAX_SIGNAL) \<and>
     \<not> (signum = int SIGKILL \<or> signum = int SIGSTOP)"

definition put_action :: "nat \<Rightarrow> nat \<Rightarrow> sigaction \<Rightarrow> sig_sys \<Rightarrow> sig_sys" where
  "put_action idx sig a s =
     s\<lparr>sg_sigs := (sg_sigs s)(idx := (sg_sigs s idx)
         \<lparr>ss_actions := (ss_actions (sg_sigs s idx))(sig := a)\<rparr>)\<rparr>"

text \<open>The result is the previous handler, or SIG_ERR.\<close>

definition sys_signal :: "int \<Rightarrow> u64 \<Rightarrow> sig_sys \<Rightarrow> u64 \<times> sig_sys" where
  "sys_signal signum handler s =
     (if \<not> sig_settable signum then (SIG_ERR, s)
      else case sig_caller s of
        None \<Rightarrow> (SIG_ERR, s)
      | Some idx \<Rightarrow>
          (let a = ss_actions (sg_sigs s idx) (nat signum)
           in (sa_handler a, put_action idx (nat signum) (a\<lparr>sa_handler := handler\<rparr>) s)))"

text \<open>\<open>act\<close> and \<open>oldact\<close> may be NULL; the second result is what is stored through
  \<open>oldact\<close>.\<close>

definition sys_sigaction ::
  "int \<Rightarrow> sigaction option \<Rightarrow> bool \<Rightarrow> sig_sys \<Rightarrow> int \<times> sigaction option \<times> sig_sys" where
  "sys_sigaction signum act want_old s =
     (if \<not> sig_settable signum then (EINVAL, None, s)
      else case sig_caller s of
        None \<Rightarrow> (EINVAL, None, s)
      | Some idx \<Rightarrow>
          (0, if want_old then Some (ss_actions (sg_sigs s idx) (nat signum)) else None,
           case act of None \<Rightarrow> s | Some a \<Rightarrow> put_action idx (nat signum) a s))"

definition put_blocked :: "nat \<Rightarrow> u64 \<Rightarrow> sig_sys \<Rightarrow> sig_sys" where
  "put_blocked idx m s = s\<lparr>sg_sigs := (sg_sigs s)(idx := (sg_sigs s idx)\<lparr>ss_blocked := m\<rparr>)\<rparr>"

definition sys_sigprocmask ::
  "int \<Rightarrow> u64 option \<Rightarrow> bool \<Rightarrow> sig_sys \<Rightarrow> int \<times> u64 option \<times> sig_sys" where
  "sys_sigprocmask how set_mask want_old s =
     (case sig_caller s of
        None \<Rightarrow> (EINVAL, None, s)
      | Some idx \<Rightarrow>
          (let old = (if want_old then Some (ss_blocked (sg_sigs s idx)) else None);
               b = ss_blocked (sg_sigs s idx)
           in case set_mask of
                None \<Rightarrow> (0, old, s)
              | Some m \<Rightarrow>
                  (if how = 0 then (0, old, put_blocked idx m s)
                   else if how = 1 then (0, old, put_blocked idx (b OR m) s)
                   else if how = 2 then (0, old, put_blocked idx (b AND NOT m) s)
                   else (EINVAL, old, s))))"

definition add_pending :: "nat \<Rightarrow> nat \<Rightarrow> sig_sys \<Rightarrow> sig_sys" where
  "add_pending idx sig s =
     s\<lparr>sg_sigs := (sg_sigs s)(idx := (sg_sigs s idx)
         \<lparr>ss_pending := ss_pending (sg_sigs s idx) OR push_bit sig 1\<rparr>)\<rparr>"

text \<open>
  \<open>sys_kill\<close>: the first live slot whose number matches (any live slot for pid
  \<open>(u64)-1\<close>); signal 0 only probes, SIGKILL marks the process dead at once.
\<close>

definition kill_target :: "nat \<Rightarrow> sig_sys \<Rightarrow> nat option" where
  "kill_target pid s = first_idx (\<lambda>i.
     \<not> (pcb_state (sg_procs s i) = PSTATE_EMPTY \<or> pcb_state (sg_procs s i) = PSTATE_DEAD) \<and>
     (pcb_pid (sg_procs s i) = pid \<or> pid = 2 ^ 64 - 1)) 0 PROC_MAX"

definition sys_kill :: "nat \<Rightarrow> int \<Rightarrow> sig_sys \<Rightarrow> int \<times> sig_sys" where
  "sys_kill pid signum s =
     (if signum < 0 \<or> signum \<ge> int MAX_SIGNAL then (EINVAL, s)
      else if pid = 0 then (EPERM, s)
      else case kill_target pid s of
        None \<Rightarrow> (ESRCH, s)
      | Some i \<Rightarrow>
          (if signum = 0 then (0, s)
           else if signum = int SIGKILL
             then (0, s\<lparr>sg_procs := set_pstate i PSTATE_DEAD (sg_procs s)\<rparr>)
           else (0, add_pending i (nat signum) s)))"

text \<open>
  \<open>signal_deliver\<close>: the loop over \<open>sig = 1 .. 31\<close>, with \<open>k\<close> numbers left.
  \<open>pending\<close> is the set sampled before the loop; each signal looked at is cleared in
  the stored set; ignored ones are skipped, the first other one ends the loop.
\<close>

definition clear_pending :: "nat \<Rightarrow> nat \<Rightarrow> sig_sys \<Rightarrow> sig_sys" where
  "clear_pending idx sig s =
     s\<lparr>sg_sigs := (sg_sigs s)(idx := (sg_sigs s idx)
         \<lparr>ss_pending := ss_pending (sg_sigs s idx) AND NOT (push_bit sig 1)\<rparr>)\<rparr>"

definition enter_handler :: "nat \<Rightarrow> nat \<Rightarrow> u64 \<Rightarrow> sig_sys \<Rightarrow> sig_sys" where
  "enter_handler i sig handler s =
     (let p = sg_procs s i; sp1 = pcb_ursp p - 8; sp2 = sp1 - 8
      in s\<lparr>sg_umem := (sg_umem s)(sp1 := of_nat sig, sp2 := pcb_entry p),
           sg_procs := (sg_procs s)(i := p\<lparr>pcb_ursp := sp2, pcb_entry := handler\<rparr>)\<rparr>)"

fun deliver_loop :: "nat \<Rightarrow> nat \<Rightarrow> u64 \<Rightarrow> nat \<Rightarrow> nat \<Rightarrow> sig_sys \<Rightarrow> sig_sys" where
  "deliver_loop i idx pending sig 0 s = s"
| "deliver_loop i idx pending sig (Suc k) s =
     (if \<not> bit pending sig then deliver_loop i idx pending (Suc sig) k s
      else let s1 = clear_pending idx sig s;
               handler = sa_handler (ss_actions (sg_sigs s1 idx) sig)
           in if handler = SIG_DFL then
                (if sig = SIGCHLD \<or> sig = SIGCONT then deliver_loop i idx pending (Suc sig) k s1
                 else s1\<lparr>sg_procs := set_pstate i PSTATE_DEAD (sg_procs s1)\<rparr>)
              else if handler = SIG_IGN then deliver_loop i idx pending (Suc sig) k s1
              else enter_handler i sig handler s1)"

definition signal_pending :: "nat option \<Rightarrow> sig_sys \<Rightarrow> u64" where
  "signal_pending pcb s = (case pcb of
     None \<Rightarrow> 0
   | Some i \<Rightarrow> (case sig_slot (pcb_pid (sg_procs s i)) of
       None \<Rightarrow> 0
     | Some idx \<Rightarrow> ss_pending (sg_sigs s idx) AND NOT (ss_blocked (sg_sigs s idx))))"

definition signal_deliver :: "nat option \<Rightarrow> sig_sys \<Rightarrow> sig_sys" where
  "signal_deliver pcb s = (case pcb of
     None \<Rightarrow> s
   | Some i \<Rightarrow> (case sig_slot (pcb_pid (sg_procs s i)) of
       None \<Rightarrow> s
     | Some idx \<Rightarrow>
         (let pending = ss_pending (sg_sigs s idx) AND NOT (ss_blocked (sg_sigs s idx))
          in if pending = 0 then s
             else deliver_loop i idx pending 1 (MAX_SIGNAL - 1) s)))"

section \<open>What delivery does\<close>

text \<open>
  The abstract account of one delivery: the signals that are pending and not blocked are
  looked at in increasing order; those whose disposition is to be ignored are dropped, and
  the first one that is not decides.
\<close>

definition sig_ignored :: "sig_sys \<Rightarrow> nat \<Rightarrow> nat \<Rightarrow> bool" where
  "sig_ignored s idx sig \<longleftrightarrow>
     (let h = sa_handler (ss_actions (sg_sigs s idx) sig)
      in h = SIG_IGN \<or> h = SIG_DFL \<and> (sig = SIGCHLD \<or> sig = SIGCONT))"

definition sig_act :: "nat \<Rightarrow> nat \<Rightarrow> nat \<Rightarrow> sig_sys \<Rightarrow> sig_sys" where
  "sig_act i idx sig s =
     (let h = sa_handler (ss_actions (sg_sigs s idx) sig)
      in if h = SIG_DFL then s\<lparr>sg_procs := set_pstate i PSTATE_DEAD (sg_procs s)\<rparr>
         else enter_handler i sig h s)"

definition clear_upto :: "nat \<Rightarrow> u64 \<Rightarrow> nat \<Rightarrow> nat \<Rightarrow> sig_sys \<Rightarrow> sig_sys" where
  "clear_upto idx pend lo hi s =
     fold (\<lambda>n s. if bit pend n then clear_pending idx n s else s) [lo..<hi] s"

lemma clear_pending_frame [simp]:
  "ss_actions (sg_sigs (clear_pending idx n s) j) = ss_actions (sg_sigs s j)"
  "ss_blocked (sg_sigs (clear_pending idx n s) j) = ss_blocked (sg_sigs s j)"
  "sg_procs (clear_pending idx n s) = sg_procs s"
  "sg_umem (clear_pending idx n s) = sg_umem s"
  by (simp_all add: clear_pending_def)

lemma sig_ignored_clear [simp]: "sig_ignored (clear_pending idx n s) j = sig_ignored s j"
  by (simp add: sig_ignored_def fun_eq_iff)

lemma clear_upto_frame [simp]:
  "ss_actions (sg_sigs (clear_upto idx pend lo hi s) j) = ss_actions (sg_sigs s j)"
  "ss_blocked (sg_sigs (clear_upto idx pend lo hi s) j) = ss_blocked (sg_sigs s j)"
  "sg_procs (clear_upto idx pend lo hi s) = sg_procs s"
  "sg_umem (clear_upto idx pend lo hi s) = sg_umem s"
proof -
  have "ss_actions (sg_sigs (fold (\<lambda>n s. if bit pend n then clear_pending idx n s else s) ns s) j)
          = ss_actions (sg_sigs s j) \<and>
        ss_blocked (sg_sigs (fold (\<lambda>n s. if bit pend n then clear_pending idx n s else s) ns s) j)
          = ss_blocked (sg_sigs s j) \<and>
        sg_procs (fold (\<lambda>n s. if bit pend n then clear_pending idx n s else s) ns s) = sg_procs s \<and>
        sg_umem (fold (\<lambda>n s. if bit pend n then clear_pending idx n s else s) ns s) = sg_umem s"
    for ns by (induction ns arbitrary: s) auto
  then show "ss_actions (sg_sigs (clear_upto idx pend lo hi s) j) = ss_actions (sg_sigs s j)"
    "ss_blocked (sg_sigs (clear_upto idx pend lo hi s) j) = ss_blocked (sg_sigs s j)"
    "sg_procs (clear_upto idx pend lo hi s) = sg_procs s"
    "sg_umem (clear_upto idx pend lo hi s) = sg_umem s"
    by (simp_all add: clear_upto_def)
qed

lemma clear_upto_Suc_left:
  "lo < hi \<Longrightarrow> clear_upto idx pend lo hi s =
     clear_upto idx pend (Suc lo) hi (if bit pend lo then clear_pending idx lo s else s)"
  by (simp add: clear_upto_def upt_conv_Cons)

lemma clear_upto_empty [simp]: "clear_upto idx pend n n s = s"
  by (simp add: clear_upto_def)

lemma bit_clear_pending:
  "bit (ss_pending (sg_sigs (clear_pending idx n s) j)) m \<longleftrightarrow>
     bit (ss_pending (sg_sigs s j)) m \<and> \<not> (j = idx \<and> m = n)"
  by (auto simp: clear_pending_def bit_and_iff bit_not_iff bit_exp_iff dest: bit_imp_le_length)

lemma bit_clear_upto:
  "bit (ss_pending (sg_sigs (clear_upto idx pend lo hi s) j)) m \<longleftrightarrow>
     bit (ss_pending (sg_sigs s j)) m \<and> \<not> (j = idx \<and> bit pend m \<and> lo \<le> m \<and> m < hi)"
proof -
  have "bit (ss_pending (sg_sigs (fold (\<lambda>n s. if bit pend n then clear_pending idx n s else s) ns s) j)) m
      \<longleftrightarrow> bit (ss_pending (sg_sigs s j)) m \<and> \<not> (j = idx \<and> bit pend m \<and> m \<in> set ns)" for ns
    by (induction ns arbitrary: s) (auto simp: bit_clear_pending)
  then show ?thesis by (auto simp: clear_upto_def)
qed

lemma SIG_IGN_neq_DFL [simp]: "SIG_IGN \<noteq> SIG_DFL"
  by (simp add: SIG_IGN_def SIG_DFL_def)

lemma deliver_loop_eq:
  "deliver_loop i idx pend sig k s =
     (case first_idx (\<lambda>n. bit pend n \<and> \<not> sig_ignored s idx n) sig k of
        None \<Rightarrow> clear_upto idx pend sig (sig + k) s
      | Some n \<Rightarrow> sig_act i idx n (clear_upto idx pend sig (Suc n) s))"
proof (induction k arbitrary: sig s)
  case (Suc k)
  show ?case
  proof (cases "bit pend sig \<and> \<not> sig_ignored s idx sig")
    case True
    then show ?thesis
      by (simp add: clear_upto_Suc_left)
        (simp add: sig_act_def sig_ignored_def Let_def)
  next
    case False
    define s' where "s' = (if bit pend sig then clear_pending idx sig s else s)"
    have "deliver_loop i idx pend sig (Suc k) s = deliver_loop i idx pend (Suc sig) k s'"
      using False by (auto simp: s'_def sig_ignored_def Let_def)
    moreover have "sig_ignored s' idx = sig_ignored s idx"
      by (simp add: s'_def)
    moreover have "clear_upto idx pend (Suc sig) hi s' = clear_upto idx pend sig hi s"
      if "sig < hi" for hi
      using clear_upto_Suc_left [OF that] by (simp add: s'_def)
    ultimately show ?thesis
      using False Suc.IH [of "Suc sig" s']
      by (auto split: option.split dest!: first_idxD(1))
  qed
qed simp


section \<open>Properties\<close>

text \<open>
  The process that delivers: a live slot numbered as process_create numbers it, with something
  to deliver.
\<close>

definition deliverable :: "nat \<Rightarrow> sig_sys \<Rightarrow> nat option" where
  "deliverable i s = first_idx (\<lambda>n. bit (signal_pending (Some i) s) n \<and> \<not> sig_ignored s i n)
     1 (MAX_SIGNAL - 1)"

lemma sig_slot_Suc: "i < PROC_MAX \<Longrightarrow> sig_slot (Suc i) = Some i"
proof -
  assume i: "i < PROC_MAX"
  have "(of_nat (Suc i) - 1 :: u32) = of_nat i" by simp
  then have "sint (of_nat (Suc i) - 1 :: u32) = int i"
    using i by (simp add: sint_uint uint_nat unsigned_of_nat signed_take_bit_int_eq_self take_bit_nat_eq_self PROC_MAX_def)
  then show ?thesis using i unfolding sig_slot_def Let_def by simp
qed

lemma signal_deliver_eq:
  assumes "i < PROC_MAX" "pcb_pid (sg_procs s i) = Suc i"
  shows "signal_deliver (Some i) s =
    (case deliverable i s of
       None \<Rightarrow> clear_upto i (signal_pending (Some i) s) 1 MAX_SIGNAL s
     | Some n \<Rightarrow> sig_act i i n (clear_upto i (signal_pending (Some i) s) 1 (Suc n) s))"
proof -
  let ?P = "ss_pending (sg_sigs s i) AND NOT (ss_blocked (sg_sigs s i))"
  have P: "signal_pending (Some i) s = ?P"
    using assms by (simp add: signal_pending_def sig_slot_Suc)
  have "clear_upto i 0 1 MAX_SIGNAL s = s"
    unfolding clear_upto_def by (rule fold_invariant [where Q = "\<lambda>_. True" and P = "\<lambda>t. t = s"]) auto
  then have zero: "?P = 0 \<Longrightarrow> deliverable i s = None \<and> clear_upto i ?P 1 MAX_SIGNAL s = s"
    by (simp add: deliverable_def P scan)
  have "1 + (MAX_SIGNAL - 1) = MAX_SIGNAL" by (simp add: MAX_SIGNAL_def)
  then have "deliver_loop i i ?P 1 (MAX_SIGNAL - 1) s =
      (case deliverable i s of
         None \<Rightarrow> clear_upto i ?P 1 MAX_SIGNAL s
       | Some n \<Rightarrow> sig_act i i n (clear_upto i ?P 1 (Suc n) s))"
    by (simp add: deliver_loop_eq deliverable_def P split: option.split)
  then show ?thesis
    using assms zero
    by (simp add: signal_deliver_def sig_slot_Suc P Let_def split: option.split)
qed

text \<open>C26: delivery acts on the lowest-numbered signal that is pending, not blocked and not
  ignored: it kills the process when the disposition is the default and otherwise enters the
  handler with the signal number and the interrupted entry point pushed on the user stack.
  It takes exactly that signal and the ignored ones below it out of the pending set.\<close>
theorem signal_deliver_lowest:
  assumes "i < PROC_MAX" "pcb_pid (sg_procs s i) = Suc i" "deliverable i s = Some n"
  shows "let h = sa_handler (ss_actions (sg_sigs s i) n); p = sg_procs s i;
             s' = signal_deliver (Some i) s
         in (if h = SIG_DFL then sg_procs s' i = p\<lparr>pcb_state := PSTATE_DEAD\<rparr>
             else sg_procs s' i = p\<lparr>pcb_ursp := pcb_ursp p - 16, pcb_entry := h\<rparr>
               \<and> sg_umem s' (pcb_ursp p - 8) = of_nat n
               \<and> sg_umem s' (pcb_ursp p - 16) = pcb_entry p) \<and>
            (\<forall>m. bit (ss_pending (sg_sigs s' i)) m \<longleftrightarrow>
               bit (ss_pending (sg_sigs s i)) m \<and>
               \<not> (bit (signal_pending (Some i) s) m \<and> 1 \<le> m \<and> m \<le> n))"
proof -
  have "signal_deliver (Some i) s
      = sig_act i i n (clear_upto i (signal_pending (Some i) s) 1 (Suc n) s)"
    using assms signal_deliver_eq [OF assms(1,2)] by simp
  then show ?thesis
    by (simp add: sig_act_def enter_handler_def Let_def set_pstate_def diff_diff_eq
        bit_clear_upto less_Suc_eq_le)
qed

definition sig_demo :: sig_sys where
  "sig_demo = \<lparr>sg_procs = process_init(0 := pcb_zero\<lparr>pcb_state := PSTATE_RUNNING, pcb_pid := 1,
       pcb_ursp := 1000, pcb_entry := 77\<rparr>),
     sg_sigs = (\<lambda>_. signal_state_zero)(0 := signal_state_zero\<lparr>ss_pending := 0x20400,
       ss_actions := (ss_actions signal_state_zero)(10 := \<lparr>sa_handler = 5000, sa_mask = 0,
         sa_flags = 0\<rparr>)\<rparr>),
     sg_umem = (\<lambda>_. 0)\<rparr>"

lemma sig_demo_deliverable: "deliverable 0 sig_demo = Some 10"
  unfolding deliverable_def
proof (rule first_idx_SomeI)
  have P: "signal_pending (Some 0) sig_demo = 0x20400"
    by (simp add: signal_pending_def sig_demo_def sig_slot_def PROC_MAX_def signal_state_zero_def)
  show "bit (signal_pending (Some 0) sig_demo) 10 \<and> \<not> sig_ignored sig_demo 0 10"
    unfolding P by (simp add: sig_ignored_def sig_demo_def SIG_IGN_def SIG_DFL_def)
  show "\<not> (bit (signal_pending (Some 0) sig_demo) j \<and> \<not> sig_ignored sig_demo 0 j)"
    if "1 \<le> j" "j < 10" for j
  proof -
    have "j \<in> {1, 2, 3, 4, 5, 6, 7, 8, 9}" using that by auto
    then show ?thesis unfolding P by (elim insertE emptyE) simp_all
  qed
qed (simp_all add: MAX_SIGNAL_def)

theorem signal_deliver_lowest_witness:
  "pcb_entry (sg_procs (signal_deliver (Some 0) sig_demo) 0) = 5000 \<and>
   sg_umem (signal_deliver (Some 0) sig_demo) 992 = 10"
proof -
  have "0 < PROC_MAX" "pcb_pid (sg_procs sig_demo 0) = Suc 0"
    by (simp_all add: PROC_MAX_def sig_demo_def)
  from signal_deliver_lowest [OF this sig_demo_deliverable] show ?thesis
    by (simp add: sig_demo_def SIG_DFL_def Let_def)
qed

text \<open>The system calls of the component, as the calls a process can make.\<close>

datatype sig_call =
    Sc_signal int u64
  | Sc_sigaction int "sigaction option"
  | Sc_sigprocmask int "u64 option"
  | Sc_kill nat int

fun sig_call_step :: "sig_call \<Rightarrow> sig_sys \<Rightarrow> sig_sys" where
  "sig_call_step (Sc_signal n h) s = snd (sys_signal n h s)"
| "sig_call_step (Sc_sigaction n a) s = snd (snd (sys_sigaction n a True s))"
| "sig_call_step (Sc_sigprocmask how m) s = snd (snd (sys_sigprocmask how m True s))"
| "sig_call_step (Sc_kill p n) s = snd (sys_kill p n s)"

lemma sig_call_actions:
  assumes "sig = SIGKILL \<or> sig = SIGSTOP"
  shows "ss_actions (sg_sigs (sig_call_step c s) j) sig = ss_actions (sg_sigs s j) sig"
proof (cases c)
  case (Sc_signal n h)
  then show ?thesis using assms
    by (auto simp: sys_signal_def sig_settable_def put_action_def Let_def split: option.split)
next
  case (Sc_sigaction n a)
  then show ?thesis using assms
    by (auto simp: sys_sigaction_def sig_settable_def put_action_def split: option.split)
next
  case (Sc_sigprocmask how m)
  then show ?thesis
    by (auto simp: sys_sigprocmask_def put_blocked_def Let_def split: option.split)
next
  case (Sc_kill p n)
  then show ?thesis
    by (auto simp: sys_kill_def add_pending_def split: option.split)
qed

text \<open>C31: no sequence of signal system calls, by any processes, changes the disposition of
  SIGKILL or SIGSTOP in any process.\<close>
theorem sigkill_uncatchable:
  assumes "sig = SIGKILL \<or> sig = SIGSTOP"
  shows "ss_actions (sg_sigs (fold sig_call_step cs s) j) sig = ss_actions (sg_sigs s j) sig"
  by (induction cs arbitrary: s) (simp_all add: sig_call_actions [OF assms])

theorem sigkill_uncatchable_witness:
  "ss_actions (sg_sigs (fold sig_call_step [Sc_signal 9 5000, Sc_signal 10 6000] sig_demo) 0) SIGKILL
   = \<lparr>sa_handler = 0, sa_mask = 0, sa_flags = 0\<rparr>"
  using sigkill_uncatchable [of SIGKILL "[Sc_signal 9 5000, Sc_signal 10 6000]" sig_demo 0]
  by (simp add: sig_demo_def signal_state_zero_def SIGKILL_def)

lemma kill_at_once:
  assumes "pids_ok (sg_procs s)" "i < PROC_MAX"
    and live: "pcb_state (sg_procs s i) \<noteq> PSTATE_EMPTY" "pcb_state (sg_procs s i) \<noteq> PSTATE_DEAD"
  shows "sys_kill (Suc i) (int SIGKILL) s =
    (0, s\<lparr>sg_procs := (sg_procs s)(i := (sg_procs s i)\<lparr>pcb_state := PSTATE_DEAD\<rparr>)\<rparr>)"
proof -
  have pid: "pcb_pid (sg_procs s j) = Suc j" if "pcb_state (sg_procs s j) \<noteq> PSTATE_EMPTY"
      "j < PROC_MAX" for j
    using assms(1) that by (simp add: pids_okD)
  have "kill_target (Suc i) s = Some i"
    unfolding kill_target_def
    by (rule first_idx_SomeI) (use assms pid in \<open>auto simp: PROC_MAX_def\<close>)
  then show ?thesis
    by (simp add: sys_kill_def SIGKILL_def MAX_SIGNAL_def set_pstate_def)
qed

text \<open>SIGKILL to a live process kills that process at once, whatever it blocks, and no
  other slot of the table changes.\<close>
theorem sys_kill_sigkill:
  assumes "pids_ok (sg_procs s)" "i < PROC_MAX"
    and live: "pcb_state (sg_procs s i) \<noteq> PSTATE_EMPTY" "pcb_state (sg_procs s i) \<noteq> PSTATE_DEAD"
  shows "sys_kill (Suc i) (int SIGKILL) s =
    (0, s\<lparr>sg_procs := (sg_procs s)(i := (sg_procs s i)\<lparr>pcb_state := PSTATE_DEAD\<rparr>)\<rparr>)"
  by (rule kill_at_once [OF assms])

theorem sys_kill_sigkill_witness:
  "pcb_state (sg_procs (snd (sys_kill 1 9 sig_demo)) 0) = PSTATE_DEAD"
proof -
  have "pids_ok (sg_procs sig_demo)" "0 < PROC_MAX"
    "pcb_state (sg_procs sig_demo 0) \<noteq> PSTATE_EMPTY" "pcb_state (sg_procs sig_demo 0) \<noteq> PSTATE_DEAD"
    by (simp_all add: pids_ok_def sig_demo_def process_init_def pcb_zero_def PROC_MAX_def pstate_defs)
  from sys_kill_sigkill [OF this] show ?thesis by (simp add: SIGKILL_def)
qed

end
