(* ===== verification/Ipc.thy ===== *)
theory Ipc
  imports ProcTable
begin

text \<open>
  kernel/ipc.c: message passing between processes and the registry of named servers.  Every
  process has an inbox, a circular buffer of 16 messages indexed by its number modulo the
  table size.  The two blocking calls spin on \<open>sys_yield\<close>; what the rest of the system
  does to the state in one such turn is the parameter \<open>env\<close> of the model (sys_yield
  itself only pets the watchdog, the timer interrupt runs the other processes).
\<close>

definition IPC_QUEUE_DEPTH :: nat where "IPC_QUEUE_DEPTH = 16"
definition IPC_NAME_MAX :: nat where "IPC_NAME_MAX = 16"
definition IPC_SERVER_MAX :: nat where "IPC_SERVER_MAX = 32"

record ipc_msg =
  im_type :: u64
  im_from :: nat
  im_data :: "nat \<Rightarrow> u64"

record ipc_queue =
  iq_msgs :: "nat \<Rightarrow> ipc_msg"
  iq_head :: nat
  iq_tail :: nat
  iq_count :: nat
  iq_waiting :: bool

record ipc_server =
  is_name :: cstr
  is_pid :: nat
  is_active :: bool

record ipc_sys =
  ip_procs :: proc_table
  ip_current :: nat
  ip_queues :: "nat \<Rightarrow> ipc_queue"
  ip_servers :: "nat \<Rightarrow> ipc_server"

text \<open>\<open>ipc_find_pcb\<close>: the slot of a process number, among the slots in use.\<close>

definition ipc_find_pcb :: "ipc_sys \<Rightarrow> nat \<Rightarrow> nat option" where
  "ipc_find_pcb s pid =
     first_idx (\<lambda>i. pcb_state (ip_procs s i) \<noteq> 0 \<and> pcb_pid (ip_procs s i) = pid) 0 PROC_MAX"

text \<open>The queue part of send and receive: copy in at the tail, copy out at the head.\<close>

definition inbox_put :: "ipc_msg \<Rightarrow> ipc_queue \<Rightarrow> ipc_queue" where
  "inbox_put m q = q\<lparr>iq_msgs := (iq_msgs q)(iq_tail q := m),
     iq_tail := (iq_tail q + 1) mod IPC_QUEUE_DEPTH, iq_count := iq_count q + 1\<rparr>"

definition inbox_get :: "ipc_queue \<Rightarrow> ipc_msg \<times> ipc_queue" where
  "inbox_get q = (iq_msgs q (iq_head q),
     q\<lparr>iq_head := (iq_head q + 1) mod IPC_QUEUE_DEPTH, iq_count := iq_count q - 1\<rparr>)"

definition set_queue :: "nat \<Rightarrow> ipc_queue \<Rightarrow> ipc_sys \<Rightarrow> ipc_sys" where
  "set_queue i q s = s\<lparr>ip_queues := (ip_queues s)(i := q)\<rparr>"

text \<open>
  The wait for room in the destination's inbox, with \<open>k\<close> turns left before the count of
  spins passes 1000.  The first component says whether there is room.
\<close>

fun send_wait :: "(ipc_sys \<Rightarrow> ipc_sys) \<Rightarrow> nat \<Rightarrow> nat \<Rightarrow> ipc_sys \<Rightarrow> bool \<times> ipc_sys" where
  "send_wait env qi 0 s =
     (if iq_count (ip_queues s qi) < IPC_QUEUE_DEPTH then (True, s) else (False, env s))"
| "send_wait env qi (Suc k) s =
     (if iq_count (ip_queues s qi) < IPC_QUEUE_DEPTH then (True, s)
      else send_wait env qi k (env s))"

definition SEND_SPINS :: nat where "SEND_SPINS = 1000"

definition sys_ipc_send ::
  "(ipc_sys \<Rightarrow> ipc_sys) \<Rightarrow> nat \<Rightarrow> ipc_msg option \<Rightarrow> ipc_sys \<Rightarrow> int \<times> ipc_sys" where
  "sys_ipc_send env dest_pid msg s =
     (case msg of None \<Rightarrow> (-1, s)
      | Some m \<Rightarrow> (case ipc_find_pcb s dest_pid of None \<Rightarrow> (-1, s)
        | Some dest \<Rightarrow>
            (let qi = dest_pid mod PROC_MAX;
                 (room, s1) = send_wait env qi SEND_SPINS s
             in if \<not> room then (-1, s1)
                else let q = inbox_put (m\<lparr>im_from := ip_current s1\<rparr>) (ip_queues s1 qi)
                     in if iq_waiting q
                        then (0, (set_queue qi (q\<lparr>iq_waiting := False\<rparr>) s1)
                                   \<lparr>ip_procs := set_pstate dest 1 (ip_procs s1)\<rparr>)
                        else (0, set_queue qi q s1))))"

text \<open>The receive loop ends only when a message is there; None is "blocked for ever".\<close>

definition recv_turn :: "(ipc_sys \<Rightarrow> ipc_sys) \<Rightarrow> nat \<Rightarrow> ipc_sys \<Rightarrow> ipc_sys" where
  "recv_turn env qi s = env (set_queue qi ((ip_queues s qi)\<lparr>iq_waiting := True\<rparr>) s)"

partial_function (option) recv_wait ::
  "(ipc_sys \<Rightarrow> ipc_sys) \<Rightarrow> nat \<Rightarrow> ipc_sys \<Rightarrow> ipc_sys option" where
  "recv_wait env qi s =
     (if iq_count (ip_queues s qi) = 0 then recv_wait env qi (recv_turn env qi s) else Some s)"

definition sys_ipc_recv ::
  "(ipc_sys \<Rightarrow> ipc_sys) \<Rightarrow> bool \<Rightarrow> ipc_sys \<Rightarrow> (int \<times> ipc_msg option \<times> ipc_sys) option" where
  "sys_ipc_recv env out_ok s =
     (if \<not> out_ok then Some (-1, None, s)
      else let qi = ip_current s mod PROC_MAX
           in case recv_wait env qi s of
                None \<Rightarrow> None
              | Some s1 \<Rightarrow>
                  (let (m, q) = inbox_get (ip_queues s1 qi)
                   in Some (i64_of_u64 (im_from m), Some m, set_queue qi q s1)))"

text \<open>
  The comparison loop of the registry: \<open>n\<close> bytes at most, stopping at the first
  difference or at the end of the second string.
\<close>

fun name_eq :: "nat \<Rightarrow> nat \<Rightarrow> cstr \<Rightarrow> cstr \<Rightarrow> bool" where
  "name_eq j 0 a b = True"
| "name_eq j (Suc n) a b =
     (if a j \<noteq> b j then False else if b j = 0 then True else name_eq (Suc j) n a b)"

text \<open>Copying a name into a slot: at most 15 bytes, then the terminator.\<close>

fun name_copy :: "nat \<Rightarrow> nat \<Rightarrow> cstr \<Rightarrow> cstr \<Rightarrow> cstr" where
  "name_copy j 0 dst src = dst(j := 0)"
| "name_copy j (Suc n) dst src =
     (if src j \<noteq> 0 then name_copy (Suc j) n (dst(j := src j)) src else dst(j := 0))"

definition sys_ipc_register :: "cstr option \<Rightarrow> ipc_sys \<Rightarrow> int \<times> ipc_sys" where
  "sys_ipc_register name s =
     (case name of None \<Rightarrow> (-1, s)
      | Some nm \<Rightarrow>
         (case first_idx (\<lambda>i. is_active (ip_servers s i) \<and>
                 name_eq 0 (IPC_NAME_MAX - 1) (is_name (ip_servers s i)) nm) 0 IPC_SERVER_MAX of
            Some i \<Rightarrow>
              (0, s\<lparr>ip_servers := (ip_servers s)(i := (ip_servers s i)\<lparr>is_pid := ip_current s\<rparr>)\<rparr>)
          | None \<Rightarrow>
             (case first_idx (\<lambda>i. \<not> is_active (ip_servers s i)) 0 IPC_SERVER_MAX of
                Some i \<Rightarrow>
                  (0, s\<lparr>ip_servers := (ip_servers s)(i :=
                     \<lparr>is_name = name_copy 0 (IPC_NAME_MAX - 1) (is_name (ip_servers s i)) nm,
                      is_pid = ip_current s, is_active = True\<rparr>)\<rparr>)
              | None \<Rightarrow> (-1, s))))"

definition sys_ipc_lookup :: "cstr option \<Rightarrow> ipc_sys \<Rightarrow> int" where
  "sys_ipc_lookup name s =
     (case name of None \<Rightarrow> -1
      | Some nm \<Rightarrow>
         (case first_idx (\<lambda>i. is_active (ip_servers s i) \<and>
                 name_eq 0 IPC_NAME_MAX (is_name (ip_servers s i)) nm) 0 IPC_SERVER_MAX of
            Some i \<Rightarrow> i64_of_u64 (is_pid (ip_servers s i))
          | None \<Rightarrow> -1))"

text \<open>\<open>ipc_init\<close>: every inbox empty, no server.\<close>

definition ipc_init :: "ipc_sys \<Rightarrow> ipc_sys" where
  "ipc_init s = s\<lparr>
     ip_queues := (\<lambda>i. if i < PROC_MAX then (ip_queues s i)\<lparr>iq_head := 0, iq_tail := 0,
       iq_count := 0, iq_waiting := False\<rparr> else ip_queues s i),
     ip_servers := (\<lambda>i. if i < IPC_SERVER_MAX then (ip_servers s i)\<lparr>is_active := False\<rparr>
       else ip_servers s i)\<rparr>"

section \<open>The inbox is a bounded queue\<close>

definition inbox_items :: "ipc_queue \<Rightarrow> ipc_msg list" where
  "inbox_items q = ring_list IPC_QUEUE_DEPTH (iq_msgs q) (iq_head q) (iq_count q)"

definition inbox_inv :: "ipc_queue \<Rightarrow> bool" where
  "inbox_inv q \<longleftrightarrow> iq_head q < IPC_QUEUE_DEPTH \<and> iq_count q \<le> IPC_QUEUE_DEPTH \<and>
     iq_tail q = (iq_head q + iq_count q) mod IPC_QUEUE_DEPTH"

lemma IPC_QUEUE_DEPTH_pos [simp]: "0 < IPC_QUEUE_DEPTH"
  by (simp add: IPC_QUEUE_DEPTH_def)

interpretation inbox: bounded_fifo inbox_put inbox_get iq_count IPC_QUEUE_DEPTH inbox_items inbox_inv
proof unfold_locales
  fix q x
  assume inv: "inbox_inv q"
  show "iq_count q = length (inbox_items q)" "length (inbox_items q) \<le> IPC_QUEUE_DEPTH"
    using inv by (simp_all add: inbox_items_def inbox_inv_def)
  show "inbox_inv (inbox_put x q)" if "iq_count q < IPC_QUEUE_DEPTH"
    using inv that by (simp add: inbox_inv_def inbox_put_def mod_Suc_eq)
  show "inbox_items (inbox_put x q) = inbox_items q @ [x]" if "iq_count q < IPC_QUEUE_DEPTH"
    using inv that by (simp add: inbox_inv_def inbox_items_def inbox_put_def ring_simps)
next
  fix q
  assume inv: "inbox_inv q" and ne: "iq_count q \<noteq> 0"
  from inv have "(Suc (iq_head q) mod IPC_QUEUE_DEPTH + (iq_count q - Suc 0)) mod IPC_QUEUE_DEPTH
      = iq_tail q"
    using ne by (cases "iq_count q") (simp_all add: inbox_inv_def mod_add_left_eq)
  then show "inbox_inv (snd (inbox_get q))"
    using inv by (auto simp: inbox_inv_def inbox_get_def)
  show "fst (inbox_get q) = hd (inbox_items q)"
    using inv ne by (simp add: inbox_inv_def inbox_items_def inbox_get_def ring_simps)
  show "inbox_items (snd (inbox_get q)) = tl (inbox_items q)"
    using inv ne by (simp add: inbox_inv_def inbox_items_def inbox_get_def ring_simps)
qed

lemma inbox_items_waiting [simp]:
  "inbox_items (q\<lparr>iq_waiting := b\<rparr>) = inbox_items q"
  "inbox_inv (q\<lparr>iq_waiting := b\<rparr>) = inbox_inv q"
  by (simp_all add: inbox_items_def inbox_inv_def)

lemma send_wait_room:
  assumes "iq_count (ip_queues s qi) < IPC_QUEUE_DEPTH"
  shows "send_wait env qi k s = (True, s)"
  using assms by (cases k) simp_all

lemma recv_wait_ready:
  "iq_count (ip_queues s qi) \<noteq> 0 \<Longrightarrow> recv_wait env qi s = Some s"
  by (simp add: recv_wait.simps)

section \<open>Names\<close>

lemma name_eq_iff:
  "name_eq j n a b \<longleftrightarrow> (\<forall>i. j \<le> i \<and> i < j + n \<and> i \<le> nul_at j n b \<longrightarrow> a i = b i)"
proof (induction j n a b rule: name_eq.induct)
  case (2 j n a b)
  have "j \<le> i \<and> i < j + Suc n \<and> i \<le> nul_at j (Suc n) b \<longleftrightarrow>
      i = j \<or> b j \<noteq> 0 \<and> Suc j \<le> i \<and> i < Suc j + n \<and> i \<le> nul_at (Suc j) n b" for i
    using nul_at_bounds(1) [of "Suc j" n b] by auto
  then show ?case using 2 by auto
qed auto

lemma name_copy_apply:
  "name_copy j n dst src i =
     (if i = nul_at j n src then 0 else if j \<le> i \<and> i < nul_at j n src then src i else dst i)"
proof (induction n arbitrary: j dst)
  case (Suc n)
  show ?case
  proof (cases "src j = 0")
    case False
    define d where "d = dst(j := src j)"
    have "Suc j \<le> nul_at (Suc j) n src" by (rule nul_at_bounds)
    moreover have "name_copy j (Suc n) dst src i = name_copy (Suc j) n d src i"
      using False by (simp add: d_def)
    moreover have "d i = (if i = j then src j else dst i)" by (simp add: d_def)
    ultimately show ?thesis
      using False Suc.IH [of "Suc j" d] by (cases "i = j") auto
  qed simp
qed simp


section \<open>Properties\<close>

text \<open>Every inbox is well formed; the system calls keep it so.\<close>

definition ipc_inv :: "ipc_sys \<Rightarrow> bool" where
  "ipc_inv s \<longleftrightarrow> (\<forall>i < PROC_MAX. inbox_inv (ip_queues s i)) \<and>
     (\<forall>i < IPC_SERVER_MAX. is_active (ip_servers s i) \<longrightarrow>
        nul_at 0 (IPC_NAME_MAX - 1) (is_name (ip_servers s i)) < IPC_NAME_MAX
        \<and> is_name (ip_servers s i) (nul_at 0 (IPC_NAME_MAX - 1) (is_name (ip_servers s i))) = 0)"

lemma ipc_inv_queue: "ipc_inv s \<Longrightarrow> inbox_inv (ip_queues s (pid mod PROC_MAX))"
  by (simp add: ipc_inv_def PROC_MAX_def)

lemma ipc_inv_init [simp]: "ipc_inv (ipc_init s)"
  by (simp add: ipc_inv_def ipc_init_def inbox_inv_def)

text \<open>C27: a message to a live process whose inbox has room goes to the end of that inbox with the
  sender field overwritten by the kernel (a sender cannot forge it), the inbox stays well
  formed, a receiver that waits is made ready, and no other inbox changes.\<close>
theorem ipc_send_delivers:
  assumes "ipc_inv s" "ipc_find_pcb s dest = Some d"
    and room: "iq_count (ip_queues s (dest mod PROC_MAX)) < IPC_QUEUE_DEPTH"
  shows "let (r, s') = sys_ipc_send env dest (Some m) s; qi = dest mod PROC_MAX in
     r = 0 \<and> inbox_inv (ip_queues s' qi) \<and>
     inbox_items (ip_queues s' qi) = inbox_items (ip_queues s qi) @ [m\<lparr>im_from := ip_current s\<rparr>] \<and>
     (iq_waiting (ip_queues s qi) \<longrightarrow> pcb_state (ip_procs s' d) = PSTATE_READY
        \<and> \<not> iq_waiting (ip_queues s' qi)) \<and>
     (\<forall>i. i \<noteq> qi \<longrightarrow> ip_queues s' i = ip_queues s i)"
proof -
  let ?q = "ip_queues s (dest mod PROC_MAX)" and ?m = "m\<lparr>im_from := ip_current s\<rparr>"
  have inv: "inbox_inv ?q" using assms(1) by (rule ipc_inv_queue)
  have put: "inbox_inv (inbox_put ?m ?q)" "inbox_items (inbox_put ?m ?q) = inbox_items ?q @ [?m]"
    "iq_waiting (inbox_put ?m ?q) = iq_waiting ?q"
    using inv room by (simp_all add: inbox.inv_put inbox.items_put) (simp add: inbox_put_def)
  show ?thesis
    using assms(2) room put
    by (simp add: sys_ipc_send_def send_wait_room Let_def set_queue_def PSTATE_READY_def)
qed

text \<open>the oldest message is the one received, the rest stay in order, and the result is the
  number of the process that sent it; when the inbox is empty and the rest of the system puts
  a message there within some number of turns, the call returns.\<close>
theorem ipc_recv_oldest:
  assumes qi: "qi = ip_current s mod PROC_MAX"
    and turns: "\<And>k. k < n \<Longrightarrow> iq_count (ip_queues ((recv_turn env qi ^^ k) s) qi) = 0"
    and s': "s' = (recv_turn env qi ^^ n) s"
    and got: "inbox_inv (ip_queues s' qi)" "inbox_items (ip_queues s' qi) = m # ms"
  shows "\<exists>s''. sys_ipc_recv env True s = Some (i64_of_u64 (im_from m), Some m, s'') \<and>
     inbox_inv (ip_queues s'' qi) \<and> inbox_items (ip_queues s'' qi) = ms"
proof -
  have ne: "iq_count (ip_queues s' qi) \<noteq> 0"
    using got by (simp add: inbox.cnt_0)
  have "k \<le> n \<Longrightarrow> recv_wait env qi s = recv_wait env qi ((recv_turn env qi ^^ k) s)" for k
    by (induction k) (simp_all add: turns recv_wait.simps [of env qi "(recv_turn env qi ^^ j) s" for j])
  from this [of n] have wait: "recv_wait env qi s = Some s'"
    using ne by (simp add: s' recv_wait_ready)
  have "fst (inbox_get (ip_queues s' qi)) = m"
    using got ne by (simp add: inbox.fst_get)
  moreover have "inbox_inv (snd (inbox_get (ip_queues s' qi)))"
      "inbox_items (snd (inbox_get (ip_queues s' qi))) = ms"
    using got ne by (simp_all add: inbox.inv_get inbox.items_get)
  ultimately show ?thesis
    using wait qi by (auto simp: sys_ipc_recv_def case_prod_beta set_queue_def Let_def)
qed

text \<open>Facts about one pair of names, under which the registry's two comparisons agree.\<close>

definition name_fits :: "cstr \<Rightarrow> bool" where
  "name_fits nm \<longleftrightarrow> nm (nul_at 0 (IPC_NAME_MAX - 1) nm) = 0"

lemma ipc_inv_name:
  "ipc_inv s \<Longrightarrow> i < IPC_SERVER_MAX \<Longrightarrow> is_active (ip_servers s i) \<Longrightarrow>
     name_fits (is_name (ip_servers s i))"
  by (simp add: ipc_inv_def name_fits_def)

lemma nul_at_16: "nm (nul_at 0 15 nm) = 0 \<Longrightarrow> nul_at 0 16 nm = nul_at 0 15 nm"
  using nul_at_Suc_same [of nm 0 15] by simp

lemma name_eq_shorter: "name_eq 0 16 a b \<Longrightarrow> name_eq 0 15 a b"
  using nul_at_Suc_ge [of 0 15 b] by (auto simp: name_eq_iff)

lemma name_eq_longer:
  assumes "name_eq 0 15 a b" "name_fits a" "name_fits b"
  shows "name_eq 0 16 a b"
proof -
  let ?m = "nul_at 0 15 b"
  have m: "?m \<le> 15" "b ?m = 0" "nul_at 0 16 b = ?m"
    using nul_at_bounds [of 0 15 b] assms(3)
    by (simp_all add: name_fits_def IPC_NAME_MAX_def nul_at_16)
  have same: "a i = b i" if "i \<le> ?m" "i < 15" for i
    using assms(1) that by (simp add: name_eq_iff)
  have "a 15 = 0" if "?m = 15"
  proof -
    have "nul_at 0 15 a = 15"
      by (rule nul_at_eqI) (use that same nul_at_before [of 0 _ 15 b] in auto)
    then show ?thesis using assms(2) by (simp add: name_fits_def IPC_NAME_MAX_def)
  qed
  have "a i = b i" if "i \<le> ?m" "i < 16" for i
  proof (cases "i < 15")
    case False
    with that m(1) have "i = 15" "?m = 15" by simp_all
    with \<open>?m = 15 \<Longrightarrow> a 15 = 0\<close> m(2) show ?thesis by simp
  qed (use same that in simp)
  then show ?thesis unfolding name_eq_iff m(3) by simp
qed

lemma name_copy_fits: "name_fits (name_copy 0 15 d nm)"
proof -
  have "name_copy 0 15 d nm (nul_at 0 15 nm) = 0" by (simp add: name_copy_apply)
  moreover have "name_copy 0 15 d nm i \<noteq> 0" if "i < nul_at 0 15 nm" for i
    using that nul_at_before [of 0 i 15 nm] by (simp add: name_copy_apply)
  ultimately have "nul_at 0 15 (name_copy 0 15 d nm) = nul_at 0 15 nm"
    using nul_at_bounds(2) [of 0 15 nm] by (intro nul_at_eqI) auto
  then show ?thesis
    by (simp add: name_fits_def IPC_NAME_MAX_def name_copy_apply)
qed

lemma name_copy_eq:
  assumes "name_fits nm"
  shows "name_eq 0 16 (name_copy 0 15 d nm) nm"
proof -
  have "nul_at 0 16 nm = nul_at 0 15 nm" "nm (nul_at 0 15 nm) = 0"
    using assms by (simp_all add: name_fits_def IPC_NAME_MAX_def nul_at_16)
  then show ?thesis
    unfolding name_eq_iff by (auto simp: name_copy_apply)
qed

text \<open>a server that registers a name of at most 15 characters is the one a lookup of that name
  finds, whether the name is new or was registered before (then the old entry is taken over),
  and the registry stays well formed; registration fails only when all slots are taken.\<close>
theorem ipc_register_lookup:
  assumes "ipc_inv s" "name_fits nm" "sys_ipc_register (Some nm) s = (r, s')"
  shows "ipc_inv s' \<and> (r = 0 \<longrightarrow> sys_ipc_lookup (Some nm) s' = i64_of_u64 (ip_current s)) \<and>
     (r \<noteq> 0 \<longrightarrow> (\<forall>i < IPC_SERVER_MAX. is_active (ip_servers s i)))"
proof -
  let ?short = "\<lambda>i. is_active (ip_servers s i) \<and> name_eq 0 15 (is_name (ip_servers s i)) nm"
  have servers: "ipc_inv (s\<lparr>ip_servers := (ip_servers s)(i := v)\<rparr>)"
    if "is_active v \<longrightarrow> name_fits (is_name v)" for i v
    using assms(1) that nul_at_bounds(2) [of 0 15 "is_name v"]
    by (auto simp: ipc_inv_def name_fits_def IPC_NAME_MAX_def)
  have found: "sys_ipc_lookup (Some nm) (s\<lparr>ip_servers := (ip_servers s)(i := v)\<rparr>) = i64_of_u64 (is_pid v)"
    if "i < IPC_SERVER_MAX" "is_active v" "name_eq 0 16 (is_name v) nm"
      "\<And>j. j < i \<Longrightarrow> \<not> ?short j" for i v
  proof -
    have "first_idx (\<lambda>k. is_active (((ip_servers s)(i := v)) k) \<and>
        name_eq 0 16 (is_name (((ip_servers s)(i := v)) k)) nm) 0 IPC_SERVER_MAX = Some i"
      using that by (intro first_idx_SomeI) (auto dest: name_eq_shorter)
    then show ?thesis
      by (simp add: sys_ipc_lookup_def IPC_NAME_MAX_def)
  qed
  show ?thesis
  proof (cases "first_idx ?short 0 IPC_SERVER_MAX")
    case (Some i)
    note D = first_idxD [OF Some]
    have fits: "name_fits (is_name (ip_servers s i))"
      using assms(1) D by (simp add: ipc_inv_name)
    have "(r, s') = (0, s\<lparr>ip_servers := (ip_servers s)(i := (ip_servers s i)\<lparr>is_pid := ip_current s\<rparr>)\<rparr>)"
      using assms(3) Some by (simp add: sys_ipc_register_def IPC_NAME_MAX_def)
    moreover have "name_eq 0 16 (is_name (ip_servers s i)) nm"
      using D(3) fits assms(2) by (simp add: name_eq_longer)
    ultimately show ?thesis
      using D fits servers [of "(ip_servers s i)\<lparr>is_pid := ip_current s\<rparr>" i]
        found [of i "(ip_servers s i)\<lparr>is_pid := ip_current s\<rparr>"] by auto
  next
    case None
    show ?thesis
    proof (cases "first_idx (\<lambda>i. \<not> is_active (ip_servers s i)) 0 IPC_SERVER_MAX")
      case (Some i)
      note D = first_idxD [OF Some]
      define v where "v = \<lparr>is_name = name_copy 0 15 (is_name (ip_servers s i)) nm,
          is_pid = ip_current s, is_active = True\<rparr>"
      have "(r, s') = (0, s\<lparr>ip_servers := (ip_servers s)(i := v)\<rparr>)"
        using assms(3) None Some by (simp add: sys_ipc_register_def IPC_NAME_MAX_def v_def)
      then show ?thesis
        using servers [of v i] found [of i v] None D name_copy_fits name_copy_eq [OF assms(2)]
        by (auto simp: v_def scan)
    next
      case N: None
      then have "(r, s') = (-1, s)"
        using assms(3) None by (simp add: sys_ipc_register_def IPC_NAME_MAX_def)
      with N assms(1) show ?thesis by (simp add: scan)
    qed
  qed
qed

text \<open>a name of 16 characters or more is accepted by the registration, which stores its first 15
  characters, but no lookup of it ever succeeds.\<close>
theorem ipc_long_name_lost:
  assumes "ipc_inv s" "\<And>j. j < IPC_NAME_MAX \<Longrightarrow> nm j \<noteq> 0"
  shows "sys_ipc_lookup (Some nm) s = -1"
proof -
  have "\<not> name_eq 0 16 a nm" if "name_fits a" for a
  proof
    assume "name_eq 0 16 a nm"
    moreover have "16 \<le> nul_at 0 16 nm"
      using assms(2) nul_at_nul [of 0 16 nm] by (force simp: IPC_NAME_MAX_def)
    ultimately have "a i = nm i" if "i < 16" for i
      using that by (auto simp: name_eq_iff)
    with assms(2) have "a i \<noteq> 0" if "i < 16" for i
      using that by (simp add: IPC_NAME_MAX_def)
    with that nul_at_bounds(2) [of 0 15 a] show False
      by (simp add: name_fits_def IPC_NAME_MAX_def)
  qed
  then have "first_idx (\<lambda>i. is_active (ip_servers s i) \<and>
      name_eq 0 16 (is_name (ip_servers s i)) nm) 0 IPC_SERVER_MAX = None"
    using assms(1) by (auto simp: scan ipc_inv_name)
  then show ?thesis by (simp add: sys_ipc_lookup_def IPC_NAME_MAX_def)
qed


definition ipc_demo :: ipc_sys where
  "ipc_demo = ipc_init \<lparr>ip_procs = process_init(0 := pcb_zero\<lparr>pcb_state := PSTATE_RUNNING, pcb_pid := 1\<rparr>,
       1 := pcb_zero\<lparr>pcb_state := PSTATE_BLOCKED, pcb_pid := 2\<rparr>),
     ip_current = 1,
     ip_queues = (\<lambda>_. \<lparr>iq_msgs = (\<lambda>_. \<lparr>im_type = 0, im_from = 0, im_data = (\<lambda>_. 0)\<rparr>),
       iq_head = 0, iq_tail = 0, iq_count = 0, iq_waiting = False\<rparr>),
     ip_servers = (\<lambda>_. \<lparr>is_name = (\<lambda>_. 0), is_pid = 0, is_active = False\<rparr>)\<rparr>"

lemma ipc_demo_inv: "ipc_inv ipc_demo"
  by (simp add: ipc_demo_def)

lemma ipc_demo_find: "ipc_find_pcb ipc_demo 2 = Some 1"
  unfolding ipc_find_pcb_def
  by (rule first_idx_SomeI)
    (auto simp: ipc_demo_def ipc_init_def PROC_MAX_def pcb_zero_def pstate_defs less_Suc_eq
      process_init_def)

theorem ipc_send_delivers_witness:
  "fst (sys_ipc_send (\<lambda>s. s) 2 (Some \<lparr>im_type = 5, im_from = 99, im_data = (\<lambda>_. 0)\<rparr>) ipc_demo) = 0
   \<and> inbox_items (ip_queues (snd (sys_ipc_send (\<lambda>s. s) 2
        (Some \<lparr>im_type = 5, im_from = 99, im_data = (\<lambda>_. 0)\<rparr>) ipc_demo)) 2)
     = [\<lparr>im_type = 5, im_from = 1, im_data = (\<lambda>_. 0)\<rparr>]"
proof -
  have room: "iq_count (ip_queues ipc_demo (2 mod PROC_MAX)) < IPC_QUEUE_DEPTH"
    by (simp add: ipc_demo_def ipc_init_def PROC_MAX_def)
  have "inbox_items (ip_queues ipc_demo 2) = []" "ip_current ipc_demo = 1"
    by (simp_all add: ipc_demo_def ipc_init_def inbox_items_def PROC_MAX_def)
  with ipc_send_delivers [OF ipc_demo_inv ipc_demo_find room,
      of "\<lambda>s. s" "\<lparr>im_type = 5, im_from = 99, im_data = (\<lambda>_. 0)\<rparr>"]
  show ?thesis by (auto simp: Let_def case_prod_beta PROC_MAX_def)
qed

text \<open>The rest of the system sends process 1 one message per turn.\<close>

definition ipc_demo_env :: "ipc_sys \<Rightarrow> ipc_sys" where
  "ipc_demo_env s = set_queue 1
     (inbox_put \<lparr>im_type = 7, im_from = 2, im_data = (\<lambda>_. 0)\<rparr> (ip_queues s 1)) s"

theorem ipc_recv_oldest_witness:
  "\<exists>s'' m. sys_ipc_recv ipc_demo_env True ipc_demo = Some (2, Some m, s'') \<and> im_type m = 7"
proof -
  let ?m = "\<lparr>im_type = 7, im_from = 2, im_data = (\<lambda>_. 0)\<rparr>"
  let ?s = "(recv_turn ipc_demo_env 1 ^^ 1) ipc_demo"
  have qi: "1 = ip_current ipc_demo mod PROC_MAX"
    by (simp add: ipc_demo_def ipc_init_def PROC_MAX_def)
  have turns: "iq_count (ip_queues ((recv_turn ipc_demo_env 1 ^^ k) ipc_demo) 1) = 0" if "k < 1" for k
    using that by (simp add: ipc_demo_def ipc_init_def PROC_MAX_def)
  have q: "inbox_inv ((ip_queues ipc_demo 1)\<lparr>iq_waiting := True\<rparr>)"
      "inbox_items ((ip_queues ipc_demo 1)\<lparr>iq_waiting := True\<rparr>) = []"
      "iq_count ((ip_queues ipc_demo 1)\<lparr>iq_waiting := True\<rparr>) < IPC_QUEUE_DEPTH"
    by (simp_all add: ipc_demo_def ipc_init_def inbox_inv_def inbox_items_def PROC_MAX_def)
  have "ip_queues ?s 1 = inbox_put ?m ((ip_queues ipc_demo 1)\<lparr>iq_waiting := True\<rparr>)"
    by (simp add: recv_turn_def ipc_demo_env_def set_queue_def)
  with q have "inbox_inv (ip_queues ?s 1)" "inbox_items (ip_queues ?s 1) = ?m # []"
    by (simp_all add: inbox.inv_put inbox.items_put del: funpow.simps One_nat_def)
  from ipc_recv_oldest [OF qi turns refl this] show ?thesis by auto
qed

definition cname :: "u8 list \<Rightarrow> cstr" where
  "cname xs = (\<lambda>i. if i < length xs then xs ! i else 0)"

theorem ipc_register_lookup_witness:
  "sys_ipc_lookup (Some (cname [103, 117, 105]))
     (snd (sys_ipc_register (Some (cname [103, 117, 105])) ipc_demo)) = 1"
proof -
  let ?nm = "cname [103, 117, 105]"
  have "nul_at 0 15 ?nm = 3" by (rule nul_at_eqI) (auto simp: cname_def less_Suc_eq numeral_3_eq_3)
  then have fits: "name_fits ?nm" by (simp add: name_fits_def IPC_NAME_MAX_def cname_def)
  have "\<not> is_active (ip_servers ipc_demo 0)" "0 < IPC_SERVER_MAX"
    by (simp_all add: ipc_demo_def ipc_init_def IPC_SERVER_MAX_def)
  with ipc_register_lookup [OF ipc_demo_inv fits prod.collapse [symmetric]]
  show ?thesis by (auto simp: ipc_demo_def ipc_init_def)
qed

theorem ipc_long_name_lost_witness:
  "sys_ipc_lookup (Some (\<lambda>_. 65)) ipc_demo = -1"
  by (rule ipc_long_name_lost [OF ipc_demo_inv]) simp

end
