(* ===== verification/Futex.thy ===== *)
theory Futex
  imports ProcTable
begin

text \<open>
  kernel/futex.c: FUTEX_WAIT and FUTEX_WAKE over one table of 64 waiters.  A waiter holds the
  address it sleeps on (0 is a free slot) and the slot of its process in the process table
  (the code keeps the PCB pointer).  While a waiter spins, interrupts are enabled and the rest
  of the system runs; one turn of that is the parameter \<open>env\<close>.
\<close>

definition FUTEX_WAIT :: nat where "FUTEX_WAIT = 0"
definition FUTEX_WAKE :: nat where "FUTEX_WAKE = 1"
definition FUTEX_MAX_WAITERS :: nat where "FUTEX_MAX_WAITERS = 64"

record futex_waiter =
  fw_addr :: nat
  fw_pcb :: "nat option"

record futex_sys =
  fx_procs :: proc_table
  fx_table :: "nat \<Rightarrow> futex_waiter"
  fx_ticks :: nat
  fx_mem :: "nat \<Rightarrow> nat"

definition waiter_free :: futex_waiter where
  "waiter_free = \<lparr>fw_addr = 0, fw_pcb = None\<rparr>"

definition futex_alloc_slot :: "futex_sys \<Rightarrow> nat option" where
  "futex_alloc_slot s = first_idx (\<lambda>i. fw_addr (fx_table s i) = 0) 0 FUTEX_MAX_WAITERS"

definition set_waiter :: "nat \<Rightarrow> futex_waiter \<Rightarrow> futex_sys \<Rightarrow> futex_sys" where
  "set_waiter i w s = s\<lparr>fx_table := (fx_table s)(i := w)\<rparr>"

definition fx_set_state :: "nat \<Rightarrow> nat \<Rightarrow> futex_sys \<Rightarrow> futex_sys" where
  "fx_set_state p st s = s\<lparr>fx_procs := set_pstate p st (fx_procs s)\<rparr>"

text \<open>The spin of a sleeping caller \<open>p\<close> that owns \<open>slot\<close>; None is "sleeps for ever".\<close>

partial_function (option) futex_spin ::
  "(futex_sys \<Rightarrow> futex_sys) \<Rightarrow> nat \<Rightarrow> nat \<Rightarrow> nat \<Rightarrow> futex_sys \<Rightarrow> (int \<times> futex_sys) option" where
  "futex_spin env slot p deadline s =
     (if pcb_state (fx_procs s p) \<noteq> PSTATE_BLOCKED then Some (0, s)
      else if deadline \<noteq> 0 \<and> deadline \<le> fx_ticks s
      then Some (ETIMEDOUT, fx_set_state p PSTATE_RUNNING (set_waiter slot waiter_free s))
      else futex_spin env slot p deadline (env s))"

definition futex_wait ::
  "(futex_sys \<Rightarrow> futex_sys) \<Rightarrow> nat \<Rightarrow> nat \<Rightarrow> nat \<Rightarrow> futex_sys \<Rightarrow> (int \<times> futex_sys) option" where
  "futex_wait env addr val timeout_ms s =
     (if fx_mem s addr \<noteq> val then Some (EAGAIN, s)
      else case process_current_pcb (fx_procs s) of
        None \<Rightarrow> Some (EINVAL, s)
      | Some p \<Rightarrow> (case futex_alloc_slot s of
          None \<Rightarrow> Some (ENOMEM, s)
        | Some slot \<Rightarrow>
            (let s1 = set_waiter slot \<lparr>fw_addr = addr, fw_pcb = Some p\<rparr> s;
                 deadline = (if timeout_ms \<noteq> 0 then (fx_ticks s1 + timeout_ms) mod 2 ^ 64 else 0)
             in futex_spin env slot p deadline (fx_set_state p PSTATE_BLOCKED s1))))"

text \<open>The wake loop over the table from index \<open>i\<close> with \<open>k\<close> slots left.\<close>

fun wake_loop :: "nat \<Rightarrow> nat \<Rightarrow> nat \<Rightarrow> nat \<Rightarrow> nat \<Rightarrow> futex_sys \<Rightarrow> nat \<times> futex_sys" where
  "wake_loop addr val woken i 0 s = (woken, s)"
| "wake_loop addr val woken i (Suc k) s =
     (if \<not> woken < val then (woken, s)
      else case fw_pcb (fx_table s i) of
        Some p \<Rightarrow>
          (if fw_addr (fx_table s i) = addr
           then wake_loop addr val (Suc woken) (Suc i) k
                  (set_waiter i waiter_free (fx_set_state p PSTATE_READY s))
           else wake_loop addr val woken (Suc i) k s)
      | None \<Rightarrow> wake_loop addr val woken (Suc i) k s)"

definition futex_wake :: "nat \<Rightarrow> nat \<Rightarrow> futex_sys \<Rightarrow> int \<times> futex_sys" where
  "futex_wake addr val s =
     (let (woken, s') = wake_loop addr val 0 0 FUTEX_MAX_WAITERS s in (int woken, s'))"

definition sys_futex ::
  "(futex_sys \<Rightarrow> futex_sys) \<Rightarrow> nat \<Rightarrow> nat \<Rightarrow> nat \<Rightarrow> nat \<Rightarrow> futex_sys \<Rightarrow> (int \<times> futex_sys) option" where
  "sys_futex env addr opn val timeout_ms s =
     (if addr = 0 then Some (EINVAL, s)
      else if opn = FUTEX_WAIT then futex_wait env addr val timeout_ms s
      else if opn = FUTEX_WAKE then Some (futex_wake addr val s)
      else Some (EINVAL, s))"

section \<open>Which waiters a wake reaches\<close>

definition waits_on :: "futex_sys \<Rightarrow> nat \<Rightarrow> nat \<Rightarrow> bool" where
  "waits_on s addr i \<longleftrightarrow> fw_addr (fx_table s i) = addr \<and> fw_pcb (fx_table s i) \<noteq> None"

text \<open>The slots of the table that hold a waiter on an address, in table order.\<close>

definition waiters :: "futex_sys \<Rightarrow> nat \<Rightarrow> nat list" where
  "waiters s addr = filter (waits_on s addr) [0..<FUTEX_MAX_WAITERS]"

definition wake_one :: "nat \<Rightarrow> futex_sys \<Rightarrow> futex_sys" where
  "wake_one i s = set_waiter i waiter_free (fx_set_state (the (fw_pcb (fx_table s i))) PSTATE_READY s)"

lemma wake_one_frame [simp]:
  "j \<noteq> i \<Longrightarrow> fx_table (wake_one i s) j = fx_table s j"
  "fx_table (wake_one i s) i = waiter_free"
  "fx_mem (wake_one i s) = fx_mem s" "fx_ticks (wake_one i s) = fx_ticks s"
  by (simp_all add: wake_one_def set_waiter_def fx_set_state_def)

lemma waits_on_wake_one [simp]: "j \<noteq> i \<Longrightarrow> waits_on (wake_one i s) addr j = waits_on s addr j"
  by (simp add: waits_on_def)

lemma wake_loop_eq:
  "woken \<le> val \<Longrightarrow> wake_loop addr val woken i k s =
     (let ws = take (val - woken) (filter (waits_on s addr) [i..<i + k])
      in (woken + length ws, fold wake_one ws s))"
proof (induction k arbitrary: woken i s)
  case (Suc k)
  have upt: "[i..<Suc (i + k)] = i # [Suc i..<Suc (i + k)]"
    by (simp add: upt_conv_Cons del: upt_Suc)
  show ?case
  proof (cases "woken < val")
    case False
    with Suc.prems show ?thesis by simp
  next
    case True
    show ?thesis
    proof (cases "waits_on s addr i")
      case F: False
      with True Suc.IH [of woken "Suc i" s] Suc.prems show ?thesis
        by (auto simp: waits_on_def upt simp del: upt_Suc split: option.split)
    next
      case T: True
      then obtain p where p: "fw_pcb (fx_table s i) = Some p" "fw_addr (fx_table s i) = addr"
        by (auto simp: waits_on_def)
      have same: "filter (waits_on (wake_one i s) addr) [Suc i..<Suc (i + k)]
          = filter (waits_on s addr) [Suc i..<Suc (i + k)]"
        by (intro filter_cong) auto
      have "wake_loop addr val woken i (Suc k) s = wake_loop addr val (Suc woken) (Suc i) k (wake_one i s)"
        using True p by (simp add: wake_one_def)
      moreover obtain d where "val - woken = Suc d" "val - Suc woken = d"
        using True by (metis Suc_diff_Suc)
      ultimately show ?thesis
        using True T Suc.IH [of "Suc woken" "Suc i" "wake_one i s"]
        by (simp add: upt same Let_def del: upt_Suc wake_loop.simps)
    qed
  qed
qed simp

lemma futex_wake_eq:
  "futex_wake addr val s =
     (int (min val (length (waiters s addr))), fold wake_one (take val (waiters s addr)) s)"
  by (simp add: futex_wake_def wake_loop_eq waiters_def Let_def min.commute)

lemma fold_wake_table:
  "distinct ws \<Longrightarrow> fx_table (fold wake_one ws s) i =
     (if i \<in> set ws then waiter_free else fx_table s i)"
  by (induction ws arbitrary: s) auto

lemma fold_wake_procs:
  assumes "distinct ws" "\<And>i. i \<in> set ws \<Longrightarrow> fw_pcb (fx_table s i) \<noteq> None"
  shows "fx_procs (fold wake_one ws s) p =
     (if \<exists>i \<in> set ws. fw_pcb (fx_table s i) = Some p then (fx_procs s p)\<lparr>pcb_state := PSTATE_READY\<rparr>
      else fx_procs s p)"
  using assms
proof (induction ws arbitrary: s)
  case (Cons w ws)
  obtain q where q: "fw_pcb (fx_table s w) = Some q" using Cons.prems by auto
  have tab: "fx_table (wake_one w s) i = fx_table s i" if "i \<in> set ws" for i
    using that Cons.prems(1) by (cases "i = w") auto
  have proc: "fx_procs (wake_one w s) p =
      (if p = q then (fx_procs s p)\<lparr>pcb_state := PSTATE_READY\<rparr> else fx_procs s p)"
    by (simp add: wake_one_def set_waiter_def fx_set_state_def set_pstate_def q)
  have "fx_procs (fold wake_one ws (wake_one w s)) p =
     (if \<exists>i \<in> set ws. fw_pcb (fx_table (wake_one w s) i) = Some p
      then (fx_procs (wake_one w s) p)\<lparr>pcb_state := PSTATE_READY\<rparr> else fx_procs (wake_one w s) p)"
    using Cons.prems tab by (intro Cons.IH) auto
  also have "(\<exists>i \<in> set ws. fw_pcb (fx_table (wake_one w s) i) = Some p)
      = (\<exists>i \<in> set ws. fw_pcb (fx_table s i) = Some p)"
    by (simp add: tab)
  finally show ?case using q by (auto simp: proc)
qed simp

lemma waiters_props:
  "distinct (waiters s addr)" "i \<in> set (waiters s addr) \<Longrightarrow> fw_pcb (fx_table s i) \<noteq> None"
  "i \<in> set (waiters s addr) \<longleftrightarrow> i < FUTEX_MAX_WAITERS \<and> waits_on s addr i"
  by (auto simp: waiters_def waits_on_def)

section \<open>Properties\<close>

lemma futex_wake_spec:
  assumes "addr \<noteq> 0"
  shows "let ws = take val (waiters s addr); (r, s') = futex_wake addr val s
     in sys_futex env addr FUTEX_WAKE val t s = Some (r, s') \<and>
        r = int (min val (length (waiters s addr))) \<and>
        (\<forall>i. fx_table s' i = (if i \<in> set ws then waiter_free else fx_table s i)) \<and>
        (\<forall>p. fx_procs s' p =
          (if \<exists>i \<in> set ws. fw_pcb (fx_table s i) = Some p
           then (fx_procs s p)\<lparr>pcb_state := PSTATE_READY\<rparr> else fx_procs s p))"
proof -
  have "distinct (take val (waiters s addr))" by (simp add: waiters_props)
  moreover have "fw_pcb (fx_table s i) \<noteq> None" if "i \<in> set (take val (waiters s addr))" for i
    using that by (meson in_set_takeD waiters_props(2))
  ultimately show ?thesis
    using assms by (simp add: sys_futex_def FUTEX_WAIT_def FUTEX_WAKE_def futex_wake_eq Let_def
        fold_wake_table fold_wake_procs)
qed

text \<open>C29: FUTEX_WAKE wakes the first \<open>val\<close> waiters of the address in table order, and only
  them: it returns how many, frees exactly their slots, makes exactly their processes
  ready, and leaves every other slot and process as it was.\<close>
theorem futex_wake_exact:
  assumes "addr \<noteq> 0"
  shows "let ws = take val (waiters s addr); (r, s') = futex_wake addr val s
     in sys_futex env addr FUTEX_WAKE val t s = Some (r, s') \<and>
        r = int (min val (length (waiters s addr))) \<and>
        (\<forall>i. fx_table s' i = (if i \<in> set ws then waiter_free else fx_table s i)) \<and>
        (\<forall>p. fx_procs s' p =
          (if \<exists>i \<in> set ws. fw_pcb (fx_table s i) = Some p
           then (fx_procs s p)\<lparr>pcb_state := PSTATE_READY\<rparr> else fx_procs s p))"
  by (rule futex_wake_spec [OF assms])

definition futex_demo :: futex_sys where
  "futex_demo = \<lparr>fx_procs = process_init(0 := pcb_zero\<lparr>pcb_state := PSTATE_RUNNING, pcb_pid := 1\<rparr>,
       1 := pcb_zero\<lparr>pcb_state := PSTATE_BLOCKED, pcb_pid := 2\<rparr>),
     fx_table = (\<lambda>_. waiter_free)(0 := \<lparr>fw_addr = 4096, fw_pcb = Some 1\<rparr>),
     fx_ticks = 0, fx_mem = (\<lambda>_. 0)\<rparr>"

lemma futex_demo_waiters: "waiters futex_demo 4096 = [0]"
proof -
  have "waiters futex_demo 4096 = filter (\<lambda>i. i = 0) [0..<FUTEX_MAX_WAITERS]"
    unfolding waiters_def
    by (intro filter_cong) (auto simp: waits_on_def futex_demo_def waiter_free_def)
  also have "[0..<FUTEX_MAX_WAITERS] = 0 # [1..<FUTEX_MAX_WAITERS]"
    by (simp add: FUTEX_MAX_WAITERS_def upt_conv_Cons)
  finally show ?thesis by (auto simp: filter_empty_conv)
qed

theorem futex_wake_exact_witness:
  "fst (futex_wake 4096 5 futex_demo) = 1 \<and>
   pcb_state (fx_procs (snd (futex_wake 4096 5 futex_demo)) 1) = PSTATE_READY"
  using futex_wake_exact [of 4096 5 futex_demo "\<lambda>s. s" 0]
  by (auto simp: futex_demo_waiters Let_def case_prod_beta) (simp add: futex_demo_def)

text \<open>One wait that goes to sleep: the state in which the caller starts to spin.\<close>

definition sleeping :: "nat \<Rightarrow> nat \<Rightarrow> nat \<Rightarrow> futex_sys \<Rightarrow> futex_sys" where
  "sleeping slot addr p s =
     fx_set_state p PSTATE_BLOCKED (set_waiter slot \<lparr>fw_addr = addr, fw_pcb = Some p\<rparr> s)"

lemma futex_spin_unfold_steps:
  assumes "\<And>k. k < n \<Longrightarrow> pcb_state (fx_procs ((env ^^ k) s) p) = PSTATE_BLOCKED"
    and "\<And>k. k < n \<Longrightarrow> deadline = 0 \<or> fx_ticks ((env ^^ k) s) < deadline"
  shows "futex_spin env slot p deadline s = futex_spin env slot p deadline ((env ^^ n) s)"
  using assms
proof (induction n)
  case (Suc n)
  have "futex_spin env slot p deadline ((env ^^ n) s)
      = futex_spin env slot p deadline (env ((env ^^ n) s))"
    using Suc.prems(1) [of n] Suc.prems(2) [of n] by (subst futex_spin.simps) auto
  with Suc show ?case by simp
qed simp

lemma futex_wait_eq:
  assumes "addr \<noteq> 0" "fx_mem s addr = val" "process_current_pcb (fx_procs s) = Some p"
    "futex_alloc_slot s = Some slot"
  shows "sys_futex env addr FUTEX_WAIT val t s =
     futex_spin env slot p (if t \<noteq> 0 then (fx_ticks s + t) mod 2 ^ 64 else 0) (sleeping slot addr p s)"
  using assms
  by (simp add: sys_futex_def futex_wait_def sleeping_def Let_def set_waiter_def FUTEX_WAIT_def)

text \<open>FUTEX_WAIT never sleeps when the word has changed already; otherwise, with a timeout that
  passes after \<open>n\<close> turns without a wake, it returns ETIMEDOUT, its slot is free again and
  its process runs; and a wake that comes first makes it return 0.\<close>
theorem futex_wait_outcomes:
  assumes "addr \<noteq> 0" "process_current_pcb (fx_procs s) = Some p" "futex_alloc_slot s = Some slot"
    and t: "0 < t" "fx_ticks s + t < 2 ^ 64"
  shows "(fx_mem s addr \<noteq> val \<longrightarrow> sys_futex env addr FUTEX_WAIT val t s = Some (EAGAIN, s)) \<and>
    (\<forall>n. fx_mem s addr = val \<and>
       (\<forall>k < n. pcb_state (fx_procs ((env ^^ k) (sleeping slot addr p s)) p) = PSTATE_BLOCKED \<and>
               fx_ticks ((env ^^ k) (sleeping slot addr p s)) < fx_ticks s + t) \<longrightarrow>
     (let s' = (env ^^ n) (sleeping slot addr p s) in
       (pcb_state (fx_procs s' p) = PSTATE_BLOCKED \<and> fx_ticks s + t \<le> fx_ticks s' \<longrightarrow>
          sys_futex env addr FUTEX_WAIT val t s =
            Some (ETIMEDOUT, fx_set_state p PSTATE_RUNNING (set_waiter slot waiter_free s'))) \<and>
       (pcb_state (fx_procs s' p) \<noteq> PSTATE_BLOCKED \<longrightarrow>
          sys_futex env addr FUTEX_WAIT val t s = Some (0, s'))))"
proof (intro conjI impI allI)
  assume "fx_mem s addr \<noteq> val"
  with assms show "sys_futex env addr FUTEX_WAIT val t s = Some (EAGAIN, s)"
    by (simp add: sys_futex_def futex_wait_def FUTEX_WAIT_def)
next
  fix n
  assume H: "fx_mem s addr = val \<and>
       (\<forall>k < n. pcb_state (fx_procs ((env ^^ k) (sleeping slot addr p s)) p) = PSTATE_BLOCKED \<and>
               fx_ticks ((env ^^ k) (sleeping slot addr p s)) < fx_ticks s + t)"
  have "sys_futex env addr FUTEX_WAIT val t s =
      futex_spin env slot p (fx_ticks s + t) ((env ^^ n) (sleeping slot addr p s))"
    using H assms by (simp add: futex_wait_eq futex_spin_unfold_steps [of n])
  then show "let s' = (env ^^ n) (sleeping slot addr p s) in
       (pcb_state (fx_procs s' p) = PSTATE_BLOCKED \<and> fx_ticks s + t \<le> fx_ticks s' \<longrightarrow>
          sys_futex env addr FUTEX_WAIT val t s =
            Some (ETIMEDOUT, fx_set_state p PSTATE_RUNNING (set_waiter slot waiter_free s'))) \<and>
       (pcb_state (fx_procs s' p) \<noteq> PSTATE_BLOCKED \<longrightarrow>
          sys_futex env addr FUTEX_WAIT val t s = Some (0, s'))"
    using t by (simp add: Let_def futex_spin.simps)
qed

definition futex_tick_env :: "futex_sys \<Rightarrow> futex_sys" where
  "futex_tick_env s = s\<lparr>fx_ticks := fx_ticks s + 10\<rparr>"

theorem futex_wait_outcomes_witness:
  "\<exists>s'. sys_futex futex_tick_env 8192 FUTEX_WAIT 0 10 futex_demo = Some (ETIMEDOUT, s')"
proof -
  have cur: "process_current_pcb (fx_procs futex_demo) = Some 0"
    unfolding process_current_pcb_def
    by (rule first_idx_SomeI) (simp_all add: futex_demo_def PROC_MAX_def)
  have slot: "futex_alloc_slot futex_demo = Some 1"
    unfolding futex_alloc_slot_def
    by (rule first_idx_SomeI)
      (auto simp: futex_demo_def waiter_free_def FUTEX_MAX_WAITERS_def less_Suc_eq)
  have mem: "fx_mem futex_demo 8192 = 0" and ticks: "fx_ticks futex_demo = 0"
    by (simp_all add: futex_demo_def)
  have sleep: "pcb_state (fx_procs (sleeping (Suc 0) 8192 0 futex_demo) 0) = PSTATE_BLOCKED"
    "fx_ticks (sleeping (Suc 0) 8192 0 futex_demo) = 0"
    by (simp_all add: sleeping_def fx_set_state_def set_waiter_def ticks)
  show ?thesis
    using futex_wait_outcomes [OF _ cur slot, of 8192 10 0 futex_tick_env, THEN conjunct2,
        THEN spec [where x = 1]]
    by (simp add: mem ticks sleep futex_tick_env_def Let_def)
qed

end
