(* ===== verification/Input.thy ===== *)
theory Input
  imports Prelude
begin

text \<open>
  kernel/input.c: the keyboard and mouse event rings, held-key repeat, the gamepad snapshot and
  the mouse grab.  Both rings keep one slot empty; a full keyboard ring drops the newest event,
  a full mouse ring drops the oldest.  The index arithmetic is the source's masking of a
  power of two.
\<close>

definition KEY_BUF_SIZE :: nat where "KEY_BUF_SIZE = 64"
definition MOUSE_BUF_SIZE :: nat where "MOUSE_BUF_SIZE = 32"
definition REPEAT_DELAY_TICKS :: u64 where "REPEAT_DELAY_TICKS = 500"
definition REPEAT_RATE_TICKS :: u64 where "REPEAT_RATE_TICKS = 60"
definition INPUT_MOD_SHIFT :: u8 where "INPUT_MOD_SHIFT = 1"
definition INPUT_MOD_CTRL :: u8 where "INPUT_MOD_CTRL = 2"
definition INPUT_MOD_CAPS :: u8 where "INPUT_MOD_CAPS = 8"

record key_event =
  ke_scancode :: u8
  ke_ascii :: u8
  ke_mods :: u8

record mouse_event =
  me_dx :: int
  me_dy :: int
  me_buttons :: u8

record pad_state =
  pd_axis_x :: int
  pd_axis_y :: int
  pd_buttons :: u16
  pd_connected :: u8

record input_sys =
  key_ring :: "nat \<Rightarrow> key_event"
  key_head :: nat
  key_tail :: nat
  mou_ring :: "nat \<Rightarrow> mouse_event"
  mou_head :: nat
  mou_tail :: nat
  pad :: pad_state
  held_scancode :: u8
  held_ascii :: u8
  held_mods :: u8
  held_since :: u64
  held_last_rep :: u64
  inp_shift :: u8
  inp_ctrl :: u8
  inp_caps :: u8
  mouse_grabbed :: bool
  in_ticks :: u64

definition key_next :: "input_sys \<Rightarrow> nat" where
  "key_next s = (key_tail s + 1) AND (KEY_BUF_SIZE - 1)"

definition key_store :: "key_event \<Rightarrow> input_sys \<Rightarrow> input_sys" where
  "key_store e s = s\<lparr>key_ring := (key_ring s)(key_tail s := e), key_tail := key_next s\<rparr>"

definition current_mods :: "input_sys \<Rightarrow> u8" where
  "current_mods s =
     (let m0 = 0;
          m1 = (if inp_shift s \<noteq> 0 then m0 OR INPUT_MOD_SHIFT else m0);
          m2 = (if inp_ctrl s \<noteq> 0 then m1 OR INPUT_MOD_CTRL else m1)
      in if inp_caps s \<noteq> 0 then m2 OR INPUT_MOD_CAPS else m2)"

definition input_push_key :: "u8 \<Rightarrow> u8 \<Rightarrow> input_sys \<Rightarrow> input_sys" where
  "input_push_key scancode ascii s =
     (let mods = current_mods s
      in if key_next s = key_head s then s
         else (key_store \<lparr>ke_scancode = scancode, ke_ascii = ascii, ke_mods = mods\<rparr> s)
           \<lparr>held_scancode := scancode, held_ascii := ascii, held_mods := mods,
            held_since := in_ticks s, held_last_rep := in_ticks s\<rparr>)"

definition input_key_release :: "input_sys \<Rightarrow> input_sys" where
  "input_key_release s = s\<lparr>held_scancode := 0, held_ascii := 0\<rparr>"

definition input_mod_update :: "u8 \<Rightarrow> u8 \<Rightarrow> u8 \<Rightarrow> input_sys \<Rightarrow> input_sys" where
  "input_mod_update shift ctrl caps s =
     s\<lparr>inp_shift := shift, inp_ctrl := ctrl, inp_caps := caps\<rparr>"

text \<open>The subtractions of tick counts are on u64 and wrap as in the source.\<close>

definition input_key_repeat_tick :: "input_sys \<Rightarrow> input_sys" where
  "input_key_repeat_tick s =
     (if held_scancode s = 0 then s
      else if in_ticks s - held_since s < REPEAT_DELAY_TICKS then s
      else if in_ticks s - held_last_rep s \<ge> REPEAT_RATE_TICKS then
        (let s1 = s\<lparr>held_last_rep := in_ticks s\<rparr>
         in if key_next s1 = key_head s1 then s1
            else key_store \<lparr>ke_scancode = held_scancode s, ke_ascii = held_ascii s,
                   ke_mods = held_mods s\<rparr> s1)
      else s)"

definition mou_next :: "input_sys \<Rightarrow> nat" where
  "mou_next s = (mou_tail s + 1) AND (MOUSE_BUF_SIZE - 1)"

definition input_push_mouse :: "int \<Rightarrow> int \<Rightarrow> u8 \<Rightarrow> input_sys \<Rightarrow> input_sys" where
  "input_push_mouse dx dy buttons s =
     (let s1 = (if mou_next s = mou_head s
                then s\<lparr>mou_head := (mou_head s + 1) AND (MOUSE_BUF_SIZE - 1)\<rparr> else s)
      in s1\<lparr>mou_ring := (mou_ring s1)(mou_tail s1 :=
               \<lparr>me_dx = dx, me_dy = dy, me_buttons = buttons\<rparr>),
            mou_tail := mou_next s1\<rparr>)"

definition input_pad_update :: "int \<Rightarrow> int \<Rightarrow> u16 \<Rightarrow> u8 \<Rightarrow> input_sys \<Rightarrow> input_sys" where
  "input_pad_update ax ay buttons connected s =
     s\<lparr>pad := \<lparr>pd_axis_x = ax, pd_axis_y = ay, pd_buttons = buttons, pd_connected = connected\<rparr>\<rparr>"

definition key_take :: "input_sys \<Rightarrow> key_event \<times> input_sys" where
  "key_take s = (key_ring s (key_head s),
     s\<lparr>key_head := (key_head s + 1) AND (KEY_BUF_SIZE - 1)\<rparr>)"

definition mou_take :: "input_sys \<Rightarrow> mouse_event \<times> input_sys" where
  "mou_take s = (mou_ring s (mou_head s),
     s\<lparr>mou_head := (mou_head s + 1) AND (MOUSE_BUF_SIZE - 1)\<rparr>)"

fun drain_keys :: "nat \<Rightarrow> key_event list \<Rightarrow> input_sys \<Rightarrow> key_event list \<times> input_sys" where
  "drain_keys 0 out s = (out, s)"
| "drain_keys (Suc k) out s =
     (if key_head s = key_tail s then (out, s)
      else let (e, s') = key_take s in drain_keys k (out @ [e]) s')"

fun drain_mouse :: "nat \<Rightarrow> mouse_event list \<Rightarrow> input_sys \<Rightarrow> mouse_event list \<times> input_sys" where
  "drain_mouse 0 out s = (out, s)"
| "drain_mouse (Suc k) out s =
     (if mou_head s = mou_tail s then (out, s)
      else let (e, s') = mou_take s in drain_mouse k (out @ [e]) s')"

definition sys_poll_keys :: "bool \<Rightarrow> nat \<Rightarrow> input_sys \<Rightarrow> int \<times> key_event list \<times> input_sys" where
  "sys_poll_keys buf_ok n s =
     (let s1 = input_key_repeat_tick s
      in if \<not> buf_ok \<or> n = 0 then (0, [], s1)
         else let (out, s2) = drain_keys n [] s1 in (int (length out), out, s2))"

definition sys_poll_mouse :: "bool \<Rightarrow> nat \<Rightarrow> input_sys \<Rightarrow> int \<times> mouse_event list \<times> input_sys" where
  "sys_poll_mouse buf_ok n s =
     (if \<not> buf_ok \<or> n = 0 then (0, [], s)
      else let (out, s2) = drain_mouse n [] s in (int (length out), out, s2))"

definition sys_poll_pad :: "bool \<Rightarrow> input_sys \<Rightarrow> int \<times> pad_state option" where
  "sys_poll_pad buf_ok s =
     (if \<not> buf_ok then (0, None) else (uint (pd_connected (pad s)), Some (pad s)))"

definition input_set_mouse_grab :: "bool \<Rightarrow> input_sys \<Rightarrow> input_sys" where
  "input_set_mouse_grab g s =
     (if g then s\<lparr>mouse_grabbed := True\<rparr>
      else s\<lparr>mouse_grabbed := False, mou_head := 0, mou_tail := 0\<rparr>)"

definition input_push_mouse_ex :: "int \<Rightarrow> int \<Rightarrow> u8 \<Rightarrow> bool \<Rightarrow> input_sys \<Rightarrow> input_sys" where
  "input_push_mouse_ex dx dy buttons from_gui s =
     (if mouse_grabbed s \<and> from_gui then s else input_push_mouse dx dy buttons s)"

section \<open>The two rings as bounded queues\<close>

definition gap :: "nat \<Rightarrow> nat \<Rightarrow> nat \<Rightarrow> nat" where
  "gap cap h t = (if h \<le> t then t - h else t + cap - h)"

lemma gap_spec:
  assumes "h < cap" "t < cap"
  shows "gap cap h t < cap" "(h + gap cap h t) mod cap = t"
    "gap cap h t = 0 \<longleftrightarrow> h = t"
    "Suc t mod cap = h \<longleftrightarrow> gap cap h t = cap - 1"
  using assms by (auto simp: gap_def mod_if)

lemma gap_put:
  assumes "h < cap" "t < cap" "gap cap h t < cap - 1"
  shows "gap cap h (Suc t mod cap) = Suc (gap cap h t)"
  using assms by (auto simp: gap_def mod_if)

lemma gap_get:
  assumes "h < cap" "t < cap" "h \<noteq> t"
  shows "gap cap (Suc h mod cap) t = gap cap h t - 1"
  using assms by (auto simp: gap_def mod_if)

lemma and_63: "(n :: nat) AND 63 = n mod 64"
  using take_bit_eq_mask [of 6 n] by (simp add: take_bit_eq_mod mask_eq_exp_minus_1)

lemma and_31: "(n :: nat) AND 31 = n mod 32"
  using take_bit_eq_mask [of 5 n] by (simp add: take_bit_eq_mod mask_eq_exp_minus_1)

definition key_items :: "input_sys \<Rightarrow> key_event list" where
  "key_items s = ring_list 64 (key_ring s) (key_head s) (gap 64 (key_head s) (key_tail s))"

definition mou_items :: "input_sys \<Rightarrow> mouse_event list" where
  "mou_items s = ring_list 32 (mou_ring s) (mou_head s) (gap 32 (mou_head s) (mou_tail s))"

definition input_inv :: "input_sys \<Rightarrow> bool" where
  "input_inv s \<longleftrightarrow> key_head s < 64 \<and> key_tail s < 64 \<and> mou_head s < 32 \<and> mou_tail s < 32"

lemmas ring_index = key_next_def mou_next_def KEY_BUF_SIZE_def MOUSE_BUF_SIZE_def and_63 and_31

interpretation keyq: bounded_fifo key_store key_take
  "\<lambda>s. gap 64 (key_head s) (key_tail s)" 63 key_items input_inv
proof unfold_locales
  fix s x
  assume inv: "input_inv s"
  let ?n = "gap 64 (key_head s) (key_tail s)"
  show "?n = length (key_items s)" "length (key_items s) \<le> 63"
    using inv gap_spec(1) [of "key_head s" 64 "key_tail s"]
    by (simp_all add: key_items_def input_inv_def)
  show "input_inv (key_store x s)"
    using inv by (simp add: input_inv_def key_store_def ring_index)
  show "key_items (key_store x s) = key_items s @ [x]" if "?n < 63"
    using inv that gap_put [of "key_head s" 64 "key_tail s"]
      gap_spec(2) [of "key_head s" 64 "key_tail s"]
      ring_list_put [of ?n 64 "key_ring s" "key_head s" x]
    by (simp add: input_inv_def key_items_def key_store_def ring_index)
next
  fix s
  assume inv: "input_inv s" and ne: "gap 64 (key_head s) (key_tail s) \<noteq> 0"
  then have "key_head s \<noteq> key_tail s"
    using gap_spec(3) [of "key_head s" 64 "key_tail s"] by (simp add: input_inv_def)
  with inv have g: "gap 64 (Suc (key_head s) mod 64) (key_tail s)
      = gap 64 (key_head s) (key_tail s) - 1"
    by (simp add: gap_get input_inv_def)
  show "input_inv (snd (key_take s))"
    using inv by (simp add: input_inv_def key_take_def ring_index)
  show "fst (key_take s) = hd (key_items s)"
    using inv ne by (simp add: input_inv_def key_items_def key_take_def ring_simps)
  show "key_items (snd (key_take s)) = tl (key_items s)"
    using ne g by (simp add: key_items_def key_take_def ring_index ring_simps)
qed

definition mou_store :: "mouse_event \<Rightarrow> input_sys \<Rightarrow> input_sys" where
  "mou_store e s = s\<lparr>mou_ring := (mou_ring s)(mou_tail s := e), mou_tail := mou_next s\<rparr>"

interpretation mouq: bounded_fifo mou_store mou_take
  "\<lambda>s. gap 32 (mou_head s) (mou_tail s)" 31 mou_items input_inv
proof unfold_locales
  fix s x
  assume inv: "input_inv s"
  let ?n = "gap 32 (mou_head s) (mou_tail s)"
  show "?n = length (mou_items s)" "length (mou_items s) \<le> 31"
    using inv gap_spec(1) [of "mou_head s" 32 "mou_tail s"]
    by (simp_all add: mou_items_def input_inv_def)
  show "input_inv (mou_store x s)"
    using inv by (simp add: input_inv_def mou_store_def ring_index)
  show "mou_items (mou_store x s) = mou_items s @ [x]" if "?n < 31"
    using inv that gap_put [of "mou_head s" 32 "mou_tail s"]
      gap_spec(2) [of "mou_head s" 32 "mou_tail s"]
      ring_list_put [of ?n 32 "mou_ring s" "mou_head s" x]
    by (simp add: input_inv_def mou_items_def mou_store_def ring_index)
next
  fix s
  assume inv: "input_inv s" and ne: "gap 32 (mou_head s) (mou_tail s) \<noteq> 0"
  then have "mou_head s \<noteq> mou_tail s"
    using gap_spec(3) [of "mou_head s" 32 "mou_tail s"] by (simp add: input_inv_def)
  with inv have g: "gap 32 (Suc (mou_head s) mod 32) (mou_tail s)
      = gap 32 (mou_head s) (mou_tail s) - 1"
    by (simp add: gap_get input_inv_def)
  show "input_inv (snd (mou_take s))"
    using inv by (simp add: input_inv_def mou_take_def ring_index)
  show "fst (mou_take s) = hd (mou_items s)"
    using inv ne by (simp add: input_inv_def mou_items_def mou_take_def ring_simps)
  show "mou_items (snd (mou_take s)) = tl (mou_items s)"
    using ne g by (simp add: mou_items_def mou_take_def ring_index ring_simps)
qed


section \<open>Properties\<close>

lemma key_full: "input_inv s \<Longrightarrow> key_next s = key_head s \<longleftrightarrow> length (key_items s) = 63"
  using gap_spec(4) [of "key_head s" 64 "key_tail s"]
  by (simp add: input_inv_def key_items_def ring_index)

lemma mou_full: "input_inv s \<Longrightarrow> mou_next s = mou_head s \<longleftrightarrow> length (mou_items s) = 31"
  using gap_spec(4) [of "mou_head s" 32 "mou_tail s"]
  by (simp add: input_inv_def mou_items_def ring_index)

lemma input_push_mouse_alt:
  "input_push_mouse dx dy b s = mou_store \<lparr>me_dx = dx, me_dy = dy, me_buttons = b\<rparr>
     (if mou_next s = mou_head s then snd (mou_take s) else s)"
  by (simp add: input_push_mouse_def mou_store_def mou_take_def mou_next_def Let_def)

lemma input_push_mouse_items:
  assumes "input_inv s"
  shows "input_inv (input_push_mouse dx dy b s) \<and>
     mou_items (input_push_mouse dx dy b s) =
       (if length (mou_items s) = 31 then tl (mou_items s) else mou_items s)
       @ [\<lparr>me_dx = dx, me_dy = dy, me_buttons = b\<rparr>]"
proof (cases "length (mou_items s) = 31")
  case True
  have n: "gap 32 (mou_head s) (mou_tail s) = 31"
    using True assms by (simp add: mou_items_def)
  then have t: "input_inv (snd (mou_take s))" "mou_items (snd (mou_take s)) = tl (mou_items s)"
    using assms by (simp_all add: mouq.inv_get mouq.items_get)
  then have "gap 32 (mou_head (snd (mou_take s))) (mou_tail (snd (mou_take s))) < 31"
    using True mouq.cnt_items [OF t(1)] by simp
  with t True assms show ?thesis
    by (simp add: input_push_mouse_alt mou_full mouq.inv_put mouq.items_put)
next
  case False
  then have "gap 32 (mou_head s) (mou_tail s) < 31"
    using assms mouq.items_bound [OF assms] mouq.cnt_items [OF assms] by simp
  with False assms show ?thesis
    by (simp add: input_push_mouse_alt mou_full mouq.inv_put mouq.items_put)
qed

text \<open>whatever mouse events arrive, the ring holds the most recent 31 of the events that were
  pending and the new ones, in order of arrival.\<close>
theorem mouse_ring_recent:
  assumes "input_inv s"
  shows "let s' = fold (\<lambda>(dx, dy, b). input_push_mouse dx dy b) evs s;
             all = mou_items s @ map (\<lambda>(dx, dy, b). \<lparr>me_dx = dx, me_dy = dy, me_buttons = b\<rparr>) evs
         in input_inv s' \<and> mou_items s' = drop (length all - 31) all"
  using assms
proof (induction evs arbitrary: s)
  case Nil
  then show ?case using mouq.items_bound by (simp add: Let_def)
next
  case (Cons ev evs)
  obtain dx dy b where ev: "ev = (dx, dy, b)" by (cases ev)
  let ?s = "input_push_mouse dx dy b s" and ?e = "\<lparr>me_dx = dx, me_dy = dy, me_buttons = b\<rparr>"
  have one: "input_inv ?s" "mou_items ?s =
      (if length (mou_items s) = 31 then tl (mou_items s) else mou_items s) @ [?e]"
    using input_push_mouse_items [OF Cons.prems] by auto
  show ?case
    using Cons.IH [OF one(1)] mouq.items_bound [OF Cons.prems]
    by (cases "mou_items s") (auto simp: one(2) ev Let_def simp del: drop_append)
qed

definition input_zero :: input_sys where
  "input_zero = \<lparr>key_ring = (\<lambda>_. \<lparr>ke_scancode = 0, ke_ascii = 0, ke_mods = 0\<rparr>), key_head = 0,
     key_tail = 0, mou_ring = (\<lambda>_. \<lparr>me_dx = 0, me_dy = 0, me_buttons = 0\<rparr>), mou_head = 0,
     mou_tail = 0, pad = \<lparr>pd_axis_x = 0, pd_axis_y = 0, pd_buttons = 0, pd_connected = 0\<rparr>,
     held_scancode = 0, held_ascii = 0, held_mods = 0, held_since = 0, held_last_rep = 0,
     inp_shift = 0, inp_ctrl = 0, inp_caps = 0, mouse_grabbed = False, in_ticks = 0\<rparr>"

lemma input_zero_inv [simp]: "input_inv input_zero"
  and input_zero_items [simp]: "mou_items input_zero = []" "key_items input_zero = []"
  by (simp_all add: input_inv_def mou_items_def key_items_def input_zero_def gap_def)

theorem mouse_ring_recent_witness:
  "mou_items (fold (\<lambda>(dx, dy, b). input_push_mouse dx dy b) [(1, 2, 0), (3, 4, 1)] input_zero)
   = [\<lparr>me_dx = 1, me_dy = 2, me_buttons = 0\<rparr>, \<lparr>me_dx = 3, me_dy = 4, me_buttons = 1\<rparr>]"
  using mouse_ring_recent [OF input_zero_inv, of "[(1, 2, 0), (3, 4, 1)]"]
  by (simp add: Let_def)

lemma drain_keys_spec:
  assumes "input_inv s"
  obtains s' where "drain_keys k out s = (out @ take k (key_items s), s')" "input_inv s'"
    "key_items s' = drop k (key_items s)"
  using assms
proof (induction k arbitrary: out s thesis)
  case 0
  show ?case by (rule "0.prems"(1) [of s]) (simp_all add: "0.prems")
next
  case (Suc k)
  have g: "gap 64 (key_head s) (key_tail s) = 0 \<longleftrightarrow> key_head s = key_tail s"
    using Suc.prems(2) by (intro gap_spec) (simp_all add: input_inv_def)
  show ?case
  proof (cases "key_head s = key_tail s")
    case True
    then have "key_items s = []" using g by (simp add: key_items_def)
    with True show ?thesis by (intro Suc.prems(1) [of s]) (simp_all add: Suc.prems)
  next
    case False
    then have ne: "gap 64 (key_head s) (key_tail s) \<noteq> 0" using g by simp
    have inv: "input_inv (snd (key_take s))" using Suc.prems(2) ne by (rule keyq.inv_get)
    have items: "key_items s = fst (key_take s) # key_items (snd (key_take s))"
      using Suc.prems(2) ne by (rule keyq.get_split)
    obtain s' where "drain_keys k (out @ [fst (key_take s)]) (snd (key_take s)) =
        ((out @ [fst (key_take s)]) @ take k (key_items (snd (key_take s))), s')" "input_inv s'"
        "key_items s' = drop k (key_items (snd (key_take s)))"
      using Suc.IH [OF _ inv] by metis
    then show ?thesis
      using False by (intro Suc.prems(1) [of s']) (simp_all add: items case_prod_beta)
  qed
qed

lemma repeat_tick_inv: "input_inv s \<Longrightarrow> input_inv (input_key_repeat_tick s)"
  by (simp add: input_key_repeat_tick_def key_store_def Let_def input_inv_def ring_index)

text \<open>a key press is queued behind the ones already waiting, with the modifiers held at the
  time, and is dropped only when 63 are waiting; polling returns the oldest waiting events in
  order, as many as asked for and available, and leaves the rest.\<close>
theorem key_ring_fifo:
  assumes "input_inv s"
  shows "input_inv (input_push_key sc a s) \<and>
     key_items (input_push_key sc a s) =
       (if length (key_items s) = 63 then key_items s
        else key_items s @ [\<lparr>ke_scancode = sc, ke_ascii = a, ke_mods = current_mods s\<rparr>]) \<and>
     (0 < n \<longrightarrow> (\<exists>s'. sys_poll_keys True n s =
        (int (min n (length (key_items (input_key_repeat_tick s)))),
         take n (key_items (input_key_repeat_tick s)), s') \<and> input_inv s' \<and>
         key_items s' = drop n (key_items (input_key_repeat_tick s))))"
proof (intro conjI impI)
  let ?e = "\<lparr>ke_scancode = sc, ke_ascii = a, ke_mods = current_mods s\<rparr>"
  have room: "gap 64 (key_head s) (key_tail s) < 63" if "length (key_items s) \<noteq> 63"
    using that assms keyq.items_bound [OF assms] keyq.cnt_items [OF assms] by simp
  have frame: "key_items (s\<lparr>held_scancode := x1, held_ascii := x2, held_mods := x3, held_since := x4,
      held_last_rep := x5\<rparr>) = key_items s" for s x1 x2 x3 x4 x5
    by (simp add: key_items_def)
  show "input_inv (input_push_key sc a s)"
    using assms by (simp add: input_push_key_def key_store_def Let_def input_inv_def ring_index)
  show "key_items (input_push_key sc a s) =
       (if length (key_items s) = 63 then key_items s else key_items s @ [?e])"
    using assms room by (simp add: input_push_key_def key_full frame keyq.items_put Let_def)
next
  assume "0 < n"
  obtain s' where "drain_keys n [] (input_key_repeat_tick s) =
      ([] @ take n (key_items (input_key_repeat_tick s)), s')" "input_inv s'"
      "key_items s' = drop n (key_items (input_key_repeat_tick s))"
    using drain_keys_spec [OF repeat_tick_inv [OF assms]] by metis
  with \<open>0 < n\<close> show "\<exists>s'. sys_poll_keys True n s =
        (int (min n (length (key_items (input_key_repeat_tick s)))),
         take n (key_items (input_key_repeat_tick s)), s') \<and> input_inv s' \<and>
         key_items s' = drop n (key_items (input_key_repeat_tick s))"
    by (simp add: sys_poll_keys_def Let_def min.commute)
qed

theorem key_ring_fifo_witness:
  "key_items (input_push_key 30 97 input_zero) = [\<lparr>ke_scancode = 30, ke_ascii = 97, ke_mods = 0\<rparr>]"
  using key_ring_fifo [OF input_zero_inv, of 30 97 1]
  by (simp add: current_mods_def input_zero_def [THEN arg_cong, of inp_shift]
      input_zero_def [THEN arg_cong, of inp_ctrl] input_zero_def [THEN arg_cong, of inp_caps])

end
