(* ===== verification/Inflate.thy ===== *)
theory Inflate
  imports Prelude
begin

text \<open>
  kernel/inflate.c: DEFLATE (RFC 1951) and the zlib wrapper (RFC 1950).  The context record is
  \<open>inflate_ctx\<close>: the input with the read position and the bit buffer, the bytes emitted
  so far (their number is \<open>out_pos\<close>) with the capacity of the output buffer, the optional
  window, and the two decoding tables.  A negative return is a value of \<open>inflate_err\<close>;
  since every caller returns at once on an error, what a failed call leaves in the bit buffer is
  never read again, but the bytes it has put into the output buffer remain there: the functions
  that write return them with the error.
\<close>

datatype inflate_err = ERR_DATA | ERR_OUTPUT | ERR_INPUT

fun err_code :: "inflate_err \<Rightarrow> int" where
  "err_code ERR_DATA = -1"
| "err_code ERR_OUTPUT = -2"
| "err_code ERR_INPUT = -3"

definition MAX_BITS :: nat where "MAX_BITS = 15"

record huff =
  h_counts :: "nat \<Rightarrow> nat"
  h_symbols :: "nat \<Rightarrow> nat"

record inflate_ctx =
  i_in :: "u8 list"
  i_pos :: nat
  i_bitbuf :: u32
  i_bitcnt :: nat
  i_out :: "u8 list"
  i_outlen :: nat
  i_window :: "(nat \<Rightarrow> u8) option"
  i_winpos :: nat
  i_winhave :: nat
  i_lencode :: huff
  i_distcode :: huff

section \<open>Huffman tables\<close>

definition count_lengths :: "(nat \<Rightarrow> nat) \<Rightarrow> nat \<Rightarrow> nat \<Rightarrow> nat" where
  "count_lengths lens n = fold (\<lambda>sm c. c(lens sm := c (lens sm) + 1)) [0..<n] (\<lambda>_. 0)"

text \<open>The check for an over-subscribed code, from length \<open>len\<close> on, \<open>k\<close> lengths left.\<close>

fun left_check :: "(nat \<Rightarrow> nat) \<Rightarrow> nat \<Rightarrow> nat \<Rightarrow> int \<Rightarrow> bool" where
  "left_check c len 0 left = True"
| "left_check c len (Suc k) left =
     (let left' = 2 * left - int (c len) in if left' < 0 then False else left_check c (Suc len) k left')"

definition offset_step :: "(nat \<Rightarrow> nat) \<Rightarrow> nat \<Rightarrow> (nat \<Rightarrow> nat) \<Rightarrow> nat \<Rightarrow> nat" where
  "offset_step c len offs = offs(Suc len := offs len + c len)"

definition code_offsets :: "(nat \<Rightarrow> nat) \<Rightarrow> nat \<Rightarrow> nat" where
  "code_offsets c = fold (offset_step c) [1..<MAX_BITS] (\<lambda>_. 0)"

definition place_symbol ::
  "(nat \<Rightarrow> nat) \<Rightarrow> nat \<Rightarrow> (nat \<Rightarrow> nat) \<times> (nat \<Rightarrow> nat) \<Rightarrow> (nat \<Rightarrow> nat) \<times> (nat \<Rightarrow> nat)" where
  "place_symbol lens sm = (\<lambda>(offs, symbols).
     if lens sm \<noteq> 0
     then (offs(lens sm := offs (lens sm) + 1), symbols(offs (lens sm) := sm))
     else (offs, symbols))"

definition huff_build :: "huff \<Rightarrow> (nat \<Rightarrow> nat) \<Rightarrow> nat \<Rightarrow> inflate_err + huff" where
  "huff_build h lens n =
     (let c = count_lengths lens n
      in if c 0 = n then Inr (h\<lparr>h_counts := c\<rparr>)
         else if \<not> left_check c 1 MAX_BITS 1 then Inl ERR_DATA
         else Inr (h\<lparr>h_counts := c,
           h_symbols := snd (fold (place_symbol lens) [0..<n] (code_offsets c, h_symbols h))\<rparr>))"

section \<open>Bits and symbols\<close>

function bits_loop :: "nat \<Rightarrow> inflate_ctx \<Rightarrow> u32 \<Rightarrow> inflate_err + inflate_ctx \<times> u32" where
  "bits_loop need s val =
     (if i_bitcnt s < need
      then if i_pos s \<ge> length (i_in s) then Inl ERR_INPUT
           else bits_loop need (s\<lparr>i_pos := i_pos s + 1, i_bitcnt := i_bitcnt s + 8\<rparr>)
                  (val OR push_bit (i_bitcnt s) (ucast (i_in s ! i_pos s)))
      else Inr (s, val))"
  by pat_completeness auto
termination by (relation "measure (\<lambda>(need, s, _). need - i_bitcnt s)") auto

declare bits_loop.simps [simp del]

definition bits :: "inflate_ctx \<Rightarrow> nat \<Rightarrow> inflate_err + nat \<times> inflate_ctx" where
  "bits s need = (case bits_loop need s (i_bitbuf s) of
     Inl e \<Rightarrow> Inl e
   | Inr (s1, val) \<Rightarrow> Inr (unat (val AND (push_bit need 1 - 1)),
       s1\<lparr>i_bitbuf := drop_bit need val, i_bitcnt := i_bitcnt s1 - need\<rparr>))"

text \<open>The decoding loop at code length \<open>len\<close>, with \<open>k\<close> lengths left.\<close>

fun decode_loop ::
  "huff \<Rightarrow> nat \<Rightarrow> nat \<Rightarrow> int \<Rightarrow> int \<Rightarrow> int \<Rightarrow> inflate_ctx \<Rightarrow> inflate_err + nat \<times> inflate_ctx" where
  "decode_loop h len 0 code first index s = Inl ERR_DATA"
| "decode_loop h len (Suc k) code first index s =
     (case bits s 1 of
        Inl _ \<Rightarrow> Inl ERR_INPUT
      | Inr (b, s1) \<Rightarrow>
          (let code1 = code OR int b; count = int (h_counts h len)
           in if code1 - first < count
              then Inr (h_symbols h (nat (index + (code1 - first))), s1)
              else decode_loop h (Suc len) k (2 * code1) (2 * (first + count)) (index + count) s1))"

definition decode :: "inflate_ctx \<Rightarrow> huff \<Rightarrow> inflate_err + nat \<times> inflate_ctx" where
  "decode s h = decode_loop h 1 MAX_BITS 0 0 0 s"

section \<open>Output\<close>

definition WSIZE :: nat where "WSIZE = 32768"

definition emit :: "inflate_ctx \<Rightarrow> u8 \<Rightarrow> inflate_err \<times> u8 list + inflate_ctx" where
  "emit s b =
     (if length (i_out s) \<ge> i_outlen s then Inl (ERR_OUTPUT, i_out s)
      else let s1 = s\<lparr>i_out := i_out s @ [b]\<rparr>
           in case i_window s of
                None \<Rightarrow> Inr s1
              | Some w \<Rightarrow>
                  Inr (s1\<lparr>i_window := Some (w(i_winpos s := b)),
                    i_winpos := (if i_winpos s + 1 \<ge> WSIZE then 0 else i_winpos s + 1),
                    i_winhave := (if i_winhave s < WSIZE then i_winhave s + 1 else i_winhave s)\<rparr>))"

text \<open>The copy without a window: byte \<open>i\<close> of \<open>src = out + (out_pos - dist)\<close>.\<close>

fun copy_out :: "nat \<Rightarrow> nat \<Rightarrow> nat \<Rightarrow> inflate_ctx \<Rightarrow> inflate_err \<times> u8 list + inflate_ctx" where
  "copy_out src i 0 s = Inr s"
| "copy_out src i (Suc k) s =
     (case emit s (i_out s ! (src + i)) of Inl e \<Rightarrow> Inl e | Inr s1 \<Rightarrow> copy_out src (Suc i) k s1)"

fun copy_window :: "nat \<Rightarrow> nat \<Rightarrow> (nat \<Rightarrow> u8) \<Rightarrow> inflate_ctx \<Rightarrow> inflate_err \<times> u8 list + inflate_ctx" where
  "copy_window dist 0 w s = Inr s"
| "copy_window dist (Suc k) w s =
     (if dist \<le> i_winhave s
      then (case emit s (w ((i_winpos s + WSIZE - dist) AND (WSIZE - 1))) of
              Inl e \<Rightarrow> Inl e
            | Inr s1 \<Rightarrow> (case i_window s1 of None \<Rightarrow> Inr s1 | Some w1 \<Rightarrow> copy_window dist k w1 s1))
      else let back = dist - i_winhave s
           in if back > length (i_out s) then Inl (ERR_DATA, i_out s)
              else (case emit s (i_out s ! (length (i_out s) - back)) of
                Inl e \<Rightarrow> Inl e
              | Inr s1 \<Rightarrow> (case i_window s1 of None \<Rightarrow> Inr s1 | Some w1 \<Rightarrow> copy_window dist k w1 s1)))"

definition emit_match :: "inflate_ctx \<Rightarrow> nat \<Rightarrow> nat \<Rightarrow> inflate_err \<times> u8 list + inflate_ctx" where
  "emit_match s dist len =
     (if dist > length (i_out s) then Inl (ERR_DATA, i_out s)
      else case i_window s of
        None \<Rightarrow> copy_out (length (i_out s) - dist) 0 len s
      | Some w \<Rightarrow> copy_window dist len w s)"

section \<open>Blocks\<close>

definition len_base :: "nat list" where
  "len_base = [3,4,5,6,7,8,9,10,11,13,15,17,19,23,27,31,35,43,51,59,67,83,99,115,131,163,195,227,258]"

definition len_extra :: "nat list" where
  "len_extra = [0,0,0,0,0,0,0,0,1,1,1,1,2,2,2,2,3,3,3,3,4,4,4,4,5,5,5,5,0]"

definition dist_base :: "nat list" where
  "dist_base = [1,2,3,4,5,7,9,13,17,25,33,49,65,97,129,193,257,385,513,769,1025,1537,2049,3073,
    4097,6145,8193,12289,16385,24577]"

definition dist_extra :: "nat list" where
  "dist_extra = [0,0,0,0,1,1,2,2,3,3,4,4,5,5,6,6,7,7,8,8,9,9,10,10,11,11,12,12,13,13]"

definition fixed_lengths :: "nat \<Rightarrow> nat" where
  "fixed_lengths i = (if i < 144 then 8 else if i < 256 then 9 else if i < 280 then 7 else 8)"

definition build_fixed :: "inflate_ctx \<Rightarrow> inflate_err + inflate_ctx" where
  "build_fixed s =
     (case huff_build (i_lencode s) fixed_lengths 288 of
        Inl _ \<Rightarrow> Inl ERR_DATA
      | Inr lc \<Rightarrow>
         (case huff_build (i_distcode s) (\<lambda>i. if i < 30 then 5 else fixed_lengths i) 30 of
            Inl _ \<Rightarrow> Inl ERR_DATA
          | Inr dc \<Rightarrow> Inr (s\<lparr>i_lencode := lc, i_distcode := dc\<rparr>)))"

definition clen_order :: "nat list" where
  "clen_order = [16,17,18,0,8,7,9,6,10,5,11,4,12,3,13,2,14,1,15]"

text \<open>Reading the lengths of the code-length alphabet: entry \<open>i\<close>, \<open>k\<close> entries left.\<close>

fun read_clens :: "nat \<Rightarrow> nat \<Rightarrow> (nat \<Rightarrow> nat) \<Rightarrow> inflate_ctx \<Rightarrow> inflate_err + (nat \<Rightarrow> nat) \<times> inflate_ctx" where
  "read_clens i 0 cl s = Inr (cl, s)"
| "read_clens i (Suc k) cl s =
     (case bits s 3 of
        Inl _ \<Rightarrow> Inl ERR_INPUT
      | Inr (v, s1) \<Rightarrow> read_clens (Suc i) k (cl(clen_order ! i := v)) s1)"

text \<open>
  One turn of the loop that reads the code lengths proper, \<open>ls\<close> being the entries
  \<open>lengths[0..i-1]\<close>: the entries it appends.  The repeat codes 16, 17 and 18 copy the
  last length or zero.
\<close>

definition length_repeat :: "nat \<Rightarrow> nat list \<Rightarrow> inflate_ctx \<Rightarrow> inflate_err + nat \<times> nat \<times> inflate_ctx" where
  "length_repeat sm ls s =
     (if sm = 16 then
        (if ls = [] then Inl ERR_DATA
         else case bits s 2 of Inl _ \<Rightarrow> Inl ERR_INPUT | Inr (r, s1) \<Rightarrow> Inr (last ls, r + 3, s1))
      else if sm = 17 then
        (case bits s 3 of Inl _ \<Rightarrow> Inl ERR_INPUT | Inr (r, s1) \<Rightarrow> Inr (0, r + 3, s1))
      else
        (case bits s 7 of Inl _ \<Rightarrow> Inl ERR_INPUT | Inr (r, s1) \<Rightarrow> Inr (0, r + 11, s1)))"

definition length_step :: "huff \<Rightarrow> nat \<Rightarrow> nat list \<Rightarrow> inflate_ctx \<Rightarrow> inflate_err + nat list \<times> inflate_ctx" where
  "length_step cc ntot ls s =
     (case decode s cc of
        Inl e \<Rightarrow> Inl e
      | Inr (sm, s1) \<Rightarrow>
         (if sm < 16 then Inr ([sm], s1)
          else case length_repeat sm ls s1 of
            Inl e \<Rightarrow> Inl e
          | Inr (val, rep, s2) \<Rightarrow>
              if length ls + rep > ntot then Inl ERR_DATA else Inr (replicate rep val, s2)))"

section \<open>The bits of the input\<close>

text \<open>
  The stream of bits a context still holds: the buffered ones, then those of the unread bytes,
  each least significant bit first.
\<close>

definition byte_bits :: "u8 \<Rightarrow> bool list" where
  "byte_bits b = map (bit b) [0..<8]"

definition sbits :: "inflate_ctx \<Rightarrow> bool list" where
  "sbits s = map (bit (i_bitbuf s)) [0..<i_bitcnt s] @ concat (map byte_bits (drop (i_pos s) (i_in s)))"

definition ctx_ok :: "inflate_ctx \<Rightarrow> bool" where
  "ctx_ok s \<longleftrightarrow> i_bitcnt s < 8 \<and> take_bit (i_bitcnt s) (i_bitbuf s) = i_bitbuf s"

definition num_of_bits :: "bool list \<Rightarrow> nat" where
  "num_of_bits bs = horner_sum of_bool 2 bs"

lemma length_byte_bits [simp]: "length (byte_bits b) = 8"
  by (simp add: byte_bits_def)

lemma length_concat_bytes [simp]: "length (concat (map byte_bits xs)) = 8 * length xs"
  by (induction xs) simp_all

lemma length_sbits: "length (sbits s) = i_bitcnt s + 8 * (length (i_in s) - i_pos s)"
  by (simp add: sbits_def)

text \<open>One turn of the refill loop keeps the stream.\<close>

lemma take_bit_hi: "take_bit c (v :: 'a :: len word) = v \<Longrightarrow> c \<le> n \<Longrightarrow> \<not> bit v n"
  by (metis bit_take_bit_iff not_le)

lemma take_bit_hiI: "(\<And>n. c \<le> n \<Longrightarrow> \<not> bit v n) \<Longrightarrow> take_bit c (v :: 'a :: len word) = v"
  by (rule bit_eqI) (use not_le in \<open>auto simp: bit_take_bit_iff\<close>)

lemma refill_bits:
  fixes val :: u32 and b :: u8
  assumes "c + 8 \<le> 32" "take_bit c val = val"
  shows "map (bit (val OR push_bit c (ucast b))) [0..<c + 8] = map (bit val) [0..<c] @ byte_bits b"
    and "take_bit (c + 8) (val OR push_bit c (ucast b)) = val OR push_bit c (ucast b)"
proof -
  have hi: "\<not> bit val n" if "c \<le> n" for n using take_bit_hi assms(2) that by blast
  have b: "bit (ucast b :: u32) n \<longleftrightarrow> bit b n" for n
    by (auto simp: bit_simps dest: bit_imp_le_length)
  have "map (bit (val OR push_bit c (ucast b))) [0..<c] = map (bit val) [0..<c]"
    by (simp add: bit_or_iff bit_push_bit_iff)
  moreover have "map (bit (val OR push_bit c (ucast b))) [c..<c + 8] = map (bit b) [0..<8]"
    using assms(1) hi by (intro nth_equalityI) (auto simp: bit_or_iff bit_push_bit_iff b)
  moreover have "[0..<c + 8] = [0..<c] @ [c..<c + 8]" by (rule upt_add_eq_append) simp
  ultimately show "map (bit (val OR push_bit c (ucast b))) [0..<c + 8] = map (bit val) [0..<c] @ byte_bits b"
    by (simp only: map_append byte_bits_def)
  show "take_bit (c + 8) (val OR push_bit c (ucast b)) = val OR push_bit c (ucast b)"
    using hi by (intro take_bit_hiI) (auto simp: bit_or_iff bit_push_bit_iff b dest: bit_imp_le_length)
qed

lemma bits_loop_spec:
  assumes "need \<le> 24" "i_bitcnt s < need + 8" "take_bit (i_bitcnt s) val = val"
  shows "case bits_loop need s val of
      Inl e \<Rightarrow> e = ERR_INPUT \<and> length (sbits (s\<lparr>i_bitbuf := val\<rparr>)) < need
    | Inr (s1, v1) \<Rightarrow> need \<le> i_bitcnt s1 \<and> i_bitcnt s1 < need + 8 \<and> take_bit (i_bitcnt s1) v1 = v1 \<and>
        sbits (s1\<lparr>i_bitbuf := v1\<rparr>) = sbits (s\<lparr>i_bitbuf := val\<rparr>) \<and>
        s1 = s\<lparr>i_pos := i_pos s1, i_bitcnt := i_bitcnt s1\<rparr>"
  using assms
proof (induction need s val rule: bits_loop.induct)
  case (1 need s val)
  show ?case
  proof (cases "i_bitcnt s < need \<and> i_pos s < length (i_in s)")
    case True
    let ?b = "i_in s ! i_pos s"
    let ?s = "s\<lparr>i_pos := i_pos s + 1, i_bitcnt := i_bitcnt s + 8\<rparr>"
    let ?v = "val OR push_bit (i_bitcnt s) (ucast ?b)"
    have c: "i_bitcnt s + 8 \<le> 32" using True 1 by simp
    note r = refill_bits [OF c 1(4), of ?b]
    have d: "drop (i_pos s) (i_in s) = ?b # drop (i_pos s + 1) (i_in s)"
      using True by (simp add: Cons_nth_drop_Suc)
    have k: "sbits (?s\<lparr>i_bitbuf := ?v\<rparr>) = sbits (s\<lparr>i_bitbuf := val\<rparr>)"
      unfolding sbits_def using r(1) by (simp add: d)
    have ih: "case bits_loop need ?s ?v of
      Inl e \<Rightarrow> e = ERR_INPUT \<and> length (sbits (?s\<lparr>i_bitbuf := ?v\<rparr>)) < need
    | Inr (s1, v1) \<Rightarrow> need \<le> i_bitcnt s1 \<and> i_bitcnt s1 < need + 8 \<and> take_bit (i_bitcnt s1) v1 = v1 \<and>
        sbits (s1\<lparr>i_bitbuf := v1\<rparr>) = sbits (?s\<lparr>i_bitbuf := ?v\<rparr>) \<and>
        s1 = ?s\<lparr>i_pos := i_pos s1, i_bitcnt := i_bitcnt s1\<rparr>"
      using True 1 r(2) by (intro 1(1)) auto
    have "bits_loop need s val = bits_loop need ?s ?v" using True by (subst bits_loop.simps) simp
    then show ?thesis using ih k by (auto split: sum.splits)
  next
    case False
    then show ?thesis using 1 by (subst bits_loop.simps) (auto simp: sbits_def)
  qed
qed

definition bits_result :: "inflate_ctx \<Rightarrow> nat \<Rightarrow> inflate_ctx \<Rightarrow> bool" where
  "bits_result s n s1 \<longleftrightarrow> ctx_ok s1 \<and> sbits s1 = drop n (sbits s) \<and>
     i_in s1 = i_in s \<and> i_out s1 = i_out s \<and> i_outlen s1 = i_outlen s \<and> i_window s1 = i_window s \<and>
     i_winpos s1 = i_winpos s \<and> i_winhave s1 = i_winhave s \<and>
     i_lencode s1 = i_lencode s \<and> i_distcode s1 = i_distcode s"

lemma mask_num:
  fixes v :: u32
  assumes "n \<le> 24"
  shows "unat (v AND (push_bit n 1 - 1)) = num_of_bits (map (bit v) [0..<n])"
proof -
  have "v AND (push_bit n 1 - 1) = take_bit n v"
    by (simp add: take_bit_eq_mask mask_eq_exp_minus_1 push_bit_eq_mult)
  also have "unat (take_bit n v) = take_bit n (unat v)" by (simp add: unsigned_take_bit_eq)
  also have "\<dots> = num_of_bits (map (bit (unat v)) [0..<n])"
    by (simp add: num_of_bits_def horner_sum_bit_eq_take_bit)
  also have "map (bit (unat v)) [0..<n] = map (bit v) [0..<n]"
    using assms by (auto simp: bit_unsigned_iff dest: bit_imp_le_length)
  finally show ?thesis .
qed

lemma bits_spec:
  assumes "ctx_ok s" "n \<le> 24"
  shows "if n \<le> length (sbits s)
     then \<exists>s1. bits s n = Inr (num_of_bits (take n (sbits s)), s1) \<and> bits_result s n s1
     else bits s n = Inl ERR_INPUT"
proof -
  have self: "s\<lparr>i_bitbuf := i_bitbuf s\<rparr> = s" by simp
  note sp = bits_loop_spec [of n s "i_bitbuf s", unfolded self]
  have pre: "i_bitcnt s < n + 8" "take_bit (i_bitcnt s) (i_bitbuf s) = i_bitbuf s"
    using assms by (auto simp: ctx_ok_def)
  show ?thesis
  proof (cases "bits_loop n s (i_bitbuf s)")
    case (Inl e)
    then show ?thesis using sp assms pre by (simp add: bits_def)
  next
    case (Inr p)
    obtain s1 v where p: "p = (s1, v)" by (cases p)
    then have h: "n \<le> i_bitcnt s1" "i_bitcnt s1 < n + 8" "take_bit (i_bitcnt s1) v = v"
        "sbits (s1\<lparr>i_bitbuf := v\<rparr>) = sbits s" "s1 = s\<lparr>i_pos := i_pos s1, i_bitcnt := i_bitcnt s1\<rparr>"
      using sp assms pre Inr by auto
    let ?s2 = "s1\<lparr>i_bitbuf := drop_bit n v, i_bitcnt := i_bitcnt s1 - n\<rparr>"
    have u: "[0..<i_bitcnt s1] = [0..<n] @ [n..<i_bitcnt s1]"
      using h(1) by (metis le_add_diff_inverse upt_add_eq_append zero_le)
    have sb: "sbits s = map (bit v) [0..<n] @ map (bit v) [n..<i_bitcnt s1] @
        concat (map byte_bits (drop (i_pos s1) (i_in s1)))"
      unfolding h(4) [symmetric] by (simp add: sbits_def u)
    have m: "map (bit (drop_bit n v)) [0..<i_bitcnt s1 - n] = map (bit v) [n..<i_bitcnt s1]"
      using h(1) by (intro nth_equalityI) (auto simp: bit_drop_bit_eq)
    have 1: "sbits ?s2 = drop n (sbits s)" unfolding sb by (simp add: sbits_def m)
    have "take_bit (i_bitcnt s1 - n) (drop_bit n v) = drop_bit n v"
      using take_bit_hi [OF h(3)] h(1) by (intro take_bit_hiI) (auto simp: bit_drop_bit_eq)
    then have 2: "ctx_ok ?s2" using h by (simp add: ctx_ok_def)
    obtain p' c' where s1: "s1 = s\<lparr>i_pos := p', i_bitcnt := c'\<rparr>" using h(5) by blast
    have 3: "bits_result s n ?s2"
      unfolding bits_result_def using 1 2 by (simp add: s1)
    have "unat (v AND (push_bit n 1 - 1)) = num_of_bits (take n (sbits s))"
      using mask_num [OF assms(2), of v] by (simp add: sb)
    then show ?thesis using Inr p 3 sb by (auto simp: bits_def)
  qed
qed


section \<open>The block loop\<close>

text \<open>The number of bits left, the measure of the two decoding loops.\<close>

definition nbits :: "inflate_ctx \<Rightarrow> nat" where
  "nbits s = i_bitcnt s + 8 * (length (i_in s) - i_pos s)"

lemma bits_loop_nbits:
  "bits_loop need s val = Inr (s1, v1) \<Longrightarrow> nbits s1 = nbits s \<and> need \<le> i_bitcnt s1"
proof (induction need s val rule: bits_loop.induct)
  case (1 need s val)
  from 1(2) show ?case
    by (subst (asm) bits_loop.simps) (auto split: if_splits dest: 1(1) simp: nbits_def)
qed

lemma bits_nbits: "bits s n = Inr (v, s1) \<Longrightarrow> nbits s1 + n = nbits s"
  by (auto simp: bits_def nbits_def split: sum.splits dest!: bits_loop_nbits)

lemma decode_loop_nbits: "decode_loop h len k code first index s = Inr (v, s1) \<Longrightarrow> nbits s1 < nbits s"
proof (induction k arbitrary: len code first index s)
  case (Suc k)
  from Suc.prems show ?case
    by (auto simp: Let_def split: sum.splits if_splits dest!: bits_nbits Suc.IH)
qed simp

lemma decode_nbits: "decode s h = Inr (v, s1) \<Longrightarrow> nbits s1 < nbits s"
  by (simp add: decode_def decode_loop_nbits)

text \<open>What emitting the bytes \<open>ys\<close> does to a context.\<close>

definition emitted :: "inflate_ctx \<Rightarrow> inflate_ctx \<Rightarrow> u8 list \<Rightarrow> bool" where
  "emitted s s1 ys \<longleftrightarrow> i_out s1 = i_out s @ ys \<and>
     (ys \<noteq> [] \<longrightarrow> length (i_out s1) \<le> i_outlen s) \<and>
     i_in s1 = i_in s \<and> i_pos s1 = i_pos s \<and> i_bitbuf s1 = i_bitbuf s \<and> i_bitcnt s1 = i_bitcnt s \<and>
     i_outlen s1 = i_outlen s \<and> i_lencode s1 = i_lencode s \<and> i_distcode s1 = i_distcode s \<and>
     (i_window s1 = None \<longleftrightarrow> i_window s = None)"

lemma emitted_refl: "emitted s s []"
  by (simp add: emitted_def)

lemma emitted_trans: "emitted s s1 xs \<Longrightarrow> emitted s1 s2 ys \<Longrightarrow> emitted s s2 (xs @ ys)"
  by (auto simp: emitted_def)

lemma emit_emitted: "emit s b = Inr s1 \<Longrightarrow> emitted s s1 [b]"
  by (cases "i_window s") (auto simp: emit_def emitted_def Let_def split: if_splits)

lemma emit_error: "emit s b = Inl e \<longleftrightarrow> e = (ERR_OUTPUT, i_out s) \<and> i_outlen s \<le> length (i_out s)"
  by (cases "i_window s") (auto simp: emit_def Let_def)

lemma emitted_nbits: "emitted s s1 ys \<Longrightarrow> nbits s1 = nbits s"
  by (simp add: emitted_def nbits_def)

lemma copy_out_emitted: "copy_out src i k s = Inr s1 \<Longrightarrow> \<exists>ys. emitted s s1 ys \<and> length ys = k"
proof (induction src i k s rule: copy_out.induct)
  case (2 src i k s)
  then obtain s2 where e: "emit s (i_out s ! (src + i)) = Inr s2" "copy_out src (Suc i) k s2 = Inr s1"
    by (auto split: sum.splits)
  from 2(1) [OF e] emit_emitted [OF e(1)] show ?case
    by (metis emitted_trans length_Cons length_append list.size(3) append_Cons append_Nil)
qed (auto intro: emitted_refl)

lemma copy_window_emitted:
  "copy_window dist k w s = Inr s1 \<Longrightarrow> i_window s = Some w \<Longrightarrow> \<exists>ys. emitted s s1 ys \<and> length ys = k"
proof (induction k arbitrary: w s)
  case (Suc k)
  then obtain b s2 where e: "emit s b = Inr s2"
      and r: "(case i_window s2 of None \<Rightarrow> Inr s2 | Some w1 \<Rightarrow> copy_window dist k w1 s2) = Inr s1"
    by (auto simp: Let_def split: if_splits sum.splits)
  note em = emit_emitted [OF e]
  obtain w1 where w1: "i_window s2 = Some w1" using em Suc.prems(2) by (auto simp: emitted_def)
  then obtain ys where "emitted s2 s1 ys" "length ys = k" using Suc.IH [of w1 s2] r by auto
  then show ?case using emitted_trans [OF em] by (metis length_Cons append_Cons append_Nil)
qed (auto intro: emitted_refl)

lemma emit_match_emitted:
  "emit_match s dist len = Inr s1 \<Longrightarrow> \<exists>ys. emitted s s1 ys \<and> length ys = len"
  by (auto simp: emit_match_def split: if_splits option.splits dest: copy_out_emitted copy_window_emitted)

lemma emit_nbits: "emit s b = Inr s1 \<Longrightarrow> nbits s1 = nbits s"
  using emit_emitted emitted_nbits by blast

lemma emit_match_nbits: "emit_match s dist len = Inr s1 \<Longrightarrow> nbits s1 = nbits s"
  using emit_match_emitted emitted_nbits by blast

lemma length_repeat_nbits: "length_repeat sm ls s = Inr (val, rep, s1) \<Longrightarrow> nbits s1 \<le> nbits s"
  by (auto simp: length_repeat_def split: if_splits sum.splits dest!: bits_nbits)

lemma length_step_nbits: "length_step cc ntot ls s = Inr (new, s1) \<Longrightarrow> nbits s1 < nbits s"
  by (fastforce simp: length_step_def split: if_splits sum.splits dest: decode_nbits length_repeat_nbits)

text \<open>Reading code lengths until there are \<open>ntot\<close> of them.\<close>

function read_lengths ::
  "huff \<Rightarrow> nat \<Rightarrow> nat list \<Rightarrow> inflate_ctx \<Rightarrow> inflate_err + nat list \<times> inflate_ctx" where
  "read_lengths cc ntot ls s =
     (if \<not> length ls < ntot then Inr (ls, s)
      else case length_step cc ntot ls s of
        Inl e \<Rightarrow> Inl e
      | Inr (new, s1) \<Rightarrow> read_lengths cc ntot (ls @ new) s1)"
  by pat_completeness auto
termination
  by (relation "measure (\<lambda>(cc, ntot, ls, s). nbits s)") (auto dest: length_step_nbits)

declare read_lengths.simps [simp del]

definition build_dynamic :: "inflate_ctx \<Rightarrow> inflate_err + inflate_ctx" where
  "build_dynamic s =
     (case bits s 5 of Inl _ \<Rightarrow> Inl ERR_INPUT | Inr (nlen0, s1) \<Rightarrow>
     (case bits s1 5 of Inl _ \<Rightarrow> Inl ERR_INPUT | Inr (ndist0, s2) \<Rightarrow>
     (case bits s2 4 of Inl _ \<Rightarrow> Inl ERR_INPUT | Inr (ncode0, s3) \<Rightarrow>
      (let nlen = nlen0 + 257; ndist = ndist0 + 1; ncode = ncode0 + 4
       in if nlen > 286 \<or> ndist > 30 then Inl ERR_DATA
          else case read_clens 0 ncode (\<lambda>_. 0) s3 of Inl e \<Rightarrow> Inl e | Inr (cl, s4) \<Rightarrow>
         (case huff_build \<lparr>h_counts = (\<lambda>_. 0), h_symbols = (\<lambda>_. 0)\<rparr> cl 19 of
            Inl _ \<Rightarrow> Inl ERR_DATA | Inr cc \<Rightarrow>
         (case read_lengths cc (nlen + ndist) [] s4 of Inl e \<Rightarrow> Inl e | Inr (ls, s5) \<Rightarrow>
          (if ls ! 256 = 0 then Inl ERR_DATA
           else case huff_build (i_lencode s5) (\<lambda>i. ls ! i) nlen of
               Inl _ \<Rightarrow> Inl ERR_DATA | Inr lc \<Rightarrow>
             (case huff_build (i_distcode s5) (\<lambda>i. ls ! (nlen + i)) ndist of
                Inl e \<Rightarrow> Inl e
              | Inr dc \<Rightarrow> Inr (s5\<lparr>i_lencode := lc, i_distcode := dc\<rparr>)))))))))"

text \<open>The loop that decodes symbols until the end-of-block code.\<close>

function symbol_loop :: "inflate_ctx \<Rightarrow> inflate_err \<times> u8 list + inflate_ctx" where
  "symbol_loop s = (case decode s (i_lencode s) of
     Inl e \<Rightarrow> Inl (e, i_out s)
   | Inr (sm, s1) \<Rightarrow>
      if sm < 256 then (case emit s1 (of_nat sm) of Inl e \<Rightarrow> Inl e | Inr s2 \<Rightarrow> symbol_loop s2)
      else if sm = 256 then Inr s1
      else if sm - 257 \<ge> 29 then Inl (ERR_DATA, i_out s1)
      else case bits s1 (len_extra ! (sm - 257)) of
        Inl _ \<Rightarrow> Inl (ERR_INPUT, i_out s1)
      | Inr (lx, s2) \<Rightarrow>
         (case decode s2 (i_distcode s2) of
            Inl e \<Rightarrow> Inl (e, i_out s2)
          | Inr (dsym, s3) \<Rightarrow>
             if dsym \<ge> 30 then Inl (ERR_DATA, i_out s3)
             else case bits s3 (dist_extra ! dsym) of
               Inl _ \<Rightarrow> Inl (ERR_INPUT, i_out s3)
             | Inr (dx, s4) \<Rightarrow>
                (case emit_match s4 (dist_base ! dsym + dx) (len_base ! (sm - 257) + lx) of
                   Inl e \<Rightarrow> Inl e | Inr s5 \<Rightarrow> symbol_loop s5)))"
  by pat_completeness auto
termination
proof (relation "measure nbits", goal_cases)
  case 1 then show ?case by simp
next
  case (2 s p sm s1 s2)
  then show ?case by (auto dest!: decode_nbits emit_nbits)
next
  case (3 s p sm s1 q lx s2 r dsym s3 t dx s4 s5)
  then show ?case by (auto dest!: decode_nbits bits_nbits emit_match_nbits)
qed

declare symbol_loop.simps [simp del]

text \<open>Emitting the \<open>k\<close> bytes of a stored block from position \<open>j\<close> of the input on.\<close>

fun emit_stored :: "nat \<Rightarrow> nat \<Rightarrow> inflate_ctx \<Rightarrow> inflate_err \<times> u8 list + inflate_ctx" where
  "emit_stored j 0 s = Inr s"
| "emit_stored j (Suc k) s =
     (case emit s (i_in s ! j) of Inl e \<Rightarrow> Inl e | Inr s1 \<Rightarrow> emit_stored (Suc j) k s1)"

definition le16 :: "u8 list \<Rightarrow> nat \<Rightarrow> u32" where
  "le16 xs i = ucast (xs ! i) OR push_bit 8 (ucast (xs ! Suc i))"

definition stored_block :: "inflate_ctx \<Rightarrow> inflate_err \<times> u8 list + inflate_ctx" where
  "stored_block s =
     (let s0 = s\<lparr>i_bitbuf := 0, i_bitcnt := 0\<rparr>; p = i_pos s0
      in if p + 4 > length (i_in s0) then Inl (ERR_INPUT, i_out s0)
         else let len = le16 (i_in s0) p; nlen = le16 (i_in s0) (p + 2)
              in if len XOR 0xFFFF \<noteq> nlen then Inl (ERR_DATA, i_out s0)
                 else if p + 4 + unat len > length (i_in s0) then Inl (ERR_INPUT, i_out s0)
                 else case emit_stored (p + 4) (unat len) (s0\<lparr>i_pos := p + 4\<rparr>) of
                   Inl e \<Rightarrow> Inl e
                 | Inr s1 \<Rightarrow> Inr (s1\<lparr>i_pos := p + 4 + unat len\<rparr>))"

definition inflate_block :: "nat \<Rightarrow> inflate_ctx \<Rightarrow> inflate_err \<times> u8 list + inflate_ctx" where
  "inflate_block type s =
     (if type = 0 then stored_block s
      else if type = 1 then
        (case build_fixed s of Inl e \<Rightarrow> Inl (e, i_out s) | Inr s1 \<Rightarrow> symbol_loop s1)
      else if type = 2 then
        (case build_dynamic s of Inl e \<Rightarrow> Inl (e, i_out s) | Inr s1 \<Rightarrow> symbol_loop s1)
      else Inl (ERR_DATA, i_out s))"


lemma symbol_loop_nbits: "symbol_loop s = Inr s1 \<Longrightarrow> nbits s1 < nbits s"
proof (induction s rule: symbol_loop.induct)
  case (1 s)
  obtain sm t where d: "decode s (i_lencode s) = Inr (sm, t)"
    using 1(3) by (subst (asm) symbol_loop.simps) (auto split: sum.splits)
  note n = decode_nbits [OF d]
  consider (lit) "sm < 256" | (eob) "sm = 256" | (mat) "sm > 256" by linarith
  then show ?case
  proof cases
    case lit
    then obtain s2 where e: "emit t (of_nat sm) = Inr s2" "symbol_loop s2 = Inr s1"
      using 1(3) d by (subst (asm) symbol_loop.simps) (auto split: sum.splits)
    show ?thesis using 1(1) [OF d refl lit e] emit_nbits [OF e(1)] n by simp
  next
    case eob
    then show ?thesis using 1(3) d n by (subst (asm) symbol_loop.simps) simp
  next
    case mat
    then have g: "\<not> sm < 256" "sm \<noteq> 256" by auto
    then obtain lx s2 dsym s3 dx s4 s5 where e: "\<not> 29 \<le> sm - 257"
        "bits t (len_extra ! (sm - 257)) = Inr (lx, s2)" "decode s2 (i_distcode s2) = Inr (dsym, s3)"
        "\<not> 30 \<le> dsym" "bits s3 (dist_extra ! dsym) = Inr (dx, s4)"
        "emit_match s4 (dist_base ! dsym + dx) (len_base ! (sm - 257) + lx) = Inr s5"
        "symbol_loop s5 = Inr s1"
      using 1(3) d by (subst (asm) symbol_loop.simps) (auto split: sum.splits if_splits)
    show ?thesis
      using 1(2) [OF d refl g e(1,2) refl e(3) refl e(4,5) refl e(6,7)] n
        bits_nbits [OF e(2)] decode_nbits [OF e(3)] bits_nbits [OF e(5)] emit_match_nbits [OF e(6)]
      by simp
  qed
qed

lemma emit_stored_emitted:
  "emit_stored j k s = Inr s1 \<Longrightarrow> j + k \<le> length (i_in s) \<Longrightarrow> emitted s s1 (take k (drop j (i_in s)))"
proof (induction j k s rule: emit_stored.induct)
  case (2 j k s)
  then obtain s2 where e: "emit s (i_in s ! j) = Inr s2" "emit_stored (Suc j) k s2 = Inr s1"
    by (auto split: sum.splits)
  note em = emit_emitted [OF e(1)]
  then have i: "i_in s2 = i_in s" by (simp add: emitted_def)
  have "emitted s s1 ([i_in s ! j] @ take k (drop (Suc j) (i_in s)))"
    using emitted_trans [OF em 2(1) [OF e]] 2(3) i by simp
  moreover have "drop j (i_in s) = i_in s ! j # drop (Suc j) (i_in s)"
    using 2(3) by (simp add: Cons_nth_drop_Suc)
  ultimately show ?case by simp
qed (simp add: emitted_refl)

lemma stored_block_nbits: "stored_block s = Inr s1 \<Longrightarrow> nbits s1 \<le> nbits s"
  by (auto simp: stored_block_def Let_def nbits_def emitted_def split: if_splits sum.splits
        dest!: emit_stored_emitted)

lemma read_clens_nbits: "read_clens i k cl s = Inr (cl1, s1) \<Longrightarrow> nbits s1 \<le> nbits s"
  by (induction i k cl s rule: read_clens.induct) (fastforce split: sum.splits dest: bits_nbits)+

lemma read_lengths_nbits: "read_lengths cc n ls s = Inr (ls1, s1) \<Longrightarrow> nbits s1 \<le> nbits s"
proof (induction cc n ls s rule: read_lengths.induct)
  case (1 cc n ls s)
  show ?case
  proof (cases "length ls < n")
    case True
    then obtain new s2 where "length_step cc n ls s = Inr (new, s2)"
        "read_lengths cc n (ls @ new) s2 = Inr (ls1, s1)"
      using 1(2) by (subst (asm) read_lengths.simps) (auto split: sum.splits)
    then show ?thesis using 1(1) [of "(new, s2)" new s2] True length_step_nbits by fastforce
  next
    case False
    then show ?thesis using 1(2) by (subst (asm) read_lengths.simps) simp
  qed
qed

lemma build_dynamic_nbits: "build_dynamic s = Inr s1 \<Longrightarrow> nbits s1 \<le> nbits s"
  by (auto simp: build_dynamic_def Let_def split: sum.splits if_splits
        dest!: bits_nbits read_clens_nbits read_lengths_nbits simp: nbits_def)

lemma build_fixed_nbits: "build_fixed s = Inr s1 \<Longrightarrow> nbits s1 = nbits s"
  by (auto simp: build_fixed_def nbits_def split: sum.splits)

lemma inflate_block_nbits: "inflate_block ty s = Inr s1 \<Longrightarrow> nbits s1 \<le> nbits s"
  by (auto simp: inflate_block_def split: sum.splits if_splits
        dest!: stored_block_nbits build_fixed_nbits build_dynamic_nbits symbol_loop_nbits)

text \<open>The loop over the blocks, one turn per block, and the entry points.\<close>

function inflate_blocks :: "inflate_ctx \<Rightarrow> inflate_err \<times> u8 list + inflate_ctx" where
  "inflate_blocks s =
     (case bits s 1 of Inl _ \<Rightarrow> Inl (ERR_INPUT, i_out s)
      | Inr (final, s1) \<Rightarrow>
     (case bits s1 2 of Inl _ \<Rightarrow> Inl (ERR_INPUT, i_out s1)
      | Inr (type, s2) \<Rightarrow>
     (case inflate_block type s2 of Inl e \<Rightarrow> Inl e
      | Inr s3 \<Rightarrow> if final \<noteq> 0 then Inr s3 else inflate_blocks s3)))"
  by pat_completeness auto
termination
  by (relation "measure nbits") (auto dest!: bits_nbits inflate_block_nbits)

declare inflate_blocks.simps [simp del]

definition inflate_start :: "huff \<Rightarrow> huff \<Rightarrow> u8 list \<Rightarrow> nat \<Rightarrow> (nat \<Rightarrow> u8) option \<Rightarrow> inflate_ctx" where
  "inflate_start lc dc inp outlen window =
     \<lparr>i_in = inp, i_pos = 0, i_bitbuf = 0, i_bitcnt = 0, i_out = [], i_outlen = outlen,
      i_window = window, i_winpos = 0, i_winhave = 0, i_lencode = lc, i_distcode = dc\<rparr>"

text \<open>
  The tables of the context on the stack are not initialised: \<open>lc\<close> and \<open>dc\<close> are
  what it happens to hold.  The result is the value the C function returns, a negative error code
  or the number of bytes written converted to \<open>int\<close>, together with the bytes it has written
  to the start of the output buffer, on an error as well.
\<close>

definition c_int :: "nat \<Rightarrow> int" where
  "c_int n = sint (of_nat n :: u32)"

definition inflate_raw ::
  "huff \<Rightarrow> huff \<Rightarrow> u8 list \<Rightarrow> nat \<Rightarrow> (nat \<Rightarrow> u8) option \<Rightarrow> int \<times> u8 list" where
  "inflate_raw lc dc inp outlen window =
     (case inflate_blocks (inflate_start lc dc inp outlen window) of
        Inl (e, out) \<Rightarrow> (err_code e, out)
      | Inr s \<Rightarrow> (c_int (length (i_out s)), i_out s))"

definition inflate_raw_stream :: "huff \<Rightarrow> huff \<Rightarrow> u8 list \<Rightarrow> nat \<Rightarrow> int \<times> u8 list" where
  "inflate_raw_stream lc dc inp outlen = inflate_raw lc dc inp outlen None"

definition zlib_inflate :: "huff \<Rightarrow> huff \<Rightarrow> u8 list \<Rightarrow> nat \<Rightarrow> int \<times> u8 list" where
  "zlib_inflate lc dc inp outlen =
     (if length inp < 2 then (err_code ERR_INPUT, [])
      else let cmf = inp ! 0; flg = inp ! 1
           in if cmf AND 0x0F \<noteq> 8 then (err_code ERR_DATA, [])
              else if drop_bit 4 cmf > 7 then (err_code ERR_DATA, [])
              else if ((ucast cmf * 256 + ucast flg) :: u32) mod 31 \<noteq> 0 then (err_code ERR_DATA, [])
              else if flg AND 0x20 \<noteq> 0 then (err_code ERR_DATA, [])
              else inflate_raw lc dc (drop 2 inp) outlen None)"

text \<open>
  The result of \<open>zlib_inflate_buf\<close>, the bytes written, and the value stored through
  \<open>written\<close>, if one is.
\<close>

definition zlib_inflate_buf ::
  "huff \<Rightarrow> huff \<Rightarrow> u8 list \<Rightarrow> nat \<Rightarrow> (int \<times> u8 list) \<times> nat option" where
  "zlib_inflate_buf lc dc inp cap' =
     (case zlib_inflate lc dc inp cap' of
        (n, out) \<Rightarrow> if n < 0 then ((n, out), None) else ((n, out), Some (nat n)))"

lemma c_int_small: "n < 2 ^ 31 \<Longrightarrow> c_int n = int n"
  by (simp add: c_int_def sint_uint uint_nat unsigned_of_nat signed_take_bit_int_eq_self take_bit_nat_eq_self)

end
