(* ===== verification/Huffman.thy ===== *)
theory Huffman
  imports Inflate
begin

text \<open>
  The decoding tables of kernel/inflate.c against RFC 1951, section 3.2.2: the canonical codeword
  of a symbol is defined from the code lengths alone, and \<open>decode\<close> on the tables that
  \<open>huff_build\<close> makes returns exactly the symbol whose codeword the input starts with.
\<close>

section \<open>Canonical codes\<close>

definition syms_of :: "(nat \<Rightarrow> nat) \<Rightarrow> nat \<Rightarrow> nat \<Rightarrow> nat list" where
  "syms_of lens n l = filter (\<lambda>i. lens i = l) [0..<n]"

text \<open>The smallest code of each length (\<open>next_code\<close> of the RFC).\<close>

fun first_code :: "(nat \<Rightarrow> nat) \<Rightarrow> nat \<Rightarrow> nat \<Rightarrow> nat" where
  "first_code lens n 0 = 0"
| "first_code lens n (Suc l) =
     2 * (first_code lens n l + (if l = 0 then 0 else length (syms_of lens n l)))"

text \<open>The codeword of a symbol, most significant bit first.\<close>

definition code_value :: "(nat \<Rightarrow> nat) \<Rightarrow> nat \<Rightarrow> nat \<Rightarrow> nat" where
  "code_value lens n sm = first_code lens n (lens sm) + length (syms_of lens sm (lens sm))"

definition msb_bits :: "nat \<Rightarrow> nat \<Rightarrow> bool list" where
  "msb_bits l v = rev (map (bit v) [0..<l])"

definition codeword :: "(nat \<Rightarrow> nat) \<Rightarrow> nat \<Rightarrow> nat \<Rightarrow> bool list" where
  "codeword lens n sm = msb_bits (lens sm) (code_value lens n sm)"

definition msb_value :: "bool list \<Rightarrow> nat" where
  "msb_value bs = num_of_bits (rev bs)"

lemma msb_value_Nil [simp]: "msb_value [] = 0"
  by (simp add: msb_value_def num_of_bits_def)

lemma msb_value_Cons [simp]: "msb_value (b # bs) = of_bool b * 2 ^ length bs + msb_value bs"
  by (simp add: msb_value_def num_of_bits_def horner_sum_append)

lemma msb_value_less: "msb_value bs < 2 ^ length bs"
  by (induction bs) auto

lemma msb_value_bits: "v < 2 ^ l \<Longrightarrow> msb_value (msb_bits l v) = v"
  by (simp add: msb_value_def msb_bits_def num_of_bits_def horner_sum_bit_eq_take_bit take_bit_nat_eq_self)

lemma msb_bits_value: "msb_bits (length bs) (msb_value bs) = bs"
proof -
  have "map (bit (msb_value bs)) [0..<length bs] = rev bs"
    unfolding msb_value_def num_of_bits_def
    by (intro nth_equalityI) (auto simp: bit_horner_sum_bit_iff)
  then show ?thesis by (simp add: msb_bits_def)
qed

lemma length_msb_bits [simp]: "length (msb_bits l v) = l"
  by (simp add: msb_bits_def)

lemma count_lengths_syms: "count_lengths lens n l = length (syms_of lens n l)"
proof -
  have "fold (\<lambda>i c. c(lens i := c (lens i) + 1)) is c0 l = c0 l + length (filter (\<lambda>i. lens i = l) is)"
    for "is" :: "nat list" and c0 :: "nat \<Rightarrow> nat"
    by (induction "is" arbitrary: c0) auto
  then show ?thesis by (simp add: count_lengths_def syms_of_def)
qed

lemma syms_of_Suc: "syms_of lens (Suc m) l = syms_of lens m l @ (if lens m = l then [m] else [])"
  by (simp add: syms_of_def)

lemma syms_of_prefix: "m \<le> n \<Longrightarrow> \<exists>ys. syms_of lens n l = syms_of lens m l @ ys"
  by (induction rule: dec_induct) (auto simp: syms_of_Suc)

lemma syms_of_rank:
  assumes "m < n" "lens m = l"
  shows "length (syms_of lens m l) < length (syms_of lens n l)"
    and "syms_of lens n l ! length (syms_of lens m l) = m"
proof -
  obtain ys where "syms_of lens n l = (syms_of lens m l @ [m]) @ ys"
    using syms_of_prefix [of "Suc m" n lens l] assms by (auto simp: syms_of_Suc)
  then show "length (syms_of lens m l) < length (syms_of lens n l)"
      "syms_of lens n l ! length (syms_of lens m l) = m" by auto
qed

lemma syms_of_nth:
  assumes "r < length (syms_of lens n l)"
  shows "syms_of lens n l ! r < n \<and> lens (syms_of lens n l ! r) = l \<and>
    length (syms_of lens (syms_of lens n l ! r) l) = r"
  using assms
proof (induction n)
  case (Suc n)
  then show ?case by (auto simp: syms_of_Suc nth_append less_Suc_eq split: if_splits)
qed (simp add: syms_of_def)

section \<open>The tables\<close>

fun offs_sum :: "(nat \<Rightarrow> nat) \<Rightarrow> nat \<Rightarrow> nat" where
  "offs_sum c 0 = 0"
| "offs_sum c (Suc l) = offs_sum c l + (if l = 0 then 0 else c l)"

lemma offset_step_apply: "offset_step c len offs k = (if k = Suc len then offs len + c len else offs k)"
  by (simp add: offset_step_def)

lemma fold_offsets:
  "1 \<le> l \<Longrightarrow> l \<le> Suc m \<Longrightarrow>
   fold (offset_step c) [1..<Suc m] (\<lambda>_. 0) l = offs_sum c l"
proof (induction m arbitrary: l)
  case (Suc m)
  define F where "F = fold (offset_step c) [1..<Suc m] (\<lambda>_. 0)"
  have F: "1 \<le> k \<Longrightarrow> k \<le> Suc m \<Longrightarrow> F k = offs_sum c k" for k
    unfolding F_def by (rule Suc.IH)
  have "fold (offset_step c) [1..<Suc (Suc m)] (\<lambda>_. 0) = offset_step c (Suc m) F"
    by (simp add: F_def)
  moreover have "offset_step c (Suc m) F l = offs_sum c l"
    using F [of "Suc m"] F [of l] Suc.prems by (cases "l = Suc (Suc m)") (simp_all add: offset_step_apply)
  ultimately show ?case by (simp only:)
qed (auto simp: le_Suc_eq)

lemma code_offsets_sum: "1 \<le> l \<Longrightarrow> l \<le> MAX_BITS \<Longrightarrow> code_offsets c l = offs_sum c l"
  using fold_offsets [of l 14 c] by (simp add: code_offsets_def MAX_BITS_def del: upt_Suc)

lemma offs_sum_mono: "l < l' \<Longrightarrow> 1 \<le> l \<Longrightarrow> offs_sum c l + c l \<le> offs_sum c l'"
  by (induction l') (auto simp: less_Suc_eq)

lemma offs_sum_inj:
  assumes "1 \<le> l" "1 \<le> l'" "r < c l" "r' < c l'" "offs_sum c l + r = offs_sum c l' + r'"
  shows "l = l' \<and> r = r'"
  using assms offs_sum_mono [of l l' c] offs_sum_mono [of l' l c] by (cases l l' rule: linorder_cases) auto

lemma place_symbols:
  assumes "\<forall>i<n. lens i \<le> MAX_BITS" "m \<le> n"
    and "fold (place_symbol lens) [0..<m] (code_offsets (count_lengths lens n), sy0) = (offs, sy)"
    and "1 \<le> l" "l \<le> MAX_BITS"
  shows "offs l = offs_sum (count_lengths lens n) l + length (syms_of lens m l) \<and>
    (\<forall>r < length (syms_of lens m l). sy (offs_sum (count_lengths lens n) l + r) = syms_of lens m l ! r)"
  using assms(2-)
proof (induction m arbitrary: offs sy l)
  case 0
  then have "offs = code_offsets (count_lengths lens n)" by simp
  then show ?case using code_offsets_sum [of l] 0 by (simp add: syms_of_def)
next
  case (Suc m)
  let ?c = "count_lengths lens n"
  obtain o' y' where f: "fold (place_symbol lens) [0..<m] (code_offsets ?c, sy0) = (o', y')" by fastforce
  have step: "(offs, sy) = place_symbol lens m (o', y')" using Suc.prems(2) f by simp
  have IH: "o' k = offs_sum ?c k + length (syms_of lens m k) \<and>
      (\<forall>r < length (syms_of lens m k). y' (offs_sum ?c k + r) = syms_of lens m k ! r)"
    if "1 \<le> k" "k \<le> MAX_BITS" for k using Suc.IH [OF _ f that] Suc.prems(1) by simp
  have lt: "length (syms_of lens m k) < ?c k" if "lens m = k" for k
    using syms_of_rank(1) [of m n lens k] Suc.prems(1) that by (simp add: count_lengths_syms)
  have le: "length (syms_of lens m k) \<le> ?c k" for k
    using syms_of_prefix [of m n lens k] Suc.prems(1) by (auto simp: count_lengths_syms)
  show ?case
  proof (cases "lens m = 0")
    case True
    then show ?thesis using step IH [OF Suc.prems(3,4)] Suc.prems(3) by (simp add: place_symbol_def syms_of_Suc)
  next
    case False
    let ?k = "lens m"
    have k: "1 \<le> ?k" "?k \<le> MAX_BITS" using False assms(1) Suc.prems(1) by auto
    have o: "offs = o'(?k := o' ?k + 1)" and y: "sy = y'(o' ?k := m)"
      using step False by (auto simp: place_symbol_def)
    have ne: "offs_sum ?c l + r \<noteq> o' ?k" if "r < length (syms_of lens m l)" for r
    proof
      assume e: "offs_sum ?c l + r = o' ?k"
      have "r < ?c l" using that le [of l] by linarith
      then have "l = ?k \<and> r = length (syms_of lens m ?k)"
        using offs_sum_inj [OF Suc.prems(3) k(1)] e IH [OF k] lt [OF refl] by auto
      then show False using that by simp
    qed
    show ?thesis
    proof (cases "l = ?k")
      case True
      then show ?thesis using IH [OF k] ne by (auto simp: o y syms_of_Suc nth_append less_Suc_eq)
    next
      case False
      then show ?thesis using IH [OF Suc.prems(3,4)] ne by (auto simp: o y syms_of_Suc)
    qed
  qed
qed

section \<open>The decoding loop on the bit stream\<close>

text \<open>
  The loop of \<open>decode\<close> over the list of bits: \<open>d\<close> is \<open>code - first\<close> before
  the next bit is added.
\<close>

fun walk :: "huff \<Rightarrow> nat \<Rightarrow> nat \<Rightarrow> nat \<Rightarrow> nat \<Rightarrow> bool list \<Rightarrow> (nat \<times> bool list) option" where
  "walk h len 0 d ix bs = None"
| "walk h len (Suc k) d ix [] = None"
| "walk h len (Suc k) d ix (b # bs) =
     (let e = d + of_bool b; c = h_counts h len
      in if e < c then Some (h_symbols h (ix + e), bs) else walk h (Suc len) k (2 * (e - c)) (ix + c) bs)"

lemma bits_result_trans: "bits_result s m s1 \<Longrightarrow> bits_result s1 n s2 \<Longrightarrow> bits_result s (m + n) s2"
  by (auto simp: bits_result_def add.commute)

lemma even_or_bit: "even (c :: int) \<Longrightarrow> c OR of_bool b = c + of_bool b"
  by (cases b) (auto simp: or_one_eq)

lemma decode_loop_walk:
  assumes "ctx_ok s" "even code" "first \<le> code" "0 \<le> index"
  shows "case walk h len k (nat (code - first)) (nat index) (sbits s) of
      None \<Rightarrow> \<exists>e. decode_loop h len k code first index s = Inl e
    | Some (sm, rest) \<Rightarrow> \<exists>n s1. decode_loop h len k code first index s = Inr (sm, s1) \<and>
        bits_result s n s1 \<and> sbits s1 = rest"
  using assms
proof (induction k arbitrary: len code first index s)
  case (Suc k)
  note B = bits_spec [OF Suc.prems(1), of 1]
  show ?case
  proof (cases "sbits s")
    case Nil
    then show ?thesis using B by simp
  next
    case (Cons b bs)
    then obtain s1 where s1: "bits s 1 = Inr (num_of_bits [b], s1)" "bits_result s 1 s1"
      using B by auto
    then have sb: "sbits s1 = bs" "ctx_ok s1" using Cons by (simp_all add: bits_result_def)
    have n: "int (num_of_bits [b]) = of_bool b" by (simp add: num_of_bits_def)
    let ?e = "nat (code - first) + of_bool b" and ?c = "h_counts h len"
    have c1: "code OR int (num_of_bits [b]) = code + of_bool b"
      using even_or_bit [OF Suc.prems(2)] by (simp only: n)
    have lt: "code + of_bool b - first < int ?c \<longleftrightarrow> ?e < ?c"
      using Suc.prems(3) by (cases b) auto
    show ?thesis
    proof (cases "?e < ?c")
      case True
      moreover have "nat (index + (code + of_bool b - first)) = nat index + ?e"
        using Suc.prems(3,4) by (cases b) auto
      ultimately show ?thesis using Cons s1 sb c1 lt by (auto simp: Let_def)
    next
      case False
      let ?f = "2 * (first + int ?c)" and ?co = "2 * (code + of_bool b)"
      have le: "?f \<le> ?co" using False lt by simp
      have d: "nat (?co - ?f) = 2 * (?e - ?c)" using False Suc.prems(3) by (cases b) auto
      have i: "nat (index + int ?c) = nat index + ?c" using Suc.prems(4) by simp
      have w: "walk h len (Suc k) (nat (code - first)) (nat index) (sbits s) =
          walk h (Suc len) k (nat (?co - ?f)) (nat (index + int ?c)) (sbits s1)"
        using False Cons sb(1) by (simp only: d i walk.simps Let_def if_False)
      have dl: "decode_loop h len (Suc k) code first index s =
          decode_loop h (Suc len) k ?co ?f (index + int ?c) s1"
        using s1 c1 lt False by (simp add: Let_def)
      define W D where "W = walk h (Suc len) k (nat (?co - ?f)) (nat (index + int ?c)) (sbits s1)"
        and "D = decode_loop h (Suc len) k ?co ?f (index + int ?c) s1"
      have "case W of None \<Rightarrow> \<exists>e. D = Inl e
        | Some (sm, rest) \<Rightarrow> \<exists>n s2. D = Inr (sm, s2) \<and> bits_result s1 n s2 \<and> sbits s2 = rest"
        unfolding W_def D_def using le Suc.prems(4) sb(2) by (intro Suc.IH) auto
      then show ?thesis unfolding w dl W_def [symmetric] D_def [symmetric]
        by (auto split: option.splits intro: bits_result_trans [OF s1(2)])
    qed
  qed
qed simp

section \<open>Decoding is exact\<close>

lemma first_code_mono:
  "j < l \<Longrightarrow> 1 \<le> j \<Longrightarrow> (first_code lens n j + length (syms_of lens n j)) * 2 ^ (l - j) \<le> first_code lens n l"
proof (induction l)
  case (Suc l)
  show ?case
  proof (cases "j = l")
    case False
    then have "(first_code lens n j + length (syms_of lens n j)) * 2 ^ (l - j) \<le> first_code lens n l"
      using Suc by auto
    moreover have "Suc l - j = Suc (l - j)" using Suc.prems by simp
    ultimately show ?thesis using Suc.prems by (simp add: mult.commute mult.left_commute)
  qed (use Suc.prems in simp)
qed simp

lemma msb_value_bound: "p * 2 ^ length u + msb_value u < (p + 1) * 2 ^ length u"
  using msb_value_less [of u] by simp

text \<open>
  A table whose counts and symbols are those of the code: what the loop does on a codeword, with
  \<open>p\<close> the value of the bits before \<open>u\<close>.
\<close>

definition table_ok :: "huff \<Rightarrow> (nat \<Rightarrow> nat) \<Rightarrow> nat \<Rightarrow> bool" where
  "table_ok h lens n \<longleftrightarrow> (\<forall>l \<in> {1..MAX_BITS}. h_counts h l = length (syms_of lens n l) \<and>
     (\<forall>r < length (syms_of lens n l). h_symbols h (offs_sum (h_counts h) l + r) = syms_of lens n l ! r) \<and>
     first_code lens n l + length (syms_of lens n l) \<le> 2 ^ l)"

lemma walk_complete:
  assumes "table_ok h lens n" "u \<noteq> []" "1 \<le> len" "l = len + length u - 1" "l \<le> MAX_BITS"
    and "p * 2 ^ length u + msb_value u = first_code lens n l + r" "r < length (syms_of lens n l)"
    and "first_code lens n len \<le> 2 * p" "length u \<le> k"
  shows "walk h len k (2 * p - first_code lens n len) (offs_sum (h_counts h) len) (u @ rest) =
    Some (syms_of lens n l ! r, rest)"
  using assms(2-)
proof (induction u arbitrary: len p k)
  case (Cons b u)
  obtain k' where k: "k = Suc k'" using Cons.prems(8) by (cases k) auto
  let ?p = "2 * p + of_bool b" and ?f = "first_code lens n len" and ?c = "h_counts h len"
  have len: "len \<le> MAX_BITS" using Cons.prems(3,4) by simp
  then have c: "?c = length (syms_of lens n len)"
    using assms(1) Cons.prems(2) by (simp add: table_ok_def)
  have v: "?p * 2 ^ length u + msb_value u = first_code lens n l + r"
    using Cons.prems(5) by (simp add: algebra_simps)
  have e: "2 * p - ?f + of_bool b = ?p - ?f" using Cons.prems(7) by simp
  show ?case
  proof (cases "u = []")
    case True
    then have "l = len" "?p = ?f + r" using Cons.prems(3) v by auto
    moreover have "h_symbols h (offs_sum (h_counts h) len + r) = syms_of lens n len ! r"
      using assms(1) Cons.prems(2,6) len \<open>l = len\<close> by (simp add: table_ok_def)
    ultimately show ?thesis using True Cons.prems(6) c by (simp add: k e)
  next
    case False
    have ge: "?f + ?c \<le> ?p"
    proof (rule ccontr)
      assume "\<not> ?f + ?c \<le> ?p"
      then have "(?p + 1) * 2 ^ length u \<le> (?f + ?c) * 2 ^ length u" by (intro mult_right_mono) auto
      also have "\<dots> \<le> first_code lens n l"
        using first_code_mono [of len l lens n] False Cons.prems(2,3) c by simp
      finally show False using msb_value_bound [of ?p u] v by linarith
    qed
    then have "walk h len k (2 * p - ?f) (offs_sum (h_counts h) len) ((b # u) @ rest) =
        walk h (Suc len) k' (2 * (?p - ?f - ?c)) (offs_sum (h_counts h) len + ?c) (u @ rest)"
    proof -
      have "\<not> ?p - ?f < ?c" using ge by linarith
      then show ?thesis by (simp only: k e Let_def append_Cons walk.simps if_False)
    qed
    also have "2 * (?p - ?f - ?c) = 2 * ?p - first_code lens n (Suc len)"
      using Cons.prems(2) c by simp
    also have "offs_sum (h_counts h) len + ?c = offs_sum (h_counts h) (Suc len)"
      using Cons.prems(2) by simp
    also have "walk h (Suc len) k' (2 * ?p - first_code lens n (Suc len)) (offs_sum (h_counts h) (Suc len)) (u @ rest) =
        Some (syms_of lens n l ! r, rest)"
      using Cons.prems ge c False v k by (intro Cons.IH) auto
    finally show ?thesis .
  qed
qed simp

lemma walk_sound:
  assumes "table_ok h lens n" "1 \<le> len" "len + k \<le> Suc MAX_BITS" "first_code lens n len \<le> 2 * p"
    and "walk h len k (2 * p - first_code lens n len) (offs_sum (h_counts h) len) bs = Some (sm, rest)"
  shows "\<exists>u l r. bs = u @ rest \<and> u \<noteq> [] \<and> l = len + length u - 1 \<and> l \<le> MAX_BITS \<and>
     p * 2 ^ length u + msb_value u = first_code lens n l + r \<and> r < length (syms_of lens n l) \<and>
     sm = syms_of lens n l ! r"
  using assms(2-)
proof (induction k arbitrary: len p bs)
  case (Suc k)
  obtain b bs' where bs: "bs = b # bs'" using Suc.prems(4) by (cases bs) auto
  let ?p = "2 * p + of_bool b" and ?f = "first_code lens n len" and ?c = "h_counts h len"
  have T: "?c = length (syms_of lens n len)"
      "\<forall>r < length (syms_of lens n len). h_symbols h (offs_sum (h_counts h) len + r) = syms_of lens n len ! r"
    using assms(1) Suc.prems(1,2) by (auto simp: table_ok_def)
  have e: "2 * p - ?f + of_bool b = ?p - ?f" using Suc.prems(3) by simp
  show ?case
  proof (cases "?p - ?f < ?c")
    case True
    then have "rest = bs'" "sm = syms_of lens n len ! (?p - ?f)"
      using Suc.prems(4) T bs e by (simp_all add: Let_def)
    then show ?thesis using True T(1) bs Suc.prems
      by (intro exI [of _ "[b]"] exI [of _ len] exI [of _ "?p - ?f"]) auto
  next
    case False
    have fc: "first_code lens n (Suc len) = 2 * (?f + ?c)" using Suc.prems(1) T(1) by simp
    have le: "first_code lens n (Suc len) \<le> 2 * ?p" 
    proof -
      have "?f + ?c \<le> ?p" using False Suc.prems(3) by (cases b) auto
      then show ?thesis unfolding fc by simp
    qed
    have d: "2 * (?p - ?f - ?c) = 2 * ?p - first_code lens n (Suc len)" unfolding fc by simp
    have "walk h (Suc len) k (2 * ?p - first_code lens n (Suc len)) (offs_sum (h_counts h) (Suc len)) bs' = Some (sm, rest)"
    proof -
      have "walk h len (Suc k) (2 * p - ?f) (offs_sum (h_counts h) len) bs =
          walk h (Suc len) k (2 * (?p - ?f - ?c)) (offs_sum (h_counts h) len + ?c) bs'"
        using False by (simp only: bs e Let_def walk.simps if_False)
      moreover have "offs_sum (h_counts h) (Suc len) = offs_sum (h_counts h) len + ?c"
        using Suc.prems(1) by simp
      ultimately show ?thesis using Suc.prems(4) by (simp only: d)
    qed
    from Suc.IH [OF _ _ le this] Suc.prems(2) obtain u l r where
      "bs' = u @ rest" "u \<noteq> []" "l = Suc len + length u - 1" "l \<le> MAX_BITS"
      "?p * 2 ^ length u + msb_value u = first_code lens n l + r" "r < length (syms_of lens n l)"
      "sm = syms_of lens n l ! r" by auto
    then show ?thesis using bs Suc.prems(1)
      by (intro exI [of _ "b # u"] exI [of _ l] exI [of _ r]) (auto simp: algebra_simps)
  qed
qed simp

text \<open>The check of \<open>huff_build\<close>: the codes of every length fit.\<close>

lemma left_check_fits:
  "left_check c (Suc l) k (2 ^ l - int m) \<Longrightarrow> m \<le> 2 ^ l \<Longrightarrow> l < j \<Longrightarrow> j \<le> l + k \<Longrightarrow>
   (\<And>i. l < i \<Longrightarrow> c i = length (syms_of lens n i)) \<Longrightarrow> 2 * m = first_code lens n (Suc l) \<Longrightarrow>
   first_code lens n j + length (syms_of lens n j) \<le> 2 ^ j"
proof (induction k arbitrary: l m)
  case (Suc k)
  let ?m = "2 * m + c (Suc l)"
  have "int ?m \<le> 2 ^ Suc l" and lc: "left_check c (Suc (Suc l)) k (2 ^ Suc l - int ?m)"
    using Suc.prems(1) by (auto simp: Let_def algebra_simps split: if_splits)
  then have ok: "?m \<le> 2 ^ Suc l" by (metis of_nat_le_iff of_nat_numeral of_nat_power)
  show ?case
  proof (cases "j = Suc l")
    case True
    then show ?thesis using ok Suc.prems(5,6) by simp
  next
    case False
    then show ?thesis using ok lc Suc.prems by (intro Suc.IH [of "Suc l" ?m]) auto
  qed
qed simp

lemma huff_build_table:
  assumes "huff_build h lens n = Inr h'" "\<forall>i<n. lens i \<le> MAX_BITS"
  shows "table_ok h' lens n"
proof (cases "count_lengths lens n 0 = n")
  case True
  have z: "lens i = 0" if "i < n" for i
  proof (rule ccontr)
    assume "lens i \<noteq> 0"
    then have "length (filter (\<lambda>i. lens i = 0) [0..<n]) < length [0..<n]"
      using that by (intro length_filter_less [of i]) auto
    then show False using True by (simp add: count_lengths_syms syms_of_def)
  qed
  then have s: "syms_of lens n l = []" if "1 \<le> l" for l
    using that by (auto simp: syms_of_def filter_empty_conv)
  then have "first_code lens n l = 0" for l by (induction l) auto
  moreover have "h_counts h' = count_lengths lens n" using assms(1) True by (auto simp: huff_build_def)
  ultimately show ?thesis by (auto simp: table_ok_def count_lengths_syms s)
next
  case False
  let ?c = "count_lengths lens n"
  obtain offs sy where f: "fold (place_symbol lens) [0..<n] (code_offsets ?c, h_symbols h) = (offs, sy)"
    by fastforce
  have h': "h_counts h' = ?c" "h_symbols h' = sy" and lc: "left_check ?c 1 MAX_BITS 1"
    using assms(1) False f by (auto simp: huff_build_def Let_def split: if_splits)
  have "first_code lens n l + length (syms_of lens n l) \<le> 2 ^ l" if "1 \<le> l" "l \<le> MAX_BITS" for l
    using left_check_fits [of ?c 0 MAX_BITS 0 l lens n] lc that by (simp add: count_lengths_syms)
  then show ?thesis
    using place_symbols [OF assms(2) le_refl f] by (auto simp: table_ok_def h' count_lengths_syms)
qed

lemma codeword_fits:
  assumes "table_ok h lens n" "sm < n" "lens sm = l" "1 \<le> l" "l \<le> MAX_BITS"
  shows "code_value lens n sm < 2 ^ l" "length (syms_of lens sm l) < length (syms_of lens n l)"
proof -
  show lt: "length (syms_of lens sm l) < length (syms_of lens n l)"
    using syms_of_rank(1) [of sm n lens l] assms by simp
  have "first_code lens n l + length (syms_of lens n l) \<le> 2 ^ l"
    using assms by (simp add: table_ok_def)
  then show "code_value lens n sm < 2 ^ l" using lt assms(3) by (simp add: code_value_def)
qed

lemma decode_codeword:
  assumes tb: "table_ok h lens n" and s: "ctx_ok s" "sbits s = codeword lens n sm @ rest"
    and sm: "sm < n" "lens sm \<noteq> 0" "lens sm \<le> MAX_BITS"
  shows "\<exists>k s1. decode s h = Inr (sm, s1) \<and> bits_result s k s1 \<and> sbits s1 = rest"
proof -
  let ?l = "lens sm" and ?u = "codeword lens n sm"
  have l: "1 \<le> ?l" using sm(2) by simp
  note fits = codeword_fits [OF tb sm(1) refl l sm(3)]
  have "walk h 1 MAX_BITS (2 * 0 - first_code lens n 1) (offs_sum (h_counts h) 1) (?u @ rest) =
      Some (syms_of lens n ?l ! length (syms_of lens sm ?l), rest)"
  proof (rule walk_complete [OF tb])
    show "0 * 2 ^ length ?u + msb_value ?u = first_code lens n ?l + length (syms_of lens sm ?l)"
      using fits(1) by (simp add: codeword_def msb_value_bits) (simp add: code_value_def)
    show "?u \<noteq> []" using l by (metis codeword_def length_msb_bits list.size(3) not_one_le_zero)
  qed (use sm fits in \<open>auto simp: codeword_def\<close>)
  moreover have "syms_of lens n ?l ! length (syms_of lens sm ?l) = sm" using syms_of_rank(2) sm(1) by blast
  ultimately have "walk h 1 MAX_BITS (nat (0 - 0)) (nat 0) (sbits s) = Some (sm, rest)" using s(2) by simp
  then show ?thesis
    using decode_loop_walk [OF s(1), of 0 0 0 h 1 MAX_BITS] by (auto simp: decode_def)
qed

lemma decode_sound:
  assumes tb: "table_ok h lens n" and s: "ctx_ok s" and d: "decode s h = Inr (sm, s1)"
  shows "sm < n \<and> lens sm \<noteq> 0 \<and> sbits s = codeword lens n sm @ sbits s1 \<and> (\<exists>k. bits_result s k s1)"
proof -
  have "case walk h 1 MAX_BITS (nat (0 - 0)) (nat 0) (sbits s) of
      None \<Rightarrow> \<exists>e. decode_loop h 1 MAX_BITS 0 0 0 s = Inl e
    | Some (sm, rest) \<Rightarrow> \<exists>n s1. decode_loop h 1 MAX_BITS 0 0 0 s = Inr (sm, s1) \<and>
        bits_result s n s1 \<and> sbits s1 = rest"
    by (rule decode_loop_walk) (use s in auto)
  then obtain k where w: "walk h 1 MAX_BITS 0 0 (sbits s) = Some (sm, sbits s1)" and k: "bits_result s k s1"
    using d by (auto simp: decode_def split: option.splits)
  then have "walk h 1 MAX_BITS (2 * 0 - first_code lens n 1) (offs_sum (h_counts h) 1) (sbits s) = Some (sm, sbits s1)"
    by simp
  from walk_sound [OF tb _ _ _ this] obtain u l r where u: "sbits s = u @ sbits s1" "u \<noteq> []" "l = length u"
      "msb_value u = first_code lens n l + r" "r < length (syms_of lens n l)" "sm = syms_of lens n l ! r"
    by auto
  note r = syms_of_nth [OF u(5), folded u(6)]
  then have "codeword lens n sm = u"
    using u(3,4) msb_bits_value [of u] by (simp add: codeword_def code_value_def)
  moreover have "lens sm \<noteq> 0" using r u(2,3) by simp
  ultimately show ?thesis using u r k by auto
qed

text \<open>
  C19. Huffman decoding is exact.  When \<open>huff_build\<close> accepts the code lengths of an
  alphabet, \<open>decode\<close> returns a symbol and leaves a given rest of the input if and only if
  the input is the canonical RFC 1951 codeword of that symbol followed by that rest: every
  codeword is decoded to its symbol, and nothing but a codeword is accepted.
\<close>

theorem huff_decode_exact:
  assumes "huff_build h0 lens n = Inr h" "\<forall>i<n. lens i \<le> MAX_BITS" "ctx_ok s"
  shows "(\<exists>s1. decode s h = Inr (sm, s1) \<and> sbits s1 = rest) \<longleftrightarrow>
    sm < n \<and> lens sm \<noteq> 0 \<and> sbits s = codeword lens n sm @ rest"
proof -
  note tb = huff_build_table [OF assms(1,2)]
  show ?thesis using decode_sound [OF tb assms(3)] decode_codeword [OF tb assms(3)] assms(2) by blast
qed

section \<open>Which codes are accepted\<close>

lemma left_check_numeral [simp]:
  "left_check c len (numeral k) left = (let left' = 2 * left - int (c len)
     in if left' < 0 then False else left_check c (Suc len) (pred_numeral k) left')"
  by (simp add: numeral_eq_Suc)

lemma left_check_sum:
  "left_check c len k left \<longleftrightarrow> k = 0 \<or> (\<Sum>j<k. int (c (len + j)) * 2 ^ (k - 1 - j)) \<le> left * 2 ^ k"
proof (induction k arbitrary: len left)
  case (Suc k)
  let ?S = "\<Sum>j<k. int (c (Suc len + j)) * 2 ^ (k - 1 - j)" and ?l = "2 * left - int (c len)"
  have s: "(\<Sum>j<Suc k. int (c (len + j)) * 2 ^ (Suc k - 1 - j)) = int (c len) * 2 ^ k + ?S"
    by (subst sum.lessThan_Suc_shift) simp
  have e: "int (c len) * 2 ^ k + ?S \<le> left * 2 ^ Suc k \<longleftrightarrow> ?S \<le> ?l * 2 ^ k"
    by (simp add: algebra_simps)
  have pos: "0 \<le> ?S" by (intro sum_nonneg) auto
  have "?l < 0 \<Longrightarrow> ?l * 2 ^ k < 0" by (simp add: mult_neg_pos)
  then have "left_check c len (Suc k) left \<longleftrightarrow> ?S \<le> ?l * 2 ^ k"
    using Suc.IH [of "Suc len" ?l] pos by (cases "k = 0") (auto simp: Let_def)
  then show ?case unfolding s e by simp
qed simp

lemma weighted_counts:
  fixes f :: "nat \<Rightarrow> nat"
  assumes "\<forall>i<n. lens i \<le> m"
  shows "(\<Sum>l \<in> {1..m}. length (syms_of lens n l) * f l) = (\<Sum>i \<in> {i. i < n \<and> lens i \<noteq> 0}. f (lens i))"
  using assms
proof (induction n)
  case (Suc n)
  have "(\<Sum>l \<in> {1..m}. length (syms_of lens (Suc n) l) * f l) =
      (\<Sum>l \<in> {1..m}. length (syms_of lens n l) * f l + (if lens n = l then f l else 0))"
    by (intro sum.cong) (auto simp: syms_of_Suc)
  also have "\<dots> = (\<Sum>i \<in> {i. i < n \<and> lens i \<noteq> 0}. f (lens i)) + (if lens n \<in> {1..m} then f (lens n) else 0)"
    using Suc by (simp add: sum.distrib sum.delta)
  also have "\<dots> = (\<Sum>i \<in> {i. i < Suc n \<and> lens i \<noteq> 0}. f (lens i))"
  proof -
    have "{i. i < Suc n \<and> lens i \<noteq> 0} = (if lens n = 0 then {i. i < n \<and> lens i \<noteq> 0}
        else insert n {i. i < n \<and> lens i \<noteq> 0})" by (auto simp: less_Suc_eq)
    then show ?thesis using Suc.prems by (auto simp: Suc_le_eq)
  qed
  finally show ?case .
qed (simp add: syms_of_def)

text \<open>
  C30. \<open>huff_build\<close> accepts exactly the codes that satisfy the Kraft inequality: the tables
  are built if and only if the codewords of the given lengths fit into the code space.  In
  particular an incomplete code, which leaves part of the space unused, is accepted.
\<close>

theorem huff_build_kraft:
  assumes "\<forall>i<n. lens i \<le> MAX_BITS"
  shows "(\<exists>h'. huff_build h lens n = Inr h') \<longleftrightarrow>
    (\<Sum>i \<in> {i. i < n \<and> lens i \<noteq> 0}. 2 ^ (MAX_BITS - lens i)) \<le> (2 ^ MAX_BITS :: nat)"
proof -
  let ?c = "count_lengths lens n" and ?K = "\<Sum>i \<in> {i. i < n \<and> lens i \<noteq> 0}. 2 ^ (MAX_BITS - lens i) :: nat"
  have "(\<Sum>j<MAX_BITS. int (?c (1 + j)) * 2 ^ (MAX_BITS - 1 - j)) =
      (\<Sum>l \<in> {1..MAX_BITS}. int (?c l) * 2 ^ (MAX_BITS - l))"
    by (rule sum.reindex_bij_witness [of _ "\<lambda>l. l - 1" "\<lambda>j. j + 1"]) auto
  also have "\<dots> = int (\<Sum>l \<in> {1..MAX_BITS}. length (syms_of lens n l) * 2 ^ (MAX_BITS - l))"
    by (simp add: count_lengths_syms)
  also have "\<dots> = int ?K" by (simp only: weighted_counts [OF assms])
  finally have f: "(\<Sum>j<MAX_BITS. int (?c (1 + j)) * 2 ^ (MAX_BITS - 1 - j)) = int ?K" .
  define K where "K = ?K"
  have "int K \<le> int (2 ^ MAX_BITS) \<longleftrightarrow> K \<le> 2 ^ MAX_BITS" by (rule of_nat_le_iff)
  then have "int K \<le> 1 * 2 ^ MAX_BITS \<longleftrightarrow> K \<le> 2 ^ MAX_BITS" by simp
  then have l: "left_check ?c 1 MAX_BITS 1 \<longleftrightarrow> ?K \<le> 2 ^ MAX_BITS"
    unfolding left_check_sum f K_def [symmetric] by (simp add: MAX_BITS_def)
  show ?thesis
  proof (cases "?c 0 = n")
    case True
    have "lens i = 0" if "i < n" for i
    proof (rule ccontr)
      assume "lens i \<noteq> 0"
      then have "length (filter (\<lambda>i. lens i = 0) [0..<n]) < length [0..<n]"
        using that by (intro length_filter_less [of i]) auto
      then show False using True by (simp add: count_lengths_syms syms_of_def)
    qed
    then have "{i. i < n \<and> lens i \<noteq> 0} = {}" by auto
    then have "?K \<le> 2 ^ MAX_BITS" by (simp only: sum.empty zero_le)
    moreover have "\<exists>h'. huff_build h lens n = Inr h'" using True by (simp add: huff_build_def)
    ultimately show ?thesis by blast
  next
    case False
    then show ?thesis using l by (auto simp: huff_build_def Let_def)
  qed
qed

section \<open>Witnesses\<close>

definition demo_lens :: "nat \<Rightarrow> nat" where
  "demo_lens i = (if i = 1 then 1 else if i < 3 then 2 else 0)"

definition demo_ctx :: "u8 list \<Rightarrow> inflate_ctx" where
  "demo_ctx inp = \<lparr>i_in = inp, i_pos = 0, i_bitbuf = 0, i_bitcnt = 0, i_out = [], i_outlen = 0,
     i_window = None, i_winpos = 0, i_winhave = 0,
     i_lencode = \<lparr>h_counts = (\<lambda>_. 0), h_symbols = (\<lambda>_. 0)\<rparr>,
     i_distcode = \<lparr>h_counts = (\<lambda>_. 0), h_symbols = (\<lambda>_. 0)\<rparr>\<rparr>"

text \<open>Lengths 2, 1, 2: the codewords are 10, 0 and 11; the byte 13 starts with the bits 1, 0, 1, 1.\<close>

lemma huff_decode_exact_witness:
  "\<exists>h s1. huff_build \<lparr>h_counts = (\<lambda>_. 0), h_symbols = (\<lambda>_. 0)\<rparr> demo_lens 3 = Inr h \<and>
     decode (demo_ctx [13]) h = Inr (0, s1) \<and> sbits s1 = [True, True, False, False, False, False]"
proof -
  let ?h0 = "\<lparr>h_counts = (\<lambda>_. 0), h_symbols = (\<lambda>_. 0)\<rparr>"
  have m: "\<forall>i<3. demo_lens i \<le> MAX_BITS" by (simp add: demo_lens_def MAX_BITS_def)
  have c: "count_lengths demo_lens 3 = (\<lambda>_. 0)(2 := 2, 1 := 1)"
    by (rule ext) (simp add: count_lengths_syms syms_of_def demo_lens_def upt_rec)
  obtain h where h: "huff_build ?h0 demo_lens 3 = Inr h"
    by (simp add: huff_build_def Let_def c MAX_BITS_def)
  have s: "ctx_ok (demo_ctx [13])" by (simp add: ctx_ok_def demo_ctx_def)
  have b: "sbits (demo_ctx [13]) = [True, False, True, True, False, False, False, False]"
    by (simp add: sbits_def demo_ctx_def byte_bits_def upt_rec bit_iff_odd_drop_bit)
  have w: "codeword demo_lens 3 0 = [True, False]"
    by (simp add: codeword_def code_value_def msb_bits_def syms_of_def demo_lens_def upt_rec numeral_eq_Suc bit_iff_odd)
  have "demo_lens 0 \<noteq> 0" by (simp add: demo_lens_def)
  then show ?thesis
    using huff_decode_exact [OF h m s, of 0 "[True, True, False, False, False, False]"] h
    by (auto simp: b w)
qed

lemma huff_build_kraft_witness:
  "\<exists>h'. huff_build \<lparr>h_counts = (\<lambda>_. 0), h_symbols = (\<lambda>_. 0)\<rparr> (\<lambda>i. if i = 0 then 1 else 0) 2 = Inr h'"
proof -
  have "{i. i < 2 \<and> (if i = 0 then 1 else 0 :: nat) \<noteq> 0} = {0 :: nat}" by auto
  then show ?thesis
    using huff_build_kraft [of 2 "\<lambda>i. if i = 0 then 1 else 0"] by (simp add: MAX_BITS_def)
qed

end
