(* ===== verification/InflateSpec.thy ===== *)
theory InflateSpec
  imports Huffman
begin

text \<open>
  kernel/inflate.c against an encoder: LZ77 tokens and their expansion, the bits that encode them,
  stored blocks.  The sliding window of the context, when there is one, always agrees with the
  output, so both copy loops of \<open>emit_match\<close> are the same LZ77 copy.
\<close>

section \<open>LZ77 copies\<close>

fun lz_copy :: "nat \<Rightarrow> nat \<Rightarrow> u8 list \<Rightarrow> u8 list" where
  "lz_copy d 0 out = out"
| "lz_copy d (Suc k) out = lz_copy d k (out @ [out ! (length out - d)])"

lemma length_lz_copy [simp]: "length (lz_copy d k out) = length out + k"
  by (induction d k out rule: lz_copy.induct) simp_all

text \<open>The window holds the last bytes of the output.\<close>

definition win_ok :: "inflate_ctx \<Rightarrow> bool" where
  "win_ok s \<longleftrightarrow> (case i_window s of None \<Rightarrow> True | Some w \<Rightarrow>
     i_winpos s = length (i_out s) mod WSIZE \<and> i_winhave s = min (length (i_out s)) WSIZE \<and>
     (\<forall>j < length (i_out s). length (i_out s) \<le> j + WSIZE \<longrightarrow> w (j mod WSIZE) = i_out s ! j))"

lemma emit_ok:
  assumes "win_ok s" "length (i_out s) < i_outlen s"
  shows "\<exists>s1. emit s b = Inr s1 \<and> emitted s s1 [b] \<and> win_ok s1"
proof (cases "i_window s")
  case None
  then show ?thesis using assms by (simp add: emit_def Let_def emitted_def win_ok_def)
next
  case (Some w)
  let ?n = "length (i_out s)"
  have w: "i_winpos s = ?n mod WSIZE" "i_winhave s = min ?n WSIZE"
      "\<And>j. j < ?n \<Longrightarrow> ?n \<le> j + WSIZE \<Longrightarrow> w (j mod WSIZE) = i_out s ! j"
    using assms(1) Some by (auto simp: win_ok_def)
  have p: "(if i_winpos s + 1 \<ge> WSIZE then 0 else i_winpos s + 1) = Suc ?n mod WSIZE"
    by (simp add: w(1) mod_Suc WSIZE_def) linarith
  have ne: "j mod WSIZE \<noteq> ?n mod WSIZE" if "j < ?n" "Suc ?n \<le> j + WSIZE" for j
  proof
    assume "j mod WSIZE = ?n mod WSIZE"
    then have "WSIZE dvd ?n - j" using that(1) by (metis less_imp_le mod_eq_dvd_iff_nat)
    then show False using that by (auto dest!: dvd_imp_le)
  qed
  have "\<exists>s1. emit s b = Inr s1" using assms(2) Some by (simp add: emit_def Let_def)
  then obtain s1 where e: "emit s b = Inr s1" ..
  have s1: "i_window s1 = Some (w(?n mod WSIZE := b))" "i_winpos s1 = Suc ?n mod WSIZE"
      "i_winhave s1 = min (Suc ?n) WSIZE" "i_out s1 = i_out s @ [b]"
    using e Some assms(2) p w(2) by (auto simp: emit_def Let_def w(1) min_def split: if_splits)
  have "win_ok s1"
    unfolding win_ok_def using w(3) ne by (auto simp: s1 nth_append less_Suc_eq)
  then show ?thesis using e emit_emitted by blast
qed

lemma window_read:
  assumes "win_ok s" "i_window s = Some w" "1 \<le> d" "d \<le> length (i_out s)" "d \<le> WSIZE"
  shows "d \<le> i_winhave s" "w ((i_winpos s + WSIZE - d) AND (WSIZE - 1)) = i_out s ! (length (i_out s) - d)"
proof -
  let ?n = "length (i_out s)"
  have w: "i_winpos s = ?n mod WSIZE" "i_winhave s = min ?n WSIZE"
      "\<And>j. j < ?n \<Longrightarrow> ?n \<le> j + WSIZE \<Longrightarrow> w (j mod WSIZE) = i_out s ! j"
    using assms(1,2) by (auto simp: win_ok_def)
  show "d \<le> i_winhave s" using w(2) assms by simp
  have m: "x AND (WSIZE - 1) = x mod WSIZE" for x :: nat
    using take_bit_eq_mask [of 15 x] by (simp add: WSIZE_def take_bit_eq_mod mask_eq_exp_minus_1)
  have "(?n mod WSIZE + WSIZE - d) mod WSIZE = (?n mod WSIZE + (WSIZE - d)) mod WSIZE" using assms(5) by simp
  also have "\<dots> = (?n + (WSIZE - d)) mod WSIZE" by (simp add: mod_add_left_eq)
  also have "?n + (WSIZE - d) = (?n - d) + WSIZE" using assms(4,5) by simp
  finally have "(i_winpos s + WSIZE - d) mod WSIZE = (?n - d) mod WSIZE" by (simp add: w(1))
  then show "w ((i_winpos s + WSIZE - d) AND (WSIZE - 1)) = i_out s ! (?n - d)"
    unfolding m using w(3) [of "?n - d"] assms by simp
qed

lemma copy_out_lz:
  assumes "i_window s = None" "length (i_out s) = src + d + i" "1 \<le> d" "length (i_out s) + k \<le> i_outlen s"
  shows "\<exists>s1 ys. copy_out src i k s = Inr s1 \<and> emitted s s1 ys \<and> i_out s1 = lz_copy d k (i_out s)"
  using assms
proof (induction k arbitrary: i s)
  case 0
  then show ?case using emitted_refl by auto
next
  case (Suc k)
  let ?b = "i_out s ! (src + i)"
  obtain s2 where e: "emit s ?b = Inr s2" "emitted s s2 [?b]"
    using emit_ok [of s ?b] Suc.prems by (auto simp: win_ok_def)
  then have o: "i_out s2 = i_out s @ [?b]" "i_window s2 = None" "i_outlen s2 = i_outlen s"
    using Suc.prems(1) by (auto simp: emitted_def)
  from Suc.IH [of s2 "Suc i"] obtain s1 ys where "copy_out src (Suc i) k s2 = Inr s1" "emitted s2 s1 ys"
      "i_out s1 = lz_copy d k (i_out s2)"
    using Suc.prems o by auto
  moreover have "src + i = length (i_out s) - d" using Suc.prems(2) by simp
  ultimately show ?case using e emitted_trans [OF e(2)] by (auto simp: o)
qed

lemma copy_window_lz:
  assumes "i_window s = Some w" "win_ok s" "1 \<le> d" "d \<le> length (i_out s)" "d \<le> WSIZE"
    and "length (i_out s) + k \<le> i_outlen s"
  shows "\<exists>s1 ys. copy_window d k w s = Inr s1 \<and> emitted s s1 ys \<and> win_ok s1 \<and> i_out s1 = lz_copy d k (i_out s)"
  using assms
proof (induction k arbitrary: w s)
  case 0
  then show ?case using emitted_refl by auto
next
  case (Suc k)
  let ?b = "i_out s ! (length (i_out s) - d)"
  note r = window_read [OF Suc.prems(2,1,3,4,5)]
  obtain s2 where e: "emit s ?b = Inr s2" "emitted s s2 [?b]" "win_ok s2"
    using emit_ok [of s ?b] Suc.prems by auto
  then obtain w2 where o: "i_out s2 = i_out s @ [?b]" "i_window s2 = Some w2" "i_outlen s2 = i_outlen s"
    using Suc.prems(1) by (auto simp: emitted_def)
  from Suc.IH [OF o(2) e(3)] obtain s1 ys where "copy_window d k w2 s2 = Inr s1" "emitted s2 s1 ys" "win_ok s1"
      "i_out s1 = lz_copy d k (i_out s2)"
    using Suc.prems o by auto
  then show ?case using e emitted_trans [OF e(2)] r o by auto
qed

lemma emit_match_lz:
  assumes "win_ok s" "1 \<le> d" "d \<le> length (i_out s)" "d \<le> WSIZE" "length (i_out s) + k \<le> i_outlen s"
  shows "\<exists>s1 ys. emit_match s d k = Inr s1 \<and> emitted s s1 ys \<and> win_ok s1 \<and> i_out s1 = lz_copy d k (i_out s)"
proof (cases "i_window s")
  case None
  then obtain s1 ys where "copy_out (length (i_out s) - d) 0 k s = Inr s1" "emitted s s1 ys"
      "i_out s1 = lz_copy d k (i_out s)"
    using copy_out_lz [of s "length (i_out s) - d" d 0 k] assms by auto
  moreover from this have "win_ok s1" using None by (simp add: emitted_def win_ok_def)
  ultimately show ?thesis using None assms(3) by (auto simp: emit_match_def)
next
  case (Some w)
  then show ?thesis using copy_window_lz [OF Some assms] assms by (simp add: emit_match_def)
qed


section \<open>Token streams\<close>

text \<open>
  A copy is given by its length symbol (less 257), the value of its extra bits, its distance
  symbol and the value of its extra bits.
\<close>

datatype token = Literal u8 | Copy nat nat nat nat

fun expand :: "u8 list \<Rightarrow> token list \<Rightarrow> u8 list" where
  "expand out [] = out"
| "expand out (Literal b # ts) = expand (out @ [b]) ts"
| "expand out (Copy ls lx ds dx # ts) = expand (lz_copy (dist_base ! ds + dx) (len_base ! ls + lx) out) ts"

text \<open>Tokens the format can express: symbols with a codeword, copies from the output so far.\<close>

fun tokens_ok :: "(nat \<Rightarrow> nat) \<Rightarrow> nat \<Rightarrow> (nat \<Rightarrow> nat) \<Rightarrow> nat \<Rightarrow> nat \<Rightarrow> token list \<Rightarrow> bool" where
  "tokens_ok lens n dlens dn m [] \<longleftrightarrow> True"
| "tokens_ok lens n dlens dn m (Literal b # ts) \<longleftrightarrow>
     unat b < n \<and> lens (unat b) \<noteq> 0 \<and> tokens_ok lens n dlens dn (m + 1) ts"
| "tokens_ok lens n dlens dn m (Copy ls lx ds dx # ts) \<longleftrightarrow>
     ls < 29 \<and> 257 + ls < n \<and> lens (257 + ls) \<noteq> 0 \<and> lx < 2 ^ (len_extra ! ls) \<and>
     ds < 30 \<and> ds < dn \<and> dlens ds \<noteq> 0 \<and> dx < 2 ^ (dist_extra ! ds) \<and>
     dist_base ! ds + dx \<le> m \<and> tokens_ok lens n dlens dn (m + len_base ! ls + lx) ts"

definition lsb_bits :: "nat \<Rightarrow> nat \<Rightarrow> bool list" where
  "lsb_bits k v = map (bit v) [0..<k]"

fun token_bits :: "(nat \<Rightarrow> nat) \<Rightarrow> nat \<Rightarrow> (nat \<Rightarrow> nat) \<Rightarrow> nat \<Rightarrow> token \<Rightarrow> bool list" where
  "token_bits lens n dlens dn (Literal b) = codeword lens n (unat b)"
| "token_bits lens n dlens dn (Copy ls lx ds dx) =
     codeword lens n (257 + ls) @ lsb_bits (len_extra ! ls) lx @ codeword dlens dn ds @ lsb_bits (dist_extra ! ds) dx"

definition block_bits :: "(nat \<Rightarrow> nat) \<Rightarrow> nat \<Rightarrow> (nat \<Rightarrow> nat) \<Rightarrow> nat \<Rightarrow> token list \<Rightarrow> bool list" where
  "block_bits lens n dlens dn ts = concat (map (token_bits lens n dlens dn) ts) @ codeword lens n 256"

lemma expand_length_mono: "length out \<le> length (expand out ts)"
proof (induction ts arbitrary: out)
  case (Cons t ts)
  from Cons.IH [of "expand out [t]"] show ?case by (cases t) auto
qed simp

lemma num_of_lsb_bits: "v < 2 ^ k \<Longrightarrow> num_of_bits (lsb_bits k v) = v"
  by (simp add: num_of_bits_def lsb_bits_def horner_sum_bit_eq_take_bit take_bit_nat_eq_self)

lemma read_lsb_bits:
  assumes "ctx_ok s" "sbits s = lsb_bits k v @ rest" "v < 2 ^ k" "k \<le> 24"
  shows "\<exists>s1. bits s k = Inr (v, s1) \<and> bits_result s k s1 \<and> sbits s1 = rest"
proof -
  have "length (lsb_bits k v) = k" by (simp add: lsb_bits_def)
  then show ?thesis
    using bits_spec [OF assms(1,4)] num_of_lsb_bits [OF assms(3)] assms(2)
    by (auto simp: bits_result_def)
qed

lemma table_ranges:
  assumes "ls < 29" "ds < 30"
  shows "len_extra ! ls \<le> 24" "dist_extra ! ds \<le> 24" "1 \<le> dist_base ! ds"
    "dx < 2 ^ (dist_extra ! ds) \<Longrightarrow> dist_base ! ds + dx \<le> WSIZE"
proof -
  have "\<forall>l \<in> set len_extra. l \<le> 24" by (simp add: len_extra_def)
  moreover have "ls < length len_extra" using assms(1) by (simp add: len_extra_def)
  ultimately show "len_extra ! ls \<le> 24" using nth_mem by blast
  have "\<forall>p \<in> set (zip dist_base dist_extra). snd p \<le> 24 \<and> 1 \<le> fst p \<and> fst p + 2 ^ snd p \<le> Suc WSIZE"
    by (simp add: dist_base_def dist_extra_def WSIZE_def)
  moreover have "(dist_base ! ds, dist_extra ! ds) \<in> set (zip dist_base dist_extra)"
    using assms(2) by (intro in_set_zip [THEN iffD2] exI [of _ ds]) (simp add: dist_base_def dist_extra_def)
  ultimately have "snd (dist_base ! ds, dist_extra ! ds) \<le> 24 \<and> 1 \<le> fst (dist_base ! ds, dist_extra ! ds) \<and>
      fst (dist_base ! ds, dist_extra ! ds) + 2 ^ snd (dist_base ! ds, dist_extra ! ds) \<le> Suc WSIZE" by blast
  then show "dist_extra ! ds \<le> 24" "1 \<le> dist_base ! ds"
    "dx < 2 ^ (dist_extra ! ds) \<Longrightarrow> dist_base ! ds + dx \<le> WSIZE"
    by (simp_all del: nth_Cons_numeral)
qed

text \<open>What holds at the head of the symbol loop, and the outcome of a run of it.\<close>

definition loop_ok :: "inflate_ctx \<Rightarrow> (nat \<Rightarrow> nat) \<Rightarrow> nat \<Rightarrow> (nat \<Rightarrow> nat) \<Rightarrow> nat \<Rightarrow> bool" where
  "loop_ok s lens n dlens dn \<longleftrightarrow> ctx_ok s \<and> win_ok s \<and>
     table_ok (i_lencode s) lens n \<and> table_ok (i_distcode s) dlens dn"

lemma loop_ok_bits: "loop_ok s lens n dlens dn \<Longrightarrow> bits_result s k s1 \<Longrightarrow> loop_ok s1 lens n dlens dn"
  by (simp add: loop_ok_def bits_result_def win_ok_def split: option.splits)

lemma loop_ok_emitted:
  "loop_ok s lens n dlens dn \<Longrightarrow> emitted s s1 ys \<Longrightarrow> win_ok s1 \<Longrightarrow> loop_ok s1 lens n dlens dn \<and> sbits s1 = sbits s"
  by (simp add: loop_ok_def emitted_def ctx_ok_def sbits_def)

lemma symbol_loop_tokens:
  assumes "loop_ok s lens n dlens dn" "\<forall>i. lens i \<le> MAX_BITS" "\<forall>i. dlens i \<le> MAX_BITS"
    and "256 < n" "lens 256 \<noteq> 0" "tokens_ok lens n dlens dn (length (i_out s)) ts"
    and "sbits s = block_bits lens n dlens dn ts @ rest" "length (expand (i_out s) ts) \<le> i_outlen s"
  shows "\<exists>s1. symbol_loop s = Inr s1 \<and> loop_ok s1 lens n dlens dn \<and> sbits s1 = rest \<and>
    i_out s1 = expand (i_out s) ts \<and> i_outlen s1 = i_outlen s"
  using assms(1,6-)
proof (induction ts arbitrary: s)
  case Nil
  then obtain k s1 where d: "decode s (i_lencode s) = Inr (256, s1)" "bits_result s k s1" "sbits s1 = rest"
    using decode_codeword [of "i_lencode s" lens n s 256 rest] assms(2,4,5) by (auto simp: loop_ok_def block_bits_def)
  then show ?case using Nil(1) loop_ok_bits [OF Nil(1) d(2)]
    by (subst symbol_loop.simps) (auto simp: bits_result_def)
next
  case (Cons t ts)
  show ?case
  proof (cases t)
    case (Literal b)
    have b: "unat b < n" "lens (unat b) \<noteq> 0" using Cons.prems(2) Literal by auto
    obtain k s1 where d: "decode s (i_lencode s) = Inr (unat b, s1)" "bits_result s k s1"
        "sbits s1 = block_bits lens n dlens dn ts @ rest"
      using decode_codeword [of "i_lencode s" lens n s "unat b" "block_bits lens n dlens dn ts @ rest"]
        Cons.prems(1,3) assms(2) b Literal by (auto simp: loop_ok_def block_bits_def)
    have o1: "i_out s1 = i_out s" "i_outlen s1 = i_outlen s" using d(2) by (simp_all add: bits_result_def)
    note ok1 = loop_ok_bits [OF Cons.prems(1) d(2)]
    have room: "length (i_out s1) < i_outlen s1"
      using Cons.prems(4) expand_length_mono [of "i_out s @ [b]" ts] Literal by (simp add: o1)
    obtain s2 where e: "emit s1 b = Inr s2" "emitted s1 s2 [b]" "win_ok s2"
      using emit_ok [OF _ room, of b] ok1 by (auto simp: loop_ok_def)
    note ok2 = loop_ok_emitted [OF ok1 e(2,3)]
    have o2: "i_out s2 = i_out s @ [b]" "i_outlen s2 = i_outlen s" using e(2) o1 by (simp_all add: emitted_def)
    have ub: "unat b < 256" using unsigned_less [of b] by simp
    obtain s3 where "symbol_loop s2 = Inr s3" "loop_ok s3 lens n dlens dn" "sbits s3 = rest"
        "i_out s3 = expand (i_out s2) ts" "i_outlen s3 = i_outlen s2"
      using Cons.IH [of s2] ok2 Cons.prems(2,4) d(3) Literal o2 by auto
    then show ?thesis using d(1) e(1) ub Literal o2 by (subst symbol_loop.simps) simp
  next
    case (Copy ls lx ds dx)
    note p = Cons.prems(2) [unfolded Copy tokens_ok.simps]
    let ?r = "block_bits lens n dlens dn ts @ rest"
    let ?r3 = "lsb_bits (dist_extra ! ds) dx @ ?r"
    let ?r2 = "codeword dlens dn ds @ ?r3"
    let ?r1 = "lsb_bits (len_extra ! ls) lx @ ?r2"
    have rg: "len_extra ! ls \<le> 24" "dist_extra ! ds \<le> 24" "1 \<le> dist_base ! ds" "dist_base ! ds + dx \<le> WSIZE"
      using table_ranges [of ls ds] p by auto
    obtain k s1 where d: "decode s (i_lencode s) = Inr (257 + ls, s1)" "bits_result s k s1" "sbits s1 = ?r1"
      using decode_codeword [of "i_lencode s" lens n s "257 + ls" ?r1] Cons.prems(1,3) assms(2) p Copy
      by (auto simp: loop_ok_def block_bits_def)
    note ok1 = loop_ok_bits [OF Cons.prems(1) d(2)]
    obtain s2 where x: "bits s1 (len_extra ! ls) = Inr (lx, s2)" "bits_result s1 (len_extra ! ls) s2" "sbits s2 = ?r2"
      using read_lsb_bits [OF _ d(3) _ rg(1)] ok1 p by (auto simp: loop_ok_def)
    note ok2 = loop_ok_bits [OF ok1 x(2)]
    obtain k3 s3 where y: "decode s2 (i_distcode s2) = Inr (ds, s3)" "bits_result s2 k3 s3" "sbits s3 = ?r3"
      using decode_codeword [of "i_distcode s2" dlens dn s2 ds ?r3] ok2 x(3) assms(3) p by (auto simp: loop_ok_def)
    note ok3 = loop_ok_bits [OF ok2 y(2)]
    obtain s4 where z: "bits s3 (dist_extra ! ds) = Inr (dx, s4)" "bits_result s3 (dist_extra ! ds) s4" "sbits s4 = ?r"
      using read_lsb_bits [OF _ y(3) _ rg(2)] ok3 p by (auto simp: loop_ok_def)
    note ok4 = loop_ok_bits [OF ok3 z(2)]
    have o4: "i_out s4 = i_out s" "i_outlen s4 = i_outlen s"
      using d(2) x(2) y(2) z(2) by (simp_all add: bits_result_def)
    let ?d = "dist_base ! ds + dx" and ?k = "len_base ! ls + lx"
    have room: "length (i_out s4) + ?k \<le> i_outlen s4"
      using Cons.prems(4) expand_length_mono [of "lz_copy ?d ?k (i_out s)" ts] Copy by (simp add: o4)
    obtain s5 ys where e: "emit_match s4 ?d ?k = Inr s5" "emitted s4 s5 ys" "win_ok s5"
        "i_out s5 = lz_copy ?d ?k (i_out s4)"
      using emit_match_lz [OF _ _ _ rg(4) room] ok4 p rg(3) by (auto simp: loop_ok_def o4)
    note ok5 = loop_ok_emitted [OF ok4 e(2,3)]
    have o5: "i_outlen s5 = i_outlen s" using e(2) o4 by (simp add: emitted_def)
    obtain s6 where "symbol_loop s5 = Inr s6" "loop_ok s6 lens n dlens dn" "sbits s6 = rest"
        "i_out s6 = expand (i_out s5) ts" "i_outlen s6 = i_outlen s5"
      using Cons.IH [of s5] ok5 Cons.prems(4) p z(3) Copy e(4) o4 o5 by (auto simp: add.assoc)
    then show ?thesis using d(1) x(1) y(1) z(1) e(1,4) p Copy o4 o5 by (subst symbol_loop.simps) simp
  qed
qed

section \<open>Fixed blocks\<close>

lemma pack_termination: "length (drop 8 (b # bs)) < length (b # bs)"
  by simp

text \<open>Packing bits into bytes, least significant first, the last byte padded with zeros.\<close>

function pack :: "bool list \<Rightarrow> u8 list" where
  "pack [] = []"
| "pack (b # bs) = of_nat (num_of_bits (take 8 (b # bs))) # pack (drop 8 (b # bs))"
  by pat_completeness auto
termination by (relation "measure length") auto

lemma byte_bits_of_num:
  assumes "length bs \<le> 8"
  shows "byte_bits (of_nat (num_of_bits bs)) = bs @ replicate (8 - length bs) False"
  using assms
  by (intro nth_equalityI) (auto simp: byte_bits_def num_of_bits_def nth_append bit_simps bit_horner_sum_bit_iff)

lemma pack_bits: "\<exists>k. concat (map byte_bits (pack bs)) = bs @ replicate k False"
proof (induction bs rule: pack.induct)
  case (2 b bs)
  let ?l = "b # bs"
  have h: "byte_bits (of_nat (num_of_bits (take 8 ?l))) =
      take 8 ?l @ replicate (8 - length (take 8 ?l)) False" by (rule byte_bits_of_num) simp
  show ?case
  proof (cases "8 \<le> length ?l")
    case True
    then have "byte_bits (of_nat (num_of_bits (take 8 ?l))) = take 8 ?l" using h by simp
    then show ?thesis using 2 append_take_drop_id [of 8 ?l] by (metis append.assoc concat.simps(2) list.simps(9) pack.simps(2))
  next
    case False
    then show ?thesis using h by auto
  qed
qed simp

lemma length_syms_of: "length (syms_of lens n l) = card {i. i < n \<and> lens i = l}"
  by (auto simp: syms_of_def length_filter_conv_card intro!: arg_cong [of _ _ card])

lemma fixed_counts:
  "count_lengths fixed_lengths 288 l = (if l = 7 then 24 else if l = 8 then 152 else if l = 9 then 112 else 0)"
proof -
  have "{..<144} \<inter> {280..<288} = ({} :: nat set)" by auto
  then have "card ({..<144} \<union> {280..<288 :: nat}) = 152" by (subst card_Un_disjoint) auto
  moreover have "{i. i < 288 \<and> fixed_lengths i = 7} = {256..<280}" "{i. i < 288 \<and> fixed_lengths i = 9} = {144..<256}"
      "{i. i < 288 \<and> fixed_lengths i = 8} = {..<144} \<union> {280..<288}"
    by (auto simp: fixed_lengths_def)
  ultimately have "length (syms_of fixed_lengths 288 7) = 24" "length (syms_of fixed_lengths 288 8) = 152"
      "length (syms_of fixed_lengths 288 9) = 112"
    by (simp_all add: length_syms_of)
  moreover have "syms_of fixed_lengths 288 l = []" if "l \<notin> {7, 8, 9}"
    using that by (auto simp: syms_of_def filter_empty_conv fixed_lengths_def)
  ultimately show ?thesis by (auto simp: count_lengths_syms)
qed

definition fixed_dlengths :: "nat \<Rightarrow> nat" where
  "fixed_dlengths i = (if i < 30 then 5 else fixed_lengths i)"

lemma fixed_dcounts: "count_lengths fixed_dlengths 30 l = (if l = 5 then 30 else 0)"
proof -
  have "{i. i < 30 \<and> fixed_dlengths i = 5} = {..<30}" by (auto simp: fixed_dlengths_def)
  then have "length (syms_of fixed_dlengths 30 5) = 30" by (simp add: length_syms_of)
  moreover have "syms_of fixed_dlengths 30 l = []" if "l \<noteq> 5"
    using that by (auto simp: syms_of_def filter_empty_conv fixed_dlengths_def)
  ultimately show ?thesis by (auto simp: count_lengths_syms)
qed

lemma fixed_lengths_max: "fixed_lengths i \<le> MAX_BITS" "fixed_dlengths i \<le> MAX_BITS" "fixed_lengths i \<noteq> 0"
  by (simp_all add: fixed_lengths_def fixed_dlengths_def MAX_BITS_def)

lemma build_fixed_ok:
  "\<exists>lc dc. build_fixed s = Inr (s\<lparr>i_lencode := lc, i_distcode := dc\<rparr>) \<and>
     table_ok lc fixed_lengths 288 \<and> table_ok dc fixed_dlengths 30"
proof -
  have l1: "left_check (count_lengths fixed_lengths 288) 1 MAX_BITS 1"
    and l2: "left_check (count_lengths fixed_dlengths 30) 1 MAX_BITS 1"
    by (simp_all add: MAX_BITS_def fixed_counts fixed_dcounts)
  obtain lc where lc: "huff_build (i_lencode s) fixed_lengths 288 = Inr lc"
    using l1 by (simp add: huff_build_def Let_def fixed_counts)
  obtain dc where dc: "huff_build (i_distcode s) fixed_dlengths 30 = Inr dc"
    using l2 by (simp add: huff_build_def Let_def fixed_dcounts)
  have "fixed_dlengths = (\<lambda>i. if i < 30 then 5 else fixed_lengths i)" by (rule ext) (simp add: fixed_dlengths_def)
  then have "build_fixed s = Inr (s\<lparr>i_lencode := lc, i_distcode := dc\<rparr>)"
    using lc dc by (simp add: build_fixed_def)
  then show ?thesis using huff_build_table [OF lc] huff_build_table [OF dc] fixed_lengths_max by blast
qed

lemma start_ok: "ctx_ok (inflate_start lc dc inp cp w)" "win_ok (inflate_start lc dc inp cp w)"
    "sbits (inflate_start lc dc inp cp w) = concat (map byte_bits inp)"
  by (simp_all add: inflate_start_def ctx_ok_def win_ok_def sbits_def split: option.splits)

lemma block_header:
  assumes "ctx_ok s" "win_ok s" "sbits s = lsb_bits 1 f @ lsb_bits 2 ty @ rest" "f < 2" "ty < 4"
  shows "\<exists>s1 s2. bits s 1 = Inr (f, s1) \<and> bits s1 2 = Inr (ty, s2) \<and> ctx_ok s2 \<and> win_ok s2 \<and> sbits s2 = rest \<and>
    i_out s2 = i_out s \<and> i_outlen s2 = i_outlen s \<and> i_in s2 = i_in s"
proof -
  obtain s1 where s1: "bits s 1 = Inr (f, s1)" "bits_result s 1 s1" "sbits s1 = lsb_bits 2 ty @ rest"
    using read_lsb_bits [OF assms(1,3)] assms(4) by auto
  then have "ctx_ok s1" by (simp add: bits_result_def)
  from read_lsb_bits [OF this s1(3)] obtain s2 where
    "bits s1 2 = Inr (ty, s2)" "bits_result s1 2 s2" "sbits s2 = rest" using assms(5) by auto
  then show ?thesis using s1 assms(2) by (auto simp: bits_result_def win_ok_def split: option.splits)
qed

definition fixed_block :: "token list \<Rightarrow> u8 list" where
  "fixed_block ts = pack (lsb_bits 1 1 @ lsb_bits 2 1 @ block_bits fixed_lengths 288 fixed_dlengths 30 ts)"


section \<open>Stored blocks and the zlib wrapper\<close>

definition stored_chunk :: "bool \<Rightarrow> u8 list \<Rightarrow> u8 list" where
  "stored_chunk final c =
     (let lo = of_nat (length c) :: u8; hi = of_nat (length c div 256) :: u8
      in [of_bool final, lo, hi, NOT lo, NOT hi] @ c)"

fun stored_stream :: "u8 list list \<Rightarrow> u8 list" where
  "stored_stream [] = stored_chunk True []"
| "stored_stream (c # cs) = stored_chunk False c @ stored_stream cs"

lemma le16_bytes:
  fixes lo hi :: u8
  defines "w \<equiv> ucast lo OR push_bit 8 (ucast hi) :: u32"
  shows "unat w = unat lo + 256 * unat hi"
    and "w XOR 0xFFFF = ucast (NOT lo) OR push_bit 8 (ucast (NOT hi))"
proof -
  have b: "bit (ucast x :: u32) n \<longleftrightarrow> bit x n" for x :: u8 and n
    by (auto simp: bit_simps dest: bit_imp_le_length)
  have "w = ucast lo + push_bit 8 (ucast hi)"
    unfolding w_def by (rule disjunctive_add [symmetric]) (auto simp: bit_simps b dest: bit_imp_le_length)
  moreover have "unat lo < 256" "unat hi < 256" using unsigned_less [of lo] unsigned_less [of hi] by simp_all
  moreover have "push_bit 8 (ucast hi :: u32) = of_nat (256 * unat hi)"
    by (simp add: push_bit_eq_mult)
  ultimately show "unat w = unat lo + 256 * unat hi"
    by (simp add: unsigned_of_nat unat_word_ariths unsigned_ucast_eq take_bit_nat_eq_self take_bit_eq_mod)
  have m: "(0xFFFF :: u32) = mask 16" by (simp add: mask_eq_exp_minus_1)
  show "w XOR 0xFFFF = ucast (NOT lo) OR push_bit 8 (ucast (NOT hi))"
    unfolding w_def m
    by (rule bit_eqI) (auto simp: bit_simps b dest: bit_imp_le_length)
qed

definition at_byte :: "inflate_ctx \<Rightarrow> u8 list \<Rightarrow> bool" where
  "at_byte s bs \<longleftrightarrow> i_bitbuf s = 0 \<and> i_bitcnt s = 0 \<and> i_pos s + length bs = length (i_in s) \<and> drop (i_pos s) (i_in s) = bs"

lemma stored_header:
  assumes "at_byte s (of_bool f # rest)"
  shows "\<exists>s1. bits s 1 = Inr (of_bool f, s1) \<and> bits s1 2 = Inr (0, s\<lparr>i_pos := i_pos s + 1, i_bitcnt := 5\<rparr>)"
proof -
  have p: "i_pos s < length (i_in s)" "i_in s ! i_pos s = of_bool f" "i_bitbuf s = 0" "i_bitcnt s = 0"
    using assms nth_drop [of "i_pos s" "i_in s" 0] by (auto simp: at_byte_def)
  have "bits_loop 1 s 0 = Inr (s\<lparr>i_pos := i_pos s + 1, i_bitcnt := 8\<rparr>, of_bool f)"
    using p by (simp add: bits_loop.simps)
  moreover have "drop_bit 1 (of_bool f :: u32) = 0" by (cases f) (simp_all add: drop_bit_eq_div)
  ultimately have 1: "bits s 1 = Inr (of_bool f, s\<lparr>i_pos := i_pos s + 1, i_bitcnt := 7, i_bitbuf := 0\<rparr>)"
    using p by (cases f) (simp_all add: bits_def)
  have "bits (s\<lparr>i_pos := i_pos s + 1, i_bitcnt := 7, i_bitbuf := 0\<rparr>) 2 = Inr (0, s\<lparr>i_pos := i_pos s + 1, i_bitcnt := 5\<rparr>)"
    using p(3) by (simp add: bits_def bits_loop.simps)
  then show ?thesis using 1 by blast
qed

lemma emit_stored_ok:
  assumes "length (i_out s) + k \<le> i_outlen s" "win_ok s" "j + k \<le> length (i_in s)"
  shows "\<exists>s1. emit_stored j k s = Inr s1 \<and> emitted s s1 (take k (drop j (i_in s))) \<and> win_ok s1"
  using assms
proof (induction k arbitrary: j s)
  case (Suc k)
  obtain s2 where e: "emit s (i_in s ! j) = Inr s2" "emitted s s2 [i_in s ! j]" "win_ok s2"
    using emit_ok [of s "i_in s ! j"] Suc.prems by auto
  then have o: "length (i_out s2) = length (i_out s) + 1" "i_outlen s2 = i_outlen s" "i_in s2 = i_in s"
    by (auto simp: emitted_def)
  obtain s1 where "emit_stored (Suc j) k s2 = Inr s1" "win_ok s1"
    using Suc.IH [of s2 "Suc j"] Suc.prems e o by auto
  then show ?case using emit_stored_emitted [of j "Suc k" s s1] e(1) Suc.prems by simp
qed (simp add: emitted_refl)

lemma emit_stored_full:
  assumes "i_outlen s < length (i_out s) + k" "length (i_out s) \<le> i_outlen s" "j + k \<le> length (i_in s)"
  shows "emit_stored j k s =
    Inl (ERR_OUTPUT, i_out s @ take (i_outlen s - length (i_out s)) (drop j (i_in s)))"
  using assms
proof (induction k arbitrary: j s)
  case (Suc k)
  show ?case
  proof (cases "emit s (i_in s ! j)")
    case (Inl e)
    then show ?thesis using emit_error [of s "i_in s ! j" e] by simp
  next
    case (Inr s2)
    note em = emit_emitted [OF Inr]
    then have o: "i_out s2 = i_out s @ [i_in s ! j]" "i_outlen s2 = i_outlen s" "i_in s2 = i_in s"
        "length (i_out s) < i_outlen s"
      using Suc.prems(2) by (auto simp: emitted_def)
    have "drop j (i_in s) = i_in s ! j # drop (Suc j) (i_in s)"
      using Suc.prems(3) by (simp add: Cons_nth_drop_Suc)
    moreover have "i_outlen s - length (i_out s) = Suc (i_outlen s - length (i_out s2))"
      using o by simp
    moreover have "emit_stored (Suc j) k s2 =
        Inl (ERR_OUTPUT, i_out s2 @ take (i_outlen s2 - length (i_out s2)) (drop (Suc j) (i_in s2)))"
      using Suc.prems o by (intro Suc.IH) auto
    ultimately show ?thesis using Inr o by simp
  qed
qed simp

lemma stored_chunk_block:
  assumes "at_byte s (stored_chunk f c @ rest)" "length c < 65536" "win_ok s" "length (i_out s) \<le> i_outlen s"
    and "t = s\<lparr>i_pos := i_pos s + 1, i_bitcnt := 5\<rparr>"
  shows "if length (i_out s) + length c \<le> i_outlen s
    then \<exists>s1. stored_block t = Inr s1 \<and> at_byte s1 rest \<and> win_ok s1 \<and> i_out s1 = i_out s @ c \<and> i_outlen s1 = i_outlen s
    else stored_block t = Inl (ERR_OUTPUT, take (i_outlen s) (i_out s @ c))"
proof -
  let ?lo = "of_nat (length c) :: u8" and ?hi = "of_nat (length c div 256) :: u8" and ?p = "i_pos s"
  let ?u = "s\<lparr>i_bitbuf := 0, i_bitcnt := 0, i_pos := ?p + 5\<rparr>"
  have a: "i_bitbuf s = 0" "i_bitcnt s = 0" "?p + (5 + length c + length rest) = length (i_in s)"
      "drop ?p (i_in s) = [of_bool f, ?lo, ?hi, NOT ?lo, NOT ?hi] @ c @ rest"
    using assms(1) by (auto simp: at_byte_def stored_chunk_def Let_def)
  have nth: "i_in s ! (?p + i) = ([of_bool f, ?lo, ?hi, NOT ?lo, NOT ?hi] @ c @ rest) ! i" if "i < 5" for i
    using nth_drop [of ?p "i_in s" i] a(3,4) by simp
  have n34: "i_in s ! (?p + 3) = NOT ?lo" "i_in s ! (?p + 4) = NOT ?hi" using nth [of 3] nth [of 4] by simp_all
  have e: "Suc (Suc (Suc ?p)) = ?p + 3" "Suc (Suc (Suc (Suc ?p))) = ?p + 4" by simp_all
  have n: "i_in s ! Suc ?p = ?lo" "i_in s ! Suc (Suc ?p) = ?hi"
      "i_in s ! Suc (Suc (Suc ?p)) = NOT ?lo" "i_in s ! Suc (Suc (Suc (Suc ?p))) = NOT ?hi"
    using nth [of 1] nth [of 2] by (simp, simp, simp only: e n34, simp only: e(2) n34)
  have len: "unat (le16 (i_in s) (Suc ?p)) = length c"
  proof -
    have u: "unat ?lo = length c mod 256" "unat ?hi = length c div 256"
      using assms(2) by (simp_all add: unsigned_of_nat take_bit_eq_mod)
    show ?thesis unfolding le16_def n le16_bytes(1) u by simp
  qed
  have inv: "le16 (i_in s) (Suc ?p) XOR 0xFFFF = le16 (i_in s) (Suc ?p + 2)"
    by (simp add: le16_def n le16_bytes(2))
  have sb: "stored_block t = (case emit_stored (?p + 5) (length c) ?u of Inl e \<Rightarrow> Inl e
      | Inr s1 \<Rightarrow> Inr (s1\<lparr>i_pos := ?p + 5 + length c\<rparr>))"
    using a(3) inv len by (simp add: stored_block_def assms(5) Let_def add.commute cong: sum.case_cong)
  have cc: "take (length c) (drop (?p + 5) (i_in s)) = c" "drop (?p + 5 + length c) (i_in s) = rest"
  proof -
    have "drop 5 (drop ?p (i_in s)) = c @ rest" unfolding a(4) by simp
    then have d: "drop (?p + 5) (i_in s) = c @ rest" by (simp add: add.commute)
    show "take (length c) (drop (?p + 5) (i_in s)) = c" unfolding d by simp
    have "drop (length c) (drop (?p + 5) (i_in s)) = rest" unfolding d by simp
    then show "drop (?p + 5 + length c) (i_in s) = rest" by (simp add: add.commute)
  qed
  have w: "win_ok ?u" using assms(3) by (simp add: win_ok_def split: option.splits)
  show ?thesis
  proof (cases "length (i_out s) + length c \<le> i_outlen s")
    case True
    obtain s1 where e: "emit_stored (?p + 5) (length c) ?u = Inr s1" "emitted ?u s1 c" "win_ok s1"
      using emit_stored_ok [of ?u "length c" "?p + 5"] w True a(3) cc by auto
    let ?s1 = "s1\<lparr>i_pos := ?p + 5 + length c\<rparr>"
    have "at_byte ?s1 rest" using e(2) a(3) cc(2) by (simp add: at_byte_def emitted_def)
    moreover have "win_ok ?s1" using e(3) by (simp add: win_ok_def split: option.splits)
    ultimately show ?thesis using True sb e by (simp add: emitted_def)
  next
    case False
    have "drop 5 (drop ?p (i_in s)) = c @ rest" unfolding a(4) by simp
    then have d: "drop (?p + 5) (i_in s) = c @ rest" by (simp add: add.commute)
    have "emit_stored (?p + 5) (length c) ?u =
        Inl (ERR_OUTPUT, i_out ?u @ take (i_outlen ?u - length (i_out ?u)) (drop (?p + 5) (i_in ?u)))"
      using False assms(4) a(3) by (intro emit_stored_full) auto
    then show ?thesis using sb False assms(4) d by simp
  qed
qed

lemma inflate_blocks_stored:
  assumes "at_byte s (stored_stream cs @ trailer)" "\<forall>c \<in> set cs. length c < 65536" "win_ok s"
    "length (i_out s) \<le> i_outlen s"
  shows "if length (i_out s) + length (concat cs) \<le> i_outlen s
    then \<exists>s1. inflate_blocks s = Inr s1 \<and> i_out s1 = i_out s @ concat cs
    else inflate_blocks s = Inl (ERR_OUTPUT, take (i_outlen s) (i_out s @ concat cs))"
  using assms
proof (induction cs arbitrary: s)
  case Nil
  have h: "at_byte s (of_bool True # [0, 0, NOT 0, NOT 0] @ trailer)" using Nil(1) by (simp add: stored_chunk_def)
  let ?t = "s\<lparr>i_pos := i_pos s + 1, i_bitcnt := 5\<rparr>"
  obtain s0 where b: "bits s 1 = Inr (1, s0)" "bits s0 2 = Inr (0, ?t)" using stored_header [OF h] by auto
  obtain s1 where "stored_block ?t = Inr s1" "i_out s1 = i_out s"
    using stored_chunk_block [OF _ _ Nil(3,4) refl, of True "[]" trailer] Nil(1,4) by auto
  then show ?case using b Nil(4) by (subst inflate_blocks.simps) (simp add: inflate_block_def)
next
  case (Cons c cs)
  let ?t = "s\<lparr>i_pos := i_pos s + 1, i_bitcnt := 5\<rparr>"
  have h: "at_byte s (stored_chunk False c @ (stored_stream cs @ trailer))" using Cons.prems(1) by simp
  then obtain s0 where b: "bits s 1 = Inr (0, s0)" "bits s0 2 = Inr (0, ?t)"
    using stored_header [of s False] by (auto simp: stored_chunk_def Let_def)
  have ub: "inflate_blocks s = (case stored_block ?t of Inl e \<Rightarrow> Inl e | Inr s3 \<Rightarrow> inflate_blocks s3)"
    using b by (subst inflate_blocks.simps) (simp add: inflate_block_def cong: sum.case_cong)
  note sc = stored_chunk_block [OF h _ Cons.prems(3,4) refl]
  show ?case
  proof (cases "length (i_out s) + length c \<le> i_outlen s")
    case True
    then obtain s1 where "stored_block ?t = Inr s1" "at_byte s1 (stored_stream cs @ trailer)" "win_ok s1"
        "i_out s1 = i_out s @ c" "i_outlen s1 = i_outlen s"
      using sc Cons.prems(2) by auto
    then show ?thesis using Cons.IH [of s1] Cons.prems(2) True ub by (auto split: if_splits)
  next
    case False
    then show ?thesis using sc Cons.prems(2) ub by simp
  qed
qed

text \<open>
  Stored blocks in a zlib wrapper.  A stream with a valid two-byte header and the bytes cut
  into stored chunks of at most 65535 bytes is accepted by \<open>zlib_inflate_buf\<close>: it delivers
  the bytes and stores their number when they fit into the output buffer, and reports
  \<open>ERR_OUTPUT\<close> with the buffer filled by the first of them, storing no count, when they do
  not.
\<close>

lemma inflate_raw_stored:
  assumes "\<forall>c \<in> set cs. length c < 65536"
  shows "inflate_raw lc dc (stored_stream cs @ trailer) cp None =
    (if length (concat cs) \<le> cp then (c_int (length (concat cs)), concat cs)
     else (err_code ERR_OUTPUT, take cp (concat cs)))"
proof -
  let ?s = "inflate_start lc dc (stored_stream cs @ trailer) cp None"
  have "at_byte ?s (stored_stream cs @ trailer)" by (simp add: at_byte_def inflate_start_def)
  from inflate_blocks_stored [OF this assms start_ok(2)]
  show ?thesis by (auto simp: inflate_raw_def inflate_start_def)
qed

theorem zlib_stored_roundtrip:
  assumes "\<forall>c \<in> set cs. length c < 65536" "cp < 2 ^ 31"
  shows "zlib_inflate_buf lc dc ([0x78, 0x01] @ stored_stream cs @ trailer) cp =
    (if length (concat cs) \<le> cp then ((int (length (concat cs)), concat cs), Some (length (concat cs)))
     else ((-2, take cp (concat cs)), None))"
  using assms(2) c_int_small [of "length (concat cs)"]
  by (auto simp: zlib_inflate_buf_def zlib_inflate_def Let_def inflate_raw_stored [OF assms(1)])

section \<open>The bound on the output\<close>

definition out_kept :: "inflate_ctx \<Rightarrow> inflate_ctx \<Rightarrow> bool" where
  "out_kept s s1 \<longleftrightarrow> i_outlen s1 = i_outlen s \<and>
     (length (i_out s) \<le> i_outlen s \<longrightarrow> length (i_out s1) \<le> i_outlen s)"

lemma out_kept_refl: "out_kept s s"
  by (simp add: out_kept_def)

lemma out_kept_trans: "out_kept s s1 \<Longrightarrow> out_kept s1 s2 \<Longrightarrow> out_kept s s2"
  by (simp add: out_kept_def)

lemma emitted_out_kept: "emitted s s1 ys \<Longrightarrow> out_kept s s1"
  by (cases "ys = []") (auto simp: emitted_def out_kept_def)

lemma bits_loop_out: "bits_loop n s v = Inr (s1, v1) \<Longrightarrow> i_out s1 = i_out s \<and> i_outlen s1 = i_outlen s"
proof (induction n s v rule: bits_loop.induct)
  case (1 n s v)
  from 1(2) show ?case by (subst (asm) bits_loop.simps) (auto split: if_splits dest: 1(1))
qed

lemma bits_out: "bits s n = Inr (v, s1) \<Longrightarrow> out_kept s s1"
  by (auto simp: bits_def out_kept_def split: sum.splits dest!: bits_loop_out)

lemma decode_loop_out: "decode_loop h len k code first index s = Inr (v, s1) \<Longrightarrow> out_kept s s1"
proof (induction k arbitrary: len code first index s)
  case (Suc k)
  from Suc.prems obtain b s2 where b: "bits s 1 = Inr (b, s2)" by (auto split: sum.splits)
  then have "s1 = s2 \<or> out_kept s2 s1"
    using Suc.prems Suc.IH by (auto simp: Let_def split: if_splits)
  then show ?case using bits_out [OF b] out_kept_trans by blast
qed simp

lemma decode_out: "decode s h = Inr (v, s1) \<Longrightarrow> out_kept s s1"
  by (simp add: decode_def decode_loop_out)

lemma emit_out: "emit s b = Inr s1 \<Longrightarrow> out_kept s s1"
  using emit_emitted emitted_out_kept by blast

lemma emit_match_out: "emit_match s d k = Inr s1 \<Longrightarrow> out_kept s s1"
  using emit_match_emitted emitted_out_kept by blast

lemma symbol_loop_out: "symbol_loop s = Inr s1 \<Longrightarrow> out_kept s s1"
proof (induction s rule: symbol_loop.induct)
  case (1 s)
  obtain sm t where d: "decode s (i_lencode s) = Inr (sm, t)"
    using 1(3) by (subst (asm) symbol_loop.simps) (auto split: sum.splits)
  note n = decode_out [OF d]
  consider (lit) "sm < 256" | (eob) "sm = 256" | (mat) "sm > 256" by linarith
  then show ?case
  proof cases
    case lit
    then obtain s2 where e: "emit t (of_nat sm) = Inr s2" "symbol_loop s2 = Inr s1"
      using 1(3) d by (subst (asm) symbol_loop.simps) (auto split: sum.splits)
    show ?thesis using 1(1) [OF d refl lit e] emit_out [OF e(1)] n out_kept_trans by blast
  next
    case eob
    then show ?thesis using 1(3) d n by (subst (asm) symbol_loop.simps) simp
  next
    case mat
    then have g: "\<not> sm < 256" "sm \<noteq> 256" by auto
    then obtain lx s2 dsym s3 dx s4 s5 where e: "\<not> 29 \<le> sm - 257"
        "bits t (len_extra ! (sm - 257)) = Inr (lx, s2)" "decode s2 (i_distcode s2) = Inr (dsym, s3)"
        "\<not> 30 \<le> dsym" "bits s3 (dist_extra ! dsym) = Inr (dx, s4)"
        "emit_match s4 (dist_base ! dsym + dx) (len_base ! (sm - 257) + lx) = Inr s5"
        "symbol_loop s5 = Inr s1"
      using 1(3) d by (subst (asm) symbol_loop.simps) (auto split: sum.splits if_splits)
    show ?thesis
      using 1(2) [OF d refl g e(1,2) refl e(3) refl e(4,5) refl e(6,7)] n
        bits_out [OF e(2)] decode_out [OF e(3)] bits_out [OF e(5)] emit_match_out [OF e(6)]
      by (meson out_kept_trans)
  qed
qed

lemma emit_stored_out: "emit_stored j k s = Inr s1 \<Longrightarrow> out_kept s s1"
proof (induction j k s rule: emit_stored.induct)
  case (2 j k s)
  then show ?case by (auto split: sum.splits intro: out_kept_trans emit_out)
qed (simp add: out_kept_refl)

lemma stored_block_out: "stored_block s = Inr s1 \<Longrightarrow> out_kept s s1"
  by (auto simp: stored_block_def Let_def split: if_splits sum.splits dest!: emit_stored_out)
     (auto simp: out_kept_def)

lemma read_clens_out: "read_clens i k cl s = Inr (cl1, s1) \<Longrightarrow> out_kept s s1"
proof (induction i k cl s rule: read_clens.induct)
  case (2 i k cl s)
  from 2(2) obtain v s2 where b: "bits s 3 = Inr (v, s2)"
      "read_clens (Suc i) k (cl(clen_order ! i := v)) s2 = Inr (cl1, s1)"
    by (auto split: sum.splits)
  have "out_kept s2 s1" by (rule 2(1) [OF b(1) refl b(2)])
  then show ?case using bits_out [OF b(1)] out_kept_trans by blast
qed (simp add: out_kept_refl)

lemma length_step_out: "length_step cc n ls s = Inr (new, s1) \<Longrightarrow> out_kept s s1"
  by (auto simp: length_step_def length_repeat_def split: if_splits sum.splits
      dest!: decode_out bits_out) (auto simp: out_kept_def)

lemma read_lengths_out: "read_lengths cc n ls s = Inr (ls1, s1) \<Longrightarrow> out_kept s s1"
proof (induction cc n ls s rule: read_lengths.induct)
  case (1 cc n ls s)
  show ?case
  proof (cases "length ls < n")
    case True
    then obtain new s2 where "length_step cc n ls s = Inr (new, s2)"
        "read_lengths cc n (ls @ new) s2 = Inr (ls1, s1)"
      using 1(2) by (subst (asm) read_lengths.simps) (auto split: sum.splits)
    then show ?thesis using 1(1) [of "(new, s2)" new s2] True length_step_out out_kept_trans by blast
  next
    case False
    then show ?thesis using 1(2) out_kept_refl by (subst (asm) read_lengths.simps) simp
  qed
qed

lemma build_dynamic_out: "build_dynamic s = Inr s1 \<Longrightarrow> out_kept s s1"
  by (auto simp: build_dynamic_def Let_def split: sum.splits if_splits
        dest!: bits_out read_clens_out read_lengths_out simp: out_kept_def)

lemma build_fixed_out: "build_fixed s = Inr s1 \<Longrightarrow> out_kept s s1"
  by (auto simp: build_fixed_def out_kept_def split: sum.splits)

lemma inflate_block_out: "inflate_block ty s = Inr s1 \<Longrightarrow> out_kept s s1"
  by (auto simp: inflate_block_def split: sum.splits if_splits intro: out_kept_trans
        dest: stored_block_out build_fixed_out build_dynamic_out symbol_loop_out)

lemma inflate_blocks_out: "inflate_blocks s = Inr s1 \<Longrightarrow> out_kept s s1"
proof (induction s rule: inflate_blocks.induct)
  case (1 s)
  obtain f s2 ty s3 s4 where e: "bits s 1 = Inr (f, s2)" "bits s2 2 = Inr (ty, s3)" "inflate_block ty s3 = Inr s4"
      "(if f \<noteq> 0 then Inr s4 else inflate_blocks s4) = Inr s1"
    using 1(2) by (subst (asm) inflate_blocks.simps) (auto split: sum.splits)
  have "out_kept s s4"
    using bits_out [OF e(1)] bits_out [OF e(2)] inflate_block_out [OF e(3)] by (meson out_kept_trans)
  moreover have "s4 = s1 \<or> out_kept s4 s1"
    using e(4) 1(1) [OF e(1) refl e(2) refl e(3)] by (auto split: if_splits)
  ultimately show ?case using out_kept_trans by blast
qed

text \<open>The bytes a failed call has written fit as well.\<close>

definition err_kept :: "inflate_ctx \<Rightarrow> u8 list \<Rightarrow> bool" where
  "err_kept s out \<longleftrightarrow> length (i_out s) \<le> i_outlen s \<longrightarrow> length out \<le> i_outlen s"

lemma err_kept_self: "err_kept s (i_out s)"
  by (simp add: err_kept_def)

lemma err_kept_step: "out_kept s s1 \<Longrightarrow> err_kept s1 out \<Longrightarrow> err_kept s out"
  by (simp add: err_kept_def out_kept_def)

lemma err_kept_after: "out_kept s s1 \<Longrightarrow> err_kept s (i_out s1)"
  using err_kept_step err_kept_self by blast

lemma emit_err: "emit s b = Inl (e, out) \<Longrightarrow> err_kept s out"
  using emit_error [of s b "(e, out)"] err_kept_self by auto

lemma copy_out_err: "copy_out src i k s = Inl (e, out) \<Longrightarrow> err_kept s out"
proof (induction src i k s rule: copy_out.induct)
  case (2 src i k s)
  then show ?case by (auto split: sum.splits dest: emit_err emit_out intro: err_kept_step)
qed simp

lemma copy_window_err: "copy_window d k w s = Inl (e, out) \<Longrightarrow> err_kept s out"
proof (induction k arbitrary: w s)
  case (Suc k)
  consider "out = i_out s" | b where "emit s b = Inl (e, out)"
    | b s2 w2 where "emit s b = Inr s2" "copy_window d k w2 s2 = Inl (e, out)"
    using Suc.prems by (auto simp: Let_def split: if_splits sum.splits option.splits)
  then show ?case
    by cases (auto intro: err_kept_self dest: emit_err emit_out Suc.IH intro: err_kept_step)
qed simp

lemma emit_match_err: "emit_match s d k = Inl (e, out) \<Longrightarrow> err_kept s out"
  by (auto simp: emit_match_def err_kept_self split: if_splits option.splits dest: copy_out_err copy_window_err)

lemma emit_stored_err: "emit_stored j k s = Inl (e, out) \<Longrightarrow> err_kept s out"
proof (induction j k s rule: emit_stored.induct)
  case (2 j k s)
  then show ?case by (auto split: sum.splits dest: emit_err emit_out intro: err_kept_step)
qed simp

lemma stored_block_err: "stored_block s = Inl (e, out) \<Longrightarrow> err_kept s out"
  by (auto simp: stored_block_def Let_def err_kept_def split: if_splits sum.splits dest!: emit_stored_err)

lemma symbol_loop_err: "symbol_loop s = Inl (e, out) \<Longrightarrow> err_kept s out"
proof (induction s rule: symbol_loop.induct)
  case (1 s)
  show ?case
  proof (cases "decode s (i_lencode s)")
    case (Inl e1)
    then show ?thesis using 1(3) err_kept_self by (subst (asm) symbol_loop.simps) auto
  next
    case (Inr p)
    obtain sm t where d: "decode s (i_lencode s) = Inr (sm, t)" using Inr by (cases p) auto
    note n = decode_out [OF d]
    consider (lit) "sm < 256" | (eob) "sm = 256" | (mat) "sm > 256" by linarith
    then show ?thesis
    proof cases
      case lit
      then consider "emit t (of_nat sm) = Inl (e, out)"
        | s2 where "emit t (of_nat sm) = Inr s2" "symbol_loop s2 = Inl (e, out)"
        using 1(3) d lit by (subst (asm) symbol_loop.simps) (auto split: sum.splits)
      then show ?thesis
      proof cases
        case 1
        then show ?thesis using err_kept_step [OF n emit_err] by blast
      next
        case (2 s2)
        show ?thesis
          using 1(1) [OF d refl lit 2] out_kept_trans [OF n emit_out [OF 2(1)]] err_kept_step by blast
      qed
    next
      case eob
      then show ?thesis using 1(3) d by (subst (asm) symbol_loop.simps) simp
    next
      case mat
      then have g: "\<not> sm < 256" "sm \<noteq> 256" by auto
      let ?x = "len_extra ! (sm - 257)"
      consider (here) "out = i_out t"
        | (ext) lx s2 where "bits t ?x = Inr (lx, s2)" "out = i_out s2"
        | (dst) lx s2 dsym s3 where "bits t ?x = Inr (lx, s2)" "decode s2 (i_distcode s2) = Inr (dsym, s3)"
            "out = i_out s3"
        | (mch) lx s2 dsym s3 dx s4 where "\<not> 29 \<le> sm - 257" "bits t ?x = Inr (lx, s2)"
            "decode s2 (i_distcode s2) = Inr (dsym, s3)" "\<not> 30 \<le> dsym" "bits s3 (dist_extra ! dsym) = Inr (dx, s4)"
            "(case emit_match s4 (dist_base ! dsym + dx) (len_base ! (sm - 257) + lx) of
               Inl e \<Rightarrow> Inl e | Inr s5 \<Rightarrow> symbol_loop s5) = Inl (e, out)"
        using 1(3) d g by (subst (asm) symbol_loop.simps) (auto split: sum.splits if_splits)
      then show ?thesis
      proof cases
        case here
        then show ?thesis using err_kept_after [OF n] by simp
      next
        case ext
        then show ?thesis using out_kept_trans [OF n bits_out [OF ext(1)]] err_kept_after by blast
      next
        case dst
        have "out_kept s s3"
          using n bits_out [OF dst(1)] decode_out [OF dst(2)] by (meson out_kept_trans)
        then show ?thesis using dst(3) err_kept_after by blast
      next
        case mch
        have k: "out_kept s s4"
          using n bits_out [OF mch(2)] decode_out [OF mch(3)] bits_out [OF mch(5)] by (meson out_kept_trans)
        show ?thesis
        proof (cases "emit_match s4 (dist_base ! dsym + dx) (len_base ! (sm - 257) + lx)")
          case (Inl q)
          then show ?thesis using mch(6) emit_match_err k err_kept_step by (cases q) auto
        next
          case (Inr s5)
          have "err_kept s5 out"
            using 1(2) [OF d refl g mch(1,2) refl mch(3) refl mch(4,5) refl Inr] mch(6) Inr by simp
          then show ?thesis using out_kept_trans [OF k emit_match_out [OF Inr]] err_kept_step by blast
        qed
      qed
    qed
  qed
qed

lemma inflate_block_err: "inflate_block ty s = Inl (e, out) \<Longrightarrow> err_kept s out"
  by (auto simp: inflate_block_def split: sum.splits if_splits intro: err_kept_self err_kept_step
        dest: stored_block_err build_fixed_out build_dynamic_out symbol_loop_err)

lemma inflate_blocks_err: "inflate_blocks s = Inl (e, out) \<Longrightarrow> err_kept s out"
proof (induction s rule: inflate_blocks.induct)
  case (1 s)
  consider "out = i_out s" | f s2 where "bits s 1 = Inr (f, s2)" "out = i_out s2"
    | f s2 ty s3 where "bits s 1 = Inr (f, s2)" "bits s2 2 = Inr (ty, s3)" "inflate_block ty s3 = Inl (e, out)"
    | f s2 ty s3 s4 where "bits s 1 = Inr (f, s2)" "bits s2 2 = Inr (ty, s3)" "inflate_block ty s3 = Inr s4"
      "f = 0" "inflate_blocks s4 = Inl (e, out)"
    using 1(2) by (subst (asm) inflate_blocks.simps) (auto split: sum.splits if_splits)
  then show ?case
  proof cases
    case 1
    then show ?thesis by (simp add: err_kept_self)
  next
    case 2
    then show ?thesis using err_kept_after bits_out by blast
  next
    case 3
    have "out_kept s s3" using bits_out [OF 3(1)] bits_out [OF 3(2)] by (rule out_kept_trans)
    then show ?thesis using inflate_block_err [OF 3(3)] by (rule err_kept_step)
  next
    case 4
    have "err_kept s4 out" using 1(1) [OF 4(1) refl 4(2) refl 4(3)] 4(4,5) by simp
    moreover have "out_kept s s3" using bits_out [OF 4(1)] bits_out [OF 4(2)] by (rule out_kept_trans)
    ultimately show ?thesis using inflate_block_out [OF 4(3)] err_kept_step by blast
  qed
qed

lemma inflate_raw_outcome:
  "case inflate_raw lc dc inp cp window of (n, out) \<Rightarrow>
     length out \<le> cp \<and> n \<in> {-1, -2, -3, c_int (length out)}"
proof (cases "inflate_blocks (inflate_start lc dc inp cp window)")
  case (Inl p)
  obtain e out where p: "p = (e, out)" by (cases p)
  have "length out \<le> cp"
    using inflate_blocks_err [of "inflate_start lc dc inp cp window" e out] Inl p
    by (simp add: err_kept_def inflate_start_def)
  then show ?thesis using Inl p by (cases e) (simp_all add: inflate_raw_def)
next
  case (Inr s)
  have "length (i_out s) \<le> cp"
    using inflate_blocks_out [OF Inr] by (simp add: out_kept_def inflate_start_def)
  then show ?thesis using Inr by (simp add: inflate_raw_def)
qed

lemma zlib_inflate_outcome:
  "case zlib_inflate lc dc inp cp of (n, out) \<Rightarrow>
     length out \<le> cp \<and> n \<in> {-1, -2, -3, c_int (length out)}"
  using inflate_raw_outcome [where inp = "drop 2 inp" and window = None]
  by (simp add: zlib_inflate_def Let_def)

lemma c_int_le: "nat (c_int n) \<le> n"
proof -
  have "c_int n = signed_take_bit 31 (int n)"
    by (simp add: c_int_def sint_uint uint_nat unsigned_of_nat of_nat_take_bit signed_take_bit_take_bit)
  also have "\<dots> \<le> take_bit 32 (int n)" by (simp add: signed_take_bit_eq_take_bit_minus)
  also have "\<dots> \<le> int n" by (simp add: take_bit_int_less_eq_self_iff)
  finally show ?thesis by simp
qed

text \<open>
  C25. The output buffer is never overrun.  Whatever the input, malformed or hostile, whatever
  the tables and the window held, and on every outcome, the errors included, inflating writes at
  most as many bytes as the buffer has.  The value returned is an error code or the number of
  bytes written, converted to \<open>int\<close>; a count is stored exactly when the value is not negative,
  it never exceeds the number of bytes written, and it is that number unless the buffer has
  2 ^ 31 bytes or more.
\<close>

theorem inflate_output_bounded:
  "(case inflate_raw lc dc inp cp window of (n, out) \<Rightarrow>
      length out \<le> cp \<and> n \<in> {-1, -2, -3, c_int (length out)}) \<and>
   (case zlib_inflate_buf lc dc inp cp of ((n, out), written) \<Rightarrow>
      length out \<le> cp \<and> n \<in> {-1, -2, -3, c_int (length out)} \<and>
      (case written of
         None \<Rightarrow> n < 0
       | Some k \<Rightarrow> int k = n \<and> (if cp < 2 ^ 31 then k = length out else k \<le> length out)))"
proof -
  obtain n out where z: "zlib_inflate lc dc inp cp = (n, out)" by fastforce
  have o: "length out \<le> cp" "n \<in> {-1, -2, -3, c_int (length out)}"
    using zlib_inflate_outcome [where lc = lc and dc = dc and inp = inp and cp = cp] z by auto
  have "0 \<le> n \<longrightarrow> n = c_int (length out)" using o(2) by auto
  then show ?thesis
    using inflate_raw_outcome [where inp = inp and window = window] o c_int_le [of "length out"] c_int_small [of "length out"]
    by (auto simp: zlib_inflate_buf_def z)
qed

section \<open>Witnesses\<close>


lemma zlib_stored_roundtrip_witness:
  "zlib_inflate_buf \<lparr>h_counts = (\<lambda>_. 0), h_symbols = (\<lambda>_. 0)\<rparr> \<lparr>h_counts = (\<lambda>_. 0), h_symbols = (\<lambda>_. 0)\<rparr>
     ([0x78, 0x01] @ stored_stream [[1, 2], [3]] @ [9]) 3 = ((3, [1, 2, 3]), Some 3)"
  using zlib_stored_roundtrip [of "[[1, 2], [3]]" 3 _ _ "[9]"] by simp

end
