(* ===== verification/CString.thy ===== *)
theory CString
  imports Prelude
begin

text \<open>
  The string and memory routines of include/kernel.h.  Memory is a function from addresses to
  bytes and the routines on blocks of memory (\<open>memset\<close> to \<open>memchr\<close>) take addresses, so
  that overlapping blocks are modelled as they are.  A C string is the list of its bytes before
  the terminating zero; \<open>ch s i\<close> is \<open>s[i]\<close>, the zero included.  A destination
  buffer is a function on its indices.  Arithmetic on \<open>int\<close> and \<open>long\<close> results is
  exact: C leaves its overflow undefined.
\<close>

type_synonym mem = "nat \<Rightarrow> u8"
type_synonym str = "u8 list"

section \<open>Blocks of memory\<close>

fun memset_loop :: "mem \<Rightarrow> nat \<Rightarrow> u8 \<Rightarrow> nat \<Rightarrow> nat \<Rightarrow> mem" where
  "memset_loop m dst v i 0 = m"
| "memset_loop m dst v i (Suc k) = memset_loop (m(dst + i := v)) dst v (i + 1) k"

definition memset :: "mem \<Rightarrow> nat \<Rightarrow> u8 \<Rightarrow> nat \<Rightarrow> mem" where
  "memset m dst v n = memset_loop m dst v 0 n"

text \<open>The ascending and the descending copy loop.\<close>

fun copy_up :: "mem \<Rightarrow> nat \<Rightarrow> nat \<Rightarrow> nat \<Rightarrow> nat \<Rightarrow> mem" where
  "copy_up m dst src i 0 = m"
| "copy_up m dst src i (Suc k) = copy_up (m(dst + i := m (src + i))) dst src (i + 1) k"

fun copy_down :: "mem \<Rightarrow> nat \<Rightarrow> nat \<Rightarrow> nat \<Rightarrow> mem" where
  "copy_down m dst src 0 = m"
| "copy_down m dst src (Suc i) = copy_down (m(dst + i := m (src + i))) dst src i"

definition memcpy :: "mem \<Rightarrow> nat \<Rightarrow> nat \<Rightarrow> nat \<Rightarrow> mem" where
  "memcpy m dst src n = copy_up m dst src 0 n"

definition memmove :: "mem \<Rightarrow> nat \<Rightarrow> nat \<Rightarrow> nat \<Rightarrow> mem" where
  "memmove m dst src n = (if dst < src \<or> dst \<ge> src + n then copy_up m dst src 0 n else copy_down m dst src n)"

fun memcmp_loop :: "mem \<Rightarrow> nat \<Rightarrow> nat \<Rightarrow> nat \<Rightarrow> nat \<Rightarrow> int" where
  "memcmp_loop m a b i 0 = 0"
| "memcmp_loop m a b i (Suc k) =
     (if m (a + i) \<noteq> m (b + i) then uint (m (a + i)) - uint (m (b + i)) else memcmp_loop m a b (i + 1) k)"

definition memcmp :: "mem \<Rightarrow> nat \<Rightarrow> nat \<Rightarrow> nat \<Rightarrow> int" where
  "memcmp m a b n = memcmp_loop m a b 0 n"

definition memchr :: "mem \<Rightarrow> nat \<Rightarrow> u8 \<Rightarrow> nat \<Rightarrow> nat option" where
  "memchr m s c n = map_option (\<lambda>i. s + i) (first_idx (\<lambda>i. m (s + i) = c) 0 n)"

section \<open>Strings\<close>

definition ch :: "str \<Rightarrow> nat \<Rightarrow> u8" where
  "ch s i = (if i < length s then s ! i else 0)"

fun strcmp :: "str \<Rightarrow> str \<Rightarrow> int" where
  "strcmp (x # a) (y # b) = (if x = y then strcmp a b else uint x - uint y)"
| "strcmp a b = uint (ch a 0) - uint (ch b 0)"

fun strncmp :: "str \<Rightarrow> str \<Rightarrow> nat \<Rightarrow> int" where
  "strncmp a b 0 = 0"
| "strncmp (x # a) (y # b) (Suc n) = (if x = y then strncmp a b n else uint x - uint y)"
| "strncmp a b (Suc n) = uint (ch a 0) - uint (ch b 0)"

text \<open>Copying \<open>src[i]\<close> while it is not zero, at most \<open>k\<close> bytes; then the index reached.\<close>

fun str_copy :: "mem \<Rightarrow> nat \<Rightarrow> str \<Rightarrow> nat \<Rightarrow> nat \<Rightarrow> mem \<times> nat" where
  "str_copy d off src i 0 = (d, i)"
| "str_copy d off src i (Suc k) =
     (if ch src i \<noteq> 0 then str_copy (d(off + i := ch src i)) off src (i + 1) k else (d, i))"

definition strncpy :: "mem \<Rightarrow> str \<Rightarrow> nat \<Rightarrow> mem" where
  "strncpy dst src n = (let (d, i) = str_copy dst 0 src 0 n in memset_loop d 0 0 i (n - i))"

definition strlcpy :: "mem \<Rightarrow> str \<Rightarrow> nat \<Rightarrow> mem \<times> nat" where
  "strlcpy dst src sz =
     (if sz > 0 then let (d, i) = str_copy dst 0 src 0 (sz - 1) in (d(i := 0), i + length (drop i src))
      else (dst, length src))"

definition strlcat :: "mem \<Rightarrow> str \<Rightarrow> nat \<Rightarrow> mem \<times> nat" where
  "strlcat dst src sz =
     (let dl = (case first_idx (\<lambda>i. dst i = 0) 0 sz of Some i \<Rightarrow> i | None \<Rightarrow> sz);
          (d, sl) = str_copy dst dl src 0 (sz - 1 - dl)
      in (if dl < sz then d(dl + sl := 0) else d, dl + (sl + length (drop sl src))))"

definition strchr :: "str \<Rightarrow> u8 \<Rightarrow> nat option" where
  "strchr s c = (case first_idx (\<lambda>i. ch s i = c) 0 (length s) of
     Some i \<Rightarrow> Some i | None \<Rightarrow> if c = 0 then Some (length s) else None)"

fun strrchr_loop :: "str \<Rightarrow> u8 \<Rightarrow> nat \<Rightarrow> nat option \<Rightarrow> nat option" where
  "strrchr_loop [] c i lst = lst"
| "strrchr_loop (x # s) c i lst = strrchr_loop s c (i + 1) (if x = c then Some i else lst)"

definition strrchr :: "str \<Rightarrow> u8 \<Rightarrow> nat option" where
  "strrchr s c = strrchr_loop s c 0 None"

fun starts_with :: "str \<Rightarrow> str \<Rightarrow> bool" where
  "starts_with h [] = True"
| "starts_with (x # h) (y # n) = (x = y \<and> starts_with h n)"
| "starts_with [] (y # n) = False"

fun strstr_loop :: "str \<Rightarrow> str \<Rightarrow> nat \<Rightarrow> nat option" where
  "strstr_loop [] n i = None"
| "strstr_loop (x # h) n i = (if starts_with (x # h) n then Some i else strstr_loop h n (i + 1))"

definition strstr :: "str \<Rightarrow> str \<Rightarrow> nat option" where
  "strstr hay needle = (if needle = [] then Some 0 else strstr_loop hay needle 0)"

section \<open>Numbers\<close>

definition is_digit :: "u8 \<Rightarrow> bool" where
  "is_digit c \<longleftrightarrow> 48 \<le> c \<and> c \<le> 57"

fun skip_blanks :: "str \<Rightarrow> str" where
  "skip_blanks (c # s) = (if c = 32 \<or> c = 9 then skip_blanks s else c # s)"
| "skip_blanks [] = []"

definition take_sign :: "str \<Rightarrow> bool \<times> str" where
  "take_sign s = (let neg = (ch s 0 = 45) in (neg, if neg \<or> ch s 0 = 43 then tl s else s))"

fun atoi_loop :: "str \<Rightarrow> int \<Rightarrow> int" where
  "atoi_loop [] v = v"
| "atoi_loop (c # s) v = (if is_digit c then atoi_loop s (v * 10 + (uint c - 48)) else v)"

definition atoi :: "str \<Rightarrow> int" where
  "atoi s = (let (neg, t) = take_sign (skip_blanks s); v = atoi_loop t 0 in if neg then - v else v)"

definition digit_of :: "u8 \<Rightarrow> int option" where
  "digit_of c =
     (if 48 \<le> c \<and> c \<le> 57 then Some (uint c - 48)
      else if 97 \<le> c \<and> c \<le> 122 then Some (uint c - 97 + 10)
      else if 65 \<le> c \<and> c \<le> 90 then Some (uint c - 65 + 10)
      else None)"

fun strtol_loop :: "str \<Rightarrow> int \<Rightarrow> int \<Rightarrow> int \<times> str" where
  "strtol_loop [] base v = (v, [])"
| "strtol_loop (c # s) base v =
     (case digit_of c of
        None \<Rightarrow> (v, c # s)
      | Some d \<Rightarrow> if d \<ge> base then (v, c # s) else strtol_loop s base (v * base + d))"

definition strtol_base :: "str \<Rightarrow> int \<Rightarrow> int \<times> str" where
  "strtol_base s base =
     (if base = 0 then
        (if ch s 0 = 48 \<and> (ch s 1 = 120 \<or> ch s 1 = 88) then (16, drop 2 s)
         else if ch s 0 = 48 then (8, tl s) else (10, s))
      else if base = 16 \<and> ch s 0 = 48 \<and> (ch s 1 = 120 \<or> ch s 1 = 88) then (16, drop 2 s)
      else (base, s))"

text \<open>The value and the rest of the string, where \<open>*end\<close> points.\<close>

definition strtol :: "str \<Rightarrow> int \<Rightarrow> int \<times> str" where
  "strtol s base =
     (let (neg, t) = take_sign (skip_blanks s); (b, u) = strtol_base t base; (v, r) = strtol_loop u b 0
      in (if neg then - v else v, r))"

text \<open>The digits of \<open>v\<close>, least significant first, as the loops store them in \<open>tmp\<close>.\<close>

function digits_rev :: "(nat \<Rightarrow> u8) \<Rightarrow> nat \<Rightarrow> nat \<Rightarrow> u8 list" where
  "digits_rev dig base v = (if v = 0 \<or> base \<le> 1 then [] else dig (v mod base) # digits_rev dig base (v div base))"
  by pat_completeness auto
termination by (relation "measure (\<lambda>(d, b, v). v)") auto

declare digits_rev.simps [simp del]

definition lower_digit :: "nat \<Rightarrow> u8" where
  "lower_digit d = (if d < 10 then 48 + of_nat d else 87 + of_nat d)"

definition upper_digit :: "nat \<Rightarrow> u8" where
  "upper_digit d = (if d < 10 then 48 + of_nat d else 55 + of_nat d)"

text \<open>The string written to the buffer; its terminating zero takes one more byte.\<close>

definition u64_to_dec :: "u64 \<Rightarrow> str" where
  "u64_to_dec v = (if v = 0 then [48] else rev (digits_rev (\<lambda>d. 48 + of_nat d) 10 (unat v)))"

definition u64_to_hex :: "u64 \<Rightarrow> str" where
  "u64_to_hex v = (if v = 0 then [48] else rev (digits_rev lower_digit 16 (unat v)))"

section \<open>Formatted output\<close>

text \<open>
  A variable argument: eight bytes of a number, or a string pointer, which may be null.
  Asking for an argument that is not there or of the other sort, and reading the format past
  its end, are undefined in C: the result is \<^term>\<open>None\<close>.
\<close>

datatype varg = VNum u64 | VStr "str option"

record fmt_out =
  o_buf :: mem
  o_pos :: nat

definition putc :: "nat \<Rightarrow> u8 \<Rightarrow> fmt_out \<Rightarrow> fmt_out" where
  "putc sz c out = (if o_pos out + 1 < sz
     then out\<lparr>o_buf := (o_buf out)(o_pos out := c), o_pos := o_pos out + 1\<rparr> else out)"

definition puts :: "nat \<Rightarrow> str \<Rightarrow> fmt_out \<Rightarrow> fmt_out" where
  "puts sz cs out = fold (putc sz) cs out"

fun fmt_flags :: "str \<Rightarrow> bool \<Rightarrow> bool \<Rightarrow> bool \<times> bool \<times> str" where
  "fmt_flags (c # f) left zero =
     (if c = 45 then fmt_flags f True zero else if c = 48 then fmt_flags f left True else (left, zero, c # f))"
| "fmt_flags [] left zero = (left, zero, [])"

fun fmt_width :: "str \<Rightarrow> nat \<Rightarrow> nat \<times> str" where
  "fmt_width (c # f) w = (if is_digit c then fmt_width f (w * 10 + (unat c - 48)) else (w, c # f))"
| "fmt_width [] w = (w, [])"

definition fmt_length :: "str \<Rightarrow> nat \<times> str" where
  "fmt_length f = (if ch f 0 = 108 then (if ch f 1 = 108 then (2, drop 2 f) else (1, tl f)) else (0, f))"

definition arg_signed :: "nat \<Rightarrow> u64 \<Rightarrow> int" where
  "arg_signed lng v = (if lng = 0 then sint (ucast v :: u32) else sint v)"

definition arg_unsigned :: "nat \<Rightarrow> u64 \<Rightarrow> u64" where
  "arg_unsigned lng v = (if lng = 0 then ucast (ucast v :: u32) else v)"

text \<open>
  The numeric conversions.  The test for \<open>'p'\<close> comes after \<open>spec\<close> has been set to
  \<open>'x'\<close> in the source, so the two prefix branches are never taken.
\<close>

definition fmt_number :: "nat \<Rightarrow> bool \<Rightarrow> bool \<Rightarrow> nat \<Rightarrow> nat \<Rightarrow> u8 \<Rightarrow> u64 \<Rightarrow> fmt_out \<Rightarrow> fmt_out" where
  "fmt_number sz left zero width lng spec0 v out =
     (let (uval, neg, spec) =
            (if spec0 = 100 \<or> spec0 = 105
             then (let sv = arg_signed lng v in if sv < 0 then (of_int (- sv), True, spec0) else (of_int sv, False, spec0))
             else if spec0 = 112 then (v, False, 120)
             else (arg_unsigned lng v, False, spec0));
          base = (if spec = 120 \<or> spec = 88 then 16 else if spec = 111 then 8 else 10);
          digs = (if spec = 88 then upper_digit else lower_digit);
          tmp = (if uval = 0 then [48] else digits_rev digs base (unat (uval :: u64))) @ (if neg then [45] else []);
          pad = (if zero \<and> \<not> left then 48 else 32);
          total' = length tmp + (if spec = 112 then 2 else 0);
          out1 = (if left then out else puts sz (replicate (width - total') pad) out);
          out2 = (if spec = 112 then puts sz [48, 120] out1 else out1);
          out3 = puts sz (rev tmp) out2
      in if left then puts sz (replicate (width - total') 32) out3 else out3)"

definition fmt_string :: "nat \<Rightarrow> bool \<Rightarrow> nat \<Rightarrow> str option \<Rightarrow> fmt_out \<Rightarrow> fmt_out" where
  "fmt_string sz left width sv out =
     (let s = (case sv of None \<Rightarrow> [40, 110, 117, 108, 108, 41] | Some s \<Rightarrow> s);
          out1 = (if left then out else puts sz (replicate (width - length s) 32) out);
          out2 = puts sz s out1
      in if left then puts sz (replicate (width - length s) 32) out2 else out2)"

text \<open>One conversion, after the percent sign: the rest of the format, of the arguments, the output.\<close>

definition fmt_spec :: "nat \<Rightarrow> str \<Rightarrow> varg list \<Rightarrow> fmt_out \<Rightarrow> (str \<times> varg list \<times> fmt_out) option" where
  "fmt_spec sz f args out =
     (let (left, zero, f1) = fmt_flags f False False; (width, f2) = fmt_width f1 0; (lng, f3) = fmt_length f2
      in case f3 of
        [] \<Rightarrow> None
      | spec # f4 \<Rightarrow>
         (if spec = 37 then Some (f4, args, putc sz 37 out)
          else case args of
            [] \<Rightarrow> None
          | VStr sv # as \<Rightarrow> (if spec = 115 then Some (f4, as, fmt_string sz left width sv out) else None)
          | VNum v # as \<Rightarrow>
             (if spec = 99 then Some (f4, as, putc sz (ucast v) out)
              else if spec = 115 then None
              else Some (f4, as, fmt_number sz left zero width lng spec v out))))"

lemma fmt_flags_length: "fmt_flags f l z = (l', z', f') \<Longrightarrow> length f' \<le> length f"
  by (induction f l z rule: fmt_flags.induct) (auto split: if_splits)

lemma fmt_width_length: "fmt_width f w = (w', f') \<Longrightarrow> length f' \<le> length f"
  by (induction f w rule: fmt_width.induct) (auto split: if_splits)

lemma fmt_length_length: "fmt_length f = (n, f') \<Longrightarrow> length f' \<le> length f"
  by (auto simp: fmt_length_def split: if_splits)

lemma fmt_spec_length:
  assumes "fmt_spec sz f args out = Some (f', as, out')"
  shows "length f' < length f"
proof -
  obtain l z f1 where 1: "fmt_flags f False False = (l, z, f1)" by (metis prod_cases3)
  obtain w f2 where 2: "fmt_width f1 0 = (w, f2)" by fastforce
  obtain n f3 where 3: "fmt_length f2 = (n, f3)" by fastforce
  obtain c where "f3 = c # f'"
    using assms by (auto simp: fmt_spec_def 1 2 3 split: list.splits varg.splits if_splits)
  then show ?thesis using fmt_flags_length [OF 1] fmt_width_length [OF 2] fmt_length_length [OF 3] by simp
qed

function vsn_loop :: "nat \<Rightarrow> str \<Rightarrow> varg list \<Rightarrow> fmt_out \<Rightarrow> fmt_out option" where
  "vsn_loop sz f args out =
     (case f of
        [] \<Rightarrow> Some out
      | c # f1 \<Rightarrow>
         (if c \<noteq> 37 then vsn_loop sz f1 args (putc sz c out)
          else case fmt_spec sz f1 args out of
            None \<Rightarrow> None
          | Some (f2, as, out1) \<Rightarrow> vsn_loop sz f2 as out1))"
  by pat_completeness auto
termination by (relation "measure (\<lambda>(sz, f, args, out). length f)") (auto dest: fmt_spec_length)

declare vsn_loop.simps [simp del]

definition k_vsnprintf :: "mem \<Rightarrow> nat \<Rightarrow> str \<Rightarrow> varg list \<Rightarrow> (mem \<times> nat) option" where
  "k_vsnprintf buf sz fmt args =
     (case vsn_loop sz fmt args \<lparr>o_buf = buf, o_pos = 0\<rparr> of
        None \<Rightarrow> None
      | Some out \<Rightarrow> Some (if sz \<noteq> 0
          then (o_buf out)((if o_pos out < sz then o_pos out else sz - 1) := 0) else o_buf out, o_pos out))"

section \<open>Copying\<close>

definition moved :: "mem \<Rightarrow> nat \<Rightarrow> nat \<Rightarrow> nat \<Rightarrow> mem" where
  "moved m dst src n = (\<lambda>a. if dst \<le> a \<and> a < dst + n then m (src + (a - dst)) else m a)"

lemma copy_up_moved:
  "dst \<le> src \<or> src + i + k \<le> dst \<or> k = 0 \<Longrightarrow>
   copy_up m dst src i k a = (if dst + i \<le> a \<and> a < dst + i + k then m (src + (a - dst)) else m a)"
proof (induction m dst src i k rule: copy_up.induct)
  case (2 m dst src i k)
  have "copy_up m dst src i (Suc k) a = copy_up (m(dst + i := m (src + i))) dst src (i + 1) k a" by simp
  also have "\<dots> = (if dst + (i + 1) \<le> a \<and> a < dst + (i + 1) + k
      then (m(dst + i := m (src + i))) (src + (a - dst)) else (m(dst + i := m (src + i))) a)"
    by (rule 2(1)) (use 2(2) in auto)
  also have "\<dots> = (if dst + i \<le> a \<and> a < dst + i + Suc k then m (src + (a - dst)) else m a)"
    using 2(2) by auto
  finally show ?case .
qed auto

lemma copy_down_moved:
  "src \<le> dst \<Longrightarrow> copy_down m dst src n a = (if dst \<le> a \<and> a < dst + n then m (src + (a - dst)) else m a)"
  by (induction m dst src n rule: copy_down.induct) auto

text \<open>
  \<open>memmove\<close> copies the source as it was, whatever the overlap: every byte of the
  destination gets the old byte of the source and no other byte changes.
\<close>

theorem memmove_correct:
  "memmove m dst src n = (\<lambda>a. if dst \<le> a \<and> a < dst + n then m (src + (a - dst)) else m a)"
  using copy_up_moved [of dst src 0 n m] copy_down_moved [of src dst m n]
  by (intro ext) (auto simp: memmove_def)

section \<open>Numbers and their digits\<close>

lemma digit_of_lower: "d < 16 \<Longrightarrow> digit_of (lower_digit d) = Some (int d)"
proof -
  have "\<forall>d \<in> set [0..<16]. digit_of (lower_digit d) = Some (int d)"
    by (simp add: upt_rec digit_of_def lower_digit_def)
  then show "d < 16 \<Longrightarrow> digit_of (lower_digit d) = Some (int d)" by simp
qed

lemma lower_digit_ne: "d < 16 \<Longrightarrow> lower_digit d \<notin> {32, 9, 45, 43, 120, 88}"
proof -
  have "\<forall>d \<in> set [0..<16]. lower_digit d \<notin> {32, 9, 45, 43, 120, 88}"
    by (simp add: upt_rec lower_digit_def)
  then show "d < 16 \<Longrightarrow> lower_digit d \<notin> {32, 9, 45, 43, 120, 88}" by simp
qed

lemma strtol_loop_append:
  "\<forall>c \<in> set ds. \<exists>d. digit_of c = Some d \<and> d < base \<Longrightarrow>
   strtol_loop (ds @ r) base v = strtol_loop r base (foldl (\<lambda>v c. v * base + the (digit_of c)) v ds)"
  by (induction ds arbitrary: v) (auto split: option.splits)

lemma digits_rev_value:
  assumes "2 \<le> base" "base \<le> 16"
  shows "foldl (\<lambda>v c. v * int base + the (digit_of c)) 0 (rev (digits_rev lower_digit base v)) = int v"
proof (induction v rule: less_induct)
  case (less v)
  show ?case
  proof (cases "v = 0")
    case False
    have "v div base < v" using False assms by simp
    moreover have "the (digit_of (lower_digit (v mod base))) = int (v mod base)"
      using digit_of_lower [of "v mod base"] assms by (simp add: less_le_trans [OF mod_less_divisor])
    ultimately have "foldl (\<lambda>v c. v * int base + the (digit_of c)) 0 (rev (digits_rev lower_digit base v)) =
        int (v div base) * int base + int (v mod base)"
      using less assms False by (subst digits_rev.simps) simp
    also have "\<dots> = int (v div base * base + v mod base)" by (simp only: of_nat_add of_nat_mult)
    finally show ?thesis by (simp only: div_mult_mod_eq)
  qed (simp add: digits_rev.simps)
qed

lemma digits_rev_set:
  assumes "2 \<le> base" "base \<le> 16"
  shows "c \<in> set (digits_rev lower_digit base v) \<Longrightarrow> \<exists>d < base. c = lower_digit d"
proof (induction v rule: less_induct)
  case (less v)
  have "v \<noteq> 0" using less(2) by (cases "v = 0") (simp_all add: digits_rev.simps [of _ _ 0])
  then have v: "v div base < v" "c = lower_digit (v mod base) \<or> c \<in> set (digits_rev lower_digit base (v div base))"
    using less(2) assms by (auto simp: digits_rev.simps [of lower_digit base v])
  moreover have "v mod base < base" using assms by simp
  ultimately show ?case using less(1) by blast
qed

lemma number_read_back:
  assumes "2 \<le> base" "base \<le> 16" and s: "s = (if v = 0 then [48] else rev (digits_rev lower_digit base v))"
  shows "strtol s (int base) = (int v, [])"
proof -
  have ne: "s \<noteq> []" using s assms by (auto simp: digits_rev.simps)
  have dig: "\<exists>d < base. c = lower_digit d" if "c \<in> set s" for c
  proof (cases "v = 0")
    case True
    then show ?thesis using that s assms by (intro exI [of _ 0]) (simp add: lower_digit_def)
  next
    case False
    then show ?thesis using that s digits_rev_set [OF assms(1,2), of c v] by simp
  qed
  have ok: "\<forall>c \<in> set s. \<exists>d. digit_of c = Some d \<and> d < int base"
  proof
    fix c assume "c \<in> set s"
    then obtain d where "d < base" "c = lower_digit d" using dig by blast
    then show "\<exists>d. digit_of c = Some d \<and> d < int base" using digit_of_lower [of d] assms(2) by simp
  qed
  have plain: "c \<notin> {32, 9, 45, 43, 120, 88}" if "c \<in> set s" for c
  proof -
    from dig [OF that] obtain d where "d < base" "c = lower_digit d" by blast
    then show ?thesis using lower_digit_ne [of d] assms(2) by simp
  qed
  obtain c r where cr: "s = c # r" using ne by (cases s) auto
  have "skip_blanks s = s" "take_sign s = (False, s)"
    using plain [of c] cr by (auto simp: take_sign_def ch_def)
  moreover have "strtol_base s (int base) = (int base, s)"
  proof -
    have "ch s 1 \<noteq> 120 \<and> ch s 1 \<noteq> 88"
      using plain [of "s ! 1"] by (cases "1 < length s") (auto simp: ch_def)
    then show ?thesis using assms by (simp add: strtol_base_def)
  qed
  moreover have "strtol_loop s (int base) 0 = (int v, [])"
  proof (cases "v = 0")
    case True
    then show ?thesis using s assms by (simp add: digit_of_def)
  next
    case False
    then show ?thesis using strtol_loop_append [OF ok, of "[]" 0] s digits_rev_value [OF assms(1,2)] by simp
  qed
  ultimately show ?thesis by (simp add: strtol_def)
qed

text \<open>
  C32. Numbers survive printing and parsing.  For every value a \<open>long\<close> can hold,
  \<open>strtol\<close> reads back what \<open>u64_to_dec\<close> and \<open>u64_to_hex\<close> print, and stops at the
  end of the string.
\<close>

theorem number_roundtrip:
  assumes "unat v < 2 ^ 63"
  shows "strtol (u64_to_dec v) 10 = (int (unat v), []) \<and> strtol (u64_to_hex v) 16 = (int (unat v), [])"
proof -
  have z: "v = 0 \<longleftrightarrow> unat v = 0" by (simp add: unsigned_eq_0_iff)
  have d: "digits_rev (\<lambda>d. 48 + of_nat d) 10 n = digits_rev lower_digit 10 n" for n
    by (induction n rule: less_induct)
       (simp add: digits_rev.simps [of _ 10] lower_digit_def less_trans [OF mod_less_divisor])
  have "u64_to_dec v = (if unat v = 0 then [48] else rev (digits_rev lower_digit 10 (unat v)))"
    unfolding u64_to_dec_def d z ..
  then have "strtol (u64_to_dec v) (int 10) = (int (unat v), [])" by (rule number_read_back [rotated 2]) auto
  moreover have "u64_to_hex v = (if unat v = 0 then [48] else rev (digits_rev lower_digit 16 (unat v)))"
    unfolding u64_to_hex_def z ..
  then have "strtol (u64_to_hex v) (int 16) = (int (unat v), [])" by (rule number_read_back [rotated 2]) auto
  ultimately show ?thesis by (simp only: of_nat_numeral)
qed

lemma number_roundtrip_witness:
  "strtol (u64_to_dec 65535) 10 = (65535, []) \<and> strtol (u64_to_hex 65535) 16 = (65535, [])"
  using number_roundtrip [of 65535] by simp

section \<open>Formatted output stays in the buffer\<close>

definition fmt_ok :: "mem \<Rightarrow> nat \<Rightarrow> fmt_out \<Rightarrow> bool" where
  "fmt_ok buf sz out \<longleftrightarrow> (o_pos out < sz \<or> o_pos out = 0) \<and> (\<forall>i. sz \<le> i + 1 \<longrightarrow> o_buf out i = buf i)"

lemma putc_ok: "fmt_ok buf sz out \<Longrightarrow> fmt_ok buf sz (putc sz c out)"
  by (auto simp: fmt_ok_def putc_def)

lemma puts_ok: "fmt_ok buf sz out \<Longrightarrow> fmt_ok buf sz (puts sz cs out)"
  unfolding puts_def by (induction cs arbitrary: out) (simp_all add: putc_ok)

lemma fmt_string_ok: "fmt_ok buf sz out \<Longrightarrow> fmt_ok buf sz (fmt_string sz left w sv out)"
  by (simp add: fmt_string_def Let_def puts_ok)

lemma fmt_number_ok: "fmt_ok buf sz out \<Longrightarrow> fmt_ok buf sz (fmt_number sz left zero w lng spec v out)"
  by (simp add: fmt_number_def Let_def puts_ok split: prod.splits)

lemma fmt_spec_ok:
  "fmt_spec sz f args out = Some (f', as, out') \<Longrightarrow> fmt_ok buf sz out \<Longrightarrow> fmt_ok buf sz out'"
  by (auto simp: fmt_spec_def putc_ok fmt_string_ok fmt_number_ok
      split: prod.splits list.splits varg.splits if_splits)

lemma vsn_loop_ok: "vsn_loop sz f args out = Some out' \<Longrightarrow> fmt_ok buf sz out \<Longrightarrow> fmt_ok buf sz out'"
proof (induction sz f args out rule: vsn_loop.induct)
  case (1 sz f args out)
  then show ?case
    by (subst (asm) vsn_loop.simps)
       (auto split: list.splits if_splits option.splits dest: fmt_spec_ok intro: putc_ok)
qed

text \<open>
  \<open>k_vsnprintf\<close> never writes past the buffer and, when there is room for a byte at all,
  ends the output with a zero inside it: the count it returns is the index of that zero.
\<close>

theorem k_vsnprintf_bounds:
  assumes "k_vsnprintf buf sz fmt args = Some (b, n)"
  shows "(\<forall>i \<ge> sz. b i = buf i) \<and> (0 < sz \<longrightarrow> n < sz \<and> b n = 0) \<and> (sz = 0 \<longrightarrow> b = buf)"
proof -
  obtain out where out: "vsn_loop sz fmt args \<lparr>o_buf = buf, o_pos = 0\<rparr> = Some out"
      "b = (if sz \<noteq> 0 then (o_buf out)((if o_pos out < sz then o_pos out else sz - 1) := 0) else o_buf out)"
      "n = o_pos out"
    using assms by (auto simp: k_vsnprintf_def split: option.splits)
  have "fmt_ok buf sz out" by (rule vsn_loop_ok [OF out(1)]) (simp add: fmt_ok_def)
  then show ?thesis using out(2,3) by (auto simp: fmt_ok_def)
qed

text \<open>
  The conversion \<open>%p\<close> prints exactly what \<open>%lx\<close> prints: the prefix
  \<open>0x\<close> the source provides for never appears, because the conversion letter has been
  replaced before it is tested.
\<close>

theorem pointer_has_no_prefix:
  "k_vsnprintf buf sz [37, 112] [VNum v] = k_vsnprintf buf sz [37, 108, 120] [VNum v]"
proof -
  have p: "fmt_spec sz [112] [VNum v] out = Some ([], [], fmt_number sz False False 0 0 112 v out)" for out
    by (simp add: fmt_spec_def fmt_length_def ch_def is_digit_def)
  have x: "fmt_spec sz [108, 120] [VNum v] out = Some ([], [], fmt_number sz False False 0 1 120 v out)" for out
    by (simp add: fmt_spec_def fmt_length_def ch_def is_digit_def)
  have "fmt_number sz False False 0 0 112 v out = fmt_number sz False False 0 1 120 v out" for out
    by (simp add: fmt_number_def arg_unsigned_def Let_def)
  then show ?thesis by (simp add: k_vsnprintf_def vsn_loop.simps p x)
qed

lemma k_vsnprintf_bounds_witness:
  "\<exists>b n. k_vsnprintf (\<lambda>_. 7) 2 [65, 66, 67] [] = Some (b, n) \<and> (\<forall>i \<ge> 2. b i = 7) \<and> n < 2 \<and> b n = 0"
proof -
  obtain b n where k: "k_vsnprintf (\<lambda>_. 7) 2 [65, 66, 67] [] = Some (b, n)"
    by (simp add: k_vsnprintf_def vsn_loop.simps)
  then show ?thesis using k_vsnprintf_bounds [OF k] by auto
qed

end
