(* ===== verification/Pmm.thy ===== *)
theory Pmm
  imports Prelude
begin

text \<open>
  kernel/pmm.c: the buddy allocator of physical pages.  The state holds the list heads of the
  eleven orders, the links \<open>BuddyNode\<close> that are kept in the first bytes of the free pages,
  the bitmap of free pages (bytes, as in the code), the reference counts, and the size of the
  managed memory.  Physical addresses are natural numbers below 64 GB, page indices natural
  numbers below \<open>MAX_PAGES\<close>, so neither can wrap.  What a page holds besides its links is
  its owner's; allocating a block clears it.
\<close>

definition PAGE_SIZE :: nat where "PAGE_SIZE = 4096"
definition RAM_START :: nat where "RAM_START = 0x400000"
definition RAM_END_MAX :: nat where "RAM_END_MAX = 0x1000000000"
definition PMM_BITMAP :: nat where "PMM_BITMAP = 0x600000"
definition MAX_ORDER :: nat where "MAX_ORDER = 10"
definition BUDDY_NIL :: nat where "BUDDY_NIL = 0xFFFFFFFF"
definition MAX_PAGES :: nat where "MAX_PAGES = RAM_END_MAX div PAGE_SIZE"

lemmas pmm_consts = PAGE_SIZE_def RAM_START_def RAM_END_MAX_def PMM_BITMAP_def MAX_ORDER_def
  BUDDY_NIL_def MAX_PAGES_def

record buddy_node =
  bn_prev :: nat
  bn_next :: nat

record pmm =
  heads :: "nat \<Rightarrow> nat"
  nodes :: "nat \<Rightarrow> buddy_node"
  bmp :: "nat \<Rightarrow> u8"
  refcnt :: "nat \<Rightarrow> u8"
  total_pages :: nat
  ram_end :: nat

definition idx_to_phys :: "nat \<Rightarrow> nat" where
  "idx_to_phys i = RAM_START + i * PAGE_SIZE"

definition phys_to_idx :: "nat \<Rightarrow> nat" where
  "phys_to_idx p = (p - RAM_START) div PAGE_SIZE"

section \<open>The bitmap\<close>

definition bfree_set :: "pmm \<Rightarrow> nat \<Rightarrow> pmm" where
  "bfree_set s i = s\<lparr>bmp := (bmp s)(drop_bit 3 i := bmp s (drop_bit 3 i) OR push_bit (i AND 7) 1)\<rparr>"

definition bfree_clr :: "pmm \<Rightarrow> nat \<Rightarrow> pmm" where
  "bfree_clr s i = s\<lparr>bmp := (bmp s)(drop_bit 3 i := bmp s (drop_bit 3 i) AND NOT (push_bit (i AND 7) 1))\<rparr>"

definition bfree_tst :: "pmm \<Rightarrow> nat \<Rightarrow> bool" where
  "bfree_tst s i = (drop_bit (i AND 7) (bmp s (drop_bit 3 i)) AND 1 = 1)"

fun bfree_set_range :: "pmm \<Rightarrow> nat \<Rightarrow> nat \<Rightarrow> pmm" where
  "bfree_set_range s i 0 = s"
| "bfree_set_range s i (Suc n) = bfree_set_range (bfree_set s i) (i + 1) n"

fun bfree_clr_range :: "pmm \<Rightarrow> nat \<Rightarrow> nat \<Rightarrow> pmm" where
  "bfree_clr_range s i 0 = s"
| "bfree_clr_range s i (Suc n) = bfree_clr_range (bfree_clr s i) (i + 1) n"

section \<open>The free lists\<close>

definition list_init :: "pmm \<Rightarrow> nat \<Rightarrow> pmm" where
  "list_init s o' = s\<lparr>heads := (heads s)(o' := BUDDY_NIL)\<rparr>"

definition set_prev :: "pmm \<Rightarrow> nat \<Rightarrow> nat \<Rightarrow> pmm" where
  "set_prev s i v = s\<lparr>nodes := (nodes s)(i := (nodes s i)\<lparr>bn_prev := v\<rparr>)\<rparr>"

definition set_next :: "pmm \<Rightarrow> nat \<Rightarrow> nat \<Rightarrow> pmm" where
  "set_next s i v = s\<lparr>nodes := (nodes s)(i := (nodes s i)\<lparr>bn_next := v\<rparr>)\<rparr>"

definition set_head :: "pmm \<Rightarrow> nat \<Rightarrow> nat \<Rightarrow> pmm" where
  "set_head s o' v = s\<lparr>heads := (heads s)(o' := v)\<rparr>"

definition list_push :: "pmm \<Rightarrow> nat \<Rightarrow> nat \<Rightarrow> pmm" where
  "list_push s o' idx =
     (let h = heads s o';
          s1 = set_next (set_prev s idx BUDDY_NIL) idx h;
          s2 = (if h \<noteq> BUDDY_NIL then set_prev s1 h idx else s1)
      in set_head s2 o' idx)"

definition list_remove :: "pmm \<Rightarrow> nat \<Rightarrow> nat \<Rightarrow> pmm" where
  "list_remove s o' idx =
     (let n = nodes s idx;
          s1 = (if bn_prev n \<noteq> BUDDY_NIL then set_next s (bn_prev n) (bn_next n)
                else set_head s o' (bn_next n))
      in if bn_next n \<noteq> BUDDY_NIL then set_prev s1 (bn_next n) (bn_prev n) else s1)"

definition list_pop :: "pmm \<Rightarrow> nat \<Rightarrow> nat \<times> pmm" where
  "list_pop s o' =
     (let idx = heads s o' in (idx, if idx \<noteq> BUDDY_NIL then list_remove s o' idx else s))"

section \<open>Building the lists\<close>

text \<open>The largest order, from \<open>order\<close> down, that is aligned at \<open>idx\<close> and ends in the range.\<close>

fun fit_order :: "nat \<Rightarrow> nat \<Rightarrow> nat \<Rightarrow> nat" where
  "fit_order idx lim 0 = 0"
| "fit_order idx lim (Suc k) =
     (if idx AND (2 ^ Suc k - 1) \<noteq> 0 \<or> idx + 2 ^ Suc k > lim then fit_order idx lim k else Suc k)"

function buddy_add_range :: "pmm \<Rightarrow> nat \<Rightarrow> nat \<Rightarrow> pmm" where
  "buddy_add_range s idx lim =
     (if idx < lim
      then let order = fit_order idx lim MAX_ORDER
           in buddy_add_range (list_push (bfree_set_range s idx (2 ^ order)) order idx) (idx + 2 ^ order) lim
      else s)"
  by pat_completeness auto
termination by (relation "measure (\<lambda>(s, idx, lim). lim - idx)") (auto simp: diff_less_mono2)

declare buddy_add_range.simps [simp del]

text \<open>An entry of the E820 map: base, length, type; 64-bit, so the end of a region may wrap.\<close>

record e820_entry =
  e_base :: u64
  e_len :: u64
  e_type :: u32

definition e820_highest :: "e820_entry list \<Rightarrow> u64" where
  "e820_highest map' = fold (\<lambda>e hi. if e_type e \<noteq> 1 then hi
     else if e_base e + e_len e > hi then e_base e + e_len e else hi) map' 0"

definition meta_size :: nat where
  "meta_size = (MAX_ORDER + 1) * 8 + MAX_PAGES + (MAX_PAGES + 7) div 8"

definition reserved_pages :: nat where
  "reserved_pages = (PMM_BITMAP + meta_size - RAM_START + PAGE_SIZE - 1) div PAGE_SIZE"

definition add_region :: "u64 \<Rightarrow> e820_entry \<Rightarrow> pmm \<Rightarrow> pmm" where
  "add_region highest e s =
     (if e_type e \<noteq> 1 then s
      else let end0 = e_base e + e_len e
           in if end0 \<le> of_nat RAM_START then s
              else let base0 = (if e_base e < of_nat RAM_START then of_nat RAM_START else e_base e);
                       end1 = (if end0 > highest then highest else end0);
                       base = (base0 + of_nat PAGE_SIZE - 1) AND NOT (of_nat PAGE_SIZE - 1);
                       end' = end1 AND NOT (of_nat PAGE_SIZE - 1)
                   in if base \<ge> end' then s
                      else let first = phys_to_idx (unat base); lim = phys_to_idx (unat end');
                               first1 = (if first < reserved_pages then reserved_pages else first)
                           in if first1 \<ge> lim then s else buddy_add_range s first1 lim)"

definition pmm_init :: "pmm \<Rightarrow> e820_entry list \<Rightarrow> pmm" where
  "pmm_init s map' =
     (let s1 = fold (\<lambda>o' s. list_init s o') [0..<MAX_ORDER + 1] (s\<lparr>heads := (\<lambda>_. 0), bmp := (\<lambda>_. 0), refcnt := (\<lambda>_. 0)\<rparr>);
          n = (if map' = [] \<or> length map' > 32 then [] else map');
          hi0 = (if n = [] then 0x4000000
                 else if e820_highest n < 0x4000000 then 0x4000000 else e820_highest n);
          hi = (if hi0 > of_nat RAM_END_MAX then of_nat RAM_END_MAX else hi0);
          s2 = s1\<lparr>ram_end := unat hi, total_pages := (unat hi - RAM_START) div PAGE_SIZE\<rparr>
      in if n \<noteq> [] then fold (add_region hi) n s2
         else buddy_add_range s2 reserved_pages (total_pages s2))"

section \<open>Allocating and freeing\<close>

text \<open>The first order from \<open>order\<close> on with a free block; \<open>MAX_ORDER + 1\<close> if none.\<close>

definition find_order :: "pmm \<Rightarrow> nat \<Rightarrow> nat" where
  "find_order s order = (case first_idx (\<lambda>o'. heads s o' \<noteq> BUDDY_NIL) order (MAX_ORDER + 1 - order) of
     Some o' \<Rightarrow> o' | None \<Rightarrow> MAX_ORDER + 1)"

text \<open>Splitting the block at \<open>idx\<close> from order \<open>order + k\<close> down to \<open>order\<close>.\<close>

fun split_loop :: "pmm \<Rightarrow> nat \<Rightarrow> nat \<Rightarrow> nat \<Rightarrow> pmm" where
  "split_loop s idx order 0 = s"
| "split_loop s idx order (Suc k) =
     (let bud = idx + 2 ^ (order + k)
      in split_loop (list_push (bfree_set s bud) (order + k) bud) idx order k)"

definition clear_pages :: "pmm \<Rightarrow> nat \<Rightarrow> nat \<Rightarrow> pmm" where
  "clear_pages s idx n =
     s\<lparr>nodes := (\<lambda>i. if idx \<le> i \<and> i < idx + n then \<lparr>bn_prev = 0, bn_next = 0\<rparr> else nodes s i)\<rparr>"

text \<open>\<open>oom\<close> is \<open>oom_kill\<close>, which may free memory by ending a process.\<close>

definition pmm_take :: "pmm \<Rightarrow> nat \<Rightarrow> nat \<Rightarrow> nat \<times> pmm" where
  "pmm_take s order found =
     (let (idx, s1) = list_pop s found;
          s2 = split_loop s1 idx order (found - order);
          s3 = bfree_clr_range s2 idx (2 ^ order);
          s4 = s3\<lparr>refcnt := (refcnt s3)(idx := 1)\<rparr>
      in (idx_to_phys idx, clear_pages s4 idx (2 ^ order)))"

definition pmm_alloc_order :: "(pmm \<Rightarrow> pmm) \<Rightarrow> pmm \<Rightarrow> nat \<Rightarrow> nat \<times> pmm" where
  "pmm_alloc_order oom s order =
     (if order > MAX_ORDER then (0, s)
      else if find_order s order > MAX_ORDER
      then let s1 = oom s
           in if find_order s1 order > MAX_ORDER then (0, s1) else pmm_take s1 order (find_order s1 order)
      else pmm_take s order (find_order s order))"

definition pmm_alloc :: "(pmm \<Rightarrow> pmm) \<Rightarrow> pmm \<Rightarrow> nat \<times> pmm" where
  "pmm_alloc oom s = pmm_alloc_order oom s 0"

fun order_for :: "nat \<Rightarrow> nat \<Rightarrow> nat \<Rightarrow> nat" where
  "order_for n o' 0 = o'"
| "order_for n o' (Suc k) = (if 2 ^ o' < n then order_for n (o' + 1) k else o')"

definition pmm_alloc_n :: "(pmm \<Rightarrow> pmm) \<Rightarrow> pmm \<Rightarrow> nat \<Rightarrow> nat \<times> pmm" where
  "pmm_alloc_n oom s n = pmm_alloc_order oom s (order_for n 0 MAX_ORDER)"

text \<open>Coalescing, from \<open>order\<close> on, with \<open>k\<close> orders left below \<open>MAX_ORDER\<close>.\<close>

fun free_loop :: "pmm \<Rightarrow> nat \<Rightarrow> nat \<Rightarrow> nat \<Rightarrow> nat \<times> nat \<times> pmm" where
  "free_loop s idx order 0 = (idx, order, s)"
| "free_loop s idx order (Suc k) =
     (let bud = idx XOR 2 ^ order
      in if bud \<ge> total_pages s \<or> \<not> bfree_tst s bud then (idx, order, s)
         else free_loop (bfree_clr_range (list_remove s order bud) bud (2 ^ order)) (min bud idx) (order + 1) k)"

definition pmm_free_order :: "pmm \<Rightarrow> nat \<Rightarrow> nat \<Rightarrow> pmm" where
  "pmm_free_order s phys order =
     (if phys < RAM_START \<or> phys \<ge> ram_end s then s
      else let idx = phys_to_idx phys
           in if idx \<ge> total_pages s then s
              else let (idx1, order1, s1) = free_loop s idx order (MAX_ORDER - order)
                   in list_push (bfree_set_range s1 idx1 (2 ^ order1)) order1 idx1)"

definition pmm_free :: "pmm \<Rightarrow> nat \<Rightarrow> pmm" where
  "pmm_free s phys = pmm_free_order s phys 0"

definition pmm_ref :: "pmm \<Rightarrow> nat \<Rightarrow> pmm" where
  "pmm_ref s phys =
     (if phys < RAM_START \<or> phys \<ge> ram_end s then s
      else let idx = phys_to_idx phys
           in if refcnt s idx < 255 then s\<lparr>refcnt := (refcnt s)(idx := refcnt s idx + 1)\<rparr> else s)"

definition pmm_unref :: "pmm \<Rightarrow> nat \<Rightarrow> u8 \<times> pmm" where
  "pmm_unref s phys =
     (if phys < RAM_START \<or> phys \<ge> ram_end s then (0, s)
      else let idx = phys_to_idx phys
           in if refcnt s idx = 0 then (0, s)
              else let s1 = s\<lparr>refcnt := (refcnt s)(idx := refcnt s idx - 1)\<rparr>
                   in if refcnt s1 idx = 0 then (0, pmm_free s1 phys) else (refcnt s1 idx, s1))"

definition pmm_refcount :: "pmm \<Rightarrow> nat \<Rightarrow> u8" where
  "pmm_refcount s phys =
     (if phys < RAM_START \<or> phys \<ge> ram_end s then 0 else refcnt s (phys_to_idx phys))"

definition pmm_free_pages :: "pmm \<Rightarrow> nat" where
  "pmm_free_pages s = length (filter (bfree_tst s) [0..<total_pages s])"

section \<open>Facts on the bitmap\<close>

lemma bfree_tst_bit: "bfree_tst s i \<longleftrightarrow> bit (bmp s (i div 8)) (i mod 8)"
proof -
  have "i AND 7 = i mod 8" using take_bit_eq_mask [of 3 i] by (simp add: take_bit_eq_mod mask_eq_exp_minus_1)
  moreover have "drop_bit 3 i = i div 8" by (simp add: drop_bit_eq_div)
  ultimately show ?thesis
    by (simp add: bfree_tst_def bit_iff_odd_drop_bit and_one_eq odd_iff_mod_2_eq_one)
qed

lemma byte_index: "drop_bit 3 i = i div 8" "i AND 7 = (i :: nat) mod 8"
  using take_bit_eq_mask [of 3 i] by (simp_all add: drop_bit_eq_div take_bit_eq_mod mask_eq_exp_minus_1)

lemma same_byte: "j div 8 = i div 8 \<Longrightarrow> j mod 8 = i mod 8 \<Longrightarrow> j = (i :: nat)"
  by (metis div_mult_mod_eq)

lemma bfree_tst_set [simp]: "bfree_tst (bfree_set s i) j \<longleftrightarrow> j = i \<or> bfree_tst s j"
  by (auto simp: bfree_tst_bit bfree_set_def byte_index bit_simps dest: same_byte)

lemma bfree_tst_clr [simp]: "bfree_tst (bfree_clr s i) j \<longleftrightarrow> j \<noteq> i \<and> bfree_tst s j"
  by (auto simp: bfree_tst_bit bfree_clr_def byte_index bit_simps dest: same_byte bit_imp_le_length)

lemma bfree_tst_set_range [simp]:
  "bfree_tst (bfree_set_range s i n) j \<longleftrightarrow> i \<le> j \<and> j < i + n \<or> bfree_tst s j"
  by (induction s i n rule: bfree_set_range.induct) auto

lemma bfree_tst_clr_range [simp]:
  "bfree_tst (bfree_clr_range s i n) j \<longleftrightarrow> \<not> (i \<le> j \<and> j < i + n) \<and> bfree_tst s j"
  by (induction s i n rule: bfree_clr_range.induct) auto

lemma bfree_keeps [simp]:
  "heads (bfree_set s i) = heads s" "nodes (bfree_set s i) = nodes s" "refcnt (bfree_set s i) = refcnt s"
  "total_pages (bfree_set s i) = total_pages s" "ram_end (bfree_set s i) = ram_end s"
  "heads (bfree_clr s i) = heads s" "nodes (bfree_clr s i) = nodes s" "refcnt (bfree_clr s i) = refcnt s"
  "total_pages (bfree_clr s i) = total_pages s" "ram_end (bfree_clr s i) = ram_end s"
  by (simp_all add: bfree_set_def bfree_clr_def)

lemma bfree_set_range_keeps [simp]:
  "heads (bfree_set_range s i n) = heads s \<and> nodes (bfree_set_range s i n) = nodes s \<and>
   refcnt (bfree_set_range s i n) = refcnt s \<and> total_pages (bfree_set_range s i n) = total_pages s \<and>
   ram_end (bfree_set_range s i n) = ram_end s"
  by (induction s i n rule: bfree_set_range.induct) simp_all

lemma bfree_clr_range_keeps [simp]:
  "heads (bfree_clr_range s i n) = heads s \<and> nodes (bfree_clr_range s i n) = nodes s \<and>
   refcnt (bfree_clr_range s i n) = refcnt s \<and> total_pages (bfree_clr_range s i n) = total_pages s \<and>
   ram_end (bfree_clr_range s i n) = ram_end s"
  by (induction s i n rule: bfree_clr_range.induct) simp_all

lemma list_ops_keep [simp]:
  "bmp (list_push s o' i) = bmp s" "total_pages (list_push s o' i) = total_pages s"
  "ram_end (list_push s o' i) = ram_end s" "refcnt (list_push s o' i) = refcnt s"
  "bmp (list_remove s o' i) = bmp s" "total_pages (list_remove s o' i) = total_pages s"
  "ram_end (list_remove s o' i) = ram_end s" "refcnt (list_remove s o' i) = refcnt s"
  by (simp_all add: list_push_def list_remove_def Let_def set_prev_def set_next_def set_head_def)

lemma bfree_tst_lists [simp]:
  "bfree_tst (list_push s o' i) j = bfree_tst s j" "bfree_tst (list_remove s o' i) j = bfree_tst s j"
  by (simp_all add: bfree_tst_bit)

section \<open>Facts on the lists\<close>

text \<open>The pages \<open>xs\<close> are linked in this order from \<open>f\<close> on, with \<open>p\<close> before the first.\<close>

fun chain :: "(nat \<Rightarrow> buddy_node) \<Rightarrow> nat \<Rightarrow> nat \<Rightarrow> nat list \<Rightarrow> bool" where
  "chain nd p f [] \<longleftrightarrow> f = BUDDY_NIL"
| "chain nd p f (x # xs) \<longleftrightarrow> f = x \<and> x \<noteq> BUDDY_NIL \<and> bn_prev (nd x) = p \<and> chain nd x (bn_next (nd x)) xs"

lemma chain_cong: "(\<And>x. x \<in> set xs \<Longrightarrow> nd x = nd' x) \<Longrightarrow> chain nd p f xs = chain nd' p f xs"
  by (induction xs arbitrary: p f) auto

lemma chain_head: "chain nd p f xs \<Longrightarrow> (f = BUDDY_NIL \<longleftrightarrow> xs = []) \<and> (xs \<noteq> [] \<longrightarrow> f = hd xs)"
  by (cases xs) auto

lemma chain_not_nil: "chain nd p f xs \<Longrightarrow> x \<in> set xs \<Longrightarrow> x \<noteq> BUDDY_NIL"
  by (induction xs arbitrary: p f) auto

lemma chain_push:
  assumes "chain (nodes s) BUDDY_NIL (heads s o') xs" "i \<notin> set xs" "distinct xs" "i \<noteq> BUDDY_NIL"
  shows "chain (nodes (list_push s o' i)) BUDDY_NIL (heads (list_push s o' i) o') (i # xs)"
proof (cases xs)
  case Nil
  then show ?thesis using assms by (simp add: list_push_def Let_def set_prev_def set_next_def set_head_def)
next
  case (Cons y ys)
  define nd where "nd = nodes (list_push s o' i)"
  have nd: "nd i = \<lparr>bn_prev = BUDDY_NIL, bn_next = y\<rparr>" "nd y = (nodes s y)\<lparr>bn_prev := i\<rparr>"
      "\<And>x. x \<in> set ys \<Longrightarrow> nd x = nodes s x"
    unfolding nd_def using assms Cons by (auto simp: list_push_def Let_def set_prev_def set_next_def set_head_def)
  have h: "heads (list_push s o' i) o' = i" by (simp add: list_push_def Let_def set_head_def)
  have "chain nd y (bn_next (nd y)) ys = chain (nodes s) y (bn_next (nodes s y)) ys"
    using nd by (simp add: chain_cong [of ys nd "nodes s"])
  then show ?thesis unfolding nd_def [symmetric] h using assms Cons nd by auto
qed

lemma push_other:
  assumes "chain (nodes s) BUDDY_NIL (heads s o2) ys" "o2 \<noteq> o'" "i \<notin> set ys"
    and "chain (nodes s) BUDDY_NIL (heads s o') xs" "set xs \<inter> set ys = {}"
  shows "chain (nodes (list_push s o' i)) BUDDY_NIL (heads (list_push s o' i) o2) ys"
proof -
  have h: "heads (list_push s o' i) o2 = heads s o2"
    using assms(2) by (auto simp: list_push_def Let_def set_head_def set_prev_def set_next_def)
  have "nodes (list_push s o' i) x = nodes s x" if "x \<in> set ys" for x
  proof -
    have "x \<noteq> heads s o' \<or> heads s o' = BUDDY_NIL"
      using assms(4,5) that chain_head [OF assms(4)] by (cases xs) auto
    then show ?thesis using assms(3) that
      by (auto simp: list_push_def Let_def set_head_def set_prev_def set_next_def)
  qed
  then show ?thesis unfolding h using assms(1) chain_cong by blast
qed

text \<open>The first part of a list, up to the page \<open>m\<close> after it.\<close>

fun seg :: "(nat \<Rightarrow> buddy_node) \<Rightarrow> nat \<Rightarrow> nat \<Rightarrow> nat list \<Rightarrow> nat \<Rightarrow> bool" where
  "seg nd p f [] m \<longleftrightarrow> f = m"
| "seg nd p f (x # xs) m \<longleftrightarrow> f = x \<and> x \<noteq> BUDDY_NIL \<and> bn_prev (nd x) = p \<and> seg nd x (bn_next (nd x)) xs m"

definition last_or :: "nat \<Rightarrow> nat list \<Rightarrow> nat" where
  "last_or p xs = (if xs = [] then p else last xs)"

lemma chain_append: "chain nd p f (ys @ zs) \<longleftrightarrow> (\<exists>m. seg nd p f ys m \<and> chain nd (last_or p ys) m zs)"
  by (induction ys arbitrary: p f) (auto simp: last_or_def)

lemma seg_append: "seg nd p f (ys @ zs) m \<longleftrightarrow> (\<exists>k. seg nd p f ys k \<and> seg nd (last_or p ys) k zs m)"
  by (induction ys arbitrary: p f) (auto simp: last_or_def)

lemma seg_cong: "(\<And>x. x \<in> set xs \<Longrightarrow> nd x = nd' x) \<Longrightarrow> seg nd p f xs m = seg nd' p f xs m"
  by (induction xs arbitrary: p f) auto

lemma chain_remove:
  assumes ch: "chain (nodes s) BUDDY_NIL (heads s o') (ys @ i # zs)" and d: "distinct (ys @ i # zs)"
  shows "chain (nodes (list_remove s o' i)) BUDDY_NIL (heads (list_remove s o' i) o') (ys @ zs)"
    and "\<And>x. x \<notin> set (ys @ zs) \<Longrightarrow> nodes (list_remove s o' i) x = nodes s x"
    and "\<And>o2. o2 \<noteq> o' \<Longrightarrow> heads (list_remove s o' i) o2 = heads s o2"
proof -
  let ?p = "last_or BUDDY_NIL ys" and ?n = "bn_next (nodes s i)"
  define nd where "nd = nodes (list_remove s o' i)"
  define h where "h = heads (list_remove s o' i)"
  have sg: "seg (nodes s) BUDDY_NIL (heads s o') ys i" and pi: "bn_prev (nodes s i) = ?p"
      and cz: "chain (nodes s) i ?n zs" and inil: "i \<noteq> BUDDY_NIL"
    using ch unfolding chain_append by auto
  have ynil: "y \<noteq> BUDDY_NIL" if "y \<in> set (ys @ zs)" for y using chain_not_nil [OF ch] that by auto
  have pc: "?p = BUDDY_NIL \<longleftrightarrow> ys = []" using ynil by (auto simp: last_or_def dest: last_in_set)
  have nc: "?n = BUDDY_NIL \<longleftrightarrow> zs = []" "zs \<noteq> [] \<Longrightarrow> ?n = hd zs" using chain_head [OF cz] by auto
  have lp: "ys \<noteq> [] \<Longrightarrow> ?p \<in> set ys" by (simp add: last_or_def)
  have pn: "zs \<noteq> [] \<Longrightarrow> ?p \<noteq> ?n" using d ynil nc by (cases zs; cases "ys = []") (auto simp: last_or_def dest: last_in_set)
  have nds: "nd x = (if x = ?p \<and> ys \<noteq> [] then (nodes s x)\<lparr>bn_next := ?n\<rparr>
      else if x = ?n \<and> zs \<noteq> [] then (nodes s x)\<lparr>bn_prev := ?p\<rparr> else nodes s x)" for x
    using pc nc pn unfolding nd_def
    by (auto simp: list_remove_def Let_def pi set_prev_def set_next_def set_head_def)
  have hs: "h o2 = (if o2 = o' \<and> ys = [] then ?n else heads s o2)" for o2
    using pc unfolding h_def by (auto simp: list_remove_def Let_def pi set_prev_def set_next_def set_head_def)
  have zeq: "chain nd ?p ?n zs"
  proof (cases zs)
    case (Cons z zs')
    have nz: "?n = z" using nc Cons by simp
    have "nd x = nodes s x" if "x \<in> set zs'" for x
    proof -
      have "x \<noteq> ?n" "ys \<noteq> [] \<Longrightarrow> x \<noteq> ?p" using d that lp Cons nz by auto
      then show ?thesis by (auto simp: nds)
    qed
    then have "chain nd z (bn_next (nodes s z)) zs'"
      using cz unfolding Cons chain.simps by (metis chain_cong)
    moreover have "nd z = (nodes s z)\<lparr>bn_prev := ?p\<rparr>" using pn nc Cons by (simp add: nds)
    ultimately show ?thesis using cz Cons by auto
  qed (use nc in simp)
  have yeq: "seg nd BUDDY_NIL (h o') ys ?n"
  proof (cases ys rule: rev_cases)
    case (snoc ws w)
    have w: "?p = w" using snoc by (simp add: last_or_def)
    have "nd x = nodes s x" if "x \<in> set ws" for x
    proof -
      have "x \<noteq> ?p" "zs \<noteq> [] \<Longrightarrow> x \<noteq> ?n" using d snoc that nc w by (auto dest: hd_in_set)
      then show ?thesis by (auto simp: nds)
    qed
    then have "seg nd BUDDY_NIL (h o') ws k \<longleftrightarrow> seg (nodes s) BUDDY_NIL (heads s o') ws k" for k
      using seg_cong [of ws nd "nodes s"] snoc by (simp add: hs)
    then show ?thesis using sg w unfolding snoc seg_append by (auto simp: nds snoc)
  qed (simp add: hs)
  show "chain (nodes (list_remove s o' i)) BUDDY_NIL (heads (list_remove s o' i) o') (ys @ zs)"
    unfolding chain_append nd_def [symmetric] h_def [symmetric] using yeq zeq by blast
  show "nodes (list_remove s o' i) x = nodes s x" if "x \<notin> set (ys @ zs)" for x
  proof -
    have "\<not> (x = ?p \<and> ys \<noteq> [])" "\<not> (x = ?n \<and> zs \<noteq> [])" using that lp nc(2) by (auto, cases zs, auto)
    then show ?thesis unfolding nd_def [symmetric] nds by (simp only: if_False)
  qed
  show "heads (list_remove s o' i) o2 = heads s o2" if "o2 \<noteq> o'" for o2
    using that unfolding h_def [symmetric] by (simp add: hs)
qed

section \<open>The invariant\<close>

text \<open>
  \<open>L\<close> lists the free blocks of each order.  The blocks are aligned, lie in the managed
  memory and do not overlap, every list is well linked, and the bitmap marks exactly the pages
  of the blocks and those of \<open>C\<close>, the block an operation is working on.
\<close>

definition blk :: "nat \<Rightarrow> nat \<Rightarrow> nat set" where
  "blk o' x = {x..<x + 2 ^ o'}"

definition free_set :: "(nat \<Rightarrow> nat list) \<Rightarrow> nat set" where
  "free_set L = (\<Union>o' \<le> MAX_ORDER. \<Union>x \<in> set (L o'). blk o' x)"

definition blocks_ok :: "pmm \<Rightarrow> (nat \<Rightarrow> nat list) \<Rightarrow> bool" where
  "blocks_ok s L \<longleftrightarrow>
     (\<forall>o' \<le> MAX_ORDER. distinct (L o') \<and> chain (nodes s) BUDDY_NIL (heads s o') (L o') \<and>
        (\<forall>x \<in> set (L o'). 2 ^ o' dvd x \<and> x + 2 ^ o' \<le> total_pages s)) \<and>
     (\<forall>o1 \<le> MAX_ORDER. \<forall>o2 \<le> MAX_ORDER. \<forall>x \<in> set (L o1). \<forall>y \<in> set (L o2).
        (o1, x) \<noteq> (o2, y) \<longrightarrow> blk o1 x \<inter> blk o2 y = {}) \<and>
     total_pages s < BUDDY_NIL"

definition part_inv :: "pmm \<Rightarrow> (nat \<Rightarrow> nat list) \<Rightarrow> nat set \<Rightarrow> bool" where
  "part_inv s L C \<longleftrightarrow> blocks_ok s L \<and> (\<forall>i. bfree_tst s i \<longleftrightarrow> i \<in> free_set L \<union> C)"

abbreviation pmm_inv :: "pmm \<Rightarrow> (nat \<Rightarrow> nat list) \<Rightarrow> bool" where
  "pmm_inv s L \<equiv> part_inv s L {}"

lemma blk_self: "x \<in> blk o' x"
  by (simp add: blk_def)

lemma free_set_member: "o' \<le> MAX_ORDER \<Longrightarrow> x \<in> set (L o') \<Longrightarrow> blk o' x \<subseteq> free_set L"
  by (auto simp: free_set_def)

lemma mem_free_set: "x \<in> free_set L \<longleftrightarrow> (\<exists>o2 \<le> MAX_ORDER. \<exists>y \<in> set (L o2). x \<in> blk o2 y)"
  by (auto simp: free_set_def)

lemma blocks_disj:
  "blocks_ok s L \<Longrightarrow> o1 \<le> MAX_ORDER \<Longrightarrow> o2 \<le> MAX_ORDER \<Longrightarrow> x \<in> set (L o1) \<Longrightarrow> y \<in> set (L o2) \<Longrightarrow>
   (o1, x) \<noteq> (o2, y) \<Longrightarrow> blk o1 x \<inter> blk o2 y = {}"
  by (simp add: blocks_ok_def)

lemma blocks_cong:
  assumes "blocks_ok s L" "heads s' = heads s" "total_pages s' = total_pages s"
    and "\<And>o' x. o' \<le> MAX_ORDER \<Longrightarrow> x \<in> set (L o') \<Longrightarrow> nodes s' x = nodes s x"
  shows "blocks_ok s' L"
proof -
  have "chain (nodes s') BUDDY_NIL (heads s o') (L o') = chain (nodes s) BUDDY_NIL (heads s o') (L o')"
    if "o' \<le> MAX_ORDER" for o' using assms(4) [OF that] by (rule chain_cong)
  then show ?thesis using assms(1-3) by (simp add: blocks_ok_def)
qed

lemma lists_disj:
  assumes "blocks_ok s L" "o' \<le> MAX_ORDER" "o2 \<le> MAX_ORDER" "o2 \<noteq> o'"
  shows "set (L o') \<inter> set (L o2) = {}"
proof (rule ccontr)
  assume "set (L o') \<inter> set (L o2) \<noteq> {}"
  then obtain x where "x \<in> set (L o')" "x \<in> set (L o2)" by blast
  then show False using blocks_disj [OF assms(1-3)] assms(4) blk_self [of x] by fast
qed

lemma push_blocks:
  assumes b: "blocks_ok s L" and o': "o' \<le> MAX_ORDER" and fresh: "blk o' i \<inter> free_set L = {}"
    and al: "2 ^ o' dvd i" "i + 2 ^ o' \<le> total_pages s"
  shows "blocks_ok (list_push s o' i) (L(o' := i # L o'))"
    and "free_set (L(o' := i # L o')) = free_set L \<union> blk o' i"
proof -
  let ?L = "L(o' := i # L o')"
  have inil: "i \<noteq> BUDDY_NIL" using b al by (auto simp: blocks_ok_def)
  have notin: "i \<notin> set (L o2)" if "o2 \<le> MAX_ORDER" for o2
    using fresh free_set_member [of o2 i L] that blk_self by blast
  have dis: "blk o2 y \<inter> blk o' i = {}" if "o2 \<le> MAX_ORDER" "y \<in> set (L o2)" for o2 y
    using fresh free_set_member [of o2 y L] that by blast
  have disj: "set (L o') \<inter> set (L o2) = {}" if "o2 \<le> MAX_ORDER" "o2 \<noteq> o'" for o2
    using lists_disj [OF b o' that] .
  have ch: "chain (nodes (list_push s o' i)) BUDDY_NIL (heads (list_push s o' i) o2) (?L o2)" if "o2 \<le> MAX_ORDER" for o2
  proof (cases "o2 = o'")
    case True
    then show ?thesis using chain_push [of s o' "L o'" i] b o' notin inil by (simp add: blocks_ok_def)
  next
    case False
    then show ?thesis
      using push_other [of s o2 "L o2" o' i "L o'"] b o' that notin disj [OF that False] by (simp add: blocks_ok_def)
  qed
  have "\<forall>o1 \<le> MAX_ORDER. \<forall>o2 \<le> MAX_ORDER. \<forall>x \<in> set (?L o1). \<forall>y \<in> set (?L o2).
      (o1, x) \<noteq> (o2, y) \<longrightarrow> blk o1 x \<inter> blk o2 y = {}"
  proof (intro allI impI ballI)
    fix o1 o2 x y
    assume a: "o1 \<le> MAX_ORDER" "o2 \<le> MAX_ORDER" "x \<in> set (?L o1)" "y \<in> set (?L o2)" "(o1, x) \<noteq> (o2, y)"
    then have "(o1, x) = (o', i) \<or> x \<in> set (L o1)" "(o2, y) = (o', i) \<or> y \<in> set (L o2)" by (auto split: if_splits)
    then show "blk o1 x \<inter> blk o2 y = {}"
      using a dis blocks_disj [OF b a(1,2)] by (metis Int_commute prod.inject)
  qed
  then show "blocks_ok (list_push s o' i) ?L"
    using b ch al notin o' unfolding blocks_ok_def by (auto split: if_splits)
  show "free_set ?L = free_set L \<union> blk o' i"
  proof (rule set_eqI, unfold Un_iff mem_free_set, safe)
    fix x o2 y assume "o2 \<le> MAX_ORDER" "y \<in> set (?L o2)" "x \<in> blk o2 y" "x \<notin> blk o' i"
    then show "\<exists>o2 \<le> MAX_ORDER. \<exists>y \<in> set (L o2). x \<in> blk o2 y" by (cases "o2 = o'") auto
  next
    fix x o2 y assume "o2 \<le> MAX_ORDER" "y \<in> set (L o2)" "x \<in> blk o2 y"
    then show "\<exists>o2 \<le> MAX_ORDER. \<exists>y \<in> set (?L o2). x \<in> blk o2 y" by (intro exI [of _ o2]) auto
  next
    fix x assume "x \<in> blk o' i"
    then show "\<exists>o2 \<le> MAX_ORDER. \<exists>y \<in> set (?L o2). x \<in> blk o2 y" using o' by (intro exI [of _ o']) auto
  qed
qed

lemma push_nodes:
  assumes b: "blocks_ok s L" and o': "o' \<le> MAX_ORDER" and x: "x \<noteq> i" "x \<notin> set (L o')"
  shows "nodes (list_push s o' i) x = nodes s x"
proof -
  have "chain (nodes s) BUDDY_NIL (heads s o') (L o')" using b o' by (simp add: blocks_ok_def)
  then have "heads s o' = BUDDY_NIL \<or> heads s o' \<in> set (L o')" using chain_head by (cases "L o'") auto
  then have "heads s o' \<noteq> BUDDY_NIL \<Longrightarrow> x \<noteq> heads s o'" using x(2) by auto
  then show ?thesis using x(1) by (auto simp: list_push_def Let_def set_prev_def set_next_def set_head_def)
qed

lemma remove_blocks:
  assumes b: "blocks_ok s L" and o': "o' \<le> MAX_ORDER" and i: "i \<in> set (L o')"
  shows "blocks_ok (list_remove s o' i) (L(o' := remove1 i (L o')))"
    and "free_set (L(o' := remove1 i (L o'))) = free_set L - blk o' i"
    and "\<And>x. x \<notin> set (L o') \<Longrightarrow> nodes (list_remove s o' i) x = nodes s x"
proof -
  let ?L = "L(o' := remove1 i (L o'))"
  obtain ys zs where sp: "L o' = ys @ i # zs" using i by (meson split_list)
  have d: "distinct (L o')" using b o' by (simp add: blocks_ok_def)
  have r: "remove1 i (L o') = ys @ zs" using d sp by (simp add: remove1_append)
  have cs: "chain (nodes s) BUDDY_NIL (heads s o') (ys @ i # zs)" using b o' unfolding sp [symmetric] blocks_ok_def by blast
  note R = chain_remove [OF cs d [unfolded sp]]
  show "nodes (list_remove s o' i) x = nodes s x" if "x \<notin> set (L o')" for x
    using R(2) [of x] that sp by simp
  have disj: "set (L o') \<inter> set (L o2) = {}" if "o2 \<le> MAX_ORDER" "o2 \<noteq> o'" for o2
    using lists_disj [OF b o' that] .
  have ch: "chain (nodes (list_remove s o' i)) BUDDY_NIL (heads (list_remove s o' i) o2) (?L o2)" if "o2 \<le> MAX_ORDER" for o2
  proof (cases "o2 = o'")
    case True
    then show ?thesis using R(1) r by simp
  next
    case False
    have "nodes (list_remove s o' i) x = nodes s x" if "x \<in> set (L o2)" for x
      using R(2) [of x] disj [OF \<open>o2 \<le> MAX_ORDER\<close> False] that sp by auto
    then have "chain (nodes (list_remove s o' i)) BUDDY_NIL (heads s o2) (L o2) = chain (nodes s) BUDDY_NIL (heads s o2) (L o2)"
      by (rule chain_cong)
    then show ?thesis using False that b R(3) [OF False] by (simp add: blocks_ok_def)
  qed
  have sub: "set (?L o2) \<subseteq> set (L o2)" "distinct (?L o2)" if "o2 \<le> MAX_ORDER" for o2
    using b that by (auto simp: blocks_ok_def dest: notin_set_remove1)
  have "\<forall>o1 \<le> MAX_ORDER. \<forall>o2 \<le> MAX_ORDER. \<forall>x \<in> set (?L o1). \<forall>y \<in> set (?L o2).
      (o1, x) \<noteq> (o2, y) \<longrightarrow> blk o1 x \<inter> blk o2 y = {}"
    using b sub(1) unfolding blocks_ok_def by (meson subsetD)
  then show "blocks_ok (list_remove s o' i) ?L"
    using b ch sub unfolding blocks_ok_def list_ops_keep by (meson subsetD)
  have notother: "blk o2 y \<inter> blk o' i = {}" if "o2 \<le> MAX_ORDER" "y \<in> set (L o2)" "(o2, y) \<noteq> (o', i)" for o2 y
    using blocks_disj [OF b that(1) o' that(2) i that(3)] .
  have "x \<in> free_set ?L \<longleftrightarrow> x \<in> free_set L - blk o' i" for x
  proof
    assume "x \<in> free_set ?L"
    then obtain o2 y where y: "o2 \<le> MAX_ORDER" "y \<in> set (?L o2)" "x \<in> blk o2 y" by (auto simp: free_set_def simp del: fun_upd_apply)
    then have "(o2, y) \<noteq> (o', i)" using d by auto
    then show "x \<in> free_set L - blk o' i" using y sub(1) notother free_set_member by blast
  next
    assume a: "x \<in> free_set L - blk o' i"
    then obtain o2 y where y: "o2 \<le> MAX_ORDER" "y \<in> set (L o2)" "x \<in> blk o2 y" by (auto simp: free_set_def)
    then have "(o2, y) \<noteq> (o', i)" using a by auto
    then have "y \<in> set (?L o2)" using y d by auto
    then show "x \<in> free_set ?L" using y free_set_member by blast
  qed
  then show "free_set ?L = free_set L - blk o' i" by blast
qed

section \<open>Allocation\<close>

lemma blk_split: "blk (Suc k) i = blk k i \<union> blk k (i + 2 ^ k)" "blk k i \<inter> blk k (i + 2 ^ k) = {}"
  by (auto simp: blk_def)

lemma split_loop_inv:
  assumes "part_inv s L (blk (order + k) idx)" "order + k \<le> MAX_ORDER" "blk (order + k) idx \<inter> free_set L = {}"
    and "2 ^ (order + k) dvd idx" "idx + 2 ^ (order + k) \<le> total_pages s"
  shows "\<exists>L'. part_inv (split_loop s idx order k) L' (blk order idx) \<and> blk order idx \<inter> free_set L' = {} \<and>
    free_set L' \<union> blk order idx = free_set L \<union> blk (order + k) idx \<and>
    total_pages (split_loop s idx order k) = total_pages s \<and> ram_end (split_loop s idx order k) = ram_end s \<and>
    refcnt (split_loop s idx order k) = refcnt s \<and>
    (\<forall>x. x \<notin> free_set L \<union> blk (order + k) idx \<longrightarrow> nodes (split_loop s idx order k) x = nodes s x)"
  using assms
proof (induction k arbitrary: s L)
  case (Suc k)
  let ?o = "order + k"
  let ?bud = "idx + 2 ^ ?o"
  let ?s1 = "list_push (bfree_set s ?bud) ?o ?bud"
  have sp: "blk (order + Suc k) idx = blk ?o idx \<union> blk ?o ?bud" "blk ?o idx \<inter> blk ?o ?bud = {}"
    using blk_split [of ?o idx] by simp_all
  have al: "2 ^ ?o dvd ?bud" "?bud + 2 ^ ?o \<le> total_pages s" "2 ^ ?o dvd idx" "idx + 2 ^ ?o \<le> total_pages s"
  proof -
    have "2 ^ ?o dvd (2 :: nat) ^ (order + Suc k)" by (rule le_imp_power_dvd) simp
    then show "2 ^ ?o dvd idx" using Suc.prems(4) dvd_trans by blast
    then show "2 ^ ?o dvd ?bud" by simp
    show "?bud + 2 ^ ?o \<le> total_pages s" "idx + 2 ^ ?o \<le> total_pages s" using Suc.prems(5) by simp_all
  qed
  have b: "blocks_ok (bfree_set s ?bud) L" using Suc.prems(1) by (simp add: part_inv_def blocks_ok_def)
  have fr: "blk ?o ?bud \<inter> free_set L = {}" using Suc.prems(3) sp by blast
  have o': "?o \<le> MAX_ORDER" using Suc.prems(2) by simp
  let ?L = "L(?o := ?bud # L ?o)"
  note P = push_blocks [OF b o' fr al(1)]
  have p1: "part_inv ?s1 ?L (blk ?o idx)"
    using P al(2) Suc.prems(1) sp blk_self [of ?bud ?o] unfolding part_inv_def by auto
  have d1: "blk ?o idx \<inter> free_set ?L = {}" using P al(2) Suc.prems(3) sp by auto
  have t1: "idx + 2 ^ ?o \<le> total_pages ?s1" using al(4) by simp
  have k1: "total_pages ?s1 = total_pages s" "ram_end ?s1 = ram_end s" "refcnt ?s1 = refcnt s" by simp_all
  have fs: "free_set ?L \<union> blk ?o idx = free_set L \<union> blk (order + Suc k) idx" using P al(2) sp by auto
  have nd: "nodes ?s1 x = nodes s x" if "x \<notin> free_set L \<union> blk (order + Suc k) idx" for x
    using push_nodes [OF b o', of x ?bud] that blk_self [of ?bud ?o] blk_self [of x ?o] sp(1) free_set_member [OF o', of x L] by auto
  have sl: "split_loop s idx order (Suc k) = split_loop ?s1 idx order k" by (simp add: Let_def)
  from Suc.IH [OF p1 o' d1 al(3) t1, unfolded k1 fs] show ?case
    unfolding sl by (elim exE conjE, intro exI conjI) (assumption | use nd in simp)+
qed auto

lemma find_order_some:
  assumes "pmm_inv s L" "\<exists>o'. order \<le> o' \<and> o' \<le> MAX_ORDER \<and> L o' \<noteq> []"
  shows "order \<le> find_order s order \<and> find_order s order \<le> MAX_ORDER \<and> L (find_order s order) \<noteq> []"
proof -
  have h: "heads s o' \<noteq> BUDDY_NIL \<longleftrightarrow> L o' \<noteq> []" if "o' \<le> MAX_ORDER" for o'
    using assms(1) that chain_head unfolding part_inv_def blocks_ok_def by blast
  let ?P = "\<lambda>o'. heads s o' \<noteq> BUDDY_NIL"
  obtain o1 where o1: "order \<le> o1" "o1 \<le> MAX_ORDER" "?P o1" using assms(2) h by blast
  then have "first_idx ?P order (MAX_ORDER + 1 - order) \<noteq> None" unfolding first_idx_None by auto
  then obtain o2 where o2: "first_idx ?P order (MAX_ORDER + 1 - order) = Some o2" by blast
  then have "order \<le> o2 \<and> o2 < order + (MAX_ORDER + 1 - order) \<and> ?P o2" unfolding first_idx_Some by blast
  then show ?thesis using o1 o2 h [of o2] by (simp add: find_order_def)
qed

lemma pmm_take_inv:
  assumes inv: "pmm_inv s L" and f: "order \<le> found" "found \<le> MAX_ORDER" "L found \<noteq> []"
  shows "\<exists>idx s' L'. pmm_take s order found = (idx_to_phys idx, s') \<and> pmm_inv s' L' \<and> 2 ^ order dvd idx \<and>
    idx + 2 ^ order \<le> total_pages s \<and> blk order idx \<subseteq> free_set L \<and> free_set L' = free_set L - blk order idx \<and>
    refcnt s' = (refcnt s)(idx := 1) \<and> total_pages s' = total_pages s \<and> ram_end s' = ram_end s \<and>
    (\<forall>x. x \<notin> free_set L \<longrightarrow> nodes s' x = nodes s x)"
proof -
  let ?i = "hd (L found)" and ?k = "found - order"
  have b: "blocks_ok s L" using inv by (simp add: part_inv_def)
  have hd: "heads s found = ?i" "?i \<noteq> BUDDY_NIL" "?i \<in> set (L found)"
    using b f chain_head unfolding blocks_ok_def by (auto dest!: spec [of _ found])
  let ?s1 = "list_remove s found ?i" and ?L1 = "L(found := remove1 ?i (L found))"
  note R = remove_blocks [OF b f(2) hd(3)]
  have al: "2 ^ found dvd ?i" "?i + 2 ^ found \<le> total_pages s" using b f(2) hd(3) by (auto simp: blocks_ok_def)
  have sub: "blk found ?i \<subseteq> free_set L" using free_set_member f(2) hd(3) by blast
  have p1: "part_inv ?s1 ?L1 (blk (order + ?k) ?i)"
    using R inv f(1) sub unfolding part_inv_def by auto
  have d1: "blk (order + ?k) ?i \<inter> free_set ?L1 = {}" using R f(1) by auto
  obtain L' where S: "part_inv (split_loop ?s1 ?i order ?k) L' (blk order ?i)" "blk order ?i \<inter> free_set L' = {}"
      "free_set L' \<union> blk order ?i = free_set ?L1 \<union> blk (order + ?k) ?i"
      "total_pages (split_loop ?s1 ?i order ?k) = total_pages s" "ram_end (split_loop ?s1 ?i order ?k) = ram_end s"
      "refcnt (split_loop ?s1 ?i order ?k) = refcnt s"
      "\<forall>x. x \<notin> free_set ?L1 \<union> blk (order + ?k) ?i \<longrightarrow> nodes (split_loop ?s1 ?i order ?k) x = nodes ?s1 x"
    using split_loop_inv [OF p1 _ d1] al f by auto
  let ?s2 = "split_loop ?s1 ?i order ?k"
  let ?s3 = "bfree_clr_range ?s2 ?i (2 ^ order)"
  let ?s5 = "clear_pages (?s3\<lparr>refcnt := (refcnt ?s3)(?i := 1)\<rparr>) ?i (2 ^ order)"
  have tk: "pmm_take s order found = (idx_to_phys ?i, ?s5)"
    using hd by (simp add: pmm_take_def list_pop_def Let_def)
  have nds: "nodes ?s5 x = nodes ?s2 x" if "o' \<le> MAX_ORDER" "x \<in> set (L' o')" for o' x
  proof -
    have "x \<notin> blk order ?i" using S(2) free_set_member [of o' x L'] that blk_self by blast
    then show ?thesis by (auto simp: clear_pages_def blk_def)
  qed
  have "blocks_ok ?s5 L'"
    by (rule blocks_cong [OF _ _ _ nds]) (use S(1) in \<open>auto simp: part_inv_def clear_pages_def\<close>)
  moreover have "bfree_tst ?s5 j \<longleftrightarrow> j \<in> free_set L'" for j
  proof -
    have "bfree_tst ?s5 j \<longleftrightarrow> bfree_tst ?s3 j" by (simp add: bfree_tst_bit clear_pages_def)
    also have "\<dots> \<longleftrightarrow> j \<notin> blk order ?i \<and> bfree_tst ?s2 j" by (simp add: blk_def)
    finally show ?thesis using S(1,2) unfolding part_inv_def by blast
  qed
  ultimately have inv': "pmm_inv ?s5 L'" by (simp add: part_inv_def)
  have eq: "free_set L' = free_set L - blk order ?i" "blk order ?i \<subseteq> free_set L"
    using S(2,3) R(2) sub f(1) by auto
  have "2 ^ order dvd ?i" using al(1) f(1) by (meson dvd_trans le_imp_power_dvd)
  moreover have "?i + 2 ^ order \<le> total_pages s"
  proof -
    have "2 ^ order \<le> (2 :: nat) ^ found" using f(1) by (intro power_increasing) auto
    then show ?thesis using al(2) by linarith
  qed
  moreover have "nodes ?s5 x = nodes s x" if "x \<notin> free_set L" for x
  proof -
    have "x \<notin> set (L found)" "x \<notin> blk order ?i" using that free_set_member [OF f(2), of x L] blk_self [of x found] eq(2) by auto
    then have "nodes ?s5 x = nodes ?s2 x" by (auto simp: clear_pages_def blk_def)
    moreover have "x \<notin> free_set ?L1 \<union> blk (order + ?k) ?i" using that R(2) sub f(1) by auto
    ultimately show ?thesis using S(7) R(3) [of x] \<open>x \<notin> set (L found)\<close> by metis
  qed
  ultimately show ?thesis using tk inv' eq S(4-6)
    by (intro exI [of _ ?i] exI [of _ ?s5] exI [of _ L']) (simp add: clear_pages_def)
qed

text \<open>
  C6. Allocation.  Whenever some free list from the requested order up has a block,
  \<open>pmm_alloc_order\<close> returns a block of that order: aligned to its size, inside the managed
  memory, made of pages that were free; afterwards exactly its pages have left the free set, the
  invariant on the lists and the bitmap holds, and the reference count of the block is 1.
\<close>

theorem pmm_alloc_order_correct:
  assumes "pmm_inv s L" "\<exists>o'. order \<le> o' \<and> o' \<le> MAX_ORDER \<and> L o' \<noteq> []"
  shows "\<exists>idx s' L'. pmm_alloc_order oom s order = (idx_to_phys idx, s') \<and> pmm_inv s' L' \<and> 2 ^ order dvd idx \<and>
    idx + 2 ^ order \<le> total_pages s \<and> blk order idx \<subseteq> free_set L \<and> free_set L' = free_set L - blk order idx \<and>
    refcnt s' = (refcnt s)(idx := 1) \<and> total_pages s' = total_pages s \<and> ram_end s' = ram_end s"
proof -
  note F = find_order_some [OF assms]
  then have "order \<le> MAX_ORDER" by simp
  then have "pmm_alloc_order oom s order = pmm_take s order (find_order s order)"
    using F by (simp add: pmm_alloc_order_def)
  then show ?thesis using pmm_take_inv [OF assms(1), of order "find_order s order"] F by (simp only:) blast
qed

section \<open>Freeing\<close>

text \<open>
  The condition the coalescing loop relies on: at each order, a buddy whose first page is free
  is itself a free block of that order.  The code only tests the bit of the first page.
\<close>

definition buddy_at :: "nat \<Rightarrow> nat \<Rightarrow> nat" where
  "buddy_at idx o' = (idx div 2 ^ o' * 2 ^ o') XOR 2 ^ o'"

definition whole_buddies :: "pmm \<Rightarrow> (nat \<Rightarrow> nat list) \<Rightarrow> nat \<Rightarrow> nat \<Rightarrow> bool" where
  "whole_buddies s L idx order \<longleftrightarrow>
     (\<forall>o' \<in> {order..<MAX_ORDER}. buddy_at idx o' < total_pages s \<longrightarrow> buddy_at idx o' \<in> free_set L \<longrightarrow>
        buddy_at idx o' \<in> set (L o'))"

lemma xor_bit:
  fixes idx :: nat
  assumes "2 ^ k dvd idx"
  shows "(idx XOR 2 ^ k = idx + 2 ^ k \<and> 2 ^ Suc k dvd idx) \<or> ((idx XOR 2 ^ k) + 2 ^ k = idx \<and> 2 ^ Suc k dvd (idx XOR 2 ^ k))"
proof -
  obtain q where q: "idx = push_bit k q" using assms by (auto simp: push_bit_eq_mult dvd_def mult.commute)
  have "idx XOR 2 ^ k = push_bit k (q XOR 1)" by (simp add: q push_bit_xor)
  moreover have "q XOR 1 = (if even q then q + 1 else q - 1)" by (subst xor_one_eq) simp
  ultimately have x: "idx XOR 2 ^ k = (if even q then q + 1 else q - 1) * 2 ^ k"
    by (simp only: push_bit_eq_mult)
  show ?thesis
  proof (cases "even q")
    case True
    then obtain r where "q = 2 * r" by blast
    then have "idx = 2 ^ Suc k * r" by (simp add: q push_bit_eq_mult)
    moreover have "idx XOR 2 ^ k = idx + 2 ^ k" using x True by (simp add: q push_bit_eq_mult)
    ultimately show ?thesis by (metis dvd_triv_left)
  next
    case False
    then obtain r where r: "q = 2 * r + 1" by (rule oddE)
    then have "idx XOR 2 ^ k = 2 ^ Suc k * r" using x False by simp
    moreover have "idx = 2 ^ Suc k * r + 2 ^ k" by (simp add: q r push_bit_eq_mult algebra_simps)
    ultimately have "(idx XOR 2 ^ k) + 2 ^ k = idx \<and> 2 ^ Suc k dvd (idx XOR 2 ^ k)" by simp
    then show ?thesis by blast
  qed
qed

lemma buddy_at_eq: "2 ^ o' dvd i \<Longrightarrow> i = idx div 2 ^ o' * 2 ^ o' \<Longrightarrow> buddy_at idx o' = i XOR 2 ^ o'"
  by (simp add: buddy_at_def)

lemma merge_blk:
  assumes "2 ^ k dvd i"
  shows "blk (Suc k) (min (i XOR 2 ^ k) i) = blk k i \<union> blk k (i XOR 2 ^ k)" "2 ^ Suc k dvd min (i XOR 2 ^ k) i"
    "min (i XOR 2 ^ k) i + 2 ^ Suc k = max (i XOR 2 ^ k) i + 2 ^ k"
proof -
  consider (up) "i XOR 2 ^ k = i + 2 ^ k \<and> 2 ^ Suc k dvd i"
    | (down) "(i XOR 2 ^ k) + 2 ^ k = i \<and> 2 ^ Suc k dvd (i XOR 2 ^ k)"
    using xor_bit [OF assms] by (elim disjE)
  then have "blk (Suc k) (min (i XOR 2 ^ k) i) = blk k i \<union> blk k (i XOR 2 ^ k) \<and> 2 ^ Suc k dvd min (i XOR 2 ^ k) i \<and>
      min (i XOR 2 ^ k) i + 2 ^ Suc k = max (i XOR 2 ^ k) i + 2 ^ k"
  proof cases
    case up
    then have "min (i XOR 2 ^ k) i = i" "max (i XOR 2 ^ k) i = i + 2 ^ k" by simp_all
    then show ?thesis using up blk_split(1) [of k i] by simp
  next
    case down
    define b where "b = i XOR 2 ^ k"
    have d: "b + 2 ^ k = i" "2 ^ Suc k dvd b" using down unfolding b_def by simp_all
    then have "min b i = b" "max b i = i" by simp_all
    then show ?thesis using d blk_split(1) [of k b] unfolding b_def [symmetric] by auto
  qed
  then show "blk (Suc k) (min (i XOR 2 ^ k) i) = blk k i \<union> blk k (i XOR 2 ^ k)" "2 ^ Suc k dvd min (i XOR 2 ^ k) i"
    "min (i XOR 2 ^ k) i + 2 ^ Suc k = max (i XOR 2 ^ k) i + 2 ^ k" by blast+
qed

lemma merge_div:
  fixes i idx :: nat
  assumes "i = idx div 2 ^ k * 2 ^ k"
  shows "min (i XOR 2 ^ k) i = idx div 2 ^ Suc k * 2 ^ Suc k"
proof -
  let ?m = "min (i XOR 2 ^ k) i"
  have d: "2 ^ k dvd i" using assms by simp
  note M = merge_blk [OF d]
  have "i + idx mod 2 ^ k = idx" "idx mod 2 ^ k < 2 ^ k" using assms by (simp_all add: div_mult_mod_eq)
  then have "idx \<in> blk k i" unfolding blk_def atLeastLessThan_iff by linarith
  then have "?m \<le> idx" "idx < ?m + 2 ^ Suc k" using M(1) by (auto simp: blk_def)
  moreover obtain r where "?m = 2 ^ Suc k * r" using M(2) by blast
  ultimately have "idx div 2 ^ Suc k = r"
    by (intro div_nat_eqI) (auto simp: mult.commute)
  then show ?thesis using \<open>?m = 2 ^ Suc k * r\<close> by simp
qed

lemma free_loop_inv:
  assumes "part_inv s L {}" "blk order i \<inter> free_set L = {}" "2 ^ order dvd i" "i + 2 ^ order \<le> total_pages s"
    and "i = idx div 2 ^ order * 2 ^ order" "whole_buddies s L idx order" "order + k = MAX_ORDER"
  shows "\<exists>i1 o1 s1 L1. free_loop s i order k = (i1, o1, s1) \<and> part_inv s1 L1 {} \<and> o1 \<le> MAX_ORDER \<and>
    blk o1 i1 \<inter> free_set L1 = {} \<and> free_set L1 \<union> blk o1 i1 = free_set L \<union> blk order i \<and>
    2 ^ o1 dvd i1 \<and> i1 + 2 ^ o1 \<le> total_pages s \<and> total_pages s1 = total_pages s \<and> ram_end s1 = ram_end s \<and>
    refcnt s1 = refcnt s \<and> (\<forall>x. x \<notin> free_set L \<longrightarrow> nodes s1 x = nodes s x)"
  using assms
proof (induction k arbitrary: s L i order)
  case (Suc k)
  let ?bud = "i XOR 2 ^ order"
  show ?case
  proof (cases "?bud \<ge> total_pages s \<or> \<not> bfree_tst s ?bud")
    case True
    then show ?thesis using Suc.prems by auto
  next
    case False
    have o': "order < MAX_ORDER" "order \<le> MAX_ORDER" using Suc.prems(7) by auto
    have "buddy_at idx order = ?bud" using buddy_at_eq Suc.prems(3,5) by blast
    moreover have "?bud \<in> free_set L" using False Suc.prems(1) by (auto simp: part_inv_def)
    ultimately have bL: "?bud \<in> set (L order)"
      using False Suc.prems(6) o' unfolding whole_buddies_def by (metis atLeastLessThan_iff le_refl not_le)
    have b: "blocks_ok s L" using Suc.prems(1) by (simp add: part_inv_def)
    let ?s1 = "bfree_clr_range (list_remove s order ?bud) ?bud (2 ^ order)"
    let ?L1 = "L(order := remove1 ?bud (L order))" and ?i = "min ?bud i"
    note R = remove_blocks [OF b o'(2) bL] and M = merge_blk [OF Suc.prems(3)]
    have b1: "blocks_ok ?s1 ?L1" by (rule blocks_cong [OF R(1)]) simp_all
    have p1: "part_inv ?s1 ?L1 {}"
      using b1 R(2) Suc.prems(1) unfolding part_inv_def by (auto simp: blk_def)
    have sub: "blk order ?bud \<subseteq> free_set L" using free_set_member o'(2) bL by blast
    have d1: "blk (Suc order) ?i \<inter> free_set ?L1 = {}" using R(2) M(1) Suc.prems(2) by auto
    have "?bud + 2 ^ order \<le> total_pages s" using b o'(2) bL by (auto simp: blocks_ok_def)
    then have t1: "?i + 2 ^ Suc order \<le> total_pages ?s1" using M(3) Suc.prems(4) by (simp add: max_def split: if_splits)
    have w1: "whole_buddies ?s1 ?L1 idx (Suc order)"
      using Suc.prems(6) R(2) unfolding whole_buddies_def by auto
    have k1: "total_pages ?s1 = total_pages s" "ram_end ?s1 = ram_end s" "refcnt ?s1 = refcnt s" by simp_all
    have nd: "x \<notin> free_set ?L1 \<and> nodes ?s1 x = nodes s x" if "x \<notin> free_set L" for x
      using that R(2,3) free_set_member [OF o'(2), of x L] blk_self [of x order] by auto
    have nds: "\<forall>x. x \<notin> free_set ?L1 \<longrightarrow> nodes s' x = nodes ?s1 x \<Longrightarrow> \<forall>x. x \<notin> free_set L \<longrightarrow> nodes s' x = nodes s x" for s'
      using nd by (metis (no_types))
    have sk: "Suc order + k = MAX_ORDER" using Suc.prems(7) by simp
    have eq: "free_set ?L1 \<union> blk (Suc order) ?i = free_set L \<union> blk order i" using R(2) M(1) sub by auto
    have fl: "free_loop s i order (Suc k) = free_loop ?s1 ?i (Suc order) k" using False by (simp add: Let_def)
    show ?thesis
      using Suc.IH [OF p1 d1 M(2) t1 merge_div [OF Suc.prems(5)] w1 sk, unfolded k1 eq] unfolding fl
      by (elim exE conjE, intro exI conjI) (assumption | erule nds)+
  qed
qed auto

lemma pmm_free_order_inv:
  assumes "pmm_inv s L" "order \<le> MAX_ORDER" "2 ^ order dvd idx" "idx + 2 ^ order \<le> total_pages s"
    and "idx_to_phys idx < ram_end s" "blk order idx \<inter> free_set L = {}" "whole_buddies s L idx order"
  shows "\<exists>L'. pmm_inv (pmm_free_order s (idx_to_phys idx) order) L' \<and>
    free_set L' = free_set L \<union> blk order idx \<and> refcnt (pmm_free_order s (idx_to_phys idx) order) = refcnt s \<and>
    total_pages (pmm_free_order s (idx_to_phys idx) order) = total_pages s \<and>
    ram_end (pmm_free_order s (idx_to_phys idx) order) = ram_end s \<and>
    (\<forall>x. x \<notin> free_set L \<union> blk order idx \<longrightarrow> nodes (pmm_free_order s (idx_to_phys idx) order) x = nodes s x)"
proof -
  have p: "phys_to_idx (idx_to_phys idx) = idx" "RAM_START \<le> idx_to_phys idx"
    by (simp_all add: phys_to_idx_def idx_to_phys_def PAGE_SIZE_def)
  have i: "idx = idx div 2 ^ order * 2 ^ order" using assms(3) by simp
  have lt: "idx < total_pages s" using assms(4) zero_less_power [of "2 :: nat" order] by linarith
  have mk: "order + (MAX_ORDER - order) = MAX_ORDER" using assms(2) by simp
  obtain i1 o1 s1 L1 where FF: "free_loop s idx order (MAX_ORDER - order) = (i1, o1, s1) \<and> part_inv s1 L1 {} \<and> o1 \<le> MAX_ORDER \<and>
      blk o1 i1 \<inter> free_set L1 = {} \<and> free_set L1 \<union> blk o1 i1 = free_set L \<union> blk order idx \<and>
      2 ^ o1 dvd i1 \<and> i1 + 2 ^ o1 \<le> total_pages s \<and> total_pages s1 = total_pages s \<and> ram_end s1 = ram_end s \<and>
      refcnt s1 = refcnt s \<and> (\<forall>x. x \<notin> free_set L \<longrightarrow> nodes s1 x = nodes s x)"
    using free_loop_inv [OF assms(1,6,3,4) i assms(7) mk] by (elim exE)
  then have F: "free_loop s idx order (MAX_ORDER - order) = (i1, o1, s1)" "part_inv s1 L1 {}"
      "o1 \<le> MAX_ORDER" "blk o1 i1 \<inter> free_set L1 = {}" "free_set L1 \<union> blk o1 i1 = free_set L \<union> blk order idx"
      "2 ^ o1 dvd i1" "i1 + 2 ^ o1 \<le> total_pages s" "total_pages s1 = total_pages s" "ram_end s1 = ram_end s" "refcnt s1 = refcnt s"
      "\<forall>x. x \<notin> free_set L \<longrightarrow> nodes s1 x = nodes s x" by simp_all
  let ?s2 = "bfree_set_range s1 i1 (2 ^ o1)" and ?L = "L1(o1 := i1 # L1 o1)"
  have b: "blocks_ok ?s2 L1" 
  proof (rule blocks_cong [of s1])
    show "blocks_ok s1 L1" using F(2) unfolding part_inv_def by blast
  qed simp_all
  note P = push_blocks [OF b F(3,4,6)]
  have "pmm_inv (list_push ?s2 o1 i1) ?L"
    using P F(2,7,8) unfolding part_inv_def by (auto simp: blk_def)
  moreover have fr: "pmm_free_order s (idx_to_phys idx) order = list_push ?s2 o1 i1"
    using p lt assms(5) F(1) by (simp add: pmm_free_order_def Let_def)
  moreover have "free_set ?L = free_set L \<union> blk order idx" using P F(5,7,8) by simp
  moreover have "nodes (list_push ?s2 o1 i1) x = nodes s x" if "x \<notin> free_set L \<union> blk order idx" for x
  proof -
    have "x \<noteq> i1" "x \<notin> set (L1 o1)"
      using that F(5) blk_self [of i1 o1] blk_self [of x o1] free_set_member [OF F(3), of x L1] by blast+
    then show ?thesis using push_nodes [OF b F(3), of x i1] that F(11) by simp
  qed
  ultimately show ?thesis using F(8-10) by (intro exI [of _ ?L]) (simp add: fr)
qed

text \<open>
  C17. Freeing.  When every buddy on the way up whose first page is free is a whole free block,
  \<open>pmm_free_order\<close> returns exactly the pages of the block to the free set, merged with its
  free buddies, and the invariant on the lists and the bitmap holds again.
\<close>

theorem pmm_free_order_correct:
  assumes "pmm_inv s L" "order \<le> MAX_ORDER" "2 ^ order dvd idx" "idx + 2 ^ order \<le> total_pages s"
    and "idx_to_phys idx < ram_end s" "blk order idx \<inter> free_set L = {}" "whole_buddies s L idx order"
  shows "\<exists>L'. pmm_inv (pmm_free_order s (idx_to_phys idx) order) L' \<and>
    free_set L' = free_set L \<union> blk order idx"
  using pmm_free_order_inv [OF assms] by blast

text \<open>The lists are determined by the links, as in memory they are nothing else.\<close>

lemma chain_unique: "chain nd p f xs \<Longrightarrow> chain nd p f ys \<Longrightarrow> xs = ys"
proof (induction xs arbitrary: p f ys)
  case Nil
  then show ?case by (cases ys) auto
next
  case (Cons x xs)
  then show ?case by (cases ys) auto
qed

lemma lists_unique:
  assumes "pmm_inv s L" "pmm_inv s L'" "o' \<le> MAX_ORDER"
  shows "L o' = L' o'"
proof (rule chain_unique)
  have b: "blocks_ok s L" "blocks_ok s L'" using assms(1,2) unfolding part_inv_def by blast+
  show "chain (nodes s) BUDDY_NIL (heads s o') (L o')" using b(1) assms(3) by (simp add: blocks_ok_def)
  show "chain (nodes s) BUDDY_NIL (heads s o') (L' o')" using b(2) assms(3) by (simp add: blocks_ok_def)
qed

text \<open>What the lists say depends on the links of free pages only, and all links fit in 32 bits.\<close>

lemma inv_cong:
  assumes "pmm_inv s L" "heads s' = heads s" "bmp s' = bmp s" "total_pages s' = total_pages s"
    and "\<And>x. x \<in> free_set L \<Longrightarrow> nodes s' x = nodes s x"
  shows "pmm_inv s' L"
proof -
  have nd: "nodes s' x = nodes s x" if "o' \<le> MAX_ORDER" "x \<in> set (L o')" for o' x
    using assms(5) free_set_member [of o' x L, OF that] blk_self by blast
  have "blocks_ok s L" using assms(1) by (simp add: part_inv_def)
  then have "blocks_ok s' L" using assms(2,4) nd by (rule blocks_cong)
  then show ?thesis using assms(1,3) by (simp add: part_inv_def bfree_tst_bit)
qed

lemma chain_narrow:
  assumes "chain nd p f xs" "p < 2 ^ 32" "\<And>x. x \<in> set xs \<Longrightarrow> x < 2 ^ 32"
  shows "chain (\<lambda>i. \<lparr>bn_prev = bn_prev (nd i) mod 2 ^ 32, bn_next = bn_next (nd i) mod 2 ^ 32\<rparr>) p f xs"
  using assms
proof (induction xs arbitrary: p f)
  case (Cons x xs)
  have "bn_next (nd x) < 2 ^ 32" using Cons.prems(1,3) chain_head [of nd x "bn_next (nd x)" xs]
    by (cases xs) (auto simp: BUDDY_NIL_def)
  then show ?case using Cons by simp
qed simp

lemma inv_narrow:
  assumes "pmm_inv s L"
  shows "pmm_inv (s\<lparr>nodes := (\<lambda>i. \<lparr>bn_prev = bn_prev (nodes s i) mod 2 ^ 32, bn_next = bn_next (nodes s i) mod 2 ^ 32\<rparr>)\<rparr>) L"
proof -
  have "x < 2 ^ 32" if "o' \<le> MAX_ORDER" "x \<in> set (L o')" for o' x
  proof -
    have "x + 2 ^ o' \<le> total_pages s" "total_pages s < BUDDY_NIL" using assms that by (auto simp: part_inv_def blocks_ok_def)
    then show ?thesis by (simp add: BUDDY_NIL_def)
  qed
  moreover have "BUDDY_NIL < 2 ^ 32" by (simp add: BUDDY_NIL_def)
  ultimately have "chain (\<lambda>i. \<lparr>bn_prev = bn_prev (nodes s i) mod 2 ^ 32, bn_next = bn_next (nodes s i) mod 2 ^ 32\<rparr>)
      BUDDY_NIL (heads s o') (L o')" if "o' \<le> MAX_ORDER" for o'
    using assms that chain_narrow by (simp add: part_inv_def blocks_ok_def)
  then show ?thesis using assms by (simp add: part_inv_def blocks_ok_def bfree_tst_bit)
qed

section \<open>Concrete runs\<close>

definition pmm_blank :: "nat \<Rightarrow> pmm" where
  "pmm_blank n = \<lparr>heads = (\<lambda>_. BUDDY_NIL), nodes = (\<lambda>_. \<lparr>bn_prev = 0, bn_next = 0\<rparr>), bmp = (\<lambda>_. 0),
     refcnt = (\<lambda>_. 0), total_pages = n, ram_end = RAM_START + n * PAGE_SIZE\<rparr>"

text \<open>The loops on literals.\<close>

lemma loop_numerals:
  "bfree_set_range s i (numeral n) = bfree_set_range (bfree_set s i) (i + 1) (pred_numeral n)"
  "bfree_clr_range s i (numeral n) = bfree_clr_range (bfree_clr s i) (i + 1) (pred_numeral n)"
  "fit_order i l (numeral n) = (if i AND (2 ^ numeral n - 1) \<noteq> 0 \<or> i + 2 ^ numeral n > l
     then fit_order i l (pred_numeral n) else numeral n)"
  "split_loop s i o' (numeral n) = (let bud = i + 2 ^ (o' + pred_numeral n)
     in split_loop (list_push (bfree_set s bud) (o' + pred_numeral n) bud) i o' (pred_numeral n))"
  "free_loop s i o' (numeral n) = (let bud = i XOR 2 ^ o'
     in if bud \<ge> total_pages s \<or> \<not> bfree_tst s bud then (i, o', s)
        else free_loop (bfree_clr_range (list_remove s o' bud) bud (2 ^ o')) (min bud i) (o' + 1) (pred_numeral n))"
  "first_idx P i (numeral n) = (if P i then Some i else first_idx P (Suc i) (pred_numeral n))"
  by (simp_all add: numeral_eq_Suc)

lemmas pmm_eval = loop_numerals numeral_2_eq_2 [symmetric] numeral_3_eq_3 [symmetric] pmm_consts Let_def list_push_def list_remove_def list_pop_def set_prev_def
  set_next_def set_head_def bfree_set_def bfree_clr_def bfree_tst_def pmm_alloc_def pmm_alloc_order_def
  pmm_take_def find_order_def clear_pages_def pmm_free_def pmm_free_order_def idx_to_phys_def phys_to_idx_def

text \<open>Four pages: the lists of orders 0 to 2, the links of the four pages, the bitmap.\<close>

definition four_pages :: "pmm \<Rightarrow> nat list \<Rightarrow> (nat \<times> nat) list \<Rightarrow> u8 \<Rightarrow> bool" where
  "four_pages s hs ns b \<longleftrightarrow>
     heads s 0 = hs ! 0 \<and> heads s 1 = hs ! 1 \<and> heads s 2 = hs ! 2 \<and> (\<forall>o' > 2. heads s o' = BUDDY_NIL) \<and>
     nodes s 0 = \<lparr>bn_prev = fst (ns ! 0), bn_next = snd (ns ! 0)\<rparr> \<and>
     nodes s 1 = \<lparr>bn_prev = fst (ns ! 1), bn_next = snd (ns ! 1)\<rparr> \<and>
     nodes s 2 = \<lparr>bn_prev = fst (ns ! 2), bn_next = snd (ns ! 2)\<rparr> \<and>
     nodes s 3 = \<lparr>bn_prev = fst (ns ! 3), bn_next = snd (ns ! 3)\<rparr> \<and>
     bmp s 0 = b \<and> total_pages s = 4 \<and> ram_end s = RAM_START + 4 * PAGE_SIZE"

lemma start_four:
  "four_pages (buddy_add_range (pmm_blank 4) 0 4) [BUDDY_NIL, BUDDY_NIL, 0]
     [(BUDDY_NIL, BUDDY_NIL), (0, 0), (0, 0), (0, 0)] 15"
  by (simp add: four_pages_def pmm_eval pmm_blank_def buddy_add_range.simps)

lemma alloc_four_0:
  "four_pages s [BUDDY_NIL, BUDDY_NIL, 0] [(BUDDY_NIL, BUDDY_NIL), (0, 0), (0, 0), (0, 0)] 15 \<Longrightarrow>
   \<exists>s'. pmm_alloc id s = (idx_to_phys 0, s') \<and>
     four_pages s' [1, 2, BUDDY_NIL] [(0, 0), (BUDDY_NIL, BUDDY_NIL), (BUDDY_NIL, BUDDY_NIL), (0, 0)] 14"
  by (simp add: four_pages_def pmm_eval)

lemma alloc_four_1:
  "four_pages s [1, 2, BUDDY_NIL] [(0, 0), (BUDDY_NIL, BUDDY_NIL), (BUDDY_NIL, BUDDY_NIL), (0, 0)] 14 \<Longrightarrow>
   \<exists>s'. pmm_alloc id s = (idx_to_phys 1, s') \<and>
     four_pages s' [BUDDY_NIL, 2, BUDDY_NIL] [(0, 0), (0, 0), (BUDDY_NIL, BUDDY_NIL), (0, 0)] 12"
  by (simp add: four_pages_def pmm_eval)

lemma alloc_four_2:
  "four_pages s [BUDDY_NIL, 2, BUDDY_NIL] [(0, 0), (0, 0), (BUDDY_NIL, BUDDY_NIL), (0, 0)] 12 \<Longrightarrow>
   \<exists>s'. pmm_alloc id s = (idx_to_phys 2, s') \<and>
     four_pages s' [3, BUDDY_NIL, BUDDY_NIL] [(0, 0), (0, 0), (0, 0), (BUDDY_NIL, BUDDY_NIL)] 8"
  by (simp add: four_pages_def pmm_eval)

lemma alloc_four_3:
  "four_pages s [3, BUDDY_NIL, BUDDY_NIL] [(0, 0), (0, 0), (0, 0), (BUDDY_NIL, BUDDY_NIL)] 8 \<Longrightarrow>
   \<exists>s'. pmm_alloc id s = (idx_to_phys 3, s') \<and>
     four_pages s' [BUDDY_NIL, BUDDY_NIL, BUDDY_NIL] [(0, 0), (0, 0), (0, 0), (0, 0)] 0"
  by (simp add: four_pages_def pmm_eval)

lemma free_four_2:
  "four_pages s [BUDDY_NIL, BUDDY_NIL, BUDDY_NIL] [(0, 0), (0, 0), (0, 0), (0, 0)] 0 \<Longrightarrow>
   four_pages (pmm_free s (idx_to_phys 2)) [2, BUDDY_NIL, BUDDY_NIL] [(0, 0), (0, 0), (BUDDY_NIL, BUDDY_NIL), (0, 0)] 4"
  by (simp add: four_pages_def pmm_eval)

lemma free_four_0:
  "four_pages s [2, BUDDY_NIL, BUDDY_NIL] [(0, 0), (0, 0), (BUDDY_NIL, BUDDY_NIL), (0, 0)] 4 \<Longrightarrow>
   four_pages (pmm_free s (idx_to_phys 0)) [0, BUDDY_NIL, BUDDY_NIL] [(BUDDY_NIL, 2), (0, 0), (0, BUDDY_NIL), (0, 0)] 5"
  by (simp add: four_pages_def pmm_eval)

lemma free_four_1:
  "four_pages s [0, BUDDY_NIL, BUDDY_NIL] [(BUDDY_NIL, 2), (0, 0), (0, BUDDY_NIL), (0, 0)] 5 \<Longrightarrow>
   four_pages (pmm_free s (idx_to_phys 1)) [2, BUDDY_NIL, 0] [(BUDDY_NIL, BUDDY_NIL), (0, 0), (BUDDY_NIL, BUDDY_NIL), (0, 0)] 15"
  by (simp add: four_pages_def pmm_eval)

text \<open>Four pages: all are allocated, pages 2, 0 and 1 are freed in this order, page 3 is kept.\<close>

lemma alloc_four_all:
  "four_pages s [2, BUDDY_NIL, 0] [(BUDDY_NIL, BUDDY_NIL), (0, 0), (BUDDY_NIL, BUDDY_NIL), (0, 0)] 15 \<Longrightarrow>
   fst (pmm_alloc_order id s 2) = idx_to_phys 0"
  by (simp add: four_pages_def pmm_eval)

lemma four_all_free: "four_pages s hs ns 15 \<Longrightarrow> pmm_free_pages s = 4"
proof -
  assume f: "four_pages s hs ns 15"
  have b: "bmp s 0 = 15" "total_pages s = 4" using f unfolding four_pages_def by blast+
  have u: "[0..<4] = [0, 1, 2, 3 :: nat]" by (simp add: upt_rec)
  show "pmm_free_pages s = 4"
    unfolding pmm_free_pages_def b(2) u by (simp add: bfree_tst_bit b(1) bit_iff_odd_drop_bit)
qed

definition merge_demo :: "nat list \<times> pmm" where
  "merge_demo =
     (let s0 = buddy_add_range (pmm_blank 4) 0 4;
          (a, s1) = pmm_alloc id s0; (b, s2) = pmm_alloc id s1;
          (c, s3) = pmm_alloc id s2; (d, s4) = pmm_alloc id s3;
          s5 = pmm_free (pmm_free (pmm_free s4 c) a) b
      in ([a, b, c, d], s5))"

text \<open>
  A coalescing fault.  \<open>pmm_free_order\<close> takes a buddy for free when the bit of its first
  page is set, although its other pages may be in use.  With four pages allocated one by one and
  pages 2, 0 and 1 freed, page 3 is never freed, yet the next four-page allocation hands out
  pages 0 to 3, the page still in use among them.
\<close>

theorem buddy_merge_reuses_allocated_page:
  "fst merge_demo = map idx_to_phys [0, 1, 2, 3] \<and> pmm_free_pages (snd merge_demo) = 4 \<and>
   fst (pmm_alloc_order id (snd merge_demo) 2) = idx_to_phys 0"
proof -
  obtain s1 where s1: "pmm_alloc id (buddy_add_range (pmm_blank 4) 0 4) = (idx_to_phys 0, s1)"
      "four_pages s1 [1, 2, BUDDY_NIL] [(0, 0), (BUDDY_NIL, BUDDY_NIL), (BUDDY_NIL, BUDDY_NIL), (0, 0)] 14"
    using alloc_four_0 [OF start_four] by blast
  obtain s2 where s2: "pmm_alloc id s1 = (idx_to_phys 1, s2)"
      "four_pages s2 [BUDDY_NIL, 2, BUDDY_NIL] [(0, 0), (0, 0), (BUDDY_NIL, BUDDY_NIL), (0, 0)] 12"
    using alloc_four_1 [OF s1(2)] by blast
  obtain s3 where s3: "pmm_alloc id s2 = (idx_to_phys 2, s3)"
      "four_pages s3 [3, BUDDY_NIL, BUDDY_NIL] [(0, 0), (0, 0), (0, 0), (BUDDY_NIL, BUDDY_NIL)] 8"
    using alloc_four_2 [OF s2(2)] by blast
  obtain s4 where s4: "pmm_alloc id s3 = (idx_to_phys 3, s4)"
      "four_pages s4 [BUDDY_NIL, BUDDY_NIL, BUDDY_NIL] [(0, 0), (0, 0), (0, 0), (0, 0)] 0"
    using alloc_four_3 [OF s3(2)] by blast
  let ?s = "pmm_free (pmm_free (pmm_free s4 (idx_to_phys 2)) (idx_to_phys 0)) (idx_to_phys 1)"
  have d: "merge_demo = ([idx_to_phys 0, idx_to_phys 1, idx_to_phys 2, idx_to_phys 3], ?s)"
    by (simp add: merge_demo_def s1(1) s2(1) s3(1) s4(1))
  note f = free_four_1 [OF free_four_0 [OF free_four_2 [OF s4(2)]]]
  then have "fst (pmm_alloc_order id ?s 2) = idx_to_phys 0" by (rule alloc_four_all)
  moreover from f have "pmm_free_pages ?s = 4" by (rule four_all_free)
  ultimately show ?thesis by (simp add: d)
qed

section \<open>Witnesses\<close>

lemma four_inv: "pmm_inv (buddy_add_range (pmm_blank 4) 0 4) ((\<lambda>_. [])(2 := [0]))"
proof -
  let ?s = "buddy_add_range (pmm_blank 4) 0 4" and ?L = "(\<lambda>_. [])(2 := [0])"
  have b0: "blocks_ok (bfree_set_range (pmm_blank 4) 0 4) (\<lambda>_. [])"
    by (simp add: blocks_ok_def pmm_blank_def BUDDY_NIL_def)
  have e: "free_set (\<lambda>_. []) = {}" by (simp add: free_set_def)
  have s: "?s = list_push (bfree_set_range (pmm_blank 4) 0 4) 2 0"
    by (simp add: buddy_add_range.simps MAX_ORDER_def loop_numerals Let_def)
  have "blocks_ok ?s ?L" "free_set ?L = blk 2 0"
    using push_blocks [OF b0, of 2 0] unfolding s by (simp_all add: MAX_ORDER_def e pmm_blank_def)
  moreover have "\<not> bfree_tst (pmm_blank 4) i" for i by (simp add: bfree_tst_bit pmm_blank_def)
  ultimately show ?thesis unfolding part_inv_def s by (auto simp: blk_def)
qed

lemma pmm_alloc_order_correct_witness:
  "\<exists>idx s' L'. pmm_alloc_order id (buddy_add_range (pmm_blank 4) 0 4) 1 = (idx_to_phys idx, s') \<and> pmm_inv s' L' \<and>
     2 dvd idx \<and> idx + 2 \<le> 4 \<and> free_set L' = free_set ((\<lambda>_. [])(2 := [0])) - blk 1 idx"
proof -
  have "\<exists>o'. 1 \<le> o' \<and> o' \<le> MAX_ORDER \<and> ((\<lambda>_. [])(2 := [0 :: nat])) o' \<noteq> []"
    by (intro exI [of _ 2]) (simp add: MAX_ORDER_def)
  from pmm_alloc_order_correct [OF four_inv this, of id] obtain idx s' L' where
    "pmm_alloc_order id (buddy_add_range (pmm_blank 4) 0 4) 1 = (idx_to_phys idx, s') \<and> pmm_inv s' L' \<and> 2 ^ 1 dvd idx \<and>
     idx + 2 ^ 1 \<le> total_pages (buddy_add_range (pmm_blank 4) 0 4) \<and>
     free_set L' = free_set ((\<lambda>_. [])(2 := [0])) - blk 1 idx" by blast
  moreover have "total_pages (buddy_add_range (pmm_blank 4) 0 4) = 4" using start_four by (simp add: four_pages_def)
  ultimately show ?thesis by (metis power_one_right)
qed

lemma pmm_free_order_correct_witness:
  "\<exists>L'. pmm_inv (pmm_free_order (pmm_blank 4) (idx_to_phys 0) 2) L' \<and> free_set L' = {0, 1, 2, 3}"
proof -
  have i: "pmm_inv (pmm_blank 4) (\<lambda>_. [])"
    by (simp add: part_inv_def blocks_ok_def pmm_blank_def free_set_def bfree_tst_bit BUDDY_NIL_def)
  have e: "free_set (\<lambda>_. []) = {}" by (simp add: free_set_def)
  have b: "blk 2 0 = {0, 1, 2, 3}" by (auto simp: blk_def)
  show ?thesis
    using pmm_free_order_correct [OF i, of 2 0]
    by (simp add: e b whole_buddies_def MAX_ORDER_def pmm_blank_def idx_to_phys_def PAGE_SIZE_def)
qed

end
