(* ===== verification/Heap.thy ===== *)
theory Heap
  imports Pmm
begin

text \<open>
  kernel/heap.c: the kernel heap.  Memory is a function from addresses (multiples of four) to
  32-bit words, so that headers, free lists and client data share it as they do in the code; a
  64-bit header field is two words.  Addresses and sizes are natural numbers; the one
  computation that can leave 64 bits, the rounding of the requested size, is reduced.  The page
  allocator is the model of kernel/pmm.c.
\<close>

definition HEAP_BASE :: nat where "HEAP_BASE = 0x200000"
definition HEAP_SIZE :: nat where "HEAP_SIZE = 0x200000"
definition HEAP_END :: nat where "HEAP_END = HEAP_BASE + HEAP_SIZE"

lemmas heap_consts = HEAP_BASE_def HEAP_SIZE_def HEAP_END_def

type_synonym mem32 = "nat \<Rightarrow> u32"

definition rd64 :: "mem32 \<Rightarrow> nat \<Rightarrow> nat" where
  "rd64 m a = unat (m a) + 2 ^ 32 * unat (m (a + 4))"

definition wr64 :: "mem32 \<Rightarrow> nat \<Rightarrow> nat \<Rightarrow> mem32" where
  "wr64 m a v = m(a := of_nat v, a + 4 := of_nat (v div 2 ^ 32))"

definition zero_mem :: "mem32 \<Rightarrow> nat \<Rightarrow> nat \<Rightarrow> mem32" where
  "zero_mem m a n = (\<lambda>i. if a \<le> i \<and> i < a + n then 0 else m i)"

record heap =
  h_mem :: mem32
  slab_cache :: "nat \<Rightarrow> nat"
  h_pmm :: pmm

section \<open>The slab tier\<close>

definition SLAB_NUM_CLASSES :: nat where "SLAB_NUM_CLASSES = 8"
definition SLAB_NIL :: u32 where "SLAB_NIL = 0xFFFFFFFF"
definition SLAB_HDR_SZ :: nat where "SLAB_HDR_SZ = 32"

definition slab_sizes :: "nat \<Rightarrow> nat" where
  "slab_sizes c = [16, 32, 64, 128, 256, 512, 1024, 2048] ! c"

text \<open>The fields of \<open>SlabHdr\<close>, by their offsets.\<close>

definition sh_free_head :: "mem32 \<Rightarrow> nat \<Rightarrow> u32" where "sh_free_head m p = m p"
definition sh_free_count :: "mem32 \<Rightarrow> nat \<Rightarrow> u32" where "sh_free_count m p = m (p + 4)"
definition sh_obj_size :: "mem32 \<Rightarrow> nat \<Rightarrow> u32" where "sh_obj_size m p = m (p + 12)"
definition sh_class_idx :: "mem32 \<Rightarrow> nat \<Rightarrow> u32" where "sh_class_idx m p = m (p + 16)"
definition sh_next_slab :: "mem32 \<Rightarrow> nat \<Rightarrow> u32" where "sh_next_slab m p = m (p + 20)"

lemmas slab_fields = sh_free_head_def sh_free_count_def sh_obj_size_def sh_class_idx_def sh_next_slab_def

definition slot_ptr :: "nat \<Rightarrow> nat \<Rightarrow> nat \<Rightarrow> nat" where
  "slot_ptr phys obj_size idx = phys + SLAB_HDR_SZ + idx * obj_size"

fun slab_link :: "mem32 \<Rightarrow> nat \<Rightarrow> nat \<Rightarrow> nat \<Rightarrow> nat \<Rightarrow> nat \<Rightarrow> mem32" where
  "slab_link m phys obj n i 0 = m"
| "slab_link m phys obj n i (Suc k) =
     slab_link (m(slot_ptr phys obj i := (if i + 1 < n then of_nat (i + 1) else SLAB_NIL))) phys obj n (i + 1) k"

definition slab_page_init :: "mem32 \<Rightarrow> nat \<Rightarrow> nat \<Rightarrow> mem32" where
  "slab_page_init m phys c =
     (let obj = slab_sizes c;
          n = (PAGE_SIZE - SLAB_HDR_SZ) div obj;
          m1 = zero_mem m phys PAGE_SIZE;
          m2 = m1(phys + 12 := of_nat obj, phys + 16 := of_nat c, phys + 8 := of_nat n,
                  phys + 4 := of_nat n, phys + 20 := 0)
      in (slab_link m2 phys obj n 0 n)(phys := 0))"

text \<open>Walking the slab list of a class, at most \<open>fuel\<close> pages: the first page with a free slot.\<close>

fun slab_walk :: "nat \<Rightarrow> mem32 \<Rightarrow> nat \<Rightarrow> nat option" where
  "slab_walk 0 m phys = None"
| "slab_walk (Suc k) m phys =
     (if phys = 0 then None
      else if sh_free_count m phys > 0 then Some phys
      else slab_walk k m (unat (sh_next_slab m phys)))"

text \<open>Every slab page is a page of memory, so a walk over more of them than there are has looped.\<close>

definition slab_fuel :: nat where "slab_fuel = MAX_PAGES + 1"

definition slab_take :: "mem32 \<Rightarrow> nat \<Rightarrow> nat \<Rightarrow> nat \<times> mem32" where
  "slab_take m phys obj =
     (let idx = unat (sh_free_head m phys);
          slot = slot_ptr phys obj idx;
          m1 = m(phys := m slot, phys + 4 := sh_free_count m phys - 1)
      in (slot, zero_mem m1 slot obj))"

definition slab_alloc :: "(pmm \<Rightarrow> pmm) \<Rightarrow> heap \<Rightarrow> nat \<Rightarrow> nat \<times> heap" where
  "slab_alloc oom s c =
     (case slab_walk slab_fuel (h_mem s) (slab_cache s c) of
        Some phys \<Rightarrow>
          (let (p, m) = slab_take (h_mem s) phys (slab_sizes c) in (p, s\<lparr>h_mem := m\<rparr>))
      | None \<Rightarrow>
          (let (phys, pm) = pmm_alloc oom (h_pmm s)
           in if phys = 0 then (0, s\<lparr>h_pmm := pm\<rparr>)
              else let m1 = slab_page_init (h_mem s) phys c;
                       m2 = m1(phys + 20 := of_nat (slab_cache s c));
                       (p, m3) = slab_take m2 phys (slab_sizes c)
                   in (p, s\<lparr>h_mem := m3, slab_cache := (slab_cache s)(c := phys), h_pmm := pm\<rparr>)))"

definition page_base :: "nat \<Rightarrow> nat" where
  "page_base p = p - p mod PAGE_SIZE"

definition ptr_in_slab :: "mem32 \<Rightarrow> nat \<Rightarrow> (nat \<times> nat) option" where
  "ptr_in_slab m ptr =
     (let phys = page_base ptr
      in case first_idx (\<lambda>c. sh_obj_size m phys = of_nat (slab_sizes c) \<and> sh_class_idx m phys = of_nat c) 0 SLAB_NUM_CLASSES of
           None \<Rightarrow> None
         | Some c \<Rightarrow> Some (c, phys))"

definition slab_free :: "mem32 \<Rightarrow> nat \<Rightarrow> nat \<Rightarrow> mem32" where
  "slab_free m ptr phys =
     (let obj = unat (sh_obj_size m phys);
          idx = (ptr - (phys + SLAB_HDR_SZ)) div obj
      in (m(ptr := sh_free_head m phys))(phys := of_nat idx, phys + 4 := sh_free_count m phys + 1))"

section \<open>The block tier\<close>

definition BLOCK_HDR :: nat where "BLOCK_HDR = 16"

definition b_size :: "mem32 \<Rightarrow> nat \<Rightarrow> nat" where "b_size m b = rd64 m b"
definition b_free :: "mem32 \<Rightarrow> nat \<Rightarrow> bool" where "b_free m b = odd (rd64 m (b + 8))"
definition set_size :: "mem32 \<Rightarrow> nat \<Rightarrow> nat \<Rightarrow> mem32" where "set_size m b n = wr64 m b n"
definition set_flags :: "mem32 \<Rightarrow> nat \<Rightarrow> nat \<Rightarrow> mem32" where "set_flags m b f = wr64 m (b + 8) f"

definition heap_init :: "heap \<Rightarrow> heap" where
  "heap_init s =
     (let m = set_flags (set_size (h_mem s) HEAP_BASE (HEAP_SIZE - BLOCK_HDR)) HEAP_BASE 1
      in s\<lparr>h_mem := zero_mem m (HEAP_BASE + BLOCK_HDR) (HEAP_SIZE - BLOCK_HDR), slab_cache := (\<lambda>_. 0)\<rparr>)"

definition round16 :: "nat \<Rightarrow> nat" where
  "round16 n = (n + 15) mod 2 ^ 64 div 16 * 16"

definition block_take :: "mem32 \<Rightarrow> nat \<Rightarrow> nat \<Rightarrow> mem32" where
  "block_take m b n =
     (let m1 = (if b_size m b \<ge> n + BLOCK_HDR + 16
                then let next' = b + BLOCK_HDR + n
                     in set_size (set_flags (set_size m next' (b_size m b - n - BLOCK_HDR)) next' 1) b n
                else m);
          m2 = set_flags m1 b 0
      in zero_mem m2 (b + BLOCK_HDR) (b_size m2 b))"

function block_search :: "mem32 \<Rightarrow> nat \<Rightarrow> nat \<Rightarrow> nat option" where
  "block_search m n b =
     (if b < HEAP_END
      then if b_free m b \<and> b_size m b \<ge> n then Some b else block_search m n (b + BLOCK_HDR + b_size m b)
      else None)"
  by pat_completeness auto
termination by (relation "measure (\<lambda>(m, n, b). HEAP_END - b)") (auto simp: BLOCK_HDR_def)

declare block_search.simps [simp del]

definition block_malloc :: "mem32 \<Rightarrow> nat \<Rightarrow> nat \<times> mem32" where
  "block_malloc m n0 =
     (let n = round16 n0
      in case block_search m n HEAP_BASE of
           None \<Rightarrow> (0, m)
         | Some b \<Rightarrow> (b + BLOCK_HDR, block_take m b n))"

function block_prev :: "mem32 \<Rightarrow> nat \<Rightarrow> nat \<Rightarrow> nat option \<Rightarrow> nat option" where
  "block_prev m b cur prv =
     (if cur < b then block_prev m b (cur + BLOCK_HDR + b_size m cur) (Some cur) else prv)"
  by pat_completeness auto
termination by (relation "measure (\<lambda>(m, b, cur, prv). b - cur)") (auto simp: BLOCK_HDR_def)

declare block_prev.simps [simp del]

lemma rd64_wr64_same: "v < 2 ^ 64 \<Longrightarrow> rd64 (wr64 m a v) a = v"
proof -
  assume v: "v < 2 ^ 64"
  have "v div 2 ^ 32 < 2 ^ 32" using v by (simp add: less_mult_imp_div_less)
  then have "rd64 (wr64 m a v) a = v mod 2 ^ 32 + 2 ^ 32 * (v div 2 ^ 32)"
    by (simp add: rd64_def wr64_def unsigned_of_nat take_bit_eq_mod)
  then show ?thesis by simp
qed

text \<open>Merging the free blocks that follow \<open>b\<close>; each turn moves its end up by a header at least.\<close>

fun coalesce_forward :: "nat \<Rightarrow> mem32 \<Rightarrow> nat \<Rightarrow> mem32" where
  "coalesce_forward 0 m b = m"
| "coalesce_forward (Suc k) m b =
     (let next' = b + BLOCK_HDR + b_size m b
      in if next' \<ge> HEAP_END then m
         else if \<not> b_free m next' then m
         else coalesce_forward k (set_size m b (b_size m b + BLOCK_HDR + b_size m next')) b)"

definition coalesce_fuel :: nat where "coalesce_fuel = HEAP_SIZE"

definition block_free :: "mem32 \<Rightarrow> nat \<Rightarrow> mem32" where
  "block_free m ptr =
     (if ptr = 0 then m
      else let b = ptr - BLOCK_HDR
           in if ptr < BLOCK_HDR \<or> b < HEAP_BASE \<or> b \<ge> HEAP_END then m
              else let m1 = set_flags m b 1
                   in case block_prev m1 b HEAP_BASE None of
                        Some p \<Rightarrow>
                          (if b_free m1 p
                           then coalesce_forward coalesce_fuel
                             (set_size m1 p (b_size m1 p + BLOCK_HDR + b_size m1 b)) p
                           else coalesce_forward coalesce_fuel m1 b)
                      | None \<Rightarrow> coalesce_forward coalesce_fuel m1 b)"

section \<open>The public operations\<close>

definition heap_malloc :: "(pmm \<Rightarrow> pmm) \<Rightarrow> heap \<Rightarrow> nat \<Rightarrow> nat \<times> heap" where
  "heap_malloc oom s n =
     (if n = 0 then (0, s)
      else case first_idx (\<lambda>c. n \<le> slab_sizes c) 0 SLAB_NUM_CLASSES of
        Some c \<Rightarrow> slab_alloc oom s c
      | None \<Rightarrow> (let (p, m) = block_malloc (h_mem s) n in (p, s\<lparr>h_mem := m\<rparr>)))"

definition heap_free :: "heap \<Rightarrow> nat \<Rightarrow> heap" where
  "heap_free s ptr =
     (if ptr = 0 then s
      else case ptr_in_slab (h_mem s) ptr of
        Some (c, phys) \<Rightarrow> s\<lparr>h_mem := slab_free (h_mem s) ptr phys\<rparr>
      | None \<Rightarrow>
         (if HEAP_BASE \<le> ptr \<and> ptr < HEAP_END then s\<lparr>h_mem := block_free (h_mem s) ptr\<rparr> else s))"

definition old_size :: "mem32 \<Rightarrow> nat \<Rightarrow> nat" where
  "old_size m old = (case ptr_in_slab m old of
     Some (c, phys) \<Rightarrow> slab_sizes c
   | None \<Rightarrow> (let b = old - BLOCK_HDR in if HEAP_BASE \<le> b \<and> b < HEAP_END then b_size m b else 0))"

definition copy_words :: "mem32 \<Rightarrow> nat \<Rightarrow> nat \<Rightarrow> nat \<Rightarrow> mem32" where
  "copy_words m dst src n = (\<lambda>a. if dst \<le> a \<and> a < dst + n then m (src + (a - dst)) else m a)"

definition heap_realloc :: "(pmm \<Rightarrow> pmm) \<Rightarrow> heap \<Rightarrow> nat \<Rightarrow> nat \<Rightarrow> nat \<times> heap" where
  "heap_realloc oom s old new_sz =
     (if old = 0 then heap_malloc oom s new_sz
      else if new_sz = 0 then (0, heap_free s old)
      else let old_sz = old_size (h_mem s) old
           in if new_sz \<le> old_sz then (old, s)
              else let (n, s1) = heap_malloc oom s new_sz
                   in if n = 0 then (0, s1)
                      else (n, heap_free (s1\<lparr>h_mem := copy_words (h_mem s1) n old old_sz\<rparr>) old))"

section \<open>The block heap as a tiling\<close>

text \<open>
  The blocks from \<open>a\<close> up to \<open>e\<close>, as sizes and free flags: every block starts where the
  one before it ends.
\<close>

fun tseg :: "mem32 \<Rightarrow> nat \<Rightarrow> (nat \<times> bool) list \<Rightarrow> nat \<Rightarrow> bool" where
  "tseg m a [] e \<longleftrightarrow> a = e"
| "tseg m a ((n, f) # xs) e \<longleftrightarrow> b_size m a = n \<and> b_free m a = f \<and> 16 dvd n \<and> tseg m (a + BLOCK_HDR + n) xs e"

abbreviation tiles :: "mem32 \<Rightarrow> (nat \<times> bool) list \<Rightarrow> bool" where
  "tiles m xs \<equiv> tseg m HEAP_BASE xs HEAP_END"

lemma tseg_le: "tseg m a xs e \<Longrightarrow> a + 16 * length xs \<le> e"
  by (induction xs arbitrary: a) (fastforce simp: BLOCK_HDR_def)+

lemma tseg_append: "tseg m a (xs @ ys) e \<longleftrightarrow> (\<exists>b. tseg m a xs b \<and> tseg m b ys e)"
  by (induction xs arbitrary: a) auto

lemma rd64_cong: "m x = m' x \<Longrightarrow> m (x + 4) = m' (x + 4) \<Longrightarrow> rd64 m x = rd64 m' x"
  by (simp add: rd64_def)

lemma tseg_frame:
  assumes "\<And>x. a \<le> x \<Longrightarrow> x < e \<Longrightarrow> m x = m' x" "tseg m a xs e"
  shows "tseg m' a xs e"
  using assms
proof (induction xs arbitrary: a)
  case (Cons p xs)
  obtain n f where p: "p = (n, f)" by (cases p)
  have le: "a + 16 \<le> e" using tseg_le [OF Cons.prems(2)] by simp
  have "rd64 m' a = rd64 m a" "rd64 m' (a + 8) = rd64 m (a + 8)"
    using Cons.prems(1) le by (auto intro!: rd64_cong simp: eq_commute)
  moreover have "tseg m' (a + BLOCK_HDR + n) xs e"
    using Cons.IH [of "a + BLOCK_HDR + n"] Cons.prems p by (auto simp: BLOCK_HDR_def)
  ultimately show ?case using Cons.prems(2) p by (simp add: b_size_def b_free_def)
qed simp

lemma tseg_aligned: "tseg m a xs e \<Longrightarrow> 16 dvd a \<Longrightarrow> 16 dvd e"
  by (induction xs arbitrary: a) (auto simp: BLOCK_HDR_def dvd_add)

lemma wr64_other: "x \<noteq> a \<Longrightarrow> x \<noteq> a + 4 \<Longrightarrow> wr64 m a v x = m x"
  by (simp add: wr64_def)

lemma rd64_wr64_other: "a + 8 \<le> c \<or> c + 8 \<le> a \<Longrightarrow> rd64 (wr64 m a v) c = rd64 m c"
  by (intro rd64_cong) (auto simp: wr64_def)

lemma rd64_zero: "x + 8 \<le> a \<Longrightarrow> rd64 (zero_mem m a n) x = rd64 m x" "a + n \<le> x \<Longrightarrow> rd64 (zero_mem m a n) x = rd64 m x"
  by (auto intro!: rd64_cong simp: zero_mem_def)

lemma rd64_less: "rd64 m a < 2 ^ 64"
proof -
  have "unat (m a) < 2 ^ 32" "unat (m (a + 4)) < 2 ^ 32" using unsigned_less [of "m a"] unsigned_less [of "m (a + 4)"] by simp_all
  then show ?thesis by (simp add: rd64_def)
qed

section \<open>Allocation refines first fit\<close>

definition split_tile :: "nat \<Rightarrow> nat \<Rightarrow> (nat \<times> bool) list" where
  "split_tile n s = (if s \<ge> n + 32 then [(n, False), (s - n - 16, True)] else [(s, False)])"

fun first_fit :: "nat \<Rightarrow> nat \<Rightarrow> (nat \<times> bool) list \<Rightarrow> (nat \<times> (nat \<times> bool) list) option" where
  "first_fit n a [] = None"
| "first_fit n a ((s, f) # xs) =
     (if f \<and> n \<le> s then Some (a, split_tile n s @ xs)
      else map_option (\<lambda>(b, ys). (b, (s, f) # ys)) (first_fit n (a + 16 + s) xs))"

lemma block_take_tile:
  assumes "b_size m b = s" "n \<le> s" "16 dvd n" "16 dvd s"
  shows "tseg (block_take m b n) b (split_tile n s) (b + 16 + s)"
    and "\<And>x. x < b \<or> b + 16 + s \<le> x \<Longrightarrow> block_take m b n x = m x"
    and "\<And>x. b + 16 \<le> x \<Longrightarrow> x < b + 16 + n \<Longrightarrow> block_take m b n x = 0"
proof -
  let ?m' = "block_take m b n"
  have s: "s < 2 ^ 64" using rd64_less [of m b] assms(1) by (simp add: b_size_def)
  have "tseg ?m' b (split_tile n s) (b + 16 + s) \<and> (\<forall>x. x < b \<or> b + 16 + s \<le> x \<longrightarrow> ?m' x = m x) \<and>
      (\<forall>x. b + 16 \<le> x \<and> x < b + 16 + n \<longrightarrow> ?m' x = 0)"
  proof (cases "s \<ge> n + 32")
    case True
    let ?nx = "b + 16 + n"
    let ?m3 = "wr64 (wr64 (wr64 (wr64 m ?nx (s - n - 16)) (?nx + 8) 1) b n) (b + 8) 0"
    have z: "rd64 ?m3 b = n" using s True assms(2) by (simp add: rd64_wr64_other rd64_wr64_same)
    have mt: "?m' = zero_mem ?m3 (b + 16) n"
      using True assms(1) z by (simp add: block_take_def BLOCK_HDR_def set_size_def set_flags_def b_size_def Let_def)
    have "rd64 ?m' b = n" "rd64 ?m' (b + 8) = 0" "rd64 ?m' ?nx = s - n - 16" "rd64 ?m' (?nx + 8) = 1"
      unfolding mt using s True by (simp_all add: rd64_zero rd64_wr64_other rd64_wr64_same)
    then have "tseg ?m' b (split_tile n s) (b + 16 + s)"
      using True assms(2-4) by (simp add: split_tile_def b_size_def b_free_def BLOCK_HDR_def dvd_diff_nat)
    moreover have "?m' x = m x" if "x < b \<or> b + 16 + s \<le> x" for x
      using that True unfolding mt by (auto simp: zero_mem_def wr64_other)
    ultimately show ?thesis unfolding mt by (auto simp: zero_mem_def)
  next
    case False
    let ?m2 = "wr64 m (b + 8) 0"
    have z: "rd64 ?m2 b = s" using assms(1) by (simp add: rd64_wr64_other b_size_def)
    have mt: "?m' = zero_mem ?m2 (b + 16) s"
      using False assms(1) z by (simp add: block_take_def BLOCK_HDR_def set_size_def set_flags_def b_size_def Let_def)
    have "rd64 ?m' b = s" "rd64 ?m' (b + 8) = 0" unfolding mt using z by (simp_all add: rd64_zero rd64_wr64_same)
    then have "tseg ?m' b (split_tile n s) (b + 16 + s)"
      using False assms(4) by (simp add: split_tile_def b_size_def b_free_def BLOCK_HDR_def)
    moreover have "?m' x = m x" if "x < b \<or> b + 16 + s \<le> x" for x
      using that unfolding mt by (auto simp: zero_mem_def wr64_other)
    ultimately show ?thesis unfolding mt using assms(2) by (auto simp: zero_mem_def)
  qed
  then show "tseg ?m' b (split_tile n s) (b + 16 + s)" "\<And>x. x < b \<or> b + 16 + s \<le> x \<Longrightarrow> ?m' x = m x"
    "\<And>x. b + 16 \<le> x \<Longrightarrow> x < b + 16 + n \<Longrightarrow> ?m' x = 0" by blast+
qed

lemma block_search_tiles:
  assumes "tseg m a xs HEAP_END" "16 dvd n"
  shows "case first_fit n a xs of
      None \<Rightarrow> block_search m n a = None
    | Some (b, ys) \<Rightarrow> block_search m n a = Some b \<and> tseg (block_take m b n) a ys HEAP_END \<and>
        a \<le> b \<and> b + 16 + b_size m b \<le> HEAP_END \<and> n \<le> b_size m b \<and> 16 dvd b_size m b"
  using assms
proof (induction xs arbitrary: a)
  case Nil
  then show ?case by (subst block_search.simps) simp
next
  case (Cons p xs)
  obtain s f where p: "p = (s, f)" by (cases p)
  have h: "b_size m a = s" "b_free m a = f" "16 dvd s" "tseg m (a + 16 + s) xs HEAP_END"
    using Cons.prems(1) p by (auto simp: BLOCK_HDR_def)
  have le: "a + 16 + s \<le> HEAP_END" using tseg_le [OF h(4)] by simp
  have bs: "block_search m n a = (if f \<and> n \<le> s then Some a else block_search m n (a + 16 + s))"
    using h le by (subst block_search.simps) (auto simp: BLOCK_HDR_def)
  show ?case
  proof (cases "f \<and> n \<le> s")
    case True
    note T = block_take_tile [OF h(1) _ Cons.prems(2) h(3)]
    have "tseg (block_take m a n) (a + 16 + s) xs HEAP_END"
      by (rule tseg_frame [OF _ h(4)]) (use T(2) True in auto)
    then have "tseg (block_take m a n) a (split_tile n s @ xs) HEAP_END"
      unfolding tseg_append using T(1) True by blast
    then show ?thesis using True bs p h le by simp
  next
    case False
    have ih: "case first_fit n (a + 16 + s) xs of
      None \<Rightarrow> block_search m n (a + 16 + s) = None
    | Some (b, ys) \<Rightarrow> block_search m n (a + 16 + s) = Some b \<and> tseg (block_take m b n) (a + 16 + s) ys HEAP_END \<and>
        a + 16 + s \<le> b \<and> b + 16 + b_size m b \<le> HEAP_END \<and> n \<le> b_size m b \<and> 16 dvd b_size m b"
      by (rule Cons.IH [OF h(4) Cons.prems(2)])
    show ?thesis
    proof (cases "first_fit n (a + 16 + s) xs")
      case None
      have "block_search m n a = block_search m n (a + 16 + s)" using bs False by argo
      moreover have "first_fit n a (p # xs) = None" using False p None by auto
      ultimately show ?thesis using ih None by simp
    next
      case (Some q)
      obtain b ys where q: "q = (b, ys)" by (cases q)
      have i: "block_search m n (a + 16 + s) = Some b" "tseg (block_take m b n) (a + 16 + s) ys HEAP_END"
        "a + 16 + s \<le> b" "b + 16 + b_size m b \<le> HEAP_END" "n \<le> b_size m b" "16 dvd b_size m b"
        using ih Some q by auto
      note T = block_take_tile [OF refl i(5) Cons.prems(2) i(6)]
      have "rd64 (block_take m b n) a = rd64 m a" "rd64 (block_take m b n) (a + 8) = rd64 m (a + 8)"
        using T(2) i(3) by (auto intro!: rd64_cong)
      then have "tseg (block_take m b n) a ((s, f) # ys) HEAP_END"
        using h i(2) by (simp add: b_size_def b_free_def BLOCK_HDR_def)
      then show ?thesis using i Some False bs p q by auto
    qed
  qed
qed

text \<open>
  C21. The large-object allocator implements first fit.  On a heap tiled by its blocks, a request
  is rounded up to sixteen and either no free block is large enough, and nothing changes, or the
  first one that is gets taken, split when at least a minimal block remains; the heap is tiled by
  the resulting blocks, the bytes handed out are zero, they lie inside the heap, and no word
  outside the chosen block has changed.
\<close>

theorem block_malloc_first_fit:
  assumes "tiles m xs"
  shows "case first_fit (round16 n) HEAP_BASE xs of
      None \<Rightarrow> block_malloc m n = (0, m)
    | Some (b, ys) \<Rightarrow> (\<exists>m'. block_malloc m n = (b + BLOCK_HDR, m') \<and> tiles m' ys \<and> HEAP_BASE \<le> b \<and>
        b + BLOCK_HDR + round16 n \<le> HEAP_END \<and>
        (\<forall>x. b + BLOCK_HDR \<le> x \<and> x < b + BLOCK_HDR + round16 n \<longrightarrow> m' x = 0) \<and>
        (\<forall>x. x < b \<or> b + BLOCK_HDR + b_size m b \<le> x \<longrightarrow> m' x = m x))"
proof -
  have a: "16 dvd round16 n" by (simp add: round16_def)
  show ?thesis
  proof (cases "first_fit (round16 n) HEAP_BASE xs")
    case None
    then show ?thesis using block_search_tiles [OF assms a] by (simp add: block_malloc_def)
  next
    case (Some q)
    obtain b ys where q: "q = (b, ys)" by (cases q)
    have i: "block_search m (round16 n) HEAP_BASE = Some b" "tiles (block_take m b (round16 n)) ys" "HEAP_BASE \<le> b"
        "b + 16 + b_size m b \<le> HEAP_END" "round16 n \<le> b_size m b" "16 dvd b_size m b"
      using block_search_tiles [OF assms a] Some q by auto
    note T = block_take_tile [OF refl i(5) a i(6)]
    show ?thesis using i T(2,3) Some q by (auto simp: block_malloc_def BLOCK_HDR_def)
  qed
qed

section \<open>Freeing refines merging\<close>

fun merged_size :: "nat \<Rightarrow> (nat \<times> bool) list \<Rightarrow> nat" where
  "merged_size s [] = s"
| "merged_size s ((n, f) # zs) = (if f then merged_size (s + 16 + n) zs else s)"

fun after_free :: "(nat \<times> bool) list \<Rightarrow> (nat \<times> bool) list" where
  "after_free [] = []"
| "after_free ((n, f) # zs) = (if f then after_free zs else (n, f) # zs)"

text \<open>Freeing the block of size \<open>s\<close> between the blocks \<open>ys\<close> and \<open>zs\<close>.\<close>

definition free_tile :: "(nat \<times> bool) list \<Rightarrow> nat \<Rightarrow> (nat \<times> bool) list \<Rightarrow> (nat \<times> bool) list" where
  "free_tile ys s zs =
     (if ys \<noteq> [] \<and> snd (last ys)
      then butlast ys @ (merged_size (fst (last ys) + 16 + s) zs, True) # after_free zs
      else ys @ (merged_size s zs, True) # after_free zs)"

lemma HEAP_END_small: "HEAP_END < 2 ^ 64"
  by (simp add: heap_consts)

lemma coalesce_tiles:
  assumes "tseg m b ((s, True) # zs) HEAP_END" "length zs < k"
  shows "tseg (coalesce_forward k m b) b ((merged_size s zs, True) # after_free zs) HEAP_END \<and>
    (\<forall>x. x < b \<longrightarrow> coalesce_forward k m b x = m x)"
  using assms
proof (induction zs arbitrary: m s k)
  case Nil
  obtain j where k: "k = Suc j" using Nil(2) by (cases k) auto
  show ?case using Nil(1) by (simp add: k Let_def BLOCK_HDR_def)
next
  case (Cons p zs)
  obtain n f where p: "p = (n, f)" by (cases p)
  obtain j where k: "k = Suc j" using Cons.prems(2) by (cases k) auto
  have h: "b_size m b = s" "b_free m b" "16 dvd s" "b_size m (b + 16 + s) = n" "b_free m (b + 16 + s) = f" "16 dvd n"
      "tseg m (b + 16 + s + 16 + n) zs HEAP_END"
    using Cons.prems(1) p by (auto simp: BLOCK_HDR_def)
  have le: "b + 16 + s + 16 + n \<le> HEAP_END" using tseg_le [OF h(7)] by simp
  show ?case
  proof (cases f)
    case False
    then show ?thesis using Cons.prems(1) h le p by (simp add: k Let_def BLOCK_HDR_def)
  next
    case True
    let ?m = "wr64 m b (s + 16 + n)"
    have sz: "s + 16 + n < 2 ^ 64" using le HEAP_END_small by linarith
    have st: "coalesce_forward k m b = coalesce_forward j ?m b"
      using h le True by (simp add: k Let_def BLOCK_HDR_def set_size_def)
    have "tseg ?m (b + 16 + s + 16 + n) zs HEAP_END"
      by (rule tseg_frame [OF _ h(7)]) (simp add: wr64_other)
    then have "tseg ?m b ((s + 16 + n, True) # zs) HEAP_END"
      using h sz by (simp add: b_size_def b_free_def rd64_wr64_same rd64_wr64_other BLOCK_HDR_def ac_simps)
    then have "tseg (coalesce_forward j ?m b) b ((merged_size (s + 16 + n) zs, True) # after_free zs) HEAP_END \<and>
        (\<forall>x. x < b \<longrightarrow> coalesce_forward j ?m b x = ?m x)"
      using Cons.prems(2) k by (intro Cons.IH) auto
    then show ?thesis unfolding st using p True by (auto simp: wr64_other)
  qed
qed

lemma block_prev_tiles:
  assumes "tseg m a ys b" "16 * length ys + a \<le> b"
  shows "block_prev m b a prv = (if ys = [] then prv
    else Some (b - 16 - fst (last ys))) \<and> (ys \<noteq> [] \<longrightarrow> a + 16 + fst (last ys) \<le> b \<and> tseg m a (butlast ys) (b - 16 - fst (last ys)))"
  using assms
proof (induction ys arbitrary: a prv)
  case Nil
  then show ?case by (subst block_prev.simps) simp
next
  case (Cons p ys)
  obtain n f where p: "p = (n, f)" by (cases p)
  have h: "b_size m a = n" "b_free m a = f" "16 dvd n" "tseg m (a + 16 + n) ys b" using Cons.prems(1) p by (auto simp: BLOCK_HDR_def)
  have le: "a + 16 + n + 16 * length ys \<le> b" using tseg_le [OF h(4)] .
  have bp: "block_prev m b a prv = block_prev m b (a + 16 + n) (Some a)"
    using h le by (subst block_prev.simps) (auto simp: BLOCK_HDR_def)
  have ih: "block_prev m b (a + 16 + n) (Some a) = (if ys = [] then Some a else Some (b - 16 - fst (last ys))) \<and>
     (ys \<noteq> [] \<longrightarrow> a + 16 + n + 16 + fst (last ys) \<le> b \<and> tseg m (a + 16 + n) (butlast ys) (b - 16 - fst (last ys)))"
    by (rule Cons.IH [OF h(4)]) (use le in simp)
  show ?case
  proof (cases "ys = []")
    case True
    then have "b = a + 16 + n" using h(4) by simp
    then show ?thesis using bp ih p True by simp
  next
    case False
    then show ?thesis using bp ih p h by (auto simp: BLOCK_HDR_def)
  qed
qed

text \<open>
  C22. Freeing a large object merges it with its free neighbours.  On a heap tiled by its blocks,
  \<open>block_free\<close> on the pointer to an allocated block leaves the heap tiled by the same blocks
  with this one merged with the free block before it, if there is one, and with every free
  block that follows.
\<close>

theorem block_free_merges:
  assumes "tiles m (ys @ (s, False) # zs)" "tseg m HEAP_BASE ys b"
  shows "tiles (block_free m (b + BLOCK_HDR)) (free_tile ys s zs)"
proof -
  have tb: "tseg m b ((s, False) # zs) HEAP_END"
  proof -
    obtain c where c: "tseg m HEAP_BASE ys c" "tseg m c ((s, False) # zs) HEAP_END"
      using assms(1) unfolding tseg_append by blast
    have "tseg m a us c \<Longrightarrow> tseg m a us d \<Longrightarrow> c = d" for a us c d by (induction us arbitrary: a) auto
    then show ?thesis using c assms(2) by blast
  qed
  let ?m1 = "wr64 m (b + 8) 1"
  have le: "HEAP_BASE + 16 * length ys \<le> b" "b + 16 * Suc (length zs) \<le> HEAP_END"
    using tseg_le [OF assms(2)] tseg_le [OF tb] by simp_all
  have ys1: "tseg ?m1 HEAP_BASE ys b" by (rule tseg_frame [OF _ assms(2)]) (simp add: wr64_other)
  have zs1: "tseg ?m1 b ((s, True) # zs) HEAP_END"
  proof -
    have "tseg ?m1 (b + 16 + s) zs HEAP_END"
      by (rule tseg_frame [of _ _ m]) (use tb in \<open>auto simp: wr64_other BLOCK_HDR_def\<close>)
    then show ?thesis using tb by (simp add: b_size_def b_free_def rd64_wr64_same rd64_wr64_other BLOCK_HDR_def)
  qed
  have fl: "length zs < coalesce_fuel" using le by (simp add: coalesce_fuel_def heap_consts)
  have bf: "block_free m (b + BLOCK_HDR) = (case block_prev ?m1 b HEAP_BASE None of
      Some p \<Rightarrow> (if b_free ?m1 p then coalesce_forward coalesce_fuel (wr64 ?m1 p (b_size ?m1 p + 16 + s)) p
                 else coalesce_forward coalesce_fuel ?m1 b)
    | None \<Rightarrow> coalesce_forward coalesce_fuel ?m1 b)"
  proof -
    have s1: "b_size ?m1 b = s" using zs1 by simp
    have g: "\<not> (b + BLOCK_HDR < BLOCK_HDR \<or> b < HEAP_BASE \<or> HEAP_END \<le> b)" "b + BLOCK_HDR \<noteq> 0"
      using le by (simp_all add: BLOCK_HDR_def)
    show ?thesis
      unfolding block_free_def Let_def set_flags_def set_size_def add_diff_cancel_right' if_not_P [OF g(1)] if_not_P [OF g(2)] s1
      by (simp only: BLOCK_HDR_def)
  qed
  have plain: "tiles (coalesce_forward coalesce_fuel ?m1 b) (ys @ (merged_size s zs, True) # after_free zs)"
  proof -
    note C = coalesce_tiles [OF zs1 fl]
    have "tseg (coalesce_forward coalesce_fuel ?m1 b) HEAP_BASE ys b"
      by (rule tseg_frame [OF _ ys1]) (use C in auto)
    then show ?thesis unfolding tseg_append using C by blast
  qed
  have le1: "16 * length ys + HEAP_BASE \<le> b" using le(1) by simp
  note P = block_prev_tiles [OF ys1 le1, of None]
  show ?thesis
  proof (cases "ys = []")
    case True
    then show ?thesis using bf plain P by (simp add: free_tile_def)
  next
    case False
    obtain ws n f where ys: "ys = ws @ [(n, f)]" using False by (metis rev_exhaust surj_pair)
    let ?p = "b - 16 - n"
    have p: "block_prev ?m1 b HEAP_BASE None = Some ?p" "HEAP_BASE + 16 + n \<le> b" "tseg ?m1 HEAP_BASE ws ?p"
      using P ys by auto
    have pt: "tseg ?m1 ?p [(n, f)] b"
    proof -
      have "tseg m a us c \<Longrightarrow> tseg m a us d \<Longrightarrow> c = d" for m a us c d by (induction us arbitrary: a) auto
      then show ?thesis using ys1 p(3) unfolding ys tseg_append by blast
    qed
    then have ph: "b_size ?m1 ?p = n" "b_free ?m1 ?p = f" "16 dvd n" by auto
    show ?thesis
    proof (cases f)
      case False
      then show ?thesis using bf plain p ph ys by (simp add: free_tile_def)
    next
      case True
      let ?m2 = "wr64 ?m1 ?p (n + 16 + s)"
      have sz: "n + 16 + s < 2 ^ 64"
        using p(2) tseg_le [of m "b + 16 + s" zs HEAP_END] tb HEAP_END_small by (simp add: BLOCK_HDR_def)
      have s16: "16 dvd s" using tb by simp
      have e: "?p + 16 + (n + 16 + s) = b + 16 + s" using p(2) by simp
      have "tseg ?m2 (b + 16 + s) zs HEAP_END"
        by (rule tseg_frame [of _ _ ?m1]) (use zs1 p(2) in \<open>auto simp: wr64_other BLOCK_HDR_def\<close>)
      then have t: "tseg ?m2 (?p + BLOCK_HDR + (n + 16 + s)) zs HEAP_END" unfolding BLOCK_HDR_def e .
      have "tseg ?m2 ?p ((n + 16 + s, True) # zs) HEAP_END"
        unfolding tseg.simps
        by (intro conjI t)
           (use ph True sz s16 in \<open>simp_all add: b_size_def b_free_def rd64_wr64_same rd64_wr64_other\<close>)
      note C = coalesce_tiles [OF this fl]
      have "tseg (coalesce_forward coalesce_fuel ?m2 ?p) HEAP_BASE ws ?p"
        by (rule tseg_frame [OF _ p(3)]) (use C in \<open>auto simp: wr64_other\<close>)
      then have "tiles (coalesce_forward coalesce_fuel ?m2 ?p) (ws @ (merged_size (n + 16 + s) zs, True) # after_free zs)"
        unfolding tseg_append using C by blast
      moreover have "block_free m (b + BLOCK_HDR) = coalesce_forward coalesce_fuel ?m2 ?p" using bf p ph True by simp
      ultimately show ?thesis using True ys by (simp add: free_tile_def)
    qed
  qed
qed

section \<open>A request that wraps\<close>

lemma heap_init_tiles: "tiles (h_mem (heap_init s)) [(HEAP_SIZE - 16, True)]"
proof -
  have "(HEAP_SIZE - BLOCK_HDR) < 2 ^ 64" by (simp add: HEAP_SIZE_def)
  then show ?thesis
    by (simp add: heap_init_def Let_def set_size_def set_flags_def b_size_def b_free_def rd64_zero
        rd64_wr64_same rd64_wr64_other BLOCK_HDR_def)
       (simp add: heap_consts)
qed

text \<open>
  A request of nearly 2 to the 64 bytes succeeds.  Rounding the size up to sixteen wraps to
  zero, so right after \<open>heap_init\<close> the allocator answers a request for any
  of the largest fifteen sizes with a block of size zero at the start of the heap instead of a null pointer.
\<close>

theorem heap_malloc_wraps:
  assumes "2 ^ 64 - 15 \<le> n" "n < 2 ^ 64"
  shows "\<exists>s'. heap_malloc oom (heap_init s) n = (HEAP_BASE + BLOCK_HDR, s') \<and>
    tiles (h_mem s') [(0, False), (HEAP_SIZE - 32, True)]"
proof -
  obtain k where k: "n = 2 ^ 64 - 15 + k" "k < 15" using assms le_Suc_ex [of "2 ^ 64 - 15" n] by auto
  then have "n + 15 = 2 ^ 64 + k" by simp
  then have r: "round16 n = 0" using k(2) by (simp add: round16_def)
  have ff: "first_fit 0 HEAP_BASE [(HEAP_SIZE - 16, True)] = Some (HEAP_BASE, [(0, False), (HEAP_SIZE - 32, True)])"
    by (simp add: split_tile_def HEAP_SIZE_def)
  have big: "\<not> n \<le> slab_sizes c" if "c < 8" for c
  proof -
    have "\<forall>x \<in> set [16, 32, 64, 128, 256, 512, 1024, 2048 :: nat]. x \<le> 2048" by simp
    then have "slab_sizes c \<le> 2048" using that by (simp add: slab_sizes_def nth_mem del: set_simps)
    then show ?thesis using assms by simp
  qed
  have "first_idx (\<lambda>c. n \<le> slab_sizes c) 0 SLAB_NUM_CLASSES = None"
    unfolding first_idx_None using big by (simp add: SLAB_NUM_CLASSES_def)
  moreover obtain m' where "block_malloc (h_mem (heap_init s)) n = (HEAP_BASE + BLOCK_HDR, m')"
      "tiles m' [(0, False), (HEAP_SIZE - 32, True)]"
    using block_search_tiles [OF heap_init_tiles [of s], of "0"] ff r by (auto simp: block_malloc_def)
  ultimately show ?thesis using assms by (auto simp: heap_malloc_def)
qed

section \<open>Witnesses\<close>

definition heap_zero :: heap where
  "heap_zero = \<lparr>h_mem = (\<lambda>_. 0), slab_cache = (\<lambda>_. 0), h_pmm = pmm_blank 0\<rparr>"

lemma heap_malloc_wraps_witness:
  "\<exists>s'. heap_malloc id (heap_init heap_zero) (2 ^ 64 - 1) = (HEAP_BASE + BLOCK_HDR, s') \<and>
    tiles (h_mem s') [(0, False), (HEAP_SIZE - 32, True)]"
  by (rule heap_malloc_wraps) simp_all

lemma block_malloc_first_fit_witness:
  "\<exists>m'. block_malloc (h_mem (heap_init heap_zero)) 4000 = (HEAP_BASE + BLOCK_HDR, m') \<and>
     tiles m' [(4000, False), (HEAP_SIZE - 4032, True)]"
  using block_malloc_first_fit [OF heap_init_tiles [of heap_zero], of 4000]
  by (auto simp: round16_def split_tile_def HEAP_SIZE_def)

text \<open>Two blocks are allocated; freeing the first one leaves it alone, freeing the second merges all.\<close>

lemma block_free_merges_witness:
  "\<exists>m. tiles m [(32, False), (HEAP_SIZE - 64, True)] \<and> tiles (block_free m (HEAP_BASE + BLOCK_HDR)) [(HEAP_SIZE - 16, True)]"
proof -
  obtain m where m: "tiles m [(32, False), (HEAP_SIZE - 64, True)]"
    using block_search_tiles [OF heap_init_tiles [of heap_zero], of 32]
    by (auto simp: split_tile_def HEAP_SIZE_def)
  have "tiles (block_free m (HEAP_BASE + BLOCK_HDR)) (free_tile [] 32 [(HEAP_SIZE - 64, True)])"
    by (rule block_free_merges) (use m in simp_all)
  moreover have "free_tile [] 32 [(HEAP_SIZE - 64, True)] = [(HEAP_SIZE - 16, True)]"
    by (simp add: free_tile_def HEAP_SIZE_def)
  ultimately show ?thesis using m by metis
qed

end
