(* ===== verification/Bytes.thy ===== *)
theory Bytes
  imports CString
begin

text \<open>
  Sectors and the bytes of numbers in them, for the file systems: a structure goes to disk byte
  by byte, least significant byte first, in the layout the compiler gives it.
\<close>

type_synonym sector = "nat \<Rightarrow> u8"

definition le_bytes :: "nat \<Rightarrow> nat \<Rightarrow> u8 list" where
  "le_bytes n v = map (\<lambda>i. of_nat (v div 256 ^ i)) [0..<n]"

definition le_value :: "u8 list \<Rightarrow> nat" where
  "le_value bs = foldr (\<lambda>b v. unat b + 256 * v) bs 0"

definition bytes_at :: "sector \<Rightarrow> nat \<Rightarrow> nat \<Rightarrow> u8 list" where
  "bytes_at b off n = map b [off..<off + n]"

definition put_bytes :: "sector \<Rightarrow> nat \<Rightarrow> u8 list \<Rightarrow> sector" where
  "put_bytes b off bs = (\<lambda>i. if off \<le> i \<and> i < off + length bs then bs ! (i - off) else b i)"

definition zero_sector :: sector where
  "zero_sector = (\<lambda>_. 0)"

text \<open>The string in a fixed-size character array.\<close>

definition c_str :: "u8 list \<Rightarrow> str" where
  "c_str bs = takeWhile (\<lambda>c. c \<noteq> 0) bs"

lemma le_value_bytes: "le_value (le_bytes n v) = v mod 256 ^ n"
proof (induction n arbitrary: v)
  case (Suc n)
  have "le_bytes (Suc n) v = of_nat v # le_bytes n (v div 256)"
    by (simp add: le_bytes_def upt_conv_Cons map_Suc_upt [symmetric] comp_def div_mult2_eq del: upt_Suc map_map)
       (simp add: div_mult2_eq)
  then have "le_value (le_bytes (Suc n) v) = unat (of_nat v :: u8) + 256 * le_value (le_bytes n (v div 256))"
    by (simp add: le_value_def)
  also have "\<dots> = v mod 256 + 256 * (v div 256 mod 256 ^ n)"
    by (simp add: Suc.IH unsigned_of_nat take_bit_eq_mod)
  finally show ?case by (simp add: mod_mult2_eq)
qed (simp add: le_bytes_def le_value_def)

lemma length_le_bytes [simp]: "length (le_bytes n v) = n"
  by (simp add: le_bytes_def)

lemma bytes_at_put: "bytes_at (put_bytes b off bs) (off + i) n = take n (drop i bs)" if "i + n \<le> length bs"
  by (rule nth_equalityI) (use that in \<open>auto simp: bytes_at_def put_bytes_def\<close>)

lemma bytes_at_put_other: "off + n \<le> p \<or> p + length bs \<le> off \<Longrightarrow> bytes_at (put_bytes b p bs) off n = bytes_at b off n"
  by (auto simp: bytes_at_def put_bytes_def)

lemma length_bytes_at [simp]: "length (bytes_at b off n) = n"
  by (simp add: bytes_at_def)

lemma strncmp_take:
  assumes "0 \<notin> set a" "0 \<notin> set b"
  shows "strncmp a b n = 0 \<longleftrightarrow> take n a = take n b"
  using assms
proof (induction n arbitrary: a b)
  case (Suc n)
  have eq: "uint x = uint y \<longleftrightarrow> x = y" for x y :: u8 by (simp add: word_uint_eq_iff)
  show ?case
    using Suc eq by (cases a; cases b) (auto simp: ch_def uint_0_iff)
qed simp

lemma c_str_padded: "0 \<notin> set xs \<Longrightarrow> c_str (xs @ replicate k 0) = xs"
  by (induction xs) (auto simp: c_str_def takeWhile_append)

end
