(* ===== verification/Inode.thy ===== *)
theory Inode
  imports Bytes
begin

text \<open>
  The types include/kernel.h shares between the virtual file system and the file systems: the
  attributes of an inode, the inode in memory, and the table of operations a file system
  supplies.  An operation is a function on the state of the file system; one the caller may
  find to be a null pointer is optional.  An inode refers to its table by address, so the
  tables are a parameter of the code that calls through them.
\<close>

record inode_attr =
  ia_uid :: u32
  ia_gid :: u32
  ia_mode :: u16
  ia_type :: nat
  ia_size :: nat
  ia_ino :: nat
  ia_nlink :: nat
  ia_atime :: u64
  ia_mtime :: u64
  ia_ctime :: u64
  ia_dev :: u32
  ia_rdev :: u32
  ia_blocks :: nat
  ia_blksize :: nat

record vfs_inode =
  vi_valid :: bool
  vi_ino :: nat
  vi_dev :: u32
  vi_rdev :: u32
  vi_refcount :: nat
  vi_attr :: inode_attr
  vi_ops :: nat
  vi_fs_data :: nat
  vi_mount :: nat

definition attr_zero :: inode_attr where
  "attr_zero = \<lparr>ia_uid = 0, ia_gid = 0, ia_mode = 0, ia_type = 0, ia_size = 0, ia_ino = 0, ia_nlink = 0,
     ia_atime = 0, ia_mtime = 0, ia_ctime = 0, ia_dev = 0, ia_rdev = 0, ia_blocks = 0, ia_blksize = 0\<rparr>"

definition inode_zero :: vfs_inode where
  "inode_zero = \<lparr>vi_valid = False, vi_ino = 0, vi_dev = 0, vi_rdev = 0, vi_refcount = 0, vi_attr = attr_zero,
     vi_ops = 0, vi_fs_data = 0, vi_mount = 0\<rparr>"

text \<open>
  Each operation returns its i64 result, then what it stores through its pointer arguments (the
  bytes of the buffer, the inode it may change, the inode it fills in, whose old contents it
  gets), then the state of the file system.
\<close>

record 'd inode_ops =
  op_read :: "(vfs_inode \<Rightarrow> nat \<Rightarrow> nat \<Rightarrow> 'd \<Rightarrow> int \<times> u8 list \<times> 'd) option"
  op_write :: "(vfs_inode \<Rightarrow> u8 list \<Rightarrow> nat \<Rightarrow> 'd \<Rightarrow> int \<times> vfs_inode \<times> 'd) option"
  op_readdir :: "(vfs_inode \<Rightarrow> nat \<Rightarrow> nat \<Rightarrow> 'd \<Rightarrow> int \<times> u8 list \<times> nat \<times> 'd) option"
  op_lookup :: "(vfs_inode \<Rightarrow> str \<Rightarrow> vfs_inode \<Rightarrow> 'd \<Rightarrow> int \<times> vfs_inode \<times> 'd) option"
  op_create :: "vfs_inode \<Rightarrow> str \<Rightarrow> u16 \<Rightarrow> vfs_inode \<Rightarrow> 'd \<Rightarrow> int \<times> vfs_inode \<times> 'd"
  op_mkdir :: "vfs_inode \<Rightarrow> str \<Rightarrow> u16 \<Rightarrow> 'd \<Rightarrow> int \<times> 'd"
  op_unlink :: "vfs_inode \<Rightarrow> str \<Rightarrow> 'd \<Rightarrow> int \<times> 'd"
  op_rmdir :: "vfs_inode \<Rightarrow> str \<Rightarrow> 'd \<Rightarrow> int \<times> 'd"
  op_setattr :: "vfs_inode \<Rightarrow> inode_attr \<Rightarrow> 'd \<Rightarrow> int \<times> vfs_inode \<times> 'd"
  op_getsize :: "(vfs_inode \<Rightarrow> 'd \<Rightarrow> int) option"

text \<open>
  What the virtual file system relies on: a lookup that succeeds delivers a valid inode with one
  reference, and a write leaves both as they are.
\<close>

locale file_system =
  fixes ops :: "nat \<Rightarrow> 'd inode_ops"
  assumes lookup_inode: "op_lookup (ops t) = Some f \<Longrightarrow> f d name out st = (r, i, st') \<Longrightarrow> 0 \<le> r \<Longrightarrow>
      vi_valid i \<and> vi_refcount i = 1"
    and write_inode: "op_write (ops t) = Some f' \<Longrightarrow> f' j bs off st = (r, i, st') \<Longrightarrow>
      vi_valid i = vi_valid j \<and> vi_refcount i = vi_refcount j"

end
