(* ===== verification/Vfs.thy ===== *)
theory Vfs
  imports Inode Pipe
begin

text \<open>
  kernel/vfs.c: mounts, path names, open files and descriptors.  The state holds the three tables
  and, beside them, the pipes by address and the state of the file systems.  The tables of
  operations that inodes point to are the parameter \<open>ops\<close>; \<open>junk\<close> is what an
  uninitialised inode on the stack holds, \<open>free_data\<close> is \<open>heap_free\<close> on the private
  data of an inode, and \<open>palloc\<close> is the address the heap gives to a new pipe, 0 if none.
  A path is the list of its characters, without the terminating zero.
\<close>

definition MAX_INODE :: nat where "MAX_INODE = 1024"
definition MAX_MOUNT :: nat where "MAX_MOUNT = 8"
definition MAX_PATH :: nat where "MAX_PATH = 256"
definition FD_MAX :: nat where "FD_MAX = 256"
definition IT_FILE :: nat where "IT_FILE = 1"
definition IT_PIPE :: nat where "IT_PIPE = 3"

lemmas vfs_consts = MAX_INODE_def MAX_MOUNT_def MAX_PATH_def FD_MAX_def IT_FILE_def IT_PIPE_def

record vfs_mount =
  mt_valid :: bool
  mt_path :: str
  mt_dev :: u32
  mt_root :: vfs_inode
  mt_fstype :: str

record vfs_fd =
  fd_in_use :: bool
  fd_inode :: "nat option"
  fd_offset :: nat
  fd_flags :: nat
  fd_type :: nat
  fd_pipe :: nat

record 'd vfs =
  vs_inodes :: "nat \<Rightarrow> vfs_inode"
  vs_mounts :: "nat \<Rightarrow> vfs_mount"
  vs_fds :: "nat \<Rightarrow> vfs_fd"
  vs_next_ino :: nat
  vs_pipes :: "nat \<Rightarrow> pipe option"
  vs_dev :: 'd

definition fd_zero :: vfs_fd where
  "fd_zero = \<lparr>fd_in_use = False, fd_inode = None, fd_offset = 0, fd_flags = 0, fd_type = 0, fd_pipe = 0\<rparr>"

definition mount_zero :: vfs_mount where
  "mount_zero = \<lparr>mt_valid = False, mt_path = [], mt_dev = 0, mt_root = inode_zero, mt_fstype = []\<rparr>"

definition vfs_core_init :: "'d vfs \<Rightarrow> 'd vfs" where
  "vfs_core_init s = s\<lparr>vs_inodes := (\<lambda>_. inode_zero), vs_mounts := (\<lambda>_. mount_zero),
     vs_fds := (\<lambda>i. if i < 3 then fd_zero\<lparr>fd_in_use := True, fd_type := IT_FILE\<rparr> else fd_zero)\<rparr>"

definition set_inode :: "nat \<Rightarrow> vfs_inode \<Rightarrow> 'd vfs \<Rightarrow> 'd vfs" where
  "set_inode i n s = s\<lparr>vs_inodes := (vs_inodes s)(i := n)\<rparr>"

definition set_fd :: "nat \<Rightarrow> vfs_fd \<Rightarrow> 'd vfs \<Rightarrow> 'd vfs" where
  "set_fd i f s = s\<lparr>vs_fds := (vs_fds s)(i := f)\<rparr>"

section \<open>Inodes and descriptors\<close>

definition inode_alloc :: "'d vfs \<Rightarrow> nat option \<times> 'd vfs" where
  "inode_alloc s =
     (case first_idx (\<lambda>i. \<not> vi_valid (vs_inodes s i)) 0 MAX_INODE of
        None \<Rightarrow> (None, s)
      | Some i \<Rightarrow>
          (Some i, (set_inode i ((vs_inodes s i)\<lparr>vi_valid := True, vi_ino := vs_next_ino s, vi_refcount := 1\<rparr>) s)
             \<lparr>vs_next_ino := (vs_next_ino s + 1) mod 2 ^ 64\<rparr>))"

definition inode_ref :: "nat option \<Rightarrow> 'd vfs \<Rightarrow> 'd vfs" where
  "inode_ref p s =
     (case p of
        None \<Rightarrow> s
      | Some i \<Rightarrow> set_inode i ((vs_inodes s i)\<lparr>vi_refcount := (vi_refcount (vs_inodes s i) + 1) mod 2 ^ 32\<rparr>) s)"

definition inode_deref :: "(nat \<Rightarrow> 'd \<Rightarrow> 'd) \<Rightarrow> nat option \<Rightarrow> 'd vfs \<Rightarrow> 'd vfs" where
  "inode_deref free_data p s =
     (case p of
        None \<Rightarrow> s
      | Some i \<Rightarrow>
          (let n = vs_inodes s i; rc = (vi_refcount n + 2 ^ 32 - 1) mod 2 ^ 32
           in if rc > 0 then set_inode i (n\<lparr>vi_refcount := rc\<rparr>) s
              else let s1 = set_inode i (n\<lparr>vi_refcount := rc, vi_valid := False, vi_fs_data := 0\<rparr>) s
                   in if vi_fs_data n \<noteq> 0 then s1\<lparr>vs_dev := free_data (vi_fs_data n) (vs_dev s1)\<rparr> else s1))"

definition fd_alloc :: "'d vfs \<Rightarrow> nat option \<times> 'd vfs" where
  "fd_alloc s =
     (case first_idx (\<lambda>i. \<not> fd_in_use (vs_fds s i)) 3 (FD_MAX - 3) of
        None \<Rightarrow> (None, s)
      | Some i \<Rightarrow> (Some i, set_fd i ((vs_fds s i)\<lparr>fd_in_use := True\<rparr>) s))"

definition fd_get :: "'d vfs \<Rightarrow> nat \<Rightarrow> vfs_fd option" where
  "fd_get s fd = (if fd \<ge> FD_MAX \<or> \<not> fd_in_use (vs_fds s fd) then None else Some (vs_fds s fd))"

section \<open>Mounts and paths\<close>

definition vfs_mount_fs :: "str \<Rightarrow> str \<Rightarrow> u32 \<Rightarrow> vfs_inode \<Rightarrow> 'd vfs \<Rightarrow> int \<times> 'd vfs" where
  "vfs_mount_fs path fstype dev root s =
     (if length path \<ge> MAX_PATH then (EINVAL, s)
      else case first_idx (\<lambda>i. \<not> mt_valid (vs_mounts s i)) 0 MAX_MOUNT of
        None \<Rightarrow> (ENOMEM, s)
      | Some i \<Rightarrow>
          (0, s\<lparr>vs_mounts := (vs_mounts s)(i := \<lparr>mt_valid = True, mt_path = path, mt_dev = dev, mt_root = root,
                  mt_fstype = fstype\<rparr>)\<rparr>))"

definition mount_matches :: "vfs_mount \<Rightarrow> str \<Rightarrow> bool" where
  "mount_matches m path \<longleftrightarrow> mt_valid m \<and> \<not> length (mt_path m) > length path \<and>
     \<not> (length (mt_path m) > 1 \<and> ch path (length (mt_path m)) \<noteq> 47) \<and>
     strncmp (mt_path m) path (length (mt_path m)) = 0"

text \<open>The loop over the mount table, with the best mount so far and the length of its path.\<close>

fun best_mount :: "(nat \<Rightarrow> vfs_mount) \<Rightarrow> str \<Rightarrow> nat option \<Rightarrow> nat \<Rightarrow> nat \<Rightarrow> nat \<Rightarrow> nat option" where
  "best_mount ms path best blen i 0 = best"
| "best_mount ms path best blen i (Suc k) =
     (if mount_matches (ms i) path \<and> length (mt_path (ms i)) > blen
      then best_mount ms path (Some i) (length (mt_path (ms i))) (i + 1) k
      else best_mount ms path best blen (i + 1) k)"

text \<open>The mount and the path relative to it.\<close>

definition find_mount :: "'d vfs \<Rightarrow> str \<Rightarrow> (nat \<times> str) option" where
  "find_mount s path =
     (case best_mount (vs_mounts s) path None 0 0 MAX_MOUNT of
        None \<Rightarrow> None
      | Some i \<Rightarrow>
          (let mlen = length (mt_path (vs_mounts s i));
               rel = (if mlen < length path then drop mlen path else [47])
           in Some (i, if ch rel 0 = 47 then tl rel else rel)))"

lemma walk_shorter:
  assumes "dropWhile (\<lambda>c. c = 47) p \<noteq> []"
  shows "length (dropWhile (\<lambda>c. c \<noteq> 47) (dropWhile (\<lambda>c. c = 47) p)) < length (p :: str)"
proof -
  obtain c q where q: "dropWhile (\<lambda>c. c = 47) p = c # q" using assms by (cases "dropWhile (\<lambda>c. c = 47) p") auto
  then have "c \<noteq> 47" using hd_dropWhile [OF assms] by simp
  then have "length (dropWhile (\<lambda>c. c \<noteq> 47) (c # q)) \<le> length q" by (simp add: length_dropWhile_le)
  moreover have "length (c # q) \<le> length p" using length_dropWhile_le [of "\<lambda>c. c = 47" p] unfolding q .
  ultimately show ?thesis unfolding q by simp
qed

text \<open>
  The loop of \<open>path_walk\<close> over the rest of the path; the call through a null pointer, which
  is a crash, is left unspecified.
\<close>

function walk_loop :: "(nat \<Rightarrow> 'd inode_ops) \<Rightarrow> vfs_inode \<Rightarrow> vfs_inode \<Rightarrow> str \<Rightarrow> 'd \<Rightarrow> int \<times> vfs_inode \<times> 'd" where
  "walk_loop ops junk cur p d =
     (let q = dropWhile (\<lambda>c. c = 47) p
      in if q = [] then (0, cur, d)
         else case the (op_lookup (ops (vi_ops cur))) cur (takeWhile (\<lambda>c. c \<noteq> 47) q) junk d of
                (r, nxt, d1) \<Rightarrow>
                  (if r < 0 then (r, junk, d1) else walk_loop ops junk nxt (dropWhile (\<lambda>c. c \<noteq> 47) q) d1))"
  by pat_completeness auto
termination
  by (relation "measure (\<lambda>(ops, junk, cur, p, d). length p)") (simp_all add: walk_shorter)

declare walk_loop.simps [simp del]

definition path_walk :: "(nat \<Rightarrow> 'd inode_ops) \<Rightarrow> vfs_inode \<Rightarrow> vfs_inode \<Rightarrow> str \<Rightarrow> 'd \<Rightarrow> int \<times> vfs_inode \<times> 'd" where
  "path_walk ops junk start path d =
     (if \<not> vi_valid start \<or> op_lookup (ops (vi_ops start)) = None then (ENOENT, junk, d)
      else if path = [] then (0, start, d)
      else if length path \<ge> MAX_PATH then (ENAMETOOLONG, junk, d)
      else walk_loop ops junk start path d)"

section \<open>Files\<close>

text \<open>The descriptor and the inode slot for an inode that has been found or created.\<close>

definition bind_fd :: "vfs_inode \<Rightarrow> nat \<Rightarrow> 'd vfs \<Rightarrow> int \<times> 'd vfs" where
  "bind_fd inode ty s =
     (case fd_alloc s of
        (None, s1) \<Rightarrow> (ENOMEM, s1)
      | (Some fd, s1) \<Rightarrow>
          (case inode_alloc s1 of
             (None, s2) \<Rightarrow> (ENOMEM, set_fd fd ((vs_fds s2 fd)\<lparr>fd_inode := None, fd_in_use := False\<rparr>) s2)
           | (Some i, s2) \<Rightarrow>
               (int fd, set_fd fd \<lparr>fd_in_use = True, fd_inode = Some i, fd_offset = 0, fd_flags = 0, fd_type = ty,
                  fd_pipe = 0\<rparr> (set_inode i inode s2))))"

definition vfs_open :: "(nat \<Rightarrow> 'd inode_ops) \<Rightarrow> vfs_inode \<Rightarrow> str option \<Rightarrow> 'd vfs \<Rightarrow> int \<times> 'd vfs" where
  "vfs_open ops junk path s =
     (case path of
        None \<Rightarrow> (EFAULT, s)
      | Some p \<Rightarrow>
          (case find_mount s p of
             None \<Rightarrow> (ENOENT, s)
           | Some (m, rel) \<Rightarrow>
               (case path_walk ops junk (mt_root (vs_mounts s m)) rel (vs_dev s) of
                  (r, inode, d) \<Rightarrow>
                    (if r < 0 then (r, s\<lparr>vs_dev := d\<rparr>) else bind_fd inode (ia_type (vi_attr inode)) (s\<lparr>vs_dev := d\<rparr>)))))"

definition advance :: "nat \<Rightarrow> int \<Rightarrow> 'd vfs \<Rightarrow> 'd vfs" where
  "advance fd r s =
     (if r > 0 then set_fd fd ((vs_fds s fd)\<lparr>fd_offset := (fd_offset (vs_fds s fd) + nat r) mod 2 ^ 64\<rparr>) s else s)"

definition vfs_read :: "(nat \<Rightarrow> 'd inode_ops) \<Rightarrow> nat \<Rightarrow> nat \<Rightarrow> 'd vfs \<Rightarrow> int \<times> u8 list \<times> 'd vfs" where
  "vfs_read ops fd n s =
     (case fd_get s fd of
        None \<Rightarrow> (EBADF, [], s)
      | Some f \<Rightarrow>
          (case fd_inode f of
             None \<Rightarrow> (EBADF, [], s)
           | Some i \<Rightarrow>
               (if fd_type f = IT_PIPE
                then (case pipe_read (vs_pipes s (fd_pipe f)) n of
                        (r, p, bs) \<Rightarrow> (r, bs, s\<lparr>vs_pipes := (vs_pipes s)(fd_pipe f := p)\<rparr>))
                else (case op_read (ops (vi_ops (vs_inodes s i))) of
                        None \<Rightarrow> (EINVAL, [], s)
                      | Some rd \<Rightarrow>
                          (case rd (vs_inodes s i) n (fd_offset f) (vs_dev s) of
                             (r, bs, d) \<Rightarrow> (r, bs, advance fd r (s\<lparr>vs_dev := d\<rparr>)))))))"

definition vfs_write :: "(nat \<Rightarrow> 'd inode_ops) \<Rightarrow> nat \<Rightarrow> u8 list \<Rightarrow> 'd vfs \<Rightarrow> int \<times> 'd vfs" where
  "vfs_write ops fd bs s =
     (case fd_get s fd of
        None \<Rightarrow> (EBADF, s)
      | Some f \<Rightarrow>
          (case fd_inode f of
             None \<Rightarrow> (EBADF, s)
           | Some i \<Rightarrow>
               (if fd_type f = IT_PIPE
                then (case pipe_write (vs_pipes s (fd_pipe f)) bs of
                        (r, p) \<Rightarrow> (r, s\<lparr>vs_pipes := (vs_pipes s)(fd_pipe f := p)\<rparr>))
                else (case op_write (ops (vi_ops (vs_inodes s i))) of
                        None \<Rightarrow> (EINVAL, s)
                      | Some wr \<Rightarrow>
                          (case wr (vs_inodes s i) bs (fd_offset f) (vs_dev s) of
                             (r, n, d) \<Rightarrow> (r, advance fd r (set_inode i n (s\<lparr>vs_dev := d\<rparr>))))))))"

definition vfs_close :: "(nat \<Rightarrow> 'd \<Rightarrow> 'd) \<Rightarrow> nat \<Rightarrow> 'd vfs \<Rightarrow> int \<times> 'd vfs" where
  "vfs_close free_data fd s =
     (case fd_get s fd of
        None \<Rightarrow> (EBADF, s)
      | Some f \<Rightarrow>
          (let s1 = inode_deref free_data (fd_inode f) s;
               s2 = (if fd_type f = IT_PIPE \<and> fd_pipe f \<noteq> 0 then s1\<lparr>vs_pipes := (vs_pipes s1)(fd_pipe f := None)\<rparr> else s1)
           in (0, set_fd fd ((vs_fds s2 fd)\<lparr>fd_in_use := False, fd_inode := None, fd_pipe := 0\<rparr>) s2)))"

definition vfs_seek :: "(nat \<Rightarrow> 'd inode_ops) \<Rightarrow> nat \<Rightarrow> int \<Rightarrow> nat \<Rightarrow> 'd vfs \<Rightarrow> int \<times> 'd vfs" where
  "vfs_seek ops fd offset whence s =
     (case fd_get s fd of
        None \<Rightarrow> (EBADF, s)
      | Some f \<Rightarrow>
          (case fd_inode f of
             None \<Rightarrow> (EBADF, s)
           | Some i \<Rightarrow>
               (let sz = (case op_getsize (ops (vi_ops (vs_inodes s i))) of None \<Rightarrow> 0 | Some g \<Rightarrow> g (vs_inodes s i) (vs_dev s));
                    go = (\<lambda>z. let o' = nat (z mod 2 ^ 64) in (i64_of_u64 o', set_fd fd (f\<lparr>fd_offset := o'\<rparr>) s))
                in if whence = 0 then go offset
                   else if whence = 1 then go (int (fd_offset f) + offset)
                   else if whence = 2 then go (sz + offset)
                   else (EINVAL, s))))"


section \<open>Attributes\<close>

record statbuf =
  sb_dev :: u32
  sb_ino :: nat
  sb_nlink :: nat
  sb_mode :: u16
  sb_uid :: u32
  sb_gid :: u32
  sb_rdev :: u32
  sb_size :: nat
  sb_blksize :: nat
  sb_blocks :: nat
  sb_atime :: u64
  sb_mtime :: u64
  sb_ctime :: u64

definition stat_of :: "vfs_inode \<Rightarrow> statbuf" where
  "stat_of i = \<lparr>sb_dev = vi_dev i, sb_ino = vi_ino i, sb_nlink = ia_nlink (vi_attr i), sb_mode = ia_mode (vi_attr i),
     sb_uid = ia_uid (vi_attr i), sb_gid = ia_gid (vi_attr i), sb_rdev = vi_rdev i, sb_size = ia_size (vi_attr i),
     sb_blksize = ia_blksize (vi_attr i), sb_blocks = ia_blocks (vi_attr i), sb_atime = ia_atime (vi_attr i),
     sb_mtime = ia_mtime (vi_attr i), sb_ctime = ia_ctime (vi_attr i)\<rparr>"

definition vfs_stat :: "(nat \<Rightarrow> 'd inode_ops) \<Rightarrow> vfs_inode \<Rightarrow> str \<Rightarrow> 'd vfs \<Rightarrow> int \<times> statbuf option \<times> 'd vfs" where
  "vfs_stat ops junk path s =
     (case find_mount s path of
        None \<Rightarrow> (ENOENT, None, s)
      | Some (m, rel) \<Rightarrow>
          (case path_walk ops junk (mt_root (vs_mounts s m)) rel (vs_dev s) of
             (r, i, d) \<Rightarrow> if r < 0 then (r, None, s\<lparr>vs_dev := d\<rparr>) else (0, Some (stat_of i), s\<lparr>vs_dev := d\<rparr>)))"

definition vfs_fstat :: "nat \<Rightarrow> 'd vfs \<Rightarrow> int \<times> statbuf option" where
  "vfs_fstat fd s =
     (case fd_get s fd of
        None \<Rightarrow> (EBADF, None)
      | Some f \<Rightarrow> (case fd_inode f of None \<Rightarrow> (EBADF, None) | Some i \<Rightarrow> (0, Some (stat_of (vs_inodes s i)))))"

section \<open>Creating and removing names\<close>

text \<open>The index of the last slash, as the scan over \<open>tmp\<close> leaves it.\<close>

fun last_slash :: "str \<Rightarrow> nat \<Rightarrow> nat option \<Rightarrow> nat option" where
  "last_slash [] i found = found"
| "last_slash (c # p) i found = last_slash p (i + 1) (if c = 47 then Some i else found)"

text \<open>
  The directory a path names its last component in, with that component: the part of
  \<open>vfs_mkdir\<close>, \<open>vfs_unlink\<close> and \<open>vfs_create\<close> before the call of the operation.
\<close>

definition parent_of :: "(nat \<Rightarrow> 'd inode_ops) \<Rightarrow> vfs_inode \<Rightarrow> str \<Rightarrow> 'd vfs \<Rightarrow> (int + vfs_inode \<times> str) \<times> 'd" where
  "parent_of ops junk path s =
     (case find_mount s path of
        None \<Rightarrow> (Inl ENOENT, vs_dev s)
      | Some (m, rel) \<Rightarrow>
          (if length rel \<ge> MAX_PATH then (Inl ENAMETOOLONG, vs_dev s)
           else case last_slash rel 0 None of
             None \<Rightarrow> (Inr (mt_root (vs_mounts s m), rel), vs_dev s)
           | Some k \<Rightarrow>
               (case path_walk ops junk (mt_root (vs_mounts s m)) (take k rel) (vs_dev s) of
                  (r, p, d) \<Rightarrow> (if r < 0 then Inl r else Inr (p, drop (k + 1) rel), d))))"

definition vfs_mkdir :: "(nat \<Rightarrow> 'd inode_ops) \<Rightarrow> vfs_inode \<Rightarrow> str \<Rightarrow> u16 \<Rightarrow> 'd vfs \<Rightarrow> int \<times> 'd vfs" where
  "vfs_mkdir ops junk path mode s =
     (case parent_of ops junk path s of
        (Inl e, d) \<Rightarrow> (e, s\<lparr>vs_dev := d\<rparr>)
      | (Inr (p, nm), d) \<Rightarrow> (case op_mkdir (ops (vi_ops p)) p nm mode d of (r, d1) \<Rightarrow> (r, s\<lparr>vs_dev := d1\<rparr>)))"

definition vfs_unlink :: "(nat \<Rightarrow> 'd inode_ops) \<Rightarrow> vfs_inode \<Rightarrow> str \<Rightarrow> 'd vfs \<Rightarrow> int \<times> 'd vfs" where
  "vfs_unlink ops junk path s =
     (case parent_of ops junk path s of
        (Inl e, d) \<Rightarrow> (e, s\<lparr>vs_dev := d\<rparr>)
      | (Inr (p, nm), d) \<Rightarrow> (case op_unlink (ops (vi_ops p)) p nm d of (r, d1) \<Rightarrow> (r, s\<lparr>vs_dev := d1\<rparr>)))"

definition vfs_create :: "(nat \<Rightarrow> 'd inode_ops) \<Rightarrow> vfs_inode \<Rightarrow> str \<Rightarrow> u16 \<Rightarrow> 'd vfs \<Rightarrow> int \<times> 'd vfs" where
  "vfs_create ops junk path mode s =
     (case parent_of ops junk path s of
        (Inl e, d) \<Rightarrow> (e, s\<lparr>vs_dev := d\<rparr>)
      | (Inr (p, nm), d) \<Rightarrow>
          (case op_create (ops (vi_ops p)) p nm mode junk d of
             (r, i, d1) \<Rightarrow> (if r < 0 then (r, s\<lparr>vs_dev := d1\<rparr>) else bind_fd i IT_FILE (s\<lparr>vs_dev := d1\<rparr>))))"

definition vfs_readdir :: "(nat \<Rightarrow> 'd inode_ops) \<Rightarrow> nat \<Rightarrow> nat \<Rightarrow> 'd vfs \<Rightarrow> int \<times> u8 list \<times> 'd vfs" where
  "vfs_readdir ops fd count s =
     (case fd_get s fd of
        None \<Rightarrow> (EBADF, [], s)
      | Some f \<Rightarrow>
          (case fd_inode f of
             None \<Rightarrow> (EBADF, [], s)
           | Some i \<Rightarrow>
               (case op_readdir (ops (vi_ops (vs_inodes s i))) of
                  None \<Rightarrow> (ENOTDIR, [], s)
                | Some rd \<Rightarrow> (case rd (vs_inodes s i) count 0 (vs_dev s) of (r, bs, off, d) \<Rightarrow> (r, bs, s\<lparr>vs_dev := d\<rparr>)))))"

section \<open>Duplicates and pipes\<close>

definition vfs_dup :: "nat \<Rightarrow> 'd vfs \<Rightarrow> int \<times> 'd vfs" where
  "vfs_dup oldfd s =
     (case fd_get s oldfd of
        None \<Rightarrow> (EBADF, s)
      | Some old \<Rightarrow>
          (case fd_alloc s of
             (None, s1) \<Rightarrow> (ENOMEM, s1)
           | (Some n, s1) \<Rightarrow> (int n, inode_ref (fd_inode old) (set_fd n old s1))))"

text \<open>The descriptor is copied after the other one has been closed, from the table as it is then.\<close>

definition vfs_dup2 :: "(nat \<Rightarrow> 'd \<Rightarrow> 'd) \<Rightarrow> nat \<Rightarrow> nat \<Rightarrow> 'd vfs \<Rightarrow> int \<times> 'd vfs" where
  "vfs_dup2 free_data oldfd newfd s =
     (if oldfd = newfd then (i64_of_u64 newfd, s)
      else case fd_get s oldfd of
        None \<Rightarrow> (EBADF, s)
      | Some _ \<Rightarrow>
          (if newfd \<ge> FD_MAX then (EBADF, s)
           else let s1 = (if fd_in_use (vs_fds s newfd) then snd (vfs_close free_data newfd s) else s);
                    old = vs_fds s1 oldfd
                in (int newfd, inode_ref (fd_inode old) (set_fd newfd (old\<lparr>fd_in_use := True\<rparr>) s1))))"

definition pipe_fd :: "nat \<Rightarrow> nat \<Rightarrow> vfs_fd" where
  "pipe_fd p flags = \<lparr>fd_in_use = True, fd_inode = None, fd_offset = 0, fd_flags = flags, fd_type = IT_PIPE, fd_pipe = p\<rparr>"

text \<open>The result and the two descriptors stored for the caller.\<close>

definition sys_pipe :: "((nat \<Rightarrow> pipe option) \<Rightarrow> nat) \<Rightarrow> 'd vfs \<Rightarrow> int \<times> (nat \<times> nat) option \<times> 'd vfs" where
  "sys_pipe palloc s =
     (let p = palloc (vs_pipes s)
      in if p = 0 then (ENOMEM, None, s)
         else let s1 = s\<lparr>vs_pipes := (vs_pipes s)(p := Some pipe_empty)\<rparr>;
                  freed = s1\<lparr>vs_pipes := (vs_pipes s1)(p := None)\<rparr>
              in case first_idx (\<lambda>i. \<not> fd_in_use (vs_fds s1 i)) 3 (FD_MAX - 3) of
                   None \<Rightarrow> (ENOMEM, None, freed)
                 | Some rfd \<Rightarrow>
                     (case first_idx (\<lambda>i. \<not> fd_in_use (vs_fds s1 i) \<and> i \<noteq> rfd) 3 (FD_MAX - 3) of
                        None \<Rightarrow> (ENOMEM, None, freed)
                      | Some wfd \<Rightarrow> (0, Some (rfd, wfd), set_fd wfd (pipe_fd p 1) (set_fd rfd (pipe_fd p 0) s1))))"

end
