(* ===== verification/Jfs.thy ===== *)
theory Jfs
  imports Bytes
begin

text \<open>
  kernel/jfs.c: the journalling file system.  The disk is a function from sector numbers to
  sectors of 512 bytes, which the ATA driver reads and writes whole; the in-memory state is the
  superblock, the inode table, the block bitmap and the journal ring.  The static block buffer
  is filled before every use, so it is a local value here.  Structures go to disk byte by byte
  in the layout the compiler gives them.  Sizes and offsets are natural numbers, with the
  reductions to 32 and 64 bits written out where a caller's offset can reach them.
\<close>

definition JFS_MAGIC :: u64 where "JFS_MAGIC = 0x4A465300"
definition JFS_MAX_INODES :: nat where "JFS_MAX_INODES = 256"
definition JFS_MAX_BLOCKS :: nat where "JFS_MAX_BLOCKS = 1024"
definition JFS_BLOCK_SIZE :: nat where "JFS_BLOCK_SIZE = 512"
definition JFS_JOURNAL_START :: nat where "JFS_JOURNAL_START = 131072"
definition JFS_DATA_START :: nat where "JFS_DATA_START = 132096"
definition JFS_SUPER_LBA :: nat where "JFS_SUPER_LBA = 131072"

definition JFS_IT_FREE :: nat where "JFS_IT_FREE = 0"
definition JFS_IT_FILE :: nat where "JFS_IT_FILE = 1"
definition JFS_IT_DIR :: nat where "JFS_IT_DIR = 2"

definition JFS_OP_WRITE :: nat where "JFS_OP_WRITE = 1"
definition JFS_OP_UNLINK :: nat where "JFS_OP_UNLINK = 2"
definition JFS_OP_MKDIR :: nat where "JFS_OP_MKDIR = 3"
definition JFS_OP_CREATE :: nat where "JFS_OP_CREATE = 4"

lemmas jfs_consts = JFS_MAX_INODES_def JFS_MAX_BLOCKS_def JFS_BLOCK_SIZE_def JFS_JOURNAL_START_def
  JFS_DATA_START_def JFS_SUPER_LBA_def JFS_IT_FREE_def JFS_IT_FILE_def JFS_IT_DIR_def
  JFS_OP_WRITE_def JFS_OP_UNLINK_def JFS_OP_MKDIR_def JFS_OP_CREATE_def

record jfs_super =
  js_magic :: u64
  js_version :: u32
  js_block_size :: u32
  js_total_blocks :: u64
  js_free_blocks :: u64
  js_total_inodes :: u64
  js_free_inodes :: u64
  js_journal_start :: u32
  js_journal_blocks :: u32
  js_data_start :: u32
  js_pad :: u32

record jfs_inode =
  ji_mode :: u16
  ji_type :: nat
  ji_uid :: u32
  ji_gid :: u32
  ji_size :: nat
  ji_blocks :: nat
  ji_atime :: u64
  ji_mtime :: u64
  ji_ctime :: u64
  ji_ptrs :: "nat \<Rightarrow> nat"

record jfs_journal_entry =
  je_op :: nat
  je_ino :: nat
  je_offset :: nat
  je_size :: nat
  je_data :: sector

record jfs_direntry =
  de_name :: "u8 list"
  de_ino :: u32
  de_type :: u8

record jfs =
  j_disk :: "nat \<Rightarrow> sector"
  j_super :: jfs_super
  j_inodes :: "nat \<Rightarrow> jfs_inode"
  j_bitmap :: "nat \<Rightarrow> u32"
  j_head :: nat
  j_tail :: nat
  j_count :: nat
  j_entries :: "nat \<Rightarrow> jfs_journal_entry"

definition jfs_inode_zero :: jfs_inode where
  "jfs_inode_zero = \<lparr>ji_mode = 0, ji_type = 0, ji_uid = 0, ji_gid = 0, ji_size = 0, ji_blocks = 0,
     ji_atime = 0, ji_mtime = 0, ji_ctime = 0, ji_ptrs = (\<lambda>_. 0)\<rparr>"

definition je_zero :: jfs_journal_entry where
  "je_zero = \<lparr>je_op = 0, je_ino = 0, je_offset = 0, je_size = 0, je_data = (\<lambda>_. 0)\<rparr>"

section \<open>Bytes of structures\<close>

definition super_bytes :: "jfs_super \<Rightarrow> u8 list" where
  "super_bytes s = le_bytes 8 (unat (js_magic s)) @ le_bytes 4 (unat (js_version s)) @
     le_bytes 4 (unat (js_block_size s)) @ le_bytes 8 (unat (js_total_blocks s)) @
     le_bytes 8 (unat (js_free_blocks s)) @ le_bytes 8 (unat (js_total_inodes s)) @
     le_bytes 8 (unat (js_free_inodes s)) @ le_bytes 4 (unat (js_journal_start s)) @
     le_bytes 4 (unat (js_journal_blocks s)) @ le_bytes 4 (unat (js_data_start s)) @
     le_bytes 4 (unat (js_pad s))"

definition super_of :: "sector \<Rightarrow> jfs_super" where
  "super_of b =
     \<lparr>js_magic = of_nat (le_value (bytes_at b 0 8)), js_version = of_nat (le_value (bytes_at b 8 4)),
      js_block_size = of_nat (le_value (bytes_at b 12 4)), js_total_blocks = of_nat (le_value (bytes_at b 16 8)),
      js_free_blocks = of_nat (le_value (bytes_at b 24 8)), js_total_inodes = of_nat (le_value (bytes_at b 32 8)),
      js_free_inodes = of_nat (le_value (bytes_at b 40 8)), js_journal_start = of_nat (le_value (bytes_at b 48 4)),
      js_journal_blocks = of_nat (le_value (bytes_at b 52 4)), js_data_start = of_nat (le_value (bytes_at b 56 4)),
      js_pad = of_nat (le_value (bytes_at b 60 4))\<rparr>"

definition entry_bytes :: "jfs_journal_entry \<Rightarrow> u8 list" where
  "entry_bytes e = le_bytes 4 (je_op e) @ le_bytes 4 (je_ino e) @ le_bytes 8 (je_offset e) @
     le_bytes 8 (je_size e) @ map (je_data e) [0..<JFS_BLOCK_SIZE - 32]"

text \<open>A directory entry takes 72 bytes: 64 of name, the inode number, the type, three of padding.\<close>

definition DE_SIZE :: nat where "DE_SIZE = 72"
definition DE_SLOTS :: nat where "DE_SLOTS = JFS_BLOCK_SIZE div DE_SIZE"

definition direntry_bytes :: "jfs_direntry \<Rightarrow> u8 list" where
  "direntry_bytes d = de_name d @ le_bytes 4 (unat (de_ino d)) @ [de_type d, 0, 0, 0]"

definition direntry_at :: "sector \<Rightarrow> nat \<Rightarrow> jfs_direntry" where
  "direntry_at b slot =
     \<lparr>de_name = bytes_at b (slot * DE_SIZE) 64,
      de_ino = of_nat (le_value (bytes_at b (slot * DE_SIZE + 64) 4)),
      de_type = b (slot * DE_SIZE + 68)\<rparr>"

section \<open>The bitmap of blocks\<close>

definition bitmap_set :: "jfs \<Rightarrow> nat \<Rightarrow> jfs" where
  "bitmap_set s b = s\<lparr>j_bitmap := (j_bitmap s)(b div 32 := j_bitmap s (b div 32) OR push_bit (b mod 32) 1)\<rparr>"

definition bitmap_clr :: "jfs \<Rightarrow> nat \<Rightarrow> jfs" where
  "bitmap_clr s b = s\<lparr>j_bitmap := (j_bitmap s)(b div 32 := j_bitmap s (b div 32) AND NOT (push_bit (b mod 32) 1))\<rparr>"

definition bitmap_tst :: "jfs \<Rightarrow> nat \<Rightarrow> bool" where
  "bitmap_tst s b = (drop_bit (b mod 32) (j_bitmap s (b div 32)) AND 1 = 1)"

definition write_sector :: "nat \<Rightarrow> sector \<Rightarrow> jfs \<Rightarrow> jfs" where
  "write_sector lba b s = s\<lparr>j_disk := (j_disk s)(lba := b)\<rparr>"

definition data_lba :: "jfs \<Rightarrow> nat \<Rightarrow> nat" where
  "data_lba s b = unat (js_data_start (j_super s) + of_nat b)"

section \<open>Mounting\<close>

definition fresh_super :: jfs_super where
  "fresh_super = \<lparr>js_magic = JFS_MAGIC, js_version = 1, js_block_size = of_nat JFS_BLOCK_SIZE,
     js_total_blocks = 65536, js_free_blocks = 65000, js_total_inodes = of_nat JFS_MAX_INODES,
     js_free_inodes = of_nat (JFS_MAX_INODES - 1), js_journal_start = of_nat JFS_JOURNAL_START,
     js_journal_blocks = 1024, js_data_start = of_nat JFS_DATA_START, js_pad = 0\<rparr>"

definition write_super :: "jfs \<Rightarrow> jfs" where
  "write_super s = write_sector JFS_SUPER_LBA (put_bytes zero_sector 0 (super_bytes (j_super s))) s"

definition jfs_init :: "jfs \<Rightarrow> jfs" where
  "jfs_init s =
     (let sup = super_of (j_disk s JFS_SUPER_LBA);
          s1 = (if js_magic sup \<noteq> JFS_MAGIC then write_super (s\<lparr>j_super := fresh_super\<rparr>)
                else s\<lparr>j_super := sup\<rparr>)
      in s1\<lparr>j_inodes := (\<lambda>_. jfs_inode_zero)(0 := jfs_inode_zero\<lparr>ji_type := JFS_IT_DIR, ji_mode := 0x1ED\<rparr>),
            j_head := 0, j_tail := 0, j_count := 0, j_entries := (\<lambda>_. je_zero), j_bitmap := (\<lambda>_. 0)\<rparr>)"

section \<open>Blocks and inodes\<close>

text \<open>The result \<^term>\<open>None\<close> is \<open>(u32)-1\<close>.\<close>

definition jfs_alloc_block :: "jfs \<Rightarrow> nat option \<times> jfs" where
  "jfs_alloc_block s =
     (case first_idx (\<lambda>i. \<not> bitmap_tst s i) 0 JFS_MAX_BLOCKS of
        None \<Rightarrow> (None, s)
      | Some i \<Rightarrow>
         (let s1 = bitmap_set s i;
              s2 = s1\<lparr>j_super := (j_super s1)\<lparr>js_free_blocks := js_free_blocks (j_super s1) - 1\<rparr>\<rparr>
          in (Some i, write_sector (data_lba s2 i) zero_sector s2)))"

definition jfs_free_block :: "jfs \<Rightarrow> nat \<Rightarrow> jfs" where
  "jfs_free_block s b =
     (if b \<ge> JFS_MAX_BLOCKS then s
      else if bitmap_tst s b
      then let s1 = bitmap_clr s b
           in s1\<lparr>j_super := (j_super s1)\<lparr>js_free_blocks := js_free_blocks (j_super s1) + 1\<rparr>\<rparr>
      else s)"

definition jfs_alloc_inode :: "jfs \<Rightarrow> nat option \<times> jfs" where
  "jfs_alloc_inode s =
     (case first_idx (\<lambda>i. ji_type (j_inodes s i) = JFS_IT_FREE) 1 (JFS_MAX_INODES - 1) of
        None \<Rightarrow> (None, s)
      | Some i \<Rightarrow> (Some i, s\<lparr>j_super := (j_super s)\<lparr>js_free_inodes := js_free_inodes (j_super s) - 1\<rparr>\<rparr>))"

section \<open>The journal\<close>

fun flush_entries :: "jfs \<Rightarrow> nat \<Rightarrow> nat \<Rightarrow> jfs" where
  "flush_entries s i 0 = s"
| "flush_entries s i (Suc k) =
     (let idx = (j_head s + i) mod 16;
          lba = unat (js_journal_start (j_super s) + of_nat idx)
      in flush_entries (write_sector lba (put_bytes zero_sector 0 (entry_bytes (j_entries s idx))) s) (i + 1) k)"

definition jfs_journal_flush :: "jfs \<Rightarrow> jfs" where
  "jfs_journal_flush s =
     (let s1 = flush_entries s 0 (j_count s) in write_super (s1\<lparr>j_head := j_tail s1, j_count := 0\<rparr>))"

text \<open>\<open>data\<close> is absent where the code passes a null pointer.\<close>

definition jfs_journal_commit :: "jfs \<Rightarrow> nat \<Rightarrow> nat \<Rightarrow> nat \<Rightarrow> nat \<Rightarrow> u8 list option \<Rightarrow> jfs" where
  "jfs_journal_commit s op ino offset sz data =
     (let e0 = j_entries s (j_tail s);
          d = (case data of None \<Rightarrow> je_data e0
               | Some bs \<Rightarrow> if sz \<le> JFS_BLOCK_SIZE - 32 then put_bytes (je_data e0) 0 (take sz bs) else je_data e0);
          e = \<lparr>je_op = op, je_ino = ino, je_offset = offset, je_size = sz, je_data = d\<rparr>;
          s1 = s\<lparr>j_entries := (j_entries s)(j_tail s := e), j_tail := (j_tail s + 1) mod 16, j_count := j_count s + 1\<rparr>
      in if j_count s1 \<ge> 16 then jfs_journal_flush s1 else s1)"

definition put_inode :: "jfs \<Rightarrow> nat \<Rightarrow> jfs_inode \<Rightarrow> jfs" where
  "put_inode s ino n = s\<lparr>j_inodes := (j_inodes s)(ino := n)\<rparr>"

section \<open>Files\<close>

text \<open>The common part of \<open>jfs_create\<close> and \<open>jfs_mkdir\<close>; the name is not used by either.\<close>

definition new_inode :: "jfs \<Rightarrow> nat \<Rightarrow> u16 \<Rightarrow> nat \<Rightarrow> int \<times> jfs" where
  "new_inode s ty mode op =
     (case jfs_alloc_inode s of
        (None, s1) \<Rightarrow> (ENOSPC, s1)
      | (Some ino, s1) \<Rightarrow>
         (let n = (j_inodes s1 ino)\<lparr>ji_type := ty, ji_mode := mode, ji_uid := 0, ji_gid := 0, ji_size := 0,
                    ji_blocks := 0, ji_ptrs := (\<lambda>_. 0)\<rparr>;
              s2 = put_inode s1 ino n
          in (int ino, jfs_journal_flush (jfs_journal_commit s2 op ino 0 0 None))))"

definition jfs_create :: "jfs \<Rightarrow> u16 \<Rightarrow> int \<times> jfs" where
  "jfs_create s mode = new_inode s JFS_IT_FILE mode JFS_OP_CREATE"

definition jfs_mkdir :: "jfs \<Rightarrow> u16 \<Rightarrow> int \<times> jfs" where
  "jfs_mkdir s mode = new_inode s JFS_IT_DIR mode JFS_OP_MKDIR"

definition file_ok :: "jfs \<Rightarrow> nat \<Rightarrow> bool" where
  "file_ok s ino \<longleftrightarrow> \<not> (ino \<ge> JFS_MAX_INODES \<or> ji_type (j_inodes s ino) \<noteq> JFS_IT_FILE)"

definition blk_idx :: "nat \<Rightarrow> nat" where
  "blk_idx pos = (pos mod 2 ^ 64 div JFS_BLOCK_SIZE) mod 2 ^ 32"

definition blk_off :: "nat \<Rightarrow> nat" where
  "blk_off pos = pos mod 2 ^ 64 mod JFS_BLOCK_SIZE"

definition chunk :: "nat \<Rightarrow> nat \<Rightarrow> nat" where
  "chunk pos left = min (JFS_BLOCK_SIZE - blk_off pos) left"

text \<open>Making sure block \<open>b\<close> of the inode has a block on disk; \<^term>\<open>None\<close> is no space.\<close>

definition ensure_block :: "jfs \<Rightarrow> nat \<Rightarrow> nat \<Rightarrow> jfs option" where
  "ensure_block s ino b =
     (if ji_ptrs (j_inodes s ino) b \<noteq> 0 then Some s
      else case jfs_alloc_block s of
        (None, _) \<Rightarrow> None
      | (Some blk, s1) \<Rightarrow>
         (let n = j_inodes s1 ino
          in Some (put_inode s1 ino (n\<lparr>ji_ptrs := (ji_ptrs n)(b := blk), ji_blocks := ji_blocks n + 1\<rparr>))))"

text \<open>
  Writing \<open>bs\<close> at \<open>off\<close> of the sector: the whole-sector case of the code, which does
  not read the sector first, is the same function.
\<close>

definition store_chunk :: "jfs \<Rightarrow> nat \<Rightarrow> nat \<Rightarrow> nat \<Rightarrow> u8 list \<Rightarrow> jfs" where
  "store_chunk s ino b off bs =
     (let lba = data_lba s (ji_ptrs (j_inodes s ino) b)
      in write_sector lba (put_bytes (j_disk s lba) off bs) s)"

text \<open>
  The loop of \<open>jfs_write\<close>: the bytes still to be written, the position in the file, the
  number written.  The second result tells whether the loop ran to its end.
\<close>

function write_loop :: "jfs \<Rightarrow> nat \<Rightarrow> u8 list \<Rightarrow> nat \<Rightarrow> nat \<Rightarrow> nat \<times> bool \<times> jfs" where
  "write_loop s ino data offset written =
     (if data = [] then (written, True, s)
      else let pos = offset + written; n = chunk pos (length data); bs = take n data
           in if blk_idx pos < 12
              then (case ensure_block s ino (blk_idx pos) of
                      None \<Rightarrow> (written, False, s)
                    | Some s1 \<Rightarrow>
                       write_loop (jfs_journal_commit (store_chunk s1 ino (blk_idx pos) (blk_off pos) bs)
                           JFS_OP_WRITE ino (pos mod 2 ^ 64) n (Some data))
                         ino (drop n data) offset (written + n))
              else write_loop (jfs_journal_commit s JFS_OP_WRITE ino (pos mod 2 ^ 64) n (Some data))
                     ino (drop n data) offset (written + n))"
  by pat_completeness auto
termination
  by (relation "measure (\<lambda>(s, ino, data, offset, written). length data)")
     (auto simp: chunk_def blk_off_def JFS_BLOCK_SIZE_def)

declare write_loop.simps [simp del]

definition jfs_write :: "jfs \<Rightarrow> nat \<Rightarrow> u8 list \<Rightarrow> nat \<Rightarrow> int \<times> jfs" where
  "jfs_write s ino data offset =
     (if \<not> file_ok s ino then (EBADF, s)
      else case write_loop s ino data offset 0 of
        (written, fin, s1) \<Rightarrow>
          (if \<not> fin then (if written \<noteq> 0 then int written else ENOSPC, s1)
           else let e = (offset + written) mod 2 ^ 64; n = j_inodes s1 ino;
                    s2 = (if e > ji_size n then put_inode s1 ino (n\<lparr>ji_size := e\<rparr>) else s1)
                in (int written, jfs_journal_flush s2)))"

definition load_chunk :: "jfs \<Rightarrow> nat \<Rightarrow> nat \<Rightarrow> nat \<Rightarrow> nat \<Rightarrow> u8 list" where
  "load_chunk s ino b off n =
     (if b < 12 \<and> ji_ptrs (j_inodes s ino) b \<noteq> 0
      then bytes_at (j_disk s (data_lba s (ji_ptrs (j_inodes s ino) b))) off n
      else replicate n 0)"

function read_loop :: "jfs \<Rightarrow> nat \<Rightarrow> nat \<Rightarrow> nat \<Rightarrow> u8 list" where
  "read_loop s ino pos left =
     (if left = 0 then []
      else let n = chunk pos left
           in load_chunk s ino (blk_idx pos) (blk_off pos) n @ read_loop s ino (pos + n) (left - n))"
  by pat_completeness auto
termination
  by (relation "measure (\<lambda>(s, ino, pos, left). left)") (auto simp: chunk_def blk_off_def JFS_BLOCK_SIZE_def)

declare read_loop.simps [simp del]

text \<open>The bytes stored in the caller's buffer, whose number the code returns, or the error.\<close>

definition jfs_read :: "jfs \<Rightarrow> nat \<Rightarrow> nat \<Rightarrow> nat \<Rightarrow> int + u8 list" where
  "jfs_read s ino count offset =
     (if \<not> file_ok s ino then Inl EBADF
      else let sz = ji_size (j_inodes s ino)
           in if offset \<ge> sz then Inr []
              else Inr (read_loop s ino offset (if (offset + count) mod 2 ^ 64 > sz then sz - offset else count)))"

fun free_ptrs :: "jfs \<Rightarrow> nat \<Rightarrow> nat \<Rightarrow> nat \<Rightarrow> jfs" where
  "free_ptrs s ino i 0 = s"
| "free_ptrs s ino i (Suc k) =
     (let p = ji_ptrs (j_inodes s ino) i
      in if p \<noteq> 0
         then let s1 = jfs_free_block s p; n = j_inodes s1 ino
              in free_ptrs (put_inode s1 ino (n\<lparr>ji_ptrs := (ji_ptrs n)(i := 0)\<rparr>)) ino (i + 1) k
         else free_ptrs s ino (i + 1) k)"

definition jfs_unlink :: "jfs \<Rightarrow> nat \<Rightarrow> int \<times> jfs" where
  "jfs_unlink s ino =
     (if ino \<ge> JFS_MAX_INODES then (ENOENT, s)
      else let s1 = jfs_journal_commit s JFS_OP_UNLINK ino 0 (ji_size (j_inodes s ino)) None;
               s2 = free_ptrs s1 ino 0 12;
               s3 = put_inode s2 ino ((j_inodes s2 ino)\<lparr>ji_type := JFS_IT_FREE, ji_size := 0, ji_blocks := 0\<rparr>);
               s4 = s3\<lparr>j_super := (j_super s3)\<lparr>js_free_inodes := js_free_inodes (j_super s3) + 1\<rparr>\<rparr>
           in (0, jfs_journal_flush s4))"

end
