(* ===== verification/JfsFiles.thy ===== *)
theory JfsFiles
  imports Jfs
begin

text \<open>
  What kernel/jfs.c promises of file contents.  The abstract view of a file is the function from
  positions to bytes (\<open>file_byte\<close>); \<open>jfs_write\<close> refines overwriting a stretch of it and
  \<open>jfs_read\<close> refines taking a slice, on every file system whose block pointers are
  distinct and marked in the bitmap (\<open>fs_ok\<close>).  A freshly made file system is not of that
  kind: its first block is number 0, which an inode cannot refer to.
\<close>

section \<open>Contents of files\<close>

definition ptr :: "jfs \<Rightarrow> nat \<Rightarrow> nat \<Rightarrow> nat" where
  "ptr s ino b = ji_ptrs (j_inodes s ino) b"

definition file_byte :: "jfs \<Rightarrow> nat \<Rightarrow> nat \<Rightarrow> u8" where
  "file_byte s ino p =
     (if p div JFS_BLOCK_SIZE < 12 \<and> ptr s ino (p div JFS_BLOCK_SIZE) \<noteq> 0
      then j_disk s (JFS_DATA_START + ptr s ino (p div JFS_BLOCK_SIZE)) (p mod JFS_BLOCK_SIZE) else 0)"

definition fs_ok :: "jfs \<Rightarrow> bool" where
  "fs_ok s \<longleftrightarrow> js_data_start (j_super s) = of_nat JFS_DATA_START \<and>
     js_journal_start (j_super s) = of_nat JFS_JOURNAL_START \<and> bitmap_tst s 0 \<and>
     (\<forall>i < JFS_MAX_INODES. \<forall>b < 12. ptr s i b \<noteq> 0 \<longrightarrow> ptr s i b < JFS_MAX_BLOCKS \<and> bitmap_tst s (ptr s i b)) \<and>
     (\<forall>i < JFS_MAX_INODES. \<forall>b < 12. \<forall>j < JFS_MAX_INODES. \<forall>c < 12.
        ptr s i b = ptr s j c \<and> ptr s i b \<noteq> 0 \<longrightarrow> i = j \<and> b = c)"

lemma fs_okD:
  assumes "fs_ok s"
  shows "js_data_start (j_super s) = of_nat JFS_DATA_START"
    "js_journal_start (j_super s) = of_nat JFS_JOURNAL_START" "bitmap_tst s 0"
    "i < JFS_MAX_INODES \<Longrightarrow> b < 12 \<Longrightarrow> ptr s i b \<noteq> 0 \<Longrightarrow> ptr s i b < JFS_MAX_BLOCKS"
    "i < JFS_MAX_INODES \<Longrightarrow> b < 12 \<Longrightarrow> ptr s i b \<noteq> 0 \<Longrightarrow> bitmap_tst s (ptr s i b)"
    "i < JFS_MAX_INODES \<Longrightarrow> b < 12 \<Longrightarrow> j < JFS_MAX_INODES \<Longrightarrow> c < 12 \<Longrightarrow> ptr s i b = ptr s j c \<Longrightarrow>
      ptr s i b \<noteq> 0 \<Longrightarrow> i = j \<and> b = c"
  using assms unfolding fs_ok_def by blast+

lemma small_lba: "b < 2 ^ 20 \<Longrightarrow> start < 2 ^ 20 \<Longrightarrow> unat (of_nat start + of_nat b :: u32) = start + b"
proof -
  assume "b < 2 ^ 20" "start < 2 ^ 20"
  then have "start + b < 2 ^ 32" by simp
  then have "unat (of_nat (start + b) :: u32) = start + b"
    unfolding unsigned_of_nat by (subst take_bit_nat_eq_self) simp_all
  then show ?thesis by (simp only: of_nat_add)
qed

lemma data_lba_ok: "fs_ok s \<Longrightarrow> b < JFS_MAX_BLOCKS \<Longrightarrow> data_lba s b = JFS_DATA_START + b"
  unfolding data_lba_def by (simp only: fs_okD(1)) (rule small_lba, simp_all add: jfs_consts)

section \<open>Steps that do not touch files\<close>

definition same_files :: "jfs \<Rightarrow> jfs \<Rightarrow> bool" where
  "same_files s s' \<longleftrightarrow> j_inodes s' = j_inodes s \<and> j_bitmap s' = j_bitmap s \<and>
     js_data_start (j_super s') = js_data_start (j_super s) \<and>
     js_journal_start (j_super s') = js_journal_start (j_super s) \<and>
     (\<forall>l \<ge> JFS_DATA_START. j_disk s' l = j_disk s l)"

lemma same_files_refl [simp]: "same_files s s"
  by (simp add: same_files_def)

lemma same_files_trans [trans]: "same_files s s' \<Longrightarrow> same_files s' s'' \<Longrightarrow> same_files s s''"
  by (simp add: same_files_def)

lemma same_files_ok: "same_files s s' \<Longrightarrow> fs_ok s \<Longrightarrow> fs_ok s'"
  by (simp add: same_files_def fs_ok_def ptr_def bitmap_tst_def)

lemma same_files_byte: "same_files s s' \<Longrightarrow> file_byte s' = file_byte s"
  by (intro ext) (simp add: same_files_def file_byte_def ptr_def)

lemma same_files_inodes: "same_files s s' \<Longrightarrow> j_inodes s' = j_inodes s"
  by (simp add: same_files_def)

lemma write_sector_low: "lba < JFS_DATA_START \<Longrightarrow> same_files s (write_sector lba b s)"
  by (simp add: same_files_def write_sector_def)

lemma flush_entries_files: "js_journal_start (j_super s) = of_nat JFS_JOURNAL_START \<Longrightarrow> same_files s (flush_entries s i k)"
proof (induction k arbitrary: s i)
  case (Suc k)
  let ?idx = "(j_head s + i) mod 16"
  let ?lba = "unat (js_journal_start (j_super s) + of_nat ?idx)"
  let ?s = "write_sector ?lba (put_bytes zero_sector 0 (entry_bytes (j_entries s ?idx))) s"
  have "?lba = JFS_JOURNAL_START + ?idx"
    unfolding Suc.prems by (rule small_lba) (simp_all add: jfs_consts less_trans [OF mod_less_divisor])
  moreover have "?idx < 16" by simp
  ultimately have "?lba < JFS_DATA_START" by (simp add: jfs_consts)
  then have s: "same_files s ?s" by (rule write_sector_low)
  with Suc.prems have "js_journal_start (j_super ?s) = of_nat JFS_JOURNAL_START" by (simp add: same_files_def)
  then have "same_files ?s (flush_entries ?s (i + 1) k)" by (rule Suc.IH)
  with s show ?case by (simp only: flush_entries.simps Let_def) (rule same_files_trans)
qed simp

lemma write_super_files: "same_files s (write_super s)"
  unfolding write_super_def by (rule write_sector_low) (simp add: jfs_consts)

lemma journal_flush_files: "js_journal_start (j_super s) = of_nat JFS_JOURNAL_START \<Longrightarrow> same_files s (jfs_journal_flush s)"
  unfolding jfs_journal_flush_def Let_def
  by (rule same_files_trans [OF _ write_super_files]) (use flush_entries_files in \<open>simp add: same_files_def\<close>)

lemma journal_commit_files:
  assumes "js_journal_start (j_super s) = of_nat JFS_JOURNAL_START"
  shows "same_files s (jfs_journal_commit s op ino off sz d)"
proof -
  have upd: "same_files s (s\<lparr>j_entries := e, j_tail := t, j_count := c\<rparr>)" for e t c
    by (simp add: same_files_def)
  have "same_files s (jfs_journal_flush (s\<lparr>j_entries := e, j_tail := t, j_count := c\<rparr>))" for e t c
    by (rule same_files_trans [OF upd journal_flush_files]) (simp add: assms)
  with upd show ?thesis unfolding jfs_journal_commit_def Let_def by (simp only: if_split simp_thms)
qed

section \<open>Allocating and storing\<close>

lemma bitmap_tst_bit: "bitmap_tst s b \<longleftrightarrow> bit (j_bitmap s (b div 32)) (b mod 32)"
  by (simp add: bitmap_tst_def bit_iff_and_drop_bit_eq_1 and.commute)

lemma bitmap_set_tst: "bitmap_tst (bitmap_set s b) c \<longleftrightarrow> c = b \<or> bitmap_tst s c"
proof -
  have "bit (push_bit (b mod 32) 1 :: u32) n \<longleftrightarrow> n = b mod 32" for n
    by (auto simp: bit_exp_iff)
  moreover have "c = b \<longleftrightarrow> c div 32 = b div 32 \<and> c mod 32 = b mod 32" by (metis div_mult_mod_eq)
  ultimately show ?thesis by (auto simp: bitmap_tst_bit bitmap_set_def bit_or_iff)
qed

lemma alloc_block_cases:
  assumes "fs_ok s"
  obtains "jfs_alloc_block s = (None, s)"
  | i s' where "jfs_alloc_block s = (Some i, s')" "0 < i" "i < JFS_MAX_BLOCKS" "\<not> bitmap_tst s i"
    "j_inodes s' = j_inodes s" "js_data_start (j_super s') = js_data_start (j_super s)"
    "js_journal_start (j_super s') = js_journal_start (j_super s)"
    "\<And>c. bitmap_tst s' c \<longleftrightarrow> c = i \<or> bitmap_tst s c"
    "j_disk s' = (j_disk s)(JFS_DATA_START + i := zero_sector)"
proof (cases "first_idx (\<lambda>i. \<not> bitmap_tst s i) 0 JFS_MAX_BLOCKS")
  case None
  then show ?thesis using that(1) by (simp add: jfs_alloc_block_def)
next
  case (Some i)
  note D = first_idxD [OF Some]
  have "i \<noteq> 0" using D(3) fs_okD(3) [OF assms] by metis
  let ?s2 = "(bitmap_set s i)\<lparr>j_super := (j_super (bitmap_set s i))\<lparr>js_free_blocks := js_free_blocks (j_super (bitmap_set s i)) - 1\<rparr>\<rparr>"
  have st: "j_super (bitmap_set s i) = j_super s" by (simp add: bitmap_set_def)
  have "data_lba ?s2 i = data_lba s i" by (simp add: data_lba_def st)
  then have l: "data_lba ?s2 i = JFS_DATA_START + i" using data_lba_ok [OF assms] D(2) by simp
  have tst: "bitmap_tst (write_sector (data_lba ?s2 i) zero_sector ?s2) c \<longleftrightarrow> c = i \<or> bitmap_tst s c" for c
    unfolding bitmap_set_tst [symmetric] by (simp add: bitmap_tst_def write_sector_def)
  show ?thesis
    by (rule that(2) [of i "write_sector (data_lba ?s2 i) zero_sector ?s2"])
      (use Some D \<open>i \<noteq> 0\<close> tst l in \<open>simp_all add: jfs_alloc_block_def Let_def write_sector_def bitmap_set_def\<close>)
qed


lemma ensure_block_cases:
  assumes ok: "fs_ok s" and i: "ino < JFS_MAX_INODES" "b < 12"
  obtains "ensure_block s ino b = None"
  | s' where "ensure_block s ino b = Some s'" "fs_ok s'" "ptr s' ino b \<noteq> 0"
    "\<And>j. j < JFS_MAX_INODES \<Longrightarrow> file_byte s' j = file_byte s j"
    "\<And>j. ji_type (j_inodes s' j) = ji_type (j_inodes s j) \<and> ji_size (j_inodes s' j) = ji_size (j_inodes s j)"
proof (cases "ptr s ino b = 0")
  case False
  then show ?thesis by (intro that(2) [of s]) (use ok in \<open>simp_all add: ensure_block_def ptr_def\<close>)
next
  case zero: True
  show ?thesis
  proof (rule alloc_block_cases [OF ok])
    assume "jfs_alloc_block s = (None, s)"
    then show ?thesis using zero that(1) by (simp add: ensure_block_def ptr_def)
  next
    fix k s1
    assume a: "jfs_alloc_block s = (Some k, s1)" "0 < k" "k < JFS_MAX_BLOCKS" "\<not> bitmap_tst s k"
      "j_inodes s1 = j_inodes s" "js_data_start (j_super s1) = js_data_start (j_super s)"
      "js_journal_start (j_super s1) = js_journal_start (j_super s)"
      "\<And>c. bitmap_tst s1 c \<longleftrightarrow> c = k \<or> bitmap_tst s c"
      "j_disk s1 = (j_disk s)(JFS_DATA_START + k := zero_sector)"
    define n where "n = j_inodes s ino"
    define s' where "s' = put_inode s1 ino (n\<lparr>ji_ptrs := (ji_ptrs n)(b := k), ji_blocks := ji_blocks n + 1\<rparr>)"
    have e: "ensure_block s ino b = Some s'"
      using zero by (simp add: ensure_block_def ptr_def a(1,5) s'_def n_def Let_def)
    have p: "ptr s' j c = (if j = ino \<and> c = b then k else ptr s j c)" for j c
      by (simp add: ptr_def s'_def put_inode_def a(5) n_def)
    have fresh: "ptr s j c \<noteq> k" if "j < JFS_MAX_INODES" "c < 12" for j c
      using fs_okD(5) [OF ok that] a(2,4) by auto
    have d: "j_disk s' = (j_disk s)(JFS_DATA_START + k := zero_sector)" by (simp add: s'_def put_inode_def a(9))
    have tst: "bitmap_tst s' c \<longleftrightarrow> c = k \<or> bitmap_tst s c" for c
      unfolding a(8) [symmetric] by (simp add: s'_def put_inode_def bitmap_tst_def)
    have sup: "j_super s' = j_super s1" by (simp add: s'_def put_inode_def)
    have "fs_ok s'"
      unfolding fs_ok_def tst p sup a(6,7)
    proof (intro conjI allI impI)
      show "js_data_start (j_super s) = of_nat JFS_DATA_START" "js_journal_start (j_super s) = of_nat JFS_JOURNAL_START"
        by (rule fs_okD [OF ok])+
      show "0 = k \<or> bitmap_tst s 0" using fs_okD(3) [OF ok] by simp
      fix j c assume j: "j < JFS_MAX_INODES" "c < 12" and nz: "(if j = ino \<and> c = b then k else ptr s j c) \<noteq> 0"
      show "(if j = ino \<and> c = b then k else ptr s j c) < JFS_MAX_BLOCKS"
        "(if j = ino \<and> c = b then k else ptr s j c) = k \<or> bitmap_tst s (if j = ino \<and> c = b then k else ptr s j c)"
        using a(3) nz fs_okD(4,5) [OF ok j] by (auto split: if_splits)
    next
      fix j c j' c' assume A: "j < JFS_MAX_INODES" "c < 12" "j' < JFS_MAX_INODES" "c' < 12"
        "(if j = ino \<and> c = b then k else ptr s j c) = (if j' = ino \<and> c' = b then k else ptr s j' c') \<and>
         (if j = ino \<and> c = b then k else ptr s j c) \<noteq> 0"
      note F = fresh [OF A(1,2)] fresh [OF A(3,4)] fs_okD(6) [OF ok A(1-4)]
      show "j = j'" "c = c'" using A(5) F by (cases "j = ino \<and> c = b"; cases "j' = ino \<and> c' = b"; simp)+
    qed
    moreover have "file_byte s' j = file_byte s j" if j: "j < JFS_MAX_INODES" for j
    proof
      fix q
      show "file_byte s' j q = file_byte s j q"
      proof (cases "j = ino \<and> q div JFS_BLOCK_SIZE = b")
        case True
        then show ?thesis using zero i by (simp add: file_byte_def p d zero_sector_def)
      next
        case False
        then have "ptr s' j (q div JFS_BLOCK_SIZE) = ptr s j (q div JFS_BLOCK_SIZE)" by (auto simp: p)
        then show ?thesis using fresh [OF j] by (simp add: file_byte_def d)
      qed
    qed
    moreover have "ptr s' ino b \<noteq> 0" using a(2) by (simp add: p)
    moreover have "ji_type (j_inodes s' j) = ji_type (j_inodes s j) \<and> ji_size (j_inodes s' j) = ji_size (j_inodes s j)" for j
      by (simp add: s'_def put_inode_def a(5) n_def)
    ultimately show ?thesis by (intro that(2) [OF e])
  qed
qed

lemma store_chunk_file:
  assumes ok: "fs_ok s" and i: "ino < JFS_MAX_INODES" "b < 12" "ptr s ino b \<noteq> 0"
    and len: "off + length bs \<le> JFS_BLOCK_SIZE"
  shows "fs_ok (store_chunk s ino b off bs)" "j_inodes (store_chunk s ino b off bs) = j_inodes s"
    "j < JFS_MAX_INODES \<Longrightarrow> file_byte (store_chunk s ino b off bs) j q =
      (if j = ino \<and> b * JFS_BLOCK_SIZE + off \<le> q \<and> q < b * JFS_BLOCK_SIZE + off + length bs
       then bs ! (q - (b * JFS_BLOCK_SIZE + off)) else file_byte s j q)"
proof -
  let ?s = "store_chunk s ino b off bs" and ?l = "JFS_DATA_START + ptr s ino b"
  have l: "data_lba s (ptr s ino b) = ?l" by (rule data_lba_ok [OF ok fs_okD(4) [OF ok i]])
  have s: "?s = s\<lparr>j_disk := (j_disk s)(?l := put_bytes (j_disk s ?l) off bs)\<rparr>"
    using l by (simp add: store_chunk_def ptr_def write_sector_def Let_def)
  show "fs_ok ?s" using ok unfolding s by (simp add: fs_ok_def ptr_def bitmap_tst_def)
  show "j_inodes ?s = j_inodes s" unfolding s by simp
  have p: "ptr ?s = ptr s" unfolding s by (intro ext) (simp add: ptr_def)
  assume j: "j < JFS_MAX_INODES"
  let ?c = "q div JFS_BLOCK_SIZE" and ?r = "q mod JFS_BLOCK_SIZE"
  have q: "q = ?c * JFS_BLOCK_SIZE + ?r" "?r < JFS_BLOCK_SIZE" by (simp_all add: JFS_BLOCK_SIZE_def)
  have inside: "b * JFS_BLOCK_SIZE + off \<le> q \<and> q < b * JFS_BLOCK_SIZE + off + length bs \<longleftrightarrow>
      ?c = b \<and> off \<le> ?r \<and> ?r < off + length bs"
  proof
    assume A: "b * JFS_BLOCK_SIZE + off \<le> q \<and> q < b * JFS_BLOCK_SIZE + off + length bs"
    then have "?c = b" by (intro div_nat_eqI) (use len in \<open>simp_all add: mult.commute\<close>)
    moreover from this have "?c * JFS_BLOCK_SIZE = b * JFS_BLOCK_SIZE" by simp
    ultimately show "?c = b \<and> off \<le> ?r \<and> ?r < off + length bs" using A q(1) by linarith
  next
    assume A: "?c = b \<and> off \<le> ?r \<and> ?r < off + length bs"
    then have "?c * JFS_BLOCK_SIZE = b * JFS_BLOCK_SIZE" by simp
    with A show "b * JFS_BLOCK_SIZE + off \<le> q \<and> q < b * JFS_BLOCK_SIZE + off + length bs" using q(1) by linarith
  qed
  show "file_byte ?s j q = (if j = ino \<and> b * JFS_BLOCK_SIZE + off \<le> q \<and> q < b * JFS_BLOCK_SIZE + off + length bs
       then bs ! (q - (b * JFS_BLOCK_SIZE + off)) else file_byte s j q)"
  proof (cases "?c < 12 \<and> ptr s j ?c = ptr s ino b")
    case True
    then have jc: "j = ino" "?c = b" using fs_okD(6) [OF ok j _ i(1,2), of ?c] i(3) by auto
    then have "q - (b * JFS_BLOCK_SIZE + off) = ?r - off" using q by simp
    then show ?thesis using True i(3) jc unfolding inside file_byte_def p by (simp add: s put_bytes_def)
  next
    case False
    then have "\<not> (j = ino \<and> ?c = b)" using i by auto
    moreover have "file_byte ?s j q = file_byte s j q"
      using False unfolding file_byte_def p by (auto simp: s)
    ultimately show ?thesis unfolding inside by auto
  qed
qed


section \<open>Writing\<close>

text \<open>Positions below 2 to the 41, where the block number fits into its 32 bits.\<close>

lemma pos_parts:
  assumes "pos < 2 ^ 41"
  shows "pos mod 2 ^ 64 = pos" "blk_idx pos = pos div JFS_BLOCK_SIZE" "blk_off pos = pos mod JFS_BLOCK_SIZE"
proof -
  show p: "pos mod 2 ^ 64 = pos" using assms by simp
  have "pos div 512 < 2 ^ 32" by (rule less_mult_imp_div_less) (use assms in simp)
  then show "blk_idx pos = pos div JFS_BLOCK_SIZE" unfolding blk_idx_def p by (simp add: JFS_BLOCK_SIZE_def)
  show "blk_off pos = pos mod JFS_BLOCK_SIZE" by (simp only: blk_off_def p)
qed

lemma chunk_bounds:
  assumes "0 < left"
  shows "0 < chunk pos left" "chunk pos left \<le> left" "blk_off pos + chunk pos left \<le> JFS_BLOCK_SIZE"
  using assms mod_less_divisor [of JFS_BLOCK_SIZE "pos mod 2 ^ 64"]
  by (auto simp: chunk_def blk_off_def min_def JFS_BLOCK_SIZE_def)

definition overwrite :: "(nat \<Rightarrow> u8) \<Rightarrow> nat \<Rightarrow> u8 list \<Rightarrow> (nat \<Rightarrow> u8)" where
  "overwrite f pos bs q =
     (if pos \<le> q \<and> q < pos + length bs \<and> q < 12 * JFS_BLOCK_SIZE then bs ! (q - pos) else f q)"

lemma overwrite_Nil [simp]: "overwrite f pos [] = f"
  by (intro ext) (auto simp: overwrite_def)

lemma overwrite_append: "overwrite (overwrite f pos xs) (pos + length xs) ys = overwrite f pos (xs @ ys)"
  by (intro ext) (auto simp: overwrite_def nth_append)

definition keeps_meta :: "jfs \<Rightarrow> jfs \<Rightarrow> bool" where
  "keeps_meta s s' \<longleftrightarrow> (\<forall>j. ji_type (j_inodes s' j) = ji_type (j_inodes s j) \<and> ji_size (j_inodes s' j) = ji_size (j_inodes s j))"

lemma one_chunk:
  assumes ok: "fs_ok s" and i: "ino < JFS_MAX_INODES" and pos: "pos < 2 ^ 41" and data: "data \<noteq> []"
    and n: "n = chunk pos (length data)" and b: "blk_idx pos < 12"
    and e: "ensure_block s ino (blk_idx pos) = Some s1"
    and s': "s' = jfs_journal_commit (store_chunk s1 ino (blk_idx pos) (blk_off pos) (take n data)) op ino p n d"
  shows "fs_ok s'" "keeps_meta s s'"
    "j < JFS_MAX_INODES \<Longrightarrow> file_byte s' j = (if j = ino then overwrite (file_byte s ino) pos (take n data) else file_byte s j)"
proof -
  note P = pos_parts [OF pos] and C = chunk_bounds [of "length data" pos, folded n]
  have s1: "fs_ok s1" "ptr s1 ino (blk_idx pos) \<noteq> 0" "keeps_meta s s1"
      "\<And>j. j < JFS_MAX_INODES \<Longrightarrow> file_byte s1 j = file_byte s j"
    by (rule ensure_block_cases [OF ok i b]; use e in \<open>simp add: keeps_meta_def\<close>)+
  have len: "length (take n data) = n" using C data by simp
  have fit: "blk_off pos + length (take n data) \<le> JFS_BLOCK_SIZE" using C data by (simp add: len)
  let ?s2 = "store_chunk s1 ino (blk_idx pos) (blk_off pos) (take n data)"
  note S = store_chunk_file [OF s1(1) i b s1(2) fit]
  have same: "same_files ?s2 s'" unfolding s' by (rule journal_commit_files [OF fs_okD(2) [OF S(1)]])
  then show "fs_ok s'" by (rule same_files_ok) (rule S(1))
  show "keeps_meta s s'" using s1(3) S(2) same_files_inodes [OF same] by (simp add: keeps_meta_def)
  have at: "blk_idx pos * JFS_BLOCK_SIZE + blk_off pos = pos" by (simp add: P)
  have "pos + n \<le> 12 * JFS_BLOCK_SIZE"
  proof -
    have "(blk_idx pos + 1) * JFS_BLOCK_SIZE \<le> 12 * JFS_BLOCK_SIZE" using b by (intro mult_right_mono) auto
    then show ?thesis using at fit unfolding len add_mult_distrib by linarith
  qed
  then show "file_byte s' j = (if j = ino then overwrite (file_byte s ino) pos (take n data) else file_byte s j)"
    if j: "j < JFS_MAX_INODES"
    unfolding same_files_byte [OF same]
    by (intro ext) (use S(3) [OF j] s1(4) [OF j] in \<open>auto simp: at overwrite_def len\<close>)
qed


text \<open>
  How much of a write there is room for: the blocks that a stretch of the file touches, those among them that
  the file does not have yet, and the free blocks of the disk.
\<close>

definition blocks_of :: "nat \<Rightarrow> nat \<Rightarrow> nat set" where
  "blocks_of pos k = (\<lambda>q. q div JFS_BLOCK_SIZE) ` {pos..<pos + k}"

definition missing :: "jfs \<Rightarrow> nat \<Rightarrow> nat \<Rightarrow> nat \<Rightarrow> nat set" where
  "missing s ino pos k = {b \<in> blocks_of pos k. b < 12 \<and> ptr s ino b = 0}"

definition free_count :: "jfs \<Rightarrow> nat" where
  "free_count s = card {i. i < JFS_MAX_BLOCKS \<and> \<not> bitmap_tst s i}"

definition room_for :: "jfs \<Rightarrow> nat \<Rightarrow> nat \<Rightarrow> nat \<Rightarrow> bool" where
  "room_for s ino pos k \<longleftrightarrow> card (missing s ino pos k) \<le> free_count s"

lemma blocks_of_add: "blocks_of pos (a + b) = blocks_of pos a \<union> blocks_of (pos + a) b"
proof -
  have "{pos..<pos + (a + b)} = {pos..<pos + a} \<union> {pos + a..<pos + a + b}" by auto
  then show ?thesis by (simp only: blocks_of_def image_Un)
qed

lemma blocks_of_chunk:
  assumes "0 < j" "pos mod JFS_BLOCK_SIZE + j \<le> JFS_BLOCK_SIZE"
  shows "blocks_of pos j = {pos div JFS_BLOCK_SIZE}"
proof -
  have same: "q div JFS_BLOCK_SIZE = pos div JFS_BLOCK_SIZE" if "pos \<le> q" "q < pos + j" for q
  proof -
    define r where "r = q - pos"
    have r: "q = pos + r" "r < j" using that by (simp_all add: r_def)
    have "q = pos div JFS_BLOCK_SIZE * JFS_BLOCK_SIZE + (pos mod JFS_BLOCK_SIZE + r)"
      using r(1) div_mult_mod_eq [of pos JFS_BLOCK_SIZE] by linarith
    moreover have "pos mod JFS_BLOCK_SIZE + r < JFS_BLOCK_SIZE" using r(2) assms(2) by linarith
    moreover have "(a * JFS_BLOCK_SIZE + x) div JFS_BLOCK_SIZE = a" if "x < JFS_BLOCK_SIZE" for a x
      using that by (simp add: JFS_BLOCK_SIZE_def)
    ultimately show ?thesis by (simp only:)
  qed
  have "(\<lambda>q. q div JFS_BLOCK_SIZE) ` {pos..<pos + j} = (\<lambda>_. pos div JFS_BLOCK_SIZE) ` {pos..<pos + j}"
    by (rule image_cong [OF refl], rule same) simp_all
  moreover have "{pos..<pos + j} \<noteq> {}" using assms(1) by simp
  ultimately show ?thesis by (simp only: blocks_of_def image_constant_conv if_False)
qed

lemma finite_missing [simp]: "finite (missing s ino pos k)"
  by (simp add: missing_def blocks_of_def)

lemma missing_none [simp]: "missing s ino pos 0 = {}"
  by (simp add: missing_def blocks_of_def)

lemma ensure_block_space:
  assumes ok: "fs_ok s"
  shows "ensure_block s ino b = None \<Longrightarrow> ptr s ino b = 0 \<and> free_count s = 0"
    "ensure_block s ino b = Some s1 \<Longrightarrow> ptr s1 ino b \<noteq> 0 \<and> (\<forall>c. c \<noteq> b \<longrightarrow> ptr s1 ino c = ptr s ino c) \<and>
       free_count s = free_count s1 + (if ptr s ino b = 0 then 1 else 0)"
proof -
  assume n: "ensure_block s ino b = None"
  then have z: "ptr s ino b = 0" and a: "fst (jfs_alloc_block s) = None"
    by (auto simp: ensure_block_def ptr_def Let_def split: if_splits option.splits prod.splits)
  then have "first_idx (\<lambda>i. \<not> bitmap_tst s i) 0 JFS_MAX_BLOCKS = None"
    by (simp add: jfs_alloc_block_def Let_def split: option.splits)
  then have "{i. i < JFS_MAX_BLOCKS \<and> \<not> bitmap_tst s i} = {}" by (auto simp: first_idx_None)
  then show "ptr s ino b = 0 \<and> free_count s = 0" using z by (simp add: free_count_def)
next
  assume e: "ensure_block s ino b = Some s1"
  show "ptr s1 ino b \<noteq> 0 \<and> (\<forall>c. c \<noteq> b \<longrightarrow> ptr s1 ino c = ptr s ino c) \<and>
       free_count s = free_count s1 + (if ptr s ino b = 0 then 1 else 0)"
  proof (cases "ptr s ino b = 0")
    case False
    then show ?thesis using e by (simp add: ensure_block_def ptr_def)
  next
    case zero: True
    show ?thesis
    proof (rule alloc_block_cases [OF ok])
      assume "jfs_alloc_block s = (None, s)"
      then show ?thesis using zero e by (simp add: ensure_block_def ptr_def)
    next
      fix k s2
      assume a: "jfs_alloc_block s = (Some k, s2)" "0 < k" "k < JFS_MAX_BLOCKS" "\<not> bitmap_tst s k"
        "j_inodes s2 = j_inodes s" "\<And>c. bitmap_tst s2 c \<longleftrightarrow> c = k \<or> bitmap_tst s c"
      have s1: "s1 = put_inode s2 ino ((j_inodes s ino)\<lparr>ji_ptrs := (ji_ptrs (j_inodes s ino))(b := k),
          ji_blocks := ji_blocks (j_inodes s ino) + 1\<rparr>)"
        using e zero by (simp add: ensure_block_def ptr_def a(1,5) Let_def)
      have "bitmap_tst s1 c \<longleftrightarrow> c = k \<or> bitmap_tst s c" for c
        unfolding a(6) [symmetric] by (simp add: s1 put_inode_def bitmap_tst_def)
      then have "{i. i < JFS_MAX_BLOCKS \<and> \<not> bitmap_tst s i} = insert k {i. i < JFS_MAX_BLOCKS \<and> \<not> bitmap_tst s1 i}"
        "k \<notin> {i. i < JFS_MAX_BLOCKS \<and> \<not> bitmap_tst s1 i}" using a(3,4) by auto
      then have "free_count s = free_count s1 + 1" by (simp add: free_count_def)
      then show ?thesis using a(2) zero by (simp add: s1 ptr_def put_inode_def)
    qed
  qed
qed

text \<open>One round of the loop: what the first chunk takes away from the room for the rest.\<close>

lemma room_chunk:
  assumes n: "0 < n" "pos mod JFS_BLOCK_SIZE + n \<le> JFS_BLOCK_SIZE" and b: "b = pos div JFS_BLOCK_SIZE"
    and p: "\<And>c. c \<noteq> b \<Longrightarrow> ptr s1 ino c = ptr s ino c" "b < 12 \<Longrightarrow> ptr s1 ino b \<noteq> 0"
    and f: "free_count s = free_count s1 + (if b < 12 \<and> ptr s ino b = 0 then 1 else 0)"
  shows "k \<le> n \<Longrightarrow> room_for s ino pos k" "room_for s ino pos (n + k) \<longleftrightarrow> room_for s1 ino (pos + n) k"
proof -
  assume k: "k \<le> n"
  show "room_for s ino pos k"
  proof (cases "k = 0")
    case False
    then have "blocks_of pos k = {b}" using blocks_of_chunk [of k pos] k n(2) b by simp
    then have "missing s ino pos k = (if b < 12 \<and> ptr s ino b = 0 then {b} else {})" by (auto simp: missing_def)
    then show ?thesis using f by (simp add: room_for_def)
  qed (simp add: room_for_def)
next
  have bl: "blocks_of pos n = {b}" using blocks_of_chunk [OF n] b by simp
  let ?M = "missing s1 ino (pos + n) k"
  have nb: "b \<notin> ?M" using p(2) by (auto simp: missing_def)
  have "missing s ino pos (n + k) = (if b < 12 \<and> ptr s ino b = 0 then insert b ?M else ?M)"
  proof (cases "b < 12 \<and> ptr s ino b = 0")
    case True
    have "c \<in> missing s ino pos (n + k) \<longleftrightarrow> c \<in> insert b ?M" for c
      using True p by (cases "c = b") (auto simp: missing_def blocks_of_add bl)
    then have "missing s ino pos (n + k) = insert b ?M" by (rule set_eqI)
    then show ?thesis using True by simp
  next
    case False
    have "c \<in> missing s ino pos (n + k) \<longleftrightarrow> c \<in> ?M" for c
      using False p by (cases "c = b") (auto simp: missing_def blocks_of_add bl)
    then have "missing s ino pos (n + k) = ?M" by (rule set_eqI)
    then show ?thesis using False by (simp only: if_False)
  qed
  then show "room_for s ino pos (n + k) \<longleftrightarrow> room_for s1 ino (pos + n) k"
    using nb f by (simp add: room_for_def)
qed

text \<open>Past the twelfth block the loop only logs: the journal is all that changes.\<close>

lemma file_byte_high: "12 * JFS_BLOCK_SIZE \<le> q \<Longrightarrow> file_byte s j q = 0"
  by (simp add: file_byte_def div_less_iff_less_mult JFS_BLOCK_SIZE_def)

lemma overwrite_high: "12 * JFS_BLOCK_SIZE \<le> pos \<Longrightarrow> overwrite f pos bs = f"
  by (intro ext) (auto simp: overwrite_def)

definition wrote :: "jfs \<Rightarrow> nat \<Rightarrow> nat \<Rightarrow> u8 list \<Rightarrow> jfs \<Rightarrow> bool" where
  "wrote s ino pos bs s' \<longleftrightarrow> fs_ok s' \<and> keeps_meta s s' \<and>
     (\<forall>j < JFS_MAX_INODES. file_byte s' j = (if j = ino then overwrite (file_byte s ino) pos bs else file_byte s j))"

lemma wrote_refl: "fs_ok s \<Longrightarrow> wrote s ino pos [] s"
  by (simp add: wrote_def keeps_meta_def)

lemma wrote_append: "ino < JFS_MAX_INODES \<Longrightarrow> wrote s ino pos xs s1 \<Longrightarrow> wrote s1 ino (pos + length xs) ys s2 \<Longrightarrow>
    wrote s ino pos (xs @ ys) s2"
  by (auto simp: wrote_def keeps_meta_def overwrite_append)

lemma wrote_same: "same_files s s' \<Longrightarrow> wrote s0 ino pos bs s \<Longrightarrow> wrote s0 ino pos bs s'"
  by (simp add: wrote_def same_files_ok same_files_byte same_files_inodes keeps_meta_def)

lemma same_files_ptr: "same_files s s' \<Longrightarrow> ptr s' = ptr s \<and> free_count s' = free_count s"
  by (simp add: same_files_def ptr_def fun_eq_iff free_count_def bitmap_tst_def)

lemma store_chunk_ptr: "ptr (store_chunk s ino b off bs) = ptr s \<and> free_count (store_chunk s ino b off bs) = free_count s"
  by (simp add: store_chunk_def write_sector_def Let_def ptr_def fun_eq_iff free_count_def bitmap_tst_def)

lemma write_loop_wrote:
  assumes "fs_ok s" "ino < JFS_MAX_INODES" "offset + written + length data < 2 ^ 41"
  obtains m fin s' where "write_loop s ino data offset written = (written + m, fin, s')" "m \<le> length data"
    "fin \<longleftrightarrow> m = length data" "wrote s ino (offset + written) (take m data) s'"
    "\<forall>k \<le> length data. k \<le> m \<longleftrightarrow> room_for s ino (offset + written) k"
  using assms
proof (induction "length data" arbitrary: s data written thesis rule: less_induct)
  case less
  note ok = less.prems(2) and i = less.prems(3)
  let ?pos = "offset + written" and ?n = "chunk (offset + written) (length data)"
  have r0: "room_for s ino ?pos 0" by (simp add: room_for_def)
  show ?case
  proof (cases "data = []")
    case True
    then show ?thesis
      by (intro less.prems(1) [of 0 True s]) (use ok r0 in \<open>simp_all add: write_loop.simps [of s ino] wrote_refl\<close>)
  next
    case ne: False
    note C = chunk_bounds [of "length data" ?pos]
    have n: "0 < ?n" "?n \<le> length data" using C ne by simp_all
    have pos: "?pos < 2 ^ 41" using less.prems(4) by simp
    have cn: "?pos mod JFS_BLOCK_SIZE + ?n \<le> JFS_BLOCK_SIZE" using C(3) ne pos_parts(3) [OF pos] by simp
    have bi: "blk_idx ?pos = ?pos div JFS_BLOCK_SIZE" by (rule pos_parts(2) [OF pos])
    have step: thesis if c: "wrote s ino ?pos (take ?n data) s1"
      and l: "write_loop s ino data offset written = write_loop s1 ino (drop ?n data) offset (written + ?n)"
      and p: "\<And>c. c \<noteq> blk_idx ?pos \<Longrightarrow> ptr s1 ino c = ptr s ino c" "blk_idx ?pos < 12 \<Longrightarrow> ptr s1 ino (blk_idx ?pos) \<noteq> 0"
      and f: "free_count s = free_count s1 + (if blk_idx ?pos < 12 \<and> ptr s ino (blk_idx ?pos) = 0 then 1 else 0)" for s1
    proof -
      have ok1: "fs_ok s1" using c by (simp add: wrote_def)
      have lt: "length (drop ?n data) < length data" using n by simp
      have le: "offset + (written + ?n) + length (drop ?n data) < 2 ^ 41" using less.prems(4) n by simp
      obtain m fin s' where r: "write_loop s1 ino (drop ?n data) offset (written + ?n) = (written + ?n + m, fin, s')"
          "m \<le> length (drop ?n data)" "fin \<longleftrightarrow> m = length (drop ?n data)"
          "wrote s1 ino (offset + (written + ?n)) (take m (drop ?n data)) s'"
          "\<forall>k \<le> length (drop ?n data). k \<le> m \<longleftrightarrow> room_for s1 ino (offset + (written + ?n)) k"
        using less.hyps [OF lt _ ok1 i le] by blast
      have "wrote s1 ino (?pos + length (take ?n data)) (take m (drop ?n data)) s'" using r(4) n by (simp add: add.assoc)
      from wrote_append [OF i c this] have w: "wrote s ino ?pos (take (?n + m) data) s'" by (simp only: take_add)
      note R = room_chunk [OF n(1) cn bi p f]
      have "k \<le> ?n + m \<longleftrightarrow> room_for s ino ?pos k" if k: "k \<le> length data" for k
      proof (cases "k \<le> ?n")
        case True
        then show ?thesis using R(1) by simp
      next
        case False
        then obtain j where j: "k = ?n + j" using le_Suc_ex nat_le_linear by blast
        then have "j \<le> length (drop ?n data)" using k n by simp
        then show ?thesis using R(2) [of j] r(5) j by (simp add: add.assoc)
      qed
      with w r l n show thesis by (intro less.prems(1) [of "?n + m" fin s']) (auto simp: add.assoc)
    qed
    show ?thesis
    proof (cases "blk_idx ?pos < 12")
      case True
      show ?thesis
      proof (cases "ensure_block s ino (blk_idx ?pos)")
        case None
        note E = ensure_block_space(1) [OF ok None]
        have "\<not> room_for s ino ?pos k" if "0 < k" for k
        proof -
          have "?pos \<in> {?pos..<?pos + k}" using that by simp
          then have "blk_idx ?pos \<in> missing s ino ?pos k" using E True bi by (auto simp: missing_def blocks_of_def)
          then have "card (missing s ino ?pos k) \<noteq> 0" unfolding card_eq_0_iff using finite_missing by blast
          then show ?thesis using E by (simp only: room_for_def)
        qed
        then show ?thesis
          by (intro less.prems(1) [of 0 False s])
             (use ok ne True r0 None in \<open>auto simp: write_loop.simps [of s ino data] wrote_refl Let_def\<close>)
      next
        case (Some s1)
        note O = one_chunk [OF ok i pos ne refl True Some refl]
        let ?c = "store_chunk s1 ino (blk_idx ?pos) (blk_off ?pos) (take ?n data)"
        let ?s' = "jfs_journal_commit ?c JFS_OP_WRITE ino ?pos ?n (Some data)"
        have ok1: "fs_ok s1" by (rule ensure_block_cases [OF ok i True]) (use Some in simp_all)
        have "js_journal_start (j_super ?c) = of_nat JFS_JOURNAL_START"
          using fs_okD(2) [OF ok1] by (simp add: store_chunk_def write_sector_def Let_def)
        then have sp: "ptr ?s' = ptr s1" "free_count ?s' = free_count s1"
          using same_files_ptr [OF journal_commit_files] store_chunk_ptr by metis+
        have pm: "?pos mod 2 ^ 64 = ?pos" by (rule pos_parts(1) [OF pos])
        show ?thesis
        proof (rule step [of ?s'])
          show "wrote s ino ?pos (take ?n data) ?s'" unfolding wrote_def using O by blast
          show "write_loop s ino data offset written = write_loop ?s' ino (drop ?n data) offset (written + ?n)"
            using True ne Some pm by (simp add: write_loop.simps [of s ino data] Let_def)
        qed (use ensure_block_space(2) [OF ok Some] sp True in auto)
      qed
    next
      case False
      then have "12 \<le> ?pos div JFS_BLOCK_SIZE" using bi by simp
      then have hi: "12 * JFS_BLOCK_SIZE \<le> ?pos" by (metis div_times_less_eq_dividend mult_le_mono1 order_trans)
      have w: "wrote s ino ?pos (take ?n data) s" using ok hi by (simp add: wrote_def keeps_meta_def overwrite_high)
      have same: "same_files s (jfs_journal_commit s JFS_OP_WRITE ino (?pos mod 2 ^ 64) ?n (Some data))"
        by (rule journal_commit_files [OF fs_okD(2) [OF ok]])
      show ?thesis
        by (rule step [OF wrote_same [OF same w]])
           (use False ne same_files_ptr [OF same] in \<open>simp_all add: write_loop.simps [of s ino data] Let_def\<close>)
    qed
  qed
qed

text \<open>
  C16. Writing a file.  On a well-formed file system \<open>jfs_write\<close> stores a prefix of the data
  over the bytes of this file from the given offset, and no byte of any other file changes.
  The prefix is the longest for which the free blocks suffice: there are no more blocks it touches and the file
  lacks than there are free ones.  If this is all of the data, the size grows to cover it; otherwise the result is the length
  of what was stored, or \<open>ENOSPC\<close> when that is nothing.  What lies beyond the twelfth block is counted although it
  is not stored.  The write is to end below \<open>2 ^ 41\<close>, from where on the 32-bit block number of the code wraps.
\<close>

theorem jfs_write_refines:
  assumes "fs_ok s" "file_ok s ino" "offset + length data < 2 ^ 41"
  shows "\<exists>m s'. jfs_write s ino data offset = (if m = 0 \<and> data \<noteq> [] then ENOSPC else int m, s') \<and>
    m \<le> length data \<and> (\<forall>k \<le> length data. k \<le> m \<longleftrightarrow> room_for s ino offset k) \<and> fs_ok s' \<and>
    (\<forall>j < JFS_MAX_INODES. \<forall>q. file_byte s' j q =
      (if j = ino \<and> offset \<le> q \<and> q < offset + m \<and> q < 12 * JFS_BLOCK_SIZE then data ! (q - offset)
       else file_byte s j q)) \<and>
    (\<forall>j. ji_type (j_inodes s' j) = ji_type (j_inodes s j) \<and> ji_size (j_inodes s' j) =
      (if j = ino \<and> m = length data then max (offset + m) (ji_size (j_inodes s j)) else ji_size (j_inodes s j)))"
proof -
  have i: "ino < JFS_MAX_INODES" using assms(2) by (simp add: file_ok_def)
  obtain m fin s1 where w: "write_loop s ino data offset 0 = (m, fin, s1)" "m \<le> length data" "fin \<longleftrightarrow> m = length data"
      "wrote s ino offset (take m data) s1" "\<forall>k \<le> length data. k \<le> m \<longleftrightarrow> room_for s ino offset k"
    using write_loop_wrote [OF assms(1) i, of offset 0 data] assms(3) by auto
  let ?e = "offset + m" and ?n = "j_inodes s1 ino"
  define s2 where "s2 = (if ?e > ji_size ?n then put_inode s1 ino (?n\<lparr>ji_size := ?e\<rparr>) else s1)"
  define s' where "s' = (if fin then jfs_journal_flush s2 else s1)"
  have e: "?e mod 2 ^ 64 = ?e" using assms(3) w(2) by simp
  have r: "jfs_write s ino data offset = (if m = 0 \<and> data \<noteq> [] then ENOSPC else int m, s')"
    unfolding jfs_write_def w(1) prod.case e using assms(2) w(3) by (auto simp: s'_def s2_def Let_def)
  have ok1: "fs_ok s1" and m1: "keeps_meta s s1" using w(4) by (simp_all add: wrote_def)
  have sz: "ji_size ?n = ji_size (j_inodes s ino)" using m1 by (simp add: keeps_meta_def)
  have pt: "ptr s2 = ptr s1" by (intro ext) (simp add: ptr_def s2_def put_inode_def)
  have s2: "j_disk s2 = j_disk s1" "j_super s2 = j_super s1" "bitmap_tst s2 = bitmap_tst s1"
    by (simp_all add: s2_def put_inode_def bitmap_tst_def fun_eq_iff)
  have ok2: "fs_ok s2" using ok1 unfolding fs_ok_def pt s2 .
  have same: "same_files s2 (jfs_journal_flush s2)" by (rule journal_flush_files [OF fs_okD(2) [OF ok2]])
  have "file_byte s' = file_byte s1"
    using same_files_byte [OF same] by (auto simp: s'_def file_byte_def pt s2 fun_eq_iff)
  then have fb: "file_byte s' j = (if j = ino then overwrite (file_byte s ino) offset (take m data) else file_byte s j)"
    if "j < JFS_MAX_INODES" for j
    using w(4) that by (simp add: wrote_def)
  have "fs_ok s'" using ok1 same_files_ok [OF same ok2] by (simp add: s'_def)
  moreover have "ji_type (j_inodes s' j) = ji_type (j_inodes s j) \<and> ji_size (j_inodes s' j) =
      (if j = ino \<and> m = length data then max ?e (ji_size (j_inodes s j)) else ji_size (j_inodes s j))" for j
    using m1 w(3) sz same_files_inodes [OF same] by (auto simp: keeps_meta_def s'_def s2_def put_inode_def)
  ultimately show ?thesis using r w(2,5) fb by (intro exI [of _ m] exI [of _ s']) (auto simp: overwrite_def min_def)
qed

section \<open>Reading\<close>

lemma load_chunk_bytes:
  assumes "fs_ok s" "ino < JFS_MAX_INODES" "pos < 2 ^ 41" "0 < left"
  shows "load_chunk s ino (blk_idx pos) (blk_off pos) (chunk pos left) = map (file_byte s ino) [pos..<pos + chunk pos left]"
proof (rule nth_equalityI)
  show "length (load_chunk s ino (blk_idx pos) (blk_off pos) (chunk pos left)) =
      length (map (file_byte s ino) [pos..<pos + chunk pos left])"
    by (simp add: load_chunk_def bytes_at_def)
next
  fix k assume "k < length (load_chunk s ino (blk_idx pos) (blk_off pos) (chunk pos left))"
  then have k: "k < chunk pos left" by (simp add: load_chunk_def bytes_at_def split: if_splits)
  note P = pos_parts [OF assms(3)] and C = chunk_bounds [OF assms(4), of pos]
  have at: "pos = blk_idx pos * JFS_BLOCK_SIZE + blk_off pos" by (simp add: P)
  have lt: "blk_off pos + k < JFS_BLOCK_SIZE" using C k by simp
  have "pos + k = blk_idx pos * JFS_BLOCK_SIZE + (blk_off pos + k)" using at by simp
  then have d: "(pos + k) div JFS_BLOCK_SIZE = blk_idx pos" "(pos + k) mod JFS_BLOCK_SIZE = blk_off pos + k"
    by (subst \<open>pos + k = _\<close>, use lt in simp)+
  have l: "data_lba s (ptr s ino (blk_idx pos)) = JFS_DATA_START + ptr s ino (blk_idx pos)"
    if "blk_idx pos < 12" "ptr s ino (blk_idx pos) \<noteq> 0"
    by (rule data_lba_ok [OF assms(1) fs_okD(4) [OF assms(1,2) that]])
  show "load_chunk s ino (blk_idx pos) (blk_off pos) (chunk pos left) ! k =
      map (file_byte s ino) [pos..<pos + chunk pos left] ! k"
    using k l by (auto simp: load_chunk_def bytes_at_def file_byte_def d ptr_def)
qed

lemma read_loop_bytes:
  assumes "fs_ok s" "ino < JFS_MAX_INODES" "pos + left < 2 ^ 41"
  shows "read_loop s ino pos left = map (file_byte s ino) [pos..<pos + left]"
  using assms(3)
proof (induction left arbitrary: pos rule: less_induct)
  case (less left)
  show ?case
  proof (cases "left = 0")
    case True
    then show ?thesis by (simp add: read_loop.simps)
  next
    case False
    let ?n = "chunk pos left"
    have n: "0 < ?n" "?n \<le> left" using chunk_bounds False by simp_all
    have "read_loop s ino (pos + ?n) (left - ?n) = map (file_byte s ino) [pos + ?n..<pos + ?n + (left - ?n)]"
      by (rule less.IH) (use n less.prems in simp_all)
    moreover have "load_chunk s ino (blk_idx pos) (blk_off pos) ?n = map (file_byte s ino) [pos..<pos + ?n]"
      by (rule load_chunk_bytes) (use assms less.prems False in simp_all)
    moreover have "[pos..<pos + left] = [pos..<pos + ?n] @ [pos + ?n..<pos + left]"
      using upt_add_eq_append [of pos "pos + ?n" "left - ?n"] n by simp
    ultimately show ?thesis using False n by (simp add: read_loop.simps [of s ino pos left] Let_def)
  qed
qed

text \<open>
  C23. Reading a file.  On a well-formed file system \<open>jfs_read\<close> returns exactly the bytes of the
  file from the offset on, as many as asked for and as the size allows; the size is to be below \<open>2 ^ 41\<close>, from where
  on the 32-bit block number of the code wraps, and the end of the request within 64 bits.
\<close>

theorem jfs_read_exact:
  assumes "fs_ok s" "file_ok s ino" "ji_size (j_inodes s ino) < 2 ^ 41" "offset + count < 2 ^ 64"
  shows "jfs_read s ino count offset =
    Inr (map (file_byte s ino) [offset..<min (offset + count) (max offset (ji_size (j_inodes s ino)))])"
proof -
  let ?sz = "ji_size (j_inodes s ino)"
  have i: "ino < JFS_MAX_INODES" using assms(2) by (simp add: file_ok_def)
  have c: "(offset + count) mod 2 ^ 64 = offset + count" using assms(4) by simp
  show ?thesis
  proof (cases "offset \<ge> ?sz")
    case True
    then show ?thesis using assms(2) by (simp add: jfs_read_def max_def)
  next
    case False
    define left where "left = (if offset + count > ?sz then ?sz - offset else count)"
    have "read_loop s ino offset left = map (file_byte s ino) [offset..<offset + left]"
      by (rule read_loop_bytes [OF assms(1) i]) (use False assms(3) in \<open>simp add: left_def\<close>)
    moreover have "offset + left = min (offset + count) (max offset ?sz)" using False by (auto simp: left_def)
    ultimately show ?thesis using False assms(2) unfolding jfs_read_def c by (simp add: left_def)
  qed
qed


section \<open>The first block of a new file system\<close>

lemma init_fresh:
  assumes "js_magic (super_of (j_disk s JFS_SUPER_LBA)) \<noteq> JFS_MAGIC"
  shows "j_super (jfs_init s) = fresh_super" "j_bitmap (jfs_init s) = (\<lambda>_. 0)"
    "j_inodes (jfs_init s) = (\<lambda>_. jfs_inode_zero)(0 := jfs_inode_zero\<lparr>ji_type := JFS_IT_DIR, ji_mode := 0x1ED\<rparr>)"
  using assms by (simp_all add: jfs_init_def Let_def write_super_def write_sector_def)

lemma create_fresh:
  assumes "js_magic (super_of (j_disk s JFS_SUPER_LBA)) \<noteq> JFS_MAGIC"
  obtains s1 where "jfs_create (jfs_init s) mode = (1, s1)"
    "j_bitmap s1 = (\<lambda>_. 0)" "js_data_start (j_super s1) = of_nat JFS_DATA_START"
    "js_journal_start (j_super s1) = of_nat JFS_JOURNAL_START"
    "file_ok s1 1" "ji_size (j_inodes s1 1) = 0" "\<And>i b. ptr s1 i b = 0"
proof -
  note I = init_fresh [OF assms]
  let ?s0 = "jfs_init s"
  have f: "first_idx (\<lambda>i. ji_type (j_inodes ?s0 i) = JFS_IT_FREE) 1 (JFS_MAX_INODES - 1) = Some 1"
    by (rule first_idx_SomeI) (simp_all add: I jfs_consts jfs_inode_zero_def)
  define n where "n = (j_inodes ?s0 1)\<lparr>ji_type := JFS_IT_FILE, ji_mode := mode, ji_uid := 0, ji_gid := 0,
      ji_size := 0, ji_blocks := 0, ji_ptrs := (\<lambda>_. 0)\<rparr>"
  define s2 where "s2 = put_inode (?s0\<lparr>j_super := (j_super ?s0)\<lparr>js_free_inodes := js_free_inodes (j_super ?s0) - 1\<rparr>\<rparr>) 1 n"
  define s3 where "s3 = jfs_journal_commit s2 JFS_OP_CREATE 1 0 0 None"
  have st: "js_journal_start (j_super s2) = of_nat JFS_JOURNAL_START" "js_data_start (j_super s2) = of_nat JFS_DATA_START"
    by (simp_all add: s2_def put_inode_def I fresh_super_def)
  have a: "same_files s2 s3" unfolding s3_def by (rule journal_commit_files [OF st(1)])
  then have "same_files s3 (jfs_journal_flush s3)" by (intro journal_flush_files) (simp add: same_files_def st)
  with a have same: "same_files s2 (jfs_journal_flush s3)" by (rule same_files_trans)
  have r: "jfs_create ?s0 mode = (1, jfs_journal_flush s3)"
    unfolding jfs_create_def new_inode_def jfs_alloc_inode_def f
    by (simp add: Let_def s3_def s2_def n_def put_inode_def)
  show thesis
    by (rule that [OF r])
       (use same st in \<open>simp_all add: same_files_def s2_def put_inode_def I n_def file_ok_def ptr_def jfs_consts jfs_inode_zero_def\<close>)
qed

text \<open>
  The first block of a new file system is lost.  On a disk without a superblock, create a
  file and write up to one block: everything reports success, but the block the bytes go
  to has number 0, which means \<open>no block\<close> in an inode, and reading back gives zeros.
\<close>

theorem jfs_first_block_lost:
  assumes "js_magic (super_of (j_disk s JFS_SUPER_LBA)) \<noteq> JFS_MAGIC" "data \<noteq> []" "length data \<le> JFS_BLOCK_SIZE"
  shows "\<exists>s1 s2. jfs_create (jfs_init s) mode = (1, s1) \<and> jfs_write s1 1 data 0 = (int (length data), s2) \<and>
    ji_size (j_inodes s2 1) = length data \<and> jfs_read s2 1 (length data) 0 = Inr (replicate (length data) 0)"
proof -
  obtain s1 where c: "jfs_create (jfs_init s) mode = (1, s1)"
    "j_bitmap s1 = (\<lambda>_. 0)" "js_data_start (j_super s1) = of_nat JFS_DATA_START"
    "js_journal_start (j_super s1) = of_nat JFS_JOURNAL_START"
    "file_ok s1 1" "ji_size (j_inodes s1 1) = 0" "\<And>i b. ptr s1 i b = 0"
    using create_fresh [OF assms(1)] by metis
  let ?n = "length data"
  have p: "blk_idx 0 = 0" "blk_off 0 = 0" "chunk 0 ?n = ?n"
    using assms(3) by (simp_all add: blk_idx_def blk_off_def chunk_def)
  have f: "first_idx (\<lambda>i. \<not> bitmap_tst s1 i) 0 JFS_MAX_BLOCKS = Some 0"
    by (rule first_idx_SomeI) (simp_all add: bitmap_tst_def c(2) JFS_MAX_BLOCKS_def)
  obtain s2 where e: "ensure_block s1 1 0 = Some s2" "\<And>i b. ptr s2 i b = 0" "file_ok s2 1" "ji_size (j_inodes s2 1) = 0"
      "js_journal_start (j_super s2) = of_nat JFS_JOURNAL_START"
    using c(4-7) unfolding ensure_block_def jfs_alloc_block_def f
    by (simp add: ptr_def Let_def put_inode_def write_sector_def bitmap_set_def file_ok_def fun_eq_iff)
  define s3 where "s3 = store_chunk s2 1 0 0 data"
  define s4 where "s4 = jfs_journal_commit s3 JFS_OP_WRITE 1 0 ?n (Some data)"
  have s3: "j_inodes s3 = j_inodes s2" "j_super s3 = j_super s2"
    by (simp_all add: s3_def store_chunk_def Let_def write_sector_def)
  have "same_files s3 s4" unfolding s4_def by (rule journal_commit_files) (simp add: s3 e)
  then have s4: "j_inodes s4 = j_inodes s2" "js_journal_start (j_super s4) = of_nat JFS_JOURNAL_START"
    using s3 e(5) by (simp_all add: same_files_def)
  have w: "write_loop s1 1 data 0 0 = (?n, True, s4)"
    using assms(2) e(1) by (simp add: write_loop.simps [of s1] write_loop.simps [of _ _ "[]"] p Let_def s4_def s3_def)
  define s5 where "s5 = put_inode s4 1 ((j_inodes s4 1)\<lparr>ji_size := ?n\<rparr>)"
  have "same_files s5 (jfs_journal_flush s5)"
    by (rule journal_flush_files) (simp add: s5_def put_inode_def s4)
  then have i: "j_inodes (jfs_journal_flush s5) = (j_inodes s2)(1 := (j_inodes s2 1)\<lparr>ji_size := ?n\<rparr>)"
    by (simp add: same_files_def s5_def put_inode_def s4)
  have m: "?n mod 18446744073709551616 = ?n" using assms(3) by (simp add: JFS_BLOCK_SIZE_def)
  have wr: "jfs_write s1 1 data 0 = (int ?n, jfs_journal_flush s5)"
    using c(5) assms(2) e(4) unfolding jfs_write_def w by (simp add: m s4 s5_def Let_def)
  have pt: "ji_ptrs (j_inodes s2 (Suc 0)) 0 = 0" using e(2) [of 1 0] by (simp add: ptr_def)
  have "jfs_read (jfs_journal_flush s5) 1 ?n 0 = Inr (replicate ?n 0)"
    using e(3) assms(2) unfolding jfs_read_def
    by (simp add: i file_ok_def m read_loop.simps [of _ _ 0] read_loop.simps [of _ _ _ 0] p load_chunk_def pt Let_def)
  then show ?thesis using c(1) wr by (intro exI conjI) (simp_all add: i)
qed


section \<open>Witnesses\<close>

text \<open>A formatted disk with block 0 in use and one empty file, number 1, of size 2.\<close>

definition jfs_demo :: jfs where
  "jfs_demo = \<lparr>j_disk = (\<lambda>_ _. 0), j_super = fresh_super,
     j_inodes = (\<lambda>_. jfs_inode_zero)(1 := jfs_inode_zero\<lparr>ji_type := JFS_IT_FILE, ji_size := 2\<rparr>),
     j_bitmap = (\<lambda>_. 0)(0 := 1), j_head = 0, j_tail = 0, j_count = 0, j_entries = (\<lambda>_. je_zero)\<rparr>"

lemma jfs_demo_ok: "fs_ok jfs_demo" "file_ok jfs_demo 1" "ji_size (j_inodes jfs_demo 1) = 2"
  by (simp_all add: fs_ok_def jfs_demo_def fresh_super_def bitmap_tst_def ptr_def jfs_inode_zero_def file_ok_def
    jfs_consts)

lemma jfs_write_refines_witness:
  "\<exists>s'. jfs_write jfs_demo 1 [65, 66] 1000 = (2, s') \<and> fs_ok s' \<and> file_byte s' 1 1001 = 66 \<and> ji_size (j_inodes s' 1) = 1002"
proof -
  obtain m s' where w: "jfs_write jfs_demo 1 [65, 66] 1000 = (if m = 0 then ENOSPC else int m, s')" "m \<le> 2" "fs_ok s'"
     "\<And>j q. j < JFS_MAX_INODES \<Longrightarrow> file_byte s' j q =
      (if j = 1 \<and> 1000 \<le> q \<and> q < 1000 + m \<and> q < 12 * JFS_BLOCK_SIZE then [65, 66] ! (q - 1000)
       else file_byte jfs_demo j q)"
     "\<forall>k \<le> 2. k \<le> m \<longleftrightarrow> room_for jfs_demo 1 1000 k"
     "\<And>j. ji_size (j_inodes s' j) =
      (if j = 1 \<and> m = 2 then max (1000 + m) (ji_size (j_inodes jfs_demo j)) else ji_size (j_inodes jfs_demo j))"
    using jfs_write_refines [OF jfs_demo_ok(1,2), of 1000 "[65, 66]"] by (auto simp del: One_nat_def)
  have "blocks_of 1000 2 = {1}" using blocks_of_chunk [of 2 1000] by (simp add: JFS_BLOCK_SIZE_def)
  then have "card (missing jfs_demo 1 1000 2) \<le> 1" using card_mono [of "{1}" "missing jfs_demo 1 1000 2"] by (auto simp: missing_def)
  moreover have "1 \<in> {i. i < JFS_MAX_BLOCKS \<and> \<not> bitmap_tst jfs_demo i}"
    by (simp add: jfs_demo_def bitmap_tst_def JFS_MAX_BLOCKS_def)
  then have "0 < free_count jfs_demo" unfolding free_count_def card_gt_0_iff by auto
  ultimately have "room_for jfs_demo 1 1000 2" by (simp add: room_for_def)
  then have "m = 2" using w(2,5) by auto
  then have "file_byte s' 1 1001 = 66" "ji_size (j_inodes s' 1) = 1002" using w(4) [of 1 1001] w(6) [of 1] jfs_demo_ok(3)
    by (simp_all add: jfs_consts)
  with w(1,3) \<open>m = 2\<close> show ?thesis by (intro exI [of _ s']) simp
qed

lemma jfs_read_exact_witness: "jfs_read jfs_demo 1 10 0 = Inr [0, 0]"
  using jfs_read_exact [OF jfs_demo_ok(1,2), of 0 10]
  by (simp add: jfs_demo_ok upt_rec file_byte_def ptr_def jfs_demo_def jfs_inode_zero_def)

lemma jfs_first_block_lost_witness:
  "\<exists>s1 s2. jfs_create (jfs_init (jfs_demo\<lparr>j_super := fresh_super\<rparr>)) 0x1A4 = (1, s1) \<and>
     jfs_write s1 1 [65, 66] 0 = (2, s2) \<and> jfs_read s2 1 2 0 = Inr [0, 0]"
proof -
  have "js_magic (super_of (j_disk (jfs_demo\<lparr>j_super := fresh_super\<rparr>) JFS_SUPER_LBA)) \<noteq> JFS_MAGIC"
    by (simp add: jfs_demo_def super_of_def bytes_at_def le_value_def upt_rec JFS_MAGIC_def)
  from jfs_first_block_lost [OF this, of "[65, 66]" "0x1A4"] show ?thesis
    by (auto simp: JFS_BLOCK_SIZE_def numeral_2_eq_2)
qed

end
