(* ===== verification/JfsOps.thy ===== *)
theory JfsOps
  imports JfsFiles Inode
begin

text \<open>
  Directories of kernel/jfs.c and its table of operations for the virtual file system.  The two
  nested loops over the blocks of a directory and the slots of a block are one loop over the
  84 pairs in the same order.
\<close>

definition dir_ok :: "jfs \<Rightarrow> nat \<Rightarrow> bool" where
  "dir_ok s ino \<longleftrightarrow> \<not> (ino \<ge> JFS_MAX_INODES \<or> ji_type (j_inodes s ino) \<noteq> JFS_IT_DIR)"

definition slot_entry :: "jfs \<Rightarrow> nat \<Rightarrow> nat \<Rightarrow> jfs_direntry" where
  "slot_entry s dir k =
     direntry_at (j_disk s (data_lba s (ji_ptrs (j_inodes s dir) (k div DE_SLOTS)))) (k mod DE_SLOTS)"

definition dir_scan :: "jfs \<Rightarrow> nat \<Rightarrow> (jfs_direntry \<Rightarrow> bool) \<Rightarrow> nat option" where
  "dir_scan s dir P =
     first_idx (\<lambda>k. ji_ptrs (j_inodes s dir) (k div DE_SLOTS) \<noteq> 0 \<and> P (slot_entry s dir k)) 0 (12 * DE_SLOTS)"

definition new_direntry :: "str \<Rightarrow> nat \<Rightarrow> nat \<Rightarrow> jfs_direntry" where
  "new_direntry name ino ty =
     \<lparr>de_name = take 63 name @ replicate (64 - min 63 (length name)) 0, de_ino = of_nat ino, de_type = of_nat ty\<rparr>"

definition grow_dir :: "jfs \<Rightarrow> nat \<Rightarrow> jfs" where
  "grow_dir s dir = put_inode s dir ((j_inodes s dir)\<lparr>ji_size := ji_size (j_inodes s dir) + DE_SIZE\<rparr>)"

definition jfs_dir_add :: "jfs \<Rightarrow> nat \<Rightarrow> str \<Rightarrow> nat \<Rightarrow> nat \<Rightarrow> int \<times> jfs" where
  "jfs_dir_add s dir name child ty =
     (if \<not> dir_ok s dir then (ENOTDIR, s)
      else let de = direntry_bytes (new_direntry name child ty) in
        (case dir_scan s dir (\<lambda>e. de_ino e = 0) of
           Some k \<Rightarrow>
             (let lba = data_lba s (ji_ptrs (j_inodes s dir) (k div DE_SLOTS))
              in (0, grow_dir (write_sector lba (put_bytes (j_disk s lba) (k mod DE_SLOTS * DE_SIZE) de) s) dir))
         | None \<Rightarrow>
             (case first_idx (\<lambda>b. ji_ptrs (j_inodes s dir) b = 0) 0 12 of
                None \<Rightarrow> (ENOSPC, s)
              | Some b \<Rightarrow>
                  (case jfs_alloc_block s of
                     (None, s1) \<Rightarrow> (ENOSPC, s1)
                   | (Some blk, s1) \<Rightarrow>
                       (let n = j_inodes s1 dir;
                            s2 = put_inode s1 dir (n\<lparr>ji_ptrs := (ji_ptrs n)(b := blk), ji_blocks := ji_blocks n + 1\<rparr>);
                            lba = data_lba s2 blk
                        in (0, grow_dir (write_sector lba (put_bytes zero_sector 0 de) s2) dir))))))"

definition name_is :: "str \<Rightarrow> jfs_direntry \<Rightarrow> bool" where
  "name_is name e \<longleftrightarrow> strncmp (c_str (de_name e)) name 63 = 0"

text \<open>The inode number and the type of the entry found.\<close>

definition jfs_dir_lookup :: "jfs \<Rightarrow> nat \<Rightarrow> str \<Rightarrow> int + nat \<times> u8" where
  "jfs_dir_lookup s dir name =
     (if \<not> dir_ok s dir then Inl ENOTDIR
      else case dir_scan s dir (\<lambda>e. de_ino e \<noteq> 0 \<and> name_is name e) of
             None \<Rightarrow> Inl ENOENT
           | Some k \<Rightarrow> Inr (unat (de_ino (slot_entry s dir k)), de_type (slot_entry s dir k)))"

section \<open>Operations for the virtual file system\<close>

definition ino32 :: "vfs_inode \<Rightarrow> nat" where
  "ino32 i = vi_ino i mod 2 ^ 32"

definition jfs_ops_read :: "vfs_inode \<Rightarrow> nat \<Rightarrow> nat \<Rightarrow> jfs \<Rightarrow> int \<times> u8 list \<times> jfs" where
  "jfs_ops_read i count offset s =
     (case jfs_read s (ino32 i) count offset of
        Inl e \<Rightarrow> (e, [], s)
      | Inr bs \<Rightarrow> (int (length bs), bs, s))"

definition jfs_ops_write :: "vfs_inode \<Rightarrow> u8 list \<Rightarrow> nat \<Rightarrow> jfs \<Rightarrow> int \<times> vfs_inode \<times> jfs" where
  "jfs_ops_write i data offset s = (let (r, s') = jfs_write s (ino32 i) data offset in (r, i, s'))"

fun readdir_loop :: "jfs \<Rightarrow> nat \<Rightarrow> nat \<Rightarrow> nat \<Rightarrow> nat \<Rightarrow> u8 list" where
  "readdir_loop s dir count k 0 = []"
| "readdir_loop s dir count k (Suc n) =
     (if ji_ptrs (j_inodes s dir) (k div DE_SLOTS) = 0 \<or> de_ino (slot_entry s dir k) = 0
      then readdir_loop s dir count (k + 1) n
      else if DE_SIZE \<le> count
      then bytes_at (j_disk s (data_lba s (ji_ptrs (j_inodes s dir) (k div DE_SLOTS)))) (k mod DE_SLOTS * DE_SIZE) DE_SIZE
           @ readdir_loop s dir (count - DE_SIZE) (k + 1) n
      else [])"

definition jfs_ops_readdir :: "vfs_inode \<Rightarrow> nat \<Rightarrow> nat \<Rightarrow> jfs \<Rightarrow> int \<times> u8 list \<times> nat \<times> jfs" where
  "jfs_ops_readdir i count offset s =
     (if \<not> dir_ok s (ino32 i) then (ENOTDIR, [], offset, s)
      else let bs = readdir_loop s (ino32 i) count 0 (12 * DE_SLOTS)
           in (int (length bs), bs, offset + length bs, s))"

definition jfs_ops_lookup :: "vfs_inode \<Rightarrow> str \<Rightarrow> vfs_inode \<Rightarrow> jfs \<Rightarrow> int \<times> vfs_inode \<times> jfs" where
  "jfs_ops_lookup d name out s =
     (case jfs_dir_lookup s (ino32 d) name of
        Inl e \<Rightarrow> (e, out, s)
      | Inr (child, ty) \<Rightarrow>
          (if child \<ge> JFS_MAX_INODES then (ENOENT, out, s)
           else let n = j_inodes s child
                in (0, out\<lparr>vi_valid := True, vi_ino := child, vi_dev := vi_dev d, vi_rdev := 0, vi_refcount := 1,
                        vi_ops := vi_ops d, vi_fs_data := 0, vi_mount := vi_mount d,
                        vi_attr := (vi_attr out)\<lparr>ia_type := (if ji_type n = JFS_IT_DIR then 2 else 1),
                          ia_mode := ji_mode n, ia_uid := ji_uid n, ia_gid := ji_gid n, ia_size := ji_size n,
                          ia_nlink := 1, ia_blocks := ji_blocks n, ia_blksize := JFS_BLOCK_SIZE,
                          ia_atime := ji_atime n, ia_mtime := ji_mtime n, ia_ctime := ji_ctime n\<rparr>\<rparr>, s)))"

definition jfs_ops_create :: "vfs_inode \<Rightarrow> str \<Rightarrow> u16 \<Rightarrow> vfs_inode \<Rightarrow> jfs \<Rightarrow> int \<times> vfs_inode \<times> jfs" where
  "jfs_ops_create d name mode out s =
     (case jfs_create s mode of
        (ino, s1) \<Rightarrow>
          (if ino < 0 then (ino, out, s1)
           else case jfs_dir_add s1 (ino32 d) name (nat ino) JFS_IT_FILE of
             (r, s2) \<Rightarrow>
               (if r < 0 then (r, out, snd (jfs_unlink s2 (nat ino)))
                else case jfs_ops_lookup d name out s2 of (_, out', s3) \<Rightarrow> (0, out', s3))))"

definition jfs_ops_mkdir :: "vfs_inode \<Rightarrow> str \<Rightarrow> u16 \<Rightarrow> jfs \<Rightarrow> int \<times> jfs" where
  "jfs_ops_mkdir d name mode s =
     (case jfs_mkdir s mode of
        (ino, s1) \<Rightarrow> (if ino < 0 then (ino, s1) else jfs_dir_add s1 (ino32 d) name (nat ino) JFS_IT_DIR))"

definition jfs_ops_unlink :: "vfs_inode \<Rightarrow> str \<Rightarrow> jfs \<Rightarrow> int \<times> jfs" where
  "jfs_ops_unlink d name s =
     (case jfs_dir_lookup s (ino32 d) name of
        Inl e \<Rightarrow> (e, s)
      | Inr (child, _) \<Rightarrow>
          (let s1 = (case dir_scan s (ino32 d) (\<lambda>e. unat (de_ino e) = child \<and> name_is name e) of
                       None \<Rightarrow> s
                     | Some k \<Rightarrow>
                         (let lba = data_lba s (ji_ptrs (j_inodes s (ino32 d)) (k div DE_SLOTS))
                          in write_sector lba (put_bytes (j_disk s lba) (k mod DE_SLOTS * DE_SIZE) (replicate DE_SIZE 0)) s))
           in jfs_unlink s1 child))"

definition jfs_ops_setattr :: "vfs_inode \<Rightarrow> inode_attr \<Rightarrow> jfs \<Rightarrow> int \<times> vfs_inode \<times> jfs" where
  "jfs_ops_setattr i a s =
     (if ino32 i \<ge> JFS_MAX_INODES then (EINVAL, i, s)
      else (0, i\<lparr>vi_attr := a\<rparr>,
            put_inode s (ino32 i) ((j_inodes s (ino32 i))\<lparr>ji_mode := ia_mode a, ji_uid := ia_uid a, ji_gid := ia_gid a,
              ji_atime := ia_atime a, ji_mtime := ia_mtime a, ji_ctime := ia_ctime a\<rparr>)))"

definition jfs_ops_getsize :: "vfs_inode \<Rightarrow> jfs \<Rightarrow> int" where
  "jfs_ops_getsize i s = (if ino32 i \<ge> JFS_MAX_INODES then EINVAL else int (ji_size (j_inodes s (ino32 i))))"

definition jfs_inode_ops :: "jfs inode_ops" where
  "jfs_inode_ops =
     \<lparr>op_read = Some jfs_ops_read, op_write = Some jfs_ops_write, op_readdir = Some jfs_ops_readdir,
      op_lookup = Some jfs_ops_lookup, op_create = jfs_ops_create, op_mkdir = jfs_ops_mkdir,
      op_unlink = jfs_ops_unlink, op_rmdir = jfs_ops_unlink, op_setattr = jfs_ops_setattr,
      op_getsize = Some jfs_ops_getsize\<rparr>"

text \<open>The root inode \<open>vfs_register_jfs\<close> mounts at \<open>/jfs\<close>; the argument is the address of the table.\<close>

definition jfs_root :: "nat \<Rightarrow> vfs_inode" where
  "jfs_root tab = inode_zero\<lparr>vi_valid := True, vi_ino := 0, vi_dev := 2, vi_refcount := 1, vi_ops := tab,
     vi_attr := attr_zero\<lparr>ia_type := 2, ia_mode := 0x1ED, ia_nlink := 1, ia_blksize := JFS_BLOCK_SIZE\<rparr>\<rparr>"


lemma dir_lookup_error: "jfs_dir_lookup s dir name = Inl e \<Longrightarrow> e < 0"
  by (auto simp: jfs_dir_lookup_def errno split: if_splits option.splits)

interpretation jfs: file_system "\<lambda>_. jfs_inode_ops"
proof
  fix f d name out st r i st' t
  assume "op_lookup jfs_inode_ops = Some f" "f d name out st = (r, i, st')" "0 \<le> r"
  then show "vi_valid i \<and> vi_refcount i = 1"
    by (auto simp: jfs_inode_ops_def jfs_ops_lookup_def Let_def errno dest: dir_lookup_error split: sum.splits if_splits)
qed (auto simp: jfs_inode_ops_def jfs_ops_write_def split: prod.splits)

section \<open>Entries in bytes\<close>

lemma length_direntry: "length (de_name d) = 64 \<Longrightarrow> length (direntry_bytes d) = DE_SIZE"
  by (simp add: direntry_bytes_def DE_SIZE_def)

lemma direntry_same:
  assumes "length (de_name d) = 64"
  shows "direntry_at (put_bytes b (j * DE_SIZE) (direntry_bytes d)) j = d"
proof -
  have l: "length (direntry_bytes d) = 72" using length_direntry [OF assms] by (simp add: DE_SIZE_def)
  have n: "bytes_at (put_bytes b (j * DE_SIZE) (direntry_bytes d)) (j * DE_SIZE + 0) 64 = de_name d"
    by (subst bytes_at_put) (simp_all add: l, simp add: direntry_bytes_def assms)
  have i: "bytes_at (put_bytes b (j * DE_SIZE) (direntry_bytes d)) (j * DE_SIZE + 64) 4 = le_bytes 4 (unat (de_ino d))"
    by (subst bytes_at_put) (simp_all add: l, simp add: direntry_bytes_def assms)
  have t: "put_bytes b (j * DE_SIZE) (direntry_bytes d) (j * DE_SIZE + 68) = de_type d"
    by (simp add: put_bytes_def l direntry_bytes_def assms nth_append)
  have "unat (de_ino d) < 2 ^ 32" using unsigned_less [of "de_ino d"] by simp
  then show ?thesis
    unfolding direntry_at_def i t using n by (cases d) (simp add: le_value_bytes)
qed

lemma direntry_other:
  assumes "length bs = DE_SIZE" "i \<noteq> j"
  shows "direntry_at (put_bytes b (j * DE_SIZE) bs) i = direntry_at b i"
proof -
  have "i * DE_SIZE + DE_SIZE \<le> j * DE_SIZE \<or> j * DE_SIZE + DE_SIZE \<le> i * DE_SIZE"
    using assms(2) by (auto simp: neq_iff DE_SIZE_def)
  then have same: "put_bytes b (j * DE_SIZE) bs x = b x" if "i * DE_SIZE \<le> x" "x < i * DE_SIZE + DE_SIZE" for x
    using that assms(1) by (auto simp: put_bytes_def)
  have "bytes_at (put_bytes b (j * DE_SIZE) bs) (i * DE_SIZE + k) n = bytes_at b (i * DE_SIZE + k) n" if "k + n \<le> DE_SIZE" for k n
    unfolding bytes_at_def by (rule map_cong [OF refl], rule same) (use that in auto)
  from this [of 0 64] this [of 64 4] same [of "i * DE_SIZE + 68"] show ?thesis
    by (simp add: direntry_at_def DE_SIZE_def)
qed

section \<open>Names\<close>

lemma name_is_new:
  assumes "0 \<notin> set name" "0 \<notin> set other"
  shows "name_is other (new_direntry name ino ty) \<longleftrightarrow> take 63 name = take 63 other"
proof -
  have "0 \<notin> set (take 63 name)" using assms(1) by (auto dest: in_set_takeD)
  then show ?thesis
    using assms by (simp add: name_is_def new_direntry_def c_str_padded strncmp_take)
qed


section \<open>Adding a name\<close>

definition active :: "jfs \<Rightarrow> nat \<Rightarrow> nat \<Rightarrow> bool" where
  "active s dir k \<longleftrightarrow> ji_ptrs (j_inodes s dir) (k div DE_SLOTS) \<noteq> 0 \<and> de_ino (slot_entry s dir k) \<noteq> 0"

lemma lookup_active:
  "dir_scan s dir (\<lambda>e. de_ino e \<noteq> 0 \<and> name_is name e) =
     first_idx (\<lambda>k. active s dir k \<and> name_is name (slot_entry s dir k)) 0 (12 * DE_SLOTS)"
  unfolding dir_scan_def active_def by (simp only: conj_assoc)

definition adds_entry :: "jfs \<Rightarrow> nat \<Rightarrow> nat \<Rightarrow> jfs_direntry \<Rightarrow> jfs \<Rightarrow> bool" where
  "adds_entry s dir k0 e s' \<longleftrightarrow> dir_ok s' dir \<and> k0 < 12 * DE_SLOTS \<and> \<not> active s dir k0 \<and>
     ji_ptrs (j_inodes s' dir) (k0 div DE_SLOTS) \<noteq> 0 \<and> slot_entry s' dir k0 = e \<and>
     (\<forall>k < 12 * DE_SLOTS. k \<noteq> k0 \<longrightarrow> (active s' dir k \<longleftrightarrow> active s dir k) \<and>
        (active s dir k \<longrightarrow> slot_entry s' dir k = slot_entry s dir k))"

lemma grow_dir_simps [simp]:
  "ji_ptrs (j_inodes (grow_dir s dir) d) = ji_ptrs (j_inodes s d)"
  "ji_type (j_inodes (grow_dir s dir) d) = ji_type (j_inodes s d)"
  "j_disk (grow_dir s dir) = j_disk s" "j_super (grow_dir s dir) = j_super s"
  by (simp_all add: grow_dir_def put_inode_def)

lemma slot_lba:
  assumes "fs_ok s" "dir < JFS_MAX_INODES" "b < 12" "ptr s dir b \<noteq> 0"
  shows "data_lba s (ji_ptrs (j_inodes s dir) b) = JFS_DATA_START + ptr s dir b"
  using data_lba_ok [OF assms(1) fs_okD(4) [OF assms]] by (simp add: ptr_def)

lemma slot_block: "k < 12 * DE_SLOTS \<Longrightarrow> k div DE_SLOTS < 12"
  by (simp add: less_mult_imp_div_less)

lemma slot_eq: "k div DE_SLOTS = j div DE_SLOTS \<Longrightarrow> k mod DE_SLOTS = j mod DE_SLOTS \<Longrightarrow> k = j"
  by (metis div_mult_mod_eq)

lemma add_to_free_slot:
  assumes ok: "fs_ok s" and d: "dir_ok s dir" and e: "length (de_name e) = 64"
    and k: "dir_scan s dir (\<lambda>e. de_ino e = 0) = Some k0"
    and lba: "lba = data_lba s (ji_ptrs (j_inodes s dir) (k0 div DE_SLOTS))"
  shows "adds_entry s dir k0 e
    (grow_dir (write_sector lba (put_bytes (j_disk s lba) (k0 mod DE_SLOTS * DE_SIZE) (direntry_bytes e)) s) dir)"
    (is "adds_entry s dir k0 e ?s'")
proof -
  have dir: "dir < JFS_MAX_INODES" using d by (simp add: dir_ok_def)
  have k0: "k0 < 12 * DE_SLOTS" "ptr s dir (k0 div DE_SLOTS) \<noteq> 0" "de_ino (slot_entry s dir k0) = 0"
    using first_idxD [OF k [unfolded dir_scan_def]] by (simp_all add: ptr_def)
  have p: "ji_ptrs (j_inodes ?s' dir) = ji_ptrs (j_inodes s dir)" by (simp add: write_sector_def)
  have l: "lba = JFS_DATA_START + ptr s dir (k0 div DE_SLOTS)"
    unfolding lba by (rule slot_lba [OF ok dir slot_block [OF k0(1)] k0(2)])
  have dl: "data_lba ?s' b = data_lba s b" for b by (simp add: data_lba_def write_sector_def)
  have dk: "j_disk ?s' = (j_disk s)(lba := put_bytes (j_disk s lba) (k0 mod DE_SLOTS * DE_SIZE) (direntry_bytes e))"
    by (simp add: write_sector_def)
  have new: "slot_entry ?s' dir k0 = e"
    unfolding slot_entry_def p dl dk using direntry_same [OF e] by (simp add: lba)
  have old: "slot_entry ?s' dir k = slot_entry s dir k"
    if "k < 12 * DE_SLOTS" "k \<noteq> k0" "ji_ptrs (j_inodes s dir) (k div DE_SLOTS) \<noteq> 0" for k
  proof -
    have kl: "data_lba s (ji_ptrs (j_inodes s dir) (k div DE_SLOTS)) = JFS_DATA_START + ptr s dir (k div DE_SLOTS)"
      by (rule slot_lba [OF ok dir slot_block [OF that(1)]]) (use that(3) in \<open>simp add: ptr_def\<close>)
    show ?thesis
    proof (cases "k div DE_SLOTS = k0 div DE_SLOTS")
      case True
      then have "k mod DE_SLOTS \<noteq> k0 mod DE_SLOTS" using slot_eq that(2) by blast
      then show ?thesis
        unfolding slot_entry_def p dl dk using direntry_other [OF length_direntry [OF e]] True by (simp add: lba)
    next
      case False
      then have "ptr s dir (k div DE_SLOTS) \<noteq> ptr s dir (k0 div DE_SLOTS)"
        using fs_okD(6) [OF ok dir slot_block [OF that(1)] dir slot_block [OF k0(1)]] that(3) by (auto simp: ptr_def)
      then show ?thesis unfolding slot_entry_def p dl dk kl by (simp add: l)
    qed
  qed
  show ?thesis
    unfolding adds_entry_def active_def p
    using d k0 new old by (auto simp: dir_ok_def ptr_def write_sector_def)
qed

lemma add_to_new_block:
  assumes ok: "fs_ok s" and d: "dir_ok s dir" and e: "length (de_name e) = 64"
    and b: "b < 12" "ji_ptrs (j_inodes s dir) b = 0"
    and a: "jfs_alloc_block s = (Some blk, s1)"
    and s2: "s2 = put_inode s1 dir ((j_inodes s1 dir)\<lparr>ji_ptrs := (ji_ptrs (j_inodes s1 dir))(b := blk), ji_blocks := n\<rparr>)"
  shows "adds_entry s dir (b * DE_SLOTS) e
    (grow_dir (write_sector (data_lba s2 blk) (put_bytes zero_sector 0 (direntry_bytes e)) s2) dir)"
    (is "adds_entry s dir ?k0 e ?s'")
proof -
  have dir: "dir < JFS_MAX_INODES" using d by (simp add: dir_ok_def)
  have A: "0 < blk" "blk < JFS_MAX_BLOCKS" "\<not> bitmap_tst s blk" "j_inodes s1 = j_inodes s"
      "js_data_start (j_super s1) = js_data_start (j_super s)" "j_disk s1 = (j_disk s)(JFS_DATA_START + blk := zero_sector)"
    using alloc_block_cases [OF ok] a by (metis Pair_inject option.distinct(1) option.inject)+
  have sl: "0 < DE_SLOTS" by (simp add: DE_SLOTS_def JFS_BLOCK_SIZE_def DE_SIZE_def)
  define s' where "s' = ?s'"
  have p: "ji_ptrs (j_inodes s' dir) = (ji_ptrs (j_inodes s dir))(b := blk)"
    by (simp add: s'_def write_sector_def s2 put_inode_def A)
  have dl: "data_lba s' c = data_lba s c" "data_lba s2 c = data_lba s c" for c
    by (simp_all add: s'_def data_lba_def write_sector_def s2 put_inode_def A)
  have l: "data_lba s blk = JFS_DATA_START + blk" by (rule data_lba_ok [OF ok A(2)])
  have dk: "j_disk s' = (j_disk s)(JFS_DATA_START + blk := put_bytes zero_sector 0 (direntry_bytes e))"
    unfolding s'_def dl l by (simp add: write_sector_def s2 put_inode_def A)
  have new: "slot_entry s' dir ?k0 = e"
    unfolding slot_entry_def p dl dk using direntry_same [OF e, of _ 0] sl by (simp add: l)
  have z: "de_ino (slot_entry s' dir k) = 0" if "k div DE_SLOTS = b" "k \<noteq> ?k0" for k
  proof -
    have "k mod DE_SLOTS \<noteq> 0" using that by (metis add_cancel_right_right div_mult_mod_eq)
    then have "slot_entry s' dir k = direntry_at zero_sector (k mod DE_SLOTS)"
      unfolding slot_entry_def p dl dk using direntry_other [OF length_direntry [OF e], of _ 0] that(1) by (simp add: l)
    then show ?thesis by (simp add: direntry_at_def bytes_at_def zero_sector_def le_value_def upt_rec)
  qed
  have old: "slot_entry s' dir k = slot_entry s dir k"
    if "k < 12 * DE_SLOTS" "k div DE_SLOTS \<noteq> b" "ji_ptrs (j_inodes s dir) (k div DE_SLOTS) \<noteq> 0" for k
  proof -
    have nz: "ptr s dir (k div DE_SLOTS) \<noteq> 0" using that(3) by (simp add: ptr_def)
    note kl = slot_lba [OF ok dir slot_block [OF that(1)] nz]
    have "ptr s dir (k div DE_SLOTS) \<noteq> blk"
      using fs_okD(5) [OF ok dir slot_block [OF that(1)] nz] A(3) by metis
    then show ?thesis unfolding slot_entry_def p dl dk using that(2) kl by simp
  qed
  have k0: "?k0 div DE_SLOTS = b" "?k0 < 12 * DE_SLOTS" using sl b(1) by simp_all
  have "dir_ok s' dir" using d by (simp add: s'_def dir_ok_def write_sector_def s2 put_inode_def A)
  moreover have "active s' dir k \<longleftrightarrow> active s dir k" "active s dir k \<longrightarrow> slot_entry s' dir k = slot_entry s dir k"
    if "k < 12 * DE_SLOTS" "k \<noteq> ?k0" for k
    using z [of k] old [of k] that b(2) unfolding active_def p by (cases "k div DE_SLOTS = b"; auto)+
  ultimately show ?thesis
    unfolding adds_entry_def s'_def [symmetric] using k0 new b(2) A(1) unfolding p by (simp add: active_def)
qed

lemma dir_add_adds:
  assumes "fs_ok s" "jfs_dir_add s dir name child ty = (0, s')"
  shows "dir_ok s dir \<and> (\<exists>k0. adds_entry s dir k0 (new_direntry name child ty) s')"
proof -
  have e: "length (de_name (new_direntry name child ty)) = 64" by (simp add: new_direntry_def)
  have d: "dir_ok s dir" using assms(2) by (auto simp: jfs_dir_add_def errno split: if_splits)
  show ?thesis
  proof (cases "dir_scan s dir (\<lambda>e. de_ino e = 0)")
    case (Some k0)
    from add_to_free_slot [OF assms(1) d e this refl] show ?thesis
      using assms(2) d Some by (auto simp: jfs_dir_add_def Let_def)
  next
    case None
    then obtain b where b: "first_idx (\<lambda>b. ji_ptrs (j_inodes s dir) b = 0) 0 12 = Some b"
      using assms(2) d by (auto simp: jfs_dir_add_def Let_def errno split: option.splits)
    obtain r s1 where a: "jfs_alloc_block s = (r, s1)" by fastforce
    obtain blk where blk: "r = Some blk"
      using assms(2) d None b a by (auto simp: jfs_dir_add_def Let_def errno split: option.splits)
    have "b < 12" "ji_ptrs (j_inodes s dir) b = 0" using first_idxD [OF b] by simp_all
    from add_to_new_block [OF assms(1) d e this a [unfolded blk] refl] show ?thesis
      using assms(2) d None b a blk by (auto simp: jfs_dir_add_def Let_def)
  qed
qed

text \<open>
  C24. A name added to a directory is found.  On a well-formed file system, adding a new name to a
  directory makes the lookup of that name return the inode number and the type it was added with,
  and the lookup of any name that differs within its first 63 characters is as before.
\<close>

theorem jfs_dir_roundtrip:
  assumes "fs_ok s" "0 < child" "child < JFS_MAX_INODES" "0 \<notin> set name"
    and "jfs_dir_lookup s dir name = Inl ENOENT" "jfs_dir_add s dir name child ty = (0, s')"
  shows "jfs_dir_lookup s' dir name = Inr (child, of_nat ty) \<and>
    (\<forall>other. 0 \<notin> set other \<and> take 63 other \<noteq> take 63 name \<longrightarrow> jfs_dir_lookup s' dir other = jfs_dir_lookup s dir other)"
proof -
  let ?e = "new_direntry name child ty"
  obtain k0 where d: "dir_ok s dir" and k: "adds_entry s dir k0 ?e s'" using dir_add_adds [OF assms(1,6)] by blast
  have "unat (of_nat child :: u32) = child" using assms(3) by (simp add: unsigned_of_nat take_bit_nat_eq_self JFS_MAX_INODES_def)
  then have ino: "unat (de_ino ?e) = child" "de_ino ?e \<noteq> 0" "de_type ?e = of_nat ty"
    using assms(2) by (auto simp: new_direntry_def unsigned_eq_0_iff)
  have d': "dir_ok s' dir" and k0: "k0 < 12 * DE_SLOTS" "slot_entry s' dir k0 = ?e" "active s' dir k0" "\<not> active s dir k0"
    using k ino(2) by (auto simp: adds_entry_def active_def)
  have rest: "active s' dir i \<and> name_is n (slot_entry s' dir i) \<longleftrightarrow> active s dir i \<and> name_is n (slot_entry s dir i)"
    if "i < 12 * DE_SLOTS" "i \<noteq> k0" for i n
    using k that by (auto simp: adds_entry_def)
  have none: "\<not> (active s dir i \<and> name_is name (slot_entry s dir i))" if "i < 12 * DE_SLOTS" for i
    using assms(5) d that unfolding jfs_dir_lookup_def lookup_active
    by (auto simp: first_idx_None split: option.splits)
  have "first_idx (\<lambda>k. active s' dir k \<and> name_is name (slot_entry s' dir k)) 0 (12 * DE_SLOTS) = Some k0"
  proof (rule first_idx_SomeI)
    show "active s' dir k0 \<and> name_is name (slot_entry s' dir k0)"
      using k0 name_is_new [OF assms(4,4)] by simp
    show "\<not> (active s' dir j \<and> name_is name (slot_entry s' dir j))" if "0 \<le> j" "j < k0" for j
      using rest [of j name] none [of j] that k0(1) by auto
  qed (use k0 in auto)
  then have "jfs_dir_lookup s' dir name = Inr (child, of_nat ty)"
    using d' ino k0(2) by (simp add: jfs_dir_lookup_def lookup_active)
  moreover have "jfs_dir_lookup s' dir other = jfs_dir_lookup s dir other"
    if o: "0 \<notin> set other" "take 63 other \<noteq> take 63 name" for other
  proof -
    have eq: "active s' dir i \<and> name_is other (slot_entry s' dir i) \<longleftrightarrow> active s dir i \<and> name_is other (slot_entry s dir i)"
      if "i < 12 * DE_SLOTS" for i
      using rest [OF that] name_is_new [OF assms(4) o(1)] o(2) k0 by (cases "i = k0") auto
    have f: "first_idx (\<lambda>k. active s' dir k \<and> name_is other (slot_entry s' dir k)) 0 (12 * DE_SLOTS) =
        first_idx (\<lambda>k. active s dir k \<and> name_is other (slot_entry s dir k)) 0 (12 * DE_SLOTS)"
      by (rule first_idx_cong) (use eq in simp)
    have "slot_entry s' dir i = slot_entry s dir i"
      if "first_idx (\<lambda>k. active s dir k \<and> name_is other (slot_entry s dir k)) 0 (12 * DE_SLOTS) = Some i" for i
      using first_idxD [OF that] k k0(4) by (auto simp: adds_entry_def)
    then show ?thesis using d d' f by (auto simp: jfs_dir_lookup_def lookup_active split: option.splits)
  qed
  ultimately show ?thesis by blast
qed


text \<open>The root of the demonstration disk made a directory with one block of entries.\<close>

definition dir_demo :: jfs where
  "dir_demo = jfs_demo\<lparr>j_inodes := (j_inodes jfs_demo)(0 := jfs_inode_zero\<lparr>ji_type := JFS_IT_DIR, ji_ptrs := (\<lambda>_. 0)(0 := 1)\<rparr>),
     j_bitmap := (\<lambda>_. 0)(0 := 3)\<rparr>"

lemma dir_demo_ok: "fs_ok dir_demo" "dir_ok dir_demo 0" "slot_entry dir_demo 0 k = direntry_at (\<lambda>_. 0) (k mod DE_SLOTS)"
  by (auto simp: fs_ok_def dir_demo_def jfs_demo_def fresh_super_def bitmap_tst_def ptr_def jfs_inode_zero_def dir_ok_def
    jfs_consts slot_entry_def)

lemma jfs_dir_roundtrip_witness:
  "\<exists>s'. jfs_dir_add dir_demo 0 [65, 66] 1 1 = (0, s') \<and> jfs_dir_lookup s' 0 [65, 66] = Inr (1, 1)"
proof -
  have z: "de_ino (slot_entry dir_demo 0 k) = 0" for k
    by (simp add: dir_demo_ok direntry_at_def bytes_at_def le_value_def upt_rec)
  have p: "ji_ptrs (j_inodes dir_demo 0) 0 = 1" by (simp add: dir_demo_def)
  have f: "dir_scan dir_demo 0 (\<lambda>e. de_ino e = 0) = Some 0"
    unfolding dir_scan_def by (rule first_idx_SomeI) (simp_all add: z DE_SLOTS_def JFS_BLOCK_SIZE_def DE_SIZE_def p)
  have l: "jfs_dir_lookup dir_demo 0 [65, 66] = Inl ENOENT"
    using z by (simp add: jfs_dir_lookup_def dir_demo_ok(2) dir_scan_def first_idx_None split: option.split)
  obtain s' where "jfs_dir_add dir_demo 0 [65, 66] 1 1 = (0, s')"
    using f dir_demo_ok by (simp add: jfs_dir_add_def Let_def)
  with jfs_dir_roundtrip [OF dir_demo_ok(1) _ _ _ l this] show ?thesis by (auto simp: JFS_MAX_INODES_def)
qed

end
