(* ===== verification/VfsSpec.thy ===== *)
theory VfsSpec
  imports Vfs JfsOps
begin

text \<open>
  What kernel/vfs.c keeps: an inode slot is valid exactly while some descriptor refers to it, and
  its reference count is the number of those descriptors.  The lemmas are about any file
  system that meets the interface, and hold for the journalling file system by its
  interpretation.  Then: which mount a path belongs to, and descriptors of pipes.
\<close>

section \<open>Reference counts\<close>

definition fd_users :: "'d vfs \<Rightarrow> nat \<Rightarrow> nat set" where
  "fd_users s i = {fd. fd < FD_MAX \<and> fd_inode (vs_fds s fd) = Some i}"

definition slot_ok :: "nat set \<Rightarrow> vfs_inode \<Rightarrow> bool" where
  "slot_ok us n \<longleftrightarrow> (vi_valid n \<longleftrightarrow> us \<noteq> {}) \<and> (vi_valid n \<longrightarrow> vi_refcount n = card us)"

definition vfs_inv :: "'d vfs \<Rightarrow> bool" where
  "vfs_inv s \<longleftrightarrow>
     (\<forall>fd i. fd < FD_MAX \<and> fd_inode (vs_fds s fd) = Some i \<longrightarrow> i < MAX_INODE \<and> fd_in_use (vs_fds s fd)) \<and>
     (\<forall>i < MAX_INODE. slot_ok (fd_users s i) (vs_inodes s i)) \<and>
     (\<forall>m. mt_valid (vs_mounts s m) \<longrightarrow> vi_refcount (mt_root (vs_mounts s m)) = 1)"

lemma vfs_invI:
  assumes "\<And>fd i. fd < FD_MAX \<Longrightarrow> fd_inode (vs_fds s fd) = Some i \<Longrightarrow> i < MAX_INODE \<and> fd_in_use (vs_fds s fd)"
    and "\<And>i. i < MAX_INODE \<Longrightarrow> slot_ok (fd_users s i) (vs_inodes s i)"
    and "\<And>m. mt_valid (vs_mounts s m) \<Longrightarrow> vi_refcount (mt_root (vs_mounts s m)) = 1"
  shows "vfs_inv s"
  using assms unfolding vfs_inv_def by blast

lemma vfs_invD:
  assumes "vfs_inv s"
  shows "fd < FD_MAX \<Longrightarrow> fd_inode (vs_fds s fd) = Some i \<Longrightarrow> i < MAX_INODE"
    "fd < FD_MAX \<Longrightarrow> fd_inode (vs_fds s fd) = Some i \<Longrightarrow> fd_in_use (vs_fds s fd)"
    "i < MAX_INODE \<Longrightarrow> slot_ok (fd_users s i) (vs_inodes s i)"
    "mt_valid (vs_mounts s m) \<Longrightarrow> vi_refcount (mt_root (vs_mounts s m)) = 1"
  using assms unfolding vfs_inv_def by blast+

lemma finite_users [simp]: "finite (fd_users s i)"
  by (simp add: fd_users_def)

lemma card_users: "card (fd_users s i) \<le> FD_MAX"
proof -
  have "fd_users s i \<subseteq> {..<FD_MAX}" by (auto simp: fd_users_def)
  from card_mono [OF _ this] show ?thesis by simp
qed

lemma users_set_fd:
  assumes "n < FD_MAX"
  shows "fd_users (set_fd n f s) i = (if fd_inode f = Some i then insert n (fd_users s i) else fd_users s i - {n})"
  using assms by (auto simp: fd_users_def set_fd_def)

lemma users_simps [simp]:
  "fd_users (set_inode i n s) = fd_users s" "fd_users (s\<lparr>vs_dev := d\<rparr>) = fd_users s"
  "fd_users (s\<lparr>vs_pipes := p\<rparr>) = fd_users s" "fd_users (s\<lparr>vs_next_ino := k\<rparr>) = fd_users s"
  by (simp_all add: fun_eq_iff fd_users_def set_inode_def)

lemma slot_ok_cong:
  "vi_valid n = vi_valid m \<Longrightarrow> vi_refcount n = vi_refcount m \<Longrightarrow> slot_ok us n = slot_ok us m"
  by (simp add: slot_ok_def)

lemma vfs_inv_cong:
  assumes "vfs_inv s" "vs_fds s' = vs_fds s" "vs_mounts s' = vs_mounts s"
    and "\<And>i. vi_valid (vs_inodes s' i) = vi_valid (vs_inodes s i) \<and> vi_refcount (vs_inodes s' i) = vi_refcount (vs_inodes s i)"
  shows "vfs_inv s'"
proof -
  have "fd_users s' = fd_users s" using assms(2) by (simp add: fd_users_def fun_eq_iff)
  moreover have "slot_ok us (vs_inodes s' i) = slot_ok us (vs_inodes s i)" for us i using assms(4) by (intro slot_ok_cong) auto
  ultimately show ?thesis using assms(1-3) by (simp add: vfs_inv_def)
qed

text \<open>A change of one descriptor that keeps its inode.\<close>

lemma vfs_inv_fd_same:
  assumes "vfs_inv s" "n < FD_MAX" "fd_inode f = fd_inode (vs_fds s n)" "fd_in_use f = fd_in_use (vs_fds s n)"
  shows "vfs_inv (set_fd n f s)"
proof -
  have u: "fd_users (set_fd n f s) = fd_users s"
    using assms(3) by (auto simp: fun_eq_iff set_fd_def fd_users_def)
  have "fd_inode (vs_fds (set_fd n f s) k) = fd_inode (vs_fds s k)" "fd_in_use (vs_fds (set_fd n f s) k) = fd_in_use (vs_fds s k)" for k
    using assms(3,4) by (simp_all add: set_fd_def)
  moreover have "vs_inodes (set_fd n f s) = vs_inodes s" "vs_mounts (set_fd n f s) = vs_mounts s" by (simp_all add: set_fd_def)
  ultimately show ?thesis using assms(1) unfolding vfs_inv_def u by simp
qed

lemma vfs_inv_users:
  assumes "vfs_inv s" "n < FD_MAX" "fd_inode (vs_fds s n) = Some i"
  shows "i < MAX_INODE" "vi_valid (vs_inodes s i)" "vi_refcount (vs_inodes s i) = card (fd_users s i)" "n \<in> fd_users s i"
proof -
  show i: "i < MAX_INODE" by (rule vfs_invD(1) [OF assms])
  show n: "n \<in> fd_users s i" using assms(2,3) by (simp add: fd_users_def)
  show "vi_valid (vs_inodes s i)" "vi_refcount (vs_inodes s i) = card (fd_users s i)"
    using vfs_invD(3) [OF assms(1) i] n by (auto simp: slot_ok_def)
qed

lemma vfs_inv_free_fd:
  assumes "vfs_inv s" "n < FD_MAX" "\<not> fd_in_use (vs_fds s n)"
  shows "fd_inode (vs_fds s n) = None"
  using vfs_invD(2) [OF assms(1,2)] assms(3) by (cases "fd_inode (vs_fds s n)") auto

text \<open>One reference more: the descriptor did not refer to an inode before.\<close>

lemma vfs_inv_add_ref:
  assumes inv: "vfs_inv s" and n: "n < FD_MAX" "fd_inode (vs_fds s n) = None" "fd_inode f = Some i" "fd_in_use f"
    and i: "i < MAX_INODE" "vi_valid m"
    and rc: "vi_refcount m = (if vi_valid (vs_inodes s i) then vi_refcount (vs_inodes s i) + 1 else 1)"
  shows "vfs_inv (set_fd n f (set_inode i m s))" (is "vfs_inv ?s")
proof (rule vfs_invI)
  have u: "fd_users ?s j = (if j = i then insert n (fd_users s i) else fd_users s j)" for j
    using n(1,2,3) by (auto simp: fd_users_def set_fd_def set_inode_def)
  have new: "n \<notin> fd_users s i" using n(2) by (simp add: fd_users_def)
  have rc': "vi_refcount m = card (insert n (fd_users s i))"
    using vfs_invD(3) [OF inv i(1)] rc new by (auto simp: slot_ok_def)
  show "slot_ok (fd_users ?s j) (vs_inodes ?s j)" if "j < MAX_INODE" for j
    using vfs_invD(3) [OF inv that] i(2) rc' unfolding u by (simp add: set_fd_def set_inode_def slot_ok_def)
  show "mt_valid (vs_mounts ?s k) \<Longrightarrow> vi_refcount (mt_root (vs_mounts ?s k)) = 1" for k
    using vfs_invD(4) [OF inv] by (simp add: set_fd_def set_inode_def)
  show "k < FD_MAX \<Longrightarrow> fd_inode (vs_fds ?s k) = Some j \<Longrightarrow> j < MAX_INODE \<and> fd_in_use (vs_fds ?s k)" for k j
    using vfs_invD(1,2) [OF inv, of k j] n i by (cases "k = n") (simp_all add: set_fd_def set_inode_def)
qed

section \<open>Every operation keeps them\<close>

lemma fd_alloc_cases:
  obtains "fd_alloc s = (None, s)"
  | n where "fd_alloc s = (Some n, set_fd n ((vs_fds s n)\<lparr>fd_in_use := True\<rparr>) s)" "n < FD_MAX" "\<not> fd_in_use (vs_fds s n)"
proof (cases "first_idx (\<lambda>i. \<not> fd_in_use (vs_fds s i)) 3 (FD_MAX - 3)")
  case (Some n)
  then show ?thesis using that(2) first_idxD [OF Some] by (simp add: fd_alloc_def FD_MAX_def)
qed (simp add: fd_alloc_def that(1))

lemma inode_alloc_cases:
  obtains "inode_alloc s = (None, s)"
  | i where "inode_alloc s = (Some i, (set_inode i ((vs_inodes s i)\<lparr>vi_valid := True, vi_ino := vs_next_ino s, vi_refcount := 1\<rparr>) s)
      \<lparr>vs_next_ino := (vs_next_ino s + 1) mod 2 ^ 64\<rparr>)" "i < MAX_INODE" "\<not> vi_valid (vs_inodes s i)"
proof (cases "first_idx (\<lambda>i. \<not> vi_valid (vs_inodes s i)) 0 MAX_INODE")
  case (Some i)
  then show ?thesis using that(2) first_idxD [OF Some] by (simp add: inode_alloc_def)
qed (simp add: inode_alloc_def that(1))

lemma bind_fd_inv:
  assumes inv: "vfs_inv s" and i: "vi_valid inode" "vi_refcount inode = 1"
  shows "vfs_inv (snd (bind_fd inode ty s))"
proof (rule fd_alloc_cases [of s])
  fix n
  let ?s1 = "set_fd n ((vs_fds s n)\<lparr>fd_in_use := True\<rparr>) s"
  assume n: "fd_alloc s = (Some n, ?s1)" "n < FD_MAX" "\<not> fd_in_use (vs_fds s n)"
  note free = vfs_inv_free_fd [OF inv n(2,3)]
  show ?thesis
  proof (rule inode_alloc_cases [of ?s1])
    assume "inode_alloc ?s1 = (None, ?s1)"
    then have "snd (bind_fd inode ty s) = set_fd n ((vs_fds s n)\<lparr>fd_inode := None, fd_in_use := False\<rparr>) s"
      by (simp add: bind_fd_def n(1)) (simp add: set_fd_def)
    then show ?thesis using vfs_inv_fd_same [OF inv n(2)] free n(3) by simp
  next
    fix k assume k: "inode_alloc ?s1 = (Some k, (set_inode k ((vs_inodes ?s1 k)\<lparr>vi_valid := True, vi_ino := vs_next_ino ?s1, vi_refcount := 1\<rparr>) ?s1)
      \<lparr>vs_next_ino := (vs_next_ino ?s1 + 1) mod 2 ^ 64\<rparr>)" "k < MAX_INODE" "\<not> vi_valid (vs_inodes ?s1 k)"
    define g where "g = \<lparr>fd_in_use = True, fd_inode = Some k, fd_offset = 0, fd_flags = 0, fd_type = ty, fd_pipe = 0\<rparr>"
    have "snd (bind_fd inode ty s) = (set_fd n g (set_inode k inode s))\<lparr>vs_next_ino := (vs_next_ino s + 1) mod 2 ^ 64\<rparr>"
      by (simp add: bind_fd_def n(1) k(1) g_def) (simp add: set_fd_def set_inode_def)
    moreover have "vfs_inv (set_fd n g (set_inode k inode s))"
      by (rule vfs_inv_add_ref [OF inv n(2) free]) (use k i in \<open>simp_all add: g_def set_fd_def\<close>)
    ultimately show ?thesis by (simp add: vfs_inv_cong)
  qed
qed (simp add: bind_fd_def inv)

text \<open>One reference less.\<close>

lemma deref_inv:
  assumes inv: "vfs_inv s" and n: "n < FD_MAX" "fd_inode f = None"
  shows "vfs_inv (set_fd n f (inode_deref free_data (fd_inode (vs_fds s n)) s))"
proof (cases "fd_inode (vs_fds s n)")
  case None
  have "vfs_inv (set_fd n f s)"
  proof (rule vfs_invI)
    have u: "fd_users (set_fd n f s) = fd_users s" using n None by (auto simp: fun_eq_iff fd_users_def set_fd_def)
    show "slot_ok (fd_users (set_fd n f s) j) (vs_inodes (set_fd n f s) j)" if "j < MAX_INODE" for j
      using vfs_invD(3) [OF inv that] unfolding u by (simp add: set_fd_def)
    show "mt_valid (vs_mounts (set_fd n f s) k) \<Longrightarrow> vi_refcount (mt_root (vs_mounts (set_fd n f s) k)) = 1" for k
      using vfs_invD(4) [OF inv] by (simp add: set_fd_def)
    show "k < FD_MAX \<Longrightarrow> fd_inode (vs_fds (set_fd n f s) k) = Some j \<Longrightarrow> j < MAX_INODE \<and> fd_in_use (vs_fds (set_fd n f s) k)" for k j
      using vfs_invD(1,2) [OF inv, of k j] n(2) by (cases "k = n") (simp_all add: set_fd_def)
  qed
  with None show ?thesis by (simp add: inode_deref_def)
next
  case (Some i)
  note U = vfs_inv_users [OF inv n(1) Some]
  let ?c = "card (fd_users s i)" and ?m = "vs_inodes s i"
  have c: "0 < ?c" "?c \<le> FD_MAX" using U card_users by (auto simp: card_gt_0_iff)
  have rc: "(vi_refcount ?m + 2 ^ 32 - 1) mod 2 ^ 32 = ?c - 1"
  proof -
    have "vi_refcount ?m + 2 ^ 32 - 1 = 2 ^ 32 + (?c - 1)" using U(3) c(1) by simp
    moreover have "?c - 1 < 2 ^ 32" using c(2) by (simp add: FD_MAX_def)
    ultimately show ?thesis by (simp only: mod_add_self1 mod_less)
  qed
  define t where "t = set_fd n f (inode_deref free_data (Some i) s)"
  have fds: "vs_fds t = (vs_fds s)(n := f)" "vs_mounts t = vs_mounts s"
    by (simp_all add: t_def inode_deref_def Let_def set_fd_def set_inode_def)
  have u: "fd_users t j = (if j = i then fd_users s i - {n} else fd_users s j)" for j
    using n Some by (auto simp: fd_users_def fds)
  have nodes: "vs_inodes t j = vs_inodes s j" if "j \<noteq> i" for j
    using that by (simp add: t_def inode_deref_def Let_def set_fd_def set_inode_def)
  have node: "vi_valid (vs_inodes t i) \<longleftrightarrow> 0 < ?c - 1" "vi_refcount (vs_inodes t i) = ?c - 1"
    using U(2) unfolding t_def inode_deref_def option.case Let_def rc by (simp_all add: set_fd_def set_inode_def)
  have card: "card (fd_users s i - {n}) = ?c - 1" using U(4) by simp
  have empty: "fd_users s i - {n} = {} \<longleftrightarrow> ?c - 1 = 0" unfolding card [symmetric] by simp
  have "vfs_inv t"
  proof (rule vfs_invI)
    show "slot_ok (fd_users t j) (vs_inodes t j)" if "j < MAX_INODE" for j
    proof (cases "j = i")
      case True
      then show ?thesis unfolding slot_ok_def True u node using empty card by auto
    next
      case False
      then show ?thesis using vfs_invD(3) [OF inv that] nodes u by simp
    qed
    show "mt_valid (vs_mounts t k) \<Longrightarrow> vi_refcount (mt_root (vs_mounts t k)) = 1" for k
      unfolding fds by (rule vfs_invD(4) [OF inv])
    show "k < FD_MAX \<Longrightarrow> fd_inode (vs_fds t k) = Some j \<Longrightarrow> j < MAX_INODE \<and> fd_in_use (vs_fds t k)" for k j
      using vfs_invD(1,2) [OF inv, of k j] n(2) unfolding fds by (cases "k = n") simp_all
  qed
  then show ?thesis unfolding t_def Some .
qed


lemma vfs_close_inv:
  assumes "vfs_inv s"
  shows "vfs_inv (snd (vfs_close free_data fd s))"
proof (cases "fd_get s fd")
  case (Some f)
  then have fd: "fd < FD_MAX" "f = vs_fds s fd" by (auto simp: fd_get_def split: if_splits)
  let ?s1 = "inode_deref free_data (fd_inode f) s"
  let ?s2 = "if fd_type f = IT_PIPE \<and> fd_pipe f \<noteq> 0 then ?s1\<lparr>vs_pipes := (vs_pipes ?s1)(fd_pipe f := None)\<rparr> else ?s1"
  define g where "g = (vs_fds ?s2 fd)\<lparr>fd_in_use := False, fd_inode := None, fd_pipe := 0\<rparr>"
  have inv: "vfs_inv (set_fd fd g ?s1)" unfolding fd(2) by (rule deref_inv [OF assms fd(1)]) (simp add: g_def)
  have "vfs_inv (set_fd fd g ?s2)"
    by (rule vfs_inv_cong [OF inv]) (simp_all add: set_fd_def)
  with Some show ?thesis by (simp add: vfs_close_def Let_def g_def)
qed (simp add: vfs_close_def assms)

lemma share_fd_inv:
  assumes inv: "vfs_inv s" and n: "n < FD_MAX" "fd_inode (vs_fds s n) = None" "k < FD_MAX"
    and f: "fd_inode f = fd_inode (vs_fds s k)" "fd_in_use f"
  shows "vfs_inv (inode_ref (fd_inode (vs_fds s k)) (set_fd n f s))"
proof (cases "fd_inode (vs_fds s k)")
  case None
  have "vfs_inv (set_fd n f (inode_deref (\<lambda>_ d. d) (fd_inode (vs_fds s n)) s))"
    by (rule deref_inv [OF inv n(1)]) (simp add: f None)
  then have "vfs_inv (set_fd n f s)" using n(2) by (simp add: inode_deref_def)
  then show ?thesis by (simp add: None inode_ref_def)
next
  case (Some i)
  note U = vfs_inv_users [OF inv n(3) Some]
  have "card (fd_users s i) + 1 < 2 ^ 32" using card_users [of s i] by (simp add: FD_MAX_def)
  then have rc: "(vi_refcount (vs_inodes s i) + 1) mod 2 ^ 32 = vi_refcount (vs_inodes s i) + 1" using U(3) by simp
  let ?m = "(vs_inodes s i)\<lparr>vi_refcount := vi_refcount (vs_inodes s i) + 1\<rparr>"
  have "inode_ref (Some i) (set_fd n f s) = set_fd n f (set_inode i ?m s)"
    using rc by (simp add: inode_ref_def set_fd_def set_inode_def)
  moreover have "vfs_inv (set_fd n f (set_inode i ?m s))"
    by (rule vfs_inv_add_ref [OF inv n(1,2)]) (use f Some U in simp_all)
  ultimately show ?thesis unfolding Some by simp
qed

lemma vfs_dup_inv:
  assumes inv: "vfs_inv s"
  shows "vfs_inv (snd (vfs_dup fd s))"
proof (cases "fd_get s fd")
  case (Some f)
  then have fd: "fd < FD_MAX" "f = vs_fds s fd" "fd_in_use f" by (auto simp: fd_get_def split: if_splits)
  show ?thesis
  proof (rule fd_alloc_cases [of s])
    fix n assume n: "fd_alloc s = (Some n, set_fd n ((vs_fds s n)\<lparr>fd_in_use := True\<rparr>) s)" "n < FD_MAX" "\<not> fd_in_use (vs_fds s n)"
    have "set_fd n f (set_fd n ((vs_fds s n)\<lparr>fd_in_use := True\<rparr>) s) = set_fd n f s" by (simp add: set_fd_def)
    then have "snd (vfs_dup fd s) = inode_ref (fd_inode f) (set_fd n f s)" using Some n(1) by (simp add: vfs_dup_def)
    then show ?thesis
      using share_fd_inv [OF inv n(2) vfs_inv_free_fd [OF inv n(2,3)] fd(1), of f] fd(2,3) by simp
  qed (use Some inv in \<open>simp add: vfs_dup_def\<close>)
qed (simp add: vfs_dup_def inv)

lemma vfs_dup2_inv:
  assumes inv: "vfs_inv s"
  shows "vfs_inv (snd (vfs_dup2 free_data old new s))"
proof (cases "old = new \<or> fd_get s old = None \<or> new \<ge> FD_MAX")
  case False
  let ?s1 = "if fd_in_use (vs_fds s new) then snd (vfs_close free_data new s) else s"
  have inv1: "vfs_inv ?s1" by (simp add: inv vfs_close_inv)
  have old: "old < FD_MAX" using False by (auto simp: fd_get_def split: if_splits)
  have new: "fd_inode (vs_fds ?s1 new) = None"
  proof (cases "fd_in_use (vs_fds s new)")
    case True
    then have "fd_get s new = Some (vs_fds s new)" using False by (simp add: fd_get_def)
    with True show ?thesis by (simp add: vfs_close_def Let_def set_fd_def)
  next
    case False
    then show ?thesis using vfs_inv_free_fd [OF inv, of new] \<open>\<not> (old = new \<or> fd_get s old = None \<or> new \<ge> FD_MAX)\<close> by simp
  qed
  have "snd (vfs_dup2 free_data old new s) =
      inode_ref (fd_inode (vs_fds ?s1 old)) (set_fd new ((vs_fds ?s1 old)\<lparr>fd_in_use := True\<rparr>) ?s1)"
    using False by (auto simp: vfs_dup2_def Let_def)
  then show ?thesis
    using share_fd_inv [OF inv1 _ new old, of "(vs_fds ?s1 old)\<lparr>fd_in_use := True\<rparr>"] False by simp
qed (auto simp: vfs_dup2_def inv split: option.split)

lemma advance_inv: "vfs_inv s \<Longrightarrow> fd < FD_MAX \<Longrightarrow> vfs_inv (advance fd r s)"
  by (simp add: advance_def vfs_inv_fd_same)

lemma vfs_seek_inv:
  assumes "vfs_inv s"
  shows "vfs_inv (snd (vfs_seek ops fd off wh s))"
proof -
  have "vfs_inv (set_fd fd (f\<lparr>fd_offset := o'\<rparr>) s)" if "fd_get s fd = Some f" for f o'
    by (rule vfs_inv_fd_same [OF assms]) (use that in \<open>auto simp: fd_get_def split: if_splits\<close>)
  then show ?thesis using assms by (simp add: vfs_seek_def Let_def split: option.split)
qed

datatype vfs_call = Vopen str | Vclose nat | Vdup nat | Vdup2 nat nat | Vread nat nat | Vwrite nat "u8 list" | Vseek nat int nat

definition vfs_step :: "(nat \<Rightarrow> 'd inode_ops) \<Rightarrow> vfs_inode \<Rightarrow> (nat \<Rightarrow> 'd \<Rightarrow> 'd) \<Rightarrow> vfs_call \<Rightarrow> 'd vfs \<Rightarrow> 'd vfs" where
  "vfs_step ops junk free_data c s =
     (case c of
        Vopen p \<Rightarrow> snd (vfs_open ops junk (Some p) s)
      | Vclose fd \<Rightarrow> snd (vfs_close free_data fd s)
      | Vdup fd \<Rightarrow> snd (vfs_dup fd s)
      | Vdup2 a b \<Rightarrow> snd (vfs_dup2 free_data a b s)
      | Vread fd n \<Rightarrow> snd (snd (vfs_read ops fd n s))
      | Vwrite fd bs \<Rightarrow> snd (vfs_write ops fd bs s)
      | Vseek fd off wh \<Rightarrow> snd (vfs_seek ops fd off wh s))"

context file_system
begin

lemma walk_loop_inode:
  assumes "walk_loop ops junk cur p d = (r, i, d')" "0 \<le> r" "vi_valid cur" "vi_refcount cur = 1"
    and "\<And>t. op_lookup (ops t) \<noteq> None"
  shows "vi_valid i \<and> vi_refcount i = 1"
  using assms(1-4)
proof (induction "length p" arbitrary: cur p d rule: less_induct)
  case less
  let ?q = "dropWhile (\<lambda>c. c = 47) p"
  let ?rest = "dropWhile (\<lambda>c. c \<noteq> 47) ?q"
  obtain f where f: "op_lookup (ops (vi_ops cur)) = Some f" using assms(5) by blast
  obtain r1 n d1 where l: "f cur (takeWhile (\<lambda>c. c \<noteq> 47) ?q) junk d = (r1, n, d1)"
    by (cases "f cur (takeWhile (\<lambda>c. c \<noteq> 47) ?q) junk d")
  show ?case
  proof (cases "?q = []")
    case True
    then show ?thesis using less.prems by (simp add: walk_loop.simps [of ops junk cur])
  next
    case False
    have step: "walk_loop ops junk cur p d = (if r1 < 0 then (r1, junk, d1) else walk_loop ops junk n ?rest d1)"
      unfolding walk_loop.simps [of ops junk cur] Let_def f option.sel l if_not_P [OF False] prod.case ..
    have "\<not> r1 < 0" using less.prems(1,2) unfolding step by (auto split: if_splits)
    then have w: "walk_loop ops junk n ?rest d1 = (r, i, d')" using less.prems(1) unfolding step by simp
    have "vi_valid n \<and> vi_refcount n = 1" using lookup_inode [OF f l] \<open>\<not> r1 < 0\<close> by simp
    with less.hyps [OF walk_shorter [OF False] w less.prems(2)] show ?thesis by blast
  qed
qed

lemma path_walk_inode:
  assumes "path_walk ops junk start p d = (r, i, d')" "0 \<le> r" "vi_refcount start = 1"
    and "\<And>t. op_lookup (ops t) \<noteq> None"
  shows "vi_valid i \<and> vi_refcount i = 1"
  using assms(1-3) walk_loop_inode [OF _ assms(2) _ assms(3,4)]
  unfolding path_walk_def by (auto simp: errno split: if_splits)

lemma best_mount_valid:
  "best_mount ms p b bl i k = Some m \<Longrightarrow> (\<forall>j. b = Some j \<longrightarrow> mt_valid (ms j)) \<Longrightarrow> mt_valid (ms m)"
  by (induction ms p b bl i k rule: best_mount.induct) (auto simp: mount_matches_def split: if_splits)

lemma vfs_open_inv:
  assumes inv: "vfs_inv s" and "\<And>t. op_lookup (ops t) \<noteq> None"
  shows "vfs_inv (snd (vfs_open ops junk (Some p) s))"
proof (cases "find_mount s p")
  case (Some q)
  obtain m rel where q: "q = (m, rel)" by (cases q)
  have "best_mount (vs_mounts s) p None 0 0 MAX_MOUNT = Some m"
    using Some q by (auto simp: find_mount_def Let_def split: option.splits)
  then have "mt_valid (vs_mounts s m)" by (rule best_mount_valid) simp
  then have root: "vi_refcount (mt_root (vs_mounts s m)) = 1" by (rule vfs_invD(4) [OF inv])
  obtain r i d where w: "path_walk ops junk (mt_root (vs_mounts s m)) rel (vs_dev s) = (r, i, d)"
    by (cases "path_walk ops junk (mt_root (vs_mounts s m)) rel (vs_dev s)")
  have d: "vfs_inv (s\<lparr>vs_dev := d\<rparr>)" by (rule vfs_inv_cong [OF inv]) simp_all
  show ?thesis
  proof (cases "r < 0")
    case True
    then show ?thesis using Some q w d by (simp add: vfs_open_def)
  next
    case False
    then have "vi_valid i \<and> vi_refcount i = 1" using path_walk_inode [OF w _ root assms(2)] by simp
    then show ?thesis using bind_fd_inv [OF d] False Some q w by (simp add: vfs_open_def)
  qed
qed (simp add: vfs_open_def inv)

lemma vfs_read_inv:
  assumes inv: "vfs_inv s"
  shows "vfs_inv (snd (snd (vfs_read ops fd n s)))"
proof -
  have d: "vfs_inv (s\<lparr>vs_dev := d\<rparr>)" "vfs_inv (s\<lparr>vs_pipes := p\<rparr>)" for d p by (rule vfs_inv_cong [OF inv]; simp)+
  show ?thesis
  proof (cases "fd_get s fd")
    case (Some f)
    then have "fd < FD_MAX" by (simp add: fd_get_def split: if_splits)
    then show ?thesis using Some inv d advance_inv [OF d(1)] by (simp add: vfs_read_def split: option.split prod.split)
  qed (simp add: vfs_read_def inv)
qed

lemma vfs_write_inv:
  assumes inv: "vfs_inv s"
  shows "vfs_inv (snd (vfs_write ops fd bs s))"
proof (cases "fd_get s fd")
  case (Some f)
  then have fd: "fd < FD_MAX" by (simp add: fd_get_def split: if_splits)
  have p: "vfs_inv (s\<lparr>vs_pipes := p\<rparr>)" for p by (rule vfs_inv_cong [OF inv]) simp_all
  have "vfs_inv (advance fd r (set_inode i n (s\<lparr>vs_dev := d\<rparr>)))"
    if "op_write (ops (vi_ops (vs_inodes s i))) = Some wr" "wr (vs_inodes s i) bs off (vs_dev s) = (r, n, d)" for wr i off r n d
    by (rule advance_inv [OF _ fd], rule vfs_inv_cong [OF inv])
       (use write_inode [OF that] in \<open>simp_all add: set_inode_def\<close>)
  then show ?thesis using Some inv p by (simp add: vfs_write_def split: option.split prod.split)
qed (simp add: vfs_write_def inv)

lemma vfs_step_inv:
  assumes "\<And>t. op_lookup (ops t) \<noteq> None" "vfs_inv s"
  shows "vfs_inv (vfs_step ops junk free_data c s)"
  using assms vfs_open_inv [OF assms(2,1)]
  by (cases c) (simp_all add: vfs_step_def vfs_close_inv vfs_dup_inv vfs_dup2_inv vfs_read_inv vfs_write_inv vfs_seek_inv)

lemma vfs_run_inv:
  assumes "\<And>t. op_lookup (ops t) \<noteq> None" "vfs_inv s"
  shows "vfs_inv (fold (vfs_step ops junk free_data) cs s)"
  using assms(2) by (induction cs arbitrary: s) (simp_all add: vfs_step_inv [OF assms(1)])

end

section \<open>Properties\<close>

text \<open>
  C15. Reference counts are exact.  Whatever sequence of opens, closes, duplications, reads, writes
  and seeks is made over the journalling file system, with whatever arguments, an inode slot is
  valid exactly while a descriptor in use refers to it, and its reference count is the number of
  those descriptors; so a slot is released by the last close and never before.
\<close>

theorem vfs_refcounts:
  assumes "vfs_inv s"
  shows "vfs_inv (fold (vfs_step (\<lambda>_. jfs_inode_ops) junk free_data) calls s)"
  by (rule jfs.vfs_run_inv [OF _ assms]) (simp add: jfs_inode_ops_def)

lemma boot_inv: "vfs_inv (snd (vfs_mount_fs [47, 106, 102, 115] [106, 102, 115] 2 (jfs_root 0) (vfs_core_init s)))"
proof -
  have m: "first_idx (\<lambda>i. \<not> mt_valid (vs_mounts (vfs_core_init s) i)) 0 MAX_MOUNT = Some 0"
    by (rule first_idx_SomeI) (simp_all add: vfs_core_init_def mount_zero_def MAX_MOUNT_def)
  show ?thesis
    unfolding vfs_mount_fs_def m
    by (rule vfs_invI)
       (auto simp: vfs_core_init_def fd_zero_def fd_users_def slot_ok_def inode_zero_def MAX_PATH_def mount_zero_def
         jfs_root_def split: if_splits)
qed

lemma vfs_refcounts_witness:
  "vfs_inv (fold (vfs_step (\<lambda>_. jfs_inode_ops) inode_zero (\<lambda>_ d. d)) [Vopen [47, 106, 102, 115, 47], Vdup 3, Vclose 3]
     (snd (vfs_mount_fs [47, 106, 102, 115] [106, 102, 115] 2 (jfs_root 0) (vfs_core_init
        \<lparr>vs_inodes = (\<lambda>_. inode_zero), vs_mounts = (\<lambda>_. mount_zero), vs_fds = (\<lambda>_. fd_zero), vs_next_ino = 1,
         vs_pipes = (\<lambda>_. None), vs_dev = jfs_demo\<rparr>))))"
  using vfs_refcounts [OF boot_inv] .

definition mount_covers :: "vfs_mount \<Rightarrow> str \<Rightarrow> bool" where
  "mount_covers m path \<longleftrightarrow> mt_valid m \<and> mt_path m \<noteq> [] \<and>
     (\<exists>rest. path = mt_path m @ rest \<and> (length (mt_path m) = 1 \<or> (\<exists>r. rest = 47 # r)))"

lemma matches_covers:
  assumes "0 \<notin> set path" "0 \<notin> set (mt_path m)"
  shows "mount_matches m path \<and> mt_path m \<noteq> [] \<longleftrightarrow> mount_covers m path"
proof -
  let ?n = "length (mt_path m)"
  have s: "strncmp (mt_path m) path ?n = 0 \<longleftrightarrow> mt_path m = take ?n path"
    using strncmp_take [OF assms(2,1)] by simp
  show ?thesis
  proof (cases "\<exists>rest. path = mt_path m @ rest")
    case True
    then obtain rest where r: "path = mt_path m @ rest" by blast
    have "ch path ?n = 47 \<longleftrightarrow> (\<exists>r. rest = 47 # r)" by (cases rest) (auto simp: r ch_def)
    moreover have "?n > 1 \<longleftrightarrow> mt_path m \<noteq> [] \<and> ?n \<noteq> 1" by (cases "mt_path m") auto
    ultimately show ?thesis using s by (auto simp: mount_matches_def mount_covers_def r)
  next
    case False
    then have "mt_path m \<noteq> take ?n path" by (metis append_take_drop_id)
    with False s show ?thesis by (auto simp: mount_matches_def mount_covers_def)
  qed
qed

definition best_upto :: "(nat \<Rightarrow> vfs_mount) \<Rightarrow> str \<Rightarrow> nat \<Rightarrow> nat option \<Rightarrow> bool" where
  "best_upto ms p n r = (case r of
      None \<Rightarrow> \<forall>j < n. mount_matches (ms j) p \<longrightarrow> mt_path (ms j) = []
    | Some m \<Rightarrow> m < n \<and> mount_matches (ms m) p \<and> mt_path (ms m) \<noteq> [] \<and>
        (\<forall>j < n. mount_matches (ms j) p \<longrightarrow> length (mt_path (ms j)) \<le> length (mt_path (ms m))))"

lemma best_mount_best:
  assumes "best_upto ms p i best" "bl = (case best of None \<Rightarrow> 0 | Some j \<Rightarrow> length (mt_path (ms j)))"
  shows "best_upto ms p (i + k) (best_mount ms p best bl i k)"
  using assms
proof (induction k arbitrary: best bl i)
  case (Suc k)
  show ?case
  proof (cases "mount_matches (ms i) p \<and> length (mt_path (ms i)) > bl")
    case True
    then have "best_upto ms p (Suc i) (Some i)"
      using Suc.prems by (fastforce simp: best_upto_def less_Suc_eq split: option.splits)
    from Suc.IH [OF this refl] True show ?thesis by simp
  next
    case False
    then have "best_upto ms p (Suc i) best"
      using Suc.prems by (auto simp: best_upto_def less_Suc_eq split: option.splits)
    from Suc.IH [OF this Suc.prems(2)] False show ?thesis by (auto split: if_splits)
  qed
qed simp

text \<open>
  The mount with the longest path wins.  \<open>find_mount\<close> fails exactly when no mount covers the
  path; otherwise it returns a mount that does, none that covers the path has a longer one,
  and the rest of the path follows it, without the slash between them.  A mount point named
  without a slash at its end is not covered by its own mount.
\<close>

theorem find_mount_longest:
  assumes "0 \<notin> set path" "\<And>j. 0 \<notin> set (mt_path (vs_mounts s j))"
  shows "case find_mount s path of
      None \<Rightarrow> \<forall>j < MAX_MOUNT. \<not> mount_covers (vs_mounts s j) path
    | Some (m, rel) \<Rightarrow> m < MAX_MOUNT \<and> mount_covers (vs_mounts s m) path \<and>
        (\<forall>j < MAX_MOUNT. mount_covers (vs_mounts s j) path \<longrightarrow> length (mt_path (vs_mounts s j)) \<le> length (mt_path (vs_mounts s m))) \<and>
        (path = mt_path (vs_mounts s m) @ rel \<or> path = mt_path (vs_mounts s m) @ [47] @ rel)"
proof -
  have B: "best_upto (vs_mounts s) path MAX_MOUNT (best_mount (vs_mounts s) path None 0 0 MAX_MOUNT)"
    using best_mount_best [of "vs_mounts s" path 0 None 0 MAX_MOUNT] by (simp add: best_upto_def)
  note M = matches_covers [OF assms]
  show ?thesis
  proof (cases "best_mount (vs_mounts s) path None 0 0 MAX_MOUNT")
    case None
    then show ?thesis using B M by (auto simp: find_mount_def best_upto_def)
  next
    case (Some m)
    let ?p = "mt_path (vs_mounts s m)"
    have cov: "mount_covers (vs_mounts s m) path" using B M Some by (auto simp: best_upto_def)
    then obtain rest where rest: "path = ?p @ rest" by (auto simp: mount_covers_def)
    define rel0 where "rel0 = (if length ?p < length path then drop (length ?p) path else [47])"
    have "rel0 = (if rest = [] then [47] else rest)" by (simp add: rel0_def rest)
    then have "path = ?p @ (if ch rel0 0 = 47 then tl rel0 else rel0) \<or>
        path = ?p @ [47] @ (if ch rel0 0 = 47 then tl rel0 else rel0)"
      using rest by (cases rest) (auto simp: ch_def)
    moreover have "find_mount s path = Some (m, if ch rel0 0 = 47 then tl rel0 else rel0)"
      using Some by (simp add: find_mount_def rel0_def Let_def)
    ultimately show ?thesis using B M Some cov by (auto simp: best_upto_def)
  qed
qed

text \<open>
  Pipes cannot be used through their descriptors.  After \<open>sys_pipe\<close> succeeds, every read from
  the one descriptor and every write to the other returns \<open>EBADF\<close>, because neither has an
  inode; and closing one of them frees the pipe the other still points to.
\<close>

theorem pipe_descriptors_unusable:
  assumes "sys_pipe palloc s = (0, Some (rfd, wfd), s')"
  shows "vfs_read ops rfd n s' = (EBADF, [], s') \<and> vfs_write ops wfd bs s' = (EBADF, s') \<and>
    (let s'' = snd (vfs_close free_data rfd s'); p = fd_pipe (vs_fds s' rfd)
     in vs_pipes s' p = Some pipe_empty \<and> vs_pipes s'' p = None \<and> fd_get s'' wfd = Some (pipe_fd p 1))"
proof -
  define p where "p = palloc (vs_pipes s)"
  define s1 where "s1 = s\<lparr>vs_pipes := (vs_pipes s)(p := Some pipe_empty)\<rparr>"
  have p: "p \<noteq> 0" using assms by (auto simp: sys_pipe_def p_def Let_def errno split: if_splits option.splits)
  have r: "first_idx (\<lambda>i. \<not> fd_in_use (vs_fds s1 i)) 3 (FD_MAX - 3) = Some rfd"
    "first_idx (\<lambda>i. \<not> fd_in_use (vs_fds s1 i) \<and> i \<noteq> rfd) 3 (FD_MAX - 3) = Some wfd"
    "s' = set_fd wfd (pipe_fd p 1) (set_fd rfd (pipe_fd p 0) s1)"
    using assms p unfolding sys_pipe_def by (auto simp: p_def s1_def Let_def errno split: option.splits if_splits)
  have b: "rfd < FD_MAX" "wfd < FD_MAX" "rfd \<noteq> wfd"
    using first_idxD [OF r(1)] first_idxD [OF r(2)] by (auto simp: FD_MAX_def)
  show ?thesis
    using b p unfolding r(3)
    by (simp add: vfs_read_def vfs_write_def vfs_close_def fd_get_def set_fd_def pipe_fd_def Let_def inode_deref_def s1_def)
qed

definition vfs_demo :: "unit vfs" where
  "vfs_demo = vfs_core_init \<lparr>vs_inodes = (\<lambda>_. inode_zero), vs_mounts = (\<lambda>_. mount_zero), vs_fds = (\<lambda>_. fd_zero),
     vs_next_ino = 1, vs_pipes = (\<lambda>_. None), vs_dev = ()\<rparr>"

lemma find_mount_longest_witness: "find_mount vfs_demo [47, 106] = None"
proof -
  have z: "0 \<notin> set (mt_path (vs_mounts vfs_demo j))" "\<not> mount_covers (vs_mounts vfs_demo j) p" for j p
    by (simp_all add: vfs_demo_def vfs_core_init_def mount_zero_def mount_covers_def)
  show ?thesis using find_mount_longest [OF _ z(1), of "[47, 106]"] z(2) by (auto split: option.splits)
qed

lemma pipe_descriptors_unusable_witness:
  "\<exists>s'. sys_pipe (\<lambda>_. 4096) vfs_demo = (0, Some (3, 4), s') \<and> vfs_read (\<lambda>_. undefined) 3 10 s' = (EBADF, [], s')"
proof -
  let ?s = "vfs_demo\<lparr>vs_pipes := (vs_pipes vfs_demo)(4096 := Some pipe_empty)\<rparr>"
  have f: "first_idx (\<lambda>i. \<not> fd_in_use (vs_fds ?s i)) 3 (FD_MAX - 3) = Some 3"
    "first_idx (\<lambda>i. \<not> fd_in_use (vs_fds ?s i) \<and> i \<noteq> 3) 3 (FD_MAX - 3) = Some 4"
    by (rule first_idx_SomeI; auto simp: vfs_demo_def vfs_core_init_def fd_zero_def FD_MAX_def)+
  obtain s' where p: "sys_pipe (\<lambda>_. 4096) vfs_demo = (0, Some (3, 4), s')" using f by (simp add: sys_pipe_def Let_def)
  with pipe_descriptors_unusable [OF p] show ?thesis by blast
qed

end
