(* ===== verification/Fat.thy ===== *)
theory Fat
  imports Inode
begin

text \<open>
  The FAT32 driver of kernel/kernel.c.  The state is the disk, the geometry read from the boot
  sector, the one cached FAT sector with its number, the table of open files and, by heap
  address, the private data of open inodes.  The other sector buffers are filled before every
  use and are local values.  Every access to the FAT goes through the cache, as in the code.
  The loops that follow a chain of clusters need not end on a damaged disk: they are partial,
  and \<^term>\<open>None\<close> is a loop that does not return.  Numbers are natural numbers with the
  reductions to 32 bits written out.
\<close>

definition PART_START :: nat where "PART_START = 512"
definition MAX_FILES :: nat where "MAX_FILES = 8"
definition FAT_EOC :: nat where "FAT_EOC = 0x0FFFFFF8"
definition NO_LBA :: nat where "NO_LBA = 2 ^ 32 - 1"

lemmas fat_consts = PART_START_def MAX_FILES_def FAT_EOC_def NO_LBA_def

record fat_fd =
  ff_in_use :: bool
  ff_size :: nat
  ff_start :: nat
  ff_cur :: nat
  ff_pos :: nat
  ff_name :: "u8 list"
  ff_dir :: nat

record fat =
  fa_disk :: "nat \<Rightarrow> sector"
  fa_spc :: nat
  fa_fat_start :: nat
  fa_data_start :: nat
  fa_root :: nat
  fa_total :: nat
  fa_buf :: sector
  fa_buf_lba :: nat
  fa_table :: "nat \<Rightarrow> fat_fd"
  fa_data :: "nat \<Rightarrow> fat_fd"

definition fat_fd_zero :: fat_fd where
  "fat_fd_zero = \<lparr>ff_in_use = False, ff_size = 0, ff_start = 0, ff_cur = 0, ff_pos = 0, ff_name = replicate 11 0,
     ff_dir = 0\<rparr>"

section \<open>Sectors and the FAT cache\<close>

definition fat_write_sector :: "nat \<Rightarrow> sector \<Rightarrow> fat \<Rightarrow> fat" where
  "fat_write_sector lba b s = s\<lparr>fa_disk := (fa_disk s)(lba := b)\<rparr>"

definition fat_read_cached :: "nat \<Rightarrow> fat \<Rightarrow> fat" where
  "fat_read_cached lba s = (if lba = fa_buf_lba s then s else s\<lparr>fa_buf := fa_disk s lba, fa_buf_lba := lba\<rparr>)"

definition fat_write_cached :: "nat \<Rightarrow> fat \<Rightarrow> fat" where
  "fat_write_cached lba s = (fat_write_sector lba (fa_buf s) s)\<lparr>fa_buf_lba := lba\<rparr>"

definition get32 :: "sector \<Rightarrow> nat \<Rightarrow> nat" where
  "get32 b off = le_value (bytes_at b off 4)"

definition put32 :: "sector \<Rightarrow> nat \<Rightarrow> nat \<Rightarrow> sector" where
  "put32 b off v = put_bytes b off (le_bytes 4 v)"

definition get16 :: "sector \<Rightarrow> nat \<Rightarrow> nat" where
  "get16 b off = le_value (bytes_at b off 2)"

definition fat32_init :: "fat \<Rightarrow> fat" where
  "fat32_init s =
     (let b = fa_disk s PART_START;
          spc = unat (b 13);
          fat_start = PART_START + get16 b 14;
          data_start = (fat_start + unat (b 16) * get32 b 36) mod 2 ^ 32;
          total = (if get32 b 32 = 0 then get16 b 19 else get32 b 32);
          data_secs = (total + 2 ^ 32 - (data_start + 2 ^ 32 - PART_START) mod 2 ^ 32) mod 2 ^ 32
      in s\<lparr>fa_spc := spc, fa_fat_start := fat_start, fa_data_start := data_start, fa_root := get32 b 44,
           fa_total := (if spc > 0 then data_secs div spc else 0)\<rparr>)"

definition cluster_to_lba :: "fat \<Rightarrow> nat \<Rightarrow> nat" where
  "cluster_to_lba s c = (fa_data_start s + (c + 2 ^ 32 - 2) * fa_spc s) mod 2 ^ 32"

text \<open>The sector of the FAT that holds the entry of a cluster, and where in it the entry is.\<close>

definition fat_sec :: "fat \<Rightarrow> nat \<Rightarrow> nat" where
  "fat_sec s c = (c * 4 mod 2 ^ 32 div 512 + fa_fat_start s) mod 2 ^ 32"

definition fat_idx :: "nat \<Rightarrow> nat" where
  "fat_idx c = c * 4 mod 2 ^ 32 mod 512"

definition fat32_next_cluster :: "nat \<Rightarrow> fat \<Rightarrow> nat \<times> fat" where
  "fat32_next_cluster c s =
     (let s1 = fat_read_cached (fat_sec s c) s in (get32 (fa_buf s1) (fat_idx c) mod 2 ^ 28, s1))"

text \<open>Storing an entry: read the sector through the cache, change it, write it through.\<close>

definition fat_link :: "nat \<Rightarrow> nat \<Rightarrow> fat \<Rightarrow> fat" where
  "fat_link c v s =
     (let s1 = fat_read_cached (fat_sec s c) s
      in fat_write_cached (fat_sec s c) (s1\<lparr>fa_buf := put32 (fa_buf s1) (fat_idx c) v\<rparr>))"

fun alloc_loop :: "nat \<Rightarrow> nat \<Rightarrow> fat \<Rightarrow> nat option \<times> fat" where
  "alloc_loop c 0 s = (None, s)"
| "alloc_loop c (Suc k) s =
     (let s1 = fat_read_cached (fat_sec s c) s
      in if get32 (fa_buf s1) (fat_idx c) mod 2 ^ 28 = 0
         then (Some c, fat_write_cached (fat_sec s c) (s1\<lparr>fa_buf := put32 (fa_buf s1) (fat_idx c) 0x0FFFFFFF\<rparr>))
         else alloc_loop (c + 1) k s1)"

definition fat32_alloc_cluster :: "fat \<Rightarrow> nat option \<times> fat" where
  "fat32_alloc_cluster s =
     (let limit = (if fa_total s > 0 then (fa_total s + 2) mod 2 ^ 32 else 65536) in alloc_loop 2 (limit - 2) s)"

section \<open>Walking a directory\<close>

text \<open>
  An entry is the function from its 32 byte positions; the slots of a cluster are numbered over
  its sectors, sixteen in each.  The loops over a directory differ in what they do at an entry:
  skip it, take it, or stop, and in whether stopping ends the walk or goes on to the next cluster.
\<close>

type_synonym dirent = "nat \<Rightarrow> u8"

datatype verdict = Skip | Take | Halt

definition slot_lba :: "fat \<Rightarrow> nat \<Rightarrow> nat \<Rightarrow> nat" where
  "slot_lba s c k = (cluster_to_lba s c + k div 16) mod 2 ^ 32"

definition dir_entry :: "fat \<Rightarrow> nat \<Rightarrow> nat \<Rightarrow> dirent" where
  "dir_entry s c k i = fa_disk s (slot_lba s c k) (k mod 16 * 32 + i)"

text \<open>The slot taken, or \<^term>\<open>Some None\<close> if the walk stopped, or \<^term>\<open>None\<close> at the end of the cluster.\<close>

fun scan_slots :: "fat \<Rightarrow> nat \<Rightarrow> (dirent \<Rightarrow> verdict) \<Rightarrow> nat \<Rightarrow> nat \<Rightarrow> nat option option" where
  "scan_slots s c V k 0 = None"
| "scan_slots s c V k (Suc n) =
     (case V (dir_entry s c k) of
        Skip \<Rightarrow> scan_slots s c V (k + 1) n
      | Take \<Rightarrow> Some (Some k)
      | Halt \<Rightarrow> Some None)"

partial_function (option) dir_walk :: "(dirent \<Rightarrow> verdict) \<Rightarrow> bool \<Rightarrow> nat \<Rightarrow> fat \<Rightarrow> ((nat \<times> nat) option \<times> fat) option" where
  "dir_walk V ends c s =
     (if c < FAT_EOC
      then case scan_slots s c V 0 (fa_spc s * 16) of
             Some (Some k) \<Rightarrow> Some (Some (c, k), s)
           | Some None \<Rightarrow>
               (if ends then Some (None, s)
                else dir_walk V ends (fst (fat32_next_cluster c s)) (snd (fat32_next_cluster c s)))
           | None \<Rightarrow> dir_walk V ends (fst (fat32_next_cluster c s)) (snd (fat32_next_cluster c s))
      else Some (None, s))"

definition name_eq83 :: "u8 list \<Rightarrow> dirent \<Rightarrow> bool" where
  "name_eq83 name e \<longleftrightarrow> strncmp (c_str (map e [0..<11])) (c_str name) 11 = 0"

text \<open>A name that is present: deleted entries and volume labels are skipped, a zero ends the directory.\<close>

definition named :: "u8 list \<Rightarrow> dirent \<Rightarrow> verdict" where
  "named name e =
     (if e 0 = 0 then Halt else if e 0 = 0xE5 then Skip else if e 11 AND 8 \<noteq> 0 then Skip
      else if name_eq83 name e then Take else Skip)"

text \<open>As the two patching loops look for it: the attribute is not tested.\<close>

definition patched :: "u8 list \<Rightarrow> dirent \<Rightarrow> verdict" where
  "patched name e = (if e 0 = 0 then Halt else if e 0 = 0xE5 then Skip else if name_eq83 name e then Take else Skip)"

definition unused :: "dirent \<Rightarrow> verdict" where
  "unused e = (if e 0 = 0 \<or> e 0 = 0xE5 then Take else Skip)"

definition entry_cluster :: "dirent \<Rightarrow> nat" where
  "entry_cluster e = unat (e 20) * 2 ^ 16 + unat (e 21) * 2 ^ 24 + unat (e 26) + unat (e 27) * 2 ^ 8"

definition entry_size :: "dirent \<Rightarrow> nat" where
  "entry_size e = le_value (map e [28..<32])"

text \<open>Storing bytes into an entry and writing its sector.\<close>

definition put_entry :: "nat \<Rightarrow> nat \<Rightarrow> nat \<Rightarrow> u8 list \<Rightarrow> fat \<Rightarrow> fat" where
  "put_entry c k off bs s =
     (let lba = slot_lba s c k in fat_write_sector lba (put_bytes (fa_disk s lba) (k mod 16 * 32 + off) bs) s)"

text \<open>The cluster and the size of a file in a directory.\<close>

definition fat32_find_raw_in :: "u8 list \<Rightarrow> nat \<Rightarrow> fat \<Rightarrow> ((nat \<times> nat) option \<times> fat) option" where
  "fat32_find_raw_in name dir s =
     (case dir_walk (named name) True dir s of
        None \<Rightarrow> None
      | Some (None, s1) \<Rightarrow> Some (None, s1)
      | Some (Some (c, k), s1) \<Rightarrow> Some (Some (entry_cluster (dir_entry s1 c k), entry_size (dir_entry s1 c k)), s1))"

definition fat32_find_file_in :: "u8 list \<Rightarrow> nat \<Rightarrow> fat \<Rightarrow> (int \<times> nat option \<times> fat) option" where
  "fat32_find_file_in name dir s =
     (case fat32_find_raw_in name dir s of
        None \<Rightarrow> None
      | Some (None, s1) \<Rightarrow> Some (-1, None, s1)
      | Some (Some (c, sz), s1) \<Rightarrow> Some (0, Some sz, s1))"

definition fat32_find_file :: "u8 list \<Rightarrow> fat \<Rightarrow> (int \<times> nat option \<times> fat) option" where
  "fat32_find_file name s = fat32_find_file_in name (fa_root s) s"

section \<open>Changing a directory\<close>

definition write_dir_entry_in :: "u8 list \<Rightarrow> nat \<Rightarrow> fat \<Rightarrow> fat option" where
  "write_dir_entry_in de dir s =
     (case dir_walk unused True dir s of
        None \<Rightarrow> None
      | Some (None, s1) \<Rightarrow> Some s1
      | Some (Some (c, k), s1) \<Rightarrow> Some (put_entry c k 0 de s1))"

text \<open>The registers of the real-time clock are the function \<open>cmos\<close>.\<close>

definition rtc_read_reg :: "(nat \<Rightarrow> u8) \<Rightarrow> nat \<Rightarrow> nat" where
  "rtc_read_reg cmos r = (let v = unat (cmos r) in ((v div 16) * 10 + v mod 16) mod 256)"

definition fat_date_now :: "(nat \<Rightarrow> u8) \<Rightarrow> nat" where
  "fat_date_now cmos =
     (let month = min 12 (max 1 (rtc_read_reg cmos 8)); day = min 31 (max 1 (rtc_read_reg cmos 7));
          yr1980 = 2000 + rtc_read_reg cmos 9 - 1980
      in (yr1980 * 512 OR month * 32 OR day) mod 2 ^ 16)"

definition fat_time_now :: "(nat \<Rightarrow> u8) \<Rightarrow> nat" where
  "fat_time_now cmos =
     (rtc_read_reg cmos 4 * 2048 OR rtc_read_reg cmos 2 * 32 OR rtc_read_reg cmos 0 div 2) mod 2 ^ 16"

definition new_file_entry :: "(nat \<Rightarrow> u8) \<Rightarrow> u8 list \<Rightarrow> u8 list" where
  "new_file_entry cmos name =
     (let t = le_bytes 2 (fat_time_now cmos); d = le_bytes 2 (fat_date_now cmos)
      in take 11 name @ [0x20, 0, 0] @ t @ d @ replicate 4 0 @ t @ d @ replicate 6 0)"

definition fat32_create_file_in :: "(nat \<Rightarrow> u8) \<Rightarrow> u8 list \<Rightarrow> nat \<Rightarrow> fat \<Rightarrow> fat option" where
  "fat32_create_file_in cmos name dir s = write_dir_entry_in (new_file_entry cmos name) dir s"

definition cluster_bytes :: "nat \<Rightarrow> u8 list \<times> u8 list" where
  "cluster_bytes c = (le_bytes 2 (c div 2 ^ 16), le_bytes 2 c)"

definition new_dir_entry :: "u8 list \<Rightarrow> nat \<Rightarrow> u8 list" where
  "new_dir_entry name c =
     (case cluster_bytes c of
        (hi, lo) \<Rightarrow> take 11 name @ [0x10] @ replicate 8 0 @ hi @ replicate 4 0 @ lo @ replicate 4 0)"

definition fat32_create_dir_entry_in :: "u8 list \<Rightarrow> nat \<Rightarrow> nat \<Rightarrow> fat \<Rightarrow> fat option" where
  "fat32_create_dir_entry_in name c dir s = write_dir_entry_in (new_dir_entry name c) dir s"

definition fd_dir :: "fat_fd \<Rightarrow> fat \<Rightarrow> nat" where
  "fd_dir f s = (if ff_dir f \<noteq> 0 then ff_dir f else fa_root s)"

definition patch_dir_size :: "fat_fd \<Rightarrow> nat \<Rightarrow> fat \<Rightarrow> fat option" where
  "patch_dir_size f n s =
     (case dir_walk (patched (ff_name f)) False (fd_dir f s) s of
        None \<Rightarrow> None
      | Some (None, s1) \<Rightarrow> Some s1
      | Some (Some (c, k), s1) \<Rightarrow> Some (put_entry c k 28 (le_bytes 4 n) s1))"

definition patch_dir_cluster :: "fat_fd \<Rightarrow> nat \<Rightarrow> fat \<Rightarrow> fat option" where
  "patch_dir_cluster f clus s =
     (case dir_walk (patched (ff_name f)) False (fd_dir f s) s of
        None \<Rightarrow> None
      | Some (None, s1) \<Rightarrow> Some s1
      | Some (Some (c, k), s1) \<Rightarrow>
          (case cluster_bytes clus of
             (hi, lo) \<Rightarrow>
               (let lba = slot_lba s1 c k; b = put_bytes (fa_disk s1 lba) (k mod 16 * 32 + 26) lo
                in Some (fat_write_sector lba (put_bytes b (k mod 16 * 32 + 20) hi) s1))))"

text \<open>Freeing a chain: every entry is read before it is cleared.\<close>

partial_function (option) free_chain :: "nat \<Rightarrow> fat \<Rightarrow> fat option" where
  "free_chain c s =
     (if 2 \<le> c \<and> c < FAT_EOC
      then free_chain (fst (fat32_next_cluster c s)) (fat_link c 0 (snd (fat32_next_cluster c s)))
      else Some s)"

definition fat32_delete_file_in :: "u8 list \<Rightarrow> nat \<Rightarrow> fat \<Rightarrow> (int \<times> fat) option" where
  "fat32_delete_file_in name dir s =
     (case dir_walk (named name) True dir s of
        None \<Rightarrow> None
      | Some (None, s1) \<Rightarrow> Some (-1, s1)
      | Some (Some (c, k), s1) \<Rightarrow>
          (case free_chain (entry_cluster (dir_entry s1 c k)) (put_entry c k 0 [0xE5] s1) of
             None \<Rightarrow> None
           | Some s2 \<Rightarrow> Some (0, s2)))"

definition fat32_rename_in :: "u8 list \<Rightarrow> u8 list \<Rightarrow> nat \<Rightarrow> fat \<Rightarrow> (int \<times> fat) option" where
  "fat32_rename_in old new dir s =
     (case fat32_find_raw_in new dir s of
        None \<Rightarrow> None
      | Some (Some _, s1) \<Rightarrow> Some (-1, s1)
      | Some (None, s1) \<Rightarrow>
          (case dir_walk (named old) True dir s1 of
             None \<Rightarrow> None
           | Some (None, s2) \<Rightarrow> Some (-1, s2)
           | Some (Some (c, k), s2) \<Rightarrow> Some (0, put_entry c k 0 (take 11 new) s2)))"

end
