(* ===== verification/FatOps.thy ===== *)
theory FatOps
  imports Fat
begin

text \<open>
  Open files of the FAT32 driver in kernel/kernel.c: reading and writing one sector at a time at
  the position of the descriptor, the old table of open files, and the table of operations
  for the virtual file system.  Results are \<^term>\<open>None\<close> where a walk over the disk does not return.
\<close>

section \<open>One sector at a time\<close>

definition clus_bytes :: "fat \<Rightarrow> nat" where
  "clus_bytes s = fa_spc s * 512"

text \<open>The sector of the current position.\<close>

definition pos_lba :: "fat_fd \<Rightarrow> fat \<Rightarrow> nat" where
  "pos_lba f s = (cluster_to_lba s (ff_cur f) + ff_pos f div 512 mod fa_spc s) mod 2 ^ 32"

text \<open>The number of bytes, the bytes, the descriptor and the state.\<close>

definition fat32_read_raw :: "fat_fd \<Rightarrow> nat \<Rightarrow> fat \<Rightarrow> u8 list \<times> fat_fd \<times> fat" where
  "fat32_read_raw f n s =
     (if ff_pos f \<ge> ff_size f then ([], f, s)
      else let off = ff_pos f mod 512;
               m = min (min (min n (ff_size f - ff_pos f)) 512) (512 - off);
               bs = bytes_at (fa_disk s (pos_lba f s)) off m;
               f1 = f\<lparr>ff_pos := (ff_pos f + m) mod 2 ^ 32\<rparr>
           in if ff_pos f1 mod clus_bytes s = 0
              then (case fat32_next_cluster (ff_cur f1) s of (c, s1) \<Rightarrow> (bs, f1\<lparr>ff_cur := c\<rparr>, s1))
              else (bs, f1, s))"

text \<open>Giving an empty file its first cluster; the flag tells whether there was one.\<close>

definition first_cluster :: "fat_fd \<Rightarrow> fat \<Rightarrow> (bool \<times> fat_fd \<times> fat) option" where
  "first_cluster f s =
     (if ff_start f \<noteq> 0 then Some (True, f, s)
      else case fat32_alloc_cluster s of
        (None, s1) \<Rightarrow> Some (False, f, s1)
      | (Some c, s1) \<Rightarrow>
          (let f1 = f\<lparr>ff_start := c, ff_cur := c, ff_pos := 0\<rparr>
           in case patch_dir_cluster f1 c s1 of None \<Rightarrow> None | Some s2 \<Rightarrow> Some (True, f1, s2)))"

text \<open>The step to the next cluster after a write that ends at a cluster boundary.\<close>

definition next_for_write :: "fat_fd \<Rightarrow> fat \<Rightarrow> bool \<times> fat_fd \<times> fat" where
  "next_for_write f s =
     (case fat32_next_cluster (ff_cur f) s of
        (nxt, s1) \<Rightarrow>
          (if nxt \<ge> FAT_EOC
           then (case fat32_alloc_cluster s1 of
                   (None, s2) \<Rightarrow> (False, f, s2)
                 | (Some nc, s2) \<Rightarrow> (True, f\<lparr>ff_cur := nc\<rparr>, fat_link (ff_cur f) nc s2))
           else (True, f\<lparr>ff_cur := nxt\<rparr>, s1)))"

definition fat32_write_raw :: "fat_fd \<Rightarrow> u8 list \<Rightarrow> fat \<Rightarrow> (int \<times> fat_fd \<times> fat) option" where
  "fat32_write_raw f data s =
     (case first_cluster f s of
        None \<Rightarrow> None
      | Some (False, f1, s1) \<Rightarrow> Some (-1, f1, s1)
      | Some (True, f1, s1) \<Rightarrow>
          (let off = ff_pos f1 mod 512;
               m = min (min (length data) 512) (512 - off);
               lba = pos_lba f1 s1;
               s2 = fat_write_sector lba (put_bytes (fa_disk s1 lba) off (take m data)) s1;
               f2 = f1\<lparr>ff_pos := (ff_pos f1 + m) mod 2 ^ 32\<rparr>;
               grown = ff_pos f2 > ff_size f2;
               f3 = (if grown then f2\<lparr>ff_size := ff_pos f2\<rparr> else f2)
           in case (if grown then patch_dir_size f3 (ff_size f3) s2 else Some s2) of
                None \<Rightarrow> None
              | Some s3 \<Rightarrow>
                  (if ff_pos f3 mod clus_bytes s3 = 0
                   then (case next_for_write f3 s3 of (ok, f4, s4) \<Rightarrow> Some (if ok then int m else -1, f4, s4))
                   else Some (int m, f3, s3))))"

section \<open>The table of open files\<close>

definition vfs_init :: "fat \<Rightarrow> fat" where
  "vfs_init s = s\<lparr>fa_table := (\<lambda>_. fat_fd_zero)\<rparr>"

definition fat32_open_raw_in :: "u8 list \<Rightarrow> fat_fd \<Rightarrow> nat \<Rightarrow> fat \<Rightarrow> (int \<times> fat_fd \<times> fat) option" where
  "fat32_open_raw_in name slot dir s =
     (case fat32_find_raw_in name dir s of
        None \<Rightarrow> None
      | Some (None, s1) \<Rightarrow> Some (-1, slot, s1)
      | Some (Some (c, sz), s1) \<Rightarrow>
          Some (0, slot\<lparr>ff_size := sz, ff_start := c, ff_cur := c, ff_pos := 0, ff_dir := dir, ff_name := take 11 name\<rparr>, s1))"

definition put_file :: "nat \<Rightarrow> fat_fd \<Rightarrow> fat \<Rightarrow> fat" where
  "put_file fd f s = s\<lparr>fa_table := (fa_table s)(fd := f)\<rparr>"

definition vfs_open_in :: "u8 list \<Rightarrow> nat \<Rightarrow> fat \<Rightarrow> (int \<times> fat) option" where
  "vfs_open_in name dir s =
     (case first_idx (\<lambda>i. \<not> ff_in_use (fa_table s i)) 3 (MAX_FILES - 3) of
        None \<Rightarrow> Some (-1, s)
      | Some i \<Rightarrow>
          (case fat32_open_raw_in name (fa_table s i) dir s of
             None \<Rightarrow> None
           | Some (r, slot, s1) \<Rightarrow>
               Some (if r \<noteq> 0 then (-1, s1) else (int i, put_file i (slot\<lparr>ff_in_use := True\<rparr>) s1))))"

definition fat32_vfs_open :: "u8 list \<Rightarrow> fat \<Rightarrow> (int \<times> fat) option" where
  "fat32_vfs_open name s = vfs_open_in name (fa_root s) s"

definition file_open :: "nat \<Rightarrow> fat \<Rightarrow> bool" where
  "file_open fd s \<longleftrightarrow> \<not> (fd \<ge> MAX_FILES \<or> \<not> ff_in_use (fa_table s fd))"

definition fat32_vfs_read :: "nat \<Rightarrow> nat \<Rightarrow> fat \<Rightarrow> int \<times> u8 list \<times> fat" where
  "fat32_vfs_read fd n s =
     (if \<not> file_open fd s then (-1, [], s)
      else case fat32_read_raw (fa_table s fd) n s of (bs, f, s1) \<Rightarrow> (int (length bs), bs, put_file fd f s1))"

definition fat32_vfs_write :: "nat \<Rightarrow> u8 list \<Rightarrow> fat \<Rightarrow> (int \<times> fat) option" where
  "fat32_vfs_write fd data s =
     (if \<not> file_open fd s then Some (-1, s)
      else case fat32_write_raw (fa_table s fd) data s of
        None \<Rightarrow> None
      | Some (r, f, s1) \<Rightarrow> Some (r, put_file fd f s1))"

definition fat32_vfs_close :: "nat \<Rightarrow> fat \<Rightarrow> int \<times> fat" where
  "fat32_vfs_close fd s =
     (if \<not> file_open fd s then (-1, s) else (0, put_file fd ((fa_table s fd)\<lparr>ff_in_use := False\<rparr>) s))"

text \<open>Following the chain a number of times, up to its end.\<close>

fun nth_cluster :: "nat \<Rightarrow> nat \<Rightarrow> fat \<Rightarrow> nat \<times> fat" where
  "nth_cluster c 0 s = (c, s)"
| "nth_cluster c (Suc k) s =
     (if c < FAT_EOC then case fat32_next_cluster c s of (c1, s1) \<Rightarrow> nth_cluster c1 k s1 else (c, s))"

definition fat32_vfs_seek :: "nat \<Rightarrow> int \<Rightarrow> nat \<Rightarrow> fat \<Rightarrow> int \<times> fat" where
  "fat32_vfs_seek fd offset whence s =
     (if \<not> file_open fd s then (EBADF, s)
      else let f = fa_table s fd; off = nat (offset mod 2 ^ 32)
           in if whence > 2 then (EINVAL, s)
              else let p = (if whence = 0 then off else if whence = 1 then (ff_pos f + off) mod 2 ^ 32
                            else (ff_size f + off) mod 2 ^ 32);
                       np = (if p > ff_size f then ff_size f else p)
                   in case nth_cluster (ff_start f) (np div clus_bytes s) s of
                        (c, s1) \<Rightarrow> (int np, put_file fd (f\<lparr>ff_cur := c, ff_pos := np\<rparr>) s1))"

section \<open>Operations for the virtual file system\<close>

definition upper :: "u8 \<Rightarrow> u8" where
  "upper c = (if 97 \<le> c \<and> c \<le> 122 then c - 32 else c)"

text \<open>The name padded with blanks to eight characters and three.\<close>

definition to_83 :: "str \<Rightarrow> u8 list" where
  "to_83 name =
     (let base = takeWhile (\<lambda>c. c \<noteq> 46) name;
          ext = tl (dropWhile (\<lambda>c. c \<noteq> 46) name);
          pad = (\<lambda>k bs. map upper (take k bs) @ replicate (k - length (take k bs)) 32)
      in pad 8 base @ pad 3 ext)"

definition put_data :: "nat \<Rightarrow> fat_fd \<Rightarrow> fat \<Rightarrow> fat" where
  "put_data p f s = s\<lparr>fa_data := (fa_data s)(p := f)\<rparr>"

text \<open>Moving the position of the descriptor to the offset asked for.\<close>

definition seek_for :: "nat \<Rightarrow> nat \<Rightarrow> fat_fd \<Rightarrow> fat \<Rightarrow> fat_fd \<times> fat" where
  "seek_for from offset f s =
     (let o32 = offset mod 2 ^ 32
      in if ff_pos f = o32 then (f, s)
         else case nth_cluster from (o32 div clus_bytes s) s of (c, s1) \<Rightarrow> (f\<lparr>ff_cur := c, ff_pos := o32\<rparr>, s1))"

function fat_read_loop :: "fat_fd \<Rightarrow> nat \<Rightarrow> fat \<Rightarrow> u8 list \<times> fat_fd \<times> fat" where
  "fat_read_loop f count s =
     (if count = 0 then ([], f, s)
      else case fat32_read_raw f count s of
        (bs, f1, s1) \<Rightarrow>
          (if bs = [] then ([], f1, s1)
           else case fat_read_loop f1 (count - length bs) s1 of (bs', f2, s2) \<Rightarrow> (bs @ bs', f2, s2)))"
  by pat_completeness auto
termination by (relation "measure (\<lambda>(f, count, s). count)") auto

declare fat_read_loop.simps [simp del]

definition fat32_ops_read :: "vfs_inode \<Rightarrow> nat \<Rightarrow> nat \<Rightarrow> fat \<Rightarrow> int \<times> u8 list \<times> fat" where
  "fat32_ops_read i count offset s =
     (if vi_fs_data i = 0 then (EINVAL, [], s)
      else let f = fa_data s (vi_fs_data i)
           in case seek_for (ff_start f) offset f s of
                (f1, s1) \<Rightarrow>
                  (case fat_read_loop f1 count s1 of
                     (bs, f2, s2) \<Rightarrow> (int (length bs), bs, put_data (vi_fs_data i) f2 s2)))"

function fat_write_loop :: "fat_fd \<Rightarrow> u8 list \<Rightarrow> nat \<Rightarrow> fat \<Rightarrow> (nat \<times> fat_fd \<times> fat) option" where
  "fat_write_loop f data done s =
     (if data = [] then Some (done, f, s)
      else case fat32_write_raw f data s of
        None \<Rightarrow> None
      | Some (r, f1, s1) \<Rightarrow>
          (if r \<le> 0 then Some (done, f1, s1)
           else fat_write_loop f1 (drop (nat r) data) (done + nat r) s1))"
  by pat_completeness auto
termination by (relation "measure (\<lambda>(f, data, done, s). length data)") auto

declare fat_write_loop.simps [simp del]

definition fat32_ops_write :: "vfs_inode \<Rightarrow> u8 list \<Rightarrow> nat \<Rightarrow> fat \<Rightarrow> (int \<times> vfs_inode \<times> fat) option" where
  "fat32_ops_write i data offset s =
     (if vi_fs_data i = 0 then Some (EINVAL, i, s)
      else let f = fa_data s (vi_fs_data i)
           in case seek_for (if ff_start f \<noteq> 0 then ff_start f else fa_root s) offset f s of
                (f1, s1) \<Rightarrow>
                  (case fat_write_loop f1 data 0 s1 of
                     None \<Rightarrow> None
                   | Some (n, f2, s2) \<Rightarrow>
                       Some (int n, i\<lparr>vi_attr := (vi_attr i)\<lparr>ia_size := ff_size f2\<rparr>\<rparr>, put_data (vi_fs_data i) f2 s2)))"

text \<open>\<open>heap\<close> is the address the heap gives to a new descriptor, 0 if none.\<close>

definition fat32_ops_lookup :: "(fat \<Rightarrow> nat) \<Rightarrow> vfs_inode \<Rightarrow> str \<Rightarrow> vfs_inode \<Rightarrow> fat \<Rightarrow> (int \<times> vfs_inode \<times> fat) option" where
  "fat32_ops_lookup heap d name out s =
     (let n83 = to_83 name; dir = vi_ino d mod 2 ^ 32
      in case fat32_find_raw_in n83 dir s of
           None \<Rightarrow> None
         | Some (None, s1) \<Rightarrow> Some (ENOENT, out, s1)
         | Some (Some (c, sz), s1) \<Rightarrow>
             (let p = heap s1
              in if p = 0 then Some (ENOMEM, out, s1)
                 else Some (0, out\<lparr>vi_valid := True, vi_ino := c, vi_dev := vi_dev d, vi_rdev := 0, vi_refcount := 1,
                        vi_ops := vi_ops d, vi_fs_data := p, vi_mount := vi_mount d,
                        vi_attr := (vi_attr out)\<lparr>ia_type := 1, ia_mode := 0x1A4, ia_uid := 0, ia_gid := 0, ia_size := sz,
                          ia_nlink := 1, ia_blksize := 512, ia_blocks := (sz + 511) mod 2 ^ 32 div 512\<rparr>\<rparr>,
                      put_data p \<lparr>ff_in_use = True, ff_size = sz, ff_start = c, ff_cur = c, ff_pos = 0, ff_name = n83,
                        ff_dir = dir\<rparr> s1)))"

definition fat32_ops_create :: "(fat \<Rightarrow> nat) \<Rightarrow> (nat \<Rightarrow> u8) \<Rightarrow> vfs_inode \<Rightarrow> str \<Rightarrow> u16 \<Rightarrow> vfs_inode \<Rightarrow> fat \<Rightarrow> (int \<times> vfs_inode \<times> fat) option" where
  "fat32_ops_create heap cmos d name mode out s =
     (case fat32_create_file_in cmos (to_83 name) (vi_ino d mod 2 ^ 32) s of
        None \<Rightarrow> None
      | Some s1 \<Rightarrow> fat32_ops_lookup heap d name out s1)"

definition fat32_ops_mkdir :: "vfs_inode \<Rightarrow> str \<Rightarrow> u16 \<Rightarrow> fat \<Rightarrow> (int \<times> fat) option" where
  "fat32_ops_mkdir d name mode s =
     (case fat32_alloc_cluster s of
        (None, s1) \<Rightarrow> Some (ENOSPC, s1)
      | (Some c, s1) \<Rightarrow>
          (case fat32_create_dir_entry_in (to_83 name) c (vi_ino d mod 2 ^ 32) s1 of
             None \<Rightarrow> None
           | Some s2 \<Rightarrow> Some (0, s2)))"

definition fat32_ops_unlink :: "vfs_inode \<Rightarrow> str \<Rightarrow> fat \<Rightarrow> (int \<times> fat) option" where
  "fat32_ops_unlink d name s =
     (case fat32_delete_file_in (to_83 name) (vi_ino d mod 2 ^ 32) s of
        None \<Rightarrow> None
      | Some (r, s1) \<Rightarrow> Some (if r < 0 then ENOENT else 0, s1))"

definition fat32_ops_getsize :: "vfs_inode \<Rightarrow> fat \<Rightarrow> int" where
  "fat32_ops_getsize i s =
     (if vi_fs_data i \<noteq> 0 then int (ff_size (fa_data s (vi_fs_data i))) else i64_of_u64 (ia_size (vi_attr i)))"

definition fat32_ops_setattr :: "vfs_inode \<Rightarrow> inode_attr \<Rightarrow> fat \<Rightarrow> int \<times> vfs_inode \<times> fat" where
  "fat32_ops_setattr i a s = (0, i\<lparr>vi_attr := a\<rparr>, s)"

text \<open>The root inode \<open>vfs_register_fat32\<close> mounts at \<open>/\<close>.\<close>

definition fat_root_data :: "fat \<Rightarrow> fat_fd" where
  "fat_root_data s = fat_fd_zero\<lparr>ff_in_use := True, ff_start := fa_root s, ff_cur := fa_root s, ff_dir := fa_root s\<rparr>"

definition fat_root_inode :: "nat \<Rightarrow> nat \<Rightarrow> fat \<Rightarrow> vfs_inode" where
  "fat_root_inode tab p s = inode_zero\<lparr>vi_valid := True, vi_ino := fa_root s, vi_dev := 1, vi_refcount := 1, vi_ops := tab,
     vi_fs_data := p, vi_attr := attr_zero\<lparr>ia_type := 2, ia_mode := 0x1ED, ia_nlink := 1, ia_blksize := 512\<rparr>\<rparr>"

end
