(* ===== verification/FatSpec.thy ===== *)
theory FatSpec
  imports FatOps
begin

text \<open>
  What the FAT32 driver keeps.  On a volume whose FAT lies before its data (\<open>fat_geom\<close>) and
  with a cached sector that agrees with the disk (\<open>cache_ok\<close>), the FAT is a function from
  clusters to links (\<open>fat_at\<close>): allocation and deletion refine updates of it, and the walk
  over a directory whose chain ends refines the search through the list of its slots.
\<close>

section \<open>The FAT as a function\<close>

definition fat_geom :: "fat \<Rightarrow> bool" where
  "fat_geom s \<longleftrightarrow> 0 < fa_spc s \<and> 0 < fa_total s \<and> fa_total s + 2 < FAT_EOC \<and>
     fa_fat_start s + (fa_total s + 1) div 128 < fa_data_start s \<and>
     fa_data_start s + fa_total s * fa_spc s < NO_LBA"

definition clus_ok :: "fat \<Rightarrow> nat \<Rightarrow> bool" where
  "clus_ok s c \<longleftrightarrow> 2 \<le> c \<and> c < fa_total s + 2"

definition cache_ok :: "fat \<Rightarrow> bool" where
  "cache_ok s \<longleftrightarrow> fa_buf_lba s = NO_LBA \<or> fa_buf_lba s < fa_data_start s \<and> fa_buf s = fa_disk s (fa_buf_lba s)"

definition fat_at :: "fat \<Rightarrow> nat \<Rightarrow> nat" where
  "fat_at s c = get32 (fa_disk s (fat_sec s c)) (fat_idx c)"

text \<open>Only the cache may differ.\<close>

definition same_disk :: "fat \<Rightarrow> fat \<Rightarrow> bool" where
  "same_disk s s' \<longleftrightarrow> s' = s\<lparr>fa_buf := fa_buf s', fa_buf_lba := fa_buf_lba s'\<rparr>"

lemma same_disk_refl [simp]: "same_disk s s"
  by (simp add: same_disk_def)

lemma same_diskD:
  assumes "same_disk s s'"
  shows "fa_disk s' = fa_disk s" "fa_spc s' = fa_spc s" "fa_fat_start s' = fa_fat_start s"
    "fa_data_start s' = fa_data_start s" "fa_total s' = fa_total s" "fa_root s' = fa_root s"
    "fa_table s' = fa_table s" "fa_data s' = fa_data s"
  by (subst assms [unfolded same_disk_def], simp)+

lemma same_diskI:
  "fa_disk s' = fa_disk s \<Longrightarrow> fa_spc s' = fa_spc s \<Longrightarrow> fa_fat_start s' = fa_fat_start s \<Longrightarrow>
   fa_data_start s' = fa_data_start s \<Longrightarrow> fa_total s' = fa_total s \<Longrightarrow> fa_root s' = fa_root s \<Longrightarrow>
   fa_table s' = fa_table s \<Longrightarrow> fa_data s' = fa_data s \<Longrightarrow> same_disk s s'"
  unfolding same_disk_def by (cases s; cases s') simp

lemma same_disk_trans: "same_disk s s' \<Longrightarrow> same_disk s' s'' \<Longrightarrow> same_disk s s''"
  by (rule same_diskI) (simp_all add: same_diskD)

lemma same_disk_at: "same_disk s s' \<Longrightarrow> fat_at s' = fat_at s"
  by (intro ext) (simp add: fat_at_def fat_sec_def same_diskD)

lemma same_disk_geom: "same_disk s s' \<Longrightarrow> fat_geom s \<Longrightarrow> fat_geom s'"
  by (simp add: fat_geom_def same_diskD)

lemma same_disk_clus: "same_disk s s' \<Longrightarrow> clus_ok s' = clus_ok s"
  by (intro ext) (simp add: clus_ok_def same_diskD)

lemma same_disk_entry: "same_disk s s' \<Longrightarrow> dir_entry s' = dir_entry s"
  by (intro ext) (simp add: dir_entry_def slot_lba_def cluster_to_lba_def same_diskD)

lemma fat_pos:
  assumes "fat_geom s" "c < fa_total s + 2"
  shows "fat_sec s c = fa_fat_start s + c div 128" "fat_idx c = c mod 128 * 4"
    "fat_sec s c < fa_data_start s" "fat_sec s c < NO_LBA"
proof -
  have "c < 2 ^ 28" using assms by (simp add: fat_geom_def fat_consts)
  then have c: "c * 4 mod 2 ^ 32 = c * 4" by simp
  have "c * 4 div 512 = c div 128" "c * 4 mod 512 = c mod 128 * 4"
    using div_mult_mult2 [of 4 c 128] mod_mult_mult2 [of c 4 128] by simp_all
  moreover have "c div 128 \<le> (fa_total s + 1) div 128" using assms(2) by (intro div_le_mono) simp
  then have l: "fa_fat_start s + c div 128 < fa_data_start s" using assms(1) by (simp add: fat_geom_def)
  moreover have b: "fa_data_start s < NO_LBA" using assms(1) by (simp add: fat_geom_def)
  ultimately show s: "fat_sec s c = fa_fat_start s + c div 128" unfolding fat_sec_def c by (simp add: NO_LBA_def)
  show "fat_idx c = c mod 128 * 4" unfolding fat_idx_def c by fact
  show "fat_sec s c < fa_data_start s" "fat_sec s c < NO_LBA" using s l b by simp_all
qed

lemma read_cached:
  assumes "cache_ok s" "lba < NO_LBA" "lba < fa_data_start s"
  shows "same_disk s (fat_read_cached lba s)" "cache_ok (fat_read_cached lba s)"
    "fa_buf (fat_read_cached lba s) = fa_disk s lba" "fa_buf_lba (fat_read_cached lba s) = lba"
  using assms by (auto simp: fat_read_cached_def cache_ok_def same_disk_def)

lemma next_cluster:
  assumes "cache_ok s" "fat_geom s" "c < fa_total s + 2"
  obtains s' where "fat32_next_cluster c s = (fat_at s c mod 2 ^ 28, s')" "same_disk s s'" "cache_ok s'"
  using read_cached [OF assms(1) fat_pos(4,3) [OF assms(2,3)]]
  by (simp add: fat32_next_cluster_def fat_at_def Let_def)

lemma get_put: "get32 (put32 b off v) off = v mod 2 ^ 32"
  using bytes_at_put [of 0 4 "le_bytes 4 v" b off] by (simp add: get32_def put32_def le_value_bytes)

lemma get_put_other: "off' + 4 \<le> off \<or> off + 4 \<le> off' \<Longrightarrow> get32 (put32 b off v) off' = get32 b off'"
  by (simp add: get32_def put32_def bytes_at_put_other)

text \<open>Storing an entry in the sector the cache holds.\<close>

lemma fat_store:
  assumes ok: "cache_ok s" "fat_geom s" "c < fa_total s + 2" "v < 2 ^ 32"
    and s1: "s1 = fat_read_cached (fat_sec s c) s"
    and s': "s' = fat_write_cached (fat_sec s c) (s1\<lparr>fa_buf := put32 (fa_buf s1) (fat_idx c) v\<rparr>)"
  shows "cache_ok s'" "fat_geom s'" "d < fa_total s + 2 \<Longrightarrow> fat_at s' d = (if d = c then v else fat_at s d)"
    "l \<noteq> fat_sec s c \<Longrightarrow> fa_disk s' l = fa_disk s l" "fa_total s' = fa_total s" "fa_data_start s' = fa_data_start s"
    "fa_spc s' = fa_spc s" "fa_fat_start s' = fa_fat_start s"
proof -
  note P = fat_pos [OF ok(2)]
  note R = read_cached [OF ok(1) P(4,3) [OF ok(3)], folded s1]
  have d: "fa_disk s' = (fa_disk s)(fat_sec s c := put32 (fa_disk s (fat_sec s c)) (fat_idx c) v)"
    using R by (simp add: s' fat_write_cached_def fat_write_sector_def same_diskD)
  show "fa_disk s' l = fa_disk s l" if "l \<noteq> fat_sec s c" using that by (simp add: d)
  show g: "fa_total s' = fa_total s" "fa_data_start s' = fa_data_start s" "fa_spc s' = fa_spc s" "fa_fat_start s' = fa_fat_start s"
    using R(1) by (simp_all add: s' fat_write_cached_def fat_write_sector_def same_diskD)
  show "fat_geom s'" using ok(2) by (simp add: fat_geom_def g)
  show "cache_ok s'" using P(3) [OF ok(3)] g(2) by (simp add: cache_ok_def s' fat_write_cached_def fat_write_sector_def)
  have sec: "fat_sec s' e = fat_sec s e" for e by (simp add: fat_sec_def g)
  show "fat_at s' d = (if d = c then v else fat_at s d)" if "d < fa_total s + 2"
  proof (cases "d = c")
    case True
    then show ?thesis using ok(4) by (simp add: fat_at_def sec d get_put)
  next
    case False
    show ?thesis
    proof (cases "fat_sec s d = fat_sec s c")
      case True
      then have "d div 128 = c div 128" using P that ok(3) by simp
      with False have "d mod 128 \<noteq> c mod 128" by (metis div_mult_mod_eq)
      then have "fat_idx d + 4 \<le> fat_idx c \<or> fat_idx c + 4 \<le> fat_idx d" using P that ok(3) by auto
      then show ?thesis using False True by (simp add: fat_at_def sec d get_put_other)
    qed (use False in \<open>simp add: fat_at_def sec d\<close>)
  qed
qed

section \<open>Allocation\<close>

lemma alloc_loop_first:
  assumes "cache_ok s" "fat_geom s" "c + k \<le> fa_total s + 2"
  shows "case alloc_loop c k s of
      (None, s') \<Rightarrow> (\<forall>d. c \<le> d \<and> d < c + k \<longrightarrow> fat_at s d mod 2 ^ 28 \<noteq> 0) \<and> same_disk s s' \<and> cache_ok s'
    | (Some e, s') \<Rightarrow> c \<le> e \<and> e < c + k \<and> fat_at s e mod 2 ^ 28 = 0 \<and> (\<forall>d. c \<le> d \<and> d < e \<longrightarrow> fat_at s d mod 2 ^ 28 \<noteq> 0) \<and>
        cache_ok s' \<and> fat_geom s' \<and> fa_total s' = fa_total s \<and>
        (\<forall>d < fa_total s + 2. fat_at s' d = (if d = e then 0x0FFFFFFF else fat_at s d)) \<and>
        (\<forall>l. l \<noteq> fat_sec s e \<longrightarrow> fa_disk s' l = fa_disk s l)"
  using assms
proof (induction k arbitrary: c s)
  case (Suc k)
  have c: "c < fa_total s + 2" using Suc.prems(3) by simp
  note P = fat_pos [OF Suc.prems(2) c]
  define s1 where "s1 = fat_read_cached (fat_sec s c) s"
  note R = read_cached [OF Suc.prems(1) P(4,3), folded s1_def]
  have at: "get32 (fa_buf s1) (fat_idx c) = fat_at s c" by (simp add: R(3) fat_at_def)
  show ?case
  proof (cases "fat_at s c mod 2 ^ 28 = 0")
    case True
    define s' where "s' = fat_write_cached (fat_sec s c) (s1\<lparr>fa_buf := put32 (fa_buf s1) (fat_idx c) 0x0FFFFFFF\<rparr>)"
    have "alloc_loop c (Suc k) s = (Some c, s')" using True by (simp add: s1_def [symmetric] Let_def at s'_def)
    moreover note S = fat_store [OF Suc.prems(1,2) c _ s1_def s'_def]
    ultimately show ?thesis using True S by simp
  next
    case False
    have l: "alloc_loop c (Suc k) s = alloc_loop (c + 1) k s1" using False by (simp add: s1_def [symmetric] Let_def at)
    have g: "fat_geom s1" "fa_total s1 = fa_total s" "fat_at s1 = fat_at s" "fat_sec s1 = fat_sec s" "fa_disk s1 = fa_disk s"
      using R(1) same_disk_geom [OF R(1) Suc.prems(2)] by (simp_all add: same_diskD same_disk_at fat_sec_def fun_eq_iff)
    have "c + 1 + k \<le> fa_total s1 + 2" using Suc.prems(3) g(2) by simp
    note IH = Suc.IH [OF R(2) g(1) this, unfolded g]
    have ge: "c \<le> d \<longleftrightarrow> d = c \<or> c + 1 \<le> d" for d by auto
    obtain r s' where r: "alloc_loop (c + 1) k s1 = (r, s')" by fastforce
    show ?thesis
    proof (cases r)
      case None
      then show ?thesis
        using IH False same_disk_trans [OF R(1)] unfolding l r ge by auto
    next
      case (Some e)
      then show ?thesis using IH False unfolding l r ge by auto
    qed
  qed
qed simp

text \<open>
  C13. Cluster allocation.  \<open>fat32_alloc_cluster\<close> returns the first cluster of the volume whose FAT
  entry is free, marks it as the end of a chain, and changes no other entry and no other sector;
  it reports a full disk exactly when no entry is free.  The cache stays coherent.
\<close>

theorem fat32_alloc_first_free:
  assumes "cache_ok s" "fat_geom s"
  shows "case fat32_alloc_cluster s of
      (None, s') \<Rightarrow> (\<forall>d. clus_ok s d \<longrightarrow> fat_at s d mod 2 ^ 28 \<noteq> 0) \<and> fa_disk s' = fa_disk s \<and> cache_ok s'
    | (Some c, s') \<Rightarrow> clus_ok s c \<and> fat_at s c mod 2 ^ 28 = 0 \<and> (\<forall>d. 2 \<le> d \<and> d < c \<longrightarrow> fat_at s d mod 2 ^ 28 \<noteq> 0) \<and>
        cache_ok s' \<and> (\<forall>d < fa_total s + 2. fat_at s' d = (if d = c then 0x0FFFFFFF else fat_at s d)) \<and>
        (\<forall>l. l \<noteq> fat_sec s c \<longrightarrow> fa_disk s' l = fa_disk s l)"
proof -
  have t: "0 < fa_total s" "(fa_total s + 2) mod 2 ^ 32 = fa_total s + 2"
    using assms(2) by (simp_all add: fat_geom_def fat_consts)
  then have e: "fat32_alloc_cluster s = alloc_loop 2 (fa_total s) s" unfolding fat32_alloc_cluster_def Let_def t(2) by simp
  obtain r s' where r: "alloc_loop 2 (fa_total s) s = (r, s')" by fastforce
  have "2 + fa_total s \<le> fa_total s + 2" by simp
  from alloc_loop_first [OF assms this] show ?thesis
    unfolding e r by (cases r) (auto simp: clus_ok_def same_diskD)
qed


section \<open>Chains\<close>

text \<open>The clusters of the chain that starts at \<open>c\<close>, up to a link that ends the walk.\<close>

fun is_chain :: "fat \<Rightarrow> nat \<Rightarrow> nat list \<Rightarrow> bool" where
  "is_chain s c [] \<longleftrightarrow> c < 2 \<or> FAT_EOC \<le> c"
| "is_chain s c (x # xs) \<longleftrightarrow> x = c \<and> clus_ok s c \<and> is_chain s (fat_at s c mod 2 ^ 28) xs"

lemma is_chain_cong:
  assumes "\<And>d. d \<in> set xs \<Longrightarrow> fat_at s' d = fat_at s d" "fa_total s' = fa_total s"
  shows "is_chain s' c xs \<longleftrightarrow> is_chain s c xs"
  using assms by (induction xs arbitrary: c) (auto simp: clus_ok_def)

lemma clus_ok_small: "fat_geom s \<Longrightarrow> clus_ok s c \<Longrightarrow> c < FAT_EOC"
  by (auto simp: fat_geom_def clus_ok_def)

lemma free_chain_frees:
  assumes "cache_ok s" "fat_geom s" "is_chain s c xs" "distinct xs"
  obtains s' where "free_chain c s = Some s'" "cache_ok s'" "fat_geom s'" "fa_total s' = fa_total s"
    "\<And>d. d < fa_total s + 2 \<Longrightarrow> fat_at s' d = (if d \<in> set xs then 0 else fat_at s d)"
    "\<And>l. fa_data_start s \<le> l \<Longrightarrow> fa_disk s' l = fa_disk s l"
    "fa_spc s' = fa_spc s" "fa_data_start s' = fa_data_start s"
  using assms
proof (induction xs arbitrary: c s thesis)
  case Nil
  then show ?case by (intro Nil.prems(1) [of s]) (auto simp: free_chain.simps [of c])
next
  case (Cons x xs)
  have c: "clus_ok s c" "x = c" "c \<notin> set xs" using Cons.prems(4,5) by auto
  have ct: "c < fa_total s + 2" using c(1) by (simp add: clus_ok_def)
  obtain s1 where s1: "fat32_next_cluster c s = (fat_at s c mod 2 ^ 28, s1)" "same_disk s s1" "cache_ok s1"
    by (rule next_cluster [OF Cons.prems(2,3) ct])
  define s2 where "s2 = fat_link c 0 s1"
  have g1: "fat_geom s1" "fa_total s1 = fa_total s" "fat_at s1 = fat_at s" "fat_sec s1 = fat_sec s" "fa_disk s1 = fa_disk s"
      "fa_data_start s1 = fa_data_start s" "fa_spc s1 = fa_spc s"
    using same_disk_geom [OF s1(2) Cons.prems(3)] s1(2) by (simp_all add: same_diskD same_disk_at fat_sec_def fun_eq_iff)
  have ct1: "c < fa_total s1 + 2" using ct g1 by simp
  note S = fat_store [OF s1(3) g1(1) ct1, of 0, OF _ refl s2_def [unfolded fat_link_def Let_def], unfolded g1, simplified]
  have ch: "is_chain s2 (fat_at s c mod 2 ^ 28) xs"
  proof -
    have "fat_at s2 d = fat_at s d" if "d \<in> set xs" for d
    proof -
      have "clus_ok s d" using Cons.prems(4) that
        by (induction xs arbitrary: c x) auto
      then show ?thesis using S(3) [of d] that c(3) by (auto simp: clus_ok_def)
    qed
    then have "is_chain s2 (fat_at s c mod 2 ^ 28) xs \<longleftrightarrow> is_chain s (fat_at s c mod 2 ^ 28) xs"
      by (rule is_chain_cong) (simp_all add: S)
    then show ?thesis using Cons.prems(4) by simp
  qed
  have f: "free_chain c s = free_chain (fat_at s c mod 2 ^ 28) s2"
    using clus_ok_small [OF Cons.prems(3) c(1)] c(1) s1(1) by (subst free_chain.simps) (simp add: s2_def clus_ok_def)
  obtain s' where r: "free_chain (fat_at s c mod 2 ^ 28) s2 = Some s'" "cache_ok s'" "fat_geom s'" "fa_total s' = fa_total s2"
      "\<And>d. d < fa_total s2 + 2 \<Longrightarrow> fat_at s' d = (if d \<in> set xs then 0 else fat_at s2 d)"
      "\<And>l. fa_data_start s2 \<le> l \<Longrightarrow> fa_disk s' l = fa_disk s2 l"
      "fa_spc s' = fa_spc s2" "fa_data_start s' = fa_data_start s2"
    using Cons.IH [OF _ S(1,2) ch] Cons.prems(5) by (metis distinct.simps(2))
  have low: "fat_sec s c < fa_data_start s" by (rule fat_pos(3) [OF Cons.prems(3) ct])
  show ?case
    by (rule Cons.prems(1) [of s'])
       (use r S f c low in \<open>auto simp: less_le_not_le\<close>)
qed

section \<open>Walking a directory\<close>

definition dir_slots :: "fat \<Rightarrow> nat list \<Rightarrow> (nat \<times> nat) list" where
  "dir_slots s xs = concat (map (\<lambda>c. map (Pair c) [0..<fa_spc s * 16]) xs)"

text \<open>The first slot that is not skipped, if it is taken.\<close>

fun first_taken :: "fat \<Rightarrow> (dirent \<Rightarrow> verdict) \<Rightarrow> (nat \<times> nat) list \<Rightarrow> (nat \<times> nat) option" where
  "first_taken s V [] = None"
| "first_taken s V ((c, k) # ks) =
     (case V (dir_entry s c k) of Skip \<Rightarrow> first_taken s V ks | Take \<Rightarrow> Some (c, k) | Halt \<Rightarrow> None)"

lemma scan_slots_taken:
  "first_taken s V (map (Pair c) [k..<k + n] @ rest) =
     (case scan_slots s c V k n of None \<Rightarrow> first_taken s V rest | Some None \<Rightarrow> None | Some (Some j) \<Rightarrow> Some (c, j))"
proof (induction n arbitrary: k)
  case (Suc n)
  have u: "[k..<k + Suc n] = k # [Suc k..<Suc k + n]" by (simp add: upt_conv_Cons del: upt_Suc)
  show ?case
    unfolding u list.map append_Cons first_taken.simps Suc.IH scan_slots.simps Suc_eq_plus1 [symmetric]
    by (simp split: verdict.split)
qed simp

lemma first_taken_cong: "dir_entry s' = dir_entry s \<Longrightarrow> first_taken s' V ks = first_taken s V ks"
  by (induction ks) (auto split: verdict.split)

lemma dir_walk_chain:
  assumes "cache_ok s" "fat_geom s" "is_chain s c xs" "xs \<noteq> [] \<or> FAT_EOC \<le> c"
    and "\<forall>x \<in> set xs. 2 \<le> fat_at s x mod 2 ^ 28"
  obtains s' where "dir_walk V True c s = Some (first_taken s V (dir_slots s xs), s')" "same_disk s s'" "cache_ok s'"
  using assms
proof (induction xs arbitrary: c s thesis)
  case Nil
  then show ?case by (intro Nil.prems(1) [of s]) (simp_all add: dir_walk.simps [of V True c] dir_slots_def)
next
  case (Cons x xs)
  have c: "clus_ok s c" "x = c" using Cons.prems(4) by auto
  have ct: "c < fa_total s + 2" using c(1) by (simp add: clus_ok_def)
  have lt: "c < FAT_EOC" by (rule clus_ok_small [OF Cons.prems(3) c(1)])
  have sl: "first_taken s V (dir_slots s (x # xs)) =
     (case scan_slots s c V 0 (fa_spc s * 16) of None \<Rightarrow> first_taken s V (dir_slots s xs) | Some None \<Rightarrow> None | Some (Some j) \<Rightarrow> Some (c, j))"
    using scan_slots_taken [of s V c 0 "fa_spc s * 16"] unfolding dir_slots_def c list.map concat.simps by simp
  show ?case
  proof (cases "scan_slots s c V 0 (fa_spc s * 16)")
    case None
    obtain s1 where s1: "fat32_next_cluster c s = (fat_at s c mod 2 ^ 28, s1)" "same_disk s s1" "cache_ok s1"
      by (rule next_cluster [OF Cons.prems(2,3) ct])
    have eq: "is_chain s1 d xs = is_chain s d xs" for d
      by (rule is_chain_cong) (simp_all add: same_disk_at [OF s1(2)] same_diskD [OF s1(2)])
    have ch: "is_chain s1 (fat_at s c mod 2 ^ 28) xs" using Cons.prems(4) eq by simp
    have e: "xs \<noteq> [] \<or> FAT_EOC \<le> fat_at s c mod 2 ^ 28" using Cons.prems(4,6) c by (cases xs) auto
    have "\<forall>x \<in> set xs. 2 \<le> fat_at s1 x mod 2 ^ 28" using Cons.prems(6) by (simp add: same_disk_at [OF s1(2)])
    from Cons.IH [OF _ s1(3) same_disk_geom [OF s1(2) Cons.prems(3)] ch e this]
    obtain s' where s': "dir_walk V True (fat_at s c mod 2 ^ 28) s1 = Some (first_taken s1 V (dir_slots s1 xs), s')"
        "same_disk s1 s'" "cache_ok s'" by blast
    have "first_taken s1 V (dir_slots s1 xs) = first_taken s V (dir_slots s xs)"
      using first_taken_cong [OF same_disk_entry [OF s1(2)]] by (simp add: dir_slots_def same_diskD [OF s1(2)])
    with s' have "dir_walk V True c s = Some (first_taken s V (dir_slots s (x # xs)), s')"
      by (subst dir_walk.simps) (simp add: lt None sl s1(1))
    then show ?thesis by (rule Cons.prems(1)) (use s' same_disk_trans [OF s1(2)] in auto)
  next
    case (Some r)
    have "dir_walk V True c s = Some (first_taken s V (dir_slots s (x # xs)), s)"
      by (subst dir_walk.simps) (simp add: lt Some sl split: option.split)
    then show ?thesis by (rule Cons.prems(1)) (use Cons.prems(2) in simp_all)
  qed
qed


text \<open>The chain of a directory: it is not empty, and every link in it leads on or ends it.\<close>

definition dir_chain :: "fat \<Rightarrow> nat \<Rightarrow> nat list \<Rightarrow> bool" where
  "dir_chain s c xs \<longleftrightarrow> xs \<noteq> [] \<and> is_chain s c xs \<and> (\<forall>x \<in> set xs. 2 \<le> fat_at s x mod 2 ^ 28)"

lemma dir_walk_dir:
  assumes "cache_ok s" "fat_geom s" "dir_chain s c xs"
  obtains s' where "dir_walk V True c s = Some (first_taken s V (dir_slots s xs), s')" "same_disk s s'" "cache_ok s'"
  by (rule dir_walk_chain [OF assms(1,2), of c xs V]) (use assms(3) in \<open>auto simp: dir_chain_def\<close>)

lemma chain_clus: "is_chain s c xs \<Longrightarrow> x \<in> set xs \<Longrightarrow> clus_ok s x"
  by (induction xs arbitrary: c) auto

lemma dir_slots_ok:
  assumes "dir_chain s c xs" "(d, k) \<in> set (dir_slots s xs)"
  shows "clus_ok s d" "k < fa_spc s * 16"
  using assms chain_clus by (auto simp: dir_slots_def dir_chain_def)

section \<open>Slots on disk\<close>

lemma slot_pos:
  assumes "fat_geom s" "clus_ok s c" "k < fa_spc s * 16"
  shows "slot_lba s c k = fa_data_start s + ((c - 2) * fa_spc s + k div 16)"
proof -
  have c: "2 \<le> c" "c - 2 + 1 \<le> fa_total s" using assms(2) by (auto simp: clus_ok_def)
  have "(c - 2 + 1) * fa_spc s \<le> fa_total s * fa_spc s" using c(2) by (intro mult_le_mono1)
  then have m: "(c - 2) * fa_spc s + fa_spc s \<le> fa_total s * fa_spc s" by simp
  have k: "k div 16 < fa_spc s" using assms(3) by (simp add: less_mult_imp_div_less)
  have d: "fa_data_start s + fa_total s * fa_spc s < 2 ^ 32" using assms(1) by (simp add: fat_geom_def NO_LBA_def)
  have "(fa_data_start s + (c + 2 ^ 32 - 2) * fa_spc s) mod 2 ^ 32 = (fa_data_start s + (c - 2) * fa_spc s + 2 ^ 32 * fa_spc s) mod 2 ^ 32"
  proof -
    have "c + 2 ^ 32 - 2 = (c - 2) + 2 ^ 32" using c by simp
    then show ?thesis by (simp only: add_mult_distrib add.assoc)
  qed
  also have "\<dots> = (fa_data_start s + (c - 2) * fa_spc s) mod 2 ^ 32" by (rule mod_mult_self2)
  also have "\<dots> = fa_data_start s + (c - 2) * fa_spc s" using m d by (intro mod_less) linarith
  finally have l: "cluster_to_lba s c = fa_data_start s + (c - 2) * fa_spc s" unfolding cluster_to_lba_def .
  have "fa_data_start s + (c - 2) * fa_spc s + k div 16 < 2 ^ 32" using m k d by linarith
  then show ?thesis unfolding slot_lba_def l by (simp add: add.assoc)
qed

lemma slot_inj:
  assumes "fat_geom s" "clus_ok s c" "k < fa_spc s * 16" "clus_ok s d" "j < fa_spc s * 16"
    and "slot_lba s c k = slot_lba s d j" "k mod 16 = j mod 16"
  shows "c = d \<and> k = j"
proof -
  have q: "k div 16 < fa_spc s" "j div 16 < fa_spc s" using assms(3,5) by (simp_all add: less_mult_imp_div_less)
  have e: "(c - 2) * fa_spc s + k div 16 = (d - 2) * fa_spc s + j div 16"
    using assms(6) slot_pos [OF assms(1-3)] slot_pos [OF assms(1,4,5)] by simp
  have "((c - 2) * fa_spc s + k div 16) div fa_spc s = c - 2" "((d - 2) * fa_spc s + j div 16) div fa_spc s = d - 2"
    using q by simp_all
  then have "c - 2 = d - 2" using e by metis
  moreover have "2 \<le> c" "2 \<le> d" using assms(2,4) by (simp_all add: clus_ok_def)
  ultimately have "c = d" by simp
  moreover from this e have "k div 16 = j div 16" by simp
  ultimately show ?thesis using assms(7) by (metis div_mult_mod_eq)
qed

text \<open>Storing into a slot of the data region changes that entry only.\<close>

lemma put_entry_slot:
  assumes "fat_geom s" "cache_ok s" "clus_ok s c" "k < fa_spc s * 16" "off + length bs \<le> 32"
    and s': "s' = put_entry c k off bs s"
  shows "cache_ok s'" "fat_geom s'" "d < fa_total s + 2 \<Longrightarrow> fat_at s' d = fat_at s d"
    "clus_ok s d \<Longrightarrow> j < fa_spc s * 16 \<Longrightarrow> i < 32 \<Longrightarrow> dir_entry s' d j i =
      (if d = c \<and> j = k \<and> off \<le> i \<and> i < off + length bs then bs ! (i - off) else dir_entry s d j i)"
    "l \<noteq> slot_lba s c k \<Longrightarrow> fa_disk s' l = fa_disk s l" "fa_total s' = fa_total s" "fa_spc s' = fa_spc s"
    "fa_data_start s' = fa_data_start s" "slot_lba s' = slot_lba s"
proof -
  let ?l = "slot_lba s c k"
  have l: "fa_data_start s \<le> ?l" by (simp add: slot_pos [OF assms(1,3,4)])
  have e: "s' = s\<lparr>fa_disk := (fa_disk s)(?l := put_bytes (fa_disk s ?l) (k mod 16 * 32 + off) bs)\<rparr>"
    by (simp add: s' put_entry_def fat_write_sector_def Let_def)
  show g: "fa_total s' = fa_total s" "fa_spc s' = fa_spc s" "fa_data_start s' = fa_data_start s" by (simp_all add: e)
  show sl: "slot_lba s' = slot_lba s" by (intro ext) (simp add: e slot_lba_def cluster_to_lba_def)
  show "cache_ok s'" using assms(2) l by (auto simp: cache_ok_def e)
  show "fat_geom s'" using assms(1) by (simp add: fat_geom_def e)
  show "l \<noteq> ?l \<Longrightarrow> fa_disk s' l = fa_disk s l" by (simp add: e)
  show "fat_at s' d = fat_at s d" if "d < fa_total s + 2"
    using fat_pos(3) [OF assms(1) that] l by (simp add: fat_at_def fat_sec_def e)
  show "dir_entry s' d j i = (if d = c \<and> j = k \<and> off \<le> i \<and> i < off + length bs then bs ! (i - off) else dir_entry s d j i)"
    if "clus_ok s d" "j < fa_spc s * 16" "i < 32"
  proof (cases "slot_lba s d j = ?l")
    case True
    show ?thesis
    proof (cases "j mod 16 = k mod 16")
      case same: True
      with True have "d = c \<and> j = k" using slot_inj [OF assms(1) that(1,2) assms(3,4)] by simp
      then show ?thesis by (simp add: dir_entry_def sl) (simp add: e put_bytes_def)
    next
      case False
      then have "j mod 16 * 32 + 32 \<le> k mod 16 * 32 \<or> k mod 16 * 32 + 32 \<le> j mod 16 * 32" by arith
      then have "\<not> (k mod 16 * 32 + off \<le> j mod 16 * 32 + i \<and> j mod 16 * 32 + i < k mod 16 * 32 + off + length bs)"
        using that(3) assms(5) by linarith
      moreover have "j \<noteq> k" using False by auto
      ultimately show ?thesis unfolding dir_entry_def sl True by (auto simp: e put_bytes_def)
    qed
  next
    case False
    then have "\<not> (d = c \<and> j = k)" by auto
    with False show ?thesis by (auto simp: dir_entry_def sl) (simp_all add: e)
  qed
qed


section \<open>Deleting a file\<close>

text \<open>
  C20. Deletion.  In a directory whose chain ends, \<open>fat32_delete_file_in\<close> returns: with -1, and the
  disk as it was, when the name is not there, and otherwise with 0, after marking the entry as deleted and
  freeing exactly the clusters of the file; no other link and no other sector of the data region changes.
\<close>

theorem fat32_delete_frees_chain:
  assumes "cache_ok s" "fat_geom s" "dir_chain s dir ds"
    and chain: "\<And>c k. first_taken s (named name) (dir_slots s ds) = Some (c, k) \<Longrightarrow>
      is_chain s (entry_cluster (dir_entry s c k)) xs \<and> distinct xs"
  shows "\<exists>r s'. fat32_delete_file_in name dir s = Some (r, s') \<and> cache_ok s' \<and>
    (case first_taken s (named name) (dir_slots s ds) of
       None \<Rightarrow> r = -1 \<and> fa_disk s' = fa_disk s
     | Some (c, k) \<Rightarrow> r = 0 \<and> dir_entry s' c k 0 = 0xE5 \<and>
         (\<forall>d < fa_total s + 2. fat_at s' d = (if d \<in> set xs then 0 else fat_at s d)) \<and>
         (\<forall>l \<ge> fa_data_start s. l \<noteq> slot_lba s c k \<longrightarrow> fa_disk s' l = fa_disk s l))"
proof -
  obtain s1 where w: "dir_walk (named name) True dir s = Some (first_taken s (named name) (dir_slots s ds), s1)"
      "same_disk s s1" "cache_ok s1"
    by (rule dir_walk_dir [OF assms(1-3)])
  show ?thesis
  proof (cases "first_taken s (named name) (dir_slots s ds)")
    case None
    then show ?thesis using w by (simp add: fat32_delete_file_in_def same_diskD)
  next
    case (Some q)
    obtain c k where q: "q = (c, k)" by (cases q)
    have "first_taken s V ks = Some p \<Longrightarrow> p \<in> set ks" for V ks p
      by (induction s V ks rule: first_taken.induct) (auto split: verdict.splits)
    then have "(c, k) \<in> set (dir_slots s ds)" using Some q by blast
    note ok = dir_slots_ok [OF assms(3) this]
    have g1: "fat_geom s1" "clus_ok s1 c" "k < fa_spc s1 * 16" "fa_total s1 = fa_total s" "fat_at s1 = fat_at s"
        "dir_entry s1 = dir_entry s" "fa_disk s1 = fa_disk s" "fa_data_start s1 = fa_data_start s" "slot_lba s1 = slot_lba s"
      using same_disk_geom [OF w(2) assms(2)] ok w(2)
      by (simp_all add: same_disk_clus same_disk_at same_disk_entry same_diskD slot_lba_def cluster_to_lba_def fun_eq_iff)
    define s2 where "s2 = put_entry c k 0 [0xE5] s1"
    have e1: "0 + length [0xE5 :: u8] \<le> 32" by simp
    note P = put_entry_slot [OF g1(1) w(3) g1(2,3) e1 s2_def]
    let ?fc = "entry_cluster (dir_entry s c k)"
    have f: "is_chain s ?fc xs" "distinct xs" using chain Some q by simp_all
    have "is_chain s2 ?fc xs \<longleftrightarrow> is_chain s ?fc xs"
    proof (rule is_chain_cong)
      show "fat_at s2 d = fat_at s d" if "d \<in> set xs" for d
        using P(3) [of d] chain_clus [OF f(1) that] by (simp add: g1 clus_ok_def)
    qed (simp add: P g1)
    then obtain s' where r: "free_chain ?fc s2 = Some s'" "cache_ok s'" "fat_geom s'" "fa_total s' = fa_total s2"
        "\<And>d. d < fa_total s2 + 2 \<Longrightarrow> fat_at s' d = (if d \<in> set xs then 0 else fat_at s2 d)"
        "\<And>l. fa_data_start s2 \<le> l \<Longrightarrow> fa_disk s' l = fa_disk s2 l"
        "fa_spc s' = fa_spc s2" "fa_data_start s' = fa_data_start s2"
      using free_chain_frees [OF P(1,2), of ?fc xs] f by blast
    have sl: "fa_data_start s \<le> slot_lba s c k" by (simp add: slot_pos [OF assms(2) ok])
    have "fat32_delete_file_in name dir s = Some (0, s')"
      using w(1) Some q r(1) by (simp add: fat32_delete_file_in_def g1 s2_def)
    moreover have "dir_entry s' c k 0 = dir_entry s2 c k 0"
    proof -
      have "slot_lba s' c k = slot_lba s c k" using P(7,8) r(7,8) g1 w(2) by (simp add: slot_lba_def cluster_to_lba_def same_diskD)
      then show ?thesis using r(6) [of "slot_lba s c k"] sl P(8,9) g1 by (simp add: dir_entry_def)
    qed
    ultimately show ?thesis
      using Some q r(2) r(5,6) P(3,5) P(4) [OF g1(2,3), of 0] by (auto simp: P(6,8) g1)
  qed
qed


section \<open>Creating a file\<close>

lemma first_taken_Some:
  "first_taken s V ks = Some (c, k) \<longleftrightarrow>
     (\<exists>ys zs. ks = ys @ (c, k) # zs \<and> (\<forall>(d, j) \<in> set ys. V (dir_entry s d j) = Skip) \<and> V (dir_entry s c k) = Take)"
proof (induction s V ks rule: first_taken.induct)
  case (2 s V d j ks)
  show ?case
  proof (cases "V (dir_entry s d j)")
    case Skip
    have "(\<exists>ys zs. (d, j) # ks = ys @ (c, k) # zs \<and> (\<forall>(d, j) \<in> set ys. V (dir_entry s d j) = Skip) \<and> V (dir_entry s c k) = Take) \<longleftrightarrow>
      (\<exists>ys zs. ks = ys @ (c, k) # zs \<and> (\<forall>(d, j) \<in> set ys. V (dir_entry s d j) = Skip) \<and> V (dir_entry s c k) = Take)"
      (is "?L \<longleftrightarrow> ?R")
    proof
      assume ?L
      then obtain ys zs where y: "(d, j) # ks = ys @ (c, k) # zs" "\<forall>(d, j) \<in> set ys. V (dir_entry s d j) = Skip"
        "V (dir_entry s c k) = Take" by blast
      then obtain ys' where "ys = (d, j) # ys'" using Skip by (cases ys) auto
      then show ?R using y by auto
    next
      assume ?R
      then obtain ys zs where "ks = ys @ (c, k) # zs" "\<forall>(d, j) \<in> set ys. V (dir_entry s d j) = Skip"
        "V (dir_entry s c k) = Take" by blast
      then show ?L using Skip by (intro exI [of _ "(d, j) # ys"] exI [of _ zs]) auto
    qed
    then show ?thesis using 2 Skip by simp
  qed (auto simp: Cons_eq_append_conv)
qed simp

lemma first_taken_None_prefix:
  "first_taken s V (ys @ zs) = None \<Longrightarrow> \<forall>(d, j) \<in> set ys. V (dir_entry s d j) \<noteq> Halt \<Longrightarrow> \<forall>(d, j) \<in> set ys. V (dir_entry s d j) = Skip"
proof (induction ys)
  case (Cons y ys)
  obtain d j where y: "y = (d, j)" by (cases y)
  then have "V (dir_entry s d j) = Skip" using Cons.prems by (cases "V (dir_entry s d j)") auto
  with Cons y show ?case by simp
qed simp

lemma distinct_slots: "distinct xs \<Longrightarrow> distinct (dir_slots s xs)"
  by (induction xs) (auto simp: dir_slots_def distinct_map inj_on_def)

lemma name_eq_new:
  assumes "length name = 11" "0 \<notin> set name" "length other = 11" "0 \<notin> set other" "\<And>i. i < 11 \<Longrightarrow> e i = name ! i"
  shows "name_eq83 other e \<longleftrightarrow> other = name"
proof -
  have "map e [0..<11] = name" by (rule nth_equalityI) (use assms in simp_all)
  moreover have "c_str name = name" "c_str other = other" using assms(2,4) c_str_padded [of _ 0] by simp_all
  ultimately show ?thesis using strncmp_take [OF assms(2,4), of 11] assms(1,3) by (auto simp: name_eq83_def)
qed

text \<open>
  C12. A created file is found.  In a directory whose chain ends and that has an unused slot, after
  \<open>fat32_create_file_in\<close> with a new name the search finds that name, with no cluster and size zero,
  and finds every other name that was there before with its cluster and size as they were.
\<close>

theorem fat32_create_find:
  assumes ok: "cache_ok s" "fat_geom s" "dir_chain s dir ds" "distinct ds"
    and name: "length name = 11" "0 \<notin> set name" "name ! 0 \<noteq> 0xE5"
    and new: "first_taken s (named name) (dir_slots s ds) = None"
    and room: "first_taken s unused (dir_slots s ds) = Some (c0, k0)"
  shows "\<exists>s1. fat32_create_file_in cmos name dir s = Some s1 \<and>
    (\<exists>s2. fat32_find_raw_in name dir s1 = Some (Some (0, 0), s2)) \<and>
    (\<forall>other c n s3. length other = 11 \<and> 0 \<notin> set other \<and> fat32_find_raw_in other dir s = Some (Some (c, n), s3) \<longrightarrow>
       (\<exists>s2. fat32_find_raw_in other dir s1 = Some (Some (c, n), s2)))"
proof -
  let ?ks = "dir_slots s ds"
  obtain s0 where w: "dir_walk unused True dir s = Some (Some (c0, k0), s0)" "same_disk s s0" "cache_ok s0"
    using dir_walk_dir [OF ok(1-3), of unused] room by metis
  define de where "de = new_file_entry cmos name"
  define s1 where "s1 = put_entry c0 k0 0 de s0"
  have len: "length de = 32" using name(1) by (simp add: de_def new_file_entry_def Let_def)
  obtain ys zs where y: "?ks = ys @ (c0, k0) # zs" "\<forall>(d, j) \<in> set ys. unused (dir_entry s d j) = Skip"
      "unused (dir_entry s c0 k0) = Take" using room unfolding first_taken_Some by blast
  have slot0: "clus_ok s c0" "k0 < fa_spc s * 16" using dir_slots_ok [OF ok(3), of c0 k0] y(1) by simp_all
  have g0: "fat_geom s0" "clus_ok s0 c0" "k0 < fa_spc s0 * 16" "fa_total s0 = fa_total s" "fat_at s0 = fat_at s"
      "dir_entry s0 = dir_entry s" "fa_spc s0 = fa_spc s" "clus_ok s0 = clus_ok s"
    using same_disk_geom [OF w(2) ok(2)] slot0 w(2)
    by (simp_all add: same_disk_clus same_disk_at same_disk_entry same_diskD)
  have l32: "0 + length de \<le> 32" using len by simp
  note P = put_entry_slot [OF g0(1) w(3) g0(2,3) l32 s1_def, unfolded g0]
  have entry: "dir_entry s1 d j i = (if (d, j) = (c0, k0) then de ! i else dir_entry s d j i)"
    if "(d, j) \<in> set ?ks" "i < 32" for d j i
    using P(4) [OF dir_slots_ok [OF ok(3) that(1)] that(2)] that(2) len by simp
  have slots: "dir_slots s1 ds = ?ks" by (simp add: dir_slots_def P(7))
  have ch: "dir_chain s1 dir ds"
  proof -
    have at: "fat_at s1 d = fat_at s d" if "d \<in> set ds" for d
      using P(3) [of d] chain_clus [of s dir ds d] ok(3) that by (simp add: dir_chain_def clus_ok_def)
    then have "is_chain s1 dir ds \<longleftrightarrow> is_chain s dir ds" by (rule is_chain_cong) (simp_all add: P(6))
    then show ?thesis using ok(3) at by (simp add: dir_chain_def)
  qed
  have created: "fat32_create_file_in cmos name dir s = Some s1"
    using w(1) by (simp add: fat32_create_file_in_def write_dir_entry_in_def de_def s1_def)
  have find1: "\<exists>s2. fat32_find_raw_in n dir s1 = Some (Some (entry_cluster (dir_entry s1 c k), entry_size (dir_entry s1 c k)), s2)"
    if "first_taken s1 (named n) ?ks = Some (c, k)" for n c k
    by (rule dir_walk_dir [OF P(1,2) ch, of "named n"])
       (use that in \<open>simp add: fat32_find_raw_in_def slots same_disk_entry\<close>)
  have verdict: "named n (dir_entry s1 d j) = named n (dir_entry s d j)" "entry_cluster (dir_entry s1 d j) = entry_cluster (dir_entry s d j)"
      "entry_size (dir_entry s1 d j) = entry_size (dir_entry s d j)" if "(d, j) \<in> set ?ks" "(d, j) \<noteq> (c0, k0)" for n d j
  proof -
    have e: "dir_entry s1 d j i = dir_entry s d j i" if "i < 32" for i using entry that \<open>(d, j) \<in> set ?ks\<close> \<open>(d, j) \<noteq> (c0, k0)\<close> by auto
    then have m: "map (dir_entry s1 d j) [0..<11] = map (dir_entry s d j) [0..<11]" by (intro map_cong) auto
    show "named n (dir_entry s1 d j) = named n (dir_entry s d j)" using e unfolding named_def name_eq83_def m by simp
    show "entry_cluster (dir_entry s1 d j) = entry_cluster (dir_entry s d j)" using e by (simp add: entry_cluster_def)
    have "map (dir_entry s1 d j) [28..<32] = map (dir_entry s d j) [28..<32]" using e by (intro map_cong) auto
    then show "entry_size (dir_entry s1 d j) = entry_size (dir_entry s d j)" by (simp only: entry_size_def)
  qed
  have here: "(c0, k0) \<in> set ?ks" using y(1) by simp
  have eq: "dir_entry s1 c0 k0 i = de ! i" if "i < 32" for i using entry [OF here that] by simp
  have d11: "i < 11 \<Longrightarrow> de ! i = name ! i" "de ! 11 = 0x20" for i
    using name(1) by (simp_all add: de_def new_file_entry_def Let_def nth_append)
  have first: "name ! 0 \<noteq> 0" using name(1,2) by (metis nth_mem zero_less_numeral)
  have nm: "name_eq83 other (dir_entry s1 c0 k0) \<longleftrightarrow> other = name" if "length other = 11" "0 \<notin> set other" for other
    by (rule name_eq_new [OF name(1,2) that]) (simp add: eq d11)
  have vnew: "named other (dir_entry s1 c0 k0) = (if other = name then Take else Skip)" if "length other = 11" "0 \<notin> set other" for other
    using nm [OF that] first name(3) by (simp add: named_def eq d11)
  have dist: "(c0, k0) \<notin> set ys" using distinct_slots [OF ok(4), of s] y(1) by simp
  have "\<forall>(d, j) \<in> set ys. named name (dir_entry s d j) = Skip"
  proof (rule first_taken_None_prefix)
    show "first_taken s (named name) (ys @ (c0, k0) # zs) = None" using new y(1) by simp
    show "\<forall>(d, j) \<in> set ys. named name (dir_entry s d j) \<noteq> Halt" using y(2) by (auto simp: named_def unused_def split: if_splits)
  qed
  then have "\<forall>(d, j) \<in> set ys. named name (dir_entry s1 d j) = Skip"
  proof clarify
    fix a b assume "(a, b) \<in> set ys" "\<forall>(d, j) \<in> set ys. named name (dir_entry s d j) = Skip"
    moreover from this have "(a, b) \<in> set ?ks" "(a, b) \<noteq> (c0, k0)" using y(1) dist by auto
    ultimately show "named name (dir_entry s1 a b) = Skip" using verdict(1) [of a b name] by auto
  qed
  then have "first_taken s1 (named name) ?ks = Some (c0, k0)"
    unfolding first_taken_Some using y(1) vnew [OF name(1,2)] by auto
  then obtain s2 where f2: "fat32_find_raw_in name dir s1 = Some (Some (entry_cluster (dir_entry s1 c0 k0), entry_size (dir_entry s1 c0 k0)), s2)"
    using find1 by blast
  have "entry_cluster (dir_entry s1 c0 k0) = 0" "entry_size (dir_entry s1 c0 k0) = 0"
    using name(1) by (simp_all add: entry_cluster_def entry_size_def eq upt_rec de_def new_file_entry_def Let_def nth_append le_value_def)
  with f2 have found: "\<exists>s2. fat32_find_raw_in name dir s1 = Some (Some (0, 0), s2)" by auto
  have "\<exists>s2. fat32_find_raw_in other dir s1 = Some (Some (c, n), s2)"
    if o: "length other = 11" "0 \<notin> set other" "fat32_find_raw_in other dir s = Some (Some (c, n), s3)" for other c n s3
  proof -
    obtain s' where w': "dir_walk (named other) True dir s = Some (first_taken s (named other) ?ks, s')" "same_disk s s'"
      using dir_walk_dir [OF ok(1-3), of "named other"] by metis
    obtain d j where dj: "first_taken s (named other) ?ks = Some (d, j)" "c = entry_cluster (dir_entry s d j)"
        "n = entry_size (dir_entry s d j)"
      using o(3) w' by (auto simp: fat32_find_raw_in_def same_disk_entry split: option.splits)
    obtain us vs where u: "?ks = us @ (d, j) # vs" "\<forall>(d, j) \<in> set us. named other (dir_entry s d j) = Skip"
        "named other (dir_entry s d j) = Take" using dj(1) unfolding first_taken_Some by blast
    have ne: "(d, j) \<noteq> (c0, k0)" using u(3) y(3) by (auto simp: named_def unused_def split: if_splits)
    have on: "other \<noteq> name" using dj(1) new by auto
    have "\<forall>(d, j) \<in> set us. named other (dir_entry s1 d j) = Skip"
    proof (clarify)
      fix a b assume ab: "(a, b) \<in> set us"
      show "named other (dir_entry s1 a b) = Skip"
      proof (cases "(a, b) = (c0, k0)")
        case True
        then show ?thesis using vnew [OF o(1,2)] on by simp
      next
        case False
        then show ?thesis using verdict(1) [of a b other] ab u(1,2) by auto
      qed
    qed
    moreover have "named other (dir_entry s1 d j) = Take" using verdict(1) [of d j other] ne u by simp
    ultimately have "first_taken s1 (named other) ?ks = Some (d, j)" unfolding first_taken_Some using u(1) by blast
    from find1 [OF this] show ?thesis using verdict(2,3) [of d j] ne u(1) dj by simp
  qed
  with created found show ?thesis by blast
qed

section \<open>Witnesses\<close>

text \<open>A volume of five clusters; the root directory has one entry, a file of one cluster, number 3.\<close>

definition demo_name :: "u8 list" where
  "demo_name = [65, 32, 32, 32, 32, 32, 32, 32, 84, 88, 84]"

definition demo_entry :: "u8 list" where
  "demo_entry = demo_name @ [0x20] @ replicate 14 0 @ [3, 0] @ replicate 4 0"

definition fat_demo :: fat where
  "fat_demo = \<lparr>fa_disk = (\<lambda>_. zero_sector)(10 := put32 (put32 zero_sector 8 0x0FFFFFFF) 12 0x0FFFFFFF,
       12 := put_bytes zero_sector 0 demo_entry),
     fa_spc = 1, fa_fat_start = 10, fa_data_start = 12, fa_root = 2, fa_total = 5, fa_buf = zero_sector,
     fa_buf_lba = NO_LBA, fa_table = (\<lambda>_. fat_fd_zero), fa_data = (\<lambda>_. fat_fd_zero)\<rparr>"

lemma fat_demo_ok: "cache_ok fat_demo" "fat_geom fat_demo"
  by (simp_all add: cache_ok_def fat_geom_def fat_demo_def fat_consts)

lemma fat_demo_at: "fat_at fat_demo 2 = 0x0FFFFFFF" "fat_at fat_demo 3 = 0x0FFFFFFF" "fat_at fat_demo 4 = 0"
proof -
  have d: "fa_disk fat_demo 10 = put32 (put32 zero_sector 8 0x0FFFFFFF) 12 0x0FFFFFFF" by (simp add: fat_demo_def)
  have at: "fat_at fat_demo c = get32 (fa_disk fat_demo 10) (c * 4)" if "c < 7" for c
    using fat_pos(1,2) [OF fat_demo_ok(2), of c] that by (simp add: fat_at_def fat_demo_def)
  have z: "get32 zero_sector 16 = 0" by (simp add: get32_def bytes_at_def zero_sector_def le_value_def upt_rec)
  show "fat_at fat_demo 2 = 0x0FFFFFFF" "fat_at fat_demo 3 = 0x0FFFFFFF" "fat_at fat_demo 4 = 0"
    using at [of 2] at [of 3] at [of 4] z by (simp_all add: d get_put get_put_other)
qed

lemma fat_demo_dir: "dir_chain fat_demo 2 [2]" "is_chain fat_demo 3 [3]"
  by (simp_all add: dir_chain_def fat_demo_at clus_ok_def FAT_EOC_def) (simp_all add: fat_demo_def)

lemma fat_demo_slot: "slot_lba fat_demo 2 k = 12" if "k < 16"
  using slot_pos [OF fat_demo_ok(2), of 2 k] that by (simp add: clus_ok_def fat_demo_def)

lemma fat_demo_entry: "dir_entry fat_demo 2 0 i = (if i < 32 then demo_entry ! i else 0)"
  "dir_entry fat_demo 2 1 0 = 0"
  unfolding dir_entry_def One_nat_def fat_demo_slot [of 0, simplified] fat_demo_slot [of "Suc 0", simplified]
  by (simp_all add: fat_demo_def put_bytes_def demo_entry_def demo_name_def zero_sector_def)

lemma fat_demo_prefix: "i < 11 \<Longrightarrow> dir_entry fat_demo 2 0 i = demo_name ! i"
proof -
  have "length demo_name = 11" by (simp add: demo_name_def)
  then show "i < 11 \<Longrightarrow> dir_entry fat_demo 2 0 i = demo_name ! i" by (simp add: fat_demo_entry demo_entry_def nth_append)
qed

lemma demo_name_ok: "length demo_name = 11" "0 \<notin> set demo_name"
  by (simp_all add: demo_name_def)

lemma fat_demo_slots: "\<exists>zs. dir_slots fat_demo [2] = (2, 0) # (2, 1) # zs"
  by (simp add: dir_slots_def fat_demo_def upt_rec)

lemma fat_demo_named: "named demo_name (dir_entry fat_demo 2 0) = Take"
proof -
  have "name_eq83 demo_name (dir_entry fat_demo 2 0)"
    using name_eq_new [OF demo_name_ok demo_name_ok fat_demo_prefix] by blast
  then show ?thesis by (simp add: named_def fat_demo_entry demo_entry_def demo_name_def)
qed

lemma fat32_alloc_first_free_witness:
  "\<exists>s'. fat32_alloc_cluster fat_demo = (Some 4, s') \<and> fat_at s' 4 = 0x0FFFFFFF"
proof -
  note A = fat32_alloc_first_free [OF fat_demo_ok]
  obtain r s' where r: "fat32_alloc_cluster fat_demo = (r, s')" by fastforce
  have c4: "clus_ok fat_demo 4" by (simp add: clus_ok_def fat_demo_def)
  then obtain c where c: "r = Some c" using A fat_demo_at(3) unfolding r by (cases r) auto
  have B: "2 \<le> c" "c < fa_total fat_demo + 2" "fat_at fat_demo c mod 2 ^ 28 = 0"
      "\<And>d. 2 \<le> d \<Longrightarrow> d < c \<Longrightarrow> fat_at fat_demo d mod 2 ^ 28 \<noteq> 0"
      "\<And>d. d < fa_total fat_demo + 2 \<Longrightarrow> fat_at s' d = (if d = c then 0x0FFFFFFF else fat_at fat_demo d)"
    using A unfolding r c by (simp_all add: clus_ok_def)
  have "c \<noteq> 2" "c \<noteq> 3" using B(3) fat_demo_at by auto
  moreover have "\<not> 4 < c" using B(4) [of 4] fat_demo_at(3) by auto
  ultimately have "c = 4" using B(1) by simp
  then show ?thesis using B(2) B(5) [of 4] r c by simp
qed

lemma fat32_delete_frees_chain_witness:
  "\<exists>s'. fat32_delete_file_in demo_name 2 fat_demo = Some (0, s') \<and> fat_at s' 3 = 0 \<and> fat_at s' 2 = 0x0FFFFFFF"
proof -
  obtain zs where z: "dir_slots fat_demo [2] = (2, 0) # (2, 1) # zs" using fat_demo_slots by blast
  then have f: "first_taken fat_demo (named demo_name) (dir_slots fat_demo [2]) = Some (2, 0)" by (simp add: fat_demo_named)
  have e: "entry_cluster (dir_entry fat_demo 2 0) = 3"
    by (simp add: entry_cluster_def fat_demo_entry demo_entry_def demo_name_def nth_append)
  have "fa_total fat_demo = 5" by (simp add: fat_demo_def)
  then show ?thesis
    using fat32_delete_frees_chain [OF fat_demo_ok fat_demo_dir(1), of demo_name "[3]"] fat_demo_dir(2)
    by (auto simp: f e fat_demo_at)
qed

lemma fat32_create_find_witness:
  "\<exists>s1 s2. fat32_create_file_in (\<lambda>_. 0) (66 # tl demo_name) 2 fat_demo = Some s1 \<and>
     fat32_find_raw_in (66 # tl demo_name) 2 s1 = Some (Some (0, 0), s2)"
proof -
  let ?n = "66 # tl demo_name"
  obtain zs where z: "dir_slots fat_demo [2] = (2, 0) # (2, 1) # zs" using fat_demo_slots by blast
  have n: "length ?n = 11" "0 \<notin> set ?n" "?n ! 0 \<noteq> 0xE5" by (simp_all add: demo_name_def)
  have "\<not> name_eq83 ?n (dir_entry fat_demo 2 0)"
    using name_eq_new [OF demo_name_ok n(1,2) fat_demo_prefix] by (simp add: demo_name_def)
  then have v: "named ?n (dir_entry fat_demo 2 0) = Skip" "unused (dir_entry fat_demo 2 0) = Skip"
    by (simp_all add: named_def unused_def fat_demo_entry demo_entry_def demo_name_def)
  have w: "named ?n (dir_entry fat_demo 2 1) = Halt" "unused (dir_entry fat_demo 2 1) = Take"
    by (simp_all only: named_def unused_def fat_demo_entry) simp_all
  have "first_taken fat_demo (named ?n) (dir_slots fat_demo [2]) = None"
    "first_taken fat_demo unused (dir_slots fat_demo [2]) = Some (2, 1)"
    unfolding z first_taken.simps v w by simp_all
  from fat32_create_find [OF fat_demo_ok fat_demo_dir(1) _ n this, of "\<lambda>_. 0"] show ?thesis by auto
qed

end
