(* ===== verification/Vmm.thy ===== *)
theory Vmm
  imports Heap ProcTable Vfs Fat
begin

text \<open>
  kernel/vmm.c and the memory system calls of kernel/syscall.c: page tables, areas of virtual
  memory, the page-fault handler, copying an address space.  Physical memory is a function from
  the addresses of aligned 64-bit words to words; it holds page tables and the pages of
  processes alike, and the kernel reaches it by an identity mapping.  Pages come from the model of
  kernel/pmm.c, which sits inside the heap; the links of its free lists are the first eight bytes of the
  free pages themselves, so every list operation reads and writes physical memory (\<open>pmm_of\<close>, \<open>set_pmm\<close>).
  Killing a process when memory has run out is a parameter \<open>oom\<close> that frees pages; what it does to the
  process table is \<open>vmm_oom_kill\<close> at the end.  Physical addresses are natural numbers, virtual
  addresses and page-table entries words.  Tables of areas live on the heap and are kept apart, by
  their address.  The translation buffer of the processor is not part of the model.
\<close>

type_synonym mem64 = "nat \<Rightarrow> u64"

definition PTE_PRESENT :: u64 where "PTE_PRESENT = 1"
definition PTE_WRITE :: u64 where "PTE_WRITE = 2"
definition PTE_USER :: u64 where "PTE_USER = 4"
definition PTE_HUGE :: u64 where "PTE_HUGE = 0x80"
definition PTE_PHYS_MASK :: u64 where "PTE_PHYS_MASK = 0x000FFFFFFFFFF000"

lemmas pte_consts = PTE_PRESENT_def PTE_WRITE_def PTE_USER_def PTE_HUGE_def PTE_PHYS_MASK_def

definition VMA_MAX :: nat where "VMA_MAX = 32"
definition VMA_READ :: u32 where "VMA_READ = 1"
definition VMA_WRITE :: u32 where "VMA_WRITE = 2"
definition VMA_EXEC :: u32 where "VMA_EXEC = 4"
definition VMA_ANON :: u32 where "VMA_ANON = 8"
definition VMA_FILE :: u32 where "VMA_FILE = 32"

record vma =
  va_start :: u64
  va_end :: u64
  va_flags :: u32
  va_fd :: int
  va_off :: u64

definition vma_zero :: vma where
  "vma_zero = \<lparr>va_start = 0, va_end = 0, va_flags = 0, va_fd = 0, va_off = 0\<rparr>"

record vm =
  vm_heap :: heap
  vm_mem :: mem64
  vm_kernel_cr3 :: nat
  vm_procs :: proc_table
  vm_vmas :: "nat \<Rightarrow> nat \<Rightarrow> vma"
  vm_bump :: u64

section \<open>Words and pages\<close>

text \<open>
  The links of the page with index \<open>i\<close> are the word at its address: \<open>prev\<close> the low half, \<open>next\<close> the high
  half.  The allocator is given the links found in memory, and those it leaves are stored there; what its record in the
  heap says of the links is never read.
\<close>

definition mem_node :: "u64 \<Rightarrow> buddy_node" where
  "mem_node w = \<lparr>bn_prev = unat w mod 2 ^ 32, bn_next = unat w div 2 ^ 32\<rparr>"

definition node_word :: "buddy_node \<Rightarrow> u64" where
  "node_word n = of_nat (bn_prev n mod 2 ^ 32 + 2 ^ 32 * bn_next n)"

definition store_nodes :: "(nat \<Rightarrow> buddy_node) \<Rightarrow> mem64 \<Rightarrow> mem64" where
  "store_nodes nd m = (\<lambda>a. if RAM_START \<le> a \<and> (a - RAM_START) mod PAGE_SIZE = 0 then node_word (nd (phys_to_idx a)) else m a)"

definition pmm_of :: "vm \<Rightarrow> pmm" where
  "pmm_of s = (h_pmm (vm_heap s))\<lparr>nodes := (\<lambda>i. mem_node (vm_mem s (idx_to_phys i)))\<rparr>"

definition set_pmm :: "pmm \<Rightarrow> vm \<Rightarrow> vm" where
  "set_pmm p s = s\<lparr>vm_heap := (vm_heap s)\<lparr>h_pmm := p\<rparr>, vm_mem := store_nodes (nodes p) (vm_mem s)\<rparr>"

text \<open>The heap takes its pages from the same allocator.\<close>

definition heap_of :: "vm \<Rightarrow> heap" where
  "heap_of s = (vm_heap s)\<lparr>h_pmm := pmm_of s\<rparr>"

definition set_heap :: "heap \<Rightarrow> vm \<Rightarrow> vm" where
  "set_heap h s = set_pmm (h_pmm h) (s\<lparr>vm_heap := h\<rparr>)"

definition set_word :: "nat \<Rightarrow> u64 \<Rightarrow> vm \<Rightarrow> vm" where
  "set_word a w s = s\<lparr>vm_mem := (vm_mem s)(a := w)\<rparr>"

definition fill_page :: "nat \<Rightarrow> (nat \<Rightarrow> u64) \<Rightarrow> vm \<Rightarrow> vm" where
  "fill_page p f s = s\<lparr>vm_mem := (\<lambda>a. if p \<le> a \<and> a < p + PAGE_SIZE then f (a - p) else vm_mem s a)\<rparr>"

definition zero_page :: "nat \<Rightarrow> vm \<Rightarrow> vm" where
  "zero_page p s = fill_page p (\<lambda>_. 0) s"

definition copy_page :: "nat \<Rightarrow> nat \<Rightarrow> vm \<Rightarrow> vm" where
  "copy_page dst src s = fill_page dst (\<lambda>o'. vm_mem s (src + o')) s"

text \<open>Bytes written over words, least significant byte first.\<close>

definition write_bytes :: "nat \<Rightarrow> u8 list \<Rightarrow> vm \<Rightarrow> vm" where
  "write_bytes p bs s = s\<lparr>vm_mem := (\<lambda>a.
     if a mod 8 \<noteq> 0 \<or> a + 8 \<le> p \<or> p + length bs \<le> a then vm_mem s a
     else of_nat (le_value (map (\<lambda>j. if p \<le> a + j \<and> a + j < p + length bs then bs ! (a + j - p)
                                    else of_nat (unat (vm_mem s a) div 256 ^ j)) [0..<8])))\<rparr>"

text \<open>\<open>pmm_alloc\<close> also clears the page.\<close>

definition page_alloc :: "(pmm \<Rightarrow> pmm) \<Rightarrow> vm \<Rightarrow> nat \<times> vm" where
  "page_alloc oom s =
     (case pmm_alloc oom (pmm_of s) of
        (p, pm) \<Rightarrow> (p, if p = 0 then set_pmm pm s else zero_page p (set_pmm pm s)))"

definition entry_phys :: "u64 \<Rightarrow> nat" where
  "entry_phys e = unat (e AND PTE_PHYS_MASK)"

definition is_present :: "u64 \<Rightarrow> bool" where
  "is_present e \<longleftrightarrow> e AND PTE_PRESENT \<noteq> 0"

definition is_huge :: "u64 \<Rightarrow> bool" where
  "is_huge e \<longleftrightarrow> e AND PTE_HUGE \<noteq> 0"

definition is_user :: "u64 \<Rightarrow> bool" where
  "is_user e \<longleftrightarrow> e AND PTE_USER \<noteq> 0"

definition table_flags :: u64 where
  "table_flags = (PTE_PRESENT OR PTE_WRITE) OR PTE_USER"

definition page_floor :: "u64 \<Rightarrow> u64" where
  "page_floor v = v AND NOT (of_nat PAGE_SIZE - 1)"

section \<open>The page-table walker\<close>

text \<open>The index of a virtual address in the table whose entries cover \<open>2 ^ k\<close> bytes each.\<close>

definition table_ix :: "nat \<Rightarrow> u64 \<Rightarrow> nat" where
  "table_ix k v = unat (drop_bit k v AND 0x1FF)"

definition slot_of :: "nat \<Rightarrow> nat \<Rightarrow> u64 \<Rightarrow> nat" where
  "slot_of t k v = t + 8 * table_ix k v"

text \<open>The table the entry at address \<open>a\<close> points to, made when it is missing and \<open>alloc\<close> is set.\<close>

definition next_table :: "(pmm \<Rightarrow> pmm) \<Rightarrow> bool \<Rightarrow> nat \<Rightarrow> vm \<Rightarrow> nat option \<times> vm" where
  "next_table oom alloc a s =
     (if is_present (vm_mem s a) then (Some (entry_phys (vm_mem s a)), s)
      else if \<not> alloc then (None, s)
      else case page_alloc oom s of
        (p, s1) \<Rightarrow>
          if p = 0 then (None, s1)
          else (let s2 = set_word a (of_nat p OR table_flags) (zero_page p s1)
                in (Some (entry_phys (vm_mem s2 a)), s2)))"

text \<open>A 2 MB page is replaced by a table of 512 entries.\<close>

definition split_huge :: "(pmm \<Rightarrow> pmm) \<Rightarrow> nat \<Rightarrow> vm \<Rightarrow> nat option \<times> vm" where
  "split_huge oom a s =
     (let e = vm_mem s a;
          huge_phys = e AND NOT (2 * 1024 * 1024 - 1);
          huge_flags = (e AND 0xFFF) AND NOT PTE_HUGE
      in case page_alloc oom s of
           (pt, s1) \<Rightarrow>
             if pt = 0 then (None, s1)
             else (Some pt, set_word a (of_nat pt OR table_flags)
                     (fill_page pt (\<lambda>o'. (huge_phys + of_nat (o' div 8) * of_nat PAGE_SIZE) OR huge_flags) s1)))"

definition pte_get :: "(pmm \<Rightarrow> pmm) \<Rightarrow> nat \<Rightarrow> u64 \<Rightarrow> bool \<Rightarrow> vm \<Rightarrow> nat option \<times> vm" where
  "pte_get oom cr3 virt alloc s =
     (case next_table oom alloc (slot_of cr3 39 virt) s of
        (None, s1) \<Rightarrow> (None, s1)
      | (Some pdpt, s1) \<Rightarrow>
          (case next_table oom alloc (slot_of pdpt 30 virt) s1 of
             (None, s2) \<Rightarrow> (None, s2)
           | (Some pd, s2) \<Rightarrow>
               (case (if is_huge (vm_mem s2 (slot_of pd 21 virt))
                      then if alloc then split_huge oom (slot_of pd 21 virt) s2 else (None, s2)
                      else next_table oom alloc (slot_of pd 21 virt) s2) of
                  (None, s3) \<Rightarrow> (None, s3)
                | (Some pt, s3) \<Rightarrow> (Some (slot_of pt 12 virt), s3))))"

text \<open>Without \<open>alloc\<close> the walk changes nothing and allocates nothing.\<close>

definition pte_find :: "nat \<Rightarrow> u64 \<Rightarrow> vm \<Rightarrow> nat option" where
  "pte_find cr3 virt s = fst (pte_get id cr3 virt False s)"

definition vmm_create_space :: "(pmm \<Rightarrow> pmm) \<Rightarrow> vm \<Rightarrow> nat \<times> vm" where
  "vmm_create_space oom s =
     (case page_alloc oom s of (p, s1) \<Rightarrow> (p, if p = 0 then s1 else zero_page p s1))"

definition vmm_map :: "(pmm \<Rightarrow> pmm) \<Rightarrow> nat \<Rightarrow> u64 \<Rightarrow> u64 \<Rightarrow> u64 \<Rightarrow> vm \<Rightarrow> vm" where
  "vmm_map oom cr3 virt phys flags s =
     (case pte_get oom cr3 virt True s of
        (None, s1) \<Rightarrow> s1
      | (Some a, s1) \<Rightarrow> set_word a (((phys AND PTE_PHYS_MASK) OR flags) OR PTE_PRESENT) s1)"

definition vmm_unmap :: "nat \<Rightarrow> u64 \<Rightarrow> vm \<Rightarrow> vm" where
  "vmm_unmap cr3 virt s = (case pte_find cr3 virt s of None \<Rightarrow> s | Some a \<Rightarrow> set_word a 0 s)"

definition vmm_virt_to_phys :: "nat \<Rightarrow> u64 \<Rightarrow> vm \<Rightarrow> u64" where
  "vmm_virt_to_phys cr3 virt s =
     (case pte_find cr3 virt s of
        None \<Rightarrow> 0
      | Some a \<Rightarrow> if \<not> is_present (vm_mem s a) then 0
                 else (vm_mem s a AND PTE_PHYS_MASK) OR (virt AND (of_nat PAGE_SIZE - 1)))"

section \<open>The kernel part of an address space\<close>

text \<open>One entry of the kernel's second-level table: a private copy of the directory below it.\<close>

definition map_kernel_entry :: "(pmm \<Rightarrow> pmm) \<Rightarrow> nat \<Rightarrow> nat \<Rightarrow> nat \<Rightarrow> vm \<Rightarrow> vm" where
  "map_kernel_entry oom new_pdpt kern_pdpt i3 s =
     (let e = vm_mem s (kern_pdpt + 8 * i3)
      in if \<not> is_present e then s
         else if is_huge e then set_word (new_pdpt + 8 * i3) e s
         else case page_alloc oom s of
           (p, s1) \<Rightarrow>
             if p = 0 then s1
             else (let s2 = copy_page p (entry_phys e) s1
                   in set_word (new_pdpt + 8 * i3)
                        ((of_nat p OR (vm_mem s2 (kern_pdpt + 8 * i3) AND NOT PTE_PHYS_MASK)) OR PTE_USER) s2))"

definition vmm_map_kernel :: "(pmm \<Rightarrow> pmm) \<Rightarrow> nat \<Rightarrow> vm \<Rightarrow> vm" where
  "vmm_map_kernel oom cr3 s =
     (let k = vm_kernel_cr3 s
      in if \<not> is_present (vm_mem s k) then s
         else case page_alloc oom s of
           (p, s1) \<Rightarrow>
             if p = 0 then s1
             else (let s2 = zero_page p s1;
                       kern_pdpt = entry_phys (vm_mem s2 k);
                       s3 = fold (map_kernel_entry oom p kern_pdpt) [0..<512] s2
                   in set_word cr3 ((of_nat p OR (vm_mem s3 k AND NOT PTE_PHYS_MASK)) OR PTE_USER) s3))"

section \<open>Destroying an address space\<close>

definition unref_page :: "nat \<Rightarrow> vm \<Rightarrow> vm" where
  "unref_page p s = set_pmm (snd (pmm_unref (pmm_of s) p)) s"

definition free_page :: "nat \<Rightarrow> vm \<Rightarrow> vm" where
  "free_page p s = set_pmm (pmm_free (pmm_of s) p) s"

definition destroy_pt :: "nat \<Rightarrow> vm \<Rightarrow> vm" where
  "destroy_pt pt = fold (\<lambda>i1 s. let e = vm_mem s (pt + 8 * i1)
     in if is_present e \<and> is_user e then unref_page (entry_phys e) s else s) [0..<512]"

definition destroy_pd :: "nat \<Rightarrow> vm \<Rightarrow> vm" where
  "destroy_pd pd = fold (\<lambda>i2 s. let e = vm_mem s (pd + 8 * i2)
     in if \<not> is_present e \<or> is_huge e then s
        else free_page (entry_phys e) (destroy_pt (entry_phys e) s)) [0..<512]"

definition destroy_pdpt :: "nat \<Rightarrow> vm \<Rightarrow> vm" where
  "destroy_pdpt pdpt = fold (\<lambda>i3 s. let e = vm_mem s (pdpt + 8 * i3)
     in if \<not> is_present e \<or> is_huge e then s
        else free_page (entry_phys e) (destroy_pd (entry_phys e) s)) [0..<512]"

definition vmm_destroy :: "nat \<Rightarrow> vm \<Rightarrow> vm" where
  "vmm_destroy cr3 s = free_page cr3 (fold (\<lambda>i4 s. let e = vm_mem s (cr3 + 8 * i4)
     in if \<not> is_present e then s
        else free_page (entry_phys e) (destroy_pdpt (entry_phys e) s)) [0..<512] s)"

section \<open>Areas of virtual memory\<close>

definition set_vma :: "nat \<Rightarrow> nat \<Rightarrow> vma \<Rightarrow> vm \<Rightarrow> vm" where
  "set_vma t i a s = s\<lparr>vm_vmas := (vm_vmas s)(t := (vm_vmas s t)(i := a))\<rparr>"

definition vmm_vma_alloc :: "(pmm \<Rightarrow> pmm) \<Rightarrow> vm \<Rightarrow> nat \<times> vm" where
  "vmm_vma_alloc oom s =
     (case heap_malloc oom (heap_of s) (VMA_MAX * 40) of
        (t, h) \<Rightarrow> (t, if t = 0 then set_heap h s
                      else (set_heap h s)\<lparr>vm_vmas := (vm_vmas s)(t := (\<lambda>_. vma_zero))\<rparr>))"

definition vmm_vma_free :: "nat \<Rightarrow> vm \<Rightarrow> vm" where
  "vmm_vma_free t s = set_heap (heap_free (heap_of s) t) s"

definition vma_slot_free :: "vma \<Rightarrow> bool" where
  "vma_slot_free a \<longleftrightarrow> va_start a = va_end a"

definition vmm_vma_add :: "nat \<Rightarrow> u64 \<Rightarrow> u64 \<Rightarrow> u32 \<Rightarrow> vm \<Rightarrow> int \<times> vm" where
  "vmm_vma_add t start end' flags s =
     (case first_idx (\<lambda>i. vma_slot_free (vm_vmas s t i)) 0 VMA_MAX of
        None \<Rightarrow> (-1, s)
      | Some i \<Rightarrow> (0, set_vma t i \<lparr>va_start = start, va_end = end', va_flags = flags, va_fd = -1, va_off = 0\<rparr> s))"

definition vma_overlaps :: "vma \<Rightarrow> u64 \<Rightarrow> u64 \<Rightarrow> bool" where
  "vma_overlaps a addr end' \<longleftrightarrow> va_start a < va_end a \<and> \<not> (va_end a \<le> addr \<or> va_start a \<ge> end')"

definition vmm_vma_remove :: "nat \<Rightarrow> u64 \<Rightarrow> u64 \<Rightarrow> vm \<Rightarrow> vm" where
  "vmm_vma_remove t addr len s =
     s\<lparr>vm_vmas := (vm_vmas s)(t := (\<lambda>i. if i < VMA_MAX \<and> vma_overlaps (vm_vmas s t i) addr (addr + len)
        then (vm_vmas s t i)\<lparr>va_start := 0, va_end := 0\<rparr> else vm_vmas s t i))\<rparr>"

definition vma_covers :: "vma \<Rightarrow> u64 \<Rightarrow> bool" where
  "vma_covers a addr \<longleftrightarrow> va_start a < va_end a \<and> va_start a \<le> addr \<and> addr < va_end a"

definition vmm_find_vma :: "nat \<Rightarrow> u64 \<Rightarrow> vm \<Rightarrow> vma option" where
  "vmm_find_vma t addr s =
     map_option (vm_vmas s t) (first_idx (\<lambda>i. vma_covers (vm_vmas s t i) addr) 0 VMA_MAX)"

section \<open>Page faults\<close>

text \<open>
  Reading a page of a file into memory.  The open file is looked up by the same number in two tables:
  that of the FAT32 driver (\<open>files\<close>, whose slot gives size and position) and, for seeking and reading,
  that of the virtual file system.
\<close>

definition fill_from_file ::
    "('d \<Rightarrow> nat \<Rightarrow> fat_fd) \<Rightarrow> (nat \<Rightarrow> fat_fd \<Rightarrow> 'd \<Rightarrow> 'd) \<Rightarrow> (nat \<Rightarrow> 'd inode_ops) \<Rightarrow>
     vma \<Rightarrow> u64 \<Rightarrow> nat \<Rightarrow> vm \<times> 'd vfs \<Rightarrow> vm \<times> 'd vfs" where
  "fill_from_file files set_file ops a page phys sf =
     (case sf of (s, fs) \<Rightarrow>
       let off = unat (va_off a + (page - va_start a) div of_nat PAGE_SIZE * of_nat PAGE_SIZE);
           fd = nat (va_fd a);
           f = files (vs_dev fs) fd
       in if ff_in_use f \<and> off < ff_size f
          then (let fs1 = snd (vfs_seek ops fd (int off) 0 fs);
                    n = (if off + PAGE_SIZE > ff_size f then ff_size f - off else PAGE_SIZE)
                in case vfs_read ops fd n fs1 of
                     (r, bs, fs2) \<Rightarrow>
                       (write_bytes phys bs s,
                        fs2\<lparr>vs_dev := set_file fd ((files (vs_dev fs2) fd)\<lparr>ff_pos := ff_pos f\<rparr>) (vs_dev fs2)\<rparr>))
          else (s, fs))"

definition cow_fault :: "(pmm \<Rightarrow> pmm) \<Rightarrow> nat \<Rightarrow> u64 \<Rightarrow> vm \<Rightarrow> bool \<times> vm" where
  "cow_fault oom cr3 page s =
     (case pte_find cr3 page s of
        None \<Rightarrow> (False, s)
      | Some a \<Rightarrow>
          (if \<not> is_present (vm_mem s a) then (False, s)
           else let old = entry_phys (vm_mem s a)
                in if pmm_refcount (pmm_of s) old \<le> 1 then (True, set_word a (vm_mem s a OR PTE_WRITE) s)
                   else case page_alloc oom s of
                     (p, s1) \<Rightarrow>
                       if p = 0 then (False, s1)
                       else (True, set_word a ((of_nat p AND PTE_PHYS_MASK) OR table_flags)
                               (unref_page old (copy_page p old s1)))))"

definition vmm_page_fault ::
    "(pmm \<Rightarrow> pmm) \<Rightarrow> ('d \<Rightarrow> nat \<Rightarrow> fat_fd) \<Rightarrow> (nat \<Rightarrow> fat_fd \<Rightarrow> 'd \<Rightarrow> 'd) \<Rightarrow> (nat \<Rightarrow> 'd inode_ops) \<Rightarrow>
     u64 \<Rightarrow> u64 \<Rightarrow> vm \<times> 'd vfs \<Rightarrow> bool \<times> vm \<times> 'd vfs" where
  "vmm_page_fault oom files set_file ops addr err sf =
     (case sf of (s, fs) \<Rightarrow>
       (case process_current_pcb (vm_procs s) of
          None \<Rightarrow> (False, s, fs)
        | Some i \<Rightarrow>
            (let cr3 = pcb_cr3 (vm_procs s i); t = pcb_vma_table (vm_procs s i);
                 page = page_floor addr; is_write = (err AND 2 \<noteq> 0); is_prot = (err AND 1 \<noteq> 0)
             in if t = 0 then (False, s, fs)
                else if is_prot \<and> is_write then (case cow_fault oom cr3 page s of (r, s1) \<Rightarrow> (r, s1, fs))
                else if is_prot then (False, s, fs)
                else (case vmm_find_vma t addr s of
                  None \<Rightarrow> (False, s, fs)
                | Some a \<Rightarrow>
                    (case page_alloc oom s of
                       (p, s1) \<Rightarrow>
                         if p = 0 then (False, s1, fs)
                         else (let s2 = zero_page p s1;
                                   (s3, fs3) = (if va_flags a AND VMA_FILE \<noteq> 0 \<and> va_fd a \<ge> 0
                                                then fill_from_file files set_file ops a page p (s2, fs) else (s2, fs));
                                   flags = (if va_flags a AND VMA_WRITE \<noteq> 0 then (PTE_PRESENT OR PTE_USER) OR PTE_WRITE
                                            else PTE_PRESENT OR PTE_USER)
                               in (True, vmm_map oom cr3 page (of_nat p) flags s3, fs3)))))))"

section \<open>Copying an address space\<close>

text \<open>One entry of a page table of the parent: kernel entries are shared, user pages copied.\<close>

definition fork_pt :: "(pmm \<Rightarrow> pmm) \<Rightarrow> nat \<Rightarrow> nat \<Rightarrow> vm \<Rightarrow> vm" where
  "fork_pt oom ppt cpt = fold (\<lambda>i1 s. let e = vm_mem s (ppt + 8 * i1)
     in if \<not> is_present e then s
        else if \<not> is_user e then set_word (cpt + 8 * i1) e s
        else case page_alloc oom s of
          (p, s1) \<Rightarrow>
            if p = 0 then s1
            else (let s2 = copy_page p (entry_phys e) s1
                  in set_word (cpt + 8 * i1) (of_nat p OR (vm_mem s2 (ppt + 8 * i1) AND NOT PTE_PHYS_MASK)) s2)) [0..<512]"

text \<open>
  The table below the entry at \<open>ca\<close> of the child: the one that is there if \<open>reuse\<close> holds, otherwise a
  fresh one with the flags of the parent's entry at \<open>pa\<close>.
\<close>

definition child_table :: "(pmm \<Rightarrow> pmm) \<Rightarrow> bool \<Rightarrow> nat \<Rightarrow> nat \<Rightarrow> vm \<Rightarrow> nat option \<times> vm" where
  "child_table oom reuse pa ca s =
     (if reuse \<and> is_present (vm_mem s ca) then (Some (entry_phys (vm_mem s ca)), s)
      else case page_alloc oom s of
        (p, s1) \<Rightarrow>
          if p = 0 then (None, s1)
          else (let s2 = zero_page p s1
                in (Some p, set_word ca (of_nat p OR (vm_mem s2 pa AND NOT PTE_PHYS_MASK)) s2)))"

definition fork_pd :: "(pmm \<Rightarrow> pmm) \<Rightarrow> nat \<Rightarrow> nat \<Rightarrow> vm \<Rightarrow> vm" where
  "fork_pd oom ppd cpd = fold (\<lambda>i2 s. let e = vm_mem s (ppd + 8 * i2); c = vm_mem s (cpd + 8 * i2)
     in if \<not> is_present e then s
        else if is_huge e then (if \<not> is_present c then set_word (cpd + 8 * i2) e s else s)
        else case child_table oom True (ppd + 8 * i2) (cpd + 8 * i2) s of
          (None, s1) \<Rightarrow> s1
        | (Some cpt, s1) \<Rightarrow> fork_pt oom (entry_phys e) cpt s1) [0..<512]"

definition fork_pdpt :: "(pmm \<Rightarrow> pmm) \<Rightarrow> bool \<Rightarrow> nat \<Rightarrow> nat \<Rightarrow> vm \<Rightarrow> vm" where
  "fork_pdpt oom first ppdpt cpdpt = fold (\<lambda>i3 s. let e = vm_mem s (ppdpt + 8 * i3)
     in if \<not> is_present e \<or> is_huge e then s
        else case child_table oom first (ppdpt + 8 * i3) (cpdpt + 8 * i3) s of
          (None, s1) \<Rightarrow> s1
        | (Some cpd, s1) \<Rightarrow> fork_pd oom (entry_phys e) cpd s1) [0..<512]"

definition vmm_cow_fork :: "(pmm \<Rightarrow> pmm) \<Rightarrow> nat \<Rightarrow> nat \<Rightarrow> vm \<Rightarrow> vm" where
  "vmm_cow_fork oom parent child s =
     fold (\<lambda>i4 s. let e = vm_mem s (parent + 8 * i4)
       in if \<not> is_present e then s
          else case child_table oom (i4 = 0) (parent + 8 * i4) (child + 8 * i4) s of
            (None, s1) \<Rightarrow> s1
          | (Some cpdpt, s1) \<Rightarrow> fork_pdpt oom (i4 = 0) (entry_phys e) cpdpt s1) [0..<512] (vmm_map_kernel oom child s)"

section \<open>Running out of memory\<close>

text \<open>The number of present user pages of an address space, its first 512 GB apart; a 32-bit counter.\<close>

definition user_pages :: "nat \<Rightarrow> vm \<Rightarrow> nat" where
  "user_pages pt s = length (filter (\<lambda>i1. is_present (vm_mem s (pt + 8 * i1)) \<and> is_user (vm_mem s (pt + 8 * i1))) [0..<512])"

definition tables_below :: "nat \<Rightarrow> nat list \<Rightarrow> bool \<Rightarrow> vm \<Rightarrow> nat list" where
  "tables_below t is leafy s = map (\<lambda>i. entry_phys (vm_mem s (t + 8 * i)))
     (filter (\<lambda>i. is_present (vm_mem s (t + 8 * i)) \<and> (leafy \<longrightarrow> \<not> is_huge (vm_mem s (t + 8 * i)))) is)"

definition rss :: "nat \<Rightarrow> vm \<Rightarrow> nat" where
  "rss cr3 s = (\<Sum>pdpt \<leftarrow> tables_below cr3 [1..<512] False s. \<Sum>pd \<leftarrow> tables_below pdpt [0..<512] True s.
     \<Sum>pt \<leftarrow> tables_below pd [0..<512] True s. user_pages pt s) mod 2 ^ 32"

text \<open>The largest process, or a kernel that stops for ever.\<close>

definition oom_victim :: "vm \<Rightarrow> nat option" where
  "oom_victim s = fst (fold (\<lambda>i (v, m).
     if pcb_state (vm_procs s i) = PSTATE_EMPTY \<or> pcb_state (vm_procs s i) = PSTATE_DEAD then (v, m)
     else if rss (pcb_cr3 (vm_procs s i)) s > m then (Some i, rss (pcb_cr3 (vm_procs s i)) s) else (v, m))
     [0..<PROC_MAX] (None, 0))"

definition vmm_oom_kill :: "vm \<Rightarrow> vm option" where
  "vmm_oom_kill s = map_option (\<lambda>i. let s1 = vmm_destroy (pcb_cr3 (vm_procs s i)) s
     in s1\<lparr>vm_procs := set_pstate i PSTATE_DEAD (vm_procs s1)\<rparr>) (oom_victim s)"

end
