(* ===== verification/Process.thy ===== *)
theory Process
  imports Vmm
begin

text \<open>
  The life of a process and of its memory: the memory system calls of kernel/syscall.c,
  \<open>process_create\<close> and \<open>process_destroy\<close> (kernel/process.c), the program loader (kernel/elf.c) and
  \<open>sys_fork\<close> (kernel/fork_exec.c).  A process is an index into the process table; the switch to it,
  which is assembly, is only the change of its state.
\<close>

section \<open>Memory system calls\<close>

definition BRK_BASE :: u64 where "BRK_BASE = 0x1000000"
definition BRK_MAX :: u64 where "BRK_MAX = 0x4000000"
definition MMAP_BASE :: u64 where "MMAP_BASE = 0x2000000"
definition MAP_ANONYMOUS :: u64 where "MAP_ANONYMOUS = 0x20"
definition MAP_FIXED :: u64 where "MAP_FIXED = 0x10"

definition page_up :: "u64 \<Rightarrow> u64" where
  "page_up n = page_floor (n + of_nat PAGE_SIZE - 1)"

definition prot_flags :: "u64 \<Rightarrow> u32" where
  "prot_flags prot = ((if prot AND 1 \<noteq> 0 then VMA_READ else 0) OR (if prot AND 2 \<noteq> 0 then VMA_WRITE else 0)) OR
     (if prot AND 4 \<noteq> 0 then VMA_EXEC else 0)"

text \<open>\<open>files\<close> is the table of open files of the FAT32 driver; a failure is a negative code as a pointer.\<close>

definition sys_mmap :: "(nat \<Rightarrow> fat_fd) \<Rightarrow> u64 \<Rightarrow> u64 \<Rightarrow> u64 \<Rightarrow> u64 \<Rightarrow> u64 \<Rightarrow> u64 \<Rightarrow> vm \<Rightarrow> u64 \<times> vm" where
  "sys_mmap files addr len0 prot flags fd off s =
     (let anon = (flags AND MAP_ANONYMOUS \<noteq> 0 \<or> sint fd < 0);
          len = page_up len0;
          virt = (if addr \<noteq> 0 \<and> flags AND MAP_FIXED \<noteq> 0 then page_floor addr else vm_bump s)
      in if \<not> anon \<and> (unat fd \<ge> MAX_FILES \<or> \<not> ff_in_use (files (unat fd))) then (of_int EBADF, s)
         else if len = 0 then (of_int ENOMEM, s)
         else case process_current_pcb (vm_procs s) of
           None \<Rightarrow> (of_int ENOMEM, s)
         | Some i \<Rightarrow>
             (let t = pcb_vma_table (vm_procs s i);
                  s1 = (if t = 0 then s
                        else case first_idx (\<lambda>i. vma_slot_free (vm_vmas s t i)) 0 VMA_MAX of
                          None \<Rightarrow> s
                        | Some j \<Rightarrow> set_vma t j \<lparr>va_start = virt, va_end = virt + len,
                            va_flags = (if anon then VMA_ANON else VMA_FILE) OR prot_flags prot,
                            va_fd = (if anon then -1 else sint fd), va_off = (if anon then 0 else off)\<rparr> s)
              in (virt, if flags AND MAP_FIXED = 0 then s1\<lparr>vm_bump := vm_bump s1 + len\<rparr> else s1)))"

text \<open>The loop over the pages from \<open>va\<close> up to \<open>end\<close>; the addition may wrap, so it is bounded by \<open>end - va\<close>.\<close>

definition protect_page :: "nat \<Rightarrow> u64 \<Rightarrow> u64 \<Rightarrow> vm \<Rightarrow> vm" where
  "protect_page cr3 prot va s =
     (case pte_find cr3 va s of
        None \<Rightarrow> s
      | Some a \<Rightarrow> if \<not> is_present (vm_mem s a) then s
                 else set_word a ((vm_mem s a AND PTE_PHYS_MASK) OR
                   (if prot AND 2 \<noteq> 0 then (PTE_PRESENT OR PTE_USER) OR PTE_WRITE else PTE_PRESENT OR PTE_USER)) s)"

partial_function (option) protect_loop :: "nat \<Rightarrow> u64 \<Rightarrow> u64 \<Rightarrow> u64 \<Rightarrow> vm \<Rightarrow> vm option" where
  "protect_loop cr3 prot va end' s =
     (if va < end' then protect_loop cr3 prot (va + of_nat PAGE_SIZE) end' (protect_page cr3 prot va s) else Some s)"

definition reprotect :: "u64 \<Rightarrow> vma \<Rightarrow> vma" where
  "reprotect prot a = a\<lparr>va_flags := (va_flags a AND NOT ((VMA_READ OR VMA_WRITE) OR VMA_EXEC)) OR prot_flags prot\<rparr>"

definition sys_mprotect :: "u64 \<Rightarrow> u64 \<Rightarrow> u64 \<Rightarrow> vm \<Rightarrow> (int \<times> vm) option" where
  "sys_mprotect addr len0 prot s =
     (let len = page_up len0
      in if addr AND (of_nat PAGE_SIZE - 1) \<noteq> 0 then Some (EINVAL, s)
         else if len = 0 then Some (0, s)
         else case process_current_pcb (vm_procs s) of
           None \<Rightarrow> Some (EINVAL, s)
         | Some i \<Rightarrow>
             (let t = pcb_vma_table (vm_procs s i);
                  s1 = (if t = 0 then s
                        else s\<lparr>vm_vmas := (vm_vmas s)(t := (\<lambda>j. if j < VMA_MAX \<and> vma_overlaps (vm_vmas s t j) addr (addr + len)
                               then reprotect prot (vm_vmas s t j) else vm_vmas s t j))\<rparr>)
              in map_option (Pair 0) (protect_loop (pcb_cr3 (vm_procs s i)) prot addr (addr + len) s1)))"

text \<open>Giving a page back: its frame loses a reference and the entry is cleared.\<close>

definition drop_page :: "nat \<Rightarrow> u64 \<Rightarrow> vm \<Rightarrow> vm" where
  "drop_page cr3 va s =
     (let phys = vmm_virt_to_phys cr3 va s;
          s1 = (if phys \<noteq> 0 then unref_page (unat (page_floor phys)) s else s)
      in vmm_unmap cr3 va s1)"

fun drop_pages :: "nat \<Rightarrow> u64 \<Rightarrow> nat \<Rightarrow> vm \<Rightarrow> vm" where
  "drop_pages cr3 va 0 s = s"
| "drop_pages cr3 va (Suc n) s = drop_pages cr3 (va + of_nat PAGE_SIZE) n (drop_page cr3 va s)"

definition sys_munmap :: "u64 \<Rightarrow> u64 \<Rightarrow> vm \<Rightarrow> int \<times> vm" where
  "sys_munmap addr len0 s =
     (let len = page_up len0
      in case process_current_pcb (vm_procs s) of
           None \<Rightarrow> (-1, s)
         | Some i \<Rightarrow>
             (let t = pcb_vma_table (vm_procs s i);
                  s1 = (if t = 0 then s else vmm_vma_remove t addr len s)
              in (0, drop_pages (pcb_cr3 (vm_procs s i)) addr (unat len div PAGE_SIZE) s1)))"

text \<open>The shrinking loop of \<open>sys_brk\<close>, over \<open>n\<close> pages downwards from \<open>cur\<close>.\<close>

fun shrink_loop :: "nat \<Rightarrow> u64 \<Rightarrow> nat \<Rightarrow> vm \<Rightarrow> vm" where
  "shrink_loop cr3 cur 0 s = s"
| "shrink_loop cr3 cur (Suc n) s =
     shrink_loop cr3 (cur - of_nat PAGE_SIZE) n (drop_page cr3 (cur - of_nat PAGE_SIZE) s)"

definition set_brk :: "nat \<Rightarrow> u64 \<Rightarrow> vm \<Rightarrow> vm" where
  "set_brk i b s = s\<lparr>vm_procs := (vm_procs s)(i := (vm_procs s i)\<lparr>pcb_brk := b\<rparr>)\<rparr>"

definition sys_brk :: "u64 \<Rightarrow> vm \<Rightarrow> u64 \<times> vm" where
  "sys_brk new_brk s =
     (case process_current_pcb (vm_procs s) of
        None \<Rightarrow> (of_int ENOMEM, s)
      | Some i \<Rightarrow>
          (let b = pcb_brk (vm_procs s i); t = pcb_vma_table (vm_procs s i); old_pg = page_up b; new_pg = page_up new_brk
           in if new_brk = 0 then (b, s)
              else if new_brk < BRK_BASE \<or> new_brk > BRK_MAX then (of_int ENOMEM, s)
              else if new_brk = b then (b, s)
              else if new_brk > b
                then (new_brk, set_brk i new_brk (if t = 0 then s
                       else snd (vmm_vma_add t old_pg new_pg ((VMA_ANON OR VMA_READ) OR VMA_WRITE) s)))
              else (let s1 = shrink_loop (pcb_cr3 (vm_procs s i)) old_pg ((unat old_pg - unat new_pg) div PAGE_SIZE) s
                    in (new_brk, set_brk i new_brk (if t = 0 then s1 else vmm_vma_remove t new_pg (old_pg - new_pg) s1)))))"

section \<open>Creating and destroying processes\<close>

definition PTE_NX :: u64 where "PTE_NX = push_bit 63 1"
definition PROC_KSTACK_SZ :: nat where "PROC_KSTACK_SZ = 4096"
definition PROC_STACK_TOP :: u64 where "PROC_STACK_TOP = 0x700000"

definition process_create :: "(pmm \<Rightarrow> pmm) \<Rightarrow> u64 \<Rightarrow> str \<Rightarrow> vm \<Rightarrow> int \<times> vm" where
  "process_create oom entry name s =
     (case first_idx (\<lambda>i. pcb_state (vm_procs s i) = PSTATE_EMPTY) 0 PROC_MAX of
        None \<Rightarrow> (-1, s)
      | Some i \<Rightarrow>
          (case vmm_create_space oom s of
             (cr3, s1) \<Rightarrow>
               if cr3 = 0 then (-1, s1)
               else (let s2 = vmm_map_kernel oom cr3 s1
                     in case heap_malloc oom (heap_of s2) PROC_KSTACK_SZ of
                          (kbase, h) \<Rightarrow>
                            (let s3 = set_heap h s2
                             in if kbase = 0 then (-1, vmm_destroy cr3 s3)
                                else case vmm_vma_alloc oom s3 of
                                  (t, s4) \<Rightarrow>
                                    (int (i + 1), s4\<lparr>vm_procs := (vm_procs s4)(i :=
                                       \<lparr>pcb_state = PSTATE_EMPTY, pcb_kstack = of_nat (kbase + PROC_KSTACK_SZ),
                                        pcb_ursp = PROC_STACK_TOP, pcb_entry = entry, pcb_pid = i + 1, pcb_cr3 = cr3,
                                        pcb_brk = BRK_BASE, pcb_name = take 15 name, pcb_kbase = kbase,
                                        pcb_vma_table = t\<rparr>)\<rparr>)))))"

definition process_destroy :: "nat \<Rightarrow> vm \<Rightarrow> vm" where
  "process_destroy i s =
     (let s1 = (if pcb_vma_table (vm_procs s i) \<noteq> 0 then vmm_vma_free (pcb_vma_table (vm_procs s i)) s else s);
          s2 = (if pcb_cr3 (vm_procs s i) \<noteq> 0 then vmm_destroy (pcb_cr3 (vm_procs s i)) s1 else s1);
          s3 = (if pcb_kbase (vm_procs s i) \<noteq> 0
                then set_heap (heap_free (heap_of s2) (pcb_kbase (vm_procs s i))) s2 else s2)
      in s3\<lparr>vm_procs := (vm_procs s3)(i := (vm_procs s3 i)\<lparr>pcb_vma_table := 0, pcb_cr3 := 0, pcb_kbase := 0,
            pcb_state := PSTATE_EMPTY\<rparr>)\<rparr>)"


text \<open>Handing the processor over: the first process of that number becomes the running one.\<close>

definition process_run :: "nat \<Rightarrow> vm \<Rightarrow> vm" where
  "process_run pid s =
     (case first_idx (\<lambda>i. pcb_pid (vm_procs s i) = pid) 0 PROC_MAX of
        None \<Rightarrow> s
      | Some i \<Rightarrow> s\<lparr>vm_procs := set_pstate i PSTATE_RUNNING (vm_procs s)\<rparr>)"

section \<open>Allocating memory for a process\<close>

fun back_pages :: "(pmm \<Rightarrow> pmm) \<Rightarrow> nat \<Rightarrow> u64 \<Rightarrow> nat \<Rightarrow> vm \<Rightarrow> bool \<times> vm" where
  "back_pages oom cr3 va 0 s = (True, s)"
| "back_pages oom cr3 va (Suc n) s =
     (if vmm_virt_to_phys cr3 va s \<noteq> 0 then back_pages oom cr3 (va + of_nat PAGE_SIZE) n s
      else case page_alloc oom s of
        (p, s1) \<Rightarrow>
          if p = 0 then (False, s1)
          else back_pages oom cr3 (va + of_nat PAGE_SIZE) n
                 (vmm_map oom cr3 va (of_nat p) (table_flags OR PTE_NX) (zero_page p s1)))"

definition sys_malloc :: "(pmm \<Rightarrow> pmm) \<Rightarrow> u64 \<Rightarrow> vm \<Rightarrow> u64 \<times> vm" where
  "sys_malloc oom n0 s =
     (if n0 = 0 then (0, s)
      else let n = (n0 + 15) AND NOT 15
           in case process_current_pcb (vm_procs s) of
             None \<Rightarrow> (0, s)
           | Some i \<Rightarrow>
               (let s0 = (if pcb_brk (vm_procs s i) < BRK_BASE then set_brk i BRK_BASE s else s);
                    start = pcb_brk (vm_procs s0 i);
                    end' = start + n
                in if end' > BRK_MAX then (0, s0)
                   else case back_pages oom (pcb_cr3 (vm_procs s0 i)) (page_floor start)
                          ((unat (page_up end') - unat (page_floor start)) div PAGE_SIZE) s0 of
                     (ok, s1) \<Rightarrow> if ok then (start, set_brk i end' s1) else (0, s1)))"

section \<open>Loading a program\<close>

text \<open>
  The image is the memory from the start of the buffer on; the loader is given its size but does not
  look at it.
\<close>

definition get_le :: "(u64 \<Rightarrow> u8) \<Rightarrow> u64 \<Rightarrow> nat \<Rightarrow> nat" where
  "get_le d off n = le_value (map (\<lambda>j. d (off + of_nat j)) [0..<n])"

definition ELF_MAGIC :: nat where "ELF_MAGIC = 0x464C457F"

definition elf_verify :: "(u64 \<Rightarrow> u8) \<Rightarrow> int" where
  "elf_verify d =
     (if get_le d 0 4 \<noteq> ELF_MAGIC then -1
      else if d 4 \<noteq> 2 then -1
      else if get_le d 16 2 \<noteq> 2 then -1
      else if get_le d 18 2 \<noteq> 62 then -1
      else 0)"

record elf_phdr =
  ph_type :: nat
  ph_flags :: u32
  ph_offset :: u64
  ph_vaddr :: u64
  ph_filesz :: u64
  ph_memsz :: u64

definition read_phdr :: "(u64 \<Rightarrow> u8) \<Rightarrow> u64 \<Rightarrow> elf_phdr" where
  "read_phdr d a = \<lparr>ph_type = get_le d a 4, ph_flags = of_nat (get_le d (a + 4) 4),
     ph_offset = of_nat (get_le d (a + 8) 8), ph_vaddr = of_nat (get_le d (a + 16) 8),
     ph_filesz = of_nat (get_le d (a + 32) 8), ph_memsz = of_nat (get_le d (a + 40) 8)\<rparr>"

text \<open>
  The bytes of a segment that land in the page at \<open>page\<close>: where in the page they start, and the bytes.  The
  source computes in signed integers.
\<close>

definition seg_bytes :: "(u64 \<Rightarrow> u8) \<Rightarrow> elf_phdr \<Rightarrow> u64 \<Rightarrow> (nat \<times> u8 list) option" where
  "seg_bytes d ph page =
     (let seg_off = sint (page - ph_vaddr ph); filesz = sint (ph_filesz ph)
      in if seg_off < filesz \<and> seg_off + int PAGE_SIZE > 0
         then let copy_start = (if seg_off < 0 then - seg_off else 0);
                  src_start = (if seg_off < 0 then 0 else seg_off);
                  copy_len = min (int PAGE_SIZE - copy_start) (filesz - src_start)
              in if copy_len > 0
                 then Some (nat copy_start,
                        map (\<lambda>j. d (ph_offset ph + of_int src_start + of_nat j)) [0..<nat copy_len])
                 else None
         else None)"

fun load_pages :: "(pmm \<Rightarrow> pmm) \<Rightarrow> (u64 \<Rightarrow> u8) \<Rightarrow> nat \<Rightarrow> elf_phdr \<Rightarrow> u64 \<Rightarrow> nat \<Rightarrow> vm \<Rightarrow> bool \<times> vm" where
  "load_pages oom d cr3 ph va 0 s = (True, s)"
| "load_pages oom d cr3 ph va (Suc n) s =
     (case page_alloc oom s of
        (p, s1) \<Rightarrow>
          if p = 0 then (False, s1)
          else (let s2 = zero_page p s1;
                    s3 = (case seg_bytes d ph va of None \<Rightarrow> s2 | Some (o', bs) \<Rightarrow> write_bytes (p + o') bs s2);
                    flags = (if ph_flags ph AND 2 \<noteq> 0 then ((PTE_PRESENT OR PTE_USER) OR PTE_WRITE) OR PTE_NX
                             else PTE_PRESENT OR PTE_USER)
                in load_pages oom d cr3 ph (va + of_nat PAGE_SIZE) n (vmm_map oom cr3 va (of_nat p) flags s3)))"

definition load_segment :: "(pmm \<Rightarrow> pmm) \<Rightarrow> (u64 \<Rightarrow> u8) \<Rightarrow> nat \<Rightarrow> elf_phdr \<Rightarrow> vm \<Rightarrow> bool \<times> vm" where
  "load_segment oom d cr3 ph s =
     (let vbase = page_floor (ph_vaddr ph); vtop = page_floor (ph_vaddr ph + ph_memsz ph + of_nat PAGE_SIZE - 1)
      in load_pages oom d cr3 ph vbase (unat ((vtop - vbase) div of_nat PAGE_SIZE)) s)"

fun load_segments :: "(pmm \<Rightarrow> pmm) \<Rightarrow> (u64 \<Rightarrow> u8) \<Rightarrow> nat \<Rightarrow> elf_phdr list \<Rightarrow> vm \<Rightarrow> bool \<times> vm" where
  "load_segments oom d cr3 [] s = (True, s)"
| "load_segments oom d cr3 (ph # phs) s =
     (if ph_type ph \<noteq> 1 then load_segments oom d cr3 phs s
      else case load_segment oom d cr3 ph s of
        (ok, s1) \<Rightarrow> if ok then load_segments oom d cr3 phs s1 else (False, s1))"

fun map_stack :: "(pmm \<Rightarrow> pmm) \<Rightarrow> nat \<Rightarrow> nat \<Rightarrow> nat \<Rightarrow> vm \<Rightarrow> bool \<times> vm" where
  "map_stack oom cr3 sp 0 s = (True, s)"
| "map_stack oom cr3 sp (Suc n) s =
     (case page_alloc oom s of
        (p, s1) \<Rightarrow>
          if p = 0 then (False, s1)
          else map_stack oom cr3 (sp + 1) n
                 (vmm_map oom cr3 (PROC_STACK_TOP - of_nat sp * of_nat PAGE_SIZE) (of_nat p) (table_flags OR PTE_NX)
                    (zero_page p s1)))"

definition elf_load :: "(pmm \<Rightarrow> pmm) \<Rightarrow> (u64 \<Rightarrow> u8) \<Rightarrow> str \<Rightarrow> vm \<Rightarrow> int \<times> vm" where
  "elf_load oom d name s =
     (if elf_verify d \<noteq> 0 then (-1, s)
      else case process_create oom (of_nat (get_le d 24 8)) name s of
        (pid, s1) \<Rightarrow>
          (if pid < 0 then (-1, s1)
           else case first_idx (\<lambda>i. pcb_pid (vm_procs s1 i) = nat pid) 0 PROC_MAX of
             None \<Rightarrow> (-1, s1)
           | Some i \<Rightarrow>
               (let cr3 = pcb_cr3 (vm_procs s1 i);
                    phs = map (\<lambda>k. read_phdr d (of_nat (get_le d 32 8) + of_nat k * of_nat (get_le d 54 2)))
                            [0..<get_le d 56 2]
                in case load_segments oom d cr3 phs s1 of
                     (ok, s2) \<Rightarrow>
                       if \<not> ok then (-1, s2)
                       else case map_stack oom cr3 1 32 s2 of
                         (ok', s3) \<Rightarrow> if ok' then (pid, s3) else (-1, s3))))"

section \<open>Forking\<close>

text \<open>The process control block the code takes for that of process number \<open>pid\<close>.\<close>

definition get_pcb :: "nat \<Rightarrow> nat" where
  "get_pcb pid = pid"

definition sys_fork :: "(pmm \<Rightarrow> pmm) \<Rightarrow> vm \<Rightarrow> int \<times> vm" where
  "sys_fork oom s =
     (case process_current_pcb (vm_procs s) of
        None \<Rightarrow> (-1, s)
      | Some parent \<Rightarrow>
          (case process_create oom (pcb_entry (vm_procs s parent)) (pcb_name (vm_procs s parent)) s of
             (pid, s1) \<Rightarrow>
               (if pid < 0 then (-1, s1)
                else let child = get_pcb (nat pid);
                         s2 = vmm_cow_fork oom (pcb_cr3 (vm_procs s1 parent)) (pcb_cr3 (vm_procs s1 child)) s1;
                         p = vm_procs s2 parent;
                         s3 = s2\<lparr>vm_procs := (vm_procs s2)(child := (vm_procs s2 child)\<lparr>pcb_ursp := pcb_ursp p,
                                pcb_entry := pcb_entry p, pcb_brk := pcb_brk p\<rparr>)\<rparr>
                     in (pid, process_run (nat pid) s3))))"

end
