(* ===== verification/VmmSpec.thy ===== *)
theory VmmSpec
  imports Process
begin

text \<open>
  What the page tables mean, and what the operations of Vmm and Process do to that meaning.  An
  address space is abstracted to \<open>transl\<close>, the entry that maps each virtual address; the invariant
  \<open>tables_ok\<close> says that the tables reached from the root form a tree of pages that are not free.
\<close>

section \<open>Words and addresses\<close>

lemma table_ix_less: "table_ix k v < 512"
proof -
  have "drop_bit k v AND 0x1FF = take_bit 9 (drop_bit k v)"
    by (simp add: take_bit_eq_mask mask_eq_exp_minus_1)
  then have "table_ix k v = unat (take_bit 9 (drop_bit k v))" by (simp add: table_ix_def)
  also have "\<dots> = take_bit 9 (unat (drop_bit k v))" by (simp add: unsigned_take_bit_eq)
  finally show ?thesis using take_bit_nat_less_exp [of 9 "unat (drop_bit k v)"] by simp
qed

lemma slot_in_page: "t \<le> slot_of t k v \<and> slot_of t k v < t + 4096"
  using table_ix_less [of k v] by (simp add: slot_of_def)

lemma pages_apart:
  assumes "4096 dvd p" "4096 dvd q" "p \<noteq> q" "p \<le> a" "a < p + 4096"
  shows "\<not> (q \<le> a \<and> a < q + (4096 :: nat))"
proof
  assume "q \<le> a \<and> a < q + 4096"
  obtain i j where "p = 4096 * i" "q = 4096 * j" using assms(1,2) by (auto elim!: dvdE)
  then show False using assms(3-5) \<open>q \<le> a \<and> a < q + 4096\<close> by simp
qed

lemma phys_mask_eq: "PTE_PHYS_MASK = push_bit 12 (mask 40)"
  by (simp add: PTE_PHYS_MASK_def mask_eq_exp_minus_1 push_bit_eq_mult)

lemma bit_phys_mask: "bit PTE_PHYS_MASK n \<longleftrightarrow> 12 \<le> n \<and> n < 52"
  by (auto simp: phys_mask_eq bit_push_bit_iff bit_mask_iff)

lemma of_nat_masked:
  assumes "4096 dvd p" "p < 2 ^ 52"
  shows "(of_nat p :: u64) AND PTE_PHYS_MASK = of_nat p"
proof (rule bit_word_eqI)
  fix n assume n: "n < LENGTH(64)"
  have "bit p n \<Longrightarrow> 12 \<le> n \<and> n < 52"
  proof (intro conjI)
    assume b: "bit p n"
    show "12 \<le> n"
    proof (rule ccontr)
      assume c: "\<not> 12 \<le> n"
      obtain k where k: "p = 4096 * k" using assms(1) by (elim dvdE)
      have "4096 = (2 :: nat) ^ 12" by simp
      then have "p = push_bit 12 k" using k by (simp add: push_bit_eq_mult)
      then show False using b c by (simp add: bit_push_bit_iff)
    qed
    show "n < 52" using b assms(2) by (metis bit_take_bit_iff take_bit_nat_eq_self)
  qed
  then show "bit ((of_nat p :: u64) AND PTE_PHYS_MASK) n \<longleftrightarrow> bit (of_nat p :: u64) n"
    using n by (auto simp: bit_and_iff bit_phys_mask bit_of_nat_iff)
qed

lemma entry_phys_of:
  assumes "4096 dvd p" "p < 2 ^ 52" "f AND PTE_PHYS_MASK = 0"
  shows "entry_phys (of_nat p OR f) = p"
proof -
  have "(of_nat p OR f) AND PTE_PHYS_MASK = (of_nat p AND PTE_PHYS_MASK) OR (f AND PTE_PHYS_MASK)"
    by (simp add: bit.conj_disj_distrib2)
  also have "\<dots> = of_nat p" using assms of_nat_masked by simp
  finally show ?thesis using assms(2) by (simp add: entry_phys_def unsigned_of_nat take_bit_nat_eq_self)
qed

lemma entry_phys_aligned: "4096 dvd entry_phys e" "entry_phys e < 2 ^ 52"
proof -
  have e: "entry_phys e = take_bit 52 (unat (e AND PTE_PHYS_MASK))"
  proof -
    have "take_bit 52 (e AND PTE_PHYS_MASK) = e AND PTE_PHYS_MASK"
      by (rule bit_word_eqI) (auto simp: bit_take_bit_iff bit_and_iff bit_phys_mask)
    then show ?thesis unfolding entry_phys_def by (metis unsigned_take_bit_eq)
  qed
  then show "entry_phys e < 2 ^ 52" using take_bit_nat_less_exp [of 52] by metis
  have "take_bit 12 (e AND PTE_PHYS_MASK) = 0"
    by (rule bit_word_eqI) (auto simp: bit_take_bit_iff bit_and_iff bit_phys_mask)
  then have "take_bit 12 (entry_phys e) = 0" unfolding entry_phys_def by (metis unsigned_0 unsigned_take_bit_eq)
  then show "4096 dvd entry_phys e" by (simp add: take_bit_eq_mod mod_eq_0_iff_dvd)
qed

lemma table_flags_val: "table_flags = 7" "table_flags AND PTE_PHYS_MASK = 0"
  by (simp_all add: table_flags_def pte_consts)

lemma table_entry:
  assumes "4096 dvd p" "p < 2 ^ 52"
  shows "is_present (of_nat p OR table_flags)" "entry_phys (of_nat p OR table_flags) = p"
    "\<not> is_huge (of_nat p OR table_flags)"
proof -
  have "bit (of_nat p OR table_flags) 0" by (simp add: table_flags_val bit_or_iff)
  then show "is_present (of_nat p OR table_flags)"
    by (simp add: is_present_def PTE_PRESENT_def and_one_eq odd_iff_mod_2_eq_one bit_0)
  show "entry_phys (of_nat p OR table_flags) = p" using entry_phys_of assms table_flags_val(2) by blast
  have "\<not> bit (of_nat p :: u64) 7"
  proof -
    have "(of_nat p :: u64) = of_nat p AND PTE_PHYS_MASK" using of_nat_masked assms by simp
    then have "bit (of_nat p :: u64) 7 \<Longrightarrow> bit PTE_PHYS_MASK 7" by (metis bit_and_iff)
    then show ?thesis by (auto simp: bit_phys_mask)
  qed
  moreover have "\<not> bit table_flags 7" by (simp add: table_flags_val)
  ultimately have "\<not> bit (of_nat p OR table_flags) 7" by (simp add: bit_or_iff)
  moreover have "bit PTE_HUGE n \<Longrightarrow> n = 7" for n
  proof -
    have "PTE_HUGE = 2 ^ 7" by (simp add: PTE_HUGE_def)
    then show "bit PTE_HUGE n \<Longrightarrow> n = 7" by (metis bit_exp_iff)
  qed
  ultimately have "(of_nat p OR table_flags) AND PTE_HUGE = 0"
    by (intro bit_word_eqI) (metis bit_and_iff bit_0_eq bot_apply bot_bool_def)
  then show "\<not> is_huge (of_nat p OR table_flags)" by (simp add: is_huge_def)
qed

section \<open>Fresh pages\<close>

definition managed :: "nat set \<Rightarrow> nat set" where
  "managed F = idx_to_phys ` F"

lemma idx_to_phys_inj [simp]: "idx_to_phys i = idx_to_phys j \<longleftrightarrow> i = j"
  by (simp add: idx_to_phys_def PAGE_SIZE_def)

lemma finite_free_set [simp]: "finite (free_set L)"
  by (simp add: free_set_def blk_def)

text \<open>The fields of the state that the page tables do not touch.\<close>

definition same_rest :: "vm \<Rightarrow> vm \<Rightarrow> bool" where
  "same_rest s s' \<longleftrightarrow> vm_kernel_cr3 s' = vm_kernel_cr3 s \<and> vm_procs s' = vm_procs s \<and> vm_vmas s' = vm_vmas s \<and>
     vm_bump s' = vm_bump s"

lemma same_rest_simps [simp]:
  "same_rest s s" "same_rest s (set_pmm pm s') = same_rest s s'" "same_rest s (set_word a w s') = same_rest s s'"
  "same_rest s (fill_page p f s') = same_rest s s'" "same_rest s (set_heap h s') = same_rest s s'"
  by (simp_all add: same_rest_def set_pmm_def set_word_def fill_page_def set_heap_def)

lemma same_rest_trans: "same_rest s s1 \<Longrightarrow> same_rest s1 s2 \<Longrightarrow> same_rest s s2"
  by (simp add: same_rest_def)

lemma vm_mem_simps [simp]:
  "vm_mem (set_word a w s) = (vm_mem s)(a := w)"
  "vm_mem (fill_page q f s) = (\<lambda>a. if q \<le> a \<and> a < q + 4096 then f (a - q) else vm_mem s a)"
  by (simp_all add: set_word_def fill_page_def PAGE_SIZE_def)

section \<open>The links of the free pages\<close>

lemma node_of_word [simp]: "node_word (mem_node w) = w"
proof -
  have "unat w mod 2 ^ 32 mod 2 ^ 32 + 2 ^ 32 * (unat w div 2 ^ 32) = unat w" by (simp add: mod_mult_div_eq)
  then show ?thesis by (simp only: node_word_def mem_node_def buddy_node.simps) simp
qed

lemma word_of_node [simp]:
  "mem_node (node_word n) = \<lparr>bn_prev = bn_prev n mod 2 ^ 32, bn_next = bn_next n mod 2 ^ 32\<rparr>"
proof -
  define p q where "p = bn_prev n mod 2 ^ 32" and "q = bn_next n"
  have p: "p < 2 ^ 32" by (simp add: p_def)
  have "p + 2 ^ 32 * q = p + 2 ^ 32 * (q mod 2 ^ 32) + 2 ^ 64 * (q div 2 ^ 32)"
  proof -
    define r k where "r = q mod 2 ^ 32" and "k = q div 2 ^ 32"
    have "q = r + 2 ^ 32 * k" unfolding r_def k_def by (rule mod_mult_div_eq [symmetric])
    then show ?thesis unfolding r_def [symmetric] k_def [symmetric] by (simp add: distrib_left)
  qed
  moreover have "p + 2 ^ 32 * (q mod 2 ^ 32) < 2 ^ 64"
  proof -
    have "q mod 2 ^ 32 \<le> 2 ^ 32 - 1" using mod_less_divisor [of "2 ^ 32" q] by simp
    then show ?thesis using p by simp
  qed
  moreover have "unat (node_word n) = (p + 2 ^ 32 * q) mod 2 ^ 64"
    unfolding node_word_def p_def [symmetric] q_def [symmetric] unsigned_of_nat take_bit_eq_mod by simp
  ultimately have "unat (node_word n) = p + 2 ^ 32 * (q mod 2 ^ 32)"
    by (metis mod_less mod_mult_self2)
  then show ?thesis using p by (simp add: mem_node_def p_def q_def)
qed

lemma idx_of_phys [simp]: "phys_to_idx (idx_to_phys i) = i" "RAM_START \<le> idx_to_phys i" "4096 dvd idx_to_phys i"
  by (simp_all add: phys_to_idx_def idx_to_phys_def PAGE_SIZE_def RAM_START_def)

lemma link_address: "RAM_START \<le> a \<and> (a - RAM_START) mod PAGE_SIZE = 0 \<longleftrightarrow> a = idx_to_phys (phys_to_idx a)"
proof
  assume a: "RAM_START \<le> a \<and> (a - RAM_START) mod PAGE_SIZE = 0"
  then have "(a - RAM_START) div PAGE_SIZE * PAGE_SIZE = a - RAM_START" by (metis add_0_right div_mult_mod_eq)
  then show "a = idx_to_phys (phys_to_idx a)" using a by (simp add: idx_to_phys_def phys_to_idx_def)
next
  assume "a = idx_to_phys (phys_to_idx a)"
  then show "RAM_START \<le> a \<and> (a - RAM_START) mod PAGE_SIZE = 0" by (metis idx_of_phys(2) idx_to_phys_def add_diff_cancel_left' mod_mult_self2_is_0)
qed

lemma store_nodes_at: "store_nodes nd m a = (if a = idx_to_phys (phys_to_idx a) then node_word (nd (phys_to_idx a)) else m a)"
  unfolding store_nodes_def link_address ..

lemma store_nodes_idx [simp]: "store_nodes nd m (idx_to_phys i) = node_word (nd i)"
  by (simp add: store_nodes_at)

lemma store_nodes_same: "nd (phys_to_idx a) = mem_node (m (idx_to_phys (phys_to_idx a))) \<Longrightarrow> store_nodes nd m a = m a"
  by (simp add: store_nodes_at)

lemma set_pmm_mem: "vm_mem (set_pmm pm s) = store_nodes (nodes pm) (vm_mem s)"
  by (simp add: set_pmm_def)

lemma set_pmm_links: "nodes pm = nodes (pmm_of s) \<Longrightarrow> vm_mem (set_pmm pm s) = vm_mem s"
  by (simp add: set_pmm_mem fun_eq_iff store_nodes_same pmm_of_def)

text \<open>What is read back after the allocator has run: the same lists.\<close>

lemma pmm_of_set: "pmm_of (set_pmm pm s) = pm\<lparr>nodes := (\<lambda>i. \<lparr>bn_prev = bn_prev (nodes pm i) mod 2 ^ 32, bn_next = bn_next (nodes pm i) mod 2 ^ 32\<rparr>)\<rparr>"
  by (simp add: pmm_of_def set_pmm_def)

lemma set_pmm_inv: "pmm_inv pm L \<Longrightarrow> pmm_inv (pmm_of (set_pmm pm s)) L"
  unfolding pmm_of_set by (rule inv_narrow)

lemma set_pmm_fields [simp]:
  "total_pages (pmm_of (set_pmm pm s)) = total_pages pm" "ram_end (pmm_of (set_pmm pm s)) = ram_end pm"
  "refcnt (pmm_of (set_pmm pm s)) = refcnt pm" "pmm_refcount (pmm_of (set_pmm pm s)) q = pmm_refcount pm q"
  by (simp_all add: pmm_of_set pmm_refcount_def)

lemma pmm_of_fields [simp]:
  "total_pages (pmm_of (set_word a w s)) = total_pages (pmm_of s)" "ram_end (pmm_of (set_word a w s)) = ram_end (pmm_of s)"
  "refcnt (pmm_of (set_word a w s)) = refcnt (pmm_of s)" "pmm_refcount (pmm_of (set_word a w s)) q = pmm_refcount (pmm_of s) q"
  "total_pages (pmm_of (fill_page p f s)) = total_pages (pmm_of s)" "ram_end (pmm_of (fill_page p f s)) = ram_end (pmm_of s)"
  "refcnt (pmm_of (fill_page p f s)) = refcnt (pmm_of s)" "pmm_refcount (pmm_of (fill_page p f s)) q = pmm_refcount (pmm_of s) q"
  by (simp_all add: pmm_of_def set_word_def fill_page_def pmm_refcount_def)

text \<open>Writing outside the free pages keeps the lists.\<close>

definition outside :: "nat set \<Rightarrow> nat \<Rightarrow> bool" where
  "outside P a \<longleftrightarrow> (\<forall>q \<in> P. \<not> (q \<le> a \<and> a < q + 4096))"

lemma outside_mono: "outside P a \<Longrightarrow> Q \<subseteq> P \<Longrightarrow> outside Q a"
  by (auto simp: outside_def)

lemma outside_page:
  assumes "\<forall>q \<in> P. 4096 dvd q" "4096 dvd t" "t \<notin> P" "t \<le> a" "a < t + 4096"
  shows "outside P a"
  using pages_apart [of t _ a] assms unfolding outside_def by metis

lemma managed_aligned: "\<forall>q \<in> managed F. 4096 dvd q"
  by (auto simp: managed_def)

lemma mem_inv:
  assumes "pmm_inv (pmm_of s) L" "h_pmm (vm_heap s') = h_pmm (vm_heap s)"
    and "\<And>a. \<not> outside (managed (free_set L)) a \<Longrightarrow> vm_mem s' a = vm_mem s a"
  shows "pmm_inv (pmm_of s') L"
proof (rule inv_cong [OF assms(1)])
  show "nodes (pmm_of s') x = nodes (pmm_of s) x" if "x \<in> free_set L" for x
  proof -
    have "\<not> outside (managed (free_set L)) (idx_to_phys x)" using that by (force simp: managed_def outside_def)
    then show ?thesis using assms(3) by (simp add: pmm_of_def)
  qed
qed (simp_all add: pmm_of_def assms(2))

section \<open>Fresh pages\<close>

definition fresh_page :: "(nat \<Rightarrow> nat list) \<Rightarrow> nat \<Rightarrow> bool" where
  "fresh_page L p \<longleftrightarrow> p \<in> managed (free_set L) \<and> p \<noteq> 0 \<and> 4096 dvd p \<and> p < 2 ^ 52"

text \<open>
  Besides the page it clears, \<open>pmm_alloc\<close> writes into pages only that were free: the neighbours in the
  lists and the halves of blocks it splits.
\<close>

lemma page_alloc_ok:
  assumes inv: "pmm_inv (pmm_of s) L" and ne: "free_set L \<noteq> {}"
  obtains p s' L' where "page_alloc oom s = (p, s')" "fresh_page L p" "pmm_inv (pmm_of s') L'"
    "managed (free_set L') = managed (free_set L) - {p}" "card (free_set L') = card (free_set L) - 1"
    "\<And>a. outside (managed (free_set L)) a \<Longrightarrow> vm_mem s' a = vm_mem s a" "same_rest s s'"
    "\<And>q. 4096 dvd q \<Longrightarrow> q \<noteq> p \<Longrightarrow> pmm_refcount (pmm_of s') q = pmm_refcount (pmm_of s) q"
    "\<And>x. x < 4096 \<Longrightarrow> vm_mem s' (p + x) = 0"
proof -
  have "\<exists>o'. 0 \<le> o' \<and> o' \<le> MAX_ORDER \<and> L o' \<noteq> []" using ne by (auto simp: free_set_def)
  note F = find_order_some [OF inv this]
  obtain idx pm L' where T: "pmm_take (pmm_of s) 0 (find_order (pmm_of s) 0) = (idx_to_phys idx, pm)"
      "pmm_inv pm L'" "idx + 1 \<le> total_pages (pmm_of s)" "blk 0 idx \<subseteq> free_set L"
      "free_set L' = free_set L - blk 0 idx" "refcnt pm = (refcnt (pmm_of s))(idx := 1)"
      "ram_end pm = ram_end (pmm_of s)" "\<forall>x. x \<notin> free_set L \<longrightarrow> nodes pm x = nodes (pmm_of s) x"
    using pmm_take_inv [OF inv, of 0 "find_order (pmm_of s) 0"] F by auto
  have b: "blk 0 idx = {idx}" by (auto simp: blk_def)
  let ?p = "idx_to_phys idx"
  let ?s1 = "set_pmm pm s"
  have nz: "?p \<noteq> 0" by (simp add: idx_to_phys_def RAM_START_def)
  have e: "page_alloc oom s = (?p, zero_page ?p ?s1)"
    using T(1) F nz by (simp add: page_alloc_def pmm_alloc_def pmm_alloc_order_def)
  have tp: "total_pages (pmm_of s) < BUDDY_NIL" using inv by (simp add: part_inv_def blocks_ok_def)
  have "?p < 2 ^ 52" using T(3) tp by (simp add: idx_to_phys_def RAM_START_def PAGE_SIZE_def BUDDY_NIL_def)
  then have f: "fresh_page L ?p" using T(4) b nz by (simp add: fresh_page_def managed_def)
  have m: "managed (free_set L') = managed (free_set L) - {?p}"
    by (simp add: T(5) b managed_def image_set_diff inj_def)
  have c: "card (free_set L') = card (free_set L) - 1" using T(4,5) b by simp
  have rc: "pmm_refcount pm q = pmm_refcount (pmm_of s) q" if q: "4096 dvd q" "q \<noteq> ?p" for q
  proof -
    obtain k where k: "q = 4096 * k" using q(1) by (elim dvdE)
    have "phys_to_idx q \<noteq> idx" if "RAM_START \<le> q"
      using that q(2) k by (auto simp: phys_to_idx_def idx_to_phys_def RAM_START_def PAGE_SIZE_def)
    then show ?thesis using T(6,7) by (auto simp: pmm_refcount_def)
  qed
  have old: "vm_mem ?s1 a = vm_mem s a" if a: "outside (managed (free_set L)) a" for a
  proof -
    have "phys_to_idx a \<notin> free_set L" if "a = idx_to_phys (phys_to_idx a)"
      using that a by (force simp: outside_def managed_def)
    then have "nodes pm (phys_to_idx a) = nodes (pmm_of s) (phys_to_idx a)" if "a = idx_to_phys (phys_to_idx a)"
      using T(8) that by blast
    then show ?thesis by (auto simp: set_pmm_mem store_nodes_at pmm_of_def)
  qed
  have mem: "vm_mem (zero_page ?p ?s1) a = (if ?p \<le> a \<and> a < ?p + 4096 then 0 else vm_mem ?s1 a)" for a
    by (simp add: zero_page_def)
  have "pmm_inv (pmm_of (zero_page ?p ?s1)) L'"
  proof (rule mem_inv [OF set_pmm_inv [OF T(2)]])
    fix a assume a: "\<not> outside (managed (free_set L')) a"
    have "outside (managed (free_set L')) a" if "?p \<le> a" "a < ?p + 4096"
      using outside_page [OF managed_aligned idx_of_phys(3) _ that] m by blast
    then show "vm_mem (zero_page ?p ?s1) a = vm_mem ?s1 a" using a mem by metis
  qed (simp add: zero_page_def fill_page_def)
  moreover have "vm_mem (zero_page ?p ?s1) a = vm_mem s a" if "outside (managed (free_set L)) a" for a
    using that old [OF that] f by (auto simp: mem outside_def fresh_page_def)
  ultimately show ?thesis using that [OF e f _ m c] rc by (simp add: zero_page_def cong: if_cong)
qed

section \<open>The tree of tables\<close>

text \<open>Level 0 is the root table, level 3 the last one; \<open>lix d v\<close> is the index in the table of level \<open>d\<close>.\<close>

definition lix :: "nat \<Rightarrow> u64 \<Rightarrow> nat" where
  "lix d v = table_ix (39 - 9 * d) v"

definition lslot :: "nat \<Rightarrow> nat \<Rightarrow> u64 \<Rightarrow> nat" where
  "lslot t d v = slot_of t (39 - 9 * d) v"

fun tbl :: "vm \<Rightarrow> nat \<Rightarrow> u64 \<Rightarrow> nat \<Rightarrow> nat option" where
  "tbl s cr3 v 0 = Some cr3"
| "tbl s cr3 v (Suc d) =
     (case tbl s cr3 v d of
        None \<Rightarrow> None
      | Some t \<Rightarrow>
          (let e = vm_mem s (lslot t d v)
           in if is_present e \<and> \<not> (d = 2 \<and> is_huge e) then Some (entry_phys e) else None))"

definition same_path :: "nat \<Rightarrow> u64 \<Rightarrow> u64 \<Rightarrow> bool" where
  "same_path d v w \<longleftrightarrow> (\<forall>k < d. lix k v = lix k w)"

text \<open>The entry that maps an address, if it is present.\<close>

definition transl :: "vm \<Rightarrow> nat \<Rightarrow> u64 \<Rightarrow> u64 option" where
  "transl s cr3 v =
     (case tbl s cr3 v 3 of
        None \<Rightarrow> None
      | Some t \<Rightarrow> if is_present (vm_mem s (lslot t 3 v)) then Some (vm_mem s (lslot t 3 v)) else None)"

text \<open>The 2 MB page an address lies in, if there is one.\<close>

definition huge_at :: "vm \<Rightarrow> nat \<Rightarrow> u64 \<Rightarrow> u64 option" where
  "huge_at s cr3 v =
     (case tbl s cr3 v 2 of
        None \<Rightarrow> None
      | Some t \<Rightarrow> if is_huge (vm_mem s (lslot t 2 v)) then Some (vm_mem s (lslot t 2 v)) else None)"

definition tables_ok :: "vm \<Rightarrow> nat \<Rightarrow> nat set \<Rightarrow> bool" where
  "tables_ok s cr3 F \<longleftrightarrow>
     (\<forall>v d t. d \<le> 3 \<longrightarrow> tbl s cr3 v d = Some t \<longrightarrow> 4096 dvd t \<and> t \<notin> F) \<and>
     (\<forall>v w d e t. d \<le> 3 \<longrightarrow> e \<le> 3 \<longrightarrow> tbl s cr3 v d = Some t \<longrightarrow> tbl s cr3 w e = Some t \<longrightarrow> d = e \<and> same_path d v w)"

lemma tables_okD:
  assumes "tables_ok s cr3 F" "d \<le> 3" "tbl s cr3 v d = Some t"
  shows "4096 dvd t" "t \<notin> F"
    "e \<le> 3 \<Longrightarrow> tbl s cr3 w e = Some t \<Longrightarrow> d = e" "e \<le> 3 \<Longrightarrow> tbl s cr3 w e = Some t \<Longrightarrow> same_path d v w"
  using assms unfolding tables_ok_def by blast+

lemma lslot_eq: "lslot t d v = t + 8 * lix d v"
  by (simp add: lslot_def slot_of_def lix_def)

lemma lslot_in: "t \<le> lslot t d v \<and> lslot t d v < t + 4096"
  by (simp add: lslot_def slot_in_page)

lemma lslot_apart:
  assumes "4096 dvd t" "4096 dvd u" "lslot t d v = lslot u e w"
  shows "t = u \<and> lix d v = lix e w"
proof -
  have "t = u" using pages_apart [OF assms(1,2), of "lslot t d v"] lslot_in [of t d v] lslot_in [of u e w] assms(3) by metis
  then show ?thesis using assms(3) by (simp add: lslot_eq)
qed

lemma same_path_refl [simp]: "same_path d v v" and same_path_sym: "same_path d v w \<Longrightarrow> same_path d w v"
  and same_path_mono: "same_path d v w \<Longrightarrow> e \<le> d \<Longrightarrow> same_path e v w"
  and same_path_Suc: "same_path (Suc d) v w \<longleftrightarrow> same_path d v w \<and> lix d v = lix d w"
  and same_path_trans: "same_path d u v \<Longrightarrow> same_path d v w \<Longrightarrow> same_path d u w"
  by (auto simp: same_path_def less_Suc_eq)

lemma tbl_same_path: "same_path d v w \<Longrightarrow> tbl s cr3 v d = tbl s cr3 w d"
  by (induction d) (auto simp: same_path_Suc lslot_eq split: option.splits)

lemma tbl_mono: "tbl s cr3 v d = Some t \<Longrightarrow> e \<le> d \<Longrightarrow> \<exists>u. tbl s cr3 v e = Some u"
  by (induction d arbitrary: t) (auto simp: le_Suc_eq split: option.splits)

text \<open>All of it depends on the contents of memory only.\<close>

lemma mem_tables:
  assumes "vm_mem s' = vm_mem s"
  shows "tbl s' cr3 w d = tbl s cr3 w d" "transl s' cr3 = transl s cr3" "huge_at s' cr3 = huge_at s cr3"
    "tables_ok s' cr3 F = tables_ok s cr3 F"
proof -
  show T: "tbl s' cr3 w d = tbl s cr3 w d" for w d
    by (induction d) (simp_all add: assms Let_def split: option.splits)
  show "transl s' cr3 = transl s cr3" unfolding transl_def T assms ..
  show "huge_at s' cr3 = huge_at s cr3" unfolding huge_at_def T assms ..
  show "tables_ok s' cr3 F = tables_ok s cr3 F" unfolding tables_ok_def T ..
qed

text \<open>The walk without allocation, in these terms.\<close>

lemma pte_find_eq: "pte_find cr3 v s = map_option (\<lambda>t. lslot t 3 v) (tbl s cr3 v 3)"
  by (simp add: pte_find_def pte_get_def next_table_def lslot_def numeral_3_eq_3 numeral_2_eq_2 Let_def)

lemma virt_to_phys_eq:
  "vmm_virt_to_phys cr3 v s =
     (case transl s cr3 v of None \<Rightarrow> 0 | Some e \<Rightarrow> (e AND PTE_PHYS_MASK) OR (v AND (of_nat PAGE_SIZE - 1)))"
  by (auto simp: vmm_virt_to_phys_def pte_find_eq transl_def split: option.splits)

section \<open>Adding a table\<close>

text \<open>
  \<open>grafted s s' cr3 F v d p f\<close>: from \<open>s\<close> to \<open>s'\<close>, the entry of \<open>v\<close> at level \<open>d\<close>, which led nowhere, was made to point to
  the page \<open>p\<close>, taken from the free pages \<open>F\<close>, whose contents became \<open>f\<close>; outside the free pages nothing else changed.
\<close>

definition grafted :: "vm \<Rightarrow> vm \<Rightarrow> nat \<Rightarrow> nat set \<Rightarrow> u64 \<Rightarrow> nat \<Rightarrow> nat \<Rightarrow> (nat \<Rightarrow> u64) \<Rightarrow> bool" where
  "grafted s s' cr3 F v d p f \<longleftrightarrow>
     tables_ok s cr3 F \<and> (\<forall>q \<in> F. 4096 dvd q) \<and> p \<in> F \<and> p < 2 ^ 52 \<and> d \<le> 2 \<and> tbl s cr3 v (Suc d) = None \<and>
     (d < 2 \<longrightarrow> f = (\<lambda>_. 0)) \<and> (\<forall>x < 4096. vm_mem s' (p + x) = f x) \<and>
     (\<exists>t. tbl s cr3 v d = Some t \<and>
        (\<forall>x. outside F x \<longrightarrow> vm_mem s' x = (if x = lslot t d v then of_nat p OR table_flags else vm_mem s x)))"

lemma grafted_page: "grafted s s' cr3 F v d p f \<Longrightarrow> 4096 dvd p"
  by (auto simp: grafted_def)

lemma not_present_0 [simp]: "\<not> is_present 0" "\<not> is_huge 0"
  by (simp_all add: is_present_def is_huge_def)

lemma grafted_mem:
  assumes g: "grafted s s' cr3 F v d p f" and w: "k \<le> 3" "tbl s cr3 w k = Some u"
  shows "vm_mem s' (lslot u k w) =
    (if k = d \<and> same_path (Suc d) v w then of_nat p OR table_flags else vm_mem s (lslot u k w))"
proof -
  obtain t where t: "tbl s cr3 v d = Some t" and ok: "tables_ok s cr3 F" and al: "\<forall>q \<in> F. 4096 dvd q" and d: "d \<le> 3"
    and m: "\<forall>x. outside F x \<longrightarrow> vm_mem s' x = (if x = lslot t d v then of_nat p OR table_flags else vm_mem s x)"
    using g by (auto simp: grafted_def)
  note tD = tables_okD [OF ok d t] and uD = tables_okD [OF ok w]
  have out: "outside F (lslot u k w)" using outside_page [OF al uD(1,2)] lslot_in by blast
  have "lslot u k w = lslot t d v \<longleftrightarrow> k = d \<and> same_path (Suc d) v w"
  proof
    assume "lslot u k w = lslot t d v"
    then have e: "u = t" "lix k w = lix d v" using lslot_apart [OF uD(1) tD(1)] by auto
    then show "k = d \<and> same_path (Suc d) v w"
      using tD(3,4) [OF w(1)] w(2) by (auto simp: same_path_Suc)
  next
    assume a: "k = d \<and> same_path (Suc d) v w"
    then have "u = t" using tbl_same_path [of d v w s cr3] t w(2) by (simp add: same_path_Suc)
    then show "lslot u k w = lslot t d v" using a by (simp add: lslot_eq same_path_Suc)
  qed
  then show ?thesis using m out by auto
qed

lemma grafted_zero:
  assumes g: "grafted s s' cr3 F v d p f" shows "vm_mem s' (lslot p k w) = f (8 * lix k w)"
  using g lslot_in [of p k w] by (auto simp: grafted_def lslot_eq)

lemma grafted_tbl:
  assumes g: "grafted s s' cr3 F v d p f" and e: "e \<le> 3"
  shows "tbl s' cr3 w e = (if e \<le> d \<or> \<not> same_path (Suc d) v w then tbl s cr3 w e else if e = Suc d then Some p else None)"
  using e
proof (induction e)
  case (Suc k)
  have dm: "d \<le> 2" "4096 dvd p" "p < 2 ^ 52" "tbl s cr3 v (Suc d) = None" "d < 2 \<longrightarrow> f = (\<lambda>_. 0)"
    using g grafted_page [OF g] by (auto simp: grafted_def)
  note te = table_entry [OF dm(2,3)]
  have IH: "tbl s' cr3 w k = (if k \<le> d \<or> \<not> same_path (Suc d) v w then tbl s cr3 w k else if k = Suc d then Some p else None)"
    using Suc by simp
  show ?case
  proof (cases "k \<le> d \<or> \<not> same_path (Suc d) v w")
    case old: True
    show ?thesis
    proof (cases "tbl s cr3 w k")
      case None
      then have "\<not> (k = d \<and> same_path (Suc d) v w)"
        using g tbl_same_path [of d v w s cr3] by (auto simp: grafted_def same_path_Suc)
      then show ?thesis using old IH None by (auto simp: Let_def)
    next
      case (Some u)
      have k3: "k \<le> 3" using Suc.prems by simp
      show ?thesis
        using old IH Some grafted_mem [OF g k3 Some] te
        by (cases "k = d \<and> same_path (Suc d) v w") (auto simp: Let_def)
    qed
  next
    case new: False
    have "tbl s' cr3 w (Suc k) = None"
    proof (cases "k = Suc d")
      case True
      then have "f = (\<lambda>_. 0)" using Suc.prems dm(5) by simp
      then show ?thesis using IH new True grafted_zero [OF g, of k w] by simp
    qed (use IH new in simp)
    then show ?thesis using new by simp
  qed
qed simp

lemma grafted_tables_ok:
  assumes g: "grafted s s' cr3 F v d p f" shows "tables_ok s' cr3 (F - {p})"
proof -
  have ok: "tables_ok s cr3 F" and p: "p \<in> F" "4096 dvd p" using g grafted_page [OF g] by (auto simp: grafted_def)
  have old: "tbl s cr3 w e \<noteq> Some p" if "e \<le> 3" for w e using ok that p(1) unfolding tables_ok_def by blast
  show ?thesis unfolding tables_ok_def
  proof (intro conjI allI impI)
    fix w e u assume e: "e \<le> 3" and w: "tbl s' cr3 w e = Some u"
    then have "tbl s cr3 w e = Some u \<or> u = p" by (auto simp: grafted_tbl [OF g e] split: if_splits)
    then show "4096 dvd u" "u \<notin> F - {p}" using tables_okD [OF ok e] p by auto
  next
    fix w x e e' u assume e: "e \<le> 3" "e' \<le> 3" and w: "tbl s' cr3 w e = Some u" "tbl s' cr3 x e' = Some u"
    have "u = p \<and> e = Suc d \<and> e' = Suc d \<and> same_path (Suc d) v w \<and> same_path (Suc d) v x \<or>
        tbl s cr3 w e = Some u \<and> tbl s cr3 x e' = Some u"
      using w old [OF e(1)] old [OF e(2)] unfolding grafted_tbl [OF g e(1)] grafted_tbl [OF g e(2)]
      by (auto split: if_splits)
    then show "e = e'" "same_path e w x"
      using ok e same_path_trans same_path_sym unfolding tables_ok_def by blast+
  qed
qed

lemma grafted_transl:
  assumes g: "grafted s s' cr3 F v d p f"
  shows "transl s' cr3 w =
    (if d = 2 \<and> same_path 3 v w then if is_present (f (8 * lix 3 w)) then Some (f (8 * lix 3 w)) else None else transl s cr3 w)"
proof -
  have dm: "d \<le> 2" "tbl s cr3 v (Suc d) = None" "d < 2 \<longrightarrow> f = (\<lambda>_. 0)" using g by (auto simp: grafted_def)
  have T: "tbl s' cr3 w 3 = (if \<not> same_path (Suc d) v w then tbl s cr3 w 3 else if d = 2 then Some p else None)"
    using grafted_tbl [OF g, of 3 w] dm(1) by auto
  show ?thesis
  proof (cases "same_path (Suc d) v w")
    case False
    have "vm_mem s' (lslot u 3 w) = vm_mem s (lslot u 3 w)" if "tbl s cr3 w 3 = Some u" for u
      using grafted_mem [OF g _ that] dm(1) by simp
    moreover have "\<not> (d = 2 \<and> same_path 3 v w)" using False by auto
    ultimately show ?thesis using T False by (auto simp: transl_def split: option.splits)
  next
    case True
    then have "tbl s cr3 w (Suc d) = None" using dm(2) tbl_same_path by metis
    then have n: "tbl s cr3 w 3 = None" using tbl_mono [of s cr3 w 3 _ "Suc d"] dm(1) by (cases "tbl s cr3 w 3") auto
    show ?thesis
    proof (cases "d = 2")
      case d2: True
      then have "same_path 3 v w" using True by (simp add: numeral_3_eq_3)
      then show ?thesis using T True d2 grafted_zero [OF g, of 3 w] by (simp add: transl_def)
    next
      case False
      then show ?thesis using T True n by (simp add: transl_def)
    qed
  qed
qed

lemma grafted_huge:
  assumes g: "grafted s s' cr3 F v d p f"
  shows "huge_at s' cr3 w = (if d = 2 \<and> same_path 3 v w then None else huge_at s cr3 w)"
proof -
  have dm: "d \<le> 2" "4096 dvd p" "p < 2 ^ 52" "tbl s cr3 v (Suc d) = None" "d < 2 \<longrightarrow> f = (\<lambda>_. 0)"
    using g grafted_page [OF g] by (auto simp: grafted_def)
  note te = table_entry [OF dm(2,3)]
  have T: "tbl s' cr3 w 2 = (if d = 2 \<or> \<not> same_path (Suc d) v w then tbl s cr3 w 2 else if d = 1 then Some p else None)"
    using grafted_tbl [OF g, of 2 w] dm(1) by auto
  have M: "vm_mem s' (lslot u 2 w) = (if d = 2 \<and> same_path 3 v w then of_nat p OR table_flags else vm_mem s (lslot u 2 w))"
    if "tbl s cr3 w 2 = Some u" for u
    using grafted_mem [OF g _ that] by (auto simp: numeral_3_eq_3)
  show ?thesis
  proof (cases "d = 2 \<or> \<not> same_path (Suc d) v w")
    case True
    then show ?thesis using T M te by (auto simp: huge_at_def numeral_3_eq_3 split: option.splits)
  next
    case False
    then have "tbl s cr3 w (Suc d) = None" using dm(4) tbl_same_path by metis
    then have "tbl s cr3 w 2 = None" using tbl_mono [of s cr3 w 2 _ "Suc d"] dm(1) False by (cases "tbl s cr3 w 2") auto
    then show ?thesis using T False grafted_zero [OF g, of 2 w] dm(5) by (auto simp: huge_at_def)
  qed
qed

section \<open>Walking with allocation\<close>

definition vm_ok :: "vm \<Rightarrow> nat \<Rightarrow> (nat \<Rightarrow> nat list) \<Rightarrow> bool" where
  "vm_ok s cr3 L \<longleftrightarrow> pmm_inv (pmm_of s) L \<and> tables_ok s cr3 (managed (free_set L))"

text \<open>A page that is neither free nor a table: what it holds belongs to a process or to the kernel.\<close>

definition is_data :: "vm \<Rightarrow> nat \<Rightarrow> (nat \<Rightarrow> nat list) \<Rightarrow> nat \<Rightarrow> bool" where
  "is_data s cr3 L q \<longleftrightarrow> 4096 dvd q \<and> q \<notin> managed (free_set L) \<and> (\<forall>w e. e \<le> 3 \<longrightarrow> tbl s cr3 w e \<noteq> Some q)"

definition keeps :: "vm \<Rightarrow> (nat \<Rightarrow> nat list) \<Rightarrow> vm \<Rightarrow> (nat \<Rightarrow> nat list) \<Rightarrow> nat \<Rightarrow> nat \<Rightarrow> bool" where
  "keeps s L s' L' cr3 n \<longleftrightarrow> vm_ok s' cr3 L' \<and> card (free_set L) \<le> card (free_set L') + n \<and> same_rest s s' \<and>
     (\<forall>q. is_data s cr3 L q \<longrightarrow> is_data s' cr3 L' q \<and> (\<forall>x < 4096. vm_mem s' (q + x) = vm_mem s (q + x)))"

lemma keeps_refl: "vm_ok s cr3 L \<Longrightarrow> keeps s L s L cr3 n"
  by (simp add: keeps_def)

lemma keeps_trans: "keeps s L s1 L1 cr3 n \<Longrightarrow> keeps s1 L1 s2 L2 cr3 m \<Longrightarrow> keeps s L s2 L2 cr3 (n + m)"
  unfolding keeps_def by (auto intro: same_rest_trans)

lemma data_outside:
  assumes "is_data s cr3 L q" "x < 4096" shows "outside (managed (free_set L)) (q + x)"
  using outside_page [OF managed_aligned, of q _ "q + x"] assms by (auto simp: is_data_def)

lemma table_outside:
  assumes "vm_ok s cr3 L" "tbl s cr3 v d = Some t" "d \<le> 3" shows "outside (managed (free_set L)) (lslot t d v)"
  using assms outside_page [OF managed_aligned, of t] tables_okD(1,2) [of s cr3 _ d v t] lslot_in unfolding vm_ok_def by blast

lemma graft_page:
  assumes ok: "vm_ok s cr3 L" and t: "tbl s cr3 v d = Some t" "d \<le> 2" "tbl s cr3 v (Suc d) = None"
    and f: "d < 2 \<longrightarrow> f = (\<lambda>_. 0)" and al: "page_alloc oom s = (p, s1)" "fresh_page L p" "pmm_inv (pmm_of s1) L1"
      "managed (free_set L1) = managed (free_set L) - {p}" "card (free_set L1) = card (free_set L) - 1"
      "\<And>a. outside (managed (free_set L)) a \<Longrightarrow> vm_mem s1 a = vm_mem s a" "same_rest s s1"
  defines "s' \<equiv> set_word (lslot t d v) (of_nat p OR table_flags) (fill_page p f s1)"
  shows "grafted s s' cr3 (managed (free_set L)) v d p f" "keeps s L s' L1 cr3 1" "tbl s' cr3 v (Suc d) = Some p"
proof -
  let ?F = "managed (free_set L)"
  have fp: "p \<in> ?F" "4096 dvd p" "p < 2 ^ 52" using al(2) by (auto simp: fresh_page_def)
  have t3: "d \<le> 3" using t(2) by simp
  have tF: "4096 dvd t" "t \<notin> ?F" using ok t(1) t3 tables_okD(1,2) [of s cr3 _ d v t] by (auto simp: vm_ok_def)
  note slot = table_outside [OF ok t(1) t3]
  have m: "vm_mem s' x = (if x = lslot t d v then of_nat p OR table_flags else vm_mem s x)" if "outside ?F x" for x
    using that al(6) [OF that] fp(1) by (auto simp: s'_def outside_def)
  have pg: "vm_mem s' (p + x) = f x" if "x < 4096" for x
    using slot that fp(1) by (auto simp: s'_def outside_def)
  show g: "grafted s s' cr3 ?F v d p f"
    using ok t f fp m pg managed_aligned by (auto simp: grafted_def vm_ok_def)
  show "tbl s' cr3 v (Suc d) = Some p" using grafted_tbl [OF g, of "Suc d" v] t(2) by simp
  have "pmm_inv (pmm_of s') L1"
  proof (rule mem_inv [OF al(3)])
    fix a assume a: "\<not> outside (managed (free_set L1)) a"
    then have "a \<noteq> lslot t d v" using outside_mono [OF slot] al(4) by blast
    moreover have "\<not> (p \<le> a \<and> a < p + 4096)"
      using outside_page [OF managed_aligned fp(2), of "free_set L1" a] al(4) a by auto
    ultimately show "vm_mem s' a = vm_mem s1 a" by (simp only: s'_def vm_mem_simps fun_upd_apply if_False)
  qed (simp add: s'_def set_word_def fill_page_def)
  then have "vm_ok s' cr3 L1" using grafted_tables_ok [OF g] al(4) by (simp add: vm_ok_def)
  moreover have "is_data s' cr3 L1 q \<and> (\<forall>x < 4096. vm_mem s' (q + x) = vm_mem s (q + x))" if q: "is_data s cr3 L q" for q
  proof -
    have qp: "q \<noteq> p" "q \<noteq> t" "4096 dvd q" using q fp(1) t by (auto simp: is_data_def)
    have "is_data s' cr3 L1 q"
      using q qp al(4) by (auto simp: is_data_def grafted_tbl [OF g])
    moreover have "vm_mem s' (q + x) = vm_mem s (q + x)" if "x < 4096" for x
    proof -
      have "q + x \<noteq> lslot t d v"
        using pages_apart [OF qp(3) tF(1), of "q + x"] qp(2) lslot_in [of t d v] that by auto
      then show ?thesis using m [OF data_outside [OF q that]] by simp
    qed
    ultimately show ?thesis by blast
  qed
  ultimately show "keeps s L s' L1 cr3 1"
    using al(5,7) by (simp add: keeps_def s'_def)
qed

lemma next_table_ok:
  assumes ok: "vm_ok s cr3 L" and ne: "free_set L \<noteq> {}" and t: "tbl s cr3 v d = Some t" "d \<le> 2"
    and nh: "d = 2 \<longrightarrow> \<not> is_huge (vm_mem s (lslot t d v))"
  shows "\<exists>u s' L'. next_table oom True (lslot t d v) s = (Some u, s') \<and> tbl s' cr3 v (Suc d) = Some u \<and>
    keeps s L s' L' cr3 1 \<and> transl s' cr3 = transl s cr3 \<and> huge_at s' cr3 = huge_at s cr3"
proof (cases "is_present (vm_mem s (lslot t d v))")
  case True
  then show ?thesis using t nh keeps_refl [OF ok]
    by (intro exI [of _ "entry_phys (vm_mem s (lslot t d v))"] exI [of _ s] exI [of _ L]) (simp add: next_table_def Let_def)
next
  case False
  have "pmm_inv (pmm_of s) L" using ok by (simp add: vm_ok_def)
  then obtain p s1 L1 where al: "page_alloc oom s = (p, s1)" "fresh_page L p"
      "pmm_inv (pmm_of s1) L1" "managed (free_set L1) = managed (free_set L) - {p}"
      "card (free_set L1) = card (free_set L) - 1" "\<And>a. outside (managed (free_set L)) a \<Longrightarrow> vm_mem s1 a = vm_mem s a"
      "same_rest s s1" "\<And>q. 4096 dvd q \<Longrightarrow> q \<noteq> p \<Longrightarrow> pmm_refcount (pmm_of s1) q = pmm_refcount (pmm_of s) q"
      "\<And>x. x < 4096 \<Longrightarrow> vm_mem s1 (p + x) = 0"
    using ne by (rule page_alloc_ok [where oom = oom]) (rule that; assumption)
  define s' where "s' = set_word (lslot t d v) (of_nat p OR table_flags) (fill_page p (\<lambda>_. 0) s1)"
  have none: "tbl s cr3 v (Suc d) = None" using t False by (simp add: Let_def)
  have z: "d < 2 \<longrightarrow> (\<lambda>_. 0) = (\<lambda>_ :: nat. 0 :: u64)" by simp
  note G = graft_page [OF ok t none z al(1-7), folded s'_def]
  have fp: "p \<noteq> 0" "4096 dvd p" "p < 2 ^ 52" using al(2) by (auto simp: fresh_page_def)
  then have nt: "next_table oom True (lslot t d v) s = (Some p, s')"
    using False al(1) table_entry(2) [of p] by (simp add: next_table_def zero_page_def s'_def Let_def)
  have T: "transl s' cr3 w = transl s cr3 w" "huge_at s' cr3 w = huge_at s cr3 w" for w
  proof -
    have "transl s cr3 w = None \<and> huge_at s cr3 w = None" if "d = 2" "same_path 3 v w"
    proof -
      have "tbl s cr3 w 2 = Some t" using tbl_same_path [of 2 v w s cr3] t(1) that same_path_mono by simp
      moreover have "lslot t 2 w = lslot t 2 v" using that by (simp add: lslot_eq same_path_def)
      ultimately show ?thesis using False nh that(1) by (simp add: transl_def huge_at_def numeral_3_eq_3 numeral_2_eq_2)
    qed
    then show "transl s' cr3 w = transl s cr3 w" "huge_at s' cr3 w = huge_at s cr3 w"
      using grafted_transl [OF G(1), of w] grafted_huge [OF G(1), of w] by auto
  qed
  show ?thesis using nt G T by (intro exI [of _ p] exI [of _ s'] exI [of _ L1]) (auto simp: fun_eq_iff)
qed

text \<open>The entry that stands for an address inside a 2 MB page after the page has been split.\<close>

definition piece :: "u64 \<Rightarrow> u64 \<Rightarrow> u64" where
  "piece e w = ((e AND NOT (2 * 1024 * 1024 - 1)) + of_nat (lix 3 w) * 4096) OR ((e AND 0xFFF) AND NOT PTE_HUGE)"

text \<open>The translation of \<open>w\<close> once the 2 MB page of \<open>v\<close>, if there is one, has been split.\<close>

definition split_transl :: "vm \<Rightarrow> nat \<Rightarrow> u64 \<Rightarrow> u64 \<Rightarrow> u64 option" where
  "split_transl s cr3 v w =
     (case huge_at s cr3 v of
        None \<Rightarrow> transl s cr3 w
      | Some e \<Rightarrow> if same_path 3 v w then if is_present (piece e w) then Some (piece e w) else None
                 else transl s cr3 w)"

lemma split_huge_ok:
  assumes ok: "vm_ok s cr3 L" and ne: "free_set L \<noteq> {}" and t: "tbl s cr3 v 2 = Some t"
    and h: "is_huge (vm_mem s (lslot t 2 v))"
  shows "\<exists>u s' L'. split_huge oom (lslot t 2 v) s = (Some u, s') \<and> tbl s' cr3 v 3 = Some u \<and>
    keeps s L s' L' cr3 1 \<and> transl s' cr3 = split_transl s cr3 v"
proof -
  let ?e = "vm_mem s (lslot t 2 v)"
  let ?f = "\<lambda>o'. ((?e AND NOT (2 * 1024 * 1024 - 1)) + of_nat (o' div 8) * of_nat PAGE_SIZE) OR ((?e AND 0xFFF) AND NOT PTE_HUGE)"
  have "pmm_inv (pmm_of s) L" using ok by (simp add: vm_ok_def)
  then obtain p s1 L1 where al: "page_alloc oom s = (p, s1)" "fresh_page L p"
      "pmm_inv (pmm_of s1) L1" "managed (free_set L1) = managed (free_set L) - {p}"
      "card (free_set L1) = card (free_set L) - 1" "\<And>a. outside (managed (free_set L)) a \<Longrightarrow> vm_mem s1 a = vm_mem s a"
      "same_rest s s1" "\<And>q. 4096 dvd q \<Longrightarrow> q \<noteq> p \<Longrightarrow> pmm_refcount (pmm_of s1) q = pmm_refcount (pmm_of s) q"
      "\<And>x. x < 4096 \<Longrightarrow> vm_mem s1 (p + x) = 0"
    using ne by (rule page_alloc_ok [where oom = oom]) (rule that; assumption)
  define s' where "s' = set_word (lslot t 2 v) (of_nat p OR table_flags) (fill_page p ?f s1)"
  have none: "tbl s cr3 v (Suc 2) = None" using h by (simp only: tbl.simps t) (simp add: Let_def)
  have three: "Suc 2 = 3" and z: "2 \<le> (2 :: nat)" "(2 :: nat) < 2 \<longrightarrow> ?f = (\<lambda>_. 0)" by simp_all
  have p0: "p \<noteq> 0" using al(2) by (simp add: fresh_page_def)
  note G = graft_page [OF ok t z(1) none z(2) al(1-7), folded s'_def, unfolded three]
  have sp: "split_huge oom (lslot t 2 v) s = (Some p, s')"
    using al(1) p0 by (simp add: split_huge_def s'_def Let_def)
  have hv: "huge_at s cr3 v = Some ?e" using t h by (simp add: huge_at_def)
  have f: "?f (8 * lix 3 w) = piece ?e w" for w by (simp add: piece_def PAGE_SIZE_def)
  have "transl s' cr3 w = split_transl s cr3 v w" for w
    using grafted_transl [OF G(1), of w] hv unfolding f by (simp add: split_transl_def)
  then show ?thesis using sp G by (intro exI [of _ p] exI [of _ s'] exI [of _ L1]) (auto simp: fun_eq_iff)
qed

lemma keeps_ok: "keeps s L s' L' cr3 n \<Longrightarrow> vm_ok s' cr3 L'"
  by (simp add: keeps_def)

lemma keeps_free: "keeps s L s' L' cr3 n \<Longrightarrow> n < card (free_set L) \<Longrightarrow> free_set L' \<noteq> {}"
  by (auto simp: keeps_def)

lemma keeps_step:
  "keeps s L s1 L1 cr3 n \<Longrightarrow> keeps s1 L1 s2 L2 cr3 1 \<Longrightarrow> keeps s L s2 L2 cr3 (Suc n)"
  using keeps_trans [of s L s1 L1 cr3 n s2 L2 1] by simp

lemma pte_get_ok:
  assumes ok: "vm_ok s cr3 L" and c: "3 \<le> card (free_set L)"
  shows "\<exists>t s' L'. pte_get oom cr3 v True s = (Some (lslot t 3 v), s') \<and> tbl s' cr3 v 3 = Some t \<and>
    keeps s L s' L' cr3 3 \<and> transl s' cr3 = split_transl s cr3 v"
proof -
  have ls: "slot_of t 39 v = lslot t 0 v" "slot_of t 30 v = lslot t 1 v" "slot_of t 21 v = lslot t 2 v"
      "slot_of t 12 v = lslot t 3 v" for t
    by (simp_all add: lslot_def)
  have ne: "free_set L \<noteq> {}" using c by auto
  obtain u1 s1 L1 where n1: "next_table oom True (lslot cr3 0 v) s = (Some u1, s1)" "tbl s1 cr3 v 1 = Some u1"
      "keeps s L s1 L1 cr3 1" "transl s1 cr3 = transl s cr3" "huge_at s1 cr3 = huge_at s cr3"
    using next_table_ok [OF ok ne, of v 0 cr3 oom] by auto
  have ne1: "free_set L1 \<noteq> {}" using keeps_free [OF n1(3)] c by simp
  obtain u2 s2 L2 where n2: "next_table oom True (lslot u1 1 v) s1 = (Some u2, s2)" "tbl s2 cr3 v 2 = Some u2"
      "keeps s1 L1 s2 L2 cr3 1" "transl s2 cr3 = transl s1 cr3" "huge_at s2 cr3 = huge_at s1 cr3"
    using next_table_ok [OF keeps_ok [OF n1(3)] ne1 n1(2), of oom] by (auto simp: numeral_2_eq_2)
  have k2: "keeps s L s2 L2 cr3 2" using keeps_step [OF n1(3) n2(3)] by (simp add: numeral_2_eq_2)
  have ne2: "free_set L2 \<noteq> {}" using keeps_free [OF k2] c by simp
  have sp: "split_transl s2 cr3 v = split_transl s cr3 v"
    unfolding split_transl_def n2(4,5) n1(4,5) ..
  let ?a = "lslot u2 2 v"
  have "\<exists>u3 s3 L3. (if is_huge (vm_mem s2 ?a) then split_huge oom ?a s2 else next_table oom True ?a s2) = (Some u3, s3) \<and>
      tbl s3 cr3 v 3 = Some u3 \<and> keeps s2 L2 s3 L3 cr3 1 \<and> transl s3 cr3 = split_transl s2 cr3 v"
  proof (cases "is_huge (vm_mem s2 ?a)")
    case True
    then show ?thesis using split_huge_ok [OF keeps_ok [OF n2(3)] ne2 n2(2) True, of oom] by simp
  next
    case False
    then have "huge_at s2 cr3 v = None" using n2(2) by (simp add: huge_at_def)
    then have "split_transl s2 cr3 v = transl s2 cr3" by (simp add: split_transl_def fun_eq_iff)
    moreover have "(2 :: nat) \<le> 2" "(2 :: nat) = 2 \<longrightarrow> \<not> is_huge (vm_mem s2 ?a)" using False by simp_all
    note next_table_ok [OF keeps_ok [OF n2(3)] ne2 n2(2) this, of oom]
    ultimately show ?thesis using False by (auto simp: numeral_3_eq_3 numeral_2_eq_2)
  qed
  then obtain u3 s3 L3 where n3: "(if is_huge (vm_mem s2 ?a) then split_huge oom ?a s2 else next_table oom True ?a s2) = (Some u3, s3)"
      "tbl s3 cr3 v 3 = Some u3" "keeps s2 L2 s3 L3 cr3 1" "transl s3 cr3 = split_transl s2 cr3 v" by blast
  have k3: "keeps s L s3 L3 cr3 3" using keeps_step [OF k2 n3(3)] by (simp add: numeral_3_eq_3 numeral_2_eq_2)
  have "pte_get oom cr3 v True s = (Some (lslot u3 3 v), s3)"
    using n1(1) n2(1) [unfolded One_nat_def] n3(1) by (simp add: pte_get_def ls split: if_splits)
  then show ?thesis using n3(2,4) k3 sp by auto
qed

text \<open>Writing the last entry: only the meaning of the addresses of that page changes.\<close>

lemma leaf_hit:
  assumes tok: "tables_ok s cr3 F" and t: "tbl s cr3 v 3 = Some t" and u: "tbl s cr3 w d = Some u" "d \<le> 3"
  shows "lslot u d w = lslot t 3 v \<longleftrightarrow> d = 3 \<and> same_path 4 v w"
proof
  note tD = tables_okD [OF tok _ t, simplified]
  assume "lslot u d w = lslot t 3 v"
  then have eq: "u = t" "lix d w = lix 3 v" using lslot_apart [OF tables_okD(1) [OF tok u(2,1)] tD(1)] by auto
  then have "3 = d" "same_path 3 v w" using tD(3,4) [OF u(2)] u(1) by auto
  then show "d = 3 \<and> same_path 4 v w" using eq same_path_Suc [of 3 v w] by simp
next
  assume a: "d = 3 \<and> same_path 4 v w"
  then have "u = t" using tbl_same_path [of 3 v w s cr3] u(1) t same_path_mono [of 4 v w 3] by simp
  then show "lslot u d w = lslot t 3 v" using a by (simp add: lslot_eq same_path_def)
qed

lemma leaf_write:
  assumes tok: "tables_ok s cr3 F" and t: "tbl s cr3 v 3 = Some t" and m: "vm_mem s' = (vm_mem s)(lslot t 3 v := e)"
  shows "d \<le> 3 \<Longrightarrow> tbl s' cr3 w d = tbl s cr3 w d" "huge_at s' cr3 = huge_at s cr3" "tables_ok s' cr3 F"
    "transl s' cr3 = (\<lambda>w. if same_path 4 v w then if is_present e then Some e else None else transl s cr3 w)"
proof -
  note hit = leaf_hit [OF tok t]
  have T: "tbl s' cr3 w d = tbl s cr3 w d" if "d \<le> 3" for w d
    using that
  proof (induction d)
    case (Suc d)
    then show ?case using hit [of w d] m by (cases "tbl s cr3 w d") (auto simp: Let_def)
  qed simp
  then show "d \<le> 3 \<Longrightarrow> tbl s' cr3 w d = tbl s cr3 w d" by blast
  show "huge_at s' cr3 = huge_at s cr3"
    using T [of 2] hit [of _ 2] m by (auto simp: huge_at_def fun_eq_iff split: option.splits)
  show "tables_ok s' cr3 F" using tok T unfolding tables_ok_def by simp
  show "transl s' cr3 = (\<lambda>w. if same_path 4 v w then if is_present e then Some e else None else transl s cr3 w)"
  proof
    fix w
    have "tbl s cr3 w 3 = Some t" if "same_path 4 v w"
      using tbl_same_path [of 3 v w s cr3] t that same_path_mono [of 4 v w 3] by simp
    then show "transl s' cr3 w = (if same_path 4 v w then if is_present e then Some e else None else transl s cr3 w)"
      using T [of 3 w] hit [of w 3] m by (auto simp: transl_def split: option.splits)
  qed
qed

lemma write_leaf:
  fixes e :: u64
  assumes ok: "vm_ok s cr3 L" and t: "tbl s cr3 v 3 = Some t"
  defines "s' \<equiv> set_word (lslot t 3 v) e s"
  shows "keeps s L s' L cr3 0"
    "transl s' cr3 = (\<lambda>w. if same_path 4 v w then if is_present e then Some e else None else transl s cr3 w)"
proof -
  have tok: "tables_ok s cr3 (managed (free_set L))" using ok by (simp add: vm_ok_def)
  note tD = tables_okD [OF tok _ t, simplified]
  have m: "vm_mem s' = (vm_mem s)(lslot t 3 v := e)" by (simp add: s'_def)
  note W = leaf_write [OF tok t m]
  show "transl s' cr3 = (\<lambda>w. if same_path 4 v w then if is_present e then Some e else None else transl s cr3 w)"
    by (rule W(4))
  have "is_data s' cr3 L q \<and> (\<forall>x < 4096. vm_mem s' (q + x) = vm_mem s (q + x))" if q: "is_data s cr3 L q" for q
  proof -
    have qp: "q \<noteq> t" "4096 dvd q" using q t by (auto simp: is_data_def)
    have "q + x \<noteq> lslot t 3 v" if "x < 4096" for x
      using pages_apart [OF qp(2) tD(1) qp(1), of "q + x"] lslot_in [of t 3 v] that by auto
    then show ?thesis using q W(1) m by (simp add: is_data_def)
  qed
  moreover have "pmm_inv (pmm_of s') L"
  proof (rule mem_inv)
    show "pmm_inv (pmm_of s) L" using ok by (simp add: vm_ok_def)
    show "vm_mem s' a = vm_mem s a" if "\<not> outside (managed (free_set L)) a" for a
      using that table_outside [OF ok t] by (auto simp: s'_def)
  qed (simp add: s'_def set_word_def)
  then have "vm_ok s' cr3 L" using W(3) by (simp add: vm_ok_def)
  ultimately show "keeps s L s' L cr3 0" by (simp add: keeps_def) (simp add: s'_def)
qed

text \<open>The specification of mapping: one page is remapped, the 2 MB page around it, if any, taken apart.\<close>

definition map_spec :: "vm \<Rightarrow> nat \<Rightarrow> u64 \<Rightarrow> u64 \<Rightarrow> u64 \<Rightarrow> u64 option" where
  "map_spec s cr3 v e = (\<lambda>w. if same_path 4 v w then Some e else split_transl s cr3 v w)"

lemma vmm_map_ok:
  assumes ok: "vm_ok s cr3 L" and c: "3 \<le> card (free_set L)"
  shows "\<exists>L'. keeps s L (vmm_map oom cr3 v phys flags s) L' cr3 3 \<and>
    transl (vmm_map oom cr3 v phys flags s) cr3 = map_spec s cr3 v (((phys AND PTE_PHYS_MASK) OR flags) OR PTE_PRESENT)"
proof -
  obtain t s1 L1 where g: "pte_get oom cr3 v True s = (Some (lslot t 3 v), s1)" "tbl s1 cr3 v 3 = Some t"
      "keeps s L s1 L1 cr3 3" "transl s1 cr3 = split_transl s cr3 v"
    using pte_get_ok [OF ok c, of oom v] by blast
  let ?e = "((phys AND PTE_PHYS_MASK) OR flags) OR PTE_PRESENT"
  note W = write_leaf [OF keeps_ok [OF g(3)] g(2), where e = ?e]
  have m: "vmm_map oom cr3 v phys flags s = set_word (lslot t 3 v) ?e s1" using g(1) by (simp add: vmm_map_def)
  have "bit ?e 0" by (simp add: bit_or_iff PTE_PRESENT_def)
  then have "is_present ?e" by (simp add: is_present_def PTE_PRESENT_def and_one_eq odd_iff_mod_2_eq_one bit_0)
  then have "transl (vmm_map oom cr3 v phys flags s) cr3 = map_spec s cr3 v ?e"
    using W(2) g(4) m by (simp add: map_spec_def cong: if_cong)
  moreover have "keeps s L (vmm_map oom cr3 v phys flags s) L1 cr3 3"
    using keeps_trans [OF g(3) W(1)] m by simp
  ultimately show ?thesis by blast
qed

lemma vmm_unmap_transl:
  assumes tok: "tables_ok s cr3 F"
  shows "tables_ok (vmm_unmap cr3 v s) cr3 F"
    "transl (vmm_unmap cr3 v s) cr3 = (\<lambda>w. if same_path 4 v w then None else transl s cr3 w)"
proof -
  have "tables_ok (vmm_unmap cr3 v s) cr3 F \<and>
      transl (vmm_unmap cr3 v s) cr3 = (\<lambda>w. if same_path 4 v w then None else transl s cr3 w)"
  proof (cases "tbl s cr3 v 3")
    case None
    have "transl s cr3 w = None" if "same_path 4 v w" for w
      using tbl_same_path [of 3 v w s cr3] same_path_mono [OF that, of 3] None by (simp add: transl_def)
    then show ?thesis using None tok by (auto simp: vmm_unmap_def pte_find_eq)
  next
    case (Some t)
    then show ?thesis using leaf_write(3,4) [OF tok Some, where e = 0] by (simp add: vmm_unmap_def pte_find_eq)
  qed
  then show "tables_ok (vmm_unmap cr3 v s) cr3 F"
    "transl (vmm_unmap cr3 v s) cr3 = (\<lambda>w. if same_path 4 v w then None else transl s cr3 w)" by auto
qed

section \<open>Data pages\<close>

text \<open>Writing into pages that are not tables does not change the meaning of the tables.\<close>

definition no_tables_in :: "vm \<Rightarrow> nat \<Rightarrow> nat set \<Rightarrow> bool" where
  "no_tables_in s cr3 P \<longleftrightarrow> (\<forall>w e t. e \<le> 3 \<longrightarrow> tbl s cr3 w e = Some t \<longrightarrow> t \<notin> P)"

lemma no_tables_free: "tables_ok s cr3 F \<Longrightarrow> no_tables_in s cr3 F"
  by (auto simp: no_tables_in_def tables_ok_def)

lemma no_tables_less: "no_tables_in s cr3 P \<Longrightarrow> Q \<subseteq> P \<Longrightarrow> no_tables_in s cr3 Q"
  by (auto simp: no_tables_in_def)

lemma frame_tables:
  assumes tok: "tables_ok s cr3 F" and P: "\<forall>q \<in> P. 4096 dvd q" "no_tables_in s cr3 P"
    and m: "\<forall>x. outside P x \<longrightarrow> vm_mem s' x = vm_mem s x"
  shows "d \<le> 3 \<Longrightarrow> tbl s' cr3 w d = tbl s cr3 w d" "transl s' cr3 = transl s cr3" "huge_at s' cr3 = huge_at s cr3"
    "no_tables_in s cr3 F' \<Longrightarrow> tables_ok s' cr3 F'"
proof -
  have M: "vm_mem s' (lslot u d w) = vm_mem s (lslot u d w)" if "tbl s cr3 w d = Some u" "d \<le> 3" for u d w
    using m outside_page [OF P(1) tables_okD(1) [OF tok that(2,1)], of "lslot u d w"] P(2) that lslot_in [of u d w]
    unfolding no_tables_in_def by blast
  have T: "tbl s' cr3 w d = tbl s cr3 w d" if "d \<le> 3" for w d
    using that
  proof (induction d)
    case (Suc d)
    then show ?case using M [of w d] by (cases "tbl s cr3 w d") (auto simp: Let_def)
  qed simp
  then show "d \<le> 3 \<Longrightarrow> tbl s' cr3 w d = tbl s cr3 w d" by blast
  show "transl s' cr3 = transl s cr3" using T [of 3] M [of _ 3] by (auto simp: transl_def fun_eq_iff split: option.splits)
  show "huge_at s' cr3 = huge_at s cr3" using T [of 2] M [of _ 2] by (auto simp: huge_at_def fun_eq_iff split: option.splits)
  show "no_tables_in s cr3 F' \<Longrightarrow> tables_ok s' cr3 F'"
    using tok T unfolding tables_ok_def no_tables_in_def by simp
qed

lemma data_page_alloc:
  assumes ok: "vm_ok s cr3 L" and ne: "free_set L \<noteq> {}"
  obtains p s1 L1 where "page_alloc oom s = (p, s1)" "fresh_page L p" "keeps s L s1 L1 cr3 1" "is_data s1 cr3 L1 p"
    "transl s1 cr3 = transl s cr3" "huge_at s1 cr3 = huge_at s cr3"
    "\<And>x. x < 4096 \<Longrightarrow> vm_mem s1 (p + x) = 0"
    "\<And>q. 4096 dvd q \<Longrightarrow> q \<noteq> p \<Longrightarrow> pmm_refcount (pmm_of s1) q = pmm_refcount (pmm_of s) q"
    "\<And>w d. d \<le> 3 \<Longrightarrow> tbl s1 cr3 w d = tbl s cr3 w d"
proof -
  have inv: "pmm_inv (pmm_of s) L" and tok: "tables_ok s cr3 (managed (free_set L))" using ok by (auto simp: vm_ok_def)
  obtain p s1 L1 where al: "page_alloc oom s = (p, s1)" "fresh_page L p" "pmm_inv (pmm_of s1) L1"
      "managed (free_set L1) = managed (free_set L) - {p}" "card (free_set L1) = card (free_set L) - 1"
      "\<And>a. outside (managed (free_set L)) a \<Longrightarrow> vm_mem s1 a = vm_mem s a" "same_rest s s1"
      "\<And>q. 4096 dvd q \<Longrightarrow> q \<noteq> p \<Longrightarrow> pmm_refcount (pmm_of s1) q = pmm_refcount (pmm_of s) q"
      "\<And>x. x < 4096 \<Longrightarrow> vm_mem s1 (p + x) = 0"
    using inv ne by (rule page_alloc_ok [where oom = oom]) (rule that; assumption)
  have p: "4096 dvd p" "p \<in> managed (free_set L)" using al(2) by (auto simp: fresh_page_def)
  note nt = no_tables_free [OF tok]
  have "\<forall>x. outside (managed (free_set L)) x \<longrightarrow> vm_mem s1 x = vm_mem s x" using al(6) by blast
  note Fr = frame_tables [OF tok managed_aligned nt this]
  have tok1: "tables_ok s1 cr3 (managed (free_set L1))" by (rule Fr(4), rule no_tables_less [OF nt]) (use al(4) in auto)
  have "is_data s1 cr3 L1 q \<and> (\<forall>x < 4096. vm_mem s1 (q + x) = vm_mem s (q + x))" if q: "is_data s cr3 L q" for q
    using q al(4,6) Fr(1) data_outside [OF q] by (auto simp: is_data_def)
  then have k: "keeps s L s1 L1 cr3 1" using tok1 al(3,5,7) by (simp add: keeps_def vm_ok_def)
  have d: "is_data s1 cr3 L1 p" using p al(4) Fr(1) nt by (auto simp: is_data_def no_tables_in_def)
  show ?thesis by (rule that [OF al(1,2) k d Fr(2,3) al(9,8) Fr(1)])
qed

text \<open>Rewriting a data page, and changing reference counts.\<close>

lemma fill_data_page:
  fixes f :: "nat \<Rightarrow> u64"
  assumes ok: "vm_ok s cr3 L" and p: "is_data s cr3 L p"
  defines "s' \<equiv> fill_page p f s"
  shows "vm_ok s' cr3 L" "transl s' cr3 = transl s cr3" "d \<le> 3 \<Longrightarrow> tbl s' cr3 w d = tbl s cr3 w d"
    "is_data s' cr3 L q = is_data s cr3 L q"
    "is_data s cr3 L q \<Longrightarrow> q \<noteq> p \<Longrightarrow> x < 4096 \<Longrightarrow> vm_mem s' (q + x) = vm_mem s (q + x)"
    "x < 4096 \<Longrightarrow> vm_mem s' (p + x) = f x"
proof -
  have tok: "tables_ok s cr3 (managed (free_set L))" using ok by (simp add: vm_ok_def)
  have p4: "4096 dvd p" and pd: "e \<le> 3 \<Longrightarrow> tbl s cr3 w e \<noteq> Some p" for w e using p by (auto simp: is_data_def)
  have nt: "no_tables_in s cr3 {p}" using pd by (auto simp: no_tables_in_def)
  have p4': "\<forall>q \<in> {p}. 4096 dvd q" using p4 by simp
  have m: "\<forall>x. outside {p} x \<longrightarrow> vm_mem s' x = vm_mem s x" by (auto simp: s'_def outside_def)
  note F = frame_tables [OF tok p4' nt m]
  have "pmm_inv (pmm_of s') L"
  proof (rule mem_inv)
    show "pmm_inv (pmm_of s) L" using ok by (simp add: vm_ok_def)
    show "vm_mem s' a = vm_mem s a" if "\<not> outside (managed (free_set L)) a" for a
    proof -
      have "outside (managed (free_set L)) a" if "p \<le> a" "a < p + 4096"
        using data_outside [OF p, of "a - p"] that by simp
      then show ?thesis using that by (auto simp: s'_def)
    qed
  qed (simp add: s'_def fill_page_def)
  moreover have "tables_ok s' cr3 (managed (free_set L))" by (rule F(4) [OF no_tables_free [OF tok]])
  ultimately show "vm_ok s' cr3 L" by (simp add: vm_ok_def)
  show "transl s' cr3 = transl s cr3" by (rule F(2))
  show "d \<le> 3 \<Longrightarrow> tbl s' cr3 w d = tbl s cr3 w d" by (rule F(1))
  show "is_data s' cr3 L q = is_data s cr3 L q" using F(1) by (simp add: is_data_def)
  show "is_data s cr3 L q \<Longrightarrow> q \<noteq> p \<Longrightarrow> x < 4096 \<Longrightarrow> vm_mem s' (q + x) = vm_mem s (q + x)"
    using pages_apart [of q p "q + x"] p by (auto simp: is_data_def s'_def)
  show "x < 4096 \<Longrightarrow> vm_mem s' (p + x) = f x" by (simp add: s'_def)
qed

text \<open>Dropping a reference that is not the last one.\<close>

lemma unref_shared:
  assumes ok: "vm_ok s cr3 L" and rc: "1 < pmm_refcount (pmm_of s) p"
  shows "vm_ok (unref_page p s) cr3 L" "transl (unref_page p s) cr3 = transl s cr3" "vm_mem (unref_page p s) = vm_mem s"
    "tbl (unref_page p s) cr3 w d = tbl s cr3 w d" "is_data (unref_page p s) cr3 L q = is_data s cr3 L q"
    "pmm_refcount (pmm_of (unref_page p s)) p = pmm_refcount (pmm_of s) p - 1"
proof -
  let ?pm = "pmm_of s" and ?i = "phys_to_idx p"
  let ?pm' = "?pm\<lparr>refcnt := (refcnt ?pm)(?i := refcnt ?pm ?i - 1)\<rparr>"
  have r: "RAM_START \<le> p" "p < ram_end ?pm" "1 < refcnt ?pm ?i"
    using rc by (auto simp: pmm_refcount_def split: if_splits)
  have "refcnt ?pm ?i \<noteq> 0" "refcnt ?pm ?i - 1 \<noteq> 0" using r(3) by auto
  then have u: "unref_page p s = set_pmm ?pm' s" using r(1,2) by (simp add: unref_page_def pmm_unref_def Let_def)
  show m: "vm_mem (unref_page p s) = vm_mem s" unfolding u by (rule set_pmm_links) simp
  note M = mem_tables [OF m]
  have "pmm_inv ?pm' L" using ok by (simp add: vm_ok_def part_inv_def blocks_ok_def bfree_tst_bit)
  then show "vm_ok (unref_page p s) cr3 L" using ok M(4) set_pmm_inv by (simp add: u vm_ok_def)
  show "transl (unref_page p s) cr3 = transl s cr3" "tbl (unref_page p s) cr3 w d = tbl s cr3 w d"
    "is_data (unref_page p s) cr3 L q = is_data s cr3 L q"
    by (simp_all add: M is_data_def)
  show "pmm_refcount (pmm_of (unref_page p s)) p = pmm_refcount ?pm p - 1"
    using r by (simp add: u) (simp add: pmm_refcount_def)
qed

section \<open>What the page tables leave alone\<close>

lemma same_rest_more [simp]:
  "same_rest s (zero_page p s1) = same_rest s s1" "same_rest s (copy_page p q s1) = same_rest s s1"
  "same_rest s (free_page p s1) = same_rest s s1" "same_rest s (unref_page p s1) = same_rest s s1"
  by (simp_all add: zero_page_def copy_page_def free_page_def unref_page_def)

lemma same_rest_alloc: "page_alloc oom s = (p, s1) \<Longrightarrow> same_rest s s1"
  by (auto simp: page_alloc_def split: prod.splits if_splits)

lemma same_rest_fold: "(\<And>x s. same_rest s (f x s)) \<Longrightarrow> same_rest s (fold f xs s)"
  by (induction xs arbitrary: s) (auto intro: same_rest_trans)

lemma same_rest_destroy: "same_rest s (vmm_destroy cr3 s)"
proof -
  have pt: "same_rest s (destroy_pt pt s)" for pt s
    unfolding destroy_pt_def by (rule same_rest_fold) (auto simp: Let_def)
  have pd: "same_rest s (destroy_pd pd s)" for pd s
    unfolding destroy_pd_def by (rule same_rest_fold) (auto simp: Let_def pt)
  have pdpt: "same_rest s (destroy_pdpt pdpt s)" for pdpt s
    unfolding destroy_pdpt_def by (rule same_rest_fold) (auto simp: Let_def pd)
  show ?thesis unfolding vmm_destroy_def same_rest_more by (rule same_rest_fold) (auto simp: Let_def pdpt)
qed

lemma same_rest_map_kernel: "same_rest s (vmm_map_kernel oom cr3 s)"
proof -
  have e: "same_rest s (map_kernel_entry oom p k i s)" for p k i s
    by (auto simp: map_kernel_entry_def Let_def split: prod.splits dest: same_rest_alloc)
  have f: "same_rest s (fold (map_kernel_entry oom p k) [0..<512] s1)" if "same_rest s s1" for p k s s1
    by (rule same_rest_trans [OF that same_rest_fold [OF e]])
  show ?thesis
    by (auto simp: vmm_map_kernel_def Let_def split: prod.splits dest: same_rest_alloc intro!: f simp del: upt_rec_numeral)
qed

lemma same_rest_child: "child_table oom r pa ca s = (t, s1) \<Longrightarrow> same_rest s s1"
  by (auto simp: child_table_def Let_def split: prod.splits if_splits dest: same_rest_alloc)

lemma same_rest_fork: "same_rest s (vmm_cow_fork oom parent child s)"
proof -
  have pt: "same_rest s (fork_pt oom a b s)" for a b s
    unfolding fork_pt_def by (rule same_rest_fold) (auto simp: Let_def split: prod.splits dest: same_rest_alloc)
  have pd: "same_rest s (fork_pd oom a b s)" for a b s
    unfolding fork_pd_def
    by (rule same_rest_fold)
      (auto simp: Let_def split: prod.splits option.splits dest: same_rest_child intro: same_rest_trans [OF _ pt])
  have pdpt: "same_rest s (fork_pdpt oom f a b s)" for f a b s
    unfolding fork_pdpt_def
    by (rule same_rest_fold)
      (auto simp: Let_def split: prod.splits option.splits dest: same_rest_child intro: same_rest_trans [OF _ pd])
  show ?thesis unfolding vmm_cow_fork_def
    by (rule same_rest_trans [OF same_rest_map_kernel], rule same_rest_fold)
      (auto simp: Let_def split: prod.splits option.splits dest: same_rest_child intro: same_rest_trans [OF _ pdpt])
qed

lemma same_rest_unmap [simp]: "same_rest s (vmm_unmap cr3 v s1) = same_rest s s1"
  by (auto simp: vmm_unmap_def split: option.splits)

lemma same_rest_drop: "same_rest s (drop_page cr3 v s)"
  by (simp add: drop_page_def Let_def)

section \<open>Giving pages back\<close>

text \<open>
  Whether a page goes back to the allocator when a reference to it is dropped, and the count that is left.
\<close>

definition last_ref :: "vm \<Rightarrow> nat \<Rightarrow> bool" where
  "last_ref s p \<longleftrightarrow> pmm_refcount (pmm_of s) p = 1 \<and> phys_to_idx p < total_pages (pmm_of s)"

definition one_less :: "u8 \<Rightarrow> u8" where
  "one_less c = (if c = 0 then 0 else c - 1)"

text \<open>
  \<open>released s L s' L' cr3 R\<close>: from \<open>s\<close> to \<open>s'\<close> one reference to each frame in \<open>R\<close> was dropped.  The frames whose last
  reference this was are free; the other data pages keep their contents.
\<close>

definition released :: "vm \<Rightarrow> (nat \<Rightarrow> nat list) \<Rightarrow> vm \<Rightarrow> (nat \<Rightarrow> nat list) \<Rightarrow> nat \<Rightarrow> nat set \<Rightarrow> bool" where
  "released s L s' L' cr3 R \<longleftrightarrow> vm_ok s' cr3 L' \<and> same_rest s s' \<and> total_pages (pmm_of s') = total_pages (pmm_of s) \<and>
     managed (free_set L') = managed (free_set L) \<union> {p \<in> R. last_ref s p} \<and>
     (\<forall>q. is_data s cr3 L q \<longrightarrow> \<not> (q \<in> R \<and> last_ref s q) \<longrightarrow>
        is_data s' cr3 L' q \<and> (\<forall>x < 4096. vm_mem s' (q + x) = vm_mem s (q + x))) \<and>
     (\<forall>q. 4096 dvd q \<longrightarrow> pmm_refcount (pmm_of s') q =
        (if q \<in> R then one_less (pmm_refcount (pmm_of s) q) else pmm_refcount (pmm_of s) q))"

lemma released_none: "vm_ok s cr3 L \<Longrightarrow> (\<And>q. q \<in> R \<Longrightarrow> pmm_refcount (pmm_of s) q = 0) \<Longrightarrow> released s L s L cr3 R"
  by (auto simp: released_def last_ref_def one_less_def)

lemma managed_idx: "4096 dvd p \<Longrightarrow> RAM_START \<le> p \<Longrightarrow> idx_to_phys (phys_to_idx p) = p"
  by (auto simp: idx_to_phys_def phys_to_idx_def RAM_START_def PAGE_SIZE_def elim!: dvdE)

lemma phys_to_idx_inj:
  "4096 dvd p \<Longrightarrow> 4096 dvd q \<Longrightarrow> RAM_START \<le> p \<Longrightarrow> RAM_START \<le> q \<Longrightarrow> phys_to_idx p = phys_to_idx q \<Longrightarrow> p = q"
  by (metis managed_idx)

text \<open>The allocator touches only free pages and the page it is given.\<close>

lemma set_pmm_data:
  assumes ok: "vm_ok s cr3 L" and inv: "pmm_inv pm L'" and F: "managed (free_set L') = managed (free_set L) \<union> P"
    and P: "\<And>q. q \<in> P \<Longrightarrow> is_data s cr3 L q" and n: "\<And>x. x \<notin> free_set L' \<Longrightarrow> nodes pm x = nodes (pmm_of s) x"
  shows "vm_ok (set_pmm pm s) cr3 L'" "d \<le> 3 \<Longrightarrow> tbl (set_pmm pm s) cr3 w d = tbl s cr3 w d"
    "transl (set_pmm pm s) cr3 = transl s cr3"
    "is_data s cr3 L q \<Longrightarrow> q \<notin> P \<Longrightarrow> is_data (set_pmm pm s) cr3 L' q \<and>
       (\<forall>x < 4096. vm_mem (set_pmm pm s) (q + x) = vm_mem s (q + x))"
proof -
  have tok: "tables_ok s cr3 (managed (free_set L))" using ok by (simp add: vm_ok_def)
  have out: "vm_mem (set_pmm pm s) a = vm_mem s a" if a: "outside (managed (free_set L')) a" for a
  proof -
    have "phys_to_idx a \<notin> free_set L'" if "a = idx_to_phys (phys_to_idx a)"
      using that a by (force simp: outside_def managed_def)
    then have "nodes pm (phys_to_idx a) = nodes (pmm_of s) (phys_to_idx a)" if "a = idx_to_phys (phys_to_idx a)"
      using n that by blast
    then show ?thesis by (auto simp: set_pmm_mem store_nodes_at pmm_of_def)
  qed
  have nt: "no_tables_in s cr3 (managed (free_set L'))"
    using no_tables_free [OF tok] P F by (auto simp: is_data_def no_tables_in_def)
  have "\<forall>x. outside (managed (free_set L')) x \<longrightarrow> vm_mem (set_pmm pm s) x = vm_mem s x" using out by blast
  note Fr = frame_tables [OF tok managed_aligned nt this]
  show "vm_ok (set_pmm pm s) cr3 L'" using set_pmm_inv [OF inv] Fr(4) nt by (simp add: vm_ok_def)
  have T: "d \<le> 3 \<Longrightarrow> tbl (set_pmm pm s) cr3 w d = tbl s cr3 w d" for d w by (rule Fr(1))
  then show "d \<le> 3 \<Longrightarrow> tbl (set_pmm pm s) cr3 w d = tbl s cr3 w d" .
  show "transl (set_pmm pm s) cr3 = transl s cr3" by (rule Fr(2))
  assume q: "is_data s cr3 L q" "q \<notin> P"
  then have d: "is_data (set_pmm pm s) cr3 L' q" using T F by (auto simp: is_data_def)
  have "is_data s cr3 L' q" using q F by (auto simp: is_data_def)
  then have "outside (managed (free_set L')) (q + x)" if "x < 4096" for x using data_outside that by blast
  then show "is_data (set_pmm pm s) cr3 L' q \<and> (\<forall>x < 4096. vm_mem (set_pmm pm s) (q + x) = vm_mem s (q + x))"
    using d out by blast
qed

lemma unref_data:
  assumes ok: "vm_ok s cr3 L" and p: "is_data s cr3 L p"
    and b: "last_ref s p \<Longrightarrow> whole_buddies (pmm_of s) L (phys_to_idx p) 0"
  shows "\<exists>L'. released s L (unref_page p s) L' cr3 {p} \<and> transl (unref_page p s) cr3 = transl s cr3"
proof -
  let ?pm = "pmm_of s" and ?i = "phys_to_idx p"
  let ?pm1 = "?pm\<lparr>refcnt := (refcnt ?pm)(?i := refcnt ?pm ?i - 1)\<rparr>"
  have p4: "4096 dvd p" using p by (simp add: is_data_def)
  have inv: "pmm_inv ?pm L" using ok by (simp add: vm_ok_def)
  have inv1: "pmm_inv ?pm1 L" using inv by (simp add: part_inv_def blocks_ok_def bfree_tst_bit)
  consider (none) "pmm_refcount ?pm p = 0" | (free) "last_ref s p" | (dec) "pmm_refcount ?pm p \<noteq> 0" "\<not> last_ref s p" by blast
  then show ?thesis
  proof cases
    case none
    then have u: "unref_page p s = set_pmm ?pm s" by (auto simp: unref_page_def pmm_unref_def pmm_refcount_def)
    note S = set_pmm_data [OF ok inv, of "{}", simplified]
    have "released s L (unref_page p s) L cr3 {p}"
      using S none by (auto simp: u released_def last_ref_def one_less_def)
    then show ?thesis using S(3) u by auto
  next
    case dec
    then have r: "RAM_START \<le> p" "p < ram_end ?pm" "refcnt ?pm ?i \<noteq> 0" by (auto simp: pmm_refcount_def split: if_splits)
    have "snd (pmm_unref ?pm p) = ?pm1"
    proof (cases "refcnt ?pm ?i = 1")
      case True
      then have "total_pages ?pm \<le> ?i" using dec r by (auto simp: last_ref_def pmm_refcount_def)
      then show ?thesis using r True by (simp add: pmm_unref_def Let_def pmm_free_def pmm_free_order_def)
    next
      case False
      then have "refcnt ?pm ?i - 1 \<noteq> 0" by auto
      then show ?thesis using r by (simp add: pmm_unref_def Let_def)
    qed
    then have u: "unref_page p s = set_pmm ?pm1 s" by (simp add: unref_page_def)
    note S = set_pmm_data [OF ok inv1, of "{}", simplified]
    have "pmm_refcount ?pm1 q = (if q = p then one_less (pmm_refcount ?pm q) else pmm_refcount ?pm q)" if "4096 dvd q" for q
      using r phys_to_idx_inj [OF that p4] by (auto simp: pmm_refcount_def one_less_def)
    then have "released s L (unref_page p s) L cr3 {p}"
      using S dec(2) by (auto simp: u released_def)
    then show ?thesis using S(3) u by auto
  next
    case free
    then have r: "RAM_START \<le> p" "p < ram_end ?pm" "refcnt ?pm ?i = 1" "?i < total_pages ?pm"
      by (auto simp: last_ref_def pmm_refcount_def split: if_splits)
    have ip: "idx_to_phys ?i = p" using managed_idx [OF p4 r(1)] .
    have nf: "?i \<notin> free_set L" using p ip by (simp add: is_data_def managed_def) (metis imageI)
    have b0: "blk 0 ?i = {?i}" by (auto simp: blk_def)
    have w: "whole_buddies ?pm1 L ?i 0" using b [OF free] by (simp add: whole_buddies_def)
    have pre: "?i + 2 ^ 0 \<le> total_pages ?pm1" "idx_to_phys ?i < ram_end ?pm1" "blk 0 ?i \<inter> free_set L = {}"
      using r ip nf b0 by simp_all
    obtain L' where F: "pmm_inv (pmm_free ?pm1 p) L'" "free_set L' = insert ?i (free_set L)" "refcnt (pmm_free ?pm1 p) = refcnt ?pm1"
        "total_pages (pmm_free ?pm1 p) = total_pages ?pm" "ram_end (pmm_free ?pm1 p) = ram_end ?pm"
        "\<And>x. x \<notin> free_set L' \<Longrightarrow> nodes (pmm_free ?pm1 p) x = nodes ?pm x"
      using pmm_free_order_inv [OF inv1 _ _ pre w] b0 ip by (auto simp: pmm_free_def)
    have u: "unref_page p s = set_pmm (pmm_free ?pm1 p) s" using r by (simp add: unref_page_def pmm_unref_def Let_def)
    have m: "managed (free_set L') = managed (free_set L) \<union> {p}" using F(2) ip by (auto simp: managed_def)
    have P: "is_data s cr3 L q" if "q \<in> {p}" for q using p that by simp
    note S = set_pmm_data [OF ok F(1) m P F(6)]
    have "pmm_refcount (pmm_free ?pm1 p) q = (if q = p then one_less (pmm_refcount ?pm q) else pmm_refcount ?pm q)"
      if "4096 dvd q" for q
      using r F(3,5) phys_to_idx_inj [OF that p4] by (auto simp: pmm_refcount_def one_less_def)
    then have "released s L (unref_page p s) L' cr3 {p}"
      using S m free F(4) by (auto simp: u released_def)
    then show ?thesis using S(3) u by auto
  qed
qed

text \<open>The pages of a range; virtual addresses wrap.\<close>

definition page_at :: "u64 \<Rightarrow> nat \<Rightarrow> u64" where
  "page_at v k = v + of_nat k * of_nat PAGE_SIZE"

definition in_pages :: "u64 \<Rightarrow> nat \<Rightarrow> u64 \<Rightarrow> bool" where
  "in_pages v n w \<longleftrightarrow> (\<exists>k < n. same_path 4 (page_at v k) w)"

lemma in_pages_Suc: "in_pages v (Suc n) w \<longleftrightarrow> same_path 4 v w \<or> in_pages (v + of_nat PAGE_SIZE) n w"
proof -
  have "page_at v (Suc k) = page_at (v + of_nat PAGE_SIZE) k" for k by (simp add: page_at_def algebra_simps)
  moreover have "page_at v 0 = v" by (simp add: page_at_def)
  moreover have "(\<exists>k < Suc n. P k) \<longleftrightarrow> P 0 \<or> (\<exists>k < n. P (Suc k))" for P by (simp add: Ex_less_Suc2)
  ultimately show ?thesis unfolding in_pages_def by simp
qed

text \<open>
  The condition of \<open>pmm_free_order_correct\<close> along the loop: whenever a frame of the range loses its last reference,
  each of its buddies whose first page is free is a whole free block.
\<close>

fun buddies_whole :: "nat \<Rightarrow> u64 \<Rightarrow> nat \<Rightarrow> vm \<Rightarrow> bool" where
  "buddies_whole cr3 va 0 s \<longleftrightarrow> True"
| "buddies_whole cr3 va (Suc n) s \<longleftrightarrow>
     (\<forall>e L. transl s cr3 va = Some e \<longrightarrow> last_ref s (entry_phys e) \<longrightarrow> pmm_inv (pmm_of s) L \<longrightarrow>
        whole_buddies (pmm_of s) L (phys_to_idx (entry_phys e)) 0) \<and>
     buddies_whole cr3 (va + of_nat PAGE_SIZE) n (drop_page cr3 va s)"

text \<open>The frames mapped in a range of pages.\<close>

definition frames_in :: "vm \<Rightarrow> nat \<Rightarrow> u64 \<Rightarrow> nat \<Rightarrow> nat set" where
  "frames_in s cr3 va n = {p. \<exists>w e. in_pages va n w \<and> transl s cr3 w = Some e \<and> p = entry_phys e}"

definition mapped_once :: "vm \<Rightarrow> nat \<Rightarrow> u64 \<Rightarrow> nat \<Rightarrow> bool" where
  "mapped_once s cr3 va n \<longleftrightarrow>
     (\<forall>v w e e'. in_pages va n v \<longrightarrow> in_pages va n w \<longrightarrow> transl s cr3 v = Some e \<longrightarrow> transl s cr3 w = Some e' \<longrightarrow>
        entry_phys e = entry_phys e' \<longrightarrow> same_path 4 v w)"

lemma in_pages_first: "same_path 4 va w \<Longrightarrow> in_pages va (Suc n) w"
  by (simp add: in_pages_Suc)

lemma unmap_released:
  assumes R: "released s L s1 L1 cr3 R" and t: "transl s1 cr3 = transl s cr3"
  shows "released s L (vmm_unmap cr3 va s1) L1 cr3 R"
    "transl (vmm_unmap cr3 va s1) cr3 = (\<lambda>w. if same_path 4 va w then None else transl s cr3 w)"
proof -
  have ok: "vm_ok s1 cr3 L1" using R by (simp add: released_def)
  then have tok: "tables_ok s1 cr3 (managed (free_set L1))" by (simp add: vm_ok_def)
  show "transl (vmm_unmap cr3 va s1) cr3 = (\<lambda>w. if same_path 4 va w then None else transl s cr3 w)"
    using vmm_unmap_transl(2) [OF tok, of va] t by (simp cong: if_cong)
  show "released s L (vmm_unmap cr3 va s1) L1 cr3 R"
  proof (cases "tbl s1 cr3 va 3")
    case None
    then show ?thesis using R by (simp add: vmm_unmap_def pte_find_eq)
  next
    case (Some u)
    then have "vmm_unmap cr3 va s1 = set_word (lslot u 3 va) 0 s1" by (simp add: vmm_unmap_def pte_find_eq)
    then show ?thesis using R write_leaf(1) [OF ok Some, of 0] by (auto simp: released_def keeps_def)
  qed
qed

lemma drop_page_ok:
  assumes ok: "vm_ok s cr3 L" and d: "\<And>e. transl s cr3 va = Some e \<Longrightarrow> is_data s cr3 L (entry_phys e)"
    and b: "\<And>e. transl s cr3 va = Some e \<Longrightarrow> last_ref s (entry_phys e) \<Longrightarrow>
      whole_buddies (pmm_of s) L (phys_to_idx (entry_phys e)) 0"
  shows "\<exists>L'. released s L (drop_page cr3 va s) L' cr3 {entry_phys e | e. transl s cr3 va = Some e} \<and>
    transl (drop_page cr3 va s) cr3 = (\<lambda>w. if same_path 4 va w then None else transl s cr3 w)"
proof (cases "transl s cr3 va")
  case None
  then have "drop_page cr3 va s = vmm_unmap cr3 va s" by (simp add: drop_page_def virt_to_phys_eq)
  moreover have "released s L s L cr3 {}" using released_none [OF ok, of "{}"] by simp
  ultimately show ?thesis using unmap_released [of s L s L cr3 "{}" va] None by auto
next
  case (Some e)
  let ?phys = "(e AND PTE_PHYS_MASK) OR (va AND (of_nat PAGE_SIZE - 1))" and ?p = "entry_phys e"
  have R: "{entry_phys e' | e'. transl s cr3 va = Some e'} = {?p}" using Some by auto
  have v: "vmm_virt_to_phys cr3 va s = ?phys" using Some by (simp add: virt_to_phys_eq)
  have lo: "(of_nat PAGE_SIZE :: u64) - 1 = mask 12" by (simp add: PAGE_SIZE_def mask_eq_exp_minus_1)
  have "page_floor ?phys = e AND PTE_PHYS_MASK"
    unfolding page_floor_def lo by (rule bit_word_eqI) (auto simp: bit_simps bit_phys_mask)
  then have f: "unat (page_floor ?phys) = ?p" by (simp add: entry_phys_def)
  show ?thesis
  proof (cases "?phys = 0")
    case True
    then have "?p = 0" using f by (simp add: page_floor_def)
    then have "pmm_refcount (pmm_of s) q = 0" if "q \<in> {?p}" for q using that by (simp add: pmm_refcount_def RAM_START_def)
    then have "released s L s L cr3 {?p}" by (rule released_none [OF ok])
    moreover have "drop_page cr3 va s = vmm_unmap cr3 va s" using v True by (simp add: drop_page_def)
    ultimately show ?thesis using unmap_released [of s L s L cr3 "{?p}" va] R by auto
  next
    case False
    then have dp: "drop_page cr3 va s = vmm_unmap cr3 va (unref_page ?p s)" using v f by (simp add: drop_page_def)
    obtain L' where U: "released s L (unref_page ?p s) L' cr3 {?p}" "transl (unref_page ?p s) cr3 = transl s cr3"
      using unref_data [OF ok d [OF Some] b [OF Some]] by blast
    show ?thesis using unmap_released [OF U, of va] unfolding dp R by blast
  qed
qed

lemma released_trans:
  assumes A: "released s L s1 L1 cr3 R" and B: "released s1 L1 s2 L2 cr3 R'" and d: "R \<inter> R' = {}"
    and al: "\<forall>q \<in> R'. 4096 dvd q"
  shows "released s L s2 L2 cr3 (R \<union> R')"
proof -
  have l: "last_ref s1 q = last_ref s q" if "q \<in> R'" for q
    using A that d al by (auto simp: released_def last_ref_def)
  have "managed (free_set L2) = managed (free_set L) \<union> {p \<in> R \<union> R'. last_ref s p}"
    using A B l by (auto simp: released_def)
  moreover have "is_data s2 cr3 L2 q \<and> (\<forall>x < 4096. vm_mem s2 (q + x) = vm_mem s (q + x))"
    if q: "is_data s cr3 L q" "\<not> (q \<in> R \<union> R' \<and> last_ref s q)" for q
  proof -
    have 1: "is_data s1 cr3 L1 q" "\<forall>x < 4096. vm_mem s1 (q + x) = vm_mem s (q + x)" using A q by (auto simp: released_def)
    have "\<not> (q \<in> R' \<and> last_ref s1 q)" using q(2) l by auto
    then show ?thesis using B 1 by (simp add: released_def)
  qed
  moreover have "pmm_refcount (pmm_of s2) q =
      (if q \<in> R \<union> R' then one_less (pmm_refcount (pmm_of s) q) else pmm_refcount (pmm_of s) q)" if "4096 dvd q" for q
    using A B that d by (auto simp: released_def)
  moreover have "same_rest s s2" using A B same_rest_trans by (auto simp: released_def)
  ultimately show ?thesis using A B by (simp add: released_def)
qed

lemma drop_pages_ok:
  assumes "vm_ok s cr3 L" "\<forall>p \<in> frames_in s cr3 va n. is_data s cr3 L p" "mapped_once s cr3 va n" "buddies_whole cr3 va n s"
  shows "\<exists>L'. released s L (drop_pages cr3 va n s) L' cr3 (frames_in s cr3 va n) \<and>
    transl (drop_pages cr3 va n s) cr3 = (\<lambda>w. if in_pages va n w then None else transl s cr3 w)"
  using assms
proof (induction n arbitrary: va s L)
  case 0
  then show ?case using released_none [of s cr3 L "{}"] by (auto simp: in_pages_def frames_in_def)
next
  case (Suc n)
  let ?s1 = "drop_page cr3 va s" and ?va = "va + of_nat PAGE_SIZE" and ?R = "{entry_phys e | e. transl s cr3 va = Some e}"
  have in1: "in_pages va (Suc n) va" by (simp add: in_pages_first)
  then have d: "is_data s cr3 L (entry_phys e)" if "transl s cr3 va = Some e" for e
    using Suc.prems(2) that by (auto simp: frames_in_def)
  have inv: "pmm_inv (pmm_of s) L" using Suc.prems(1) by (simp add: vm_ok_def)
  have b: "whole_buddies (pmm_of s) L (phys_to_idx (entry_phys e)) 0" if "transl s cr3 va = Some e" "last_ref s (entry_phys e)" for e
    using Suc.prems(4) that inv by simp
  obtain L1 where D: "released s L ?s1 L1 cr3 ?R" "transl ?s1 cr3 = (\<lambda>w. if same_path 4 va w then None else transl s cr3 w)"
    using drop_page_ok [OF Suc.prems(1) d b] by blast
  let ?R1 = "frames_in ?s1 cr3 ?va n"
  have same: "transl s cr3 w = transl s cr3 va" if "same_path 4 va w" for w
  proof -
    have "lslot t 3 w = lslot t 3 va" for t using that by (simp add: lslot_eq same_path_def)
    then show ?thesis using tbl_same_path [of 3 va w s cr3] same_path_mono [OF that, of 3]
      by (auto simp: transl_def split: option.splits)
  qed
  have R: "?R \<union> ?R1 = frames_in s cr3 va (Suc n)"
  proof (intro equalityI subsetI)
    fix p assume "p \<in> ?R \<union> ?R1"
    then consider e where "transl s cr3 va = Some e" "p = entry_phys e"
      | w e where "in_pages ?va n w" "transl s cr3 w = Some e" "p = entry_phys e"
      using D(2) by (auto simp: frames_in_def split: if_splits)
    then show "p \<in> frames_in s cr3 va (Suc n)" using in1 unfolding frames_in_def in_pages_Suc by cases blast+
  next
    fix p assume "p \<in> frames_in s cr3 va (Suc n)"
    then obtain w e where w: "in_pages va (Suc n) w" "transl s cr3 w = Some e" "p = entry_phys e" by (auto simp: frames_in_def)
    then show "p \<in> ?R \<union> ?R1"
      using D(2) same [of w] by (cases "same_path 4 va w") (auto simp: frames_in_def in_pages_Suc)
  qed
  have dis: "?R \<inter> ?R1 = {}"
  proof (rule ccontr)
    assume "?R \<inter> ?R1 \<noteq> {}"
    then obtain e w e' where x: "transl s cr3 va = Some e" "in_pages ?va n w" "transl ?s1 cr3 w = Some e'" "entry_phys e = entry_phys e'"
      by (auto simp: frames_in_def)
    then have "\<not> same_path 4 va w" "transl s cr3 w = Some e'" using D(2) by (auto split: if_splits)
    then show False using Suc.prems(3) x in1 by (auto simp: mapped_once_def in_pages_Suc)
  qed
  have al: "\<forall>q \<in> ?R1. 4096 dvd q" by (auto simp: frames_in_def entry_phys_aligned)
  have d1: "\<forall>p \<in> ?R1. is_data ?s1 cr3 L1 p"
  proof
    fix p assume p: "p \<in> ?R1"
    then have "is_data s cr3 L p" "p \<notin> ?R" using Suc.prems(2) dis unfolding R [symmetric] by blast+
    then show "is_data ?s1 cr3 L1 p" using D(1) unfolding released_def by blast
  qed
  have m1: "mapped_once ?s1 cr3 ?va n"
    using Suc.prems(3) D(2) by (auto simp: mapped_once_def in_pages_Suc split: if_splits)
  have ok1: "vm_ok ?s1 cr3 L1" using D(1) by (simp add: released_def)
  have b1: "buddies_whole cr3 ?va n ?s1" using Suc.prems(4) by simp
  obtain L2 where I: "released ?s1 L1 (drop_pages cr3 ?va n ?s1) L2 cr3 ?R1"
      "transl (drop_pages cr3 ?va n ?s1) cr3 = (\<lambda>w. if in_pages ?va n w then None else transl ?s1 cr3 w)"
    using Suc.IH [OF ok1 d1 m1 b1] by blast
  have "released s L (drop_pages cr3 va (Suc n) s) L2 cr3 (frames_in s cr3 va (Suc n))"
    using released_trans [OF D(1) I(1) dis al] unfolding R by simp
  moreover have "transl (drop_pages cr3 va (Suc n) s) cr3 = (\<lambda>w. if in_pages va (Suc n) w then None else transl s cr3 w)"
    using I(2) D(2) by (auto simp: in_pages_Suc fun_eq_iff)
  ultimately show ?case by blast
qed

text \<open>Areas and page tables do not depend on each other.\<close>

lemma pte_find_vmas: "pte_find cr3 va (s\<lparr>vm_vmas := f\<rparr>) = pte_find cr3 va s"
proof -
  have "vm_mem (s\<lparr>vm_vmas := f\<rparr>) = vm_mem s" by simp
  note mem_tables(1) [OF this]
  then show ?thesis by (simp add: pte_find_eq)
qed

lemma drop_page_vmas: "drop_page cr3 va (s\<lparr>vm_vmas := f\<rparr>) = (drop_page cr3 va s)\<lparr>vm_vmas := f\<rparr>"
proof -
  have u: "unref_page p (s\<lparr>vm_vmas := f\<rparr>) = (unref_page p s)\<lparr>vm_vmas := f\<rparr>" for p s
    by (simp add: unref_page_def set_pmm_def pmm_of_def)
  have v: "vmm_virt_to_phys cr3 va (s\<lparr>vm_vmas := f\<rparr>) = vmm_virt_to_phys cr3 va s" for s
    by (auto simp: vmm_virt_to_phys_def pte_find_vmas split: option.splits)
  have m: "vmm_unmap cr3 va (s\<lparr>vm_vmas := f\<rparr>) = (vmm_unmap cr3 va s)\<lparr>vm_vmas := f\<rparr>" for s
    by (simp add: vmm_unmap_def pte_find_vmas set_word_def split: option.splits)
  show ?thesis by (simp add: drop_page_def Let_def u v m)
qed

lemma drop_pages_vmas: "drop_pages cr3 va n (s\<lparr>vm_vmas := f\<rparr>) = (drop_pages cr3 va n s)\<lparr>vm_vmas := f\<rparr>"
  by (induction n arbitrary: va s) (simp_all add: drop_page_vmas)

lemma shrink_loop_rest: "same_rest s (shrink_loop cr3 cur n s)"
  by (induction n arbitrary: cur s) (simp, metis shrink_loop.simps(2) same_rest_trans same_rest_drop)

end
