(* ===== verification/Paging.thy ===== *)
theory Paging
  imports VmmSpec
begin

text \<open>
  The properties of page tables, page faults and memory system calls, over the abstraction of
  VmmSpec, with a small address space on which they are applied.
\<close>

section \<open>A small address space\<close>

text \<open>
  Eight pages of memory, the first four free, a single block whose links are the word at its address.  The
  sixth page is shared by two owners and mapped read-only at address 0, the seventh has one owner and is mapped at
  \<open>0x1000\<close>; the tables lie below the managed memory.
\<close>

definition pmm_demo :: pmm where
  "pmm_demo = (buddy_add_range (pmm_blank 8) 0 4)\<lparr>refcnt := (\<lambda>_. 0)(5 := 2, 6 := 1)\<rparr>"

definition vm_demo :: vm where
  "vm_demo = \<lparr>vm_heap = \<lparr>h_mem = (\<lambda>_. 0), slab_cache = (\<lambda>_. 0), h_pmm = pmm_demo\<rparr>,
     vm_mem = (\<lambda>_. 0)(0x1000 := 0x2007, 0x2000 := 0x3007, 0x3000 := 0x4007, 0x4000 := 0x405005, 0x4008 := 0x406007,
       0x400000 := 0xFFFFFFFFFFFFFFFF),
     vm_kernel_cr3 = 0x1000,
     vm_procs = process_init(0 := pcb_zero\<lparr>pcb_state := PSTATE_RUNNING, pcb_pid := 1, pcb_cr3 := 0x1000,
       pcb_brk := 0x1003000, pcb_vma_table := 0x300000\<rparr>),
     vm_vmas = (\<lambda>_ _. vma_zero)(0x300000 := (\<lambda>_. vma_zero)(0 := \<lparr>va_start = 0x1000000, va_end = 0x1003000,
       va_flags = 11, va_fd = -1, va_off = 0\<rparr>)),
     vm_bump = MMAP_BASE\<rparr>"

abbreviation demo_free :: "nat \<Rightarrow> nat list" where
  "demo_free \<equiv> (\<lambda>_. [])(2 := [0])"

lemma demo_pmm_inv: "pmm_inv pmm_demo demo_free" "free_set demo_free = {0, 1, 2, 3}"
proof -
  let ?s = "buddy_add_range (pmm_blank 8) 0 4"
  have b0: "blocks_ok (bfree_set_range (pmm_blank 8) 0 4) (\<lambda>_. [])"
    by (simp add: blocks_ok_def pmm_blank_def BUDDY_NIL_def)
  have e: "free_set (\<lambda>_. []) = {}" by (simp add: free_set_def)
  have s: "?s = list_push (bfree_set_range (pmm_blank 8) 0 4) 2 0"
    by (simp add: buddy_add_range.simps MAX_ORDER_def loop_numerals Let_def)
  have P: "blocks_ok ?s demo_free" "free_set demo_free = blk 2 0"
    using push_blocks [OF b0, of 2 0] unfolding s by (simp_all add: MAX_ORDER_def e pmm_blank_def)
  have "blk 2 0 = {0, 1, 2, 3}" by (auto simp: blk_def)
  then show "free_set demo_free = {0, 1, 2, 3}" using P(2) by simp
  have "\<not> bfree_tst (pmm_blank 8) i" for i by (simp add: bfree_tst_bit pmm_blank_def)
  then have "pmm_inv ?s demo_free" using P unfolding part_inv_def s by (auto simp: blk_def)
  then show "pmm_inv pmm_demo demo_free"
    by (simp add: part_inv_def blocks_ok_def pmm_demo_def bfree_tst_bit)
qed

lemma demo_links: "pmm_inv (pmm_of vm_demo) demo_free"
proof (rule inv_cong [OF demo_pmm_inv(1)])
  have n: "nodes pmm_demo = (\<lambda>_. \<lparr>bn_prev = 0, bn_next = 0\<rparr>)(0 := \<lparr>bn_prev = BUDDY_NIL, bn_next = BUDDY_NIL\<rparr>)"
    by (simp add: pmm_demo_def buddy_add_range.simps MAX_ORDER_def loop_numerals Let_def pmm_blank_def list_push_def
        set_prev_def set_next_def set_head_def fun_eq_iff)
  show "nodes (pmm_of vm_demo) x = nodes pmm_demo x" if "x \<in> free_set demo_free" for x
    using that by (auto simp: n demo_pmm_inv(2) pmm_of_def vm_demo_def mem_node_def idx_to_phys_def RAM_START_def PAGE_SIZE_def
        BUDDY_NIL_def)
qed (simp_all add: pmm_of_def vm_demo_def)

lemma demo_entry: "lix d v < 512"
  by (simp add: lix_def table_ix_less)

lemma demo_bits:
  "is_present 0x2007" "is_present 0x3007" "is_present 0x4007" "is_present 0x405005" "\<not> is_huge 0x4007"
  "entry_phys 0x2007 = 0x2000" "entry_phys 0x3007 = 0x3000" "entry_phys 0x4007 = 0x4000" "entry_phys 0x405005 = 0x405000"
  by (simp_all add: is_present_def is_huge_def entry_phys_def pte_consts)

lemma demo_tbl:
  "tbl vm_demo 0x1000 v (Suc 0) = (if lix 0 v = 0 then Some 0x2000 else None)"
  "tbl vm_demo 0x1000 v (Suc (Suc 0)) = (if lix 0 v = 0 \<and> lix 1 v = 0 then Some 0x3000 else None)"
  "tbl vm_demo 0x1000 v (Suc (Suc (Suc 0))) = (if lix 0 v = 0 \<and> lix 1 v = 0 \<and> lix 2 v = 0 then Some 0x4000 else None)"
proof -
  note l = demo_entry [of 0 v] demo_entry [of 1 v] demo_entry [of 2 v]
  show 1: "tbl vm_demo 0x1000 v (Suc 0) = (if lix 0 v = 0 then Some 0x2000 else None)"
    using l by (auto simp: vm_demo_def lslot_eq Let_def demo_bits)
  show 2: "tbl vm_demo 0x1000 v (Suc (Suc 0)) = (if lix 0 v = 0 \<and> lix 1 v = 0 then Some 0x3000 else None)"
    using l by (subst tbl.simps(2), subst 1) (auto simp: vm_demo_def lslot_eq Let_def demo_bits)
  show "tbl vm_demo 0x1000 v (Suc (Suc (Suc 0))) = (if lix 0 v = 0 \<and> lix 1 v = 0 \<and> lix 2 v = 0 then Some 0x4000 else None)"
    using l by (subst tbl.simps(2), subst 2) (auto simp: vm_demo_def lslot_eq Let_def demo_bits numeral_2_eq_2)
qed

lemma demo_levels: "d \<le> 3 \<Longrightarrow> tbl vm_demo 0x1000 v d = Some t \<Longrightarrow>
    t = 0x1000 * (d + 1) \<and> (\<forall>k < d. lix k v = 0)"
proof -
  assume d: "d \<le> 3" and t: "tbl vm_demo 0x1000 v d = Some t"
  from d have "d = 0 \<or> d = Suc 0 \<or> d = Suc (Suc 0) \<or> d = Suc (Suc (Suc 0))" by arith
  then show "t = 0x1000 * (d + 1) \<and> (\<forall>k < d. lix k v = 0)"
    using t demo_tbl [of v] by (elim disjE) (auto simp: less_Suc_eq numeral_2_eq_2 split: if_splits)
qed

lemma demo_ok: "vm_ok vm_demo 0x1000 demo_free" "card (free_set demo_free) = 4"
proof -
  have "t \<notin> managed F" if "t < 0x400000" for t F
    using that by (auto simp: managed_def idx_to_phys_def RAM_START_def)
  moreover have "t < 0x400000" if "d \<le> 3" "tbl vm_demo 0x1000 v d = Some t" for v d t
    using demo_levels [OF that] that(1) by simp
  moreover have "4096 dvd t" if "d \<le> 3" "tbl vm_demo 0x1000 v d = Some t" for v d t
    using demo_levels [OF that] by simp
  moreover have "d = e \<and> same_path d v w"
    if "d \<le> 3" "e \<le> 3" "tbl vm_demo 0x1000 v d = Some t" "tbl vm_demo 0x1000 w e = Some t" for v w d e t
    using demo_levels [OF that(1,3)] demo_levels [OF that(2,4)] by (simp add: same_path_def)
  ultimately have "tables_ok vm_demo 0x1000 (managed (free_set demo_free))"
    unfolding tables_ok_def by blast
  then show "vm_ok vm_demo 0x1000 demo_free" using demo_links by (simp add: vm_ok_def)
  show "card (free_set demo_free) = 4" by (simp add: demo_pmm_inv(2))
qed

section \<open>Mapping\<close>

text \<open>
  C7. Mapping a page.  In a well-formed address space with three pages free, \<open>vmm_map\<close> makes every
  address of the page translate to the given frame, keeps the tables well formed and the contents of every data
  page, and changes no other translation; only a 2 MB page around it is replaced by its 512 pieces.
\<close>

theorem vmm_map_refines:
  assumes "vm_ok s cr3 L" "3 \<le> card (free_set L)" "flags AND PTE_PHYS_MASK = 0"
  shows "(\<exists>L'. keeps s L (vmm_map oom cr3 v phys flags s) L' cr3 3) \<and>
    transl (vmm_map oom cr3 v phys flags s) cr3 = map_spec s cr3 v (((phys AND PTE_PHYS_MASK) OR flags) OR PTE_PRESENT) \<and>
    (\<forall>w. same_path 4 v w \<longrightarrow>
       vmm_virt_to_phys cr3 w (vmm_map oom cr3 v phys flags s) = (phys AND PTE_PHYS_MASK) OR (w AND (of_nat PAGE_SIZE - 1)))"
proof -
  let ?e = "((phys AND PTE_PHYS_MASK) OR flags) OR PTE_PRESENT"
  have "?e AND PTE_PHYS_MASK = ((phys AND PTE_PHYS_MASK AND PTE_PHYS_MASK) OR (flags AND PTE_PHYS_MASK)) OR (PTE_PRESENT AND PTE_PHYS_MASK)"
    by (simp only: bit.conj_disj_distrib2 and.assoc)
  also have "\<dots> = phys AND PTE_PHYS_MASK" using assms(3) by (simp add: pte_consts)
  finally have "?e AND PTE_PHYS_MASK = phys AND PTE_PHYS_MASK" .
  then show ?thesis using vmm_map_ok [OF assms(1,2), of oom v phys flags] by (auto simp: virt_to_phys_eq map_spec_def)
qed

lemma vmm_map_refines_witness:
  "vmm_virt_to_phys 0x1000 0x2000 (vmm_map id 0x1000 0x2000 0x405000 7 vm_demo) = 0x405000"
proof -
  have "3 \<le> card (free_set demo_free)" "(7 :: u64) AND PTE_PHYS_MASK = 0" by (simp_all add: demo_ok(2) pte_consts)
  from vmm_map_refines [OF demo_ok(1) this, of id "0x2000" "0x405000"]
  have "vmm_virt_to_phys 0x1000 0x2000 (vmm_map id 0x1000 0x2000 0x405000 7 vm_demo) =
      ((0x405000 :: u64) AND PTE_PHYS_MASK) OR (0x2000 AND (of_nat PAGE_SIZE - 1))"
    using same_path_refl by blast
  then show ?thesis by (simp add: pte_consts PAGE_SIZE_def)
qed

section \<open>Page faults\<close>

text \<open>
  C9. Demand paging.  A fault on an address that is not mapped but lies in an anonymous area, with four
  pages free, is handled: a page that was free, filled with zeros, is mapped at the address with the permission of the
  area; no other translation changes, except that a 2 MB page is split.
\<close>

theorem page_fault_demand:
  assumes "process_current_pcb (vm_procs s) = Some i" "pcb_vma_table (vm_procs s i) \<noteq> 0" "cr3 = pcb_cr3 (vm_procs s i)"
    and "vm_ok s cr3 L" "4 \<le> card (free_set L)" "err AND 1 = 0"
    and "vmm_find_vma (pcb_vma_table (vm_procs s i)) addr s = Some a" "va_flags a AND VMA_FILE = 0"
  shows "\<exists>s' L' p. vmm_page_fault oom files set_file ops addr err (s, fs) = (True, s', fs) \<and> vm_ok s' cr3 L' \<and>
    p \<in> managed (free_set L) \<and> is_data s' cr3 L' p \<and> (\<forall>x < 4096. vm_mem s' (p + x) = 0) \<and>
    transl s' cr3 = map_spec s cr3 (page_floor addr)
      (of_nat p OR (if va_flags a AND VMA_WRITE \<noteq> 0 then 7 else 5)) \<and>
    (\<forall>q. is_data s cr3 L q \<longrightarrow> (\<forall>x < 4096. vm_mem s' (q + x) = vm_mem s (q + x)))"
proof -
  have ne: "free_set L \<noteq> {}" using assms(5) by auto
  obtain p s1 L1 where al: "page_alloc oom s = (p, s1)" "fresh_page L p" "keeps s L s1 L1 cr3 1" "is_data s1 cr3 L1 p"
      "transl s1 cr3 = transl s cr3" "huge_at s1 cr3 = huge_at s cr3"
      "\<And>x. x < 4096 \<Longrightarrow> vm_mem s1 (p + x) = 0"
      "\<And>q. 4096 dvd q \<Longrightarrow> q \<noteq> p \<Longrightarrow> pmm_refcount (pmm_of s1) q = pmm_refcount (pmm_of s) q"
      "\<And>w d. d \<le> 3 \<Longrightarrow> tbl s1 cr3 w d = tbl s cr3 w d"
    using assms(4) ne by (rule data_page_alloc [where oom = oom]) (rule that; assumption)
  have p: "p \<noteq> 0" "4096 dvd p" "p < 2 ^ 52" "p \<in> managed (free_set L)" using al(2) by (auto simp: fresh_page_def)
  have "vm_mem s1 a = 0" if "p \<le> a" "a < p + 4096" for a using al(7) [of "a - p"] that by simp
  then have "(\<lambda>a. if p \<le> a \<and> a < p + PAGE_SIZE then 0 else vm_mem s1 a) = vm_mem s1" by (auto simp: PAGE_SIZE_def fun_eq_iff)
  then have z: "zero_page p s1 = s1" by (simp add: zero_page_def fill_page_def)
  let ?fl = "if va_flags a AND VMA_WRITE \<noteq> 0 then (PTE_PRESENT OR PTE_USER) OR PTE_WRITE else PTE_PRESENT OR PTE_USER"
  let ?s' = "vmm_map oom cr3 (page_floor addr) (of_nat p) ?fl s1"
  have "3 \<le> card (free_set L1)" using al(3) assms(5) by (simp add: keeps_def)
  then obtain L' where m: "keeps s1 L1 ?s' L' cr3 3"
      "transl ?s' cr3 = map_spec s1 cr3 (page_floor addr) (((of_nat p AND PTE_PHYS_MASK) OR ?fl) OR PTE_PRESENT)"
    using vmm_map_ok [OF keeps_ok [OF al(3)], of oom "page_floor addr" "of_nat p" ?fl] by blast
  have e: "((of_nat p AND PTE_PHYS_MASK) OR ?fl) OR PTE_PRESENT = of_nat p OR (if va_flags a AND VMA_WRITE \<noteq> 0 then 7 else 5)"
    using of_nat_masked [OF p(2,3)] by (simp add: pte_consts or.assoc)
  have sp: "map_spec s1 cr3 (page_floor addr) e = map_spec s cr3 (page_floor addr) e" for e
    unfolding map_spec_def split_transl_def al(5,6) ..
  have f: "vmm_page_fault oom files set_file ops addr err (s, fs) = (True, ?s', fs)"
    using assms al(1) p(1) z by (simp add: vmm_page_fault_def Let_def)
  have d: "is_data ?s' cr3 L' p" "\<forall>x < 4096. vm_mem ?s' (p + x) = 0"
    using m(1) al(4,7) by (auto simp: keeps_def)
  have "\<forall>q. is_data s cr3 L q \<longrightarrow> (\<forall>x < 4096. vm_mem ?s' (q + x) = vm_mem s (q + x))"
    using keeps_trans [OF al(3) m(1)] by (simp add: keeps_def)
  then show ?thesis using f d m keeps_ok [OF m(1)] p(4) unfolding e sp by blast
qed

text \<open>
  C10. Copy on write.  A write to a page whose frame has several owners gets the process a frame of its own:
  one that was free, with the same contents, mapped writable; the old frame keeps its contents and loses one
  reference; no other translation changes.
\<close>

theorem cow_fault_private:
  assumes "vm_ok s cr3 L" "free_set L \<noteq> {}" "transl s cr3 page = Some e" "old = entry_phys e" "is_data s cr3 L old"
    and "1 < pmm_refcount (pmm_of s) old"
  shows "\<exists>s' L' p. cow_fault oom cr3 page s = (True, s') \<and> vm_ok s' cr3 L' \<and> p \<in> managed (free_set L) \<and> p \<noteq> old \<and>
    transl s' cr3 = (\<lambda>w. if same_path 4 page w then Some (of_nat p OR 7) else transl s cr3 w) \<and>
    (\<forall>x < 4096. vm_mem s' (p + x) = vm_mem s (old + x)) \<and>
    (\<forall>q. is_data s cr3 L q \<longrightarrow> is_data s' cr3 L' q \<and> (\<forall>x < 4096. vm_mem s' (q + x) = vm_mem s (q + x))) \<and>
    pmm_refcount (pmm_of s') old = pmm_refcount (pmm_of s) old - 1"
proof -
  obtain t where t: "tbl s cr3 page 3 = Some t" "e = vm_mem s (lslot t 3 page)" "is_present (vm_mem s (lslot t 3 page))"
    using assms(3) by (auto simp: transl_def split: option.splits if_splits)
  obtain p s1 L1 where al: "page_alloc oom s = (p, s1)" "fresh_page L p" "keeps s L s1 L1 cr3 1" "is_data s1 cr3 L1 p"
      "transl s1 cr3 = transl s cr3" "huge_at s1 cr3 = huge_at s cr3"
      "\<And>x. x < 4096 \<Longrightarrow> vm_mem s1 (p + x) = 0"
      "\<And>q. 4096 dvd q \<Longrightarrow> q \<noteq> p \<Longrightarrow> pmm_refcount (pmm_of s1) q = pmm_refcount (pmm_of s) q"
      "\<And>w d. d \<le> 3 \<Longrightarrow> tbl s1 cr3 w d = tbl s cr3 w d"
    using assms(1,2) by (rule data_page_alloc [where oom = oom]) (rule that; assumption)
  have p: "p \<noteq> 0" "4096 dvd p" "p < 2 ^ 52" "p \<in> managed (free_set L)" using al(2) by (auto simp: fresh_page_def)
  have old: "old \<noteq> p" "4096 dvd old" "is_data s1 cr3 L1 old" using assms(5) p(4) al(3) by (auto simp: is_data_def keeps_def)
  define s2 where "s2 = fill_page p (\<lambda>o'. vm_mem s1 (old + o')) s1"
  note F = fill_data_page [OF keeps_ok [OF al(3)] al(4), where f = "\<lambda>o'. vm_mem s1 (old + o')", folded s2_def]
  have rc: "1 < pmm_refcount (pmm_of s2) old" "pmm_refcount (pmm_of s2) old = pmm_refcount (pmm_of s) old"
    using al(8) [OF old(2,1)] assms(6) by (simp_all add: s2_def)
  define s3 where "s3 = unref_page old s2"
  note U = unref_shared [OF F(1) rc(1), folded s3_def]
  have t3: "tbl s3 cr3 page 3 = Some t"
    using t(1) F(3) U(4) al(9) by simp
  define s4 where "s4 = set_word (lslot t 3 page) (of_nat p OR 7) s3"
  note W = write_leaf [OF U(1) t3, of "of_nat p OR 7", folded s4_def]
  have c: "cow_fault oom cr3 page s = (True, s4)"
    using t al(1) p assms(4,6) of_nat_masked [OF p(2,3)]
    by (simp add: cow_fault_def pte_find_eq Let_def s4_def s3_def s2_def copy_page_def table_flags_val not_le)
  have "is_present (of_nat p OR 7)" using table_entry(1) [OF p(2,3)] by (simp add: table_flags_val)
  then have T: "transl s4 cr3 = (\<lambda>w. if same_path 4 page w then Some (of_nat p OR 7) else transl s cr3 w)"
    using W(2) U(2) F(2) al(5) by (simp cong: if_cong)
  have D: "is_data s4 cr3 L1 q \<and> (\<forall>x < 4096. vm_mem s4 (q + x) = vm_mem s2 (q + x))" if "is_data s1 cr3 L1 q" for q
    using W(1) that F(4) U(3,5) by (simp add: keeps_def)
  have q: "is_data s4 cr3 L1 q \<and> (\<forall>x < 4096. vm_mem s4 (q + x) = vm_mem s (q + x))" if "is_data s cr3 L q" for q
  proof -
    have "is_data s1 cr3 L1 q" "\<forall>x < 4096. vm_mem s1 (q + x) = vm_mem s (q + x)" "q \<noteq> p"
      using al(3) that p(4) by (auto simp: keeps_def is_data_def)
    then show ?thesis using D F(5) by simp
  qed
  have "\<forall>x < 4096. vm_mem s4 (p + x) = vm_mem s (old + x)"
    using D [OF al(4)] F(6) al(3) assms(5) by (simp add: keeps_def)
  moreover have "pmm_refcount (pmm_of s4) old = pmm_refcount (pmm_of s) old - 1"
    using U(6) rc(2) by (simp add: s4_def)
  ultimately show ?thesis using c keeps_ok [OF W(1)] p(4) old(1) T q
    by (intro exI [of _ s4] exI [of _ L1] exI [of _ p]) (simp add: eq_commute)
qed

lemma demo_running: "process_current_pcb (vm_procs vm_demo) = Some 0" "pcb_vma_table (vm_procs vm_demo 0) = 0x300000"
  "pcb_cr3 (vm_procs vm_demo 0) = 0x1000" "pcb_brk (vm_procs vm_demo 0) = 0x1003000"
  by (simp_all add: vm_demo_def process_current_pcb_def first_idx_Some PROC_MAX_def)

lemma demo_area: "vmm_find_vma 0x300000 addr vm_demo =
  (if 0x1000000 \<le> addr \<and> addr < 0x1003000
   then Some \<lparr>va_start = 0x1000000, va_end = 0x1003000, va_flags = 11, va_fd = -1, va_off = 0\<rparr> else None)"
proof -
  have c: "vma_covers (vm_vmas vm_demo 0x300000 i) addr \<longleftrightarrow> i = 0 \<and> 0x1000000 \<le> addr \<and> addr < 0x1003000" for i
    by (simp add: vm_demo_def vma_covers_def vma_zero_def)
  show ?thesis
  proof (cases "0x1000000 \<le> addr \<and> addr < 0x1003000")
    case True
    then have "first_idx (\<lambda>i. vma_covers (vm_vmas vm_demo 0x300000 i) addr) 0 VMA_MAX = Some 0"
      using c by (simp add: first_idx_Some VMA_MAX_def)
    then show ?thesis using True by (simp add: vmm_find_vma_def) (simp add: vm_demo_def)
  next
    case False
    then have "first_idx (\<lambda>i. vma_covers (vm_vmas vm_demo 0x300000 i) addr) 0 VMA_MAX = None"
      using c by (simp add: first_idx_None)
    then show ?thesis using False by (simp add: vmm_find_vma_def)
  qed
qed

lemma page_fault_demand_witness:
  "\<forall>fs :: unit vfs. \<exists>s' p. vmm_page_fault id (\<lambda>_ _. fat_fd_zero) (\<lambda>_ _ d. d) (\<lambda>_. undefined) 0x1001004 6 (vm_demo, fs) =
       (True, s', fs) \<and> transl s' 0x1000 = map_spec vm_demo 0x1000 0x1001000 (of_nat p OR 7) \<and> vm_mem s' (p + 16) = 0"
proof
  fix fs :: "unit vfs"
  let ?a = "\<lparr>va_start = 0x1000000, va_end = 0x1003000, va_flags = 11, va_fd = -1, va_off = 0\<rparr>"
  have "pcb_vma_table (vm_procs vm_demo 0) \<noteq> 0" "0x1000 = pcb_cr3 (vm_procs vm_demo 0)" "4 \<le> card (free_set demo_free)"
      "(6 :: u64) AND 1 = 0" "vmm_find_vma (pcb_vma_table (vm_procs vm_demo 0)) 0x1001004 vm_demo = Some ?a"
      "va_flags ?a AND VMA_FILE = 0"
    by (simp_all add: demo_running demo_ok(2) demo_area VMA_FILE_def)
  from page_fault_demand [OF demo_running(1) this(1,2) demo_ok(1) this(3-6), of id "\<lambda>_ _. fat_fd_zero" "\<lambda>_ _ d. d" "\<lambda>_. undefined" fs]
  obtain s' p where r: "vmm_page_fault id (\<lambda>_ _. fat_fd_zero) (\<lambda>_ _ d. d) (\<lambda>_. undefined) 0x1001004 6 (vm_demo, fs) = (True, s', fs)"
      "\<forall>x < 4096. vm_mem s' (p + x) = 0"
      "transl s' 0x1000 = map_spec vm_demo 0x1000 (page_floor 0x1001004)
        (of_nat p OR (if va_flags ?a AND VMA_WRITE \<noteq> 0 then 7 else 5))" by blast
  have "page_floor 0x1001004 = 0x1001000" "va_flags ?a AND VMA_WRITE \<noteq> 0"
    by (simp_all add: page_floor_def PAGE_SIZE_def VMA_WRITE_def)
  with r show "\<exists>s' p. vmm_page_fault id (\<lambda>_ _. fat_fd_zero) (\<lambda>_ _ d. d) (\<lambda>_. undefined) 0x1001004 6 (vm_demo, fs) =
       (True, s', fs) \<and> transl s' 0x1000 = map_spec vm_demo 0x1000 0x1001000 (of_nat p OR 7) \<and> vm_mem s' (p + 16) = 0"
    by (intro exI [of _ s'] exI [of _ p]) simp
qed

lemma cow_fault_private_witness:
  "\<exists>s' p. cow_fault id 0x1000 0 vm_demo = (True, s') \<and> p \<noteq> 0x405000 \<and> vm_mem s' (p + 8) = 0"
proof -
  have "lix d 0 = 0" for d by (simp add: lix_def table_ix_def)
  then have t: "tbl vm_demo 0x1000 0 3 = Some 0x4000" "lslot 0x4000 3 0 = 0x4000"
    using demo_tbl(3) [of 0] by (simp_all add: numeral_3_eq_3 lslot_eq)
  then have tr: "transl vm_demo 0x1000 0 = Some 0x405005"
    by (simp add: transl_def demo_bits) (simp add: vm_demo_def demo_bits)
  have n: "(0x405000 :: nat) \<notin> managed (free_set demo_free)"
    by (simp add: managed_def demo_pmm_inv(2) idx_to_phys_def RAM_START_def PAGE_SIZE_def)
  have d: "is_data vm_demo 0x1000 demo_free 0x405000"
  proof -
    have "tbl vm_demo 0x1000 w e \<noteq> Some 0x405000" if "e \<le> 3" for w e
      using demo_levels [OF that, of w "0x405000"] that by auto
    then show ?thesis unfolding is_data_def using n by simp
  qed
  have r: "ram_end pmm_demo = 0x408000"
    by (simp add: pmm_demo_def buddy_add_range.simps loop_numerals MAX_ORDER_def Let_def pmm_blank_def RAM_START_def
        PAGE_SIZE_def)
  have rc: "1 < pmm_refcount (pmm_of vm_demo) 0x405000"
    by (simp add: pmm_of_def vm_demo_def pmm_refcount_def r RAM_START_def phys_to_idx_def PAGE_SIZE_def)
       (simp add: pmm_demo_def)
  have "free_set demo_free \<noteq> {}" "0x405000 = entry_phys 0x405005" by (simp_all add: demo_pmm_inv(2) demo_bits)
  from cow_fault_private [OF demo_ok(1) this(1) tr this(2) d rc, of id] obtain s' p where
    r: "cow_fault id 0x1000 0 vm_demo = (True, s')" "p \<noteq> 0x405000" "\<forall>x < 4096. vm_mem s' (p + x) = vm_mem vm_demo (0x405000 + x)"
    by blast
  then have "vm_mem s' (p + 8) = 0" by (simp add: vm_demo_def)
  with r show ?thesis by blast
qed

section \<open>Giving memory back\<close>

text \<open>
  C11. Unmapping.  In a well-formed address space, when the frames of the range are data pages, each mapped
  there once, and the buddies of those that are freed are whole, \<open>sys_munmap\<close> removes the translations of
  exactly the pages of the range; every frame of it loses one reference, and exactly the frames for which this was the
  last one become free; page tables stay well formed, although the allocator writes its links into the
  freed pages, and every other data page keeps its contents.  Of the areas of the process it removes every one
  that overlaps the range, all of it, even where the area is larger, and no other.
\<close>

theorem sys_munmap_refines:
  assumes "process_current_pcb (vm_procs s) = Some i" "cr3 = pcb_cr3 (vm_procs s i)" "t = pcb_vma_table (vm_procs s i)"
    and "t \<noteq> 0" "vm_ok s cr3 L" "n = unat (page_up len) div PAGE_SIZE"
    and "\<forall>p \<in> frames_in s cr3 addr n. is_data s cr3 L p" "mapped_once s cr3 addr n" "buddies_whole cr3 addr n s"
  shows "\<exists>s' L'. sys_munmap addr len s = (0, s') \<and> vm_ok s' cr3 L' \<and>
    transl s' cr3 = (\<lambda>w. if in_pages addr n w then None else transl s cr3 w) \<and>
    managed (free_set L') = managed (free_set L) \<union> {p \<in> frames_in s cr3 addr n. last_ref s p} \<and>
    (\<forall>q. 4096 dvd q \<longrightarrow> pmm_refcount (pmm_of s') q =
       (if q \<in> frames_in s cr3 addr n then one_less (pmm_refcount (pmm_of s) q) else pmm_refcount (pmm_of s) q)) \<and>
    (\<forall>q. is_data s cr3 L q \<longrightarrow> \<not> (q \<in> frames_in s cr3 addr n \<and> last_ref s q) \<longrightarrow>
       is_data s' cr3 L' q \<and> (\<forall>x < 4096. vm_mem s' (q + x) = vm_mem s (q + x))) \<and>
    (\<forall>j < VMA_MAX. vm_vmas s' t j = (if vma_overlaps (vm_vmas s t j) addr (addr + page_up len)
       then (vm_vmas s t j)\<lparr>va_start := 0, va_end := 0\<rparr> else vm_vmas s t j))"
proof -
  let ?s2 = "drop_pages cr3 addr n s"
  obtain L' where D: "released s L ?s2 L' cr3 (frames_in s cr3 addr n)"
      "transl ?s2 cr3 = (\<lambda>w. if in_pages addr n w then None else transl s cr3 w)"
    using drop_pages_ok [OF assms(5,7-9)] by blast
  define f where "f = vm_vmas (vmm_vma_remove t addr (page_up len) s)"
  define s' where "s' = ?s2\<lparr>vm_vmas := f\<rparr>"
  have "vmm_vma_remove t addr (page_up len) s = s\<lparr>vm_vmas := f\<rparr>" by (simp add: f_def vmm_vma_remove_def)
  then have r: "sys_munmap addr len s = (0, s')"
    using assms(1-4,6) by (simp add: sys_munmap_def Let_def s'_def drop_pages_vmas)
  have m: "vm_mem s' = vm_mem ?s2" "pmm_of s' = pmm_of ?s2" by (simp_all add: s'_def pmm_of_def)
  note M = mem_tables [OF m(1)]
  have "vm_ok ?s2 cr3 L'" using D(1) by (simp add: released_def)
  then have d: "vm_ok s' cr3 L'" "is_data s' cr3 L' q = is_data ?s2 cr3 L' q" for q
    using M m(2) by (simp_all add: vm_ok_def is_data_def)
  have v: "vm_vmas s' t j = (if j < VMA_MAX \<and> vma_overlaps (vm_vmas s t j) addr (addr + page_up len)
       then (vm_vmas s t j)\<lparr>va_start := 0, va_end := 0\<rparr> else vm_vmas s t j)" for j
    by (simp add: s'_def f_def vmm_vma_remove_def)
  show ?thesis
    using r d D M(2) m v unfolding released_def by (intro exI [of _ s'] exI [of _ L']) simp
qed

text \<open>
  Shrinking the heap loses what remains of it.  When \<open>sys_brk\<close> lowers the break below the top of the
  area that holds the heap, the area is removed whole, so an address far below the new break that has
  not been touched yet is in no area any more: the fault on it is not handled, which ends the process.
\<close>

theorem sys_brk_shrink_loses_heap:
  assumes "process_current_pcb (vm_procs s) = Some i" "t = pcb_vma_table (vm_procs s i)" "t \<noteq> 0"
    and "BRK_BASE \<le> new_brk" "new_brk < pcb_brk (vm_procs s i)" "new_brk \<le> BRK_MAX"
    and "j < VMA_MAX" "vma_overlaps (vm_vmas s t j) (page_up new_brk) (page_up (pcb_brk (vm_procs s i)))"
    and "vma_covers (vm_vmas s t j) x" "\<forall>k < VMA_MAX. k \<noteq> j \<longrightarrow> \<not> vma_covers (vm_vmas s t k) x"
  shows "\<exists>s'. sys_brk new_brk s = (new_brk, s') \<and> vmm_find_vma t x s' = None \<and>
    fst (vmm_page_fault oom files set_file ops x 4 (s', fs)) = False"
proof -
  let ?old = "page_up (pcb_brk (vm_procs s i))" and ?new = "page_up new_brk"
  define s1 where "s1 = shrink_loop (pcb_cr3 (vm_procs s i)) ?old ((unat ?old - unat ?new) div PAGE_SIZE) s"
  have r: "vm_vmas s1 = vm_vmas s" "vm_procs s1 = vm_procs s"
    using shrink_loop_rest [of s] by (auto simp: s1_def same_rest_def)
  define s' where "s' = set_brk i new_brk (vmm_vma_remove t ?new (?old - ?new) s1)"
  have "new_brk \<noteq> 0" using assms(4) by (auto simp: BRK_BASE_def)
  moreover have "\<not> new_brk < BRK_BASE" "\<not> new_brk > BRK_MAX" "new_brk \<noteq> pcb_brk (vm_procs s i)"
      "\<not> new_brk > pcb_brk (vm_procs s i)"
    using assms(4-6) by (auto simp: not_less)
  ultimately have b: "sys_brk new_brk s = (new_brk, s')"
    using assms(1-3) by (simp add: sys_brk_def Let_def s'_def s1_def)
  have v: "vm_vmas s' t k = (if k < VMA_MAX \<and> vma_overlaps (vm_vmas s t k) ?new ?old
      then (vm_vmas s t k)\<lparr>va_start := 0, va_end := 0\<rparr> else vm_vmas s t k)" for k
    by (simp add: s'_def set_brk_def vmm_vma_remove_def r)
  have "\<not> vma_covers (vm_vmas s' t k) x" if "k < VMA_MAX" for k
    using that assms(7,8,10) by (cases "k = j") (auto simp: v vma_covers_def)
  then have f: "vmm_find_vma t x s' = None" by (simp add: vmm_find_vma_def first_idx_None)
  have p: "vm_procs s' = (vm_procs s)(i := (vm_procs s i)\<lparr>pcb_brk := new_brk\<rparr>)"
    by (simp add: s'_def set_brk_def vmm_vma_remove_def r)
  have "process_current_pcb (vm_procs s') = process_current_pcb (vm_procs s)"
    unfolding process_current_pcb_def p by (rule first_idx_cong) simp
  then have "fst (vmm_page_fault oom files set_file ops x 4 (s', fs)) = False"
    using assms(1-3) f p by (simp add: vmm_page_fault_def Let_def)
  then show ?thesis using b f by blast
qed

lemma demo_transl:
  "transl vm_demo 0x1000 v =
     (if lix 0 v = 0 \<and> lix 1 v = 0 \<and> lix 2 v = 0 then
        if lix 3 v = 0 then Some 0x405005 else if lix 3 v = 1 then Some 0x406007 else None else None)"
proof -
  have "is_present 0x406007" by (simp add: is_present_def pte_consts)
  then show ?thesis using demo_tbl(3) [of v] demo_entry [of 3 v] demo_bits
    by (auto simp: transl_def numeral_3_eq_3 lslot_eq) (auto simp: vm_demo_def)
qed

lemma sys_munmap_refines_witness:
  "\<exists>s' L'. sys_munmap 0x1000 1 vm_demo = (0, s') \<and> transl s' 0x1000 0x1000 = None \<and>
     0x406000 \<in> managed (free_set L') \<and> pmm_refcount (pmm_of s') 0x406000 = 0 \<and> vm_ok s' 0x1000 L'"
proof -
  have p: "0x1000 = pcb_cr3 (vm_procs vm_demo 0)" "0x300000 = pcb_vma_table (vm_procs vm_demo 0)" "(0x300000 :: nat) \<noteq> 0"
    by (simp_all add: demo_running)
  have u: "page_up 1 = 0x1000" by (simp add: page_up_def page_floor_def PAGE_SIZE_def)
  then have n: "1 = unat (page_up 1) div PAGE_SIZE" by (simp add: PAGE_SIZE_def)
  have l: "lix 0 0x1000 = 0" "lix 1 0x1000 = 0" "lix 2 0x1000 = 0" "lix 3 0x1000 = 1"
    unfolding lix_def table_ix_def by simp_all
  have tr: "transl vm_demo 0x1000 0x1000 = Some 0x406007" unfolding demo_transl l by simp
  have e: "entry_phys 0x406007 = 0x406000" by (simp add: entry_phys_def PTE_PHYS_MASK_def)
  have fr: "frames_in vm_demo 0x1000 0x1000 1 = {0x406000}"
  proof -
    have s4: "transl vm_demo 0x1000 w = Some 0x406007" if "same_path 4 0x1000 w" for w
    proof -
      have "lix k w = lix k 0x1000" if "k < 4" for k using \<open>same_path 4 0x1000 w\<close> that by (simp add: same_path_def)
      then have "lix 0 w = 0" "lix 1 w = 0" "lix 2 w = 0" "lix 3 w = 1" using l by simp_all
      then show ?thesis unfolding demo_transl by simp
    qed
    have "in_pages 0x1000 1 w \<longleftrightarrow> same_path 4 0x1000 w" for w by (simp add: in_pages_def page_at_def)
    then have "frames_in vm_demo 0x1000 0x1000 1 =
        {p. \<exists>w e. same_path 4 0x1000 w \<and> transl vm_demo 0x1000 w = Some e \<and> p = entry_phys e}"
      unfolding frames_in_def by simp
    also have "\<dots> = {entry_phys 0x406007}" using s4 same_path_refl [of 4 "0x1000"] by fastforce
    finally show ?thesis unfolding e .
  qed
  have d: "\<forall>p \<in> frames_in vm_demo 0x1000 0x1000 1. is_data vm_demo 0x1000 demo_free p"
  proof -
    have "(0x406000 :: nat) \<notin> managed (free_set demo_free)"
      by (simp add: managed_def demo_pmm_inv(2) idx_to_phys_def RAM_START_def PAGE_SIZE_def)
    moreover have "tbl vm_demo 0x1000 w e \<noteq> Some 0x406000" if "e \<le> 3" for w e
      using demo_levels [OF that, of w "0x406000"] that by auto
    ultimately show ?thesis unfolding fr is_data_def by simp
  qed
  have m: "mapped_once vm_demo 0x1000 0x1000 1"
  proof -
    have "in_pages 0x1000 1 w \<longleftrightarrow> same_path 4 0x1000 w" for w by (simp add: in_pages_def page_at_def)
    moreover have "same_path 4 v w" if "same_path 4 0x1000 v" "same_path 4 0x1000 w" for v w
      using same_path_trans [OF same_path_sym [OF that(1)] that(2)] .
    ultimately show ?thesis unfolding mapped_once_def by simp
  qed
  have w: "whole_buddies (pmm_of vm_demo) L 6 0" if "pmm_inv (pmm_of vm_demo) L" for L
  proof -
    have L: "L o' = demo_free o'" if "o' \<le> MAX_ORDER" for o' using lists_unique [OF \<open>pmm_inv (pmm_of vm_demo) L\<close> demo_links that] .
    then have f: "free_set L = {0, 1, 2, 3}" unfolding demo_pmm_inv(2) [symmetric] by (simp add: free_set_def)
    have t: "total_pages (pmm_of vm_demo) = 8"
      by (simp add: pmm_of_def vm_demo_def pmm_demo_def buddy_add_range.simps loop_numerals MAX_ORDER_def Let_def pmm_blank_def)
    have "buddy_at 6 o' \<in> set (L o')" if "o' < MAX_ORDER" "buddy_at 6 o' < 8" "buddy_at 6 o' \<in> {0, 1, 2, 3}" for o'
    proof -
      have "o' \<in> {0, 1, 2, 3, 4, 5, 6, 7, 8, 9}" using that(1) by (auto simp: MAX_ORDER_def)
      then have "o' = 2 \<and> buddy_at 6 o' = 0" using that(2,3) by (auto simp: buddy_at_def)
      then show ?thesis using L [of 2] by (metis MAX_ORDER_def fun_upd_same list.set_intros(1) less_or_eq_imp_le that(1))
    qed
    then show ?thesis by (simp add: whole_buddies_def f t)
  qed
  have lr: "last_ref vm_demo 0x406000" "pmm_refcount (pmm_of vm_demo) 0x406000 = 1"
    by (simp_all add: last_ref_def pmm_refcount_def pmm_of_def vm_demo_def pmm_demo_def buddy_add_range.simps loop_numerals
        MAX_ORDER_def Let_def pmm_blank_def phys_to_idx_def RAM_START_def PAGE_SIZE_def)
  have b: "buddies_whole 0x1000 0x1000 1 vm_demo"
    using w by (simp add: tr e phys_to_idx_def RAM_START_def PAGE_SIZE_def)
  from sys_munmap_refines [OF demo_running(1) p demo_ok(1) n d m b] obtain s' L' where
    s': "sys_munmap 0x1000 1 vm_demo = (0, s')" "vm_ok s' 0x1000 L'"
      "transl s' 0x1000 = (\<lambda>w. if in_pages 0x1000 1 w then None else transl vm_demo 0x1000 w)"
      "managed (free_set L') = managed (free_set demo_free) \<union> {p \<in> {0x406000}. last_ref vm_demo p}"
      "\<forall>q. 4096 dvd q \<longrightarrow> pmm_refcount (pmm_of s') q = (if q \<in> {0x406000} then one_less (pmm_refcount (pmm_of vm_demo) q)
         else pmm_refcount (pmm_of vm_demo) q)"
    unfolding fr by blast
  have "in_pages 0x1000 1 0x1000" by (simp add: in_pages_def page_at_def)
  then show ?thesis using s' lr by (intro exI [of _ s'] exI [of _ L']) (simp add: one_less_def)
qed

lemma sys_brk_shrink_loses_heap_witness:
  "\<forall>fs :: unit vfs. \<exists>s'. sys_brk 0x1002000 vm_demo = (0x1002000, s') \<and>
     fst (vmm_page_fault id (\<lambda>_ _. fat_fd_zero) (\<lambda>_ _ d. d) (\<lambda>_. undefined) 0x1000010 4 (s', fs)) = False"
proof
  fix fs :: "unit vfs"
  have p: "0x300000 = pcb_vma_table (vm_procs vm_demo 0)" "(0x300000 :: nat) \<noteq> 0" "BRK_BASE \<le> 0x1002000"
      "0x1002000 < pcb_brk (vm_procs vm_demo 0)" "0x1002000 \<le> BRK_MAX" "0 < VMA_MAX"
    by (simp_all add: demo_running BRK_BASE_def BRK_MAX_def VMA_MAX_def)
  have u: "page_up 0x1002000 = 0x1002000" "page_up 0x1003000 = 0x1003000"
    by (simp_all add: page_up_def page_floor_def PAGE_SIZE_def)
  have a: "vm_vmas vm_demo 0x300000 0 = \<lparr>va_start = 0x1000000, va_end = 0x1003000, va_flags = 11, va_fd = -1, va_off = 0\<rparr>"
    "k \<noteq> 0 \<Longrightarrow> vm_vmas vm_demo 0x300000 k = vma_zero" for k
    by (simp_all add: vm_demo_def)
  have o: "vma_overlaps (vm_vmas vm_demo 0x300000 0) (page_up 0x1002000) (page_up (pcb_brk (vm_procs vm_demo 0)))"
    unfolding demo_running(4) u a by (simp add: vma_overlaps_def)
  have c: "vma_covers (vm_vmas vm_demo 0x300000 0) 0x1000010" unfolding a by (simp add: vma_covers_def)
  have n: "\<forall>k < VMA_MAX. k \<noteq> 0 \<longrightarrow> \<not> vma_covers (vm_vmas vm_demo 0x300000 k) 0x1000010"
    using a(2) by (simp add: vma_covers_def vma_zero_def)
  show "\<exists>s'. sys_brk 0x1002000 vm_demo = (0x1002000, s') \<and>
     fst (vmm_page_fault id (\<lambda>_ _. fat_fd_zero) (\<lambda>_ _ d. d) (\<lambda>_. undefined) 0x1000010 4 (s', fs)) = False"
    using sys_brk_shrink_loses_heap [OF demo_running(1) p o c n, of id "\<lambda>_ _. fat_fd_zero" "\<lambda>_ _ d. d" "\<lambda>_. undefined" fs]
    by blast
qed

section \<open>Changing permissions\<close>

lemma unat_page_floor: "unat (page_floor v) = unat v - unat v mod 4096"
proof -
  let ?m = "mask 12 :: u64"
  have m: "of_nat PAGE_SIZE - 1 = ?m" by (simp add: PAGE_SIZE_def mask_eq_exp_minus_1)
  have "(v AND NOT ?m) + (v AND ?m) = (v AND NOT ?m) OR (v AND ?m)"
    by (rule disjunctive_add) (auto simp: bit_simps)
  also have "\<dots> = v" by (rule bit_word_eqI) (auto simp: bit_simps)
  finally have "page_floor v = v - take_bit 12 v" by (simp add: page_floor_def m take_bit_eq_mask algebra_simps)
  moreover have t: "unat (take_bit 12 v) = unat v mod 4096" by (simp only: unsigned_take_bit_eq) (simp add: take_bit_eq_mod)
  moreover have "take_bit 12 v \<le> v" using t by (simp add: word_le_nat_alt)
  ultimately show ?thesis by (simp add: unat_sub)
qed

lemma page_floor_dvd: "4096 dvd unat (page_floor v)"
  by (simp add: unat_page_floor minus_mod_eq_mult_div)

fun protect_pages :: "nat \<Rightarrow> u64 \<Rightarrow> u64 \<Rightarrow> nat \<Rightarrow> vm \<Rightarrow> vm" where
  "protect_pages cr3 prot va 0 s = s"
| "protect_pages cr3 prot va (Suc n) s = protect_pages cr3 prot (va + of_nat PAGE_SIZE) n (protect_page cr3 prot va s)"

lemma protect_loop_pages:
  assumes "unat va + n * 4096 = unat end'"
  shows "protect_loop cr3 prot va end' s = Some (protect_pages cr3 prot va n s)"
  using assms
proof (induction n arbitrary: va s)
  case 0
  then show ?case by (simp add: protect_loop.simps word_less_nat_alt)
next
  case (Suc n)
  have "unat end' < 2 ^ 64" using unsigned_less [of end'] by simp
  then have "unat (va + of_nat PAGE_SIZE) = unat va + 4096"
    using Suc.prems by (subst unat_add_lem [THEN iffD1]) (simp_all add: PAGE_SIZE_def)
  then have "protect_loop cr3 prot (va + of_nat PAGE_SIZE) end' s' = Some (protect_pages cr3 prot (va + of_nat PAGE_SIZE) n s')" for s'
    using Suc by simp
  moreover have "va < end'" using Suc.prems by (simp add: word_less_nat_alt)
  ultimately show ?case by (subst protect_loop.simps) simp
qed

definition prot_entry :: "u64 \<Rightarrow> u64 \<Rightarrow> u64" where
  "prot_entry prot e = (e AND PTE_PHYS_MASK) OR (if prot AND 2 \<noteq> 0 then 7 else 5)"

lemma prot_entry_simps: "is_present (prot_entry prot e)" "prot_entry prot (prot_entry prot e) = prot_entry prot e"
proof -
  have "bit (prot_entry prot e) 0" by (simp add: prot_entry_def bit_or_iff)
  then show "is_present (prot_entry prot e)"
    by (simp add: is_present_def PTE_PRESENT_def and_one_eq odd_iff_mod_2_eq_one bit_0)
  have "((e AND PTE_PHYS_MASK) OR f) AND PTE_PHYS_MASK = e AND PTE_PHYS_MASK" if "f AND PTE_PHYS_MASK = 0" for f
    using that by (simp add: bit.conj_disj_distrib2 and.assoc)
  then show "prot_entry prot (prot_entry prot e) = prot_entry prot e" by (simp add: prot_entry_def pte_consts)
qed

lemma protect_page_transl:
  assumes "tables_ok s cr3 F"
  shows "tables_ok (protect_page cr3 prot va s) cr3 F \<and> transl (protect_page cr3 prot va s) cr3 =
    (\<lambda>w. if same_path 4 va w then map_option (prot_entry prot) (transl s cr3 w) else transl s cr3 w)"
proof -
  have same: "transl s cr3 w = transl s cr3 va" if "same_path 4 va w" for w
  proof -
    have "tbl s cr3 w 3 = tbl s cr3 va 3" "lix 3 w = lix 3 va"
      using that tbl_same_path [of 3 va w s cr3] same_path_mono [of 4 va w 3] by (simp_all add: same_path_def)
    then have t: "tbl s cr3 w 3 = tbl s cr3 va 3" "lslot t 3 w = lslot t 3 va" for t by (simp_all add: lslot_eq)
    show ?thesis unfolding transl_def t ..
  qed
  show ?thesis
  proof (cases "transl s cr3 va")
    case None
    then have "protect_page cr3 prot va s = s"
      by (auto simp: protect_page_def pte_find_eq transl_def split: option.splits if_splits)
    then show ?thesis using assms same None by (auto simp: fun_eq_iff)
  next
    case (Some e)
    then obtain t where t: "tbl s cr3 va 3 = Some t" "e = vm_mem s (lslot t 3 va)" "is_present (vm_mem s (lslot t 3 va))"
      by (auto simp: transl_def split: option.splits if_splits)
    have p: "protect_page cr3 prot va s = set_word (lslot t 3 va) (prot_entry prot e) s"
      using t by (simp add: protect_page_def pte_find_eq prot_entry_def pte_consts)
    have "vm_mem (protect_page cr3 prot va s) = (vm_mem s)(lslot t 3 va := prot_entry prot e)" by (simp add: p)
    note W = leaf_write(3,4) [OF assms t(1) this]
    show ?thesis using W same Some prot_entry_simps(1) by (auto simp: fun_eq_iff)
  qed
qed

lemma protect_pages_transl:
  assumes "tables_ok s cr3 F"
  shows "transl (protect_pages cr3 prot va n s) cr3 =
    (\<lambda>w. if in_pages va n w then map_option (prot_entry prot) (transl s cr3 w) else transl s cr3 w)"
  using assms
proof (induction n arbitrary: va s)
  case 0
  then show ?case by (simp add: in_pages_def)
next
  case (Suc n)
  note P = protect_page_transl [OF Suc.prems, of prot va]
  have I: "transl (protect_pages cr3 prot va (Suc n) s) cr3 w =
    (if in_pages (va + of_nat PAGE_SIZE) n w then map_option (prot_entry prot) (transl (protect_page cr3 prot va s) cr3 w)
     else transl (protect_page cr3 prot va s) cr3 w)" for w
    using Suc.IH [of "protect_page cr3 prot va s" "va + of_nat PAGE_SIZE"] P by simp
  show ?case by (rule ext, subst I) (use P in \<open>auto simp: in_pages_Suc option.map_comp comp_def prot_entry_simps\<close>)
qed

text \<open>
  C34. For a process that runs and an address at the start of a page (otherwise it returns at once),
  \<open>sys_mprotect\<close> returns for every length and permission, also where the end of the range wraps; it then does
  nothing to the tables.  When the range does not wrap, every page in it that is mapped keeps its frame and gets
  the new permission, and no other translation changes.
\<close>

theorem sys_mprotect_refines:
  assumes "process_current_pcb (vm_procs s) = Some i" "cr3 = pcb_cr3 (vm_procs s i)" "tables_ok s cr3 F"
    and "addr AND (of_nat PAGE_SIZE - 1) = 0"
  shows "\<exists>s'. sys_mprotect addr len prot s = Some (0, s') \<and>
    transl s' cr3 = (\<lambda>w. if unat addr + unat (page_up len) < 2 ^ 64 \<and> in_pages addr (unat (page_up len) div PAGE_SIZE) w
      then map_option (prot_entry prot) (transl s cr3 w) else transl s cr3 w)"
proof (cases "page_up len = 0")
  case True
  then show ?thesis using assms(4) by (auto simp: sys_mprotect_def Let_def in_pages_def)
next
  case nz: False
  let ?e = "addr + page_up len" and ?n = "unat (page_up len) div PAGE_SIZE"
  let ?t = "pcb_vma_table (vm_procs s i)"
  define s1 where "s1 = (if ?t = 0 then s
    else s\<lparr>vm_vmas := (vm_vmas s)(?t := (\<lambda>j. if j < VMA_MAX \<and> vma_overlaps (vm_vmas s ?t j) addr ?e
      then reprotect prot (vm_vmas s ?t j) else vm_vmas s ?t j))\<rparr>)"
  have "vm_mem s1 = vm_mem s" by (simp add: s1_def)
  note M = mem_tables [OF this]
  have call: "sys_mprotect addr len prot s = map_option (Pair 0) (protect_loop cr3 prot addr ?e s1)"
    using assms nz by (simp add: sys_mprotect_def Let_def s1_def)
  have d: "4096 dvd unat (page_up len)" by (simp add: page_up_def page_floor_dvd)
  show ?thesis
  proof (cases "unat addr + unat (page_up len) < 2 ^ 64")
    case True
    then have "unat ?e = unat addr + unat (page_up len)" by (subst unat_add_lem [THEN iffD1]) simp_all
    then have "unat addr + ?n * 4096 = unat ?e" using d by (simp add: PAGE_SIZE_def)
    note L = protect_loop_pages [OF this, of cr3 prot s1]
    have "transl (protect_pages cr3 prot addr ?n s1) cr3 =
        (\<lambda>w. if in_pages addr ?n w then map_option (prot_entry prot) (transl s cr3 w) else transl s cr3 w)"
      using protect_pages_transl [of s1 cr3 F prot addr ?n] assms(3) M by (simp cong: if_cong)
    moreover have "sys_mprotect addr len prot s = Some (0, protect_pages cr3 prot addr ?n s1)" using call L by simp
    ultimately show ?thesis using True by (intro exI [of _ "protect_pages cr3 prot addr ?n s1"]) simp
  next
    case False
    then have "\<not> addr < ?e" using no_olen_add_nat [of addr "page_up len"] by (auto simp: less_imp_le)
    then have "protect_loop cr3 prot addr ?e s1 = Some s1" by (simp add: protect_loop.simps)
    then show ?thesis using call False M by simp
  qed
qed

lemma sys_mprotect_refines_witness:
  "\<exists>s'. sys_mprotect 0 1 2 vm_demo = Some (0, s') \<and> transl s' 0x1000 0 = Some 0x405007"
proof -
  have ok: "tables_ok vm_demo 0x1000 (managed (free_set demo_free))" using demo_ok(1) by (simp add: vm_ok_def)
  have p: "0x1000 = pcb_cr3 (vm_procs vm_demo 0)" "(0 :: u64) AND (of_nat PAGE_SIZE - 1) = 0" by (simp_all add: demo_running)
  obtain s' where s': "sys_mprotect 0 1 2 vm_demo = Some (0, s')"
    "transl s' 0x1000 = (\<lambda>w. if unat (0 :: u64) + unat (page_up 1) < 2 ^ 64 \<and> in_pages 0 (unat (page_up 1) div PAGE_SIZE) w
      then map_option (prot_entry 2) (transl vm_demo 0x1000 w) else transl vm_demo 0x1000 w)"
    using sys_mprotect_refines [OF demo_running(1) p(1) ok p(2), of 1 2] by blast
  have "lix d 0 = 0" for d by (simp add: lix_def table_ix_def)
  then have t: "tbl vm_demo 0x1000 0 3 = Some 0x4000" "lslot 0x4000 3 0 = 0x4000"
    using demo_tbl(3) [of 0] by (simp_all add: numeral_3_eq_3 lslot_eq)
  then have tr: "transl vm_demo 0x1000 0 = Some 0x405005"
    by (simp add: transl_def demo_bits) (simp add: vm_demo_def demo_bits)
  have u: "page_up 1 = 0x1000" by (simp add: page_up_def page_floor_def PAGE_SIZE_def)
  have "page_at 0 0 = 0" by (simp add: page_at_def)
  then have "in_pages 0 1 0" unfolding in_pages_def by (intro exI [of _ 0]) simp
  then have "in_pages 0 (unat (page_up 1) div PAGE_SIZE) 0" by (simp add: u PAGE_SIZE_def)
  then have "transl s' 0x1000 0 = Some (prot_entry 2 0x405005)" using s'(2) tr by (simp add: u)
  moreover have "prot_entry 2 0x405005 = 0x405007" by (simp add: prot_entry_def pte_consts)
  ultimately show ?thesis using s'(1) by simp
qed

end
