(* ===== verification/Forking.thy ===== *)
theory Forking
  imports Paging
begin

text \<open>
  Properties of process creation and forking (kernel/process.c, kernel/fork_exec.c): a slot stays
  empty until its process runs, and the child of a fork is looked up one slot too far.
\<close>

section \<open>What creation does to the process table\<close>

lemma create_space_rest: "vmm_create_space oom s = (p, s1) \<Longrightarrow> same_rest s s1"
  by (auto simp: vmm_create_space_def split: prod.splits if_splits dest: same_rest_alloc)

lemma set_heap_procs [simp]: "vm_procs (set_heap h s) = vm_procs s"
  by (simp add: set_heap_def set_pmm_def)

lemma vma_alloc_procs: "vmm_vma_alloc oom s = (t, s1) \<Longrightarrow> vm_procs s1 = vm_procs s"
  by (auto simp: vmm_vma_alloc_def split: prod.splits if_splits)

lemma process_create_procs:
  assumes "process_create oom entry name s = (r, s1)" "0 < r"
  obtains i c k t where "first_idx (\<lambda>i. pcb_state (vm_procs s i) = PSTATE_EMPTY) 0 PROC_MAX = Some i" "r = int (i + 1)"
    "vm_procs s1 = (vm_procs s)(i := \<lparr>pcb_state = PSTATE_EMPTY, pcb_kstack = of_nat (k + PROC_KSTACK_SZ),
       pcb_ursp = PROC_STACK_TOP, pcb_entry = entry, pcb_pid = i + 1, pcb_cr3 = c, pcb_brk = BRK_BASE,
       pcb_name = take 15 name, pcb_kbase = k, pcb_vma_table = t\<rparr>)"
proof -
  obtain i where i: "first_idx (\<lambda>i. pcb_state (vm_procs s i) = PSTATE_EMPTY) 0 PROC_MAX = Some i"
    using assms by (auto simp: process_create_def split: option.splits)
  obtain c s2 where c: "vmm_create_space oom s = (c, s2)" by fastforce
  obtain k h where k: "heap_malloc oom (heap_of (vmm_map_kernel oom c s2)) PROC_KSTACK_SZ = (k, h)" by fastforce
  obtain t s4 where t: "vmm_vma_alloc oom (set_heap h (vmm_map_kernel oom c s2)) = (t, s4)" by fastforce
  have "vm_procs s4 = vm_procs s"
    using vma_alloc_procs [OF t] create_space_rest [OF c] same_rest_map_kernel [of s2 oom c] by (simp add: same_rest_def)
  then show ?thesis using that [OF i] assms i c k t by (auto simp: process_create_def Let_def split: if_splits)
qed

lemma create_takes_same_slot:
  assumes "first_idx (\<lambda>i. pcb_state (T i) = PSTATE_EMPTY) 0 n = Some i" "pcb_state p = PSTATE_EMPTY"
  shows "first_idx (\<lambda>j. pcb_state ((T(i := p)) j) = PSTATE_EMPTY) 0 n = Some i"
  using assms unfolding first_idx_Some by simp

lemma process_create_fails:
  assumes "process_create oom entry name s = (r, s1)" "\<not> 0 < r"
  shows "r = -1" "vm_procs s1 = vm_procs s"
proof -
  obtain c s2 where c: "vmm_create_space oom s = (c, s2)" by fastforce
  obtain k h where k: "heap_malloc oom (heap_of (vmm_map_kernel oom c s2)) PROC_KSTACK_SZ = (k, h)" by fastforce
  obtain t s4 where t: "vmm_vma_alloc oom (set_heap h (vmm_map_kernel oom c s2)) = (t, s4)" by fastforce
  have "vm_procs s2 = vm_procs s" "vm_procs (vmm_map_kernel oom c s2) = vm_procs s"
    using create_space_rest [OF c] same_rest_map_kernel [of s2 oom c] by (simp_all add: same_rest_def)
  moreover have "vm_procs (vmm_destroy c x) = vm_procs x" for x using same_rest_destroy by (simp add: same_rest_def)
  ultimately show "r = -1" "vm_procs s1 = vm_procs s"
    using assms c k t by (auto simp: process_create_def Let_def split: option.splits if_splits)
qed

text \<open>
  A created process does not own its slot.  As long as it has not run, every further creation either fails or
  returns the same number and takes over the slot, and the page table, the stack and the areas
  of the first are then in no process any more.
\<close>

theorem process_create_reuses_slot:
  assumes "process_create oom entry name s = (r, s1)" "0 < r" "process_create oom' entry' name' s1 = (r', s2)"
  shows "pcb_entry (vm_procs s1 (nat r - 1)) = entry \<and>
    (r' = -1 \<and> vm_procs s2 = vm_procs s1 \<or>
     r' = r \<and> pcb_entry (vm_procs s2 (nat r - 1)) = entry' \<and> (\<forall>i. i \<noteq> nat r - 1 \<longrightarrow> vm_procs s2 i = vm_procs s i))"
proof -
  obtain i c k t where 1: "first_idx (\<lambda>i. pcb_state (vm_procs s i) = PSTATE_EMPTY) 0 PROC_MAX = Some i" "r = int (i + 1)"
    "vm_procs s1 = (vm_procs s)(i := \<lparr>pcb_state = PSTATE_EMPTY, pcb_kstack = of_nat (k + PROC_KSTACK_SZ),
       pcb_ursp = PROC_STACK_TOP, pcb_entry = entry, pcb_pid = i + 1, pcb_cr3 = c, pcb_brk = BRK_BASE,
       pcb_name = take 15 name, pcb_kbase = k, pcb_vma_table = t\<rparr>)"
    using process_create_procs [OF assms(1,2)] by metis
  have n: "nat r - 1 = i" using 1(2) by simp
  show ?thesis
  proof (cases "0 < r'")
    case False
    then show ?thesis using process_create_fails [OF assms(3)] 1(3) n by simp
  next
    case True
    obtain i' c' k' t' where 2: "first_idx (\<lambda>i. pcb_state (vm_procs s1 i) = PSTATE_EMPTY) 0 PROC_MAX = Some i'" "r' = int (i' + 1)"
      "vm_procs s2 = (vm_procs s1)(i' := \<lparr>pcb_state = PSTATE_EMPTY, pcb_kstack = of_nat (k' + PROC_KSTACK_SZ),
         pcb_ursp = PROC_STACK_TOP, pcb_entry = entry', pcb_pid = i' + 1, pcb_cr3 = c', pcb_brk = BRK_BASE,
         pcb_name = take 15 name', pcb_kbase = k', pcb_vma_table = t'\<rparr>)"
      using process_create_procs [OF assms(3) True] by metis
    have "i' = i" using create_takes_same_slot [OF 1(1)] 2(1) unfolding 1(3) by simp
    then show ?thesis using 1(2,3) 2(2,3) n by simp
  qed
qed

text \<open>
  The child of a fork is looked for in the wrong slot.  Processes are numbered from one and slots from zero;
  \<open>sys_fork\<close> uses the number as the slot.  The process it has just created keeps the initial stack pointer and
  break, and the parent's stack pointer, entry and break go into the slot after it; the user
  pages are copied into the page table of that other slot too.
\<close>

theorem sys_fork_wrong_slot:
  assumes "process_current_pcb (vm_procs s) = Some p" "sys_fork oom s = (r, s')" "0 < r"
  shows "\<exists>s1. process_create oom (pcb_entry (vm_procs s p)) (pcb_name (vm_procs s p)) s = (r, s1) \<and>
    vm_mem s' = vm_mem (vmm_cow_fork oom (pcb_cr3 (vm_procs s p)) (pcb_cr3 (vm_procs s (nat r))) s1) \<and>
    pcb_pid (vm_procs s' (nat r - 1)) = nat r \<and>
    pcb_ursp (vm_procs s' (nat r - 1)) = PROC_STACK_TOP \<and> pcb_brk (vm_procs s' (nat r - 1)) = BRK_BASE \<and>
    pcb_ursp (vm_procs s' (nat r)) = pcb_ursp (vm_procs s p) \<and> pcb_brk (vm_procs s' (nat r)) = pcb_brk (vm_procs s p) \<and>
    pcb_entry (vm_procs s' (nat r)) = pcb_entry (vm_procs s p)"
proof -
  obtain r0 s1 where c: "process_create oom (pcb_entry (vm_procs s p)) (pcb_name (vm_procs s p)) s = (r0, s1)" by fastforce
  then have r: "r0 = r" "\<not> r < 0" using assms by (auto simp: sys_fork_def Let_def split: if_splits)
  obtain i c' k t where 1: "first_idx (\<lambda>i. pcb_state (vm_procs s i) = PSTATE_EMPTY) 0 PROC_MAX = Some i" "r = int (i + 1)"
    "vm_procs s1 = (vm_procs s)(i := \<lparr>pcb_state = PSTATE_EMPTY, pcb_kstack = of_nat (k + PROC_KSTACK_SZ),
       pcb_ursp = PROC_STACK_TOP, pcb_entry = pcb_entry (vm_procs s p), pcb_pid = i + 1, pcb_cr3 = c', pcb_brk = BRK_BASE,
       pcb_name = take 15 (pcb_name (vm_procs s p)), pcb_kbase = k, pcb_vma_table = t\<rparr>)"
    using process_create_procs [OF c] r assms(3) by metis
  have "pcb_state (vm_procs s p) = PSTATE_RUNNING" "pcb_state (vm_procs s i) = PSTATE_EMPTY"
    using assms(1) 1(1) by (auto simp: process_current_pcb_def dest: first_idxD)
  then have pi: "p \<noteq> i" by (auto simp: PSTATE_RUNNING_def PSTATE_EMPTY_def)
  define s2 where "s2 = vmm_cow_fork oom (pcb_cr3 (vm_procs s1 p)) (pcb_cr3 (vm_procs s1 (nat r))) s1"
  have s2: "vm_procs s2 = vm_procs s1" using same_rest_fork by (simp add: s2_def same_rest_def)
  define s3 where "s3 = s2\<lparr>vm_procs := (vm_procs s2)(nat r := (vm_procs s2 (nat r))\<lparr>pcb_ursp := pcb_ursp (vm_procs s2 p),
      pcb_entry := pcb_entry (vm_procs s2 p), pcb_brk := pcb_brk (vm_procs s2 p)\<rparr>)\<rparr>"
  have s': "s' = process_run (nat r) s3"
    using assms c r by (simp add: sys_fork_def Let_def get_pcb_def s2_def s3_def)
  have run: "vm_mem (process_run n x) = vm_mem x" "pcb_ursp (vm_procs (process_run n x) j) = pcb_ursp (vm_procs x j)"
    "pcb_brk (vm_procs (process_run n x) j) = pcb_brk (vm_procs x j)"
    "pcb_entry (vm_procs (process_run n x) j) = pcb_entry (vm_procs x j)"
    "pcb_pid (vm_procs (process_run n x) j) = pcb_pid (vm_procs x j)" for n x j
    by (auto simp: process_run_def set_pstate_def split: option.splits)
  have n: "nat r = Suc i" "nat r - 1 = i" using 1(2) by simp_all
  have "vm_mem s' = vm_mem (vmm_cow_fork oom (pcb_cr3 (vm_procs s p)) (pcb_cr3 (vm_procs s (nat r))) s1)"
    using 1(3) pi by (simp add: s' run s3_def s2_def n)
  then show ?thesis using c r 1(3) pi by (simp add: s' run s3_def s2 n)
qed

section \<open>A creation that succeeds\<close>

text \<open>The small address space with a fresh heap, and a kernel table that maps nothing.\<close>

definition fork_demo :: vm where
  "fork_demo = vm_demo\<lparr>vm_heap := heap_init (vm_heap vm_demo), vm_kernel_cr3 := 0x5000\<rparr>"

lemma page_alloc_heap: "page_alloc oom s = (p, s1) \<Longrightarrow> h_mem (vm_heap s1) = h_mem (vm_heap s)"
  by (auto simp: page_alloc_def zero_page_def fill_page_def set_pmm_def split: prod.splits if_splits)

lemma fork_demo_create:
  obtains s1 where "process_create id entry name fork_demo = (2, s1)"
proof -
  have "pmm_of fork_demo = pmm_of vm_demo" by (simp add: fork_demo_def pmm_of_def heap_init_def)
  then have inv: "pmm_inv (pmm_of fork_demo) demo_free" using demo_links by simp
  have ne: "free_set demo_free \<noteq> {}" by (simp add: demo_pmm_inv(2))
  obtain p s1 L1 where al: "page_alloc id fork_demo = (p, s1)" "fresh_page demo_free p" "pmm_inv (pmm_of s1) L1"
      "managed (free_set L1) = managed (free_set demo_free) - {p}" "card (free_set L1) = card (free_set demo_free) - 1"
      "\<And>a. outside (managed (free_set demo_free)) a \<Longrightarrow> vm_mem s1 a = vm_mem fork_demo a" "same_rest fork_demo s1"
      "\<And>q. 4096 dvd q \<Longrightarrow> q \<noteq> p \<Longrightarrow> pmm_refcount (pmm_of s1) q = pmm_refcount (pmm_of fork_demo) q"
      "\<And>x. x < 4096 \<Longrightarrow> vm_mem s1 (p + x) = 0"
    using inv ne by (rule page_alloc_ok [where oom = id]) (rule that; assumption)
  have p0: "p \<noteq> 0" using al(2) by (simp add: fresh_page_def)
  let ?s2 = "zero_page p s1"
  have "outside (managed (free_set demo_free)) 0x5000"
    by (simp add: outside_def managed_def idx_to_phys_def RAM_START_def)
  then have "vm_mem ?s2 0x5000 = 0" using al(6) by (simp add: zero_page_def fork_demo_def vm_demo_def)
  moreover have "vm_kernel_cr3 ?s2 = 0x5000"
    using al(7) by (simp add: same_rest_def zero_page_def fill_page_def fork_demo_def)
  ultimately have mk: "vmm_map_kernel id p ?s2 = ?s2" by (simp add: vmm_map_kernel_def Let_def)
  have hm: "h_mem (vm_heap ?s2) = h_mem (heap_init (vm_heap vm_demo))"
    using page_alloc_heap [OF al(1)] by (simp add: zero_page_def fill_page_def fork_demo_def)
  have "b_free (h_mem (vm_heap ?s2)) HEAP_BASE" "b_size (h_mem (vm_heap ?s2)) HEAP_BASE = HEAP_SIZE - 16"
    using heap_init_tiles [of "vm_heap vm_demo"] by (simp_all add: hm)
  then have "block_search (h_mem (vm_heap ?s2)) 4096 HEAP_BASE = Some HEAP_BASE"
    by (subst block_search.simps) (simp add: heap_consts)
  moreover have "round16 4096 = 4096" by (simp add: round16_def)
  moreover have "first_idx (\<lambda>c. 4096 \<le> slab_sizes c) 0 SLAB_NUM_CLASSES = None"
    by (simp add: SLAB_NUM_CLASSES_def slab_sizes_def numeral_eq_Suc)
  ultimately obtain h where h: "heap_malloc id (heap_of ?s2) PROC_KSTACK_SZ = (HEAP_BASE + BLOCK_HDR, h)"
    by (simp add: heap_malloc_def PROC_KSTACK_SZ_def block_malloc_def heap_of_def Let_def)
  obtain t s4 where t: "vmm_vma_alloc id (set_heap h ?s2) = (t, s4)" by fastforce
  have "first_idx (\<lambda>i. pcb_state (vm_procs fork_demo i) = PSTATE_EMPTY) 0 PROC_MAX = Some 1"
    by (rule first_idx_SomeI)
      (auto simp: PROC_MAX_def fork_demo_def vm_demo_def process_init_def pcb_zero_def PSTATE_RUNNING_def PSTATE_EMPTY_def)
  then have "process_create id entry name fork_demo = (2, s4\<lparr>vm_procs := (vm_procs s4)(1 :=
      \<lparr>pcb_state = PSTATE_EMPTY, pcb_kstack = of_nat (HEAP_BASE + BLOCK_HDR + PROC_KSTACK_SZ), pcb_ursp = PROC_STACK_TOP,
       pcb_entry = entry, pcb_pid = 1 + 1, pcb_cr3 = p, pcb_brk = BRK_BASE, pcb_name = take 15 name,
       pcb_kbase = HEAP_BASE + BLOCK_HDR, pcb_vma_table = t\<rparr>)\<rparr>)"
    using al(1) p0 mk h t by (simp add: process_create_def vmm_create_space_def Let_def HEAP_BASE_def)
  then show ?thesis using that by blast
qed

lemma process_create_reuses_slot_witness:
  "\<forall>entry'. \<exists>s1 r' s2. process_create id 0x401000 [] fork_demo = (2, s1) \<and> process_create id entry' [] s1 = (r', s2) \<and>
     (r' = -1 \<or> r' = 2 \<and> pcb_entry (vm_procs s2 1) = entry')"
proof
  fix entry'
  obtain s1 where 1: "process_create id 0x401000 [] fork_demo = (2, s1)" using fork_demo_create by blast
  obtain r' s2 where 2: "process_create id entry' [] s1 = (r', s2)" by fastforce
  from process_create_reuses_slot [OF 1 _ 2] 1 2
  show "\<exists>s1 r' s2. process_create id 0x401000 [] fork_demo = (2, s1) \<and> process_create id entry' [] s1 = (r', s2) \<and>
     (r' = -1 \<or> r' = 2 \<and> pcb_entry (vm_procs s2 1) = entry')"
    by (intro exI [of _ s1] exI [of _ r'] exI [of _ s2]) auto
qed

lemma sys_fork_wrong_slot_witness:
  "\<exists>s'. sys_fork id fork_demo = (2, s') \<and> pcb_brk (vm_procs s' 1) = BRK_BASE \<and> pcb_brk (vm_procs s' 2) = 0x1003000"
proof -
  have p: "process_current_pcb (vm_procs fork_demo) = Some 0" "pcb_brk (vm_procs fork_demo 0) = 0x1003000"
    using demo_running by (simp_all add: fork_demo_def)
  obtain s1 where 1: "process_create id (pcb_entry (vm_procs fork_demo 0)) (pcb_name (vm_procs fork_demo 0)) fork_demo = (2, s1)"
    using fork_demo_create by blast
  then obtain s' where 2: "sys_fork id fork_demo = (2, s')" using p(1) by (simp add: sys_fork_def Let_def)
  have "(0 :: int) < 2" by simp
  from sys_fork_wrong_slot [OF p(1) 2 this] p(2) 2 show ?thesis by auto
qed

end
