(* ===== verification/Vmalloc.thy ===== *)
theory Vmalloc
  imports Paging
begin

text \<open>
  kernel/vmalloc.c: large kernel allocations, contiguous in virtual memory only.  A bitmap has one bit
  for each page of the 256 MB range; pages are mapped through kernel/vmm.c into the address space whose root is
  in the register CR3, the argument \<open>cr3\<close>.  A table of at most 256 entries tracks the
  allocations.  The two functions that print are left out.
\<close>

definition VMALLOC_BASE :: u64 where "VMALLOC_BASE = 0xFFFF800000000000"
definition VMALLOC_SIZE :: u64 where "VMALLOC_SIZE = 0x10000000"
definition VMALLOC_MAX_ALLOC :: u64 where "VMALLOC_MAX_ALLOC = 0x8000000"
definition VMALLOC_PAGES :: nat where "VMALLOC_PAGES = 65536"
definition VMALLOC_MAX_TRACKED :: nat where "VMALLOC_MAX_TRACKED = 256"

record vmalloc_entry =
  ve_virt :: u64
  ve_pages :: nat
  ve_caller :: u64
  ve_tag :: str

record vmalloc_sys =
  vl_vm :: vm
  vl_bitmap :: "nat \<Rightarrow> u8"
  vl_allocated :: nat
  vl_peak :: nat
  vl_allocs :: nat
  vl_frees :: nat
  vl_table :: "nat \<Rightarrow> vmalloc_entry"
  vl_count :: nat

section \<open>The bitmap\<close>

definition vm_btest :: "(nat \<Rightarrow> u8) \<Rightarrow> nat \<Rightarrow> bool" where
  "vm_btest b p \<longleftrightarrow> drop_bit (p AND 7) (b (drop_bit 3 p)) AND 1 = 1"

definition vm_bset :: "nat \<Rightarrow> (nat \<Rightarrow> u8) \<Rightarrow> nat \<Rightarrow> u8" where
  "vm_bset p b = b(drop_bit 3 p := b (drop_bit 3 p) OR push_bit (p AND 7) 1)"

definition vm_bclr :: "nat \<Rightarrow> (nat \<Rightarrow> u8) \<Rightarrow> nat \<Rightarrow> u8" where
  "vm_bclr p b = b(drop_bit 3 p := b (drop_bit 3 p) AND NOT (push_bit (p AND 7) 1))"

text \<open>The first-fit loop over the pages from \<open>i\<close>, \<open>n\<close> of them left.\<close>

fun find_loop :: "(nat \<Rightarrow> u8) \<Rightarrow> nat \<Rightarrow> nat \<Rightarrow> nat \<Rightarrow> nat \<Rightarrow> nat \<Rightarrow> nat" where
  "find_loop b count run_start run_len i 0 = 0"
| "find_loop b count run_start run_len i (Suc n) =
     (if \<not> vm_btest b i
      then let start = (if run_len = 0 then i else run_start)
           in if run_len + 1 \<ge> count then start else find_loop b count start (run_len + 1) (i + 1) n
      else find_loop b count run_start 0 (i + 1) n)"

definition vm_find_free_pages :: "(nat \<Rightarrow> u8) \<Rightarrow> nat \<Rightarrow> nat" where
  "vm_find_free_pages b count =
     (if count = 0 \<or> count > VMALLOC_PAGES then 0 else find_loop b count 0 0 0 VMALLOC_PAGES)"

text \<open>The number of allocated pages from \<open>i\<close> on, \<open>n\<close> pages left.\<close>

fun run_from :: "(nat \<Rightarrow> u8) \<Rightarrow> nat \<Rightarrow> nat \<Rightarrow> nat" where
  "run_from b i 0 = 0"
| "run_from b i (Suc n) = (if vm_btest b i then Suc (run_from b (i + 1) n) else 0)"

section \<open>Tracking\<close>

definition vm_track :: "u64 \<Rightarrow> nat \<Rightarrow> str option \<Rightarrow> vmalloc_sys \<Rightarrow> vmalloc_sys" where
  "vm_track virt pages tag s =
     (if vl_count s \<ge> VMALLOC_MAX_TRACKED then s
      else s\<lparr>vl_table := (vl_table s)(vl_count s := \<lparr>ve_virt = virt, ve_pages = pages, ve_caller = 0,
               ve_tag = (case tag of None \<Rightarrow> [] | Some t \<Rightarrow> take 15 t)\<rparr>),
             vl_count := vl_count s + 1\<rparr>)"

definition vm_untrack :: "u64 \<Rightarrow> vmalloc_sys \<Rightarrow> vmalloc_sys" where
  "vm_untrack virt s =
     (case first_idx (\<lambda>i. ve_virt (vl_table s i) = virt) 0 (vl_count s) of
        None \<Rightarrow> s
      | Some i \<Rightarrow> s\<lparr>vl_table := (if i < vl_count s - 1 then (vl_table s)(i := vl_table s (vl_count s - 1)) else vl_table s),
                     vl_count := vl_count s - 1\<rparr>)"

section \<open>Allocating\<close>

definition vmalloc_init :: "vmalloc_sys \<Rightarrow> vmalloc_sys" where
  "vmalloc_init s = s\<lparr>vl_bitmap := (\<lambda>_. 0), vl_allocated := 0, vl_peak := 0, vl_allocs := 0, vl_frees := 0, vl_count := 0\<rparr>"

definition pages_for :: "u64 \<Rightarrow> nat" where
  "pages_for sz = unat ((sz + of_nat PAGE_SIZE - 1) div of_nat PAGE_SIZE)"

text \<open>The roll-back looks an address up after it has been unmapped.\<close>

definition rollback :: "nat \<Rightarrow> u64 \<Rightarrow> nat \<Rightarrow> vm \<Rightarrow> vm" where
  "rollback cr3 virt n = fold (\<lambda>j s.
     let v = virt + of_nat j * of_nat PAGE_SIZE; s1 = vmm_unmap cr3 v s; old = vmm_virt_to_phys cr3 v s1
     in if old \<noteq> 0 then free_page (unat old) s1 else s1) [0..<n]"

text \<open>Backing pages \<open>i\<close> onwards, \<open>n\<close> of them.\<close>

fun map_fresh :: "(pmm \<Rightarrow> pmm) \<Rightarrow> nat \<Rightarrow> u64 \<Rightarrow> nat \<Rightarrow> nat \<Rightarrow> vm \<Rightarrow> bool \<times> vm" where
  "map_fresh oom cr3 virt i 0 s = (True, s)"
| "map_fresh oom cr3 virt i (Suc n) s =
     (case page_alloc oom s of
        (p, s1) \<Rightarrow>
          if p = 0 then (False, rollback cr3 virt i s1)
          else map_fresh oom cr3 virt (i + 1) n
                 (vmm_map oom cr3 (virt + of_nat i * of_nat PAGE_SIZE) (of_nat p) (PTE_PRESENT OR PTE_WRITE) (zero_page p s1)))"

text \<open>Marking the pages and counting, shared by \<open>vmalloc\<close> and \<open>vmalloc_map_mmio\<close>.\<close>

definition mark_allocated :: "nat \<Rightarrow> nat \<Rightarrow> u64 \<Rightarrow> str option \<Rightarrow> vmalloc_sys \<Rightarrow> vmalloc_sys" where
  "mark_allocated page_idx pages virt tag s =
     (let a = (vl_allocated s + pages) mod 2 ^ 64
      in vm_track virt pages tag (s\<lparr>vl_bitmap := fold (\<lambda>i. vm_bset (page_idx + i)) [0..<pages] (vl_bitmap s),
           vl_allocated := a, vl_peak := max a (vl_peak s), vl_allocs := (vl_allocs s + 1) mod 2 ^ 64\<rparr>))"

definition page_addr :: "nat \<Rightarrow> u64" where
  "page_addr i = VMALLOC_BASE + of_nat i * of_nat PAGE_SIZE"

definition vmalloc :: "(pmm \<Rightarrow> pmm) \<Rightarrow> nat \<Rightarrow> u64 \<Rightarrow> str option \<Rightarrow> vmalloc_sys \<Rightarrow> u64 \<times> vmalloc_sys" where
  "vmalloc oom cr3 sz tag s =
     (if sz = 0 \<or> sz > VMALLOC_MAX_ALLOC then (0, s)
      else let pages = pages_for sz; page_idx = vm_find_free_pages (vl_bitmap s) pages
           in if page_idx = 0 then (0, s)
              else let virt = page_addr page_idx
                   in case map_fresh oom cr3 virt 0 pages (vl_vm s) of
                        (ok, m) \<Rightarrow>
                          if ok then (virt, mark_allocated page_idx pages virt tag (s\<lparr>vl_vm := m\<rparr>))
                          else (0, s\<lparr>vl_vm := m\<rparr>))"

definition in_range :: "u64 \<Rightarrow> bool" where
  "in_range virt \<longleftrightarrow> VMALLOC_BASE \<le> virt \<and> virt < VMALLOC_BASE + VMALLOC_SIZE"

definition page_idx_of :: "u64 \<Rightarrow> nat" where
  "page_idx_of virt = unat ((virt - VMALLOC_BASE) div of_nat PAGE_SIZE)"

text \<open>Releasing the run of pages; \<open>free_frames\<close> tells \<open>vfree\<close> from \<open>vmalloc_unmap_mmio\<close>.\<close>

definition release_page :: "bool \<Rightarrow> nat \<Rightarrow> u64 \<Rightarrow> vm \<Rightarrow> vm" where
  "release_page free_frames cr3 v s =
     (let phys = vmm_virt_to_phys cr3 v s; s1 = vmm_unmap cr3 v s
      in if free_frames \<and> phys \<noteq> 0 then free_page (unat phys) s1 else s1)"

definition release_run :: "bool \<Rightarrow> nat \<Rightarrow> u64 \<Rightarrow> vmalloc_sys \<Rightarrow> vmalloc_sys" where
  "release_run free_frames cr3 virt s =
     (if virt = 0 \<or> \<not> in_range virt then s
      else let page_idx = page_idx_of virt; pages = run_from (vl_bitmap s) page_idx (VMALLOC_PAGES - page_idx)
           in if pages = 0 then s
              else vm_untrack virt (s\<lparr>
                vl_vm := fold (\<lambda>i. release_page free_frames cr3 (virt + of_nat i * of_nat PAGE_SIZE)) [0..<pages] (vl_vm s),
                vl_bitmap := fold (\<lambda>i. vm_bclr (page_idx + i)) [0..<pages] (vl_bitmap s),
                vl_allocated := nat ((int (vl_allocated s) - int pages) mod 2 ^ 64),
                vl_frees := (vl_frees s + 1) mod 2 ^ 64\<rparr>))"

definition vfree :: "nat \<Rightarrow> u64 \<Rightarrow> vmalloc_sys \<Rightarrow> vmalloc_sys" where
  "vfree cr3 addr s = release_run True cr3 addr s"

definition vmalloc_unmap_mmio :: "nat \<Rightarrow> u64 \<Rightarrow> vmalloc_sys \<Rightarrow> vmalloc_sys" where
  "vmalloc_unmap_mmio cr3 addr s = release_run False cr3 addr s"

text \<open>Bytes reached through the page tables.\<close>

definition read_byte :: "nat \<Rightarrow> vm \<Rightarrow> u8" where
  "read_byte a s = of_nat (unat (vm_mem s (a - a mod 8)) div 256 ^ (a mod 8))"

definition zero_virt :: "nat \<Rightarrow> u64 \<Rightarrow> nat \<Rightarrow> vm \<Rightarrow> vm" where
  "zero_virt cr3 dst n = fold (\<lambda>k s. write_bytes (unat (vmm_virt_to_phys cr3 (dst + of_nat k) s)) [0] s) [0..<n]"

definition copy_virt :: "nat \<Rightarrow> u64 \<Rightarrow> u64 \<Rightarrow> nat \<Rightarrow> vm \<Rightarrow> vm" where
  "copy_virt cr3 dst src n = fold (\<lambda>k s. write_bytes (unat (vmm_virt_to_phys cr3 (dst + of_nat k) s))
     [read_byte (unat (vmm_virt_to_phys cr3 (src + of_nat k) s)) s] s) [0..<n]"

definition vzalloc :: "(pmm \<Rightarrow> pmm) \<Rightarrow> nat \<Rightarrow> u64 \<Rightarrow> str option \<Rightarrow> vmalloc_sys \<Rightarrow> u64 \<times> vmalloc_sys" where
  "vzalloc oom cr3 sz tag s =
     (case vmalloc oom cr3 sz tag s of
        (p, s1) \<Rightarrow> (p, if p \<noteq> 0 then s1\<lparr>vl_vm := zero_virt cr3 p (unat sz) (vl_vm s1)\<rparr> else s1))"

definition vrealloc :: "(pmm \<Rightarrow> pmm) \<Rightarrow> nat \<Rightarrow> u64 \<Rightarrow> u64 \<Rightarrow> str option \<Rightarrow> vmalloc_sys \<Rightarrow> u64 \<times> vmalloc_sys" where
  "vrealloc oom cr3 old new_size tag s =
     (if old = 0 then vmalloc oom cr3 new_size tag s
      else if new_size = 0 then (0, vfree cr3 old s)
      else if \<not> in_range old then (0, s)
      else let page_idx = page_idx_of old; old_pages = run_from (vl_bitmap s) page_idx (VMALLOC_PAGES - page_idx)
           in if pages_for new_size \<le> old_pages then (old, s)
              else case vmalloc oom cr3 new_size tag s of
                (p, s1) \<Rightarrow>
                  if p = 0 then (0, s1)
                  else (p, vfree cr3 old (s1\<lparr>vl_vm := copy_virt cr3 p old (old_pages * PAGE_SIZE) (vl_vm s1)\<rparr>)))"

definition vmalloc_to_phys :: "nat \<Rightarrow> u64 \<Rightarrow> vmalloc_sys \<Rightarrow> u64" where
  "vmalloc_to_phys cr3 addr s = (if \<not> in_range addr then 0 else vmm_virt_to_phys cr3 addr (vl_vm s))"

definition vmalloc_map_mmio :: "(pmm \<Rightarrow> pmm) \<Rightarrow> nat \<Rightarrow> u64 \<Rightarrow> u64 \<Rightarrow> str option \<Rightarrow> vmalloc_sys \<Rightarrow> u64 \<times> vmalloc_sys" where
  "vmalloc_map_mmio oom cr3 phys sz tag s =
     (let pages = pages_for sz; page_idx = vm_find_free_pages (vl_bitmap s) pages
      in if page_idx = 0 then (0, s)
         else let virt = page_addr page_idx;
                  m = fold (\<lambda>i. vmm_map oom cr3 (virt + of_nat i * of_nat PAGE_SIZE) (phys + of_nat i * of_nat PAGE_SIZE)
                              (PTE_PRESENT OR PTE_WRITE)) [0..<pages] (vl_vm s)
              in (virt, mark_allocated page_idx pages virt tag (s\<lparr>vl_vm := m\<rparr>)))"

section \<open>The search is first fit\<close>

definition free_run :: "(nat \<Rightarrow> u8) \<Rightarrow> nat \<Rightarrow> nat \<Rightarrow> bool" where
  "free_run b count i \<longleftrightarrow> (\<forall>k < count. \<not> vm_btest b (i + k))"

lemma find_loop_least:
  fixes n :: nat
  assumes "len < count" "len \<le> i" "len > 0 \<longrightarrow> start = i - len"
    and "\<And>k. i - len \<le> k \<Longrightarrow> k < i \<Longrightarrow> \<not> vm_btest b k" "\<And>j. j < i - len \<Longrightarrow> \<not> free_run b count j"
  defines "r \<equiv> find_loop b count start len i n"
  shows "((\<exists>j. j + count \<le> i + n \<and> free_run b count j) \<longrightarrow>
      free_run b count r \<and> r + count \<le> i + n \<and> (\<forall>j < r. \<not> free_run b count j)) \<and>
    ((\<nexists>j. j + count \<le> i + n \<and> free_run b count j) \<longrightarrow> r = 0)"
  using assms(1-5) unfolding r_def
proof (induction n arbitrary: start len i)
  case 0
  have "\<not> (j + count \<le> i \<and> free_run b count j)" for j
    using 0(1,5) by (cases "j < i - len") auto
  then show ?case by auto
next
  case (Suc n)
  show ?case
  proof (cases "vm_btest b i")
    case used: True
    have "\<not> free_run b count j" if "j < i + 1" for j
    proof (cases "j < i - len")
      case False
      then have "i - j < count" "j + (i - j) = i" using that Suc.prems(1,2) by auto
      then show ?thesis using used unfolding free_run_def by metis
    qed (rule Suc.prems(5))
    moreover have "find_loop b count start len i (Suc n) = find_loop b count start 0 (i + 1) n" using used by simp
    moreover have "i + Suc n = (i + 1) + n" by simp
    ultimately show ?thesis using Suc.prems(1) by (simp only:) (rule Suc.IH; simp)
  next
    case free: False
    let ?start = "if len = 0 then i else start"
    have st: "?start = i - len" using Suc.prems(3) by simp
    have fr: "\<not> vm_btest b k" if "i - len \<le> k" "k < i + 1" for k
      using that free Suc.prems(4) by (cases "k = i") auto
    show ?thesis
    proof (cases "len + 1 \<ge> count")
      case True
      then have c: "count = len + 1" using Suc.prems(1) by simp
      have "free_run b count (i - len)" using fr Suc.prems(2) by (simp add: free_run_def c)
      then show ?thesis using free True st Suc.prems(2,5) c by (auto simp: Let_def)
    next
      case False
      have l: "find_loop b count start len i (Suc n) = find_loop b count ?start (len + 1) (i + 1) n"
        using free False by (simp add: Let_def)
      have e: "i + Suc n = (i + 1) + n" by simp
      show ?thesis unfolding l e
      proof (rule Suc.IH)
        show "0 < len + 1 \<longrightarrow> ?start = i + 1 - (len + 1)" using st by simp
        show "\<not> vm_btest b k" if "i + 1 - (len + 1) \<le> k" "k < i + 1" for k using that fr by simp
        show "\<not> free_run b count j" if "j < i + 1 - (len + 1)" for j using that Suc.prems(5) by simp
      qed (use False Suc.prems(2) in simp_all)
    qed
  qed
qed

lemma find_first_run:
  assumes "0 < count" "count \<le> VMALLOC_PAGES"
  shows "vm_find_free_pages b count =
    (case first_idx (free_run b count) 0 (VMALLOC_PAGES - count + 1) of None \<Rightarrow> 0 | Some i \<Rightarrow> i)"
proof -
  let ?r = "find_loop b count 0 0 0 VMALLOC_PAGES"
  have r: "vm_find_free_pages b count = ?r" using assms by (simp add: vm_find_free_pages_def)
  note L = find_loop_least [of 0 count 0 0 b VMALLOC_PAGES, simplified, OF assms(1)]
  have eq: "j < VMALLOC_PAGES - count + 1 \<longleftrightarrow> j + count \<le> VMALLOC_PAGES" for j using assms(2) by arith
  show ?thesis
  proof (cases "\<exists>j. j + count \<le> VMALLOC_PAGES \<and> free_run b count j")
    case True
    then have "first_idx (free_run b count) 0 (VMALLOC_PAGES - count + 1) = Some ?r"
      using L eq by (intro first_idx_SomeI) auto
    then show ?thesis using r by simp
  next
    case False
    then have "first_idx (free_run b count) 0 (VMALLOC_PAGES - count + 1) = None"
      using eq by (auto simp: first_idx_None)
    moreover have "?r = 0" using L False by blast
    ultimately show ?thesis using r by simp
  qed
qed

text \<open>
  The search for pages is first fit: \<open>vm_find_free_pages\<close> returns the start of the first run of that many free
  pages, and zero when there is none; so page zero is a result and the sign of failure.
\<close>

theorem vm_find_free_pages_first_fit:
  assumes "0 < count" "count \<le> VMALLOC_PAGES"
  shows "vm_find_free_pages b count =
    (case first_idx (free_run b count) 0 (VMALLOC_PAGES - count + 1) of None \<Rightarrow> 0 | Some i \<Rightarrow> i)"
  by (rule find_first_run [OF assms])

lemma vm_btest_bit: "vm_btest b k \<longleftrightarrow> bit (b (k div 8)) (k mod 8)"
  by (simp add: vm_btest_def byte_index bit_iff_odd_drop_bit and_one_eq odd_iff_mod_2_eq_one)

lemma small_byte: "k < 8 \<Longrightarrow> vm_btest ((\<lambda>_. 0)(0 := 5)) k \<longleftrightarrow> k = 0 \<or> k = 2"
    "k < 8 \<Longrightarrow> vm_btest ((\<lambda>_. 0)(0 := 6)) k \<longleftrightarrow> k = 1 \<or> k = 2"
proof -
  assume "k < 8"
  then have "k = 0 \<or> k = 1 \<or> k = 2 \<or> k = 3 \<or> k = 4 \<or> k = 5 \<or> k = 6 \<or> k = 7" by arith
  then show "vm_btest ((\<lambda>_. 0)(0 := 5)) k \<longleftrightarrow> k = 0 \<or> k = 2" "vm_btest ((\<lambda>_. 0)(0 := 6)) k \<longleftrightarrow> k = 1 \<or> k = 2"
    by (elim disjE; simp add: vm_btest_bit)+
qed

lemma vm_find_free_pages_first_fit_witness: "vm_find_free_pages ((\<lambda>_. 0)(0 := 5)) 2 = 3"
proof -
  have f: "free_run b 2 j \<longleftrightarrow> \<not> vm_btest b j \<and> \<not> vm_btest b (j + 1)" for b j
    by (auto simp: free_run_def less_Suc_eq numeral_2_eq_2)
  have "\<not> free_run ((\<lambda>_. 0)(0 := 5)) 2 j" if "j < 3" for j
    using that small_byte(1) [of j] small_byte(1) [of "j + 1"] by (auto simp: f)
  moreover have "free_run ((\<lambda>_. 0)(0 := 5)) 2 3" by (simp add: f small_byte(1))
  ultimately have "first_idx (free_run ((\<lambda>_. 0)(0 := 5)) 2) 0 (VMALLOC_PAGES - 2 + 1) = Some 3"
    by (intro first_idx_SomeI) (auto simp: VMALLOC_PAGES_def)
  then show ?thesis using vm_find_free_pages_first_fit [of 2 "(\<lambda>_. 0)(0 := 5)"] by (simp add: VMALLOC_PAGES_def)
qed

section \<open>No allocation ever succeeds\<close>

datatype vl_op =
  Valloc u64 "str option"
| Vzalloc u64 "str option"
| Vfree u64
| Vrealloc u64 u64 "str option"
| Vmmio u64 u64 "str option"
| Vunmap u64

fun vl_step :: "(pmm \<Rightarrow> pmm) \<Rightarrow> nat \<Rightarrow> vl_op \<Rightarrow> vmalloc_sys \<Rightarrow> vmalloc_sys" where
  "vl_step oom cr3 (Valloc n tag) s = snd (vmalloc oom cr3 n tag s)"
| "vl_step oom cr3 (Vzalloc n tag) s = snd (vzalloc oom cr3 n tag s)"
| "vl_step oom cr3 (Vfree a) s = vfree cr3 a s"
| "vl_step oom cr3 (Vrealloc a n tag) s = snd (vrealloc oom cr3 a n tag s)"
| "vl_step oom cr3 (Vmmio p n tag) s = snd (vmalloc_map_mmio oom cr3 p n tag s)"
| "vl_step oom cr3 (Vunmap a) s = vmalloc_unmap_mmio cr3 a s"

definition vl_run :: "(pmm \<Rightarrow> pmm) \<Rightarrow> nat \<Rightarrow> vl_op list \<Rightarrow> vmalloc_sys \<Rightarrow> vmalloc_sys" where
  "vl_run oom cr3 ops s = fold (vl_step oom cr3) ops s"

lemma find_in_empty: "vm_find_free_pages (\<lambda>_. 0) n = 0"
proof (cases "n = 0 \<or> n > VMALLOC_PAGES")
  case False
  have "free_run (\<lambda>_. 0) n 0" by (simp add: free_run_def vm_btest_def)
  then have "first_idx (free_run (\<lambda>_. 0) n) 0 (VMALLOC_PAGES - n + 1) = Some 0" by (simp add: first_idx_Some)
  then show ?thesis using find_first_run [of n "\<lambda>_. 0"] False by simp
qed (auto simp: vm_find_free_pages_def)

lemma run_in_empty: "run_from (\<lambda>_. 0) i n = 0"
  by (cases n) (simp_all add: vm_btest_def)

lemma empty_ops:
  assumes "vl_bitmap s = (\<lambda>_. 0)"
  shows "vmalloc oom cr3 n tag s = (0, s)" "vzalloc oom cr3 n tag s = (0, s)" "vfree cr3 a s = s"
    "vmalloc_map_mmio oom cr3 p n tag s = (0, s)" "vmalloc_unmap_mmio cr3 a s = s" "snd (vrealloc oom cr3 a n tag s) = s"
proof -
  show a: "vmalloc oom cr3 n tag s = (0, s)" for n by (simp add: vmalloc_def assms find_in_empty)
  show "vzalloc oom cr3 n tag s = (0, s)" by (simp add: vzalloc_def a)
  show f: "vfree cr3 a s = s" "vmalloc_unmap_mmio cr3 a s = s"
    by (simp_all add: vfree_def vmalloc_unmap_mmio_def release_run_def assms run_in_empty)
  show "vmalloc_map_mmio oom cr3 p n tag s = (0, s)" by (simp add: vmalloc_map_mmio_def assms find_in_empty)
  show "snd (vrealloc oom cr3 a n tag s) = s" by (simp add: vrealloc_def a f assms run_in_empty Let_def)
qed

text \<open>
  C35. No allocation ever succeeds.  After \<open>vmalloc_init\<close> page zero is free, so the search finds it, and zero means
  failure to the callers: whatever calls are made, in whatever order, \<open>vmalloc\<close>, \<open>vzalloc\<close> and
  \<open>vmalloc_map_mmio\<close> return NULL and nothing changes.
\<close>

theorem vmalloc_never_allocates:
  "vl_run oom cr3 ops (vmalloc_init s) = vmalloc_init s \<and>
   fst (vmalloc oom cr3 n tag (vl_run oom cr3 ops (vmalloc_init s))) = 0 \<and>
   fst (vzalloc oom cr3 n tag (vl_run oom cr3 ops (vmalloc_init s))) = 0 \<and>
   fst (vmalloc_map_mmio oom cr3 p n tag (vl_run oom cr3 ops (vmalloc_init s))) = 0"
proof -
  have b: "vl_bitmap (vmalloc_init s) = (\<lambda>_. 0)" by (simp add: vmalloc_init_def)
  note E = empty_ops [OF b]
  have "vl_step oom cr3 op (vmalloc_init s) = vmalloc_init s" for op by (cases op) (simp_all add: E)
  then have "vl_run oom cr3 ops (vmalloc_init s) = vmalloc_init s" by (induction ops) (simp_all add: vl_run_def)
  then show ?thesis using E by simp
qed

lemma vm_btest_bclr: "vm_btest (vm_bclr p b) k \<longleftrightarrow> k \<noteq> p \<and> vm_btest b k"
  by (auto simp: vm_btest_bit vm_bclr_def byte_index bit_simps dest: same_byte bit_imp_le_length)

lemma vm_btest_bclr_run: "vm_btest (fold (\<lambda>i. vm_bclr (a + i)) [0..<n] b) k \<longleftrightarrow> vm_btest b k \<and> (k < a \<or> a + n \<le> k)"
  by (induction n) (auto simp: vm_btest_bclr)

lemma run_from_exact:
  assumes "\<forall>k < m. vm_btest b (i + k)" "m \<le> n" "m < n \<longrightarrow> \<not> vm_btest b (i + m)"
  shows "run_from b i n = m"
  using assms
proof (induction n arbitrary: i m)
  case (Suc n)
  show ?case
  proof (cases m)
    case (Suc j)
    have "\<forall>k < j. vm_btest b (i + 1 + k)" using Suc.prems(1) Suc by (metis Suc_less_eq add.assoc plus_1_eq_Suc)
    then show ?thesis using Suc.IH [of j "i + 1"] Suc.prems Suc by auto
  qed (use Suc.prems in simp)
qed simp

lemma page_idx_addr:
  assumes "a < VMALLOC_PAGES"
  shows "page_idx_of (page_addr a) = a" "in_range (page_addr a)" "page_addr a \<noteq> 0"
proof -
  have o: "unat (of_nat a * of_nat PAGE_SIZE :: u64) = a * 4096"
    using assms by (simp add: VMALLOC_PAGES_def PAGE_SIZE_def unat_mult_lem [THEN iffD1] unsigned_of_nat take_bit_nat_eq_self)
  have d: "page_addr a - VMALLOC_BASE = of_nat a * of_nat PAGE_SIZE" by (simp add: page_addr_def)
  show "page_idx_of (page_addr a) = a" unfolding page_idx_of_def d
    by (simp only: unat_div o) (simp add: PAGE_SIZE_def)
  have "unat (page_addr a) = unat VMALLOC_BASE + a * 4096"
    unfolding page_addr_def
    by (subst unat_add_lem [THEN iffD1]) (use assms o in \<open>simp_all add: VMALLOC_BASE_def VMALLOC_PAGES_def\<close>)
  then show "in_range (page_addr a)" "page_addr a \<noteq> 0"
    using assms by (auto simp: in_range_def word_le_nat_alt word_less_nat_alt VMALLOC_BASE_def VMALLOC_SIZE_def VMALLOC_PAGES_def)
qed

lemma vm_untrack_bitmap [simp]: "vl_bitmap (vm_untrack v s) = vl_bitmap s"
  by (simp add: vm_untrack_def split: option.splits)

text \<open>
  \<open>vfree\<close> does not know where an allocation ends.  It releases the whole run of allocated pages from the
  address on, so two allocations that lie side by side are released together.
\<close>

theorem vfree_releases_neighbour:
  assumes "a + m + n \<le> VMALLOC_PAGES" "0 < m" "\<forall>k < m + n. vm_btest (vl_bitmap s) (a + k)"
    and "\<not> vm_btest (vl_bitmap s) (a + m + n)"
  shows "\<forall>k. vm_btest (vl_bitmap (vfree cr3 (page_addr a) s)) k \<longleftrightarrow>
    vm_btest (vl_bitmap s) k \<and> (k < a \<or> a + m + n \<le> k)"
proof -
  let ?b = "vl_bitmap s"
  have a: "a < VMALLOC_PAGES" using assms(1,2) by simp
  have "run_from ?b a (VMALLOC_PAGES - a) = m + n"
    by (rule run_from_exact) (use assms in \<open>auto simp: add.assoc\<close>)
  then have "vl_bitmap (vfree cr3 (page_addr a) s) = fold (\<lambda>i. vm_bclr (a + i)) [0..<m + n] ?b"
    using page_idx_addr [OF a] assms(2) by (simp add: vfree_def release_run_def Let_def del: upt_Suc)
  then show ?thesis by (simp add: vm_btest_bclr_run add.assoc)
qed

definition vl_demo :: vmalloc_sys where
  "vl_demo = \<lparr>vl_vm = vm_demo, vl_bitmap = (\<lambda>_. 0)(0 := 6), vl_allocated = 2, vl_peak = 2, vl_allocs = 2, vl_frees = 0,
     vl_table = (\<lambda>_. \<lparr>ve_virt = 0, ve_pages = 0, ve_caller = 0, ve_tag = []\<rparr>), vl_count = 0\<rparr>"

lemma vfree_releases_neighbour_witness:
  "vm_btest (vl_bitmap vl_demo) 2 \<and> \<not> vm_btest (vl_bitmap (vfree 0x1000 (page_addr 1) vl_demo)) 2"
proof -
  have t: "vm_btest (vl_bitmap vl_demo) k \<longleftrightarrow> k = 1 \<or> k = 2" if "k < 8" for k
    using small_byte(2) [OF that] by (simp add: vl_demo_def)
  have "1 + 1 + 1 \<le> VMALLOC_PAGES" "0 < (1 :: nat)" "\<forall>k < 1 + 1. vm_btest (vl_bitmap vl_demo) (1 + k)"
      "\<not> vm_btest (vl_bitmap vl_demo) (1 + 1 + 1)"
    by (auto simp: VMALLOC_PAGES_def t less_Suc_eq)
  from vfree_releases_neighbour [OF this, of "0x1000"] t show ?thesis by simp
qed

end
