(* ===== verification/Swap.thy ===== *)
theory Swap
  imports Vmalloc
begin

text \<open>
  kernel/swap.c: pages on disk.  The header, 1040 bytes with a bitmap of 8192 bits, is read into and
  written from a buffer of 512 bytes, one sector; an access beyond the buffer is outside the array, and the
  operations that would make one have the value \<^term>\<open>None\<close>.  The disk is a function from sector numbers to
  sectors.  Memory is that of Vmm; the pages swapped are read and written through the identity
  mapping.
\<close>

definition SWAP_MAGIC :: nat where "SWAP_MAGIC = 0x57415053"
definition SWAP_MAX_PAGES :: nat where "SWAP_MAX_PAGES = 4096"
definition SWAP_DISK_SECTORS :: nat where "SWAP_DISK_SECTORS = 8192"
definition SWAP_START_LBA :: nat where "SWAP_START_LBA = 130000"

record swap_entry =
  sw_virt :: u64
  sw_sector :: nat
  sw_pid :: nat

record swap_sys =
  sw_vm :: vm
  sw_disk :: "nat \<Rightarrow> sector"
  sw_table :: "nat \<Rightarrow> swap_entry"
  sw_next :: nat
  sw_buf :: sector

definition swap_entry_zero :: swap_entry where
  "swap_entry_zero = \<lparr>sw_virt = 0, sw_sector = 0, sw_pid = 0\<rparr>"

section \<open>The header\<close>

text \<open>Offsets of \<open>used_sectors\<close> and of the word of the bitmap that has bit \<open>idx\<close>.\<close>

definition used_off :: nat where "used_off = 12"

definition bitmap_off :: "nat \<Rightarrow> nat" where
  "bitmap_off idx = 16 + 4 * (idx div 32)"

definition inside_buf :: "nat \<Rightarrow> bool" where
  "inside_buf idx \<longleftrightarrow> bitmap_off idx + 4 \<le> 512"

definition load_header :: "swap_sys \<Rightarrow> swap_sys" where
  "load_header s = s\<lparr>sw_buf := sw_disk s SWAP_START_LBA\<rparr>"

definition store_header :: "swap_sys \<Rightarrow> swap_sys" where
  "store_header s = s\<lparr>sw_disk := (sw_disk s)(SWAP_START_LBA := sw_buf s)\<rparr>"

definition swap_init :: "swap_sys \<Rightarrow> swap_sys" where
  "swap_init s =
     (let s1 = load_header (s\<lparr>sw_table := (\<lambda>_. swap_entry_zero)\<rparr>)
      in if le_value (bytes_at (sw_buf s1) 0 8) \<noteq> SWAP_MAGIC
         then store_header (s1\<lparr>sw_buf := put32 (put_bytes zero_sector 0 (le_bytes 8 SWAP_MAGIC)) 8 SWAP_DISK_SECTORS\<rparr>)
         else s1)"

definition bit_used :: "sector \<Rightarrow> nat \<Rightarrow> bool" where
  "bit_used b idx \<longleftrightarrow> bit (get32 b (bitmap_off idx)) (idx mod 32)"

definition set_used :: "sector \<Rightarrow> nat \<Rightarrow> sector" where
  "set_used b idx =
     (let b1 = put32 b (bitmap_off idx) (get32 b (bitmap_off idx) OR 2 ^ (idx mod 32))
      in put32 b1 used_off ((get32 b1 used_off + 1) mod 2 ^ 32))"

definition set_unused :: "sector \<Rightarrow> nat \<Rightarrow> sector" where
  "set_unused b idx =
     (let b1 = put32 b (bitmap_off idx) (unat ((of_nat (get32 b (bitmap_off idx)) :: u32) AND NOT (push_bit (idx mod 32) 1)))
      in put32 b1 used_off (nat ((int (get32 b1 used_off) - 1) mod 2 ^ 32)))"

datatype scan_result = Outside | Full | Found nat

text \<open>The search from \<open>swap_next_free + i\<close> on, \<open>n\<close> turns left.\<close>

fun swap_scan :: "sector \<Rightarrow> nat \<Rightarrow> nat \<Rightarrow> nat \<Rightarrow> scan_result" where
  "swap_scan b start i 0 = Full"
| "swap_scan b start i (Suc n) =
     (let idx = (start + i) mod SWAP_DISK_SECTORS
      in if \<not> inside_buf idx then Outside
         else if \<not> bit_used b idx then Found idx
         else swap_scan b start (i + 1) n)"

definition swap_alloc_sector :: "swap_sys \<Rightarrow> (nat option \<times> swap_sys) option" where
  "swap_alloc_sector s =
     (let s1 = load_header s
      in case swap_scan (sw_buf s1) (sw_next s1) 0 SWAP_DISK_SECTORS of
           Outside \<Rightarrow> None
         | Full \<Rightarrow> Some (None, s1)
         | Found idx \<Rightarrow> Some (Some idx,
             (store_header (s1\<lparr>sw_buf := set_used (sw_buf s1) idx\<rparr>))\<lparr>sw_next := (idx + 1) mod SWAP_DISK_SECTORS\<rparr>))"

definition swap_free_sector :: "nat \<Rightarrow> swap_sys \<Rightarrow> swap_sys option" where
  "swap_free_sector sector s =
     (if sector \<ge> SWAP_DISK_SECTORS then Some s
      else if \<not> inside_buf sector then None
      else let s1 = load_header s in Some (store_header (s1\<lparr>sw_buf := set_unused (sw_buf s1) sector\<rparr>)))"

section \<open>Moving pages\<close>

definition mem_bytes :: "nat \<Rightarrow> nat \<Rightarrow> vm \<Rightarrow> u8 list" where
  "mem_bytes a n s = map (\<lambda>k. read_byte (a + k) s) [0..<n]"

text \<open>The sector that is written from memory at \<open>a\<close>.\<close>

definition mem_sector :: "nat \<Rightarrow> vm \<Rightarrow> sector" where
  "mem_sector a s = put_bytes zero_sector 0 (mem_bytes a 512 s)"

definition write_page :: "nat \<Rightarrow> nat \<Rightarrow> swap_sys \<Rightarrow> swap_sys" where
  "write_page sector phys s = fold (\<lambda>i s. s\<lparr>sw_disk := (sw_disk s)(SWAP_START_LBA + sector * 8 + i :=
     mem_sector (phys + i * 512) (sw_vm s))\<rparr>) [0..<8] s"

definition read_page :: "nat \<Rightarrow> nat \<Rightarrow> swap_sys \<Rightarrow> swap_sys" where
  "read_page sector phys s = fold (\<lambda>j s. s\<lparr>sw_vm := write_bytes (phys + j * 512)
     (bytes_at (sw_disk s (SWAP_START_LBA + sector * 8 + j)) 0 512) (sw_vm s)\<rparr>) [0..<8] s"

definition set_entry :: "nat \<Rightarrow> swap_entry \<Rightarrow> swap_sys \<Rightarrow> swap_sys" where
  "set_entry i e s = s\<lparr>sw_table := (sw_table s)(i := e)\<rparr>"

definition swap_out :: "nat \<Rightarrow> u64 \<Rightarrow> nat \<Rightarrow> swap_sys \<Rightarrow> (int \<times> swap_sys) option" where
  "swap_out cr3 virt pid s =
     (let phys = vmm_virt_to_phys cr3 (page_floor virt) (sw_vm s)
      in if phys = 0 then Some (EFAULT, s)
         else case swap_alloc_sector s of
           None \<Rightarrow> None
         | Some (None, s1) \<Rightarrow> Some (ENOMEM, s1)
         | Some (Some sector, s1) \<Rightarrow>
             (let s2 = write_page sector (unat (page_floor phys)) s1
              in case first_idx (\<lambda>i. sw_virt (sw_table s2 i) = 0) 0 SWAP_MAX_PAGES of
                   Some i \<Rightarrow> Some (0, set_entry i \<lparr>sw_virt = page_floor virt, sw_sector = sector, sw_pid = pid\<rparr> s2)
                 | None \<Rightarrow> map_option (Pair ENOMEM) (swap_free_sector sector s2)))"

definition swap_in :: "(pmm \<Rightarrow> pmm) \<Rightarrow> nat \<Rightarrow> u64 \<Rightarrow> nat \<Rightarrow> swap_sys \<Rightarrow> (int \<times> swap_sys) option" where
  "swap_in oom cr3 virt pid s =
     (let page = page_floor virt
      in case first_idx (\<lambda>i. sw_virt (sw_table s i) = page \<and> sw_pid (sw_table s i) = pid) 0 SWAP_MAX_PAGES of
           None \<Rightarrow> Some (ENOENT, s)
         | Some i \<Rightarrow>
             (case page_alloc oom (sw_vm s) of
                (p, m) \<Rightarrow>
                  if p = 0 then Some (ENOMEM, s\<lparr>sw_vm := m\<rparr>)
                  else let s1 = read_page (sw_sector (sw_table s i)) p (s\<lparr>sw_vm := m\<rparr>);
                           s2 = s1\<lparr>sw_vm := vmm_map oom cr3 page (of_nat p) table_flags (sw_vm s1)\<rparr>
                       in map_option (\<lambda>s3. (0, set_entry i swap_entry_zero s3)) (swap_free_sector (sw_sector (sw_table s2 i)) s2)))"

text \<open>Every entry with the process number, one after the other.\<close>

fun invalidate_loop :: "nat \<Rightarrow> nat \<Rightarrow> nat \<Rightarrow> swap_sys \<Rightarrow> swap_sys option" where
  "invalidate_loop pid i 0 s = Some s"
| "invalidate_loop pid i (Suc n) s =
     (if sw_pid (sw_table s i) = pid
      then case swap_free_sector (sw_sector (sw_table s i)) s of
        None \<Rightarrow> None
      | Some s1 \<Rightarrow> invalidate_loop pid (i + 1) n (set_entry i swap_entry_zero s1)
      else invalidate_loop pid (i + 1) n s)"

definition swap_invalidate_pid :: "nat \<Rightarrow> swap_sys \<Rightarrow> swap_sys option" where
  "swap_invalidate_pid pid s = invalidate_loop pid 0 SWAP_MAX_PAGES s"

section \<open>Words and their bytes\<close>

lemma write_bytes_mem:
  "vm_mem (write_bytes p bs s) a = (if a mod 8 \<noteq> 0 \<or> a + 8 \<le> p \<or> p + length bs \<le> a then vm_mem s a
     else of_nat (le_value (map (\<lambda>j. if p \<le> a + j \<and> a + j < p + length bs then bs ! (a + j - p)
                                    else of_nat (unat (vm_mem s a) div 256 ^ j)) [0..<8])))"
  by (simp add: write_bytes_def)

lemma write_bytes_inside:
  assumes "a mod 8 = 0" "p \<le> a" "a + 8 \<le> p + length bs"
  shows "vm_mem (write_bytes p bs s) a = of_nat (le_value (take 8 (drop (a - p) bs)))"
proof -
  have "map (\<lambda>j. if p \<le> a + j \<and> a + j < p + length bs then bs ! (a + j - p)
      else of_nat (unat (vm_mem s a) div 256 ^ j)) [0..<8] = take 8 (drop (a - p) bs)"
    by (rule nth_equalityI) (use assms in auto)
  then show ?thesis using assms by (simp add: write_bytes_mem)
qed

lemma write_bytes_outside: "a + 8 \<le> p \<or> p + length bs \<le> a \<Longrightarrow> vm_mem (write_bytes p bs s) a = vm_mem s a"
  by (auto simp: write_bytes_mem)

lemma write_bytes_rest [simp]: "vm_heap (write_bytes p bs s) = vm_heap s" "same_rest s0 (write_bytes p bs s) = same_rest s0 s"
  by (simp_all add: write_bytes_def same_rest_def)

lemma mem_bytes_word: "a mod 8 = 0 \<Longrightarrow> mem_bytes a 8 s = le_bytes 8 (unat (vm_mem s a))"
proof -
  assume a: "a mod 8 = 0"
  have "(a + j) mod 8 = j" "a + j - (a + j) mod 8 = a" if "j < 8" for j
    using a that by (simp_all add: mod_add_eq [symmetric, of a j])
  then show ?thesis by (simp add: mem_bytes_def le_bytes_def read_byte_def)
qed

lemma word_of_mem_bytes: "a mod 8 = 0 \<Longrightarrow> of_nat (le_value (mem_bytes a 8 s)) = vm_mem s a"
proof -
  assume "a mod 8 = 0"
  moreover have "unat (vm_mem s a) < 256 ^ 8" using unsigned_less [of "vm_mem s a"] by simp
  ultimately show ?thesis by (simp add: mem_bytes_word le_value_bytes del: power_numeral_even power_numeral)
qed

section \<open>A page written and read back\<close>

lemma write_page_disk:
  "sw_disk (write_page sector phys s) l = (if \<exists>i < 8. l = SWAP_START_LBA + sector * 8 + i
     then mem_sector (phys + (l - (SWAP_START_LBA + sector * 8)) * 512) (sw_vm s) else sw_disk s l)"
  "sw_vm (write_page sector phys s) = sw_vm s" "sw_table (write_page sector phys s) = sw_table s"
  "sw_next (write_page sector phys s) = sw_next s"
proof -
  let ?g = "\<lambda>i s. s\<lparr>sw_disk := (sw_disk s)(SWAP_START_LBA + sector * 8 + i := mem_sector (phys + i * 512) (sw_vm s))\<rparr>"
  have "sw_disk (fold ?g [0..<n] s) l = (if \<exists>i < n. l = SWAP_START_LBA + sector * 8 + i
     then mem_sector (phys + (l - (SWAP_START_LBA + sector * 8)) * 512) (sw_vm s) else sw_disk s l) \<and>
     sw_vm (fold ?g [0..<n] s) = sw_vm s \<and> sw_table (fold ?g [0..<n] s) = sw_table s \<and> sw_next (fold ?g [0..<n] s) = sw_next s"
    for n
    by (induction n) (auto simp: less_Suc_eq)
  then show "sw_disk (write_page sector phys s) l = (if \<exists>i < 8. l = SWAP_START_LBA + sector * 8 + i
     then mem_sector (phys + (l - (SWAP_START_LBA + sector * 8)) * 512) (sw_vm s) else sw_disk s l)"
  "sw_vm (write_page sector phys s) = sw_vm s" "sw_table (write_page sector phys s) = sw_table s"
  "sw_next (write_page sector phys s) = sw_next s"
    unfolding write_page_def by blast+
qed

lemma read_page_mem:
  assumes "p mod 512 = 0"
  shows "x < 4096 \<Longrightarrow> x mod 8 = 0 \<Longrightarrow> vm_mem (sw_vm (read_page sector p s)) (p + x) =
      of_nat (le_value (bytes_at (sw_disk s (SWAP_START_LBA + sector * 8 + x div 512)) (x mod 512) 8))"
    "\<not> (p \<le> a \<and> a < p + 4096) \<Longrightarrow> vm_mem (sw_vm (read_page sector p s)) a = vm_mem (sw_vm s) a"
    "sw_disk (read_page sector p s) = sw_disk s" "sw_table (read_page sector p s) = sw_table s"
    "vm_heap (sw_vm (read_page sector p s)) = vm_heap (sw_vm s)" "same_rest s0 (sw_vm (read_page sector p s)) = same_rest s0 (sw_vm s)"
proof -
  let ?d = "\<lambda>j. bytes_at (sw_disk s (SWAP_START_LBA + sector * 8 + j)) 0 512"
  define r where "r n = fold (\<lambda>j s. s\<lparr>sw_vm := write_bytes (p + j * 512)
     (bytes_at (sw_disk s (SWAP_START_LBA + sector * 8 + j)) 0 512) (sw_vm s)\<rparr>) [0..<n] s" for n
  have r8: "read_page sector p s = r 8" by (simp add: read_page_def r_def)
  have r0: "r 0 = s" and rS: "r (Suc n) = (r n)\<lparr>sw_vm := write_bytes (p + n * 512)
     (bytes_at (sw_disk (r n) (SWAP_START_LBA + sector * 8 + n)) 0 512) (sw_vm (r n))\<rparr>" for n
    by (simp_all add: r_def)
  have rest: "sw_disk (r n) = sw_disk s \<and> sw_table (r n) = sw_table s \<and> vm_heap (sw_vm (r n)) = vm_heap (sw_vm s) \<and>
      same_rest s0 (sw_vm (r n)) = same_rest s0 (sw_vm s)" for n
    by (induction n) (simp_all add: r0 rS)
  then show "sw_disk (read_page sector p s) = sw_disk s" "sw_table (read_page sector p s) = sw_table s"
    "vm_heap (sw_vm (read_page sector p s)) = vm_heap (sw_vm s)" "same_rest s0 (sw_vm (read_page sector p s)) = same_rest s0 (sw_vm s)"
    by (simp_all add: r8)
  obtain p8 where p8: "p = 512 * p8" using assms by (metis mod_eq_0_iff_dvd dvdE)
  have word: "vm_mem (sw_vm (r n)) a = (if p \<le> a \<and> a < p + n * 512 \<and> a mod 8 = 0
      then of_nat (le_value (take 8 (drop ((a - p) mod 512) (?d ((a - p) div 512))))) else vm_mem (sw_vm s) a)" for n a
  proof (induction n)
    case (Suc n)
    let ?q = "p + n * 512"
    show ?case
    proof (cases "a mod 8 = 0 \<and> ?q \<le> a \<and> a < ?q + 512")
      case True
      then obtain k where k: "a = 8 * k" by (metis mod_eq_0_iff_dvd dvdE)
      have "8 * k < 8 * (64 * (p8 + n + 1))" using True p8 k by simp
      then have "k + 1 \<le> 64 * (p8 + n + 1)" by simp
      then have "a + 8 \<le> ?q + 512" using p8 k by simp
      then have "vm_mem (sw_vm (r (Suc n))) a = of_nat (le_value (take 8 (drop (a - ?q) (?d n))))"
        using True rest [of n] by (simp add: rS write_bytes_inside)
      moreover have "(a - p) mod 512 = a - ?q" "(a - p) div 512 = n"
      proof -
        have e: "a - p = n * 512 + (a - ?q)" "a - ?q < 512" using True by auto
        show "(a - p) mod 512 = a - ?q" "(a - p) div 512 = n" unfolding e(1) using e(2) by simp_all
      qed
      ultimately show ?thesis using True by simp
    next
      case False
      have "a mod 8 \<noteq> 0 \<or> a + 8 \<le> ?q \<or> ?q + 512 \<le> a"
      proof (rule ccontr)
        assume c: "\<not> ?thesis"
        then obtain k where "a = 8 * k" by (metis mod_eq_0_iff_dvd dvdE)
        moreover obtain m where m: "?q = 8 * m" using p8 using that [of "64 * (p8 + n)"] by simp
        ultimately show False using c False by auto
      qed
      then have "vm_mem (sw_vm (r (Suc n))) a = vm_mem (sw_vm (r n)) a" by (auto simp: rS write_bytes_mem)
      moreover have "p \<le> a \<and> a < p + Suc n * 512 \<and> a mod 8 = 0 \<longleftrightarrow> p \<le> a \<and> a < p + n * 512 \<and> a mod 8 = 0"
        using False by auto
      ultimately show ?thesis using Suc by simp
    qed
  qed (auto simp: r0)
  show "vm_mem (sw_vm (read_page sector p s)) (p + x) =
      of_nat (le_value (bytes_at (sw_disk s (SWAP_START_LBA + sector * 8 + x div 512)) (x mod 512) 8))"
    if x: "x < 4096" "x mod 8 = 0"
  proof -
    obtain k where k: "x = 8 * k" using x(2) by (metis mod_eq_0_iff_dvd dvdE)
    have "(p + x) mod 8 = 0" using k p8 by (simp add: mod_eq_0_iff_dvd)
    then have "vm_mem (sw_vm (r 8)) (p + x) = of_nat (le_value (take 8 (drop (x mod 512) (?d (x div 512)))))"
      using word [of 8 "p + x"] x(1) by simp
    moreover have "x mod 512 + 8 \<le> 512"
    proof -
      have "x mod 512 = 8 * (k mod 64)" using k mult_mod_right [of 8 k 64] by simp
      then show ?thesis by simp
    qed
    then have "take 8 (drop (x mod 512) (?d (x div 512))) =
        bytes_at (sw_disk s (SWAP_START_LBA + sector * 8 + x div 512)) (x mod 512) 8"
      by (intro nth_equalityI) (auto simp: bytes_at_def)
    ultimately show ?thesis by (simp add: r8)
  qed
  show "\<not> (p \<le> a \<and> a < p + 4096) \<Longrightarrow> vm_mem (sw_vm (read_page sector p s)) a = vm_mem (sw_vm s) a"
    using word [of 8 a] by (auto simp: r8)
qed

lemma saved_word:
  assumes "phys mod 4096 = 0" "x < 4096" "x mod 8 = 0"
  shows "of_nat (le_value (bytes_at (mem_sector (phys + x div 512 * 512) s) (x mod 512) 8)) = vm_mem s (phys + x)"
proof -
  obtain k where k: "x = 8 * k" using assms(3) by (metis mod_eq_0_iff_dvd dvdE)
  have m: "x mod 512 = 8 * (k mod 64)" using k mult_mod_right [of 8 k 64] by simp
  then have le: "x mod 512 + 8 \<le> 512" by simp
  have e: "phys + x div 512 * 512 + x mod 512 = phys + x" by (simp add: div_mult_mod_eq add.assoc)
  have "bytes_at (mem_sector (phys + x div 512 * 512) s) (x mod 512) 8 = mem_bytes (phys + x) 8 s"
  proof (rule nth_equalityI)
    fix i assume "i < length (bytes_at (mem_sector (phys + x div 512 * 512) s) (x mod 512) 8)"
    then have i: "i < 8" by simp
    have "phys + x div 512 * 512 + (x mod 512 + i) = phys + x + i" using e by simp
    then show "bytes_at (mem_sector (phys + x div 512 * 512) s) (x mod 512) 8 ! i = mem_bytes (phys + x) 8 s ! i"
      using i le by (simp add: bytes_at_def mem_sector_def put_bytes_def mem_bytes_def add_ac)
  qed (simp add: mem_bytes_def)
  moreover have "(phys + x) mod 8 = 0"
  proof -
    obtain j where "phys = 4096 * j" using assms(1) by (metis mod_eq_0_iff_dvd dvdE)
    then show ?thesis using k by (simp add: mod_eq_0_iff_dvd)
  qed
  ultimately show ?thesis by (simp add: word_of_mem_bytes)
qed

end
