(* ===== verification/SwapSpec.thy ===== *)
theory SwapSpec
  imports Swap
begin

text \<open>
  The properties of kernel/swap.c: a page written out is read back as it was, and the first page written out
  shares its place with the header, so that the next one damages it.
\<close>

section \<open>The search\<close>

lemma swap_scan_found:
  "swap_scan b start i n = Found k \<Longrightarrow> k < SWAP_DISK_SECTORS \<and> inside_buf k \<and> \<not> bit_used b k"
  by (induction n arbitrary: i) (auto simp: Let_def SWAP_DISK_SECTORS_def split: if_splits)

text \<open>The search never comes back to the start of the bitmap: it leaves the buffer first.\<close>

lemma swap_scan_from:
  assumes "swap_scan b start i n = Found k" "start + i < SWAP_DISK_SECTORS"
  shows "start + i \<le> k"
  using assms
proof (induction n arbitrary: i)
  case (Suc n)
  let ?k = "start + i"
  have m: "?k mod SWAP_DISK_SECTORS = ?k" using Suc.prems(2) by simp
  show ?case
  proof (cases "inside_buf ?k \<and> bit_used b ?k")
    case True
    then have "16 + 4 * (?k div 32) + 4 \<le> 512" by (simp only: inside_buf_def bitmap_off_def)
    then have "start + (i + 1) < SWAP_DISK_SECTORS" by (simp add: SWAP_DISK_SECTORS_def)
    then show ?thesis using Suc True m by fastforce
  next
    case False
    then show ?thesis using Suc.prems(1) m by (auto simp: Let_def split: if_splits)
  qed
qed simp

lemma scan_first:
  assumes "start < SWAP_DISK_SECTORS" "inside_buf start" "\<not> bit_used b start"
  shows "swap_scan b start 0 SWAP_DISK_SECTORS = Found start"
proof -
  obtain n where n: "SWAP_DISK_SECTORS = Suc n" by (simp add: SWAP_DISK_SECTORS_def)
  have "start mod SWAP_DISK_SECTORS = start" using assms(1) by simp
  then show ?thesis unfolding n using assms(2,3) by (simp add: n)
qed

lemma alloc_sector_eq:
  assumes "swap_scan (sw_disk s SWAP_START_LBA) (sw_next s) 0 SWAP_DISK_SECTORS = Found k"
  obtains s1 where "swap_alloc_sector s = Some (Some k, s1)" "sw_vm s1 = sw_vm s" "sw_table s1 = sw_table s"
    "sw_disk s1 = (sw_disk s)(SWAP_START_LBA := set_used (sw_disk s SWAP_START_LBA) k)"
    "sw_next s1 = (k + 1) mod SWAP_DISK_SECTORS"
  using assms by (simp add: swap_alloc_sector_def load_header_def store_header_def)

lemma free_sector_eq:
  assumes "k < SWAP_DISK_SECTORS" "inside_buf k"
  obtains s1 where "swap_free_sector k s = Some s1" "sw_vm s1 = sw_vm s" "sw_table s1 = sw_table s"
  using assms by (simp add: swap_free_sector_def load_header_def store_header_def)

lemma page_floor_idem [simp]: "page_floor (page_floor v) = page_floor v"
  by (simp add: page_floor_def and.assoc)

lemma mapped_frame:
  assumes "transl s cr3 (page_floor v) = Some e"
  shows "vmm_virt_to_phys cr3 (page_floor v) s = e AND PTE_PHYS_MASK"
    "unat (page_floor (e AND PTE_PHYS_MASK)) = entry_phys e"
proof -
  have "page_floor v AND (of_nat PAGE_SIZE - 1) = 0"
    by (simp add: page_floor_def and.assoc PAGE_SIZE_def)
  then show "vmm_virt_to_phys cr3 (page_floor v) s = e AND PTE_PHYS_MASK" using assms by (simp add: virt_to_phys_eq)
  have "PTE_PHYS_MASK AND NOT (of_nat PAGE_SIZE - 1) = PTE_PHYS_MASK" by (simp add: PTE_PHYS_MASK_def PAGE_SIZE_def)
  then show "unat (page_floor (e AND PTE_PHYS_MASK)) = entry_phys e"
    by (simp add: page_floor_def entry_phys_def and.assoc)
qed

text \<open>A successful \<open>swap_out\<close>, in terms of the sector and the slot it picks.\<close>

lemma swap_out_ok:
  assumes "transl (sw_vm s) cr3 (page_floor v) = Some e" "entry_phys e \<noteq> 0"
    and "swap_scan (sw_disk s SWAP_START_LBA) (sw_next s) 0 SWAP_DISK_SECTORS = Found k"
    and "first_idx (\<lambda>i. sw_virt (sw_table s i) = 0) 0 SWAP_MAX_PAGES = Some i"
  obtains s1 where "swap_out cr3 v pid s = Some (0, s1)" "sw_vm s1 = sw_vm s"
    "sw_table s1 = (sw_table s)(i := \<lparr>sw_virt = page_floor v, sw_sector = k, sw_pid = pid\<rparr>)"
    "sw_next s1 = (k + 1) mod SWAP_DISK_SECTORS"
    "\<And>l. sw_disk s1 l = (if \<exists>j < 8. l = SWAP_START_LBA + k * 8 + j
       then mem_sector (entry_phys e + (l - (SWAP_START_LBA + k * 8)) * 512) (sw_vm s)
       else if l = SWAP_START_LBA then set_used (sw_disk s SWAP_START_LBA) k else sw_disk s l)"
proof -
  obtain a where a: "swap_alloc_sector s = Some (Some k, a)" "sw_vm a = sw_vm s" "sw_table a = sw_table s"
    "sw_disk a = (sw_disk s)(SWAP_START_LBA := set_used (sw_disk s SWAP_START_LBA) k)"
    "sw_next a = (k + 1) mod SWAP_DISK_SECTORS"
    using assms(3) by (rule alloc_sector_eq)
  let ?s1 = "set_entry i \<lparr>sw_virt = page_floor v, sw_sector = k, sw_pid = pid\<rparr> (write_page k (entry_phys e) a)"
  have "e AND PTE_PHYS_MASK \<noteq> 0" using assms(2) by (auto simp: entry_phys_def)
  then have "swap_out cr3 v pid s = Some (0, ?s1)"
    using a assms(4) mapped_frame [OF assms(1)] by (simp add: swap_out_def Let_def write_page_disk)
  then show ?thesis
  proof (rule that)
    show "sw_disk ?s1 l = (if \<exists>j < 8. l = SWAP_START_LBA + k * 8 + j
       then mem_sector (entry_phys e + (l - (SWAP_START_LBA + k * 8)) * 512) (sw_vm s)
       else if l = SWAP_START_LBA then set_used (sw_disk s SWAP_START_LBA) k else sw_disk s l)" for l
      unfolding set_entry_def by (simp add: write_page_disk a cong: if_cong)
  qed (simp_all add: set_entry_def write_page_disk a)
qed

section \<open>Out and in again\<close>

text \<open>
  C8. A page that is written out is read back as it was.  When \<open>swap_out\<close> finds a free sector in the
  part of the bitmap that the buffer holds and a free entry, and four pages of memory are free, \<open>swap_out\<close> followed by
  \<open>swap_in\<close> succeeds; the page is mapped writable to a frame that was free, whose contents are those of the old
  one, the entry is free again, and no other translation changes but for a split 2 MB page.
\<close>

theorem swap_roundtrip:
  assumes "vm_ok (sw_vm s) cr3 L" "4 \<le> card (free_set L)"
    and "transl (sw_vm s) cr3 (page_floor v) = Some e" "entry_phys e \<noteq> 0"
    and "swap_scan (sw_disk s SWAP_START_LBA) (sw_next s) 0 SWAP_DISK_SECTORS = Found k"
    and "first_idx (\<lambda>i. sw_virt (sw_table s i) = 0) 0 SWAP_MAX_PAGES = Some i"
    and "\<forall>j < SWAP_MAX_PAGES. \<not> (sw_virt (sw_table s j) = page_floor v \<and> sw_pid (sw_table s j) = pid)"
  shows "\<exists>s1 s2 p. swap_out cr3 v pid s = Some (0, s1) \<and> swap_in oom cr3 v pid s1 = Some (0, s2) \<and>
    p \<in> managed (free_set L) \<and> transl (sw_vm s2) cr3 = map_spec (sw_vm s) cr3 (page_floor v) (of_nat p OR 7) \<and>
    (\<forall>x < 4096. x mod 8 = 0 \<longrightarrow> vm_mem (sw_vm s2) (p + x) = vm_mem (sw_vm s) (entry_phys e + x)) \<and>
    sw_table s2 = (sw_table s)(i := swap_entry_zero)"
proof -
  obtain s1 where o': "swap_out cr3 v pid s = Some (0, s1)" "sw_vm s1 = sw_vm s"
    "sw_table s1 = (sw_table s)(i := \<lparr>sw_virt = page_floor v, sw_sector = k, sw_pid = pid\<rparr>)"
    "sw_next s1 = (k + 1) mod SWAP_DISK_SECTORS"
    "\<And>l. sw_disk s1 l = (if \<exists>j < 8. l = SWAP_START_LBA + k * 8 + j
       then mem_sector (entry_phys e + (l - (SWAP_START_LBA + k * 8)) * 512) (sw_vm s)
       else if l = SWAP_START_LBA then set_used (sw_disk s SWAP_START_LBA) k else sw_disk s l)"
    using assms(3-6) by (rule swap_out_ok) (rule that; assumption)
  have i: "i < SWAP_MAX_PAGES" using assms(6) by (simp add: first_idx_Some)
  then have fi: "first_idx (\<lambda>j. sw_virt (sw_table s1 j) = page_floor v \<and> sw_pid (sw_table s1 j) = pid) 0 SWAP_MAX_PAGES = Some i"
    using assms(7) by (auto simp: first_idx_Some o'(3))
  have ne: "free_set L \<noteq> {}" using assms(2) by auto
  obtain p m L1 where al: "page_alloc oom (sw_vm s) = (p, m)" "fresh_page L p" "keeps (sw_vm s) L m L1 cr3 1" "is_data m cr3 L1 p"
      "transl m cr3 = transl (sw_vm s) cr3" "huge_at m cr3 = huge_at (sw_vm s) cr3"
      "\<And>x. x < 4096 \<Longrightarrow> vm_mem m (p + x) = 0"
      "\<And>q. 4096 dvd q \<Longrightarrow> q \<noteq> p \<Longrightarrow> pmm_refcount (pmm_of m) q = pmm_refcount (pmm_of (sw_vm s)) q"
      "\<And>w d. d \<le> 3 \<Longrightarrow> tbl m cr3 w d = tbl (sw_vm s) cr3 w d"
    using assms(1) ne by (rule data_page_alloc [where oom = oom]) (rule that; assumption)
  have p: "p \<noteq> 0" "4096 dvd p" "p < 2 ^ 52" "p \<in> managed (free_set L)" using al(2) by (auto simp: fresh_page_def)
  then have p512: "p mod 512 = 0" by (auto elim!: dvdE)
  define r where "r = read_page k p (s1\<lparr>sw_vm := m\<rparr>)"
  note R = read_page_mem [OF p512, where sector = k and s = "s1\<lparr>sw_vm := m\<rparr>", folded r_def, simplified]
  have tok: "tables_ok m cr3 (managed (free_set L1))" using keeps_ok [OF al(3)] by (simp add: vm_ok_def)
  have pd: "no_tables_in m cr3 {p}" using al(4) by (auto simp: is_data_def no_tables_in_def)
  have pa: "\<forall>q \<in> {p}. 4096 dvd q" using p(2) by simp
  have out: "\<forall>x. outside {p} x \<longrightarrow> vm_mem (sw_vm r) x = vm_mem m x"
    using R(2) by (auto simp: outside_def)
  note F = frame_tables [OF tok pa pd out]
  have "pmm_inv (pmm_of (sw_vm r)) L1"
  proof (rule mem_inv)
    show "pmm_inv (pmm_of m) L1" using keeps_ok [OF al(3)] by (simp add: vm_ok_def)
    show "vm_mem (sw_vm r) a = vm_mem m a" if "\<not> outside (managed (free_set L1)) a" for a
    proof -
      have "outside (managed (free_set L1)) a" if "p \<le> a" "a < p + 4096"
        using data_outside [OF al(4), of "a - p"] that by simp
      then show ?thesis using R(2) that by blast
    qed
  qed (simp add: R(5))
  then have okr: "vm_ok (sw_vm r) cr3 L1" using F(4) [OF no_tables_free [OF tok]] by (simp add: vm_ok_def)
  have dr: "is_data (sw_vm r) cr3 L1 p" using al(4) F(1) by (simp add: is_data_def)
  let ?m' = "vmm_map oom cr3 (page_floor v) (of_nat p) table_flags (sw_vm r)"
  have "3 \<le> card (free_set L1)" using al(3) assms(2) by (simp add: keeps_def)
  then obtain L' where M: "keeps (sw_vm r) L1 ?m' L' cr3 3"
      "transl ?m' cr3 = map_spec (sw_vm r) cr3 (page_floor v) (((of_nat p AND PTE_PHYS_MASK) OR table_flags) OR PTE_PRESENT)"
    using vmm_map_ok [OF okr, of oom "page_floor v" "of_nat p" table_flags] by blast
  have "((of_nat p AND PTE_PHYS_MASK) OR table_flags) OR PTE_PRESENT = of_nat p OR 7"
    using of_nat_masked [OF p(2,3)] by (simp add: table_flags_val PTE_PRESENT_def or.assoc)
  moreover have "map_spec (sw_vm r) cr3 (page_floor v) w = map_spec (sw_vm s) cr3 (page_floor v) w" for w
    unfolding map_spec_def split_transl_def F(2,3) al(5,6) ..
  ultimately have T: "transl ?m' cr3 = map_spec (sw_vm s) cr3 (page_floor v) (of_nat p OR 7)" using M(2) by simp
  have k: "k < SWAP_DISK_SECTORS" "inside_buf k" using swap_scan_found assms(5) by blast+
  let ?r2 = "r\<lparr>sw_vm := ?m'\<rparr>"
  obtain r3 where r3': "swap_free_sector k ?r2 = Some r3" "sw_vm r3 = sw_vm ?r2" "sw_table r3 = sw_table ?r2"
    using k by (rule free_sector_eq)
  then have r3: "swap_free_sector k ?r2 = Some r3" "sw_vm r3 = ?m'" "sw_table r3 = sw_table r" by simp_all
  let ?s2 = "set_entry i swap_entry_zero r3"
  have "sw_table r = sw_table s1" using R(4) by simp
  then have "swap_in oom cr3 v pid s1 = Some (0, ?s2)"
    using fi al(1) p(1) r3(1) o'(2,3) by (simp add: swap_in_def Let_def r_def)
  moreover have "vm_mem ?m' (p + x) = vm_mem (sw_vm s) (entry_phys e + x)" if x: "x < 4096" "x mod 8 = 0" for x
  proof -
    let ?l = "SWAP_START_LBA + k * 8 + x div 512"
    have j: "x div 512 < 8" using x(1) by (simp add: less_mult_imp_div_less)
    then have "\<exists>j < 8. ?l = SWAP_START_LBA + k * 8 + j" by blast
    then have d: "sw_disk s1 ?l = mem_sector (entry_phys e + x div 512 * 512) (sw_vm s)" by (simp add: o'(5))
    have "entry_phys e mod 4096 = 0" using entry_phys_aligned(1) [of e] by simp
    then have "vm_mem (sw_vm r) (p + x) = vm_mem (sw_vm s) (entry_phys e + x)"
      unfolding R(1) [OF x] d using x by (rule saved_word)
    then show ?thesis using M(1) dr x(1) by (simp add: keeps_def)
  qed
  moreover have "sw_table ?s2 = (sw_table s)(i := swap_entry_zero)"
    using r3(3) R(4) o'(3) by (simp add: set_entry_def)
  moreover have "sw_vm ?s2 = ?m'" using r3(2) by (simp add: set_entry_def)
  ultimately show ?thesis using o'(1) p(4) T by (intro exI [of _ s1] exI [of _ ?s2] exI [of _ p]) simp
qed

section \<open>The header and the first page\<close>

lemma used_count_changes:
  assumes "get32 b used_off < 2 ^ 32" shows "set_used b k \<noteq> b"
proof
  let ?b1 = "put32 b (bitmap_off k) (get32 b (bitmap_off k) OR 2 ^ (k mod 32))"
  assume "set_used b k = b"
  then have "get32 (set_used b k) used_off = get32 b used_off" by simp
  moreover have g: "get32 ?b1 used_off = get32 b used_off"
    unfolding get32_def put32_def by (subst bytes_at_put_other) (simp_all add: used_off_def bitmap_off_def)
  ultimately have "le_value (take 4 (le_bytes 4 ((get32 b used_off + 1) mod 2 ^ 32))) = get32 b used_off"
    using bytes_at_put [of 0 4 "le_bytes 4 ((get32 b used_off + 1) mod 2 ^ 32)" ?b1 used_off]
    by (simp add: set_used_def Let_def get32_def put32_def g [unfolded get32_def put32_def])
  moreover have "le_value (le_bytes 4 n) = n" if "n < 2 ^ 32" for n
    using that by (simp add: le_value_bytes)
  ultimately have "(get32 b used_off + 1) mod 2 ^ 32 = get32 b used_off" by simp
  then show False using assms by (cases "get32 b used_off + 1 = 2 ^ 32") auto
qed

lemma le_value_less: "le_value bs < 256 ^ length bs"
proof (induction bs)
  case (Cons b bs)
  have "unat b < 256" using unsigned_less [of b] by simp
  then show ?case using Cons by (simp add: le_value_def)
qed (simp add: le_value_def)

lemma get32_less: "get32 b off < 2 ^ 32"
  using le_value_less [of "bytes_at b off 4"] by (simp add: get32_def)

text \<open>
  The first page written out does not survive the second.  Sector 0 of the swap area is the sector of the
  header: from a fresh header, \<open>swap_out\<close> writes the first page over it, and any later \<open>swap_out\<close> that
  succeeds counts its sector there, in the middle of the saved page, which is then no longer what was saved.
\<close>

theorem swap_second_page_corrupts_first:
  assumes "transl (sw_vm s) cr3 (page_floor v) = Some e" "entry_phys e \<noteq> 0"
    and "sw_next s = 0" "\<not> bit_used (sw_disk s SWAP_START_LBA) 0"
    and "first_idx (\<lambda>i. sw_virt (sw_table s i) = 0) 0 SWAP_MAX_PAGES = Some i"
  shows "\<exists>s1. swap_out cr3 v pid s = Some (0, s1) \<and> sw_table s1 i = \<lparr>sw_virt = page_floor v, sw_sector = 0, sw_pid = pid\<rparr> \<and>
    sw_disk s1 SWAP_START_LBA = mem_sector (entry_phys e) (sw_vm s) \<and>
    (\<forall>w pid' s2. swap_out cr3 w pid' s1 = Some (0, s2) \<longrightarrow>
       sw_disk s2 SWAP_START_LBA \<noteq> mem_sector (entry_phys e) (sw_vm s))"
proof -
  have f: "swap_scan (sw_disk s SWAP_START_LBA) (sw_next s) 0 SWAP_DISK_SECTORS = Found 0"
    using assms(3,4) scan_first [of 0] by (simp add: inside_buf_def bitmap_off_def SWAP_DISK_SECTORS_def)
  obtain s1 where o': "swap_out cr3 v pid s = Some (0, s1)" "sw_vm s1 = sw_vm s"
    "sw_table s1 = (sw_table s)(i := \<lparr>sw_virt = page_floor v, sw_sector = 0, sw_pid = pid\<rparr>)"
    "sw_next s1 = (0 + 1) mod SWAP_DISK_SECTORS"
    "\<And>l. sw_disk s1 l = (if \<exists>j < 8. l = SWAP_START_LBA + 0 * 8 + j
       then mem_sector (entry_phys e + (l - (SWAP_START_LBA + 0 * 8)) * 512) (sw_vm s)
       else if l = SWAP_START_LBA then set_used (sw_disk s SWAP_START_LBA) 0 else sw_disk s l)"
    using assms(1,2) f assms(5) by (rule swap_out_ok) (rule that; assumption)
  have first: "sw_disk s1 SWAP_START_LBA = mem_sector (entry_phys e) (sw_vm s)"
    unfolding o'(5) by simp
  have "sw_disk s2 SWAP_START_LBA \<noteq> mem_sector (entry_phys e) (sw_vm s)" if s2: "swap_out cr3 w pid' s1 = Some (0, s2)" for w pid' s2
  proof -
    obtain a k where a: "swap_alloc_sector s1 = Some (Some k, a)"
      using s2 by (auto simp: swap_out_def Let_def EFAULT_def ENOMEM_def split: if_splits option.splits)
    then have sc: "swap_scan (sw_disk s1 SWAP_START_LBA) (sw_next s1) 0 SWAP_DISK_SECTORS = Found k"
      by (auto simp: swap_alloc_sector_def load_header_def Let_def split: scan_result.splits)
    have k: "1 \<le> k" using swap_scan_from [OF sc] o'(4) by (simp add: SWAP_DISK_SECTORS_def)
    obtain a' where a': "swap_alloc_sector s1 = Some (Some k, a')"
      "sw_disk a' = (sw_disk s1)(SWAP_START_LBA := set_used (sw_disk s1 SWAP_START_LBA) k)"
      using sc by (rule alloc_sector_eq) (rule that; assumption)
    obtain ph j where "s2 = set_entry j \<lparr>sw_virt = page_floor w, sw_sector = k, sw_pid = pid'\<rparr> (write_page k ph a)"
      using s2 a by (auto simp: swap_out_def Let_def EFAULT_def ENOMEM_def split: if_splits option.splits)
    then have "sw_disk s2 SWAP_START_LBA = set_used (sw_disk s1 SWAP_START_LBA) k"
      using k a a' by (auto simp: set_entry_def write_page_disk)
    then show ?thesis using used_count_changes [OF get32_less] first by metis
  qed
  then show ?thesis using o'(1,3) first by (intro exI [of _ s1]) simp
qed

section \<open>Two pages\<close>

text \<open>The address space of Paging with two more pages, and a swap area with a fresh header.\<close>

definition swap_demo :: swap_sys where
  "swap_demo = \<lparr>sw_vm = set_word 0x4010 0x407007 (set_word 0x4008 0x406007 vm_demo),
     sw_disk = (\<lambda>_. zero_sector)(SWAP_START_LBA := put32 (put_bytes zero_sector 0 (le_bytes 8 SWAP_MAGIC)) 8 SWAP_DISK_SECTORS),
     sw_table = (\<lambda>_. swap_entry_zero), sw_next = 0, sw_buf = zero_sector\<rparr>"

lemma swap_demo_vm:
  "vm_ok (sw_vm swap_demo) 0x1000 demo_free" "transl (sw_vm swap_demo) 0x1000 0x1000 = Some 0x406007"
  "transl (sw_vm swap_demo) 0x1000 0x2000 = Some 0x407007"
proof -
  have ix: "lix 0 0x1000 = 0" "lix 1 0x1000 = 0" "lix 2 0x1000 = 0" "lix 3 0x1000 = 1"
    "lix 0 0x2000 = 0" "lix 1 0x2000 = 0" "lix 2 0x2000 = 0" "lix 3 0x2000 = 2"
    by (simp_all add: lix_def table_ix_def drop_bit_eq_div)
  have t: "tbl vm_demo 0x1000 0x1000 3 = Some 0x4000" "tbl vm_demo 0x1000 0x2000 3 = Some 0x4000"
    using demo_tbl(3) ix by (simp_all add: numeral_3_eq_3)
  have sl: "lslot 0x4000 3 0x1000 = 0x4008" "lslot 0x4000 3 0x2000 = 0x4010" by (simp_all add: lslot_eq ix)
  let ?s1 = "set_word 0x4008 0x406007 vm_demo"
  have k1: "keeps vm_demo demo_free ?s1 demo_free 0x1000 0"
    using write_leaf(1) [OF demo_ok(1) t(1), of "0x406007"] by (simp add: sl)
  note leaf1 = leaf_write [OF _ t(1), where s' = ?s1 and e = "0x406007"]
  have tok: "tables_ok vm_demo 0x1000 (managed (free_set demo_free))" using demo_ok(1) by (simp add: vm_ok_def)
  have t1: "tbl ?s1 0x1000 0x2000 3 = Some 0x4000" "transl ?s1 0x1000 0x1000 = Some 0x406007"
    using leaf1(1) [OF tok] leaf1(3) [OF tok] leaf1(4) [OF tok] t(2)
    by (auto simp: sl is_present_def PTE_PRESENT_def)
  let ?s2 = "set_word 0x4010 0x407007 ?s1"
  note W = write_leaf [OF keeps_ok [OF k1] t1(1), of "0x407007"]
  have v: "sw_vm swap_demo = ?s2" by (simp add: swap_demo_def)
  have "\<not> same_path 4 0x2000 0x1000" using ix by (auto simp: same_path_def intro!: exI [of _ 3])
  then show "vm_ok (sw_vm swap_demo) 0x1000 demo_free" "transl (sw_vm swap_demo) 0x1000 0x1000 = Some 0x406007"
    "transl (sw_vm swap_demo) 0x1000 0x2000 = Some 0x407007"
    using keeps_ok [OF W(1)] W(2) t1(2) by (simp_all add: sl v is_present_def PTE_PRESENT_def)
qed

lemma swap_demo_scan:
  "sw_next swap_demo = 0" "\<not> bit_used (sw_disk swap_demo SWAP_START_LBA) 0"
  "first_idx (\<lambda>i. sw_virt (sw_table swap_demo i) = 0) 0 SWAP_MAX_PAGES = Some 0"
proof -
  have "get32 (sw_disk swap_demo SWAP_START_LBA) (bitmap_off 0) = 0"
    unfolding swap_demo_def by (simp add: get32_def put32_def bytes_at_put_other bitmap_off_def)
      (simp add: bytes_at_def zero_sector_def le_value_def upt_rec)
  then show "\<not> bit_used (sw_disk swap_demo SWAP_START_LBA) 0" by (simp add: bit_used_def)
  show "sw_next swap_demo = 0" "first_idx (\<lambda>i. sw_virt (sw_table swap_demo i) = 0) 0 SWAP_MAX_PAGES = Some 0"
    by (simp_all add: swap_demo_def swap_entry_zero_def first_idx_Some SWAP_MAX_PAGES_def)
qed

lemma swap_demo_found: "swap_scan (sw_disk swap_demo SWAP_START_LBA) (sw_next swap_demo) 0 SWAP_DISK_SECTORS = Found 0"
  using scan_first [of 0] swap_demo_scan by (simp add: inside_buf_def bitmap_off_def SWAP_DISK_SECTORS_def)

lemma demo_floor: "page_floor 0x1010 = 0x1000" "page_floor 0x2000 = 0x2000" "entry_phys 0x406007 = 0x406000" "entry_phys 0x407007 = 0x407000"
  by (simp_all add: page_floor_def PAGE_SIZE_def entry_phys_def pte_consts)

lemma swap_roundtrip_witness:
  "\<exists>s1 s2 p. swap_out 0x1000 0x1010 1 swap_demo = Some (0, s1) \<and> swap_in id 0x1000 0x1010 1 s1 = Some (0, s2) \<and>
     vm_mem (sw_vm s2) (p + 8) = vm_mem (sw_vm swap_demo) 0x406008"
proof -
  have c: "4 \<le> card (free_set demo_free)" by (simp add: demo_ok(2))
  have t: "transl (sw_vm swap_demo) 0x1000 (page_floor 0x1010) = Some 0x406007" "entry_phys 0x406007 \<noteq> 0"
    by (simp_all add: demo_floor swap_demo_vm)
  have e: "\<forall>j < SWAP_MAX_PAGES. \<not> (sw_virt (sw_table swap_demo j) = page_floor 0x1010 \<and> sw_pid (sw_table swap_demo j) = 1)"
    by (simp add: swap_demo_def swap_entry_zero_def)
  from swap_roundtrip [OF swap_demo_vm(1) c t swap_demo_found swap_demo_scan(3) e, of id] obtain s1 s2 p where
    "swap_out 0x1000 0x1010 1 swap_demo = Some (0, s1)" "swap_in id 0x1000 0x1010 1 s1 = Some (0, s2)"
    "\<forall>x < 4096. x mod 8 = 0 \<longrightarrow> vm_mem (sw_vm s2) (p + x) = vm_mem (sw_vm swap_demo) (entry_phys 0x406007 + x)"
    by blast
  moreover from this(3) have "vm_mem (sw_vm s2) (p + 8) = vm_mem (sw_vm swap_demo) 0x406008"
    by (auto dest: spec [of _ 8] simp: demo_floor)
  ultimately show ?thesis by blast
qed

lemma zero_frame: "mem_sector 0x406000 (sw_vm swap_demo) = zero_sector"
proof -
  have "read_byte (0x406000 + k) (sw_vm swap_demo) = 0" if "k < 512" for k
  proof -
    have "0x406000 + k - (0x406000 + k) mod 8 \<ge> 0x406000"
      using that mod_less_eq_dividend [of k 8] by (simp add: mod_add_eq [symmetric, of "0x406000" k])
    then show ?thesis by (simp add: read_byte_def swap_demo_def vm_demo_def)
  qed
  then have "mem_bytes 0x406000 512 (sw_vm swap_demo) = replicate 512 0"
    by (intro nth_equalityI) (auto simp: mem_bytes_def)
  then show ?thesis by (auto simp: mem_sector_def put_bytes_def zero_sector_def fun_eq_iff)
qed

lemma swap_second_page_corrupts_first_witness:
  "\<exists>s1 s2. swap_out 0x1000 0x1010 1 swap_demo = Some (0, s1) \<and> swap_out 0x1000 0x2000 1 s1 = Some (0, s2) \<and>
     sw_disk s1 SWAP_START_LBA = zero_sector \<and> sw_disk s2 SWAP_START_LBA \<noteq> zero_sector"
proof -
  have t: "transl (sw_vm swap_demo) 0x1000 (page_floor 0x1010) = Some 0x406007" "entry_phys 0x406007 \<noteq> 0"
    by (simp_all add: demo_floor swap_demo_vm)
  from swap_second_page_corrupts_first [OF t swap_demo_scan, of 1] obtain s1 where
    s1: "swap_out 0x1000 0x1010 1 swap_demo = Some (0, s1)" "sw_disk s1 SWAP_START_LBA = zero_sector"
    and bad: "\<forall>w pid' s2. swap_out 0x1000 w pid' s1 = Some (0, s2) \<longrightarrow> sw_disk s2 SWAP_START_LBA \<noteq> zero_sector"
    unfolding demo_floor zero_frame by blast
  obtain a where a: "swap_out 0x1000 0x1010 1 swap_demo = Some (0, a)" "sw_vm a = sw_vm swap_demo"
    "sw_table a = (sw_table swap_demo)(0 := \<lparr>sw_virt = page_floor 0x1010, sw_sector = 0, sw_pid = 1\<rparr>)"
    "sw_next a = (0 + 1) mod SWAP_DISK_SECTORS"
    using t swap_demo_found swap_demo_scan(3) by (rule swap_out_ok) (rule that; assumption)
  with s1 have a1: "a = s1" by simp
  have "get32 zero_sector n = 0" for n by (simp add: get32_def bytes_at_def zero_sector_def le_value_def upt_rec)
  then have "swap_scan (sw_disk s1 SWAP_START_LBA) (sw_next s1) 0 SWAP_DISK_SECTORS = Found 1"
    using a(4) s1(2) scan_first [of 1 zero_sector]
    by (simp add: a1 SWAP_DISK_SECTORS_def bit_used_def inside_buf_def bitmap_off_def)
  moreover have "transl (sw_vm s1) 0x1000 (page_floor 0x2000) = Some 0x407007" "entry_phys 0x407007 \<noteq> 0"
    using a(2) by (simp_all add: demo_floor swap_demo_vm a1)
  moreover have "first_idx (\<lambda>i. sw_virt (sw_table s1 i) = 0) 0 SWAP_MAX_PAGES = Some 1"
    using a(3) by (simp add: a1 first_idx_Some demo_floor swap_demo_def swap_entry_zero_def SWAP_MAX_PAGES_def)
  ultimately obtain s2 where "swap_out 0x1000 0x2000 1 s1 = Some (0, s2)"
    using swap_out_ok [of s1 "0x1000" "0x2000" "0x407007" 1 1 1] by metis
  with s1 bad show ?thesis by blast
qed

end
