(* ===== verification/Tcpip.thy ===== *)
theory Tcpip
  imports Bytes
begin

text \<open>
  kernel/tcpip.c: sockets, the handling of received frames, and the calls that wait for sockets (epoll, poll,
  select).  A received frame is a function from offsets to bytes with a length; frames that are sent are
  appended to a list, as the bytes that lie in memory.  What interrupts do between two turns of a waiting loop is the
  parameter \<open>env\<close>, a function of the number of the turn and the state.  Copies beyond an array
  have the value \<^term>\<open>None\<close>.
\<close>

definition EOPNOTSUPP :: int where [errno]: "EOPNOTSUPP = -95"
definition EISCONN :: int where [errno]: "EISCONN = -106"
definition ENOTCONN :: int where [errno]: "ENOTCONN = -107"
definition ECONNREFUSED :: int where [errno]: "ECONNREFUSED = -111"
definition EALREADY :: int where [errno]: "EALREADY = -114"
definition EINPROGRESS :: int where [errno]: "EINPROGRESS = -115"

definition TCP_FIN :: u8 where "TCP_FIN = 0x01"
definition TCP_SYN :: u8 where "TCP_SYN = 0x02"
definition TCP_RST :: u8 where "TCP_RST = 0x04"
definition TCP_PSH :: u8 where "TCP_PSH = 0x08"
definition TCP_ACK :: u8 where "TCP_ACK = 0x10"

definition TCP_CLOSED :: nat where "TCP_CLOSED = 0"
definition TCP_LISTEN :: nat where "TCP_LISTEN = 1"
definition TCP_SYN_SENT :: nat where "TCP_SYN_SENT = 2"
definition TCP_SYN_RECEIVED :: nat where "TCP_SYN_RECEIVED = 3"
definition TCP_ESTABLISHED :: nat where "TCP_ESTABLISHED = 4"
definition TCP_CLOSE_WAIT :: nat where "TCP_CLOSE_WAIT = 5"
definition TCP_FIN_WAIT_1 :: nat where "TCP_FIN_WAIT_1 = 8"

lemmas tcp_states = TCP_CLOSED_def TCP_LISTEN_def TCP_SYN_SENT_def TCP_SYN_RECEIVED_def TCP_ESTABLISHED_def
  TCP_CLOSE_WAIT_def TCP_FIN_WAIT_1_def
lemmas tcp_flags = TCP_FIN_def TCP_SYN_def TCP_RST_def TCP_PSH_def TCP_ACK_def

definition ETH_HDR_LEN :: nat where "ETH_HDR_LEN = 14"
definition IP_HDR_LEN :: nat where "IP_HDR_LEN = 20"
definition TCP_HDR_LEN :: nat where "TCP_HDR_LEN = 20"
definition ICMP_HDR_LEN :: nat where "ICMP_HDR_LEN = 8"
definition SOCKET_MAX :: nat where "SOCKET_MAX = 64"
definition RECV_BUF :: nat where "RECV_BUF = 8192"
definition EPOLL_MAX_INSTANCES :: nat where "EPOLL_MAX_INSTANCES = 8"
definition EPOLL_MAX_WATCHES :: nat where "EPOLL_MAX_WATCHES = 64"
definition EPOLL_FD_BASE :: int where "EPOLL_FD_BASE = 200"

lemmas hdr_lens = ETH_HDR_LEN_def IP_HDR_LEN_def TCP_HDR_LEN_def ICMP_HDR_LEN_def

record socket =
  so_state :: nat
  so_local_ip :: u32
  so_remote_ip :: u32
  so_local_port :: u16
  so_remote_port :: u16
  so_seq :: u32
  so_ack :: u32
  so_window :: u16
  so_buf :: "nat \<Rightarrow> u8"
  so_recv_len :: nat
  so_recv_pos :: nat
  so_send_len :: nat
  so_type :: u32
  so_nonblock :: bool

record epoll_watch =
  ew_fd :: int
  ew_events :: u32
  ew_data :: u64

record epoll_inst =
  ep_used :: bool
  ep_n :: nat
  ep_watches :: "nat \<Rightarrow> epoll_watch"

record net =
  nt_socks :: "nat \<Rightarrow> socket"
  nt_next_port :: u16
  nt_epoll :: "nat \<Rightarrow> epoll_inst"
  nt_mac :: "nat \<Rightarrow> u8"
  nt_ip :: u32
  nt_sent :: "u8 list list"

definition socket_zero :: socket where
  "socket_zero = \<lparr>so_state = 0, so_local_ip = 0, so_remote_ip = 0, so_local_port = 0, so_remote_port = 0, so_seq = 0,
     so_ack = 0, so_window = 0, so_buf = (\<lambda>_. 0), so_recv_len = 0, so_recv_pos = 0, so_send_len = 0, so_type = 0,
     so_nonblock = False\<rparr>"

definition set_sock :: "nat \<Rightarrow> socket \<Rightarrow> net \<Rightarrow> net" where
  "set_sock i k s = s\<lparr>nt_socks := (nt_socks s)(i := k)\<rparr>"

definition socket_init :: "net \<Rightarrow> net" where
  "socket_init s = s\<lparr>nt_socks := (\<lambda>_. socket_zero)\<rparr>"

definition alloc_port :: "net \<Rightarrow> u16 \<times> net" where
  "alloc_port s =
     (let p = nt_next_port s; q = p + 1 in (p, s\<lparr>nt_next_port := (if q > 65000 then 49152 else q)\<rparr>))"

definition socket_alloc :: "net \<Rightarrow> nat option \<times> net" where
  "socket_alloc s =
     (case first_idx (\<lambda>i. so_state (nt_socks s i) = TCP_CLOSED \<and> so_type (nt_socks s i) = 0) 0 SOCKET_MAX of
        None \<Rightarrow> (None, s)
      | Some i \<Rightarrow> (Some i, set_sock i ((nt_socks s i)\<lparr>so_state := TCP_CLOSED, so_type := 1\<rparr>) s))"

definition socket_get :: "int \<Rightarrow> net \<Rightarrow> nat option" where
  "socket_get fd s =
     (if fd < 0 \<or> fd \<ge> int SOCKET_MAX \<or> so_type (nt_socks s (nat fd)) = 0 then None else Some (nat fd))"

section \<open>Frames\<close>

text \<open>The sum of the 16-bit words in memory order; a byte left over counts as a word.\<close>

fun sum_words :: "u8 list \<Rightarrow> nat \<Rightarrow> nat" where
  "sum_words (a # b # bs) acc = sum_words bs ((acc + le_value [a, b]) mod 2 ^ 32)"
| "sum_words [a] acc = (acc + unat a) mod 2 ^ 32"
| "sum_words [] acc = acc"

function fold_carry :: "nat \<Rightarrow> nat" where
  "fold_carry n = (if n div 2 ^ 16 = 0 then n else fold_carry (n mod 2 ^ 16 + n div 2 ^ 16))"
  by auto
termination
proof (relation "measure id")
  fix n :: nat assume "n div 2 ^ 16 \<noteq> 0"
  then have "n div 2 ^ 16 < 2 ^ 16 * (n div 2 ^ 16)" by simp
  then have "n mod 2 ^ 16 + n div 2 ^ 16 < n mod 2 ^ 16 + 2 ^ 16 * (n div 2 ^ 16)" by (rule add_strict_left_mono)
  also have "\<dots> = n" by (rule mod_mult_div_eq)
  finally show "(n mod 2 ^ 16 + n div 2 ^ 16, n) \<in> measure id" by (simp only: in_measure id_apply)
qed simp

declare fold_carry.simps [simp del]

definition ip_checksum :: "u8 list \<Rightarrow> u16" where
  "ip_checksum bs = NOT (of_nat (fold_carry (sum_words bs 0)))"

definition broadcast :: "u8 list" where
  "broadcast = replicate 6 0xFF"

definition my_mac :: "net \<Rightarrow> u8 list" where
  "my_mac s = map (nt_mac s) [0..<6]"

definition eth_bytes :: "u8 list \<Rightarrow> nat \<Rightarrow> net \<Rightarrow> u8 list" where
  "eth_bytes dst typ s = dst @ my_mac s @ le_bytes 2 typ"

definition ip_fields :: "nat \<Rightarrow> u8 \<Rightarrow> u16 \<Rightarrow> u32 \<Rightarrow> u32 \<Rightarrow> u8 list" where
  "ip_fields len proto check src dst = [0x45, 0] @ le_bytes 2 len @ [0, 0, 0, 0, 64, proto] @
     le_bytes 2 (unat check) @ le_bytes 4 (unat src) @ le_bytes 4 (unat dst)"

definition ip_bytes :: "nat \<Rightarrow> u8 \<Rightarrow> u32 \<Rightarrow> u32 \<Rightarrow> u8 list" where
  "ip_bytes len proto src dst = ip_fields len proto (ip_checksum (ip_fields len proto 0 src dst)) src dst"

definition tcp_bytes :: "socket \<Rightarrow> u8 \<Rightarrow> u8 list" where
  "tcp_bytes k flags = le_bytes 2 (unat (so_local_port k)) @ le_bytes 2 (unat (so_remote_port k)) @
     le_bytes 4 (unat (so_seq k)) @ le_bytes 4 (unat (so_ack k)) @ [0x50, flags] @
     le_bytes 2 (unat (so_window k)) @ [0, 0, 0, 0]"

definition transmit :: "u8 list \<Rightarrow> net \<Rightarrow> net" where
  "transmit f s = s\<lparr>nt_sent := nt_sent s @ [f]\<rparr>"

definition tcp_frame :: "socket \<Rightarrow> u8 \<Rightarrow> u8 list \<Rightarrow> net \<Rightarrow> u8 list" where
  "tcp_frame k flags payload s = eth_bytes broadcast 0x0800 s @
     ip_bytes (IP_HDR_LEN + TCP_HDR_LEN + length payload) 6 (nt_ip s) (so_remote_ip k) @ tcp_bytes k flags @ payload"

definition tcp_send :: "nat \<Rightarrow> u8 \<Rightarrow> net \<Rightarrow> net" where
  "tcp_send i flags s =
     (let k = nt_socks s i; s1 = transmit (tcp_frame k flags [] s) s;
          n = (if flags AND TCP_SYN \<noteq> 0 then 1 else 0) + (if flags AND TCP_ACK \<noteq> 0 then 1 else 0)
      in set_sock i (k\<lparr>so_seq := so_seq k + n\<rparr>) s1)"

definition arp_bytes :: "nat \<Rightarrow> u8 list \<Rightarrow> u32 \<Rightarrow> u8 list \<Rightarrow> u32 \<Rightarrow> u8 list" where
  "arp_bytes opn smac sip tmac tip = le_bytes 2 1 @ le_bytes 2 0x0800 @ [6, 4] @ le_bytes 2 opn @ smac @
     le_bytes 4 (unat sip) @ tmac @ le_bytes 4 (unat tip)"

definition arp_send :: "u32 \<Rightarrow> net \<Rightarrow> net" where
  "arp_send target s = transmit (eth_bytes broadcast 0x0806 s @ arp_bytes 1 (my_mac s) (nt_ip s) (replicate 6 0) target) s"

text \<open>Fields of a received frame.\<close>

definition at16 :: "(nat \<Rightarrow> u8) \<Rightarrow> nat \<Rightarrow> u16" where
  "at16 d off = of_nat (le_value (bytes_at d off 2))"

definition at32 :: "(nat \<Rightarrow> u8) \<Rightarrow> nat \<Rightarrow> u32" where
  "at32 d off = of_nat (le_value (bytes_at d off 4))"

definition arp_handle :: "(nat \<Rightarrow> u8) \<Rightarrow> nat \<Rightarrow> net \<Rightarrow> net" where
  "arp_handle d a s =
     (if at32 d (a + 24) = nt_ip s \<and> at16 d (a + 6) = 1
      then transmit (eth_bytes (bytes_at d (a + 8) 6) 0x0806 s @
             arp_bytes 2 (my_mac s) (nt_ip s) (bytes_at d (a + 8) 6) (at32 d (a + 14))) s
      else s)"

text \<open>
  The buffer has room for 106 bytes and the ICMP structure has ten; the length sent counts eight.
\<close>

definition icmp_send :: "u32 \<Rightarrow> u8 \<Rightarrow> u8 \<Rightarrow> u16 \<Rightarrow> u16 \<Rightarrow> (nat \<Rightarrow> u8) \<Rightarrow> nat \<Rightarrow> nat \<Rightarrow> net \<Rightarrow> net option" where
  "icmp_send dst typ code ident seq d a len s =
     (if ETH_HDR_LEN + IP_HDR_LEN + 10 + len > ETH_HDR_LEN + IP_HDR_LEN + ICMP_HDR_LEN + 64 then None
      else let icmp = (\<lambda>check. take (ICMP_HDR_LEN + len) (le_bytes 2 (unat typ) @ le_bytes 2 (unat code) @
                 le_bytes 2 (unat (check :: u16)) @ le_bytes 2 (unat ident) @ le_bytes 2 (unat seq) @ bytes_at d a len))
           in Some (transmit (eth_bytes broadcast 0x0800 s @
                ip_bytes (IP_HDR_LEN + ICMP_HDR_LEN + len) 1 (nt_ip s) dst @ icmp (ip_checksum (icmp 0))) s))"

section \<open>The calls on sockets\<close>

definition sys_socket :: "u32 \<Rightarrow> net \<Rightarrow> int \<times> net" where
  "sys_socket typ0 s =
     (let typ = typ0 AND NOT 0x800
      in case socket_alloc s of
           (None, s1) \<Rightarrow> (ENOMEM, s1)
         | (Some i, s1) \<Rightarrow>
             (case alloc_port s1 of
                (p, s2) \<Rightarrow> (int i, set_sock i ((nt_socks s2 i)\<lparr>so_type := (if typ \<noteq> 0 then typ else 1),
                   so_nonblock := (typ0 AND 0x800 \<noteq> 0), so_state := TCP_CLOSED, so_local_port := p, so_window := 8192\<rparr>) s2)))"

text \<open>The address is memory; its port is in network order.\<close>

definition addr_port :: "(nat \<Rightarrow> u8) \<Rightarrow> u16" where
  "addr_port a = (push_bit 8 (ucast (a 2))) OR ucast (a 3)"

definition sys_bind :: "int \<Rightarrow> (nat \<Rightarrow> u8) \<Rightarrow> net \<Rightarrow> int \<times> net" where
  "sys_bind fd a s =
     (case socket_get fd s of
        None \<Rightarrow> (EBADF, s)
      | Some i \<Rightarrow>
          (let k = nt_socks s i
           in if so_type k \<noteq> 1 then (EOPNOTSUPP, s)
              else (0, set_sock i (k\<lparr>so_local_port := addr_port a, so_state := TCP_LISTEN\<rparr>) s)))"

definition sys_listen :: "int \<Rightarrow> net \<Rightarrow> int" where
  "sys_listen fd s =
     (case socket_get fd s of
        None \<Rightarrow> EBADF
      | Some i \<Rightarrow> if so_state (nt_socks s i) \<noteq> TCP_LISTEN then EINVAL else 0)"

fun connect_wait :: "(nat \<Rightarrow> net \<Rightarrow> net) \<Rightarrow> nat \<Rightarrow> nat \<Rightarrow> nat \<Rightarrow> net \<Rightarrow> int \<times> net" where
  "connect_wait env i turn 0 s = (ETIMEDOUT, s)"
| "connect_wait env i turn (Suc n) s =
     (if so_state (nt_socks s i) = TCP_ESTABLISHED then (0, s)
      else if so_state (nt_socks s i) = TCP_CLOSED then (ECONNREFUSED, s)
      else connect_wait env i (turn + 1) n (env turn s))"

definition CONNECT_SPINS :: nat where "CONNECT_SPINS = 100000"
definition SPINS :: nat where "SPINS = 2000000"

definition sys_connect :: "(nat \<Rightarrow> net \<Rightarrow> net) \<Rightarrow> int \<Rightarrow> (nat \<Rightarrow> u8) \<Rightarrow> net \<Rightarrow> int \<times> net" where
  "sys_connect env fd a s =
     (case socket_get fd s of
        None \<Rightarrow> (EBADF, s)
      | Some i \<Rightarrow>
          (let k = nt_socks s i
           in if so_state k = TCP_SYN_SENT then (EALREADY, s)
              else if so_state k = TCP_ESTABLISHED then (EISCONN, s)
              else let s1 = tcp_send i TCP_SYN (set_sock i (k\<lparr>so_remote_ip := at32 a 4, so_remote_port := addr_port a,
                                so_seq := 0x12345678, so_state := TCP_SYN_SENT\<rparr>) s)
                   in if so_nonblock k then (EINPROGRESS, s1) else connect_wait env i 0 CONNECT_SPINS s1))"

definition connected :: "net \<Rightarrow> nat option" where
  "connected s = first_idx (\<lambda>i. so_state (nt_socks s i) = TCP_ESTABLISHED \<and> so_remote_port (nt_socks s i) \<noteq> 0) 0 SOCKET_MAX"

fun accept_wait :: "(nat \<Rightarrow> net \<Rightarrow> net) \<Rightarrow> nat \<Rightarrow> nat \<Rightarrow> net \<Rightarrow> int \<times> net" where
  "accept_wait env turn 0 s = (EAGAIN, s)"
| "accept_wait env turn (Suc n) s =
     (case connected s of Some i \<Rightarrow> (int i, s) | None \<Rightarrow> accept_wait env (turn + 1) n (env turn s))"

definition sys_accept :: "(nat \<Rightarrow> net \<Rightarrow> net) \<Rightarrow> int \<Rightarrow> net \<Rightarrow> int \<times> net" where
  "sys_accept env fd s =
     (case socket_get fd s of
        None \<Rightarrow> (EBADF, s)
      | Some i \<Rightarrow>
          if so_state (nt_socks s i) \<noteq> TCP_LISTEN then (EINVAL, s)
          else (case connected s of
                  Some j \<Rightarrow> (int j, s)
                | None \<Rightarrow> if so_nonblock (nt_socks s i) then (EAGAIN, s) else accept_wait env 0 SPINS s))"

text \<open>\<open>data\<close> is what the caller's buffer holds, \<open>len\<close> bytes of it.\<close>

definition sys_send :: "int \<Rightarrow> u8 list \<Rightarrow> net \<Rightarrow> int \<times> net" where
  "sys_send fd data s =
     (case socket_get fd s of
        None \<Rightarrow> (EBADF, s)
      | Some i \<Rightarrow>
          (let k = nt_socks s i; bs = take 1500 data
           in if so_state k \<noteq> TCP_ESTABLISHED then (ENOTCONN, s)
              else (int (length bs), set_sock i (k\<lparr>so_seq := so_seq k + of_nat (length bs)\<rparr>)
                     (transmit (tcp_frame k (TCP_PSH OR TCP_ACK) bs s) s))))"

text \<open>Waiting for data: the code to return, or \<^term>\<open>None\<close> when there is some.\<close>

fun recv_wait :: "(nat \<Rightarrow> net \<Rightarrow> net) \<Rightarrow> nat \<Rightarrow> nat \<Rightarrow> nat \<Rightarrow> net \<Rightarrow> int option \<times> net" where
  "recv_wait env i turn 0 s = (if so_recv_len (nt_socks s i) = 0 then (Some EAGAIN, s) else (None, s))"
| "recv_wait env i turn (Suc n) s =
     (if so_recv_len (nt_socks s i) > 0 then (None, s)
      else if so_state (nt_socks s i) \<noteq> TCP_ESTABLISHED then (Some ENOTCONN, s)
      else recv_wait env i (turn + 1) n (env turn s))"

text \<open>
  The bytes delivered come from the position on; they may lie beyond the buffer.  The buffer of the
  caller is not null: with a null one the code returns the same number and takes nothing out.
\<close>

definition recv_take :: "nat \<Rightarrow> nat \<Rightarrow> net \<Rightarrow> (int \<times> u8 list \<times> net) option" where
  "recv_take i len s =
     (let k = nt_socks s i; n = min len (so_recv_len k)
      in if n = 0 then Some (0, [], s)
         else if so_recv_pos k + n > RECV_BUF then None
         else Some (int n, bytes_at (so_buf k) (so_recv_pos k) n,
                set_sock i (k\<lparr>so_recv_len := so_recv_len k - n,
                   so_recv_pos := (if so_recv_len k - n = 0 then 0 else so_recv_pos k + n)\<rparr>) s))"

definition sys_recv :: "(nat \<Rightarrow> net \<Rightarrow> net) \<Rightarrow> int \<Rightarrow> nat \<Rightarrow> net \<Rightarrow> (int \<times> u8 list \<times> net) option" where
  "sys_recv env fd len s =
     (case socket_get fd s of
        None \<Rightarrow> Some (EBADF, [], s)
      | Some i \<Rightarrow>
          (let k = nt_socks s i
           in if so_state k \<noteq> TCP_ESTABLISHED then Some (ENOTCONN, [], s)
              else if so_recv_len k = 0
              then if so_nonblock k then Some (EAGAIN, [], s)
                   else (case recv_wait env i 0 SPINS s of
                           (Some e, s1) \<Rightarrow> Some (e, [], s1)
                         | (None, s1) \<Rightarrow> recv_take i len s1)
              else recv_take i len s))"

definition sys_close_socket :: "int \<Rightarrow> net \<Rightarrow> int \<times> net" where
  "sys_close_socket fd s =
     (case socket_get fd s of
        None \<Rightarrow> (EBADF, s)
      | Some i \<Rightarrow>
          (let s1 = (if so_state (nt_socks s i) = TCP_ESTABLISHED then tcp_send i (TCP_FIN OR TCP_ACK) s else s)
           in (0, set_sock i ((nt_socks s1 i)\<lparr>so_type := 0, so_state := TCP_CLOSED, so_remote_ip := 0, so_remote_port := 0,
                  so_recv_len := 0, so_recv_pos := 0, so_send_len := 0\<rparr>) s1)))"

section \<open>Received frames\<close>

text \<open>A segment for the socket \<open>i\<close>: the TCP header at \<open>t\<close>, the sender's address, the length of the frame.\<close>

definition store_payload :: "(nat \<Rightarrow> u8) \<Rightarrow> nat \<Rightarrow> nat \<Rightarrow> socket \<Rightarrow> socket" where
  "store_payload d t len k =
     (let n = (len + 2 ^ 64 - (ETH_HDR_LEN + IP_HDR_LEN + TCP_HDR_LEN)) mod 2 ^ 64
      in if n > 0 \<and> n \<le> (RECV_BUF + 2 ^ 64 - so_recv_len k) mod 2 ^ 64
         then k\<lparr>so_buf := put_bytes (so_buf k) (so_recv_len k) (bytes_at d (t + TCP_HDR_LEN) n),
                so_recv_len := so_recv_len k + n\<rparr>
         else k)"

definition tcp_segment :: "(nat \<Rightarrow> u8) \<Rightarrow> nat \<Rightarrow> u32 \<Rightarrow> nat \<Rightarrow> nat \<Rightarrow> net \<Rightarrow> net" where
  "tcp_segment d t src len i s =
     (let k = nt_socks s i; flags = d (t + 13); seq = at32 d (t + 4)
      in if flags AND TCP_SYN \<noteq> 0
         then if so_state k = TCP_LISTEN
              then tcp_send i (TCP_SYN OR TCP_ACK) (set_sock i (k\<lparr>so_remote_ip := src, so_remote_port := at16 d t,
                     so_ack := seq + 1, so_seq := 0x87654321, so_state := TCP_SYN_RECEIVED\<rparr>) s)
              else s
         else if flags AND TCP_ACK \<noteq> 0
         then if so_state k = TCP_SYN_SENT
              then tcp_send i TCP_ACK (set_sock i (k\<lparr>so_ack := seq + 1, so_state := TCP_ESTABLISHED\<rparr>) s)
              else if so_state k = TCP_SYN_RECEIVED then set_sock i (k\<lparr>so_state := TCP_ESTABLISHED\<rparr>) s
              else if so_state k = TCP_ESTABLISHED
              then tcp_send i TCP_ACK (set_sock i (store_payload d t len (k\<lparr>so_ack := seq + 1\<rparr>)) s)
              else s
         else if flags AND TCP_FIN \<noteq> 0
         then if so_state k = TCP_ESTABLISHED
              then tcp_send i (TCP_FIN OR TCP_ACK) (set_sock i (k\<lparr>so_state := TCP_CLOSE_WAIT\<rparr>) s)
              else s
         else if flags AND TCP_RST \<noteq> 0 then set_sock i (k\<lparr>so_state := TCP_CLOSED\<rparr>) s
         else s)"

definition port_socket :: "u16 \<Rightarrow> net \<Rightarrow> nat option" where
  "port_socket p s = first_idx (\<lambda>i. so_type (nt_socks s i) \<noteq> 0 \<and> so_local_port (nt_socks s i) = p) 0 SOCKET_MAX"

definition tcpip_handle_packet :: "(nat \<Rightarrow> u8) \<Rightarrow> nat \<Rightarrow> net \<Rightarrow> net option" where
  "tcpip_handle_packet d len s =
     (let typ = at16 d 12; ip = ETH_HDR_LEN; t = ETH_HDR_LEN + unat (d ip AND 0x0F) * 4; src = at32 d (ip + 12)
      in if len < ETH_HDR_LEN then Some s
         else if typ = 0x0806 then Some (arp_handle d ETH_HDR_LEN s)
         else if typ \<noteq> 0x0800 then Some s
         else if len < ETH_HDR_LEN + IP_HDR_LEN then Some s
         else if d ip AND 0xF0 \<noteq> 0x40 then Some s
         else if d (ip + 9) = 1
         then if at16 d t = 8
              then icmp_send src 0 0 (at16 d (t + 6)) (at16 d (t + 8)) d (t + 10)
                     ((len + 2 ^ 64 - (ETH_HDR_LEN + IP_HDR_LEN + ICMP_HDR_LEN)) mod 2 ^ 64) s
              else Some s
         else if d (ip + 9) = 6
         then (case port_socket (at16 d (t + 2)) s of None \<Rightarrow> Some s | Some i \<Rightarrow> Some (tcp_segment d t src len i s))
         else Some s)"

definition sys_fcntl :: "u64 \<Rightarrow> u64 \<Rightarrow> u64 \<Rightarrow> net \<Rightarrow> int \<times> net" where
  "sys_fcntl fd cmd arg s =
     (case socket_get (sint (ucast fd :: u32)) s of
        None \<Rightarrow> (0, s)
      | Some i \<Rightarrow>
          (let k = nt_socks s i
           in if cmd = 3 then (if so_nonblock k then 0x800 else 0, s)
              else if cmd = 4 then (0, set_sock i (k\<lparr>so_nonblock := (arg AND 0x800 \<noteq> 0)\<rparr>) s)
              else (0, s)))"

end
