(* ===== verification/Poll.thy ===== *)
theory Poll
  imports Tcpip
begin

text \<open>
  The calls of kernel/tcpip.c that wait for several sockets: epoll, poll and select.  Arrays of the
  caller that are filled are lists or functions returned; a descriptor set is a function from the indices of its
  words.  A timeout whose product with 1000 leaves the int has the value \<^term>\<open>None\<close>.
\<close>

definition EPOLLIN :: u32 where "EPOLLIN = 0x01"
definition EPOLLOUT :: u32 where "EPOLLOUT = 0x04"
definition EPOLLHUP :: u32 where "EPOLLHUP = 0x10"

definition epoll_check_fd :: "int \<Rightarrow> net \<Rightarrow> u32" where
  "epoll_check_fd fd s =
     (case socket_get fd s of
        None \<Rightarrow> 0
      | Some i \<Rightarrow>
          (let k = nt_socks s i
           in ((if so_recv_len k > 0 \<or> so_state k = TCP_CLOSE_WAIT then EPOLLIN else 0) OR
               (if so_state k = TCP_ESTABLISHED then EPOLLOUT else 0)) OR
               (if so_state k = TCP_CLOSED \<and> so_type k \<noteq> 0 then EPOLLHUP else 0)))"

section \<open>epoll\<close>

definition set_ep :: "nat \<Rightarrow> epoll_inst \<Rightarrow> net \<Rightarrow> net" where
  "set_ep i e s = s\<lparr>nt_epoll := (nt_epoll s)(i := e)\<rparr>"

definition sys_epoll_create :: "net \<Rightarrow> int \<times> net" where
  "sys_epoll_create s =
     (case first_idx (\<lambda>i. \<not> ep_used (nt_epoll s i)) 0 EPOLL_MAX_INSTANCES of
        None \<Rightarrow> (ENOMEM, s)
      | Some i \<Rightarrow> (EPOLL_FD_BASE + int i, set_ep i ((nt_epoll s i)\<lparr>ep_used := True, ep_n := 0\<rparr>) s))"

definition epoll_get :: "int \<Rightarrow> net \<Rightarrow> nat option" where
  "epoll_get epfd s =
     (let i = epfd - EPOLL_FD_BASE
      in if i < 0 \<or> i \<ge> int EPOLL_MAX_INSTANCES \<or> \<not> ep_used (nt_epoll s (nat i)) then None else Some (nat i))"

definition ev_events :: "(u32 \<times> u64) option \<Rightarrow> u32" where
  "ev_events ev = (case ev of None \<Rightarrow> 0 | Some (e, _) \<Rightarrow> e)"

definition ev_data :: "(u32 \<times> u64) option \<Rightarrow> u64" where
  "ev_data ev = (case ev of None \<Rightarrow> 0 | Some (_, x) \<Rightarrow> x)"

definition watch_idx :: "epoll_inst \<Rightarrow> int \<Rightarrow> nat option" where
  "watch_idx e fd = first_idx (\<lambda>i. ew_fd (ep_watches e i) = fd) 0 (ep_n e)"

definition put_watch :: "nat \<Rightarrow> epoll_watch \<Rightarrow> epoll_inst \<Rightarrow> epoll_inst" where
  "put_watch i w e = e\<lparr>ep_watches := (ep_watches e)(i := w)\<rparr>"

definition sys_epoll_ctl :: "int \<Rightarrow> int \<Rightarrow> int \<Rightarrow> (u32 \<times> u64) option \<Rightarrow> net \<Rightarrow> int \<times> net" where
  "sys_epoll_ctl epfd opn fd ev s =
     (case epoll_get epfd s of
        None \<Rightarrow> (EBADF, s)
      | Some x \<Rightarrow>
          (let e = nt_epoll s x
           in if opn = 1
              then if ep_n e \<ge> EPOLL_MAX_WATCHES then (ENOMEM, s)
                   else (0, set_ep x ((put_watch (ep_n e) \<lparr>ew_fd = fd, ew_events = ev_events ev, ew_data = ev_data ev\<rparr> e)
                              \<lparr>ep_n := ep_n e + 1\<rparr>) s)
              else if opn = 3
              then (case watch_idx e fd of
                      None \<Rightarrow> (ENOENT, s)
                    | Some i \<Rightarrow> (0, set_ep x (put_watch i ((ep_watches e i)\<lparr>ew_events := ev_events ev, ew_data := ev_data ev\<rparr>) e) s))
              else if opn = 2
              then (case watch_idx e fd of
                      None \<Rightarrow> (ENOENT, s)
                    | Some i \<Rightarrow> (0, set_ep x ((put_watch i (ep_watches e (ep_n e - 1)) e)\<lparr>ep_n := ep_n e - 1\<rparr>) s))
              else (EINVAL, s)))"

text \<open>The scan of the watches from \<open>i\<close> on, \<open>k\<close> of them, with room for \<open>m\<close> events.\<close>

fun collect :: "net \<Rightarrow> epoll_inst \<Rightarrow> nat \<Rightarrow> nat \<Rightarrow> nat \<Rightarrow> (u32 \<times> u64) list" where
  "collect s e i 0 m = []"
| "collect s e i (Suc k) m =
     (if m = 0 then []
      else let w = ep_watches e i; fired = epoll_check_fd (ew_fd w) s AND ew_events w
           in if fired \<noteq> 0 then (fired, ew_data w) # collect s e (i + 1) k (m - 1) else collect s e (i + 1) k m)"

fun epoll_wait_loop ::
    "(nat \<Rightarrow> net \<Rightarrow> net) \<Rightarrow> nat \<Rightarrow> nat \<Rightarrow> bool \<Rightarrow> nat \<Rightarrow> nat \<Rightarrow> net \<Rightarrow> int \<times> (u32 \<times> u64) list \<times> net" where
  "epoll_wait_loop env x m once turn 0 s = (0, [], s)"
| "epoll_wait_loop env x m once turn (Suc n) s =
     (let evs = collect s (nt_epoll s x) 0 (ep_n (nt_epoll s x)) m
      in if evs \<noteq> [] then (int (length evs), evs, s)
         else if once then (0, [], s)
         else epoll_wait_loop env x m once (turn + 1) n (env turn s))"

text \<open>The number of turns; \<^term>\<open>None\<close> when it does not fit an int.\<close>

definition wait_turns :: "int \<Rightarrow> nat option" where
  "wait_turns timeout =
     (if timeout < 0 then Some 10000000 else if timeout = 0 then Some 1
      else if timeout * 1000 \<ge> 2 ^ 31 then None else Some (nat (timeout * 1000)))"

definition sys_epoll_wait ::
    "(nat \<Rightarrow> net \<Rightarrow> net) \<Rightarrow> int \<Rightarrow> bool \<Rightarrow> int \<Rightarrow> int \<Rightarrow> net \<Rightarrow> (int \<times> (u32 \<times> u64) list \<times> net) option" where
  "sys_epoll_wait env epfd evs maxevents timeout s =
     (case epoll_get epfd s of
        None \<Rightarrow> Some (EBADF, [], s)
      | Some x \<Rightarrow>
          if \<not> evs \<or> maxevents \<le> 0 then Some (EINVAL, [], s)
          else map_option (\<lambda>n. epoll_wait_loop env x (nat maxevents) (timeout = 0) 0 n s) (wait_turns timeout))"

section \<open>poll\<close>

text \<open>The answer for one entry: its descriptor and the events asked for.\<close>

definition poll_events :: "net \<Rightarrow> int \<times> u16 \<Rightarrow> u16" where
  "poll_events s p =
     (case p of (fd, events) \<Rightarrow>
        if fd < 0 then 0
        else let ready = epoll_check_fd fd s
             in (((if events AND 0x0001 \<noteq> 0 \<and> ready AND 0x1 \<noteq> 0 then 0x0001 else 0) OR
                  (if events AND 0x0004 \<noteq> 0 \<and> ready AND 0x4 \<noteq> 0 then 0x0004 else 0)) OR
                  (if ready AND 0x8 \<noteq> 0 then 0x0008 else 0)) OR
                  (if ready AND 0x10 \<noteq> 0 then 0x0010 else 0))"

fun poll_loop ::
    "(nat \<Rightarrow> net \<Rightarrow> net) \<Rightarrow> (int \<times> u16) list \<Rightarrow> bool \<Rightarrow> nat \<Rightarrow> nat \<Rightarrow> net \<Rightarrow> int \<times> u16 list \<times> net" where
  "poll_loop env fds once turn 0 s = (0, map (\<lambda>_. 0) fds, s)"
| "poll_loop env fds once turn (Suc n) s =
     (let rs = map (poll_events s) fds; k = length (filter (\<lambda>r. r \<noteq> 0) rs)
      in if k > 0 then (int k, rs, s)
         else if once then (0, rs, s)
         else poll_loop env fds once (turn + 1) n (env turn s))"

definition sys_poll :: "(nat \<Rightarrow> net \<Rightarrow> net) \<Rightarrow> (int \<times> u16) list \<Rightarrow> int \<Rightarrow> net \<Rightarrow> (int \<times> u16 list \<times> net) option" where
  "sys_poll env fds timeout s =
     (if fds = [] then Some (0, [], s)
      else map_option (\<lambda>n. poll_loop env fds (timeout = 0) 0 n s) (wait_turns timeout))"

section \<open>select\<close>

type_synonym fd_set = "nat \<Rightarrow> u64"

definition fdset_isset :: "fd_set \<Rightarrow> int \<Rightarrow> bool" where
  "fdset_isset f fd \<longleftrightarrow> \<not> (fd < 0 \<or> fd \<ge> 1024) \<and> drop_bit (nat fd mod 64) (f (nat fd div 64)) AND 1 \<noteq> 0"

definition fdset_set :: "int \<Rightarrow> fd_set \<Rightarrow> fd_set" where
  "fdset_set fd f =
     (if fd < 0 \<or> fd \<ge> 1024 then f
      else f(nat fd div 64 := f (nat fd div 64) OR push_bit (nat fd mod 64) 1))"

definition fdset_clr :: "int \<Rightarrow> fd_set \<Rightarrow> fd_set" where
  "fdset_clr fd f =
     (if fd < 0 \<or> fd \<ge> 1024 then f
      else f(nat fd div 64 := f (nat fd div 64) AND NOT (push_bit (nat fd mod 64) 1)))"

text \<open>The scan of the descriptors from \<open>fd\<close> on, \<open>k\<close> of them; the count and the sets so far are passed on.\<close>

fun select_scan ::
    "net \<Rightarrow> fd_set option \<Rightarrow> fd_set option \<Rightarrow> nat \<Rightarrow> nat \<Rightarrow> nat \<times> fd_set \<times> fd_set \<Rightarrow> nat \<times> fd_set \<times> fd_set" where
  "select_scan s rfs wfs fd 0 acc = acc"
| "select_scan s rfs wfs fd (Suc k) (n, r, w) =
     (let ready = epoll_check_fd (int fd) s;
          inr = (case rfs of None \<Rightarrow> False | Some f \<Rightarrow> fdset_isset f (int fd) \<and> ready AND 0x1 \<noteq> 0);
          inw = (case wfs of None \<Rightarrow> False | Some f \<Rightarrow> fdset_isset f (int fd) \<and> ready AND 0x4 \<noteq> 0)
      in select_scan s rfs wfs (fd + 1) k
           (n + (if inr then 1 else 0) + (if inw then 1 else 0),
            if inr then fdset_set (int fd) r else r, if inw then fdset_set (int fd) w else w))"

fun select_loop ::
    "(nat \<Rightarrow> net \<Rightarrow> net) \<Rightarrow> nat \<Rightarrow> fd_set option \<Rightarrow> fd_set option \<Rightarrow> bool \<Rightarrow> nat \<Rightarrow> nat \<Rightarrow> fd_set \<times> fd_set \<Rightarrow> net \<Rightarrow>
     int \<times> fd_set option \<times> fd_set option \<times> net" where
  "select_loop env k rfs wfs once turn 0 out s = (0, map_option (\<lambda>_ _. 0) rfs, map_option (\<lambda>_ _. 0) wfs, s)"
| "select_loop env k rfs wfs once turn (Suc m) out s =
     (case select_scan s rfs wfs 0 k (0, out) of
        (n, r, w) \<Rightarrow>
          if n > 0 then (int n, map_option (\<lambda>_. r) rfs, map_option (\<lambda>_. w) wfs, s)
          else if once then (0, rfs, wfs, s)
          else select_loop env k rfs wfs once (turn + 1) m (r, w) (env turn s))"

text \<open>The number of turns from the timeval; the conversion to int keeps the low 32 bits.\<close>

definition select_turns :: "(u64 \<times> u64) option \<Rightarrow> nat" where
  "select_turns tv =
     (case tv of
        None \<Rightarrow> 10000000
      | Some (sec, usec) \<Rightarrow>
          (let total_us = sec * 1000000 + usec in nat (sint (ucast (if total_us > 0 then total_us else 1) :: u32))))"

definition sys_select ::
    "(nat \<Rightarrow> net \<Rightarrow> net) \<Rightarrow> int \<Rightarrow> fd_set option \<Rightarrow> fd_set option \<Rightarrow> (u64 \<times> u64) option \<Rightarrow> net \<Rightarrow>
     int \<times> fd_set option \<times> fd_set option \<times> net" where
  "sys_select env nfds rfs wfs tv s =
     select_loop env (nat (min nfds (int SOCKET_MAX))) rfs wfs (tv = Some (0, 0)) 0 (select_turns tv) (\<lambda>_. 0, \<lambda>_. 0) s"

end
