(* ===== verification/TcpipSpec.thy ===== *)
theory TcpipSpec
  imports Poll
begin

text \<open>
  The properties of kernel/tcpip.c: the checksum of the frames sent, what every operation keeps of the
  table of sockets, opening a connection from outside, the data of a connection, and the answers of the calls that
  wait for sockets.
\<close>

section \<open>The checksum\<close>

fun wsum :: "u8 list \<Rightarrow> nat" where
  "wsum (a # b # bs) = le_value [a, b] + wsum bs"
| "wsum [a] = unat a"
| "wsum [] = 0"

lemma unat_limit: "unat (a :: u8) < 256" "unat (c :: u16) < 65536"
proof -
  have "unat a < 2 ^ LENGTH(8)" "unat c < 2 ^ LENGTH(16)" by (rule unsigned_less)+
  then show "unat a < 256" "unat c < 65536" by simp_all
qed

lemma le_value_pair: "le_value [a, b] = unat a + 256 * unat b" "le_value [a, b] < 2 ^ 16"
proof -
  show e: "le_value [a, b] = unat a + 256 * unat b" by (simp add: le_value_def)
  show "le_value [a, b] < 2 ^ 16" using unat_limit(1) [of a] unat_limit(1) [of b] unfolding e by simp
qed

lemma sum_words_wsum: "acc + 2 ^ 16 * length bs < 2 ^ 32 \<Longrightarrow> sum_words bs acc = acc + wsum bs"
proof (induction bs acc rule: sum_words.induct)
  case (1 a b bs acc)
  have "acc + le_value [a, b] < 2 ^ 32" using 1(2) le_value_pair(2) [of a b] by simp
  moreover have "(acc + le_value [a, b]) + 2 ^ 16 * length bs < 2 ^ 32" using 1(2) le_value_pair(2) [of a b] by simp
  ultimately show ?case using 1(1) by simp
next
  case (2 a acc)
  then show ?case using unat_limit(1) [of a] by simp
qed simp

lemma wsum_append: "even (length xs) \<Longrightarrow> wsum (xs @ ys) = wsum xs + wsum ys"
  by (induction xs rule: wsum.induct) auto

lemma wsum_le16: "wsum (le_bytes 2 n) = n mod 2 ^ 16"
proof -
  have "le_bytes 2 n = [of_nat n, of_nat (n div 256)]" by (simp add: le_bytes_def upt_rec)
  moreover have "le_value (le_bytes 2 n) = n mod 2 ^ 16" by (simp add: le_value_bytes)
  ultimately show ?thesis by simp
qed

lemma fold_carry_less: "fold_carry n \<le> 65535"
proof (induction n rule: fold_carry.induct)
  case (1 n)
  then show ?case by (subst fold_carry.simps) (auto simp: div_eq_0_iff)
qed

lemma fold_carry_mod: "fold_carry n mod 65535 = n mod 65535"
proof (induction n rule: fold_carry.induct)
  case (1 n)
  have "(n mod 2 ^ 16 + n div 2 ^ 16) mod 65535 = n mod 65535"
  proof -
    have "n = n mod 2 ^ 16 + (n div 2 ^ 16 + 65535 * (n div 2 ^ 16))" using mod_mult_div_eq [of n "2 ^ 16"] by simp
    then have "n mod 65535 = (n mod 2 ^ 16 + n div 2 ^ 16 + 65535 * (n div 2 ^ 16)) mod 65535" by (metis add.assoc)
    also have "\<dots> = (n mod 2 ^ 16 + n div 2 ^ 16) mod 65535" by (rule mod_mult_self2)
    finally show ?thesis by (rule sym)
  qed
  then show ?case using 1 by (subst fold_carry.simps) auto
qed

lemma fold_carry_0: "fold_carry n = 0 \<longleftrightarrow> n = 0"
proof (induction n rule: fold_carry.induct)
  case (1 n)
  have "n mod 2 ^ 16 + n div 2 ^ 16 = 0 \<longleftrightarrow> n = 0" using mod_mult_div_eq [of n "2 ^ 16"] by auto
  then show ?case using 1 by (subst fold_carry.simps) auto
qed

lemma checksum_closes:
  assumes "0 < w" shows "fold_carry (w + (65535 - fold_carry w)) = 65535"
proof -
  let ?n = "w + (65535 - fold_carry w)"
  have "(w + (65535 - fold_carry w)) mod 65535 = (fold_carry w + (65535 - fold_carry w)) mod 65535"
    using fold_carry_mod [of w] by (metis mod_add_left_eq)
  also have "\<dots> = 0" using fold_carry_less [of w] by simp
  finally have "fold_carry ?n mod 65535 = 0" using fold_carry_mod by simp
  moreover have "fold_carry ?n \<noteq> 0" using assms fold_carry_0 by simp
  moreover have "fold_carry ?n \<le> 65535" by (rule fold_carry_less)
  ultimately show ?thesis by (metis le_neq_implies_less mod_less)
qed

lemma length_ip_fields [simp]: "length (ip_fields len proto check src dst) = 20"
  by (simp add: ip_fields_def)

lemma wsum_ip_fields: "wsum (ip_fields len proto check src dst) = wsum (ip_fields len proto 0 src dst) + unat check"
proof -
  let ?a = "[0x45, 0] @ le_bytes 2 len @ [0, 0, 0, 0, 64, proto] :: u8 list"
  let ?b = "le_bytes 4 (unat src) @ le_bytes 4 (unat dst)"
  have e: "ip_fields len proto c src dst = ?a @ le_bytes 2 (unat c) @ ?b" for c by (simp add: ip_fields_def)
  have "unat c mod 2 ^ 16 = unat c" for c :: u16 using unat_limit(2) [of c] by simp
  then have "wsum (ip_fields len proto c src dst) = wsum ?a + (unat c + wsum ?b)" for c
    unfolding e by (subst wsum_append; simp; subst wsum_append; simp add: wsum_le16)
  then show ?thesis by simp
qed

text \<open>
  Every IP header sent verifies: the sum over the header with its checksum in place gives zero,
  whatever the length, the protocol and the addresses.
\<close>

theorem ip_checksum_verifies: "ip_checksum (ip_bytes len proto src dst) = 0"
proof -
  let ?w = "wsum (ip_fields len proto 0 src dst)"
  have s: "sum_words (ip_fields len proto c src dst) 0 = wsum (ip_fields len proto c src dst)" for c
    by (subst sum_words_wsum) simp_all
  have pos: "0 < ?w" by (simp add: ip_fields_def le_value_pair)
  have "NOT (of_nat n) = (of_nat (65535 - n) :: u16)" if "n \<le> 65535" for n
    using that by (simp add: not_eq_complement of_nat_diff)
  then have c: "unat (ip_checksum (ip_fields len proto 0 src dst)) = 65535 - fold_carry ?w"
    using fold_carry_less [of ?w]
    by (simp add: ip_checksum_def s unsigned_of_nat take_bit_nat_eq_self del: of_nat_diff)
  have "sum_words (ip_bytes len proto src dst) 0 = ?w + (65535 - fold_carry ?w)"
    unfolding ip_bytes_def s by (subst wsum_ip_fields) (simp add: c)
  then have "fold_carry (sum_words (ip_bytes len proto src dst) 0) = 65535" using checksum_closes [OF pos] by simp
  then show ?thesis by (simp add: ip_checksum_def)
qed

section \<open>The table of sockets\<close>

lemma set_sock_simps [simp]:
  "nt_socks (set_sock i k s) = (nt_socks s)(i := k)" "nt_sent (set_sock i k s) = nt_sent s"
  "nt_ip (set_sock i k s) = nt_ip s" "nt_mac (set_sock i k s) = nt_mac s" "nt_epoll (set_sock i k s) = nt_epoll s"
  "nt_next_port (set_sock i k s) = nt_next_port s"
  by (simp_all add: set_sock_def)

lemma transmit_simps [simp]:
  "nt_socks (transmit f s) = nt_socks s" "nt_sent (transmit f s) = nt_sent s @ [f]" "nt_epoll (transmit f s) = nt_epoll s"
  "nt_next_port (transmit f s) = nt_next_port s" "nt_ip (transmit f s) = nt_ip s" "nt_mac (transmit f s) = nt_mac s"
  by (simp_all add: transmit_def)

lemma tcp_send_simps:
  "nt_socks (tcp_send i fl s) = (nt_socks s)(i := (nt_socks s i)\<lparr>so_seq := so_seq (nt_socks s i) +
     ((if fl AND TCP_SYN \<noteq> 0 then 1 else 0) + (if fl AND TCP_ACK \<noteq> 0 then 1 else 0))\<rparr>)"
  "nt_sent (tcp_send i fl s) = nt_sent s @ [tcp_frame (nt_socks s i) fl [] s]" "nt_epoll (tcp_send i fl s) = nt_epoll s"
  "nt_next_port (tcp_send i fl s) = nt_next_port s"
  by (simp_all add: tcp_send_def Let_def)

lemma frame_of_net: "nt_ip s' = nt_ip s \<Longrightarrow> nt_mac s' = nt_mac s \<Longrightarrow> tcp_frame k fl bs s' = tcp_frame k fl bs s"
  by (simp add: tcp_frame_def eth_bytes_def my_mac_def)

lemma store_payload_simps [simp]:
  "so_state (store_payload d t n k) = so_state k" "so_type (store_payload d t n k) = so_type k"
  "so_local_port (store_payload d t n k) = so_local_port k" "so_remote_ip (store_payload d t n k) = so_remote_ip k"
  "so_remote_port (store_payload d t n k) = so_remote_port k" "so_recv_pos (store_payload d t n k) = so_recv_pos k"
  "so_nonblock (store_payload d t n k) = so_nonblock k"
  by (simp_all add: store_payload_def Let_def)

lemma segment_keeps:
  "so_type (nt_socks (tcp_segment d t src n i s) j) = so_type (nt_socks s j)"
  "so_local_port (nt_socks (tcp_segment d t src n i s) j) = so_local_port (nt_socks s j)"
  "j \<noteq> i \<Longrightarrow> nt_socks (tcp_segment d t src n i s) j = nt_socks s j"
  by (simp_all add: tcp_segment_def tcp_send_simps Let_def)

lemma port_socket_cong:
  "(\<And>j. so_type (nt_socks s' j) = so_type (nt_socks s j) \<and> so_local_port (nt_socks s' j) = so_local_port (nt_socks s j))
    \<Longrightarrow> port_socket p s' = port_socket p s"
  by (simp add: port_socket_def)

lemma port_socketD:
  "port_socket p s = Some i \<Longrightarrow> i < SOCKET_MAX \<and> so_type (nt_socks s i) \<noteq> 0 \<and> so_local_port (nt_socks s i) = p"
  by (simp add: port_socket_def first_idx_Some)

lemma socket_get_int: "i < SOCKET_MAX \<Longrightarrow> so_type (nt_socks s i) \<noteq> 0 \<Longrightarrow> socket_get (int i) s = Some i"
  by (simp add: socket_get_def)

text \<open>A TCP segment in an Ethernet frame, with an IP header without options, for the port \<open>p\<close>.\<close>

definition tcp_packet :: "(nat \<Rightarrow> u8) \<Rightarrow> nat \<Rightarrow> u16 \<Rightarrow> bool" where
  "tcp_packet d n p \<longleftrightarrow> 34 \<le> n \<and> at16 d 12 = 0x0800 \<and> d 14 = 0x45 \<and> d 23 = 6 \<and> at16 d 36 = p"

lemma handle_tcp:
  assumes "tcp_packet d n p" "port_socket p s = Some i"
  shows "tcpip_handle_packet d n s = Some (tcp_segment d 34 (at32 d 26) n i s)"
  using assms by (simp add: tcpip_handle_packet_def tcp_packet_def hdr_lens Let_def)

section \<open>Opening a connection from outside\<close>

text \<open>
  The handshake of a server.  When a SYN and then an ACK arrive for a listening socket, the first is answered
  with one SYN-ACK and the socket ends up connected to the sender of the SYN, with the sender's sequence
  number acknowledged; no other socket changes.  The socket that listened is now the connection, so a call of
  \<open>accept\<close> on it that begins afterwards fails.
\<close>

theorem passive_open:
  assumes "port_socket p s = Some i" "so_state (nt_socks s i) = TCP_LISTEN"
    and "tcp_packet d n p" "d 47 AND TCP_SYN \<noteq> 0"
    and "tcp_packet d' n' p" "d' 47 AND TCP_SYN = 0" "d' 47 AND TCP_ACK \<noteq> 0"
  shows "\<exists>s1 s2. tcpip_handle_packet d n s = Some s1 \<and> tcpip_handle_packet d' n' s1 = Some s2 \<and>
    so_state (nt_socks s1 i) = TCP_SYN_RECEIVED \<and>
    (\<exists>k. nt_sent s2 = nt_sent s @ [tcp_frame k (TCP_SYN OR TCP_ACK) [] s] \<and> so_ack k = at32 d 38 + 1 \<and>
       so_remote_port k = at16 d 34 \<and> so_remote_ip k = at32 d 26) \<and>
    so_state (nt_socks s2 i) = TCP_ESTABLISHED \<and> so_remote_ip (nt_socks s2 i) = at32 d 26 \<and>
    so_remote_port (nt_socks s2 i) = at16 d 34 \<and> so_ack (nt_socks s2 i) = at32 d 38 + 1 \<and>
    (\<forall>j. j \<noteq> i \<longrightarrow> nt_socks s2 j = nt_socks s j) \<and> sys_accept env (int i) s2 = (EINVAL, s2)"
proof -
  let ?s1 = "tcp_segment d 34 (at32 d 26) n i s" and ?k = "nt_socks s i"
  have h1: "tcpip_handle_packet d n s = Some ?s1" using assms(3,1) by (rule handle_tcp)
  have "port_socket p ?s1 = Some i" using assms(1) port_socket_cong [of ?s1 s p] segment_keeps by simp
  then have h2: "tcpip_handle_packet d' n' ?s1 = Some (tcp_segment d' 34 (at32 d' 26) n' i ?s1)"
    using assms(5) by (simp add: handle_tcp)
  let ?s2 = "tcp_segment d' 34 (at32 d' 26) n' i ?s1"
  let ?k1 = "?k\<lparr>so_remote_ip := at32 d 26, so_remote_port := at16 d 34, so_ack := at32 d 38 + 1, so_seq := 0x87654321,
     so_state := TCP_SYN_RECEIVED\<rparr>"
  have e1: "?s1 = tcp_send i (TCP_SYN OR TCP_ACK) (set_sock i ?k1 s)"
    using assms(2,4) by (simp add: tcp_segment_def)
  then have st1: "so_state (nt_socks ?s1 i) = TCP_SYN_RECEIVED" by (simp add: tcp_send_simps)
  have e2: "?s2 = set_sock i ((nt_socks ?s1 i)\<lparr>so_state := TCP_ESTABLISHED\<rparr>) ?s1"
    using assms(6,7) st1 by (simp add: tcp_segment_def [of d'] tcp_states)
  have a2: "nt_socks ?s2 i = (nt_socks ?s1 i)\<lparr>so_state := TCP_ESTABLISHED\<rparr>" "nt_sent ?s2 = nt_sent ?s1"
    unfolding e2 by simp_all
  have sent: "nt_sent ?s2 = nt_sent s @ [tcp_frame ?k1 (TCP_SYN OR TCP_ACK) [] s]"
  proof -
    have "nt_sent ?s1 = nt_sent s @ [tcp_frame ?k1 (TCP_SYN OR TCP_ACK) [] s]"
      unfolding e1 by (simp add: tcp_send_simps frame_of_net [of "set_sock i ?k1 s" s])
    then show ?thesis using a2(2) by simp
  qed
  have new: "so_remote_ip (nt_socks ?s2 i) = at32 d 26" "so_remote_port (nt_socks ?s2 i) = at16 d 34"
      "so_ack (nt_socks ?s2 i) = at32 d 38 + 1" "so_state (nt_socks ?s2 i) = TCP_ESTABLISHED"
  proof -
    have "so_remote_ip (nt_socks ?s1 i) = at32 d 26" "so_remote_port (nt_socks ?s1 i) = at16 d 34"
      "so_ack (nt_socks ?s1 i) = at32 d 38 + 1"
      unfolding e1 by (simp_all add: tcp_send_simps)
    then show "so_remote_ip (nt_socks ?s2 i) = at32 d 26" "so_remote_port (nt_socks ?s2 i) = at16 d 34"
      "so_ack (nt_socks ?s2 i) = at32 d 38 + 1" "so_state (nt_socks ?s2 i) = TCP_ESTABLISHED"
      unfolding a2(1) by simp_all
  qed
  have "socket_get (int i) ?s2 = Some i"
    using port_socketD [OF assms(1)] by (simp add: socket_get_int segment_keeps)
  then have "sys_accept env (int i) ?s2 = (EINVAL, ?s2)" using new(4) by (simp add: sys_accept_def tcp_states)
  moreover have "\<forall>j. j \<noteq> i \<longrightarrow> nt_socks ?s2 j = nt_socks s j" by (simp add: segment_keeps)
  moreover have "\<exists>k. nt_sent ?s2 = nt_sent s @ [tcp_frame k (TCP_SYN OR TCP_ACK) [] s] \<and> so_ack k = at32 d 38 + 1 \<and>
       so_remote_port k = at16 d 34 \<and> so_remote_ip k = at32 d 26"
    by (intro exI [of _ ?k1] conjI sent) simp_all
  ultimately show ?thesis using h1 h2 st1 new by (intro exI [of _ ?s1] exI [of _ ?s2]) simp
qed

fun handle_all :: "((nat \<Rightarrow> u8) \<times> nat) list \<Rightarrow> net \<Rightarrow> net option" where
  "handle_all [] s = Some s"
| "handle_all ((d, n) # ps) s = Option.bind (tcpip_handle_packet d n s) (handle_all ps)"

lemma data_segment:
  assumes "so_state (nt_socks s i) = TCP_ESTABLISHED" "d (t + 13) AND TCP_SYN = 0" "d (t + 13) AND TCP_ACK \<noteq> 0"
  shows "tcp_segment d t src n i s =
    tcp_send i TCP_ACK (set_sock i (store_payload d t n ((nt_socks s i)\<lparr>so_ack := at32 d (t + 4) + 1\<rparr>)) s)"
  using assms by (simp add: tcp_segment_def tcp_states Let_def)

text \<open>
  An established connection is not closed by its peer.  A segment with the ACK flag is taken for data
  whatever its other flags; as every segment after the first one carries ACK, a FIN or a reset of the
  peer has no effect: over any number of such segments the socket stays connected.
\<close>

theorem peer_cannot_close:
  assumes "port_socket p s = Some i" "so_state (nt_socks s i) = TCP_ESTABLISHED"
    and "\<forall>(d, n) \<in> set ps. tcp_packet d n p \<and> d 47 AND TCP_SYN = 0 \<and> d 47 AND TCP_ACK \<noteq> 0"
  shows "\<exists>s'. handle_all ps s = Some s' \<and> so_state (nt_socks s' i) = TCP_ESTABLISHED"
  using assms
proof (induction ps arbitrary: s)
  case (Cons q ps)
  obtain d n where q: "q = (d, n)" by (cases q)
  let ?s1 = "tcp_segment d 34 (at32 d 26) n i s"
  have pk: "tcp_packet d n p" "d 47 AND TCP_SYN = 0" "d 47 AND TCP_ACK \<noteq> 0" using Cons.prems(3) q by auto
  have "so_state (nt_socks ?s1 i) = TCP_ESTABLISHED"
    using data_segment [of s i d 34] pk(2,3) Cons.prems(2) by (simp add: tcp_send_simps)
  moreover have "port_socket p ?s1 = Some i" using Cons.prems(1) port_socket_cong [of ?s1 s p] segment_keeps by simp
  ultimately show ?case
    using Cons.IH [of ?s1] Cons.prems(3) handle_tcp [OF pk(1) Cons.prems(1)] by (simp add: q)
qed simp

section \<open>The data of a connection\<close>

definition waiting :: "socket \<Rightarrow> u8 list" where
  "waiting k = bytes_at (so_buf k) (so_recv_pos k) (so_recv_len k)"

text \<open>The data of a frame of \<open>n\<close> bytes, and what the buffer still has room for.\<close>

definition payload :: "(nat \<Rightarrow> u8) \<Rightarrow> nat \<Rightarrow> u8 list" where
  "payload d n = bytes_at d 54 (n - 54)"

definition accepted :: "socket \<Rightarrow> (nat \<Rightarrow> u8) \<Rightarrow> nat \<Rightarrow> u8 list" where
  "accepted k d n = (if length (payload d n) \<le> RECV_BUF - so_recv_len k then payload d n else [])"

lemma put_after: "bytes_at (put_bytes b l ys) 0 (l + length ys) = bytes_at b 0 l @ ys"
  by (rule nth_equalityI) (auto simp: bytes_at_def put_bytes_def nth_append)

lemma store_payload_eq:
  assumes "so_recv_len k \<le> RECV_BUF" "n < 2 ^ 64"
  shows "store_payload d 34 n k = k\<lparr>so_buf := put_bytes (so_buf k) (so_recv_len k) (accepted k d n),
    so_recv_len := so_recv_len k + length (accepted k d n)\<rparr>"
proof -
  let ?m = "(n + 2 ^ 64 - 54) mod 2 ^ 64"
  have r: "(RECV_BUF + 2 ^ 64 - so_recv_len k) mod 2 ^ 64 = RECV_BUF - so_recv_len k"
  proof -
    have "RECV_BUF + 2 ^ 64 - so_recv_len k = (RECV_BUF - so_recv_len k) + 2 ^ 64" using assms(1) by simp
    moreover have "RECV_BUF - so_recv_len k < 2 ^ 64" by (simp add: RECV_BUF_def)
    ultimately show ?thesis by (simp only: mod_add_self2 mod_less)
  qed
  have none: "bytes_at b x 0 = []" for b x by (simp add: bytes_at_def)
  have id: "put_bytes b l [] = b" for b l by (auto simp: put_bytes_def fun_eq_iff)
  show ?thesis
  proof (cases "54 \<le> n")
    case True
    then have "n + 2 ^ 64 - 54 = (n - 54) + 2 ^ 64" by simp
    moreover have "n - 54 < 2 ^ 64" using assms(2) by simp
    ultimately have "?m = n - 54" by (simp only: mod_add_self2 mod_less)
    then show ?thesis using r True
      by (cases "n = 54") (auto simp: store_payload_def hdr_lens accepted_def payload_def Let_def id none)
  next
    case False
    then have "?m = n + 2 ^ 64 - 54" using assms(2) by simp
    then have "\<not> ?m \<le> RECV_BUF - so_recv_len k" using False by (simp add: RECV_BUF_def)
    then show ?thesis using r False
      by (simp add: store_payload_def hdr_lens accepted_def payload_def Let_def id none)
  qed
qed

lemma accepted_fits: "so_recv_len k \<le> RECV_BUF \<Longrightarrow> so_recv_len k + length (accepted k d n) \<le> RECV_BUF"
  by (auto simp: accepted_def)

lemma recv_now:
  assumes "socket_get fd s = Some i" "so_state (nt_socks s i) = TCP_ESTABLISHED" "so_nonblock (nt_socks s i)"
  shows "sys_recv env fd len s =
    (if so_recv_len (nt_socks s i) = 0 then Some (EAGAIN, [], s) else recv_take i len s)"
  using assms by (simp add: sys_recv_def Let_def)

text \<open>Segments and reads in any order; a run gives the data accepted, the data delivered and the state.\<close>

datatype rx = Seg "nat \<Rightarrow> u8" nat | Read

fun rx_run :: "(nat \<Rightarrow> net \<Rightarrow> net) \<Rightarrow> nat \<Rightarrow> rx list \<Rightarrow> net \<Rightarrow> (u8 list \<times> u8 list \<times> net) option" where
  "rx_run env i [] s = Some ([], [], s)"
| "rx_run env i (Seg d n # ops) s =
     (case tcpip_handle_packet d n s of
        None \<Rightarrow> None
      | Some s1 \<Rightarrow> map_option (\<lambda>(a, b, s2). (accepted (nt_socks s i) d n @ a, b, s2)) (rx_run env i ops s1))"
| "rx_run env i (Read # ops) s =
     (case sys_recv env (int i) RECV_BUF s of
        None \<Rightarrow> None
      | Some (r, bs, s1) \<Rightarrow> map_option (\<lambda>(a, b, s2). (a, bs @ b, s2)) (rx_run env i ops s1))"

definition rx_ok :: "u16 \<Rightarrow> nat \<Rightarrow> net \<Rightarrow> bool" where
  "rx_ok p i s \<longleftrightarrow> port_socket p s = Some i \<and> so_state (nt_socks s i) = TCP_ESTABLISHED \<and> so_nonblock (nt_socks s i) \<and>
     so_recv_pos (nt_socks s i) = 0 \<and> so_recv_len (nt_socks s i) \<le> RECV_BUF"

definition rx_seg :: "u16 \<Rightarrow> rx \<Rightarrow> bool" where
  "rx_seg p r = (case r of Seg d n \<Rightarrow> tcp_packet d n p \<and> d 47 AND TCP_SYN = 0 \<and> d 47 AND TCP_ACK \<noteq> 0 \<and> n < 2 ^ 64
     | Read \<Rightarrow> True)"

lemma rx_segment:
  assumes "rx_ok p i s" "rx_seg p (Seg d n)"
  obtains s1 where "tcpip_handle_packet d n s = Some s1" "rx_ok p i s1"
    "waiting (nt_socks s1 i) = waiting (nt_socks s i) @ accepted (nt_socks s i) d n"
proof -
  let ?k = "nt_socks s i"
  let ?s1 = "tcp_segment d 34 (at32 d 26) n i s"
  have pk: "tcp_packet d n p" "d 47 AND TCP_SYN = 0" "d 47 AND TCP_ACK \<noteq> 0" "n < 2 ^ 64" using assms(2) by (auto simp: rx_seg_def)
  have ok: "port_socket p s = Some i" "so_state ?k = TCP_ESTABLISHED" "so_nonblock ?k" "so_recv_pos ?k = 0"
    "so_recv_len ?k \<le> RECV_BUF" using assms(1) by (auto simp: rx_ok_def)
  have acc: "accepted (?k\<lparr>so_ack := x\<rparr>) d n = accepted ?k d n" for x by (simp add: accepted_def)
  have e: "?s1 = tcp_send i TCP_ACK (set_sock i (store_payload d 34 n (?k\<lparr>so_ack := at32 d 38 + 1\<rparr>)) s)"
    using data_segment [of s i d 34] ok(2) pk(2,3) by simp
  have f: "so_recv_pos (nt_socks ?s1 i) = 0" "so_buf (nt_socks ?s1 i) = put_bytes (so_buf ?k) (so_recv_len ?k) (accepted ?k d n)"
    "so_recv_len (nt_socks ?s1 i) = so_recv_len ?k + length (accepted ?k d n)" "so_state (nt_socks ?s1 i) = TCP_ESTABLISHED"
    "so_nonblock (nt_socks ?s1 i)"
    unfolding e using ok pk(4) by (simp_all add: tcp_send_simps store_payload_eq acc)
  have "port_socket p ?s1 = Some i" using ok(1) port_socket_cong [of ?s1 s p] segment_keeps by simp
  then have "rx_ok p i ?s1" using f accepted_fits [OF ok(5)] by (simp add: rx_ok_def)
  moreover have "waiting (nt_socks ?s1 i) = waiting ?k @ accepted ?k d n"
    unfolding waiting_def f ok(4) by (rule put_after)
  ultimately show ?thesis using that handle_tcp [OF pk(1) ok(1)] by blast
qed

lemma rx_read:
  assumes "rx_ok p i s"
  obtains r s1 where "sys_recv env (int i) RECV_BUF s = Some (r, waiting (nt_socks s i), s1)" "rx_ok p i s1"
    "waiting (nt_socks s1 i) = []"
proof -
  let ?k = "nt_socks s i"
  have ok: "port_socket p s = Some i" "so_state ?k = TCP_ESTABLISHED" "so_nonblock ?k" "so_recv_pos ?k = 0"
    "so_recv_len ?k \<le> RECV_BUF" using assms(1) by (auto simp: rx_ok_def)
  have g: "socket_get (int i) s = Some i" using port_socketD [OF ok(1)] by (simp add: socket_get_int)
  note R = recv_now [OF g ok(2,3), of env RECV_BUF]
  show ?thesis
  proof (cases "so_recv_len ?k = 0")
    case True
    then have "waiting ?k = []" by (simp add: waiting_def bytes_at_def)
    then show ?thesis using that [of EAGAIN s] R True assms by simp
  next
    case False
    let ?s1 = "set_sock i (?k\<lparr>so_recv_len := 0, so_recv_pos := 0\<rparr>) s"
    have "sys_recv env (int i) RECV_BUF s = Some (int (so_recv_len ?k), waiting ?k, ?s1)"
      using False R ok(4,5) by (simp add: recv_take_def waiting_def Let_def)
    moreover have "port_socket p ?s1 = Some i" using ok(1) port_socket_cong [of ?s1 s p] by simp
    then have "rx_ok p i ?s1" using ok by (simp add: rx_ok_def)
    moreover have "waiting (nt_socks ?s1 i) = []" by (simp add: waiting_def bytes_at_def)
    ultimately show ?thesis by (rule that)
  qed
qed

text \<open>
  C36. The data of a connection.  While the reader always asks for at least the size of the buffer, the bytes it gets are
  the bytes of the segments that fitted, in the order they arrived, none lost, repeated or changed, over any
  sequence of segments and reads, starting from whatever was waiting.
\<close>

theorem socket_stream:
  assumes "rx_ok p i s" "\<forall>r \<in> set ops. rx_seg p r"
  shows "\<exists>a b s'. rx_run env i ops s = Some (a, b, s') \<and>
    b @ waiting (nt_socks s' i) = waiting (nt_socks s i) @ a"
  using assms
proof (induction ops arbitrary: s)
  case (Cons r ops)
  show ?case
  proof (cases r)
    case (Seg d n)
    then have "rx_seg p (Seg d n)" using Cons.prems(2) by simp
    from Cons.prems(1) this obtain s1 where s1: "tcpip_handle_packet d n s = Some s1" "rx_ok p i s1"
      "waiting (nt_socks s1 i) = waiting (nt_socks s i) @ accepted (nt_socks s i) d n" by (rule rx_segment)
    with Cons.IH [OF s1(2)] Cons.prems(2) show ?thesis by (auto simp: Seg)
  next
    case Read
    from Cons.prems(1) obtain q s1 where s1: "sys_recv env (int i) RECV_BUF s = Some (q, waiting (nt_socks s i), s1)"
      "rx_ok p i s1" "waiting (nt_socks s1 i) = []" by (rule rx_read [where env = env])
    with Cons.IH [OF s1(2)] Cons.prems(2) show ?thesis by (auto simp: Read)
  qed
qed simp

text \<open>
  A read of a part of the data damages the stream.  After a read of some of the waiting bytes, data that
  arrives is stored over the rest; the next read then delivers as its last bytes what lay in the buffer behind the
  data that was there at first, instead of the new data.
\<close>

theorem partial_read_stale:
  assumes "rx_ok p i s" "rx_seg p (Seg d n)"
    and "0 < k" "k < so_recv_len (nt_socks s i)" "m = length (payload d n)" "0 < m" "m \<le> k"
    and "so_recv_len (nt_socks s i) + m \<le> RECV_BUF"
  shows "\<exists>s1 s2 s3 bs. sys_recv env (int i) k s = Some (int k, take k (waiting (nt_socks s i)), s1) \<and>
    tcpip_handle_packet d n s1 = Some s2 \<and>
    sys_recv env (int i) RECV_BUF s2 = Some (int (so_recv_len (nt_socks s i) - k + m), bs, s3) \<and>
    drop (so_recv_len (nt_socks s i) - k) bs = bytes_at (so_buf (nt_socks s i)) (so_recv_len (nt_socks s i)) m"
proof -
  let ?k = "nt_socks s i" and ?L = "so_recv_len (nt_socks s i)"
  have ok: "port_socket p s = Some i" "so_state ?k = TCP_ESTABLISHED" "so_nonblock ?k" "so_recv_pos ?k = 0"
    "?L \<le> RECV_BUF" using assms(1) by (auto simp: rx_ok_def)
  have pk: "tcp_packet d n p" "d 47 AND TCP_SYN = 0" "d 47 AND TCP_ACK \<noteq> 0" "n < 2 ^ 64" using assms(2) by (auto simp: rx_seg_def)
  have live: "i < SOCKET_MAX" "so_type ?k \<noteq> 0" using port_socketD [OF ok(1)] by auto
  define k1 where "k1 = ?k\<lparr>so_recv_len := ?L - k, so_recv_pos := k\<rparr>"
  define s1 where "s1 = set_sock i k1 s"
  have r1: "sys_recv env (int i) k s = Some (int k, take k (waiting ?k), s1)"
    using recv_now [of "int i" s i env k] live ok assms(3,4)
    by (simp add: socket_get_int recv_take_def Let_def s1_def k1_def waiting_def bytes_at_def take_map)
  have ps1: "port_socket p s1 = Some i" using ok(1) port_socket_cong [of s1 s p] by (simp add: s1_def k1_def)
  define s2 where "s2 = tcp_segment d 34 (at32 d 26) n i s1"
  have h2: "tcpip_handle_packet d n s1 = Some s2" unfolding s2_def by (rule handle_tcp [OF pk(1) ps1])
  have room: "length (payload d n) \<le> RECV_BUF + k - ?L" using assms(4,5,8) by simp
  have acc: "accepted (k1\<lparr>so_ack := x\<rparr>) d n = payload d n" for x
    using assms(4) room by (simp add: accepted_def k1_def)
  have "so_recv_len (k1\<lparr>so_ack := x\<rparr>) \<le> RECV_BUF" for x using ok(5) by (simp add: k1_def)
  then have sp: "store_payload d 34 n (k1\<lparr>so_ack := x\<rparr>) = k1\<lparr>so_ack := x, so_buf := put_bytes (so_buf k1) (so_recv_len k1) (payload d n),
      so_recv_len := so_recv_len k1 + length (payload d n)\<rparr>" for x
    using store_payload_eq [of "k1\<lparr>so_ack := x\<rparr>" n d] acc pk(4) by simp
  have e2: "s2 = tcp_send i TCP_ACK (set_sock i (store_payload d 34 n (k1\<lparr>so_ack := at32 d 38 + 1\<rparr>)) s1)"
    using data_segment [of s1 i d 34] ok(2) pk(2,3) by (simp add: s2_def s1_def k1_def)
  have f: "so_recv_pos (nt_socks s2 i) = k" "so_buf (nt_socks s2 i) = put_bytes (so_buf ?k) (?L - k) (payload d n)"
    "so_recv_len (nt_socks s2 i) = ?L - k + m" "so_state (nt_socks s2 i) = TCP_ESTABLISHED" "so_nonblock (nt_socks s2 i)"
    "so_type (nt_socks s2 i) \<noteq> 0"
    unfolding e2 sp using ok live assms(5) by (simp_all add: tcp_send_simps k1_def)
  have len: "k + (?L - k + m) = ?L + m" using assms(4) by simp
  define bs where "bs = bytes_at (put_bytes (so_buf ?k) (?L - k) (payload d n)) k (?L - k + m)"
  have "?L - k + m \<le> RECV_BUF" using assms(8) by simp
  then have "\<exists>s3. sys_recv env (int i) RECV_BUF s2 = Some (int (?L - k + m), bs, s3)"
    using recv_now [of "int i" s2 i env RECV_BUF] live f assms(6,8) len
    by (simp add: socket_get_int recv_take_def Let_def bs_def)
  moreover have "drop (?L - k) bs = bytes_at (so_buf ?k) ?L m"
    by (rule nth_equalityI) (use assms(3-7) in \<open>auto simp: bs_def bytes_at_def put_bytes_def\<close>)
  ultimately show ?thesis using r1 h2 by blast
qed

section \<open>Two sockets\<close>

text \<open>Socket 0 listens on port 80, socket 1 is connected at port 81 and four bytes wait in it; one epoll instance watches it.\<close>

definition net_demo :: net where
  "net_demo = \<lparr>nt_socks = (\<lambda>_. socket_zero)
       (0 := socket_zero\<lparr>so_state := TCP_LISTEN, so_local_port := 80, so_type := 1\<rparr>,
        1 := socket_zero\<lparr>so_state := TCP_ESTABLISHED, so_local_port := 81, so_remote_port := 9, so_type := 1,
               so_nonblock := True, so_recv_len := 4, so_buf := (\<lambda>i. of_nat (i + 1))\<rparr>),
     nt_next_port = 49152,
     nt_epoll = (\<lambda>_. \<lparr>ep_used = False, ep_n = 0, ep_watches = (\<lambda>_. \<lparr>ew_fd = 0, ew_events = 0, ew_data = 0\<rparr>)\<rparr>)
       (0 := \<lparr>ep_used = True, ep_n = 1, ep_watches = (\<lambda>_. \<lparr>ew_fd = 1, ew_events = 5, ew_data = 7\<rparr>)\<rparr>),
     nt_mac = (\<lambda>_. 2), nt_ip = 10, nt_sent = []\<rparr>"

definition demo_packet :: "u8 \<Rightarrow> u8 \<Rightarrow> nat \<Rightarrow> u8" where
  "demo_packet p fl = (\<lambda>_. 0)(13 := 8, 14 := 0x45, 23 := 6, 34 := 9, 36 := p, 47 := fl, 54 := 77)"

lemma demo_tcp_packet: "34 \<le> n \<Longrightarrow> tcp_packet (demo_packet p fl) n (of_nat (unat p))"
  by (simp add: tcp_packet_def demo_packet_def at16_def bytes_at_def le_value_def upt_rec)

lemma demo_flag: "demo_packet p fl 47 = fl"
  by (simp add: demo_packet_def)

lemma demo_ports: "port_socket 80 net_demo = Some 0" "port_socket 81 net_demo = Some 1"
  by (simp_all add: port_socket_def first_idx_Some net_demo_def socket_zero_def SOCKET_MAX_def)

lemma demo_rx: "rx_ok 81 1 net_demo"
  using demo_ports by (simp add: rx_ok_def) (simp add: net_demo_def socket_zero_def RECV_BUF_def)

lemma demo_seg: "rx_seg 81 (Seg (demo_packet 81 TCP_ACK) 55)"
  using demo_tcp_packet [of 55 81 TCP_ACK] by (simp add: rx_seg_def demo_flag tcp_flags)

lemma passive_open_witness:
  "\<exists>s1 s2. tcpip_handle_packet (demo_packet 80 TCP_SYN) 54 net_demo = Some s1 \<and>
     tcpip_handle_packet (demo_packet 80 TCP_ACK) 54 s1 = Some s2 \<and> so_state (nt_socks s2 0) = TCP_ESTABLISHED \<and>
     sys_accept (\<lambda>_ s. s) 0 s2 = (EINVAL, s2)"
proof -
  have l: "so_state (nt_socks net_demo 0) = TCP_LISTEN" by (simp add: net_demo_def)
  have p: "tcp_packet (demo_packet 80 TCP_SYN) 54 80" "tcp_packet (demo_packet 80 TCP_ACK) 54 80"
    using demo_tcp_packet [of 54 80] by simp_all
  have f: "demo_packet 80 TCP_SYN 47 AND TCP_SYN \<noteq> 0" "demo_packet 80 TCP_ACK 47 AND TCP_SYN = 0"
    "demo_packet 80 TCP_ACK 47 AND TCP_ACK \<noteq> 0"
    by (simp_all add: demo_flag tcp_flags)
  from passive_open [OF demo_ports(1) l p(1) f(1) p(2) f(2,3), of "\<lambda>_ s. s"] show ?thesis by auto
qed

lemma peer_cannot_close_witness:
  "\<exists>s'. handle_all [(demo_packet 81 (TCP_FIN OR TCP_ACK), 54), (demo_packet 81 (TCP_RST OR TCP_ACK), 54)] net_demo = Some s' \<and>
     so_state (nt_socks s' 1) = TCP_ESTABLISHED"
proof -
  have "so_state (nt_socks net_demo 1) = TCP_ESTABLISHED" by (simp add: net_demo_def)
  moreover have "\<forall>(d, n) \<in> set [(demo_packet 81 (TCP_FIN OR TCP_ACK), 54), (demo_packet 81 (TCP_RST OR TCP_ACK), 54)].
      tcp_packet d n 81 \<and> d 47 AND TCP_SYN = 0 \<and> d 47 AND TCP_ACK \<noteq> 0"
    using demo_tcp_packet [of 54 81] by (simp add: demo_flag tcp_flags)
  ultimately show ?thesis by (rule peer_cannot_close [OF demo_ports(2)])
qed

lemma socket_stream_witness:
  "\<exists>a b s'. rx_run (\<lambda>_ s. s) 1 [Seg (demo_packet 81 TCP_ACK) 55, Read] net_demo = Some (a, b, s') \<and>
     b @ waiting (nt_socks s' 1) = [1, 2, 3, 4] @ a"
proof -
  have "\<forall>r \<in> set [Seg (demo_packet 81 TCP_ACK) 55, Read]. rx_seg 81 r"
    using demo_seg by (simp add: rx_seg_def)
  from socket_stream [OF demo_rx this, of "\<lambda>_ s. s"] show ?thesis
    by (simp add: waiting_def net_demo_def socket_zero_def bytes_at_def upt_rec)
qed

lemma partial_read_stale_witness:
  "\<exists>s1 s2 s3 bs. sys_recv (\<lambda>_ s. s) 1 2 net_demo = Some (2, [1, 2], s1) \<and>
     tcpip_handle_packet (demo_packet 81 TCP_ACK) 55 s1 = Some s2 \<and>
     sys_recv (\<lambda>_ s. s) 1 8192 s2 = Some (3, bs, s3) \<and> drop 2 bs = [5]"
proof -
  have k: "so_recv_len (nt_socks net_demo 1) = 4" "so_buf (nt_socks net_demo 1) 4 = 5"
    "waiting (nt_socks net_demo 1) = [1, 2, 3, 4]"
    by (simp_all add: net_demo_def socket_zero_def waiting_def bytes_at_def upt_rec)
  have h: "0 < (2 :: nat)" "2 < so_recv_len (nt_socks net_demo 1)" "1 = length (payload (demo_packet 81 TCP_ACK) 55)"
    "0 < (1 :: nat)" "1 \<le> (2 :: nat)" "so_recv_len (nt_socks net_demo 1) + 1 \<le> RECV_BUF"
    by (simp_all add: k payload_def RECV_BUF_def del: One_nat_def)
  from partial_read_stale [OF demo_rx demo_seg h, of "\<lambda>_ s. s"] show ?thesis
    unfolding k by (simp add: bytes_at_def RECV_BUF_def k del: One_nat_def)
qed

end
