(* ===== verification/PollSpec.thy ===== *)
theory PollSpec
  imports TcpipSpec
begin

text \<open>
  What every operation of kernel/tcpip.c keeps of the state, and what epoll, poll and select answer; the
  witnesses of the properties of the network run on a small table of sockets.
\<close>

section \<open>The state\<close>

text \<open>
  Only six of the eleven states of the source occur; the data received lies within the buffer, and a free slot is
  closed, has no peer and no data.
\<close>

definition sock_ok :: "socket \<Rightarrow> bool" where
  "sock_ok k \<longleftrightarrow> so_state k \<le> TCP_CLOSE_WAIT \<and> so_recv_len k \<le> RECV_BUF \<and> so_recv_pos k \<le> RECV_BUF \<and>
     (so_type k = 0 \<longrightarrow> so_state k = TCP_CLOSED \<and> so_remote_port k = 0 \<and> so_recv_len k = 0 \<and> so_recv_pos k = 0)"

definition net_ok :: "net \<Rightarrow> bool" where
  "net_ok s \<longleftrightarrow> (\<forall>i < SOCKET_MAX. sock_ok (nt_socks s i)) \<and> 49152 \<le> nt_next_port s \<and> nt_next_port s \<le> 65000 \<and>
     (\<forall>x < EPOLL_MAX_INSTANCES. ep_n (nt_epoll s x) \<le> EPOLL_MAX_WATCHES)"

lemma net_okD: "net_ok s \<Longrightarrow> i < SOCKET_MAX \<Longrightarrow> sock_ok (nt_socks s i)"
  by (simp add: net_ok_def)

lemma socket_getD: "socket_get fd s = Some i \<Longrightarrow> i < SOCKET_MAX \<and> so_type (nt_socks s i) \<noteq> 0"
  by (auto simp: socket_get_def split: if_splits)

lemma net_ok_set: "net_ok s \<Longrightarrow> sock_ok k \<Longrightarrow> net_ok (set_sock i k s)"
  by (auto simp: net_ok_def)

lemma net_ok_transmit [simp]: "net_ok (transmit f s) = net_ok s"
  by (simp add: net_ok_def)

lemma sock_ok_simps [simp]:
  "sock_ok (k\<lparr>so_seq := x\<rparr>) = sock_ok k" "sock_ok (k\<lparr>so_ack := y\<rparr>) = sock_ok k"
  "sock_ok (k\<lparr>so_nonblock := z\<rparr>) = sock_ok k"
  by (simp_all add: sock_ok_def)

lemma net_ok_send: "net_ok s \<Longrightarrow> i < SOCKET_MAX \<Longrightarrow> net_ok (tcp_send i fl s)"
  by (simp add: tcp_send_def Let_def net_ok_set net_okD)

lemma net_ok_put_send: "net_ok s \<Longrightarrow> i < SOCKET_MAX \<Longrightarrow> sock_ok k \<Longrightarrow> net_ok (tcp_send i fl (set_sock i k s))"
  by (intro net_ok_send net_ok_set)

lemma sock_ok_live: "sock_ok k \<Longrightarrow> so_type k \<noteq> 0 \<Longrightarrow> x \<le> TCP_CLOSE_WAIT \<Longrightarrow> sock_ok (k\<lparr>so_state := x\<rparr>)"
  by (simp add: sock_ok_def)

lemma sock_ok_store:
  assumes "sock_ok k" "so_type k \<noteq> 0" shows "sock_ok (store_payload d t n k)"
proof -
  let ?m = "(n + 2 ^ 64 - 54) mod 2 ^ 64"
  have l: "so_recv_len k \<le> RECV_BUF" using assms(1) by (simp add: sock_ok_def)
  have r: "(RECV_BUF + 2 ^ 64 - so_recv_len k) mod 2 ^ 64 = RECV_BUF - so_recv_len k"
  proof -
    have "RECV_BUF + 2 ^ 64 - so_recv_len k = (RECV_BUF - so_recv_len k) + 2 ^ 64" using l by simp
    moreover have "RECV_BUF - so_recv_len k < 2 ^ 64" by (simp add: RECV_BUF_def)
    ultimately show ?thesis by (simp only: mod_add_self2 mod_less)
  qed
  have "so_recv_len (store_payload d t n k) \<le> RECV_BUF"
    unfolding store_payload_def Let_def r using l by auto
  then show ?thesis using assms by (simp add: sock_ok_def)
qed

lemma net_ok_segment:
  assumes "net_ok s" "i < SOCKET_MAX" "so_type (nt_socks s i) \<noteq> 0"
  shows "net_ok (tcp_segment d t src n i s)"
proof -
  let ?k = "nt_socks s i"
  have k: "sock_ok ?k" using assms(1,2) by (rule net_okD)
  have st: "sock_ok (?k\<lparr>so_state := x\<rparr>)" if "x \<le> TCP_CLOSE_WAIT" for x using k assms(3) that by (rule sock_ok_live)
  have sp: "sock_ok (store_payload d t n (?k\<lparr>so_ack := x\<rparr>))" for x using k assms(3) by (intro sock_ok_store) simp_all
  have syn: "sock_ok (?k\<lparr>so_remote_ip := a, so_remote_port := b, so_ack := c, so_seq := e, so_state := TCP_SYN_RECEIVED\<rparr>)"
    for a b c e using k assms(3) by (simp add: sock_ok_def tcp_states)
  have est: "sock_ok (?k\<lparr>so_ack := c, so_state := TCP_ESTABLISHED\<rparr>)" for c
    using k assms(3) by (simp add: sock_ok_def tcp_states)
  have le: "TCP_CLOSED \<le> TCP_CLOSE_WAIT" "TCP_ESTABLISHED \<le> TCP_CLOSE_WAIT" by (simp_all add: tcp_states)
  note put = net_ok_put_send [OF assms(1,2)] net_ok_set [OF assms(1)]
  show ?thesis
    unfolding tcp_segment_def Let_def
    by (simp add: put syn est sp st le assms(1))
qed

lemma net_ok_packet: "net_ok s \<Longrightarrow> tcpip_handle_packet d n s = Some s' \<Longrightarrow> net_ok s'"
  by (auto simp: tcpip_handle_packet_def Let_def arp_handle_def icmp_send_def
      split: if_splits option.splits dest: port_socketD intro: net_ok_segment)

lemma net_ok_socket: "net_ok s \<Longrightarrow> net_ok (snd (sys_socket ty s))"
proof -
  assume s: "net_ok s"
  have port: "49152 \<le> (if q > 65000 then 49152 else q :: u16) \<and> (if q > 65000 then 49152 else q) \<le> 65000"
    if "49152 \<le> q \<or> 65000 < q" for q
    using that by auto
  have "49152 \<le> p + 1" if "49152 \<le> p" "p \<le> 65000" for p :: u16
    using that by unat_arith auto
  then have port: "net_ok (snd (alloc_port s1))" if "net_ok s1" for s1
    using that port by (simp add: alloc_port_def net_ok_def Let_def)
  have new: "sock_ok (k\<lparr>so_type := x, so_nonblock := b, so_state := TCP_CLOSED, so_local_port := p, so_window := w\<rparr>)"
    if "sock_ok k" "x \<noteq> 0" for k x b p w
    using that by (simp add: sock_ok_def tcp_states)
  show ?thesis
  proof (cases "socket_alloc s")
    case (Pair r s1)
    show ?thesis
    proof (cases r)
      case None
      then have "s1 = s" using Pair by (auto simp: socket_alloc_def split: option.splits)
      then show ?thesis using s Pair None by (simp add: sys_socket_def)
    next
      case (Some i)
      then have i: "i < SOCKET_MAX" "s1 = set_sock i ((nt_socks s i)\<lparr>so_state := TCP_CLOSED, so_type := 1\<rparr>) s"
        using Pair by (auto simp: socket_alloc_def first_idx_Some split: option.splits)
      have "sock_ok (nt_socks s i)" using s i(1) by (rule net_okD)
      then have "net_ok s1" unfolding i(2) using s by (intro net_ok_set) (simp_all add: sock_ok_def tcp_states)
      obtain q s2 where a: "alloc_port s1 = (q, s2)" by (cases "alloc_port s1")
      have s2: "net_ok s2" using port [OF \<open>net_ok s1\<close>] a by simp
      show ?thesis
        using Pair Some a s2 by (simp add: sys_socket_def Let_def net_ok_set new net_okD [OF s2 i(1)])
    qed
  qed
qed

lemma net_ok_bind: "net_ok s \<Longrightarrow> net_ok (snd (sys_bind fd a s))"
  by (auto simp: sys_bind_def Let_def sock_ok_def tcp_states split: option.splits dest: net_okD socket_getD intro!: net_ok_set)

section \<open>Calls\<close>

lemma net_ok_connect_wait: "(\<And>t s. net_ok s \<Longrightarrow> net_ok (env t s)) \<Longrightarrow> net_ok s \<Longrightarrow> net_ok (snd (connect_wait env i t n s))"
  by (induction n arbitrary: t s) simp_all

lemma net_ok_accept_wait: "(\<And>t s. net_ok s \<Longrightarrow> net_ok (env t s)) \<Longrightarrow> net_ok s \<Longrightarrow> net_ok (snd (accept_wait env t n s))"
  by (induction n arbitrary: t s) (simp_all split: option.splits)

lemma net_ok_recv_wait: "(\<And>t s. net_ok s \<Longrightarrow> net_ok (env t s)) \<Longrightarrow> net_ok s \<Longrightarrow> net_ok (snd (recv_wait env i t n s))"
  by (induction n arbitrary: t s) simp_all

lemma net_ok_connect:
  assumes "\<And>t s. net_ok s \<Longrightarrow> net_ok (env t s)" "net_ok s"
  shows "net_ok (snd (sys_connect env fd a s))"
proof (cases "socket_get fd s")
  case (Some i)
  let ?k = "(nt_socks s i)\<lparr>so_remote_ip := at32 a 4, so_remote_port := addr_port a, so_seq := 0x12345678, so_state := TCP_SYN_SENT\<rparr>"
  have i: "i < SOCKET_MAX" "so_type (nt_socks s i) \<noteq> 0" using socket_getD [OF Some] by auto
  have "sock_ok ?k" using net_okD [OF assms(2) i(1)] i(2) by (simp add: sock_ok_def tcp_states)
  then have "net_ok (tcp_send i TCP_SYN (set_sock i ?k s))" using assms(2) i(1) by (rule net_ok_put_send [rotated 2])
  then show ?thesis using Some assms net_ok_connect_wait [of env]
    by (simp add: sys_connect_def Let_def)
qed (simp add: sys_connect_def assms)

lemma net_ok_accept: "(\<And>t s. net_ok s \<Longrightarrow> net_ok (env t s)) \<Longrightarrow> net_ok s \<Longrightarrow> net_ok (snd (sys_accept env fd s))"
  by (simp add: sys_accept_def net_ok_accept_wait split: option.splits)

lemma net_ok_recv_take:
  assumes "net_ok s" "i < SOCKET_MAX" "so_type (nt_socks s i) \<noteq> 0" "recv_take i len s = Some (r, bs, s')"
  shows "net_ok s'"
proof -
  have "sock_ok (nt_socks s i)" using assms(1,2) by (rule net_okD)
  then show ?thesis using assms
    by (auto simp: recv_take_def Let_def sock_ok_def split: if_splits intro!: net_ok_set)
qed

lemma recv_wait_data: "recv_wait env i t n s = (None, s1) \<Longrightarrow> so_recv_len (nt_socks s1 i) > 0"
  by (induction n arbitrary: t s) (auto split: if_splits)

lemma net_ok_recv:
  assumes "\<And>t s. net_ok s \<Longrightarrow> net_ok (env t s)" "net_ok s" "sys_recv env fd len s = Some (r, bs, s')"
  shows "net_ok s'"
proof (cases "socket_get fd s")
  case (Some i)
  have i: "i < SOCKET_MAX" "so_type (nt_socks s i) \<noteq> 0" using socket_getD [OF Some] by auto
  show ?thesis
  proof (cases "so_recv_len (nt_socks s i) = 0 \<and> \<not> so_nonblock (nt_socks s i) \<and> so_state (nt_socks s i) = TCP_ESTABLISHED")
    case True
    obtain e s1 where w: "recv_wait env i 0 SPINS s = (e, s1)" by (cases "recv_wait env i 0 SPINS s")
    then have s1: "net_ok s1" using net_ok_recv_wait [of env s i 0 SPINS] assms(1,2) by simp
    show ?thesis
    proof (cases e)
      case None
      then have "so_type (nt_socks s1 i) \<noteq> 0"
        using recv_wait_data [of env i 0 SPINS s s1] w net_okD [OF s1 i(1)] by (auto simp: sock_ok_def)
      then show ?thesis using net_ok_recv_take [OF s1 i(1)] None True w Some assms(3)
        by (simp add: sys_recv_def)
    next
      case (Some e')
      then show ?thesis using True w \<open>socket_get fd s = Some i\<close> assms(3) s1 by (simp add: sys_recv_def)
    qed
  next
    case False
    then show ?thesis using Some assms(2,3) net_ok_recv_take [OF assms(2) i]
      by (auto simp: sys_recv_def Let_def split: if_splits)
  qed
qed (use assms in \<open>simp add: sys_recv_def\<close>)

lemma net_ok_sys_send: "net_ok s \<Longrightarrow> net_ok (snd (sys_send fd bs s))"
  by (auto simp: sys_send_def Let_def split: option.splits dest: socket_getD intro!: net_ok_set net_okD)

lemma net_ok_close: "net_ok s \<Longrightarrow> net_ok (snd (sys_close_socket fd s))"
  by (auto simp: sys_close_socket_def Let_def sock_ok_def tcp_states split: option.splits dest: socket_getD
      intro!: net_ok_set net_ok_send)

lemma net_ok_fcntl: "net_ok s \<Longrightarrow> net_ok (snd (sys_fcntl fd cmd arg s))"
  by (auto simp: sys_fcntl_def Let_def split: option.splits dest: socket_getD intro!: net_ok_set net_okD)

lemma net_ok_set_ep: "net_ok s \<Longrightarrow> ep_n e \<le> EPOLL_MAX_WATCHES \<Longrightarrow> net_ok (set_ep x e s)"
  by (simp add: net_ok_def set_ep_def)

lemma net_ok_create: "net_ok s \<Longrightarrow> net_ok (snd (sys_epoll_create s))"
  by (simp add: sys_epoll_create_def net_ok_set_ep split: option.splits)

lemma epoll_getD: "epoll_get epfd s = Some x \<Longrightarrow> x < EPOLL_MAX_INSTANCES"
  by (auto simp: epoll_get_def Let_def split: if_splits)

lemma net_ok_ctl: "net_ok s \<Longrightarrow> net_ok (snd (sys_epoll_ctl epfd opn fd ev s))"
proof -
  assume s: "net_ok s"
  then have "ep_n (nt_epoll s x) \<le> EPOLL_MAX_WATCHES" if "epoll_get epfd s = Some x" for x
    using epoll_getD [OF that] by (simp add: net_ok_def)
  then show ?thesis using s
    by (auto simp: sys_epoll_ctl_def Let_def put_watch_def split: option.splits intro!: net_ok_set_ep)
qed

text \<open>The operations, one after the other; a run that has no defined behaviour gives \<^term>\<open>None\<close>.\<close>

datatype net_op = Socket u32 | Bind int "nat \<Rightarrow> u8" | Connect int "nat \<Rightarrow> u8" | Accept int | Send int "u8 list" |
  Recv int nat | Close int | Fcntl u64 u64 u64 | Packet "nat \<Rightarrow> u8" nat | EpollCreate | EpollCtl int int int "(u32 \<times> u64) option"

fun net_step :: "(nat \<Rightarrow> net \<Rightarrow> net) \<Rightarrow> net_op \<Rightarrow> net \<Rightarrow> net option" where
  "net_step env (Socket ty) s = Some (snd (sys_socket ty s))"
| "net_step env (Bind fd a) s = Some (snd (sys_bind fd a s))"
| "net_step env (Connect fd a) s = Some (snd (sys_connect env fd a s))"
| "net_step env (Accept fd) s = Some (snd (sys_accept env fd s))"
| "net_step env (Send fd bs) s = Some (snd (sys_send fd bs s))"
| "net_step env (Recv fd n) s = map_option (\<lambda>(r, bs, s'). s') (sys_recv env fd n s)"
| "net_step env (Close fd) s = Some (snd (sys_close_socket fd s))"
| "net_step env (Fcntl fd c a) s = Some (snd (sys_fcntl fd c a s))"
| "net_step env (Packet d n) s = tcpip_handle_packet d n s"
| "net_step env EpollCreate s = Some (snd (sys_epoll_create s))"
| "net_step env (EpollCtl ep opn fd ev) s = Some (snd (sys_epoll_ctl ep opn fd ev s))"

fun net_run :: "(nat \<Rightarrow> net \<Rightarrow> net) \<Rightarrow> net_op list \<Rightarrow> net \<Rightarrow> net option" where
  "net_run env [] s = Some s"
| "net_run env (x # xs) s = Option.bind (net_step env x s) (net_run env xs)"

text \<open>
  C37. The table of sockets stays well formed.  Over any sequence of calls and received frames, if
  what interrupts do during the calls keeps it too: no socket is ever in one of the states the source declares
  beyond CLOSE\_WAIT, the data received fits the buffer, a free slot is closed, has no peer and no data, the next
  port is a dynamic one, and no epoll instance has more watches than it has room for.
\<close>

theorem sockets_well_formed:
  assumes "net_ok s" "\<forall>t s. net_ok s \<longrightarrow> net_ok (env t s)" "net_run env ops s = Some s'"
  shows "net_ok s'"
  using assms
proof (induction ops arbitrary: s)
  case (Cons x ops)
  then obtain s1 where s1: "net_step env x s = Some s1" "net_run env ops s1 = Some s'"
    by (auto simp: bind_eq_Some_conv)
  have env: "\<And>t s. net_ok s \<Longrightarrow> net_ok (env t s)" using Cons.prems(2) by blast
  have "net_ok s1"
    using s1(1) Cons.prems(1) env
    by (cases x) (auto intro: net_ok_socket net_ok_bind net_ok_connect net_ok_accept net_ok_sys_send net_ok_recv net_ok_close
        net_ok_fcntl net_ok_packet net_ok_create net_ok_ctl)
  then show ?case using Cons.IH Cons.prems(2) s1(2) by blast
qed simp

section \<open>epoll\<close>

definition watches :: "epoll_inst \<Rightarrow> epoll_watch list" where
  "watches e = map (ep_watches e) [0..<ep_n e]"

definition fired :: "net \<Rightarrow> epoll_watch \<Rightarrow> u32" where
  "fired s w = epoll_check_fd (ew_fd w) s AND ew_events w"

text \<open>What a wait reports: the watches with an event, in order, as many as there is room for.\<close>

lemma collect_eq:
  "collect s e i k m = take m (map (\<lambda>w. (fired s w, ew_data w)) (filter (\<lambda>w. fired s w \<noteq> 0) (map (ep_watches e) [i..<i + k])))"
proof (induction k arbitrary: i m)
  case (Suc k)
  have "map (ep_watches e) [i..<i + Suc k] = ep_watches e i # map (ep_watches e) [i + 1..<i + 1 + k]"
    by (simp add: upt_conv_Cons del: upt_Suc)
  then show ?case using Suc [of "i + 1"] by (cases m) (simp_all add: fired_def Let_def)
qed simp

text \<open>
  \<open>epoll_wait\<close> is exact.  A call that does not wait reports the watches of the instance whose socket has an event that is
  asked for, with those events and the data of the caller, in the order they were added, and as many as the
  caller has room for; it changes nothing.
\<close>

theorem epoll_wait_exact:
  assumes "epoll_get epfd s = Some x" "0 < m"
  shows "\<exists>evs. sys_epoll_wait env epfd True m 0 s = Some (int (length evs), evs, s) \<and>
    evs = take (nat m) (map (\<lambda>w. (fired s w, ew_data w)) (filter (\<lambda>w. fired s w \<noteq> 0) (watches (nt_epoll s x))))"
proof -
  let ?evs = "collect s (nt_epoll s x) 0 (ep_n (nt_epoll s x)) (nat m)"
  have "epoll_wait_loop env x (nat m) True 0 1 s = (int (length ?evs), ?evs, s)" by (simp add: Let_def)
  then have "sys_epoll_wait env epfd True m 0 s = Some (int (length ?evs), ?evs, s)"
    using assms by (simp add: sys_epoll_wait_def wait_turns_def)
  then show ?thesis by (auto simp: collect_eq watches_def)
qed

lemma watch_idx_None: "watch_idx e fd = None \<longleftrightarrow> (\<forall>w \<in> set (watches e). ew_fd w \<noteq> fd)"
  by (auto simp: watch_idx_def first_idx_None watches_def)

lemma watch_idx_Some:
  "watch_idx e fd = Some i \<longleftrightarrow> i < length (watches e) \<and> ew_fd (watches e ! i) = fd \<and> (\<forall>j < i. ew_fd (watches e ! j) \<noteq> fd)"
  by (auto simp: watch_idx_def first_idx_Some watches_def)

text \<open>
  \<open>epoll_ctl\<close> as an operation on the list of watches.  Adding appends a watch unless 64 are there; modifying replaces the
  events and data of the first watch of the descriptor; deleting removes that watch, whose place the last one
  takes; without a watch of the descriptor the answer is ENOENT and nothing changes.
\<close>

theorem epoll_ctl_refines:
  fixes s :: net and ev :: "(u32 \<times> u64) option" and fd :: int
  assumes "epoll_get epfd s = Some x"
  defines "ws \<equiv> watches (nt_epoll s x)"
  shows "(length ws < EPOLL_MAX_WATCHES \<longrightarrow>
      (\<exists>s'. sys_epoll_ctl epfd 1 fd ev s = (0, s') \<and>
         watches (nt_epoll s' x) = ws @ [\<lparr>ew_fd = fd, ew_events = ev_events ev, ew_data = ev_data ev\<rparr>])) \<and>
    (\<forall>i. i < length ws \<and> ew_fd (ws ! i) = fd \<and> (\<forall>j < i. ew_fd (ws ! j) \<noteq> fd) \<longrightarrow>
      (\<exists>s'. sys_epoll_ctl epfd 3 fd ev s = (0, s') \<and>
         watches (nt_epoll s' x) = ws[i := (ws ! i)\<lparr>ew_events := ev_events ev, ew_data := ev_data ev\<rparr>]) \<and>
      (\<exists>s'. sys_epoll_ctl epfd 2 fd ev s = (0, s') \<and> watches (nt_epoll s' x) = butlast (ws[i := last ws]))) \<and>
    ((\<forall>w \<in> set ws. ew_fd w \<noteq> fd) \<longrightarrow>
      sys_epoll_ctl epfd 3 fd ev s = (ENOENT, s) \<and> sys_epoll_ctl epfd 2 fd ev s = (ENOENT, s))"
proof (intro conjI allI impI)
  let ?e = "nt_epoll s x"
  have n: "length ws = ep_n ?e" by (simp add: ws_def watches_def)
  have at: "ws ! i = ep_watches ?e i" if "i < ep_n ?e" for i using that by (simp add: ws_def watches_def)
  show "\<exists>s'. sys_epoll_ctl epfd 1 fd ev s = (0, s') \<and>
      watches (nt_epoll s' x) = ws @ [\<lparr>ew_fd = fd, ew_events = ev_events ev, ew_data = ev_data ev\<rparr>]"
    if "length ws < EPOLL_MAX_WATCHES"
    using that assms(1) n
    by (intro exI) (auto simp: sys_epoll_ctl_def Let_def set_ep_def put_watch_def watches_def ws_def)
  show "sys_epoll_ctl epfd 3 fd ev s = (ENOENT, s)" "sys_epoll_ctl epfd 2 fd ev s = (ENOENT, s)"
    if "\<forall>w \<in> set ws. ew_fd w \<noteq> fd"
    using that assms(1) by (simp_all add: sys_epoll_ctl_def Let_def ws_def watch_idx_None [symmetric])
  fix i assume i: "i < length ws \<and> ew_fd (ws ! i) = fd \<and> (\<forall>j < i. ew_fd (ws ! j) \<noteq> fd)"
  then have f: "watch_idx ?e fd = Some i" by (simp add: watch_idx_Some ws_def)
  have len: "i < ep_n ?e" using i n by simp
  show "\<exists>s'. sys_epoll_ctl epfd 3 fd ev s = (0, s') \<and>
      watches (nt_epoll s' x) = ws[i := (ws ! i)\<lparr>ew_events := ev_events ev, ew_data := ev_data ev\<rparr>]"
  proof -
    let ?s' = "set_ep x (put_watch i ((ep_watches ?e i)\<lparr>ew_events := ev_events ev, ew_data := ev_data ev\<rparr>) ?e) s"
    have "watches (nt_epoll ?s' x) = ws[i := (ws ! i)\<lparr>ew_events := ev_events ev, ew_data := ev_data ev\<rparr>]"
      by (rule nth_equalityI) (auto simp: watches_def set_ep_def put_watch_def n at len nth_list_update)
    moreover have "sys_epoll_ctl epfd 3 fd ev s = (0, ?s')" using assms(1) f by (simp add: sys_epoll_ctl_def Let_def)
    ultimately show ?thesis by blast
  qed
  show "\<exists>s'. sys_epoll_ctl epfd 2 fd ev s = (0, s') \<and> watches (nt_epoll s' x) = butlast (ws[i := last ws])"
  proof -
    let ?s' = "set_ep x ((put_watch i (ep_watches ?e (ep_n ?e - 1)) ?e)\<lparr>ep_n := ep_n ?e - 1\<rparr>) s"
    have "ws \<noteq> []" using len n by auto
    then have "last ws = ep_watches ?e (ep_n ?e - 1)" using len n by (simp add: last_conv_nth at)
    then have "watches (nt_epoll ?s' x) = butlast (ws[i := last ws])"
      by (intro nth_equalityI) (auto simp: watches_def set_ep_def put_watch_def n at nth_butlast nth_list_update)
    moreover have "sys_epoll_ctl epfd 2 fd ev s = (0, ?s')" using assms(1) f by (simp add: sys_epoll_ctl_def Let_def)
    ultimately show ?thesis by blast
  qed
qed

section \<open>select\<close>

lemma isset_bit: "fdset_isset f fd \<longleftrightarrow> 0 \<le> fd \<and> fd < 1024 \<and> bit (f (nat fd div 64)) (nat fd mod 64)"
  by (auto simp: fdset_isset_def bit_iff_odd_drop_bit and_one_eq odd_iff_mod_2_eq_one)

lemma isset_set:
  assumes "0 \<le> a" "a < 1024" shows "fdset_isset (fdset_set a f) b \<longleftrightarrow> fdset_isset f b \<or> b = a"
proof (cases "0 \<le> b \<and> b < 1024 \<and> nat b div 64 = nat a div 64")
  case True
  have "nat b mod 64 < 64" by simp
  moreover have "nat b mod 64 = nat a mod 64 \<longleftrightarrow> b = a"
    using True assms(1) div_mult_mod_eq [of "nat a" 64] div_mult_mod_eq [of "nat b" 64] by auto
  ultimately show ?thesis
    using True assms by (auto simp: isset_bit fdset_set_def bit_or_iff bit_exp_iff)
next
  case False
  then show ?thesis using assms by (auto simp: isset_bit fdset_set_def)
qed

text \<open>Whether a descriptor is asked for in the set and ready in the sense of the mask.\<close>

definition hit :: "net \<Rightarrow> fd_set option \<Rightarrow> u32 \<Rightarrow> nat \<Rightarrow> bool" where
  "hit s fs m fd \<longleftrightarrow> (\<exists>f. fs = Some f \<and> fdset_isset f (int fd) \<and> epoll_check_fd (int fd) s AND m \<noteq> 0)"

lemma range_Suc: "{j. a \<le> j \<and> j < a + Suc k \<and> P j} =
    (if P a then {a} else {}) \<union> {j. a + 1 \<le> j \<and> j < a + 1 + k \<and> P (j :: nat)}"
  by (auto simp: less_Suc_eq_le) (metis le_antisym not_less_eq_eq)

lemma card_range_Suc:
  "card {j. a \<le> j \<and> j < a + Suc k \<and> P j} = (if P a then 1 else 0) + card {j. a + 1 \<le> j \<and> j < a + 1 + k \<and> P (j :: nat)}"
  unfolding range_Suc by (subst card_Un_disjoint) auto

lemma select_scan_spec:
  assumes "a + k \<le> 1024"
  shows "\<exists>r' w'. select_scan s rfs wfs a k (n, r, w) = (n + card {j. a \<le> j \<and> j < a + k \<and> hit s rfs 1 j} +
      card {j. a \<le> j \<and> j < a + k \<and> hit s wfs 4 j}, r', w') \<and>
    (\<forall>x. fdset_isset r' x \<longleftrightarrow> fdset_isset r x \<or> (\<exists>j. x = int j \<and> a \<le> j \<and> j < a + k \<and> hit s rfs 1 j)) \<and>
    (\<forall>x. fdset_isset w' x \<longleftrightarrow> fdset_isset w x \<or> (\<exists>j. x = int j \<and> a \<le> j \<and> j < a + k \<and> hit s wfs 4 j))"
  using assms
proof (induction k arbitrary: a n r w)
  case (Suc k)
  let ?r = "if hit s rfs 1 a then fdset_set (int a) r else r" and ?w = "if hit s wfs 4 a then fdset_set (int a) w else w"
  have inr: "(case rfs of None \<Rightarrow> False | Some f \<Rightarrow> fdset_isset f (int a) \<and> epoll_check_fd (int a) s AND 1 \<noteq> 0) = hit s rfs 1 a"
    and inw: "(case wfs of None \<Rightarrow> False | Some f \<Rightarrow> fdset_isset f (int a) \<and> epoll_check_fd (int a) s AND 4 \<noteq> 0) = hit s wfs 4 a"
    by (simp_all add: hit_def split: option.splits)
  have step: "select_scan s rfs wfs a (Suc k) (n, r, w) = select_scan s rfs wfs (a + 1) k
      (n + (if hit s rfs 1 a then 1 else 0) + (if hit s wfs 4 a then 1 else 0), ?r, ?w)"
    by (simp only: select_scan.simps Let_def inr inw)
  have a: "int a < 1024" "a + 1 + k \<le> 1024" using Suc.prems by simp_all
  obtain r' w' where IH: "select_scan s rfs wfs (a + 1) k (n + (if hit s rfs 1 a then 1 else 0) + (if hit s wfs 4 a then 1 else 0), ?r, ?w) =
      (n + (if hit s rfs 1 a then 1 else 0) + (if hit s wfs 4 a then 1 else 0) +
        card {j. a + 1 \<le> j \<and> j < a + 1 + k \<and> hit s rfs 1 j} + card {j. a + 1 \<le> j \<and> j < a + 1 + k \<and> hit s wfs 4 j}, r', w')"
    "\<forall>x. fdset_isset r' x \<longleftrightarrow> fdset_isset ?r x \<or> (\<exists>j. x = int j \<and> a + 1 \<le> j \<and> j < a + 1 + k \<and> hit s rfs 1 j)"
    "\<forall>x. fdset_isset w' x \<longleftrightarrow> fdset_isset ?w x \<or> (\<exists>j. x = int j \<and> a + 1 \<le> j \<and> j < a + 1 + k \<and> hit s wfs 4 j)"
    using Suc.IH [OF a(2)] by blast
  have ex: "(\<exists>j. x = int j \<and> a \<le> j \<and> j < a + Suc k \<and> P j) \<longleftrightarrow>
      x = int a \<and> P a \<or> (\<exists>j. x = int j \<and> a + 1 \<le> j \<and> j < a + 1 + k \<and> P j)" for x P
    by (auto simp: less_Suc_eq_le le_Suc_eq) (metis le_antisym not_less_eq_eq)
  have sets: "fdset_isset ?r x \<longleftrightarrow> fdset_isset r x \<or> x = int a \<and> hit s rfs 1 a"
    "fdset_isset ?w x \<longleftrightarrow> fdset_isset w x \<or> x = int a \<and> hit s wfs 4 a" for x
    using a(1) by (auto simp: isset_set)
  show ?case
    unfolding step IH(1)
    by (intro exI [of _ r'] exI [of _ w']) (simp add: IH(2,3) sets ex disj_assoc card_range_Suc del: add_Suc_right)
qed auto

text \<open>
  C38. \<open>select\<close> is exact.  When a descriptor that is asked for is ready at the call, the sets that come back contain exactly
  the descriptors asked for below the limit that can be read, or written, and the result is how many those are.
  When none is ready and the time is zero, the result is 0, but the sets come back as they were given, as if
  all were ready.
\<close>

theorem select_exact:
  fixes nfds :: int
  defines "k \<equiv> nat (min nfds (int SOCKET_MAX))"
  assumes "0 < select_turns tv"
  shows "if (\<exists>j < k. hit s rfs 1 j \<or> hit s wfs 4 j)
    then \<exists>rfs' wfs'. sys_select env nfds rfs wfs tv s =
           (int (card {j. j < k \<and> hit s rfs 1 j} + card {j. j < k \<and> hit s wfs 4 j}), rfs', wfs', s) \<and>
         (rfs = None \<longleftrightarrow> rfs' = None) \<and> (wfs = None \<longleftrightarrow> wfs' = None) \<and>
         (\<forall>f. rfs' = Some f \<longrightarrow> (\<forall>x. fdset_isset f x \<longleftrightarrow> (\<exists>j. x = int j \<and> j < k \<and> hit s rfs 1 j))) \<and>
         (\<forall>f. wfs' = Some f \<longrightarrow> (\<forall>x. fdset_isset f x \<longleftrightarrow> (\<exists>j. x = int j \<and> j < k \<and> hit s wfs 4 j)))
    else tv = Some (0, 0) \<longrightarrow> sys_select env nfds rfs wfs tv s = (0, rfs, wfs, s)"
proof -
  let ?R = "{j. j < k \<and> hit s rfs 1 j}" and ?W = "{j. j < k \<and> hit s wfs 4 j}"
  have k: "0 + k \<le> 1024" by (simp add: k_def SOCKET_MAX_def)
  have z: "\<not> fdset_isset (\<lambda>_. 0) x" for x by (simp add: isset_bit)
  obtain r' w' where sc: "select_scan s rfs wfs 0 k (0, \<lambda>_. 0, \<lambda>_. 0) = (card ?R + card ?W, r', w')"
    "\<forall>x. fdset_isset r' x \<longleftrightarrow> (\<exists>j. x = int j \<and> j < k \<and> hit s rfs 1 j)" "\<forall>x. fdset_isset w' x \<longleftrightarrow> (\<exists>j. x = int j \<and> j < k \<and> hit s wfs 4 j)"
    using select_scan_spec [OF k, of s rfs wfs 0 "\<lambda>_. 0" "\<lambda>_. 0"] by (auto simp: z)
  obtain m where m: "select_turns tv = Suc m" using assms(2) by (cases "select_turns tv") auto
  have call: "sys_select env nfds rfs wfs tv s =
    (if card ?R + card ?W > 0 then (int (card ?R + card ?W), map_option (\<lambda>_. r') rfs, map_option (\<lambda>_. w') wfs, s)
     else if tv = Some (0, 0) then (0, rfs, wfs, s)
     else select_loop env k rfs wfs (tv = Some (0, 0)) (0 + 1) m (r', w') (env 0 s))"
    unfolding sys_select_def k_def [symmetric] m by (simp only: select_loop.simps sc(1) prod.case)
  have fin: "finite ?R" "finite ?W" by simp_all
  show ?thesis
  proof (cases "\<exists>j < k. hit s rfs 1 j \<or> hit s wfs 4 j")
    case True
    then have "card ?R + card ?W > 0" using fin by (auto simp: card_gt_0_iff)
    then have "sys_select env nfds rfs wfs tv s =
        (int (card ?R + card ?W), map_option (\<lambda>_. r') rfs, map_option (\<lambda>_. w') wfs, s)" by (simp add: call)
    then show ?thesis using True sc(2,3)
      by (intro if_bool_eq_conj [THEN iffD2] conjI impI exI [of _ "map_option (\<lambda>_. r') rfs"] exI [of _ "map_option (\<lambda>_. w') wfs"]) auto
  next
    case False
    then have e: "?R = {}" "?W = {}" by auto
    have "tv = Some (0, 0) \<longrightarrow> sys_select env nfds rfs wfs tv s = (0, rfs, wfs, s)" by (subst call) (simp add: e)
    then show ?thesis by (simp only: False if_False)
  qed
qed

section \<open>Applied\<close>

lemma demo_net_ok: "net_ok net_demo"
  by (auto simp: net_ok_def sock_ok_def net_demo_def socket_zero_def tcp_states RECV_BUF_def EPOLL_MAX_WATCHES_def)

lemma sockets_well_formed_witness:
  "\<exists>s'. net_run (\<lambda>_ s. s) [Socket 0x801, Packet (demo_packet 80 TCP_SYN) 54, Recv 1 2] net_demo = Some s' \<and> net_ok s'"
proof -
  let ?ops = "[Socket 0x801, Packet (demo_packet 80 TCP_SYN) 54, Recv 1 2]"
  let ?s1 = "snd (sys_socket 0x801 net_demo)"
  have alloc: "first_idx (\<lambda>i. so_state (nt_socks net_demo i) = TCP_CLOSED \<and> so_type (nt_socks net_demo i) = 0) 0 SOCKET_MAX = Some 2"
    by (auto simp: first_idx_Some net_demo_def socket_zero_def SOCKET_MAX_def tcp_states less_Suc_eq numeral_2_eq_2)
  have s1: "nt_socks ?s1 = (nt_socks net_demo)(2 := (nt_socks net_demo 2)\<lparr>so_state := TCP_CLOSED, so_type := 1, so_type := 1,
      so_nonblock := True, so_state := TCP_CLOSED, so_local_port := 49152, so_window := 8192\<rparr>)"
    by (simp add: sys_socket_def socket_alloc_def alloc alloc_port_def Let_def) (simp add: net_demo_def)
  have "port_socket 80 ?s1 = Some 0"
    by (simp add: port_socket_def first_idx_Some s1) (simp add: net_demo_def socket_zero_def SOCKET_MAX_def)
  moreover have "tcp_packet (demo_packet 80 TCP_SYN) 54 80" using demo_tcp_packet [of 54 80] by simp
  ultimately have p: "tcpip_handle_packet (demo_packet 80 TCP_SYN) 54 ?s1 =
      Some (tcp_segment (demo_packet 80 TCP_SYN) 34 (at32 (demo_packet 80 TCP_SYN) 26) 54 0 ?s1)" by (rule handle_tcp [rotated])
  let ?s2 = "tcp_segment (demo_packet 80 TCP_SYN) 34 (at32 (demo_packet 80 TCP_SYN) 26) 54 0 ?s1"
  have s2: "nt_socks ?s2 1 = nt_socks net_demo 1" by (simp add: segment_keeps s1)
  have "so_type (nt_socks ?s2 1) \<noteq> 0" unfolding s2 by (simp add: net_demo_def)
  then have "socket_get 1 ?s2 = Some 1" by (simp add: socket_get_def SOCKET_MAX_def)
  then have "\<exists>r bs s'. sys_recv (\<lambda>_ s. s) 1 2 ?s2 = Some (r, bs, s')"
    by (simp add: sys_recv_def s2 [unfolded One_nat_def] recv_take_def Let_def) (simp add: net_demo_def socket_zero_def RECV_BUF_def)
  then have "\<exists>s'. net_run (\<lambda>_ s. s) ?ops net_demo = Some s'" using p by auto
  then show ?thesis using sockets_well_formed [OF demo_net_ok, of "\<lambda>_ s. s" ?ops] by blast
qed

lemma demo_ready: "epoll_check_fd 1 net_demo = 5"
proof -
  have "socket_get 1 net_demo = Some 1" by (simp add: socket_get_def net_demo_def SOCKET_MAX_def)
  then show ?thesis
    by (simp add: epoll_check_fd_def Let_def) (simp add: net_demo_def socket_zero_def tcp_states EPOLLIN_def EPOLLOUT_def)
qed

lemma demo_epoll: "epoll_get 200 net_demo = Some 0"
  by (simp add: epoll_get_def EPOLL_FD_BASE_def EPOLL_MAX_INSTANCES_def net_demo_def)

lemma epoll_wait_exact_witness: "sys_epoll_wait (\<lambda>_ s. s) 200 True 4 0 net_demo = Some (1, [(5, 7)], net_demo)"
proof -
  have "watches (nt_epoll net_demo 0) = [\<lparr>ew_fd = 1, ew_events = 5, ew_data = 7\<rparr>]" by (simp add: watches_def net_demo_def)
  moreover have "fired net_demo \<lparr>ew_fd = 1, ew_events = 5, ew_data = 7\<rparr> = 5" by (simp add: fired_def demo_ready)
  ultimately show ?thesis using epoll_wait_exact [OF demo_epoll, of 4 "\<lambda>_ s. s"] by auto
qed

lemma epoll_ctl_refines_witness:
  "\<exists>s'. sys_epoll_ctl 200 1 0 None net_demo = (0, s') \<and> length (watches (nt_epoll s' 0)) = 2"
proof -
  have "watches (nt_epoll net_demo 0) = [\<lparr>ew_fd = 1, ew_events = 5, ew_data = 7\<rparr>]" by (simp add: watches_def net_demo_def)
  then show ?thesis using epoll_ctl_refines [OF demo_epoll, of 0 None] by (auto simp: EPOLL_MAX_WATCHES_def)
qed

lemma select_exact_witness:
  "\<exists>f. sys_select (\<lambda>_ s. s) 4 (Some (\<lambda>_. 2)) None None net_demo = (1, Some f, None, net_demo) \<and> fdset_isset f 1"
proof -
  have h: "hit net_demo (Some (\<lambda>_. 2)) 1 j \<longleftrightarrow> j = 1" if "j < 4" for j
  proof -
    have two: "(2 :: u64) = 2 ^ 1" by simp
    have "fdset_isset (\<lambda>_. 2) (int j) \<longleftrightarrow> j = 1"
      using that by (subst two) (auto simp only: isset_bit bit_exp_iff nat_int, simp_all)
    then show ?thesis using demo_ready by (auto simp: hit_def)
  qed
  have n: "\<not> hit net_demo None m j" for m j by (simp add: hit_def)
  have k: "nat (min 4 (int SOCKET_MAX)) = 4" by (simp add: SOCKET_MAX_def)
  have c: "{j. j < 4 \<and> hit net_demo (Some (\<lambda>_. 2)) 1 j} = {1}" using h by auto
  have e: "\<exists>j < 4. hit net_demo (Some (\<lambda>_. 2)) 1 j \<or> hit net_demo None 4 j" using h [of 1] by (intro exI [of _ 1]) simp
  have t: "0 < select_turns None" by (simp add: select_turns_def)
  from select_exact [OF t, of 4 net_demo "Some (\<lambda>_. 2)" None "\<lambda>_ s. s", unfolded k, unfolded if_P [OF e] c]
  obtain rfs' wfs' where s: "sys_select (\<lambda>_ s. s) 4 (Some (\<lambda>_. 2)) None None net_demo =
      (int (card {1 :: nat} + card {j. j < 4 \<and> hit net_demo None 4 j}), rfs', wfs', net_demo)"
    "rfs' \<noteq> None" "wfs' = None" "\<forall>f. rfs' = Some f \<longrightarrow> (\<forall>x. fdset_isset f x \<longleftrightarrow> (\<exists>j. x = int j \<and> j < 4 \<and> hit net_demo (Some (\<lambda>_. 2)) 1 j))"
    by auto
  then obtain f where "rfs' = Some f" by auto
  with s h [of 1] show ?thesis by (auto simp: n)
qed

end
