(* ===== verification/Raster.thy ===== *)
theory Raster
  imports Bytes
begin

text \<open>
  kernel/image.h and kernel/image.c: the decoded image, the conversion to the pixels of the window system, and
  scaling.  Samples are a function from offsets to bytes.  The heap is the parameter \<open>avail\<close>: whether
  the k-th request of a call, of the given size, is granted.  The fields of an image are natural numbers; no
  code stores a negative one.  All sizes are at most \<open>IMG_MAX_PIXELS\<close> pixels, so their arithmetic does
  not leave 64 bits.
\<close>

unbundle bit_operations_syntax

section \<open>Images\<close>

datatype image_fmt = IMG_UNKNOWN | IMG_PNG | IMG_JPEG | IMG_BMP | IMG_TGA | IMG_PCX | IMG_QOI | IMG_ICO

named_theorems img_consts

definition IMG_OK :: int where [img_consts]: "IMG_OK = 0"
definition IMG_ERR_FORMAT :: int where [img_consts]: "IMG_ERR_FORMAT = -1"
definition IMG_ERR_UNSUPPORTED :: int where [img_consts]: "IMG_ERR_UNSUPPORTED = -2"
definition IMG_ERR_CORRUPT :: int where [img_consts]: "IMG_ERR_CORRUPT = -3"
definition IMG_ERR_MEMORY :: int where [img_consts]: "IMG_ERR_MEMORY = -4"
definition IMG_ERR_TRUNCATED :: int where [img_consts]: "IMG_ERR_TRUNCATED = -5"
definition IMG_ERR_TOOBIG :: int where [img_consts]: "IMG_ERR_TOOBIG = -6"
definition IMG_ERR_IO :: int where [img_consts]: "IMG_ERR_IO = -7"
definition IMG_MAX_DIM :: nat where [img_consts]: "IMG_MAX_DIM = 4096"
definition IMG_MAX_PIXELS :: nat where [img_consts]: "IMG_MAX_PIXELS = IMG_MAX_DIM * IMG_MAX_DIM"

record image =
  im_width :: nat
  im_height :: nat
  im_channels :: nat
  im_alpha :: bool
  im_pixels :: "(nat \<Rightarrow> u8) option"
  im_size :: nat
  im_stride :: nat

definition no_image :: image where
  "no_image = \<lparr>im_width = 0, im_height = 0, im_channels = 0, im_alpha = False, im_pixels = None, im_size = 0, im_stride = 0\<rparr>"

text \<open>The block that ends every decoder: the fields of the image that was decoded.\<close>

definition finished :: "nat \<Rightarrow> nat \<Rightarrow> nat \<Rightarrow> bool \<Rightarrow> (nat \<Rightarrow> u8) \<Rightarrow> image" where
  "finished w h nc alpha px =
     \<lparr>im_width = w, im_height = h, im_channels = nc, im_alpha = alpha, im_pixels = Some px,
      im_size = w * h * nc, im_stride = w * nc\<rparr>"

text \<open>The checks of the size that the decoders share, with the error of the first that fails.\<close>

definition size_error :: "nat \<Rightarrow> nat \<Rightarrow> int option" where
  "size_error w h =
     (if w = 0 \<or> h = 0 then Some IMG_ERR_CORRUPT
      else if w > IMG_MAX_DIM \<or> h > IMG_MAX_DIM then Some IMG_ERR_TOOBIG
      else if w * h > IMG_MAX_PIXELS then Some IMG_ERR_TOOBIG
      else None)"

definition image_free :: "image \<Rightarrow> image" where
  "image_free img = img\<lparr>im_pixels := None, im_size := 0, im_width := 0, im_height := 0, im_channels := 0,
     im_alpha := False, im_stride := 0\<rparr>"

section \<open>Writing samples in the order of a raster\<close>

text \<open>The two loops over rows and columns: \<open>f y x\<close> are the samples stored for a pixel.\<close>

fun raster_row :: "nat \<Rightarrow> nat \<Rightarrow> (nat \<Rightarrow> u8 list) \<Rightarrow> nat \<Rightarrow> nat \<Rightarrow> (nat \<Rightarrow> u8) \<Rightarrow> nat \<Rightarrow> u8" where
  "raster_row base nc f x 0 px = px"
| "raster_row base nc f x (Suc k) px = raster_row base nc f (Suc x) k (put_bytes px (base + x * nc) (f x))"

fun raster :: "nat \<Rightarrow> nat \<Rightarrow> (nat \<Rightarrow> nat \<Rightarrow> u8 list) \<Rightarrow> nat \<Rightarrow> nat \<Rightarrow> (nat \<Rightarrow> u8) \<Rightarrow> nat \<Rightarrow> u8" where
  "raster w nc f y 0 px = px"
| "raster w nc f y (Suc k) px = raster w nc f (Suc y) k (raster_row (y * w * nc) nc (f y) 0 w px)"

lemma put_bytes_inside: "off \<le> i \<Longrightarrow> i < off + length bs \<Longrightarrow> put_bytes b off bs i = bs ! (i - off)"
  by (simp add: put_bytes_def)

lemma put_bytes_outside: "i < off \<or> off + length bs \<le> i \<Longrightarrow> put_bytes b off bs i = b i"
  by (auto simp: put_bytes_def)

lemma raster_row_at:
  assumes "\<And>x. length (f x) = nc"
  shows "raster_row base nc f x0 k px i =
    (if base + x0 * nc \<le> i \<and> i < base + (x0 + k) * nc
     then f ((i - base) div nc) ! ((i - base) mod nc) else px i)"
proof (induction k arbitrary: x0 px)
  case (Suc k)
  let ?a = "base + x0 * nc"
  have IH: "raster_row base nc f x0 (Suc k) px i =
      (if ?a + nc \<le> i \<and> i < base + (x0 + Suc k) * nc then f ((i - base) div nc) ! ((i - base) mod nc)
       else put_bytes px ?a (f x0) i)"
    by (simp add: Suc algebra_simps)
  consider "i < ?a" | "?a \<le> i" "i < ?a + nc" | "?a + nc \<le> i" by linarith
  then show ?case
  proof cases
    case 2
    then obtain r where r: "i = base + (x0 * nc + r)" "r < nc" by (metis add.assoc le_Suc_ex nat_add_left_cancel_less)
    have d: "(x0 * nc + r) div nc = x0" "(x0 * nc + r) mod nc = r" using r(2) by simp_all
    have "put_bytes px ?a (f x0) i = f x0 ! r" using r assms by (simp add: put_bytes_def)
    then show ?thesis unfolding IH using r 2 by (simp add: d add.assoc) (simp add: algebra_simps)
  qed (unfold IH, auto simp: put_bytes_outside assms algebra_simps)
qed auto

lemma raster_at:
  assumes "\<And>y x. length (f y x) = nc"
  shows "raster w nc f y0 k px i =
    (if y0 * w * nc \<le> i \<and> i < (y0 + k) * w * nc
     then f (i div nc div w) (i div nc mod w) ! (i mod nc) else px i)"
proof (induction k arbitrary: y0 px)
  case (Suc k)
  let ?b = "y0 * w * nc"
  have IH: "raster w nc f y0 (Suc k) px i =
      (if ?b + w * nc \<le> i \<and> i < (y0 + Suc k) * w * nc then f (i div nc div w) (i div nc mod w) ! (i mod nc)
       else raster_row ?b nc (f y0) 0 w px i)"
    by (simp add: Suc algebra_simps)
  have row: "raster_row ?b nc (f y0) 0 w px i =
      (if ?b \<le> i \<and> i < ?b + w * nc then f y0 ((i - ?b) div nc) ! ((i - ?b) mod nc) else px i)"
    by (subst raster_row_at) (simp_all add: assms)
  consider "i < ?b" | "?b \<le> i" "i < ?b + w * nc" | "?b + w * nc \<le> i" by linarith
  then show ?case
  proof cases
    case 2
    then obtain r where r: "i = ?b + r" "r < w * nc" by (metis le_Suc_ex nat_add_left_cancel_less)
    then have "0 < nc" "0 < w" by (auto intro: Nat.gr0I)
    then have d: "i div nc = y0 * w + r div nc" "i mod nc = r mod nc" "r div nc < w"
      using r by (simp_all add: less_mult_imp_div_less)
    have e: "i div nc div w = y0" "i div nc mod w = r div nc" using d by simp_all
    have "i < (y0 + Suc k) * w * nc" using 2 by (simp add: algebra_simps)
    then show ?thesis unfolding IH row e d(2) using 2 r(1) by simp
  qed (unfold IH row, auto simp: algebra_simps)
qed auto

text \<open>One row among the others.\<close>

lemma row_start:
  fixes w :: nat
  assumes "x < w" "c < nc"
  shows "i * w * nc \<le> (j * w + x) * nc + c \<and> (j * w + x) * nc + c < (i * w + w) * nc \<longleftrightarrow> j = i"
proof
  assume j: "i * w * nc \<le> (j * w + x) * nc + c \<and> (j * w + x) * nc + c < (i * w + w) * nc"
  have "((j * w + x) * nc + c) div nc = j * w + x" using assms(2) by simp
  moreover have "(i * w * nc) div nc \<le> ((j * w + x) * nc + c) div nc" using j by (intro div_le_mono) simp
  moreover have "((j * w + x) * nc + c) div nc < i * w + w" using j by (simp add: less_mult_imp_div_less)
  ultimately have "i * w \<le> j * w + x" "j * w + x < Suc i * w" using assms(2) by simp_all
  then have "i < Suc j" "j < Suc i" using assms(1)
    by (metis add.commute add_lessD1 mult_Suc le_less_trans nat_add_left_cancel_less mult_less_cancel2)
      (metis \<open>j * w + x < Suc i * w\<close> add_lessD1 mult_less_cancel2)
  then show "j = i" by simp
next
  assume "j = i"
  moreover have "(x * nc + c) < w * nc" using assms by (metis add.commute div_less_iff_less_mult div_mult_self3 div_less
    add_0_right gr_implies_not0 neq0_conv)
  ultimately show "i * w * nc \<le> (j * w + x) * nc + c \<and> (j * w + x) * nc + c < (i * w + w) * nc" by (simp add: algebra_simps)
qed

lemma one_row:
  assumes "\<And>x. length (f x) = nc" "x < w" "c < nc"
  shows "raster_row (i * w * nc) nc f 0 w px ((j * w + x) * nc + c) = (if j = i then f x ! c else px ((j * w + x) * nc + c))"
proof -
  have "(i * w + x) * nc + c - i * w * nc = x * nc + c" by (simp add: algebra_simps)
  then have "((i * w + x) * nc + c - i * w * nc) div nc = x" "((i * w + x) * nc + c - i * w * nc) mod nc = c"
    using assms(3) by simp_all
  then show ?thesis using row_start [OF assms(2,3), of i j] by (simp add: raster_row_at [OF assms(1)] algebra_simps)
qed

text \<open>The sample of a pixel, and the offset of a sample.\<close>

lemma raster_pixel:
  assumes "\<And>y x. length (f y x) = nc" "x < w" "y < h" "c < nc"
  shows "raster w nc f 0 h px ((y * w + x) * nc + c) = f y x ! c"
proof -
  have d: "((y * w + x) * nc + c) div nc = y * w + x" "((y * w + x) * nc + c) mod nc = c" using assms(4) by simp_all
  have "Suc y * w \<le> h * w" using assms(3) by (intro mult_le_mono1) simp
  then have "y * w + x < h * w" using assms(2) by simp
  then have "(y * w + x) * nc + nc \<le> h * w * nc" by (metis Suc_leI mult_le_mono1 mult_Suc add.commute)
  then have "(y * w + x) * nc + c < h * w * nc" using assms(4) by linarith
  then show ?thesis using assms(2,4) by (simp add: raster_at [OF assms(1)] d)
qed

section \<open>Conversion to the pixels of the window system\<close>

definition xrgb :: "u32 \<Rightarrow> u32 \<Rightarrow> u32 \<Rightarrow> u32" where
  "xrgb r g b = push_bit 16 r OR push_bit 8 g OR b"

text \<open>One sample over the backdrop \<open>bg\<close>.\<close>

definition blend :: "u8 \<Rightarrow> u32 \<Rightarrow> u32 \<Rightarrow> u32" where
  "blend v bg a = (ucast v * a + bg * (255 - a)) div 255"

definition xrgb_pixel :: "nat \<Rightarrow> (nat \<Rightarrow> u8) \<Rightarrow> nat \<Rightarrow> u32" where
  "xrgb_pixel nc px i =
     (if nc = 3 then xrgb (ucast (px (i * 3))) (ucast (px (i * 3 + 1))) (ucast (px (i * 3 + 2)))
      else if nc = 4 then
        let a = ucast (px (i * 4 + 3))
        in xrgb (blend (px (i * 4)) 0x1A a) (blend (px (i * 4 + 1)) 0x1E a) (blend (px (i * 4 + 2)) 0x24 a)
      else let v = ucast (px i) in xrgb v v v)"

fun xrgb_loop :: "nat \<Rightarrow> (nat \<Rightarrow> u8) \<Rightarrow> nat \<Rightarrow> nat \<Rightarrow> (nat \<Rightarrow> u32) \<Rightarrow> nat \<Rightarrow> u32" where
  "xrgb_loop nc px i 0 dst = dst"
| "xrgb_loop nc px i (Suc k) dst = xrgb_loop nc px (Suc i) k (dst(i := xrgb_pixel nc px i))"

definition image_to_xrgb32 :: "image \<Rightarrow> (nat \<Rightarrow> u32) \<Rightarrow> nat \<Rightarrow> u32" where
  "image_to_xrgb32 src dst =
     (case im_pixels src of None \<Rightarrow> dst
      | Some px \<Rightarrow> xrgb_loop (im_channels src) px 0 (im_width src * im_height src) dst)"

definition image_to_xrgb32_alloc :: "(nat \<Rightarrow> nat \<Rightarrow> bool) \<Rightarrow> (nat \<Rightarrow> u32) \<Rightarrow> image \<Rightarrow> (nat \<Rightarrow> u32) option" where
  "image_to_xrgb32_alloc avail fresh src =
     (if im_pixels src = None then None
      else if \<not> avail 0 (im_width src * im_height src * 4) then None
      else Some (image_to_xrgb32 src fresh))"

section \<open>Scaling\<close>

definition box_lo :: "nat \<Rightarrow> nat \<Rightarrow> nat \<Rightarrow> nat" where
  "box_lo i src dst = i * src div dst"

definition box_hi :: "nat \<Rightarrow> nat \<Rightarrow> nat \<Rightarrow> nat" where
  "box_hi i src dst =
     (let b = (i + 1) * src div dst;
          b = (if b \<le> box_lo i src dst then box_lo i src dst + 1 else b)
      in if b > src then src else b)"

text \<open>The sums \<open>acc[c]\<close>: \<open>k\<close> pixels of a row from offset \<open>off\<close>, then \<open>m\<close> rows.\<close>

fun sum_pixels :: "(nat \<Rightarrow> u8) \<Rightarrow> nat \<Rightarrow> nat \<Rightarrow> nat \<Rightarrow> u32 \<Rightarrow> u32" where
  "sum_pixels px nc off 0 acc = acc"
| "sum_pixels px nc off (Suc k) acc = sum_pixels px nc (off + nc) k (acc + ucast (px off))"

fun sum_rows :: "(nat \<Rightarrow> u8) \<Rightarrow> nat \<Rightarrow> nat \<Rightarrow> nat \<Rightarrow> nat \<Rightarrow> nat \<Rightarrow> u32 \<Rightarrow> u32" where
  "sum_rows px nc stride off k 0 acc = acc"
| "sum_rows px nc stride off k (Suc m) acc = sum_rows px nc stride (off + stride) k m (sum_pixels px nc off k acc)"

definition box_sample :: "(nat \<Rightarrow> u8) \<Rightarrow> nat \<Rightarrow> nat \<Rightarrow> nat \<Rightarrow> nat \<Rightarrow> nat \<Rightarrow> nat \<Rightarrow> nat \<Rightarrow> u8" where
  "box_sample px nc stride y0 y1 x0 x1 c =
     (let cnt = (of_nat (y1 - y0) * of_nat (x1 - x0) :: u32);
          cnt = (if cnt = 0 then 1 else cnt)
      in ucast (sum_rows px nc stride (y0 * stride + x0 * nc + c) (x1 - x0) (y1 - y0) 0 div cnt))"

definition box_pixel :: "image \<Rightarrow> (nat \<Rightarrow> u8) \<Rightarrow> nat \<Rightarrow> nat \<Rightarrow> nat \<Rightarrow> nat \<Rightarrow> u8 list" where
  "box_pixel src px w h y x =
     map (box_sample px (im_channels src) (im_stride src) (box_lo y (im_height src) h) (box_hi y (im_height src) h)
            (box_lo x (im_width src) w) (box_hi x (im_width src) w)) [0..<im_channels src]"

definition near_pixel :: "image \<Rightarrow> (nat \<Rightarrow> u8) \<Rightarrow> nat \<Rightarrow> nat \<Rightarrow> nat \<Rightarrow> nat \<Rightarrow> u8 list" where
  "near_pixel src px w h y x =
     bytes_at px (y * im_height src div h * im_stride src + x * im_width src div w * im_channels src) (im_channels src)"

text \<open>The array of sums has four elements; \<^term>\<open>None\<close> is an access beyond it.\<close>

definition image_scale ::
  "(nat \<Rightarrow> nat \<Rightarrow> bool) \<Rightarrow> (nat \<Rightarrow> u8) \<Rightarrow> image \<Rightarrow> int \<Rightarrow> int \<Rightarrow> (int + image) option" where
  "image_scale avail fresh src w0 h0 =
     (case im_pixels src of None \<Rightarrow> Some (Inl IMG_ERR_FORMAT)
      | Some px \<Rightarrow>
          if w0 \<le> 0 \<or> h0 \<le> 0 then Some (Inl IMG_ERR_FORMAT)
          else if w0 * h0 > int IMG_MAX_PIXELS then Some (Inl IMG_ERR_TOOBIG)
          else let w = nat w0; h = nat h0; nc = im_channels src; need = w * h * nc
          in if \<not> avail 0 need then Some (Inl IMG_ERR_MEMORY)
             else if w = im_width src \<and> h = im_height src
             then Some (Inr (finished w h nc (im_alpha src) (put_bytes fresh 0 (bytes_at px 0 need))))
             else if w < im_width src \<or> h < im_height src then
               if nc > 4 then None
               else Some (Inr (finished w h nc (im_alpha src) (raster w nc (box_pixel src px w h) 0 h fresh)))
             else Some (Inr (finished w h nc (im_alpha src) (raster w nc (near_pixel src px w h) 0 h fresh))))"

end
