(* ===== verification/Tga.thy ===== *)
theory Tga
  imports Raster
begin

text \<open>
  The TGA and PCX decoders of kernel/tga_pcx_qoi.c.  \<^term>\<open>None\<close> is an access beyond an array: to the
  four bytes of \<open>px4\<close>, or to the expanded lines of a PCX file.  Bytes at or beyond the length of the file are
  whatever the caller's buffer holds; local arrays start with the contents given by a parameter.
\<close>

definition le16 :: "(nat \<Rightarrow> u8) \<Rightarrow> nat \<Rightarrow> nat" where
  "le16 d i = unat ((ucast (d i) OR push_bit 8 (ucast (d (i + 1)))) :: u32)"

section \<open>TGA\<close>

record tga_hdr =
  tg_w :: nat
  tg_h :: nat
  tg_bpp :: nat
  tg_cmap :: bool
  tg_rle :: bool
  tg_topdown :: bool
  tg_rightleft :: bool
  tg_pal :: "nat \<Rightarrow> u8"

definition tga_entry :: "(nat \<Rightarrow> u8) \<Rightarrow> nat \<Rightarrow> nat \<Rightarrow> u8 list" where
  "tga_entry d esz off = [d (off + 2), d (off + 1), d off, if esz = 4 then d (off + 3) else 0xFF]"

fun tga_palette :: "(nat \<Rightarrow> u8) \<Rightarrow> nat \<Rightarrow> nat \<Rightarrow> nat \<Rightarrow> nat \<Rightarrow> (nat \<Rightarrow> u8) \<Rightarrow> nat \<Rightarrow> u8" where
  "tga_palette d p esz i 0 pal = pal"
| "tga_palette d p esz i (Suc k) pal =
     tga_palette d p esz (Suc i) k (put_bytes pal (i * 4) (tga_entry d esz (p + i * esz)))"

definition five :: "u32 \<Rightarrow> u8" where
  "five v = ucast ((v AND 0x1F) * 255 div 31)"

text \<open>The samples stored for one pixel of raw data at offset \<open>p\<close>.\<close>

definition tga_samples :: "tga_hdr \<Rightarrow> (nat \<Rightarrow> u8) \<Rightarrow> nat \<Rightarrow> u8 list" where
  "tga_samples hdr d p =
     (if tg_cmap hdr then map (\<lambda>c. tg_pal hdr (unat (d p) * 4 + c)) [0, 1, 2, 3]
      else if tg_bpp hdr = 24 then [d (p + 2), d (p + 1), d p, 0xFF]
      else if tg_bpp hdr = 32 then [d (p + 2), d (p + 1), d p, d (p + 3)]
      else let v = ucast (d p) OR push_bit 8 (ucast (d (p + 1)))
        in [five (drop_bit 10 v), five (drop_bit 5 v), five v, 0xFF])"

definition tga_place :: "tga_hdr \<Rightarrow> nat \<Rightarrow> nat" where
  "tga_place hdr k =
     (let sx = k mod tg_w hdr; sy = k div tg_w hdr;
          fy = (if tg_topdown hdr then sy else tg_h hdr - 1 - sy);
          fx = (if tg_rightleft hdr then tg_w hdr - 1 - sx else sx)
      in (fy * tg_w hdr + fx) * 4)"

text \<open>Packets of equal pixels are placed without regard to the vertical direction.\<close>

definition rle_place :: "tga_hdr \<Rightarrow> nat \<Rightarrow> nat" where
  "rle_place hdr k =
     (let sx = k mod tg_w hdr; sy = k div tg_w hdr
      in (sy * tg_w hdr + (if tg_rightleft hdr then tg_w hdr - 1 - sx else sx)) * 4)"

definition rle_samples :: "tga_hdr \<Rightarrow> (nat \<Rightarrow> u8) \<Rightarrow> u8 list" where
  "rle_samples hdr px4 = [px4 2, px4 1, px4 0, if tg_bpp hdr = 32 then px4 3 else 0xFF]"

fun tga_run :: "tga_hdr \<Rightarrow> u8 list \<Rightarrow> nat \<Rightarrow> nat \<Rightarrow> (nat \<Rightarrow> u8) \<Rightarrow> nat \<times> (nat \<Rightarrow> u8)" where
  "tga_run hdr bs 0 k px = (k, px)"
| "tga_run hdr bs (Suc run) k px =
     (if k < tg_w hdr * tg_h hdr then tga_run hdr bs run (Suc k) (put_bytes px (rle_place hdr k) bs) else (k, px))"

text \<open>Raw pixels: the next pixel, offset and samples; the file ending early counts as all pixels done.\<close>

fun tga_raw :: "tga_hdr \<Rightarrow> (nat \<Rightarrow> u8) \<Rightarrow> nat \<Rightarrow> nat \<Rightarrow> nat \<Rightarrow> nat \<Rightarrow> (nat \<Rightarrow> u8) \<Rightarrow> nat \<times> nat \<times> (nat \<Rightarrow> u8)" where
  "tga_raw hdr d n 0 k p px = (k, p, px)"
| "tga_raw hdr d n (Suc run) k p px =
     (if k < tg_w hdr * tg_h hdr then
        if p + tg_bpp hdr div 8 > n then (tg_w hdr * tg_h hdr, p, px)
        else tga_raw hdr d n run (Suc k) (p + tg_bpp hdr div 8) (put_bytes px (tga_place hdr k) (tga_samples hdr d p))
      else (k, p, px))"

lemma tga_run_mono: "k \<le> fst (tga_run hdr bs run k px)"
  by (induction hdr bs run k px rule: tga_run.induct) auto

lemma tga_run_progress: "k < tg_w hdr * tg_h hdr \<Longrightarrow> k < fst (tga_run hdr bs (Suc run) k px)"
  using tga_run_mono [of "Suc k" hdr bs run "put_bytes px (rle_place hdr k) bs"] by simp

lemma tga_raw_mono: "k \<le> fst (tga_raw hdr d n run k p px)"
  by (induction hdr d n run k p px rule: tga_raw.induct) auto

lemma tga_raw_progress: "k < tg_w hdr * tg_h hdr \<Longrightarrow> k < fst (tga_raw hdr d n (Suc run) k p px)"
  using tga_raw_mono [of "Suc k" hdr d n run "p + tg_bpp hdr div 8" "put_bytes px (tga_place hdr k) (tga_samples hdr d p)"]
  by simp

function tga_loop :: "(nat \<Rightarrow> u8) \<Rightarrow> tga_hdr \<Rightarrow> (nat \<Rightarrow> u8) \<Rightarrow> nat \<Rightarrow> nat \<Rightarrow> nat \<Rightarrow> (nat \<Rightarrow> u8) \<Rightarrow> (nat \<Rightarrow> u8) option" where
  "tga_loop junk hdr d n k p px =
     (if k \<ge> tg_w hdr * tg_h hdr then Some px
      else if tg_rle hdr then
        if p \<ge> n then Some px
        else let pkt = d p; run = unat (pkt AND 0x7F); sb = tg_bpp hdr div 8
          in if pkt AND 0x80 \<noteq> 0 then
               if p + 1 + sb > n then Some px
               else if sb > 4 then None
               else let px4 = (\<lambda>b. if b < sb then d (p + 1 + b) else junk b);
                        r = tga_run hdr (rle_samples hdr px4) (Suc run) k px
                 in tga_loop junk hdr d n (fst r) (p + 1 + sb) (snd r)
             else let r = tga_raw hdr d n (Suc run) k (p + 1) px
               in tga_loop junk hdr d n (fst r) (fst (snd r)) (snd (snd r))
      else let r = tga_raw hdr d n (Suc 0) k p px
        in tga_loop junk hdr d n (fst r) (fst (snd r)) (snd (snd r)))"
  by pat_completeness auto
termination
proof (relation "measure (\<lambda>(junk, hdr, d, n, k, p, px). tg_w hdr * tg_h hdr - k)", goal_cases)
  case (2 junk hdr d n k p px pkt run sb px4 r)
  then show ?case using tga_run_progress [of k hdr "rle_samples hdr px4" run px] by (simp del: tga_run.simps)
next
  case (3 junk hdr d n k p px pkt run sb r)
  then show ?case using tga_raw_progress [of k hdr d n run "p + 1" px]
    by (cases "tga_raw hdr d n (Suc run) k (p + 1) px") (simp del: tga_raw.simps)
next
  case (4 junk hdr d n k p px r)
  then show ?case using tga_raw_progress [of k hdr d n 0 p px]
    by (cases "tga_raw hdr d n (Suc 0) k p px") (simp del: tga_raw.simps)
qed simp

declare tga_loop.simps [simp del]

definition tga_rle_type :: "u8 \<Rightarrow> bool option" where
  "tga_rle_type t = (if t = 1 \<or> t = 9 \<or> t = 3 then Some False else if t = 2 \<or> t = 10 \<or> t = 11 then Some True else None)"

definition tga_decode ::
  "(nat \<Rightarrow> nat \<Rightarrow> bool) \<Rightarrow> (nat \<Rightarrow> u8) \<Rightarrow> (nat \<Rightarrow> u8) \<Rightarrow> (nat \<Rightarrow> u8) \<Rightarrow> nat \<Rightarrow> (int + image) option" where
  "tga_decode avail pal0 junk d n =
     (if n < 18 then Some (Inl IMG_ERR_TRUNCATED)
      else let idlen = unat (d 0); cmaptype = d 1; cmaplen = le16 d 5; w = le16 d 12; h = le16 d 14;
               bpp = unat (d 16); desc = d 17
      in case size_error w h of Some e \<Rightarrow> Some (Inl e)
         | None \<Rightarrow>
           case tga_rle_type (d 2) of None \<Rightarrow> Some (Inl IMG_ERR_UNSUPPORTED)
           | Some rle \<Rightarrow>
             let p = 18 + idlen; esz = (if d 7 = 6 then 4 else 3)
             in if cmaptype = 1 \<and> p + cmaplen * esz > n then Some (Inl IMG_ERR_TRUNCATED)
                else let pal = (if cmaptype = 1 then tga_palette d p esz 0 (min cmaplen 256) pal0 else pal0);
                         p = (if cmaptype = 1 then p + cmaplen * esz else p)
                in if \<not> avail 0 (w * h * 4) then Some (Inl IMG_ERR_MEMORY)
                   else if bpp div 8 < 1 then Some (Inl IMG_ERR_UNSUPPORTED)
                   else let hdr = \<lparr>tg_w = w, tg_h = h, tg_bpp = bpp, tg_cmap = (cmaptype = 1), tg_rle = rle,
                              tg_topdown = (desc AND 0x20 \<noteq> 0), tg_rightleft = (desc AND 0x10 \<noteq> 0), tg_pal = pal\<rparr>
                     in map_option (\<lambda>px. Inr (finished w h 4 (bpp = 32) px)) (tga_loop junk hdr d n 0 p (\<lambda>_. 0xFF)))"

section \<open>PCX\<close>

fun pcx_put :: "nat \<Rightarrow> nat \<Rightarrow> u8 \<Rightarrow> nat \<Rightarrow> (nat \<Rightarrow> u8) \<Rightarrow> nat \<times> (nat \<Rightarrow> u8)" where
  "pcx_put 0 len v i raw = (i, raw)"
| "pcx_put (Suc cnt) len v i raw = (if i < len then pcx_put cnt len v (Suc i) (raw(i := v)) else (i, raw))"

function pcx_expand :: "(nat \<Rightarrow> u8) \<Rightarrow> nat \<Rightarrow> nat \<Rightarrow> nat \<Rightarrow> nat \<Rightarrow> (nat \<Rightarrow> u8) \<Rightarrow> int + (nat \<Rightarrow> u8)" where
  "pcx_expand d n len p i raw =
     (if i \<ge> len then Inr raw
      else if p \<ge> n then Inl IMG_ERR_TRUNCATED
      else let c = d p
        in if c AND 0xC0 \<noteq> 0 then
             if p + 1 \<ge> n then Inl IMG_ERR_TRUNCATED
             else let r = pcx_put (unat (c AND 0x3F)) len (d (p + 1)) i raw in pcx_expand d n len (p + 2) (fst r) (snd r)
           else pcx_expand d n len (p + 1) (i + 1) (raw(i := c)))"
  by pat_completeness auto
termination
  by (relation "measure (\<lambda>(d, n, len, p, i, raw). n - p)") auto

declare pcx_expand.simps [simp del]

definition grey_palette :: "nat \<Rightarrow> u8" where
  "grey_palette i = of_nat (i div 3)"

definition pcx_palette :: "(nat \<Rightarrow> u8) \<Rightarrow> nat \<Rightarrow> nat \<Rightarrow> u8" where
  "pcx_palette d n = (if n \<ge> 769 \<and> d (n - 769) = 0x0C then (\<lambda>i. d (n - 768 + i)) else grey_palette)"

text \<open>The offset in a line, and the value, of the index of a pixel with \<open>bpp\<close> bits.\<close>

definition pcx_byte :: "nat \<Rightarrow> nat \<Rightarrow> nat" where
  "pcx_byte bpp x = (if bpp = 1 then x div 8 else if bpp = 2 then x div 4 else if bpp = 4 then x div 2 else x)"

definition pcx_index :: "nat \<Rightarrow> nat \<Rightarrow> u8 \<Rightarrow> nat" where
  "pcx_index bpp x b =
     unat (if bpp = 1 then drop_bit (7 - x mod 8) b AND 1
           else if bpp = 2 then drop_bit (6 - x mod 4 * 2) b AND 3
           else if bpp = 4 then drop_bit (if x mod 2 = 1 then 0 else 4) b AND 0xF else b)"

definition pcx_pixel :: "(nat \<Rightarrow> u8) \<Rightarrow> (nat \<Rightarrow> u8) \<Rightarrow> nat \<Rightarrow> nat \<Rightarrow> nat \<Rightarrow> nat \<Rightarrow> u8 list" where
  "pcx_pixel pal raw stride bpp y x =
     bytes_at pal (pcx_index bpp x (raw (y * stride + pcx_byte bpp x)) * 3) 3"

definition pcx_true_colour ::
  "(nat \<Rightarrow> nat \<Rightarrow> bool) \<Rightarrow> (nat \<Rightarrow> nat \<Rightarrow> u8) \<Rightarrow> (nat \<Rightarrow> u8) \<Rightarrow> nat \<Rightarrow> nat \<Rightarrow> nat \<Rightarrow> int + image" where
  "pcx_true_colour avail fresh d n w h =
     (let row_bytes = (w * 3 + 1) div 2 * 2
      in if (row_bytes + 1) * h > n then Inl IMG_ERR_TRUNCATED
         else if \<not> avail 0 (row_bytes * h) then Inl IMG_ERR_MEMORY
         else case pcx_expand d n (row_bytes * h) 128 0 (fresh 0) of Inl e \<Rightarrow> Inl e
           | Inr raw \<Rightarrow>
               if \<not> avail 1 (w * h * 3) then Inl IMG_ERR_MEMORY
               else Inr (finished w h 3 False (raster w 3 (\<lambda>y x. bytes_at raw (y * row_bytes + x * 3) 3) 0 h (fresh 1))))"

text \<open>
  The lines of the other depths are \<open>(w + 7) / 8\<close> bytes whatever the depth; the last access of the loop
  over pixels is the highest one.
\<close>

definition pcx_indexed ::
  "(nat \<Rightarrow> nat \<Rightarrow> bool) \<Rightarrow> (nat \<Rightarrow> nat \<Rightarrow> u8) \<Rightarrow> (nat \<Rightarrow> u8) \<Rightarrow> nat \<Rightarrow> nat \<Rightarrow> nat \<Rightarrow> nat \<Rightarrow> (int + image) option" where
  "pcx_indexed avail fresh d n w h bpp =
     (let stride = (w + 7) div 8
      in if (stride + 1) * h > n then Some (Inl IMG_ERR_TRUNCATED)
         else if \<not> avail 0 (stride * h) then Some (Inl IMG_ERR_MEMORY)
         else case pcx_expand d n (stride * h) 128 0 (fresh 0) of Inl e \<Rightarrow> Some (Inl e)
           | Inr raw \<Rightarrow>
               if \<not> avail 1 (w * h * 3) then Some (Inl IMG_ERR_MEMORY)
               else if (h - 1) * stride + pcx_byte bpp (w - 1) \<ge> stride * h then None
               else Some (Inr (finished w h 3 False
                      (raster w 3 (pcx_pixel (pcx_palette d n) raw stride bpp) 0 h (fresh 1)))))"

definition pcx_decode ::
  "(nat \<Rightarrow> nat \<Rightarrow> bool) \<Rightarrow> (nat \<Rightarrow> nat \<Rightarrow> u8) \<Rightarrow> (nat \<Rightarrow> u8) \<Rightarrow> nat \<Rightarrow> (int + image) option" where
  "pcx_decode avail fresh d n =
     (if n < 128 then Some (Inl IMG_ERR_TRUNCATED)
      else if d 0 \<noteq> 0x0A then Some (Inl IMG_ERR_FORMAT)
      else let bpp = unat (d 3); w = (le16 d 8 + 2 ^ 32 - le16 d 4 + 1) mod 2 ^ 32;
               h = (le16 d 10 + 2 ^ 32 - le16 d 6 + 1) mod 2 ^ 32
      in if d 2 \<noteq> 1 then Some (Inl IMG_ERR_UNSUPPORTED)
         else case size_error w h of Some e \<Rightarrow> Some (Inl e)
           | None \<Rightarrow>
               if bpp = 8 \<and> d 65 = 3 then Some (pcx_true_colour avail fresh d n w h)
               else if bpp \<noteq> 1 \<and> bpp \<noteq> 2 \<and> bpp \<noteq> 4 \<and> bpp \<noteq> 8 then Some (Inl IMG_ERR_UNSUPPORTED)
               else if d 65 \<noteq> 1 then Some (Inl IMG_ERR_UNSUPPORTED)
               else pcx_indexed avail fresh d n w h bpp)"

end
