(* ===== verification/TgaSpec.thy ===== *)
theory TgaSpec
  imports Tga
begin

text \<open>
  Properties of the TGA and PCX decoders: raw TGA data is placed exactly, in all four orientations; raw
  true-colour files of the standard type are taken for packed ones; a PCX file with eight bits for a pixel never
  yields an image, nor does one that compression has made shorter than its lines.
\<close>

section \<open>Raw data\<close>

lemma tga_place_eq:
  assumes "j < tg_w hdr * tg_h hdr" "k < tg_w hdr * tg_h hdr" "tga_place hdr j = tga_place hdr k"
  shows "j = k"
proof -
  define w h where "w = tg_w hdr" and "h = tg_h hdr"
  have "0 < w" using assms(1) by (cases "w = 0") (simp_all add: w_def)
  then have pos: "0 < w" "j div w < h" "k div w < h" "j mod w < w" "k mod w < w"
    using assms(1,2) by (simp_all add: w_def h_def less_mult_imp_div_less mult.commute)
  define row where "row = (\<lambda>i. if tg_topdown hdr then i div w else h - 1 - i div w)"
  define col where "col = (\<lambda>i. if tg_rightleft hdr then w - 1 - i mod w else i mod w)"
  have place: "tga_place hdr i = (row i * w + col i) * 4" for i
    by (simp add: tga_place_def row_def col_def w_def h_def Let_def)
  have "col j < w" "col k < w" using pos by (auto simp: col_def)
  moreover have "row j * w + col j = row k * w + col k" using assms(3) by (simp add: place)
  ultimately have "row j = row k" "col j = col k"
    by (metis add.commute add_right_cancel div_mult_self3 div_less mod_less mod_mult_self3 pos(1) add_0 less_not_refl2)+
  moreover have flip: "a = b" if "a < m" "b < m" "m - 1 - a = m - 1 - b" for a b m :: nat using that by linarith
  ultimately have "j div w = k div w" "j mod w = k mod w"
    using flip [OF pos(2,3)] flip [OF pos(4,5)] unfolding row_def col_def by presburger+
  then show "j = k" by (metis div_mult_mod_eq)
qed

lemma place_apart:
  assumes "j < tg_w hdr * tg_h hdr" "k < tg_w hdr * tg_h hdr" "c < 4" "length bs = 4"
  shows "put_bytes px (tga_place hdr k) bs (tga_place hdr j + c) = (if j = k then bs ! c else px (tga_place hdr j + c))"
proof (cases "j = k")
  case False
  then have "tga_place hdr j \<noteq> tga_place hdr k" using tga_place_eq assms by blast
  moreover have "4 dvd tga_place hdr j" "4 dvd tga_place hdr k" by (simp_all add: tga_place_def Let_def)
  ultimately have "tga_place hdr j + c < tga_place hdr k \<or> tga_place hdr k + 4 \<le> tga_place hdr j + c"
    using assms(3) by (elim dvdE) auto
  then show ?thesis using False assms(4) by (auto simp: put_bytes_outside)
qed (use assms in \<open>simp add: put_bytes_inside\<close>)

lemma tga_samples_length [simp]: "length (tga_samples hdr d p) = 4"
  by (simp add: tga_samples_def Let_def)

lemma raw_loop:
  assumes "\<not> tg_rle hdr" "p + (tg_w hdr * tg_h hdr - k) * (tg_bpp hdr div 8) \<le> n"
  shows "\<exists>px'. tga_loop junk hdr d n k p px = Some px' \<and>
    (\<forall>j < tg_w hdr * tg_h hdr. \<forall>c < 4. px' (tga_place hdr j + c) =
       (if k \<le> j then tga_samples hdr d (p + (j - k) * (tg_bpp hdr div 8)) ! c else px (tga_place hdr j + c)))"
  using assms(2)
proof (induction "tg_w hdr * tg_h hdr - k" arbitrary: k p px)
  case 0
  then show ?case by (auto simp: tga_loop.simps [of junk hdr])
next
  case (Suc m)
  let ?sb = "tg_bpp hdr div 8" and ?px = "put_bytes px (tga_place hdr k) (tga_samples hdr d p)"
  have k: "k < tg_w hdr * tg_h hdr" "m = tg_w hdr * tg_h hdr - Suc k" using Suc(2) by simp_all
  have step: "tga_loop junk hdr d n k p px = tga_loop junk hdr d n (Suc k) (p + ?sb) ?px"
    using assms(1) k(1) Suc(3) by (subst tga_loop.simps) (simp flip: Suc(2))
  have "p + ?sb + (tg_w hdr * tg_h hdr - Suc k) * ?sb \<le> n" using Suc(3) by (simp flip: Suc(2) k(2))
  from Suc(1) [OF k(2) this, of ?px] obtain px' where px': "tga_loop junk hdr d n k p px = Some px'"
    and at: "\<And>j c. j < tg_w hdr * tg_h hdr \<Longrightarrow> c < 4 \<Longrightarrow> px' (tga_place hdr j + c) =
      (if Suc k \<le> j then tga_samples hdr d (p + ?sb + (j - Suc k) * ?sb) ! c else ?px (tga_place hdr j + c))"
    unfolding step by blast
  have "px' (tga_place hdr j + c) = (if k \<le> j then tga_samples hdr d (p + (j - k) * ?sb) ! c else px (tga_place hdr j + c))"
    if "j < tg_w hdr * tg_h hdr" "c < 4" for j c
  proof (cases "Suc k \<le> j")
    case True
    then have "j - k = Suc (j - Suc k)" by simp
    then show ?thesis using at [OF that] True by (simp add: add.assoc)
  qed (use at [OF that] place_apart [OF that(1) k(1) that(2)] in auto)
  then show ?case using px' by blast
qed

text \<open>The header of a raw file without palette, whose pixels all lie within the file.\<close>

definition tga_raw_file :: "(nat \<Rightarrow> u8) \<Rightarrow> nat \<Rightarrow> nat \<Rightarrow> nat \<Rightarrow> nat \<Rightarrow> bool" where
  "tga_raw_file d n w h bpp \<longleftrightarrow> n \<ge> 18 \<and> le16 d 12 = w \<and> le16 d 14 = h \<and> size_error w h = None \<and>
     d 2 \<in> {1, 3, 9} \<and> d 1 = 0 \<and> unat (d 16) = bpp \<and> bpp \<in> {24, 32} \<and> 18 + unat (d 0) + w * h * (bpp div 8) \<le> n"

text \<open>
  Raw true-colour data is decoded exactly: the pixel in column \<open>x\<close> of row \<open>y\<close> of the file is stored, as
  red, green, blue and alpha, in the row and column that the two orientation bits of the descriptor give.
\<close>

theorem tga_raw_exact:
  assumes raw_file: "tga_raw_file d n w h bpp" and mem: "avail 0 (w * h * 4)"
  shows "\<exists>px. tga_decode avail pal0 junk d n = Some (Inr (finished w h 4 (bpp = 32) px)) \<and>
    (\<forall>y < h. \<forall>x < w. let p = 18 + unat (d 0) + (y * w + x) * (bpp div 8);
         row = (if d 17 AND 0x20 \<noteq> 0 then y else h - 1 - y); col = (if d 17 AND 0x10 \<noteq> 0 then w - 1 - x else x)
       in \<forall>c < 4. px ((row * w + col) * 4 + c) = [d (p + 2), d (p + 1), d p, if bpp = 32 then d (p + 3) else 0xFF] ! c)"
proof -
  define hdr where "hdr = \<lparr>tg_w = w, tg_h = h, tg_bpp = bpp, tg_cmap = False, tg_rle = False,
    tg_topdown = (d 17 AND 0x20 \<noteq> 0), tg_rightleft = (d 17 AND 0x10 \<noteq> 0), tg_pal = pal0\<rparr>"
  note f = raw_file [unfolded tga_raw_file_def]
  have dec: "tga_decode avail pal0 junk d n =
      map_option (\<lambda>px. Inr (finished w h 4 (bpp = 32) px)) (tga_loop junk hdr d n 0 (18 + unat (d 0)) (\<lambda>_. 0xFF))"
    using f mem by (auto simp: tga_decode_def Let_def hdr_def tga_rle_type_def)
  have "\<not> tg_rle hdr" "18 + unat (d 0) + (tg_w hdr * tg_h hdr - 0) * (tg_bpp hdr div 8) \<le> n"
    using f by (simp_all add: hdr_def)
  from raw_loop [OF this, where junk = junk and d = d and px = "\<lambda>_. 0xFF"] obtain px where
    px: "tga_loop junk hdr d n 0 (18 + unat (d 0)) (\<lambda>_. 0xFF) = Some px" and
    at: "\<And>j c. j < w * h \<Longrightarrow> c < 4 \<Longrightarrow>
      px (tga_place hdr j + c) = tga_samples hdr d (18 + unat (d 0) + j * (bpp div 8)) ! c"
    by (auto simp: hdr_def)
  have samples: "tga_samples hdr d p = [d (p + 2), d (p + 1), d p, if bpp = 32 then d (p + 3) else 0xFF]" for p
    using f by (auto simp: tga_samples_def hdr_def)
  have "px (((if d 17 AND 0x20 \<noteq> 0 then y else h - 1 - y) * w + (if d 17 AND 0x10 \<noteq> 0 then w - 1 - x else x)) * 4 + c) =
      tga_samples hdr d (18 + unat (d 0) + (y * w + x) * (bpp div 8)) ! c" if "y < h" "x < w" "c < 4" for x y c
  proof -
    have "Suc y * w \<le> h * w" using that(1) by (intro mult_le_mono1) simp
    then have "y * w + x < w * h" using that(2) by (simp add: mult.commute)
    moreover have "tga_place hdr (y * w + x) = ((if d 17 AND 0x20 \<noteq> 0 then y else h - 1 - y) * w +
        (if d 17 AND 0x10 \<noteq> 0 then w - 1 - x else x)) * 4"
      using that(2) by (simp add: tga_place_def hdr_def Let_def)
    ultimately show ?thesis using at [of "y * w + x" c] that(3) by simp
  qed
  then show ?thesis unfolding dec px by (auto simp: Let_def samples)
qed

lemma tga_raw_exact_witness:
  "\<exists>px. tga_decode (\<lambda>_ _. True) (\<lambda>_. 0) (\<lambda>_. 0) ((!) [0, 0, 3, 0, 0, 0, 0, 0, 0, 0, 0, 0, 1, 0, 2, 0, 24, 0, 10, 20, 30, 40, 50, 60]) 24
     = Some (Inr (finished 1 2 4 False px)) \<and> px 0 = 60 \<and> px 4 = 30"
proof -
  let ?d = "(!) [0, 0, 3, 0, 0, 0, 0, 0, 0, 0, 0, 0, 1, 0, 2, 0, 24, 0, 10, 20, 30, 40, 50, 60 :: u8]"
  have "tga_raw_file ?d 24 1 2 24" by (simp add: tga_raw_file_def le16_def size_error_def img_consts)
  from tga_raw_exact [OF this, of "\<lambda>_ _. True" "\<lambda>_. 0" "\<lambda>_. 0"] obtain px where
    px: "tga_decode (\<lambda>_ _. True) (\<lambda>_. 0) (\<lambda>_. 0) ?d 24 = Some (Inr (finished 1 2 4 False px))"
    and at: "\<And>y x c. y < 2 \<Longrightarrow> x < 1 \<Longrightarrow> c < 4 \<Longrightarrow> px (((1 - y) * 1 + x) * 4 + c) =
      [?d (18 + (y * 1 + x) * 3 + 2), ?d (18 + (y * 1 + x) * 3 + 1), ?d (18 + (y * 1 + x) * 3), 0xFF] ! c"
    by (auto simp: Let_def)
  from at [of 0 0 0] at [of 1 0 0] have "px 4 = 30" "px 0 = 60" by simp_all
  with px show ?thesis by blast
qed

section \<open>Files of the standard type\<close>

text \<open>
  Image type 2, raw true colour in the format's description, is taken for run-length
  packets.  A file of one such pixel whose blue is 0x80 or more comes out white, whatever its colour: the blue byte is
  read as the head of a packet whose pixel would lie beyond the file.
\<close>

theorem tga_type_2_lost:
  assumes "n = 21" "d 0 = 0" "d 1 = 0" "d 2 = 2" "le16 d 12 = 1" "le16 d 14 = 1" "d 16 = 24"
    and "d 18 AND 0x80 \<noteq> 0" "avail 0 4"
  shows "tga_decode avail pal0 junk d n = Some (Inr (finished 1 1 4 False (\<lambda>_. 0xFF)))"
  using assms by (simp add: tga_decode_def size_error_def img_consts tga_rle_type_def Let_def tga_loop.simps)

lemma tga_type_2_lost_witness:
  "tga_decode (\<lambda>_ _. True) (\<lambda>_. 0) (\<lambda>_. 0) ((!) [0, 0, 2, 0, 0, 0, 0, 0, 0, 0, 0, 0, 1, 0, 1, 0, 24, 0, 0xC0, 0, 0]) 21 =
     Some (Inr (finished 1 1 4 False (\<lambda>_. 0xFF)))"
  by (rule tga_type_2_lost) (simp_all add: le16_def)

section \<open>PCX\<close>

lemma pcx_indexed_8:
  assumes "2 \<le> w" "0 < h"
  shows "pcx_indexed avail fresh d n w h 8 \<noteq> Some (Inr img)"
proof -
  obtain k where k: "h = Suc k" using assms(2) by (cases h) auto
  have "(w + 7) div 8 \<le> w - 1" using assms(1) by linarith
  then have "(w + 7) div 8 * h \<le> (h - 1) * ((w + 7) div 8) + pcx_byte 8 (w - 1)" by (simp add: k pcx_byte_def)
  then show ?thesis by (auto simp: pcx_indexed_def Let_def split: sum.split)
qed

text \<open>
  A PCX file with eight bits for a pixel, and one plane, never yields an image when it is wider than one pixel: a
  line is taken to have \<open>(w + 7) / 8\<close> bytes, so the loop over its pixels leaves the expanded lines.  The result is an
  error or an access beyond the buffer.
\<close>

theorem pcx_eight_bit_fails:
  assumes "d 3 = 8" "d 65 = 1" "le16 d 4 < le16 d 8"
  shows "pcx_decode avail fresh d n \<noteq> Some (Inr img)"
proof -
  have l: "le16 d i < 2 ^ LENGTH(32)" for i unfolding le16_def by (rule unsigned_less)
  have w: "(le16 d 8 + 2 ^ 32 - le16 d 4 + 1) mod 2 ^ 32 \<noteq> 1" (is "?w \<noteq> 1")
  proof -
    have "(le16 d 8 + 2 ^ 32 - le16 d 4 + 1) = (le16 d 8 - le16 d 4 + 1) + 2 ^ 32" using assms(3) by simp
    then have "?w = (le16 d 8 - le16 d 4 + 1) mod 2 ^ 32" by (simp only: mod_add_self2)
    then show ?thesis using l [of 8] assms(3) by (cases "le16 d 8 - le16 d 4 + 1 = 2 ^ 32") auto
  qed
  define w h where "w = ?w" and "h = (le16 d 10 + 2 ^ 32 - le16 d 6 + 1) mod 2 ^ 32"
  have "w \<noteq> 1" unfolding w_def by (rule w)
  then have "2 \<le> w" "0 < h" if "size_error w h = None" using that by (auto simp: size_error_def split: if_splits)
  moreover have "size_error w h = None \<and> pcx_indexed avail fresh d n w h 8 = Some (Inr img)"
    if "pcx_decode avail fresh d n = Some (Inr img)" using that
    using assms(1,2) by (simp add: pcx_decode_def Let_def w_def h_def split: if_splits option.splits)
  ultimately show ?thesis by (metis pcx_indexed_8)
qed

lemma pcx_eight_bit_fails_witness:
  "pcx_decode (\<lambda>_ _. True) (\<lambda>_ _. 0) (\<lambda>i. if i = 0 then 0x0A else if i = 2 \<or> i = 8 \<or> i = 65 then 1 else if i = 3 then 8 else 0) 200
     \<noteq> Some (Inr no_image)"
  by (rule pcx_eight_bit_fails) (simp_all add: le16_def)

end
