(* ===== verification/Bmp.thy ===== *)
theory Bmp
  imports Tga
begin

text \<open>
  The bitmap decoder of kernel/bmp.c.  Header fields are unsigned of 32 bits, so the sums of the code that stay in
  that type are reduced; \<^term>\<open>None\<close> is the negation of the least int.  Palette entries
  that the file does not give hold what the stack did, the parameter \<open>pal0\<close>.
\<close>

definition le32 :: "(nat \<Rightarrow> u8) \<Rightarrow> nat \<Rightarrow> nat" where
  "le32 d i = unat ((ucast (d i) OR push_bit 8 (ucast (d (i + 1))) OR push_bit 16 (ucast (d (i + 2))) OR
     push_bit 24 (ucast (d (i + 3)))) :: u32)"

record bmp_hdr =
  bm_w :: nat
  bm_h :: nat
  bm_bpp :: nat
  bm_compression :: nat
  bm_clr_used :: nat
  bm_topdown :: bool
  bm_size :: nat

text \<open>Reading the header, up to the checks of the size.\<close>

definition bmp_header :: "(nat \<Rightarrow> u8) \<Rightarrow> nat \<Rightarrow> (int + bmp_hdr) option" where
  "bmp_header d n =
     (let hs = le32 d 14
      in if hs < 12 then Some (Inl IMG_ERR_CORRUPT)
         else if hs = 12 then
           if le16 d 22 \<noteq> 1 then Some (Inl IMG_ERR_CORRUPT)
           else Some (Inr \<lparr>bm_w = le16 d 18, bm_h = le16 d 20, bm_bpp = le16 d 24, bm_compression = 0, bm_clr_used = 0,
                  bm_topdown = False, bm_size = hs\<rparr>)
         else if hs < 40 \<or> n < (14 + hs) mod 2 ^ 32 then Some (Inl IMG_ERR_TRUNCATED)
         else let sh = le32 d 22; compression = le32 d 30
           in if sh = 2 ^ 31 then None
              else if hs \<ge> 52 \<and> (compression = 3 \<or> compression = 6) then Some (Inl IMG_ERR_UNSUPPORTED)
              else Some (Inr \<lparr>bm_w = le32 d 18, bm_h = (if sh > 2 ^ 31 then 2 ^ 32 - sh else sh), bm_bpp = le16 d 28,
                     bm_compression = (if hs = 64 \<or> hs = 108 \<or> hs = 124 then 3 else compression),
                     bm_clr_used = le32 d 46, bm_topdown = (sh > 2 ^ 31), bm_size = hs\<rparr>))"

definition bmp_entry :: "(nat \<Rightarrow> u8) \<Rightarrow> nat \<Rightarrow> u8 list" where
  "bmp_entry d p = [d (p + 2), d (p + 1), d p, 0xFF]"

fun bmp_palette :: "(nat \<Rightarrow> u8) \<Rightarrow> nat \<Rightarrow> nat \<Rightarrow> nat \<Rightarrow> nat \<Rightarrow> (nat \<Rightarrow> u8) \<Rightarrow> nat \<Rightarrow> u8" where
  "bmp_palette d off esz i 0 pal = pal"
| "bmp_palette d off esz i (Suc k) pal =
     bmp_palette d off esz (Suc i) k (put_bytes pal (i * 4) (bmp_entry d (off + i * esz)))"

definition pal_rgb :: "(nat \<Rightarrow> u8) \<Rightarrow> nat \<Rightarrow> u8 list" where
  "pal_rgb pal idx = [pal (idx * 4), pal (idx * 4 + 1), pal (idx * 4 + 2)]"

definition bmp_row_at :: "bmp_hdr \<Rightarrow> nat \<Rightarrow> nat" where
  "bmp_row_at b y = (if bm_topdown b then y else bm_h b - 1 - y)"

section \<open>Packed data\<close>

text \<open>One pixel of a packet: nothing is stored to the right of the image.\<close>

definition bmp_dot :: "bmp_hdr \<Rightarrow> (nat \<Rightarrow> u8) \<Rightarrow> nat \<Rightarrow> nat \<Rightarrow> nat \<Rightarrow> (nat \<Rightarrow> u8) \<Rightarrow> nat \<Rightarrow> u8" where
  "bmp_dot b pal idx x y px =
     (if x < bm_w b then put_bytes px ((bmp_row_at b y * bm_w b + x) * 3) (pal_rgb pal idx) else px)"

definition nibble :: "nat \<Rightarrow> u8 \<Rightarrow> u8" where
  "nibble k v = (if k mod 2 = 1 then v AND 0x0F else drop_bit 4 v)"

fun bmp_run :: "bmp_hdr \<Rightarrow> (nat \<Rightarrow> u8) \<Rightarrow> u8 \<Rightarrow> nat \<Rightarrow> nat \<Rightarrow> nat \<Rightarrow> nat \<Rightarrow> (nat \<Rightarrow> u8) \<Rightarrow> nat \<times> (nat \<Rightarrow> u8)" where
  "bmp_run b pal v i 0 x y px = (x, px)"
| "bmp_run b pal v i (Suc k) x y px =
     bmp_run b pal v (Suc i) k (Suc x) y (bmp_dot b pal (unat (if bm_bpp b = 8 then v else nibble i v)) x y px)"

fun bmp_absolute ::
  "bmp_hdr \<Rightarrow> (nat \<Rightarrow> u8) \<Rightarrow> (nat \<Rightarrow> u8) \<Rightarrow> nat \<Rightarrow> nat \<Rightarrow> nat \<Rightarrow> nat \<Rightarrow> nat \<Rightarrow> (nat \<Rightarrow> u8) \<Rightarrow> nat \<times> (nat \<Rightarrow> u8)" where
  "bmp_absolute b pal d p i 0 x y px = (x, px)"
| "bmp_absolute b pal d p i (Suc k) x y px =
     (if x \<ge> bm_w b then (x, px)
      else bmp_absolute b pal d p (Suc i) k (Suc x) y
             (bmp_dot b pal (unat (if bm_bpp b = 8 then d (p + i) else nibble i (d (p + i div 2)))) x y px))"

function bmp_rle ::
  "bmp_hdr \<Rightarrow> (nat \<Rightarrow> u8) \<Rightarrow> (nat \<Rightarrow> u8) \<Rightarrow> nat \<Rightarrow> nat \<Rightarrow> nat \<Rightarrow> nat \<Rightarrow> bool \<Rightarrow> (nat \<Rightarrow> u8) \<Rightarrow> nat \<Rightarrow> u8" where
  "bmp_rle b pal d n p x y pad px =
     (if p + 1 \<ge> n then px
      else let count = unat (d p); v = d (p + 1); p = p + 2
      in if count > 0 then
           let r = bmp_run b pal v 0 count x y px
           in if y \<ge> bm_h b then snd r else bmp_rle b pal d n p (fst r) y pad (snd r)
         else if v = 0 then
           if y + 1 \<ge> bm_h b then px
           else bmp_rle b pal d n (if \<not> pad \<and> p < n then p + 1 else p) 0 (y + 1) (\<not> pad) px
         else if v = 1 then px
         else if v = 2 then
           if p + 1 \<ge> n then px
           else if y + unat (d (p + 1)) \<ge> bm_h b then px
           else bmp_rle b pal d n (p + 2) (x + unat (d p)) (y + unat (d (p + 1))) pad px
         else let c = unat v; bytes = (if bm_bpp b = 8 then c else (c + 1) div 2)
           in if p + bytes > n then px
              else let r = bmp_absolute b pal d p 0 c x y px; q = p + bytes
                in if y \<ge> bm_h b then snd r
                   else bmp_rle b pal d n (if q mod 2 = 1 then q + 1 else q) (fst r) y pad (snd r))"
  by pat_completeness auto
termination
  by (relation "measure (\<lambda>(b, pal, d, n, p, x, y, pad, px). n - p)") (auto intro: diff_less_mono2)

declare bmp_rle.simps [simp del]

section \<open>Uncompressed data\<close>

definition bmp_sample :: "nat \<Rightarrow> (nat \<Rightarrow> u8) \<Rightarrow> (nat \<Rightarrow> u8) \<Rightarrow> nat \<Rightarrow> nat \<Rightarrow> u8 list" where
  "bmp_sample bpp pal d base x =
     (let s = base + x * (bpp div 8)
      in if bpp = 1 then pal_rgb pal (unat (drop_bit (7 - x mod 8) (d (base + x div 8)) AND 1))
         else if bpp = 4 then pal_rgb pal (unat (drop_bit (if x mod 2 = 1 then 0 else 4) (d (base + x div 2)) AND 0xF))
         else if bpp = 8 then pal_rgb pal (unat (d s))
         else if bpp = 16 then let v = ucast (d s) OR push_bit 8 (ucast (d (s + 1)))
           in [five (drop_bit 10 v), five (drop_bit 5 v), five v]
         else [d (s + 2), d (s + 1), d s])"

fun bmp_rows ::
  "bmp_hdr \<Rightarrow> (nat \<Rightarrow> u8) \<Rightarrow> (nat \<Rightarrow> u8) \<Rightarrow> nat \<Rightarrow> nat \<Rightarrow> nat \<Rightarrow> nat \<Rightarrow> nat \<Rightarrow> (nat \<Rightarrow> u8) \<Rightarrow> nat \<Rightarrow> u8" where
  "bmp_rows b pal d n off row_size y 0 px = px"
| "bmp_rows b pal d n off row_size y (Suc k) px =
     (let base = off + y * row_size
      in if base + row_size > n \<and> base \<ge> n then px
         else bmp_rows b pal d n off row_size (Suc y) k
                (raster_row (bmp_row_at b y * bm_w b * 3) 3 (bmp_sample (bm_bpp b) pal d base) 0 (bm_w b) px))"

definition bmp_row_size :: "bmp_hdr \<Rightarrow> nat" where
  "bmp_row_size b = (bm_w b * bm_bpp b + 31) div 32 * 4"

section \<open>The decoder\<close>

text \<open>The part after the palette: the offset of the data, the buffer and the expansion.\<close>

definition bmp_body ::
  "(nat \<Rightarrow> nat \<Rightarrow> bool) \<Rightarrow> bmp_hdr \<Rightarrow> (nat \<Rightarrow> u8) \<Rightarrow> nat \<Rightarrow> (nat \<Rightarrow> u8) \<Rightarrow> nat \<Rightarrow> int + image" where
  "bmp_body avail b pal off d n =
     (let w = bm_w b; h = bm_h b
      in if off \<ge> n then Inl IMG_ERR_TRUNCATED
         else if \<not> avail 0 (w * h * 3) then Inl IMG_ERR_MEMORY
         else if bm_compression b = 1 \<or> bm_compression b = 2 then
           if bm_bpp b \<noteq> 8 \<and> bm_bpp b \<noteq> 4 then Inl IMG_ERR_UNSUPPORTED
           else Inr (finished w h 3 False (bmp_rle b pal d n off 0 0 False (\<lambda>_. 0)))
         else if bm_compression b = 0
         then Inr (finished w h 3 False (bmp_rows b pal d n off (bmp_row_size b) 0 h (\<lambda>_. 0)))
         else Inl IMG_ERR_UNSUPPORTED)"

definition bmp_decode ::
  "(nat \<Rightarrow> nat \<Rightarrow> bool) \<Rightarrow> (nat \<Rightarrow> u8) \<Rightarrow> (nat \<Rightarrow> u8) \<Rightarrow> nat \<Rightarrow> (int + image) option" where
  "bmp_decode avail pal0 d n =
     (if n < 14 then Some (Inl IMG_ERR_TRUNCATED)
      else if d 0 \<noteq> 0x42 \<or> d 1 \<noteq> 0x4D then Some (Inl IMG_ERR_FORMAT)
      else case bmp_header d n of None \<Rightarrow> None | Some (Inl e) \<Rightarrow> Some (Inl e)
      | Some (Inr b) \<Rightarrow>
          case size_error (bm_w b) (bm_h b) of Some e \<Rightarrow> Some (Inl e)
          | None \<Rightarrow>
              let pal_off = (14 + bm_size b) mod 2 ^ 32; data_off = le32 d 10
              in if bm_bpp b \<le> 8 then
                   let entries = (if bm_clr_used b \<noteq> 0 then bm_clr_used b else 2 ^ bm_bpp b);
                       esz = (if bm_size b = 12 then 3 else 4)
                   in if entries > 256 then Some (Inl IMG_ERR_CORRUPT)
                      else if pal_off + entries * esz > n then Some (Inl IMG_ERR_TRUNCATED)
                      else Some (bmp_body avail b (bmp_palette d pal_off esz 0 entries pal0)
                             (if data_off = 0 then (pal_off + entries * 4) mod 2 ^ 32 else data_off) d n)
                 else Some (bmp_body avail b pal0 (if data_off = 0 then pal_off else data_off) d n))"

end
