(* ===== verification/BmpSpec.thy ===== *)
theory BmpSpec
  imports Bmp
begin

text \<open>
  Properties of the bitmap decoder: uncompressed pixels are placed exactly, whatever the depth and the
  direction of the rows, and a packed bitmap loses its place at the end of a line.
\<close>

lemma bmp_sample_length [simp]: "length (bmp_sample bpp pal d base x) = 3"
  by (simp add: bmp_sample_def pal_rgb_def Let_def)

lemma rows_at:
  assumes "off + bm_h b * row_size \<le> n" "0 < row_size" "y0 + k \<le> bm_h b" "j < bm_h b" "x < bm_w b" "c < 3"
  shows "bmp_rows b pal d n off row_size y0 k px ((bmp_row_at b j * bm_w b + x) * 3 + c) =
    (if y0 \<le> j \<and> j < y0 + k then bmp_sample (bm_bpp b) pal d (off + j * row_size) x ! c
     else px ((bmp_row_at b j * bm_w b + x) * 3 + c))"
  using assms(3)
proof (induction k arbitrary: y0 px)
  case (Suc k)
  have "Suc y0 * row_size \<le> bm_h b * row_size" using Suc.prems by (intro mult_le_mono1) simp
  then have "\<not> (off + y0 * row_size + row_size > n \<and> off + y0 * row_size \<ge> n)" using assms(1,2) by simp
  moreover have "bmp_row_at b j = bmp_row_at b y0 \<longleftrightarrow> j = y0"
    using assms(4) Suc.prems by (auto simp: bmp_row_at_def)
  moreover have "Suc y0 \<le> j \<and> j < Suc y0 + k \<or> j = y0 \<longleftrightarrow> y0 \<le> j \<and> j < y0 + Suc k" by linarith
  ultimately show ?case
    using Suc.IH [of "Suc y0"] Suc.prems one_row [OF bmp_sample_length assms(5,6)] by (auto simp: Let_def)
qed auto

text \<open>An uncompressed file of 24 or 32 bits, with the offset of its data, whose rows lie within it.\<close>

definition bmp_plain_file :: "(nat \<Rightarrow> u8) \<Rightarrow> nat \<Rightarrow> bmp_hdr \<Rightarrow> nat \<Rightarrow> bool" where
  "bmp_plain_file d n b off \<longleftrightarrow> n \<ge> 14 \<and> d 0 = 0x42 \<and> d 1 = 0x4D \<and> bmp_header d n = Some (Inr b) \<and>
     size_error (bm_w b) (bm_h b) = None \<and> bm_compression b = 0 \<and> bm_bpp b \<in> {24, 32} \<and>
     off = (if le32 d 10 = 0 then (14 + bm_size b) mod 2 ^ 32 else le32 d 10) \<and> off + bm_h b * bmp_row_size b \<le> n"

text \<open>
  Uncompressed bitmaps are decoded exactly: the pixel in column \<open>x\<close> of row \<open>y\<close> of the file, counted from the
  bottom unless the height was negative, is stored with its red, green and blue; rows start at multiples of four
  bytes.
\<close>

theorem bmp_plain_exact:
  assumes plain: "bmp_plain_file d n b off" and mem: "avail 0 (bm_w b * bm_h b * 3)"
  shows "\<exists>px. bmp_decode avail pal0 d n = Some (Inr (finished (bm_w b) (bm_h b) 3 False px)) \<and>
    (\<forall>y < bm_h b. \<forall>x < bm_w b. let row = (if bm_topdown b then y else bm_h b - 1 - y);
         s = off + y * ((bm_w b * bm_bpp b + 31) div 32 * 4) + x * (bm_bpp b div 8)
       in \<forall>c < 3. px ((row * bm_w b + x) * 3 + c) = [d (s + 2), d (s + 1), d s] ! c)"
proof -
  note f = plain [unfolded bmp_plain_file_def]
  let ?px = "bmp_rows b pal0 d n off (bmp_row_size b) 0 (bm_h b) (\<lambda>_. 0)"
  have dims: "0 < bm_w b" "0 < bm_h b" using f by (auto simp: size_error_def split: if_splits)
  have "32 div 32 * 4 \<le> bmp_row_size b"
    unfolding bmp_row_size_def using f dims by (intro mult_le_mono1 div_le_mono) auto
  then have rs: "0 < bmp_row_size b" by simp
  then have "off < n" using f dims(2) by (cases "bm_h b") auto
  then have dec: "bmp_decode avail pal0 d n = Some (Inr (finished (bm_w b) (bm_h b) 3 False ?px))"
  proof -
    have off: "(if le32 d 10 = 0 then (14 + bm_size b) mod 2 ^ 32 else le32 d 10) = off" and "\<not> bm_bpp b \<le> 8"
        "\<not> n < 14" "d 0 = 0x42" "d 1 = 0x4D" "bmp_header d n = Some (Inr b)" "size_error (bm_w b) (bm_h b) = None"
        "bm_compression b = 0"
      using f by auto
    then show ?thesis using mem \<open>off < n\<close>
      using off by (cases "le32 d 10 = 0") (simp_all add: bmp_decode_def bmp_body_def Let_def)
  qed
  have "?px ((bmp_row_at b y * bm_w b + x) * 3 + c) = bmp_sample (bm_bpp b) pal0 d (off + y * bmp_row_size b) x ! c"
    if "y < bm_h b" "x < bm_w b" "c < 3" for x y c
    using rows_at [of off b "bmp_row_size b" n 0 "bm_h b" y x c] f rs that by simp
  moreover have "bmp_sample (bm_bpp b) pal0 d base x =
      [d (base + x * (bm_bpp b div 8) + 2), d (base + x * (bm_bpp b div 8) + 1), d (base + x * (bm_bpp b div 8))]" for base x
    using f by (auto simp: bmp_sample_def Let_def)
  ultimately show ?thesis unfolding dec
    by (intro exI [of _ ?px]) (auto simp: Let_def bmp_row_at_def bmp_row_size_def)
qed

text \<open>A bitmap of one column and two rows of 24 bits.\<close>

definition bmp_demo :: "nat \<Rightarrow> u8" where
  "bmp_demo = (!) ([0x42, 0x4D, 0, 0, 0, 0, 0, 0, 0, 0, 54, 0, 0, 0, 40, 0, 0, 0, 1, 0, 0, 0, 2, 0, 0, 0, 1, 0, 24, 0,
     0, 0, 0, 0, 0, 0, 0, 0, 0, 0, 0, 0, 0, 0, 0, 0, 0, 0, 0, 0, 0, 0, 0, 0, 10, 20, 30, 0, 40, 50, 60, 0])"

lemma bmp_plain_exact_witness:
  "\<exists>px. bmp_decode (\<lambda>_ _. True) (\<lambda>_. 0) bmp_demo 62 = Some (Inr (finished 1 2 3 False px)) \<and> px 0 = 60 \<and> px 3 = 30"
proof -
  let ?b = "\<lparr>bm_w = 1, bm_h = 2, bm_bpp = 24, bm_compression = 0, bm_clr_used = 0, bm_topdown = False, bm_size = 40\<rparr>"
  have "bmp_plain_file bmp_demo 62 ?b 54"
  proof -
    have "le32 bmp_demo 14 = 40" "le32 bmp_demo 10 = 54" "le32 bmp_demo 18 = 1" "le32 bmp_demo 22 = 2"
        "le32 bmp_demo 30 = 0" "le32 bmp_demo 46 = 0" "le16 bmp_demo 28 = 24" "bmp_demo 0 = 0x42" "bmp_demo 1 = 0x4D"
      by (simp_all add: bmp_demo_def le32_def le16_def)
    then show ?thesis by (simp add: bmp_plain_file_def bmp_header_def size_error_def img_consts bmp_row_size_def)
  qed
  from bmp_plain_exact [OF this, of "\<lambda>_ _. True" "\<lambda>_. 0"] obtain px where
    px: "bmp_decode (\<lambda>_ _. True) (\<lambda>_. 0) bmp_demo 62 = Some (Inr (finished 1 2 3 False px))"
    and at: "\<And>y x c. y < 2 \<Longrightarrow> x < 1 \<Longrightarrow> c < 3 \<Longrightarrow> px (((1 - y) * 1 + x) * 3 + c) =
      [bmp_demo (54 + y * 4 + x * 3 + 2), bmp_demo (54 + y * 4 + x * 3 + 1), bmp_demo (54 + y * 4 + x * 3)] ! c"
    by (auto simp: Let_def)
  from at [of 0 0 0] at [of 1 0 0] have "px 3 = 30" "px 0 = 60" by (simp_all add: bmp_demo_def)
  with px show ?thesis by blast
qed

section \<open>Packed bitmaps\<close>

text \<open>
  A packed bitmap loses its place at the end of the first line: the decoder skips a byte there, which the format
  does not have.  Two rows of one pixel each, both of colour 1, come out with the upper row in colour 0.
\<close>

theorem bmp_rle_line_lost:
  assumes "bm_w b = 1" "bm_h b = 2" "\<not> bm_topdown b" "bm_bpp b = 8"
    and "bytes_at d p 8 = [1, 1, 0, 0, 1, 1, 0, 1]"
  shows "let px = bmp_rle b pal d (p + 8) p 0 0 False (\<lambda>_. 0)
    in bytes_at px 3 3 = pal_rgb pal 1 \<and> bytes_at px 0 3 = pal_rgb pal 0"
proof -
  have d: "d p = 1" "d (Suc p) = 1" "d (Suc (Suc p)) = 0" "d (Suc (Suc (Suc p))) = 0" "d (5 + p) = 1" "d (6 + p) = 0"
    using assms(5) by (simp_all add: bytes_at_def upt_rec eval_nat_numeral)
  show ?thesis
    using assms(1-4) d
    by (simp add: bmp_rle.simps [of b] bmp_dot_def bmp_row_at_def put_bytes_def bytes_at_def pal_rgb_def upt_rec eval_nat_numeral)
qed

end
