(* ===== verification/Qoi.thy ===== *)
theory Qoi
  imports Raster
begin

text \<open>
  The QOI decoder of kernel/tga_pcx_qoi.c.  The file is a function from offsets to bytes with a
  length.  A pixel is the array \<open>cur\<close> of four samples; the loop over pixels carries the position in the file,
  the pending run, the current pixel, the table of 64 recent pixels and the output.
\<close>

type_synonym rgba = "u8 \<times> u8 \<times> u8 \<times> u8"

definition be32 :: "(nat \<Rightarrow> u8) \<Rightarrow> nat \<Rightarrow> nat" where
  "be32 d i = unat ((push_bit 24 (ucast (d i)) OR push_bit 16 (ucast (d (i + 1))) OR push_bit 8 (ucast (d (i + 2))) OR
     ucast (d (i + 3))) :: u32)"

definition QOI_OP_INDEX :: u8 where [img_consts]: "QOI_OP_INDEX = 0x00"
definition QOI_OP_DIFF :: u8 where [img_consts]: "QOI_OP_DIFF = 0x40"
definition QOI_OP_LUMA :: u8 where [img_consts]: "QOI_OP_LUMA = 0x80"
definition QOI_OP_RUN :: u8 where [img_consts]: "QOI_OP_RUN = 0xC0"
definition QOI_OP_RGB :: u8 where [img_consts]: "QOI_OP_RGB = 0xFE"
definition QOI_OP_RGBA :: u8 where [img_consts]: "QOI_OP_RGBA = 0xFF"
definition QOI_MASK :: u8 where [img_consts]: "QOI_MASK = 0x3F"

record qoi_st =
  q_pos :: nat
  q_run :: nat
  q_cur :: rgba
  q_index :: "nat \<Rightarrow> rgba"
  q_out :: "nat \<Rightarrow> u8"

definition qoi_hash :: "rgba \<Rightarrow> nat" where
  "qoi_hash = (\<lambda>(r, g, b, a). (unat r * 3 + unat g * 5 + unat b * 7 + unat a * 11) mod 64)"

definition px_bytes :: "rgba \<Rightarrow> u8 list" where
  "px_bytes = (\<lambda>(r, g, b, a). [r, g, b, a])"

text \<open>Reading one operation: the new position, run and pixel, or \<^term>\<open>None\<close> when the file ends.\<close>

definition qoi_op :: "(nat \<Rightarrow> u8) \<Rightarrow> nat \<Rightarrow> qoi_st \<Rightarrow> (nat \<times> nat \<times> rgba) option" where
  "qoi_op d n q =
     (if q_pos q \<ge> n then None
      else let b1 = d (q_pos q); p = q_pos q + 1; run = q_run q; (r, g, b, a) = q_cur q
      in if b1 = QOI_OP_RGB then if p + 3 > n then None else Some (p + 3, run, (d p, d (p + 1), d (p + 2), a))
         else if b1 = QOI_OP_RGBA then
           if p + 4 > n then None else Some (p + 4, run, (d p, d (p + 1), d (p + 2), d (p + 3)))
         else if b1 AND 0xC0 = QOI_OP_INDEX then Some (p, run, q_index q (unat (b1 AND QOI_MASK)))
         else if b1 AND 0xC0 = QOI_OP_DIFF then
           Some (p, run, (r + (drop_bit 4 b1 AND 3) - 2, g + (drop_bit 2 b1 AND 3) - 2, b + (b1 AND 3) - 2, a))
         else if b1 AND 0xC0 = QOI_OP_LUMA then
           if p \<ge> n then None
           else let b2 = d p; vg = (b1 AND 0x3F) - 32
             in Some (p + 1, run, (r + vg - 8 + (drop_bit 4 b2 AND 0x0F), g + vg, b + vg - 8 + (b2 AND 0x0F), a))
         else Some (p, unat (b1 AND 0x3F), (r, g, b, a)))"

definition qoi_pixel :: "(nat \<Rightarrow> u8) \<Rightarrow> nat \<Rightarrow> nat \<Rightarrow> qoi_st \<Rightarrow> qoi_st option" where
  "qoi_pixel d n count q =
     (case (if q_run q > 0 then Some (q\<lparr>q_run := q_run q - 1\<rparr>)
            else case qoi_op d n q of None \<Rightarrow> None
              | Some (p, run, cur) \<Rightarrow>
                  Some (q\<lparr>q_pos := p, q_run := run, q_cur := cur, q_index := (q_index q)(qoi_hash cur := cur)\<rparr>)) of
        None \<Rightarrow> None
      | Some q \<Rightarrow> Some (q\<lparr>q_out := put_bytes (q_out q) (count * 4) (px_bytes (q_cur q))\<rparr>))"

fun qoi_loop :: "(nat \<Rightarrow> u8) \<Rightarrow> nat \<Rightarrow> nat \<Rightarrow> nat \<Rightarrow> qoi_st \<Rightarrow> qoi_st option" where
  "qoi_loop d n count 0 q = Some q"
| "qoi_loop d n count (Suc k) q =
     (case qoi_pixel d n count q of None \<Rightarrow> None | Some q1 \<Rightarrow> qoi_loop d n (Suc count) k q1)"

definition qoi_start :: "(nat \<Rightarrow> u8) \<Rightarrow> qoi_st" where
  "qoi_start fresh = \<lparr>q_pos = 14, q_run = 0, q_cur = (0, 0, 0, 255), q_index = (\<lambda>_. (0, 0, 0, 0)), q_out = fresh\<rparr>"

definition qoi_decode :: "(nat \<Rightarrow> nat \<Rightarrow> bool) \<Rightarrow> (nat \<Rightarrow> u8) \<Rightarrow> (nat \<Rightarrow> u8) \<Rightarrow> nat \<Rightarrow> int + image" where
  "qoi_decode avail fresh d n =
     (if n < 14 then Inl IMG_ERR_TRUNCATED
      else if bytes_at d 0 4 \<noteq> [0x71, 0x6F, 0x69, 0x66] then Inl IMG_ERR_FORMAT
      else let w = be32 d 4; h = be32 d 8; channels = d 12
      in case size_error w h of Some e \<Rightarrow> Inl e
         | None \<Rightarrow>
             if channels \<noteq> 3 \<and> channels \<noteq> 4 then Inl IMG_ERR_FORMAT
             else if \<not> avail 0 (w * h * 4) then Inl IMG_ERR_MEMORY
             else case qoi_loop d n 0 (w * h) (qoi_start fresh) of
                 None \<Rightarrow> Inl IMG_ERR_TRUNCATED
               | Some q \<Rightarrow> Inr (finished w h 4 True (q_out q)))"

end
