(* ===== verification/Png.thy ===== *)
theory Png
  imports Qoi Inflate
begin

text \<open>
  The PNG decoder of kernel/png.c: the checksum, the chunks, the filters of a line, the interlaced passes and the
  writing of pixels; the data goes through \<open>zlib_inflate\<close> of kernel/inflate.c.  Lines are functions on
  offsets.  \<^term>\<open>None\<close> is a copy to a buffer that the heap refused or that is too small.
\<close>

section \<open>The checksum\<close>

fun crc_bits :: "nat \<Rightarrow> u32 \<Rightarrow> u32" where
  "crc_bits 0 c = c"
| "crc_bits (Suc k) c = crc_bits k (if c AND 1 \<noteq> 0 then 0xEDB88320 XOR drop_bit 1 c else drop_bit 1 c)"

definition png_crc_table :: "nat \<Rightarrow> u32" where
  "png_crc_table n = crc_bits 8 (of_nat n)"

fun crc_loop :: "u8 list \<Rightarrow> u32 \<Rightarrow> u32" where
  "crc_loop [] c = c"
| "crc_loop (b # bs) c = crc_loop bs (png_crc_table (unat ((c XOR ucast b) AND 0xFF)) XOR drop_bit 8 c)"

definition png_crc :: "u8 list \<Rightarrow> u32" where
  "png_crc buf = crc_loop buf 0xFFFFFFFF XOR 0xFFFFFFFF"

section \<open>The filters of a line\<close>

definition paeth :: "int \<Rightarrow> int \<Rightarrow> int \<Rightarrow> int" where
  "paeth a b c =
     (let p = a + b - c;
          pa = (if p > a then p - a else a - p);
          pb = (if p > b then p - b else b - p);
          pc = (if p > c then p - c else c - p)
      in if pa \<le> pb \<and> pa \<le> pc then a else if pb \<le> pc then b else c)"

text \<open>What filter \<open>flt\<close> adds to the byte at \<open>i\<close>; \<open>prev\<close> is the line above, if there is one.\<close>

definition left_of :: "(nat \<Rightarrow> u8) \<Rightarrow> nat \<Rightarrow> nat \<Rightarrow> int" where
  "left_of line bpp i = (if i \<ge> bpp then uint (line (i - bpp)) else 0)"

definition above :: "(nat \<Rightarrow> u8) option \<Rightarrow> nat \<Rightarrow> int" where
  "above prev i = (case prev of None \<Rightarrow> 0 | Some l \<Rightarrow> uint (l i))"

definition above_left :: "(nat \<Rightarrow> u8) option \<Rightarrow> nat \<Rightarrow> nat \<Rightarrow> int" where
  "above_left prev bpp i = (case prev of None \<Rightarrow> 0 | Some l \<Rightarrow> if i \<ge> bpp then uint (l (i - bpp)) else 0)"

fun sub_loop :: "nat \<Rightarrow> nat \<Rightarrow> nat \<Rightarrow> (nat \<Rightarrow> u8) \<Rightarrow> nat \<Rightarrow> u8" where
  "sub_loop bpp i 0 line = line"
| "sub_loop bpp i (Suc k) line = sub_loop bpp (Suc i) k (line(i := line i + line (i - bpp)))"

fun up_loop :: "(nat \<Rightarrow> u8) \<Rightarrow> nat \<Rightarrow> nat \<Rightarrow> (nat \<Rightarrow> u8) \<Rightarrow> nat \<Rightarrow> u8" where
  "up_loop prev i 0 line = line"
| "up_loop prev i (Suc k) line = up_loop prev (Suc i) k (line(i := line i + prev i))"

fun average_loop :: "(nat \<Rightarrow> u8) option \<Rightarrow> nat \<Rightarrow> nat \<Rightarrow> nat \<Rightarrow> (nat \<Rightarrow> u8) \<Rightarrow> nat \<Rightarrow> u8" where
  "average_loop prev bpp i 0 line = line"
| "average_loop prev bpp i (Suc k) line =
     average_loop prev bpp (Suc i) k (line(i := line i + of_int ((left_of line bpp i + above prev i) div 2)))"

fun paeth_loop :: "(nat \<Rightarrow> u8) option \<Rightarrow> nat \<Rightarrow> nat \<Rightarrow> nat \<Rightarrow> (nat \<Rightarrow> u8) \<Rightarrow> nat \<Rightarrow> u8" where
  "paeth_loop prev bpp i 0 line = line"
| "paeth_loop prev bpp i (Suc k) line =
     paeth_loop prev bpp (Suc i) k
       (line(i := line i + of_int (paeth (left_of line bpp i) (above prev i) (above_left prev bpp i))))"

definition png_unfilter :: "nat \<Rightarrow> (nat \<Rightarrow> u8) \<Rightarrow> (nat \<Rightarrow> u8) option \<Rightarrow> nat \<Rightarrow> nat \<Rightarrow> int + (nat \<Rightarrow> u8)" where
  "png_unfilter flt line prev len bpp =
     (if flt = 0 then Inr line
      else if flt = 1 then Inr (sub_loop bpp bpp (len - bpp) line)
      else if flt = 2 then Inr (case prev of None \<Rightarrow> line | Some l \<Rightarrow> up_loop l 0 len line)
      else if flt = 3 then Inr (average_loop prev bpp 0 len line)
      else if flt = 4 then Inr (paeth_loop prev bpp 0 len line)
      else Inl IMG_ERR_CORRUPT)"

section \<open>Samples\<close>

definition get_sample :: "(nat \<Rightarrow> u8) \<Rightarrow> nat \<Rightarrow> nat \<Rightarrow> nat" where
  "get_sample row i depth =
     (if depth = 8 then unat (row i)
      else if depth = 16 then unat ((push_bit 8 (ucast (row (i * 2))) OR ucast (row (i * 2 + 1))) :: u32)
      else if depth = 1 then unat (drop_bit (7 - i mod 8) (row (i div 8)) AND 1)
      else if depth = 2 then unat (drop_bit (6 - i mod 4 * 2) (row (i div 4)) AND 3)
      else if depth = 4 then unat (drop_bit (if i mod 2 = 1 then 0 else 4) (row (i div 2)) AND 0xF)
      else 0)"

definition scale_to8 :: "nat \<Rightarrow> nat \<Rightarrow> u8" where
  "scale_to8 v depth =
     (if depth = 1 then (if v \<noteq> 0 then 0xFF else 0)
      else if depth = 2 then of_nat (v * 85)
      else if depth = 4 then of_nat (v * 17)
      else if depth = 16 then of_nat (v div 256)
      else of_nat v)"

section \<open>Chunks\<close>

record png_st =
  p_width :: nat
  p_height :: nat
  p_depth :: nat
  p_ctype :: nat
  p_interlace :: nat
  p_channels :: nat
  p_idat :: "u8 list option"
  p_cap :: nat
  p_palette :: "nat \<Rightarrow> u8"
  p_alpha :: "nat \<Rightarrow> u8"
  p_have_pal :: bool
  p_have_alpha :: bool
  p_key :: "nat \<Rightarrow> nat"
  p_key_valid :: bool
  p_ihdr :: bool
  p_allocs :: nat

definition png_start :: "(nat \<Rightarrow> u8) \<Rightarrow> png_st" where
  "png_start junk =
     \<lparr>p_width = 0, p_height = 0, p_depth = 8, p_ctype = 6, p_interlace = 0, p_channels = 0, p_idat = None, p_cap = 0,
      p_palette = junk, p_alpha = junk, p_have_pal = False, p_have_alpha = False, p_key = (\<lambda>_. 0), p_key_valid = False,
      p_ihdr = False, p_allocs = 0\<rparr>"

definition hdr_channels :: "nat \<Rightarrow> nat" where
  "hdr_channels t = (if t = 0 then 1 else if t = 2 then 3 else if t = 3 then 1 else if t = 4 then 2 else if t = 6 then 4 else 0)"

definition legal_depth :: "nat \<Rightarrow> nat \<Rightarrow> bool" where
  "legal_depth t depth =
     (if t = 0 then depth \<in> {1, 2, 4, 8, 16} else if t = 3 then depth \<in> {1, 2, 4, 8} else depth \<in> {8, 16})"

definition bits_per_px :: "png_st \<Rightarrow> nat" where
  "bits_per_px s = p_channels s * p_depth s"

definition filter_bpp :: "png_st \<Rightarrow> nat" where
  "filter_bpp s = (let b = (bits_per_px s + 7) div 8 in if b < 1 then 1 else b)"

definition chunk_ihdr :: "(nat \<Rightarrow> u8) \<Rightarrow> nat \<Rightarrow> nat \<Rightarrow> png_st \<Rightarrow> int + png_st" where
  "chunk_ihdr d p clen s =
     (if clen < 13 then Inl IMG_ERR_CORRUPT
      else let w = be32 d p; h = be32 d (p + 4); depth = unat (d (p + 8)); t = unat (d (p + 9)); il = unat (d (p + 12))
      in if d (p + 10) \<noteq> 0 then Inl IMG_ERR_UNSUPPORTED
         else if d (p + 11) \<noteq> 0 then Inl IMG_ERR_UNSUPPORTED
         else if hdr_channels t = 0 then Inl IMG_ERR_FORMAT
         else if il > 1 then Inl IMG_ERR_UNSUPPORTED
         else case size_error w h of Some e \<Rightarrow> Inl e
         | None \<Rightarrow>
             if \<not> legal_depth t depth then Inl IMG_ERR_FORMAT
             else Inr (s\<lparr>p_width := w, p_height := h, p_depth := depth, p_ctype := t, p_interlace := il,
                    p_channels := hdr_channels t, p_ihdr := True\<rparr>))"

definition chunk_plte :: "(nat \<Rightarrow> u8) \<Rightarrow> nat \<Rightarrow> nat \<Rightarrow> png_st \<Rightarrow> int + png_st" where
  "chunk_plte d p clen s =
     (if clen mod 3 \<noteq> 0 \<or> clen > 768 then Inl IMG_ERR_CORRUPT
      else Inr (s\<lparr>p_palette := put_bytes (p_palette s) 0 (bytes_at d p clen), p_have_pal := True\<rparr>))"

definition be16_at :: "(nat \<Rightarrow> u8) \<Rightarrow> nat \<Rightarrow> nat" where
  "be16_at d p = unat ((push_bit 8 (ucast (d p)) OR ucast (d (p + 1))) :: u32)"

definition chunk_trns :: "(nat \<Rightarrow> u8) \<Rightarrow> nat \<Rightarrow> nat \<Rightarrow> png_st \<Rightarrow> int + png_st" where
  "chunk_trns d p clen s =
     (if p_ctype s = 3 then
        if clen > 256 then Inl IMG_ERR_CORRUPT
        else Inr (s\<lparr>p_alpha := put_bytes (\<lambda>_. 0xFF) 0 (bytes_at d p clen), p_have_alpha := True\<rparr>)
      else if p_ctype s = 0 \<and> clen \<ge> 2 then
        Inr (s\<lparr>p_key := (p_key s)(0 := be16_at d p, 1 := be16_at d p), p_key_valid := True\<rparr>)
      else if p_ctype s = 2 \<and> clen \<ge> 6 then
        Inr (s\<lparr>p_key := (p_key s)(0 := be16_at d p, 1 := be16_at d (p + 2), 2 := be16_at d (p + 4)), p_key_valid := True\<rparr>)
      else Inr s)"

text \<open>Doubling the capacity; it is never 0 when this is reached.\<close>

function grow_cap :: "nat \<Rightarrow> nat \<Rightarrow> nat" where
  "grow_cap nc need = (if nc = 0 \<or> nc \<ge> need then nc else grow_cap (nc * 2) need)"
  by pat_completeness auto
termination by (relation "measure (\<lambda>(nc, need). need - nc)") auto

declare grow_cap.simps [simp del]

text \<open>The data chunks are collected in a buffer; the results of the requests for it are not checked.\<close>

definition chunk_idat :: "(nat \<Rightarrow> nat \<Rightarrow> bool) \<Rightarrow> (nat \<Rightarrow> u8) \<Rightarrow> nat \<Rightarrow> nat \<Rightarrow> png_st \<Rightarrow> png_st option" where
  "chunk_idat avail d p clen s =
     (case p_idat s of
        None \<Rightarrow>
          let cp = (clen * 2 + 1024) mod 2 ^ 32
          in if \<not> avail (p_allocs s) cp \<or> clen > cp then None
             else Some (s\<lparr>p_idat := Some (bytes_at d p clen), p_cap := cp, p_allocs := p_allocs s + 1\<rparr>)
      | Some bs \<Rightarrow>
          if length bs + clen > p_cap s then
            let nc = grow_cap (p_cap s * 2) (length bs + clen)
            in if \<not> avail (p_allocs s) nc then None
               else Some (s\<lparr>p_idat := Some (bs @ bytes_at d p clen), p_cap := nc, p_allocs := p_allocs s + 1\<rparr>)
          else Some (s\<lparr>p_idat := Some (bs @ bytes_at d p clen)\<rparr>))"

text \<open>One chunk whose type is at \<open>p\<close>: the error, or the state and whether it was the last.\<close>

definition png_chunk ::
  "(nat \<Rightarrow> nat \<Rightarrow> bool) \<Rightarrow> (nat \<Rightarrow> u8) \<Rightarrow> nat \<Rightarrow> nat \<Rightarrow> png_st \<Rightarrow> (int + png_st \<times> bool) option" where
  "png_chunk avail d p clen s =
     (let t = bytes_at d p 4; more = map_sum id (\<lambda>s. (s, False))
      in if t = [0x49, 0x48, 0x44, 0x52] then Some (more (chunk_ihdr d (p + 4) clen s))
         else if t = [0x50, 0x4C, 0x54, 0x45] then Some (more (chunk_plte d (p + 4) clen s))
         else if t = [0x74, 0x52, 0x4E, 0x53] then Some (more (chunk_trns d (p + 4) clen s))
         else if t = [0x49, 0x44, 0x41, 0x54] then map_option (\<lambda>s. Inr (s, False)) (chunk_idat avail d (p + 4) clen s)
         else if t = [0x49, 0x45, 0x4E, 0x44] then Some (Inr (s, True))
         else Some (Inr (s, False)))"

function png_chunks ::
  "(nat \<Rightarrow> nat \<Rightarrow> bool) \<Rightarrow> (nat \<Rightarrow> u8) \<Rightarrow> nat \<Rightarrow> nat \<Rightarrow> png_st \<Rightarrow> (int + png_st) option" where
  "png_chunks avail d n pos s =
     (if pos + 8 > n then Some (Inr s)
      else let clen = be32 d pos
      in if clen > 0x7FFFFFFF then Some (Inl IMG_ERR_CORRUPT)
         else if pos + 12 + clen > n then Some (Inl IMG_ERR_TRUNCATED)
         else if unat (png_crc (bytes_at d (pos + 4) (clen + 4))) \<noteq> be32 d (pos + 8 + clen) then Some (Inl IMG_ERR_CORRUPT)
         else case png_chunk avail d (pos + 4) clen s of
             None \<Rightarrow> None
           | Some (Inl e) \<Rightarrow> Some (Inl e)
           | Some (Inr (s1, fin)) \<Rightarrow>
               if fin then Some (Inr s1) else png_chunks avail d n (pos + 12 + clen) s1)"
  by pat_completeness auto
termination by (relation "measure (\<lambda>(avail, d, n, pos, s). n - pos)") auto

declare png_chunks.simps [simp del]

section \<open>Passes\<close>

definition adam7_x0 :: "nat list" where "adam7_x0 = [0, 4, 0, 2, 0, 1, 0]"
definition adam7_y0 :: "nat list" where "adam7_y0 = [0, 0, 4, 0, 2, 0, 1]"
definition adam7_dx :: "nat list" where "adam7_dx = [8, 8, 4, 4, 2, 2, 1]"
definition adam7_dy :: "nat list" where "adam7_dy = [8, 8, 8, 4, 4, 2, 2]"

definition pass_len :: "nat \<Rightarrow> nat \<Rightarrow> nat \<Rightarrow> nat" where
  "pass_len m x0 dx = (m + dx - 1 - x0) div dx"

text \<open>The passes: first column and row, the steps, and the numbers of columns and rows.\<close>

definition passes :: "png_st \<Rightarrow> (nat \<times> nat \<times> nat \<times> nat \<times> nat \<times> nat) list" where
  "passes s =
     (if p_interlace s = 0 then [(0, 0, 1, 1, p_width s, p_height s)]
      else map (\<lambda>i. (adam7_x0 ! i, adam7_y0 ! i, adam7_dx ! i, adam7_dy ! i,
                    pass_len (p_width s) (adam7_x0 ! i) (adam7_dx ! i), pass_len (p_height s) (adam7_y0 ! i) (adam7_dy ! i)))
             [0, 1, 2, 3, 4, 5, 6])"

definition out_channels :: "png_st \<Rightarrow> nat" where
  "out_channels s =
     (if p_ctype s = 0 \<or> p_ctype s = 2 then 3 else if p_ctype s = 3 then if p_have_alpha s then 4 else 3 else 4)"

text \<open>The samples written for pixel \<open>x\<close> of a reconstructed line.\<close>

definition png_pixel :: "png_st \<Rightarrow> (nat \<Rightarrow> u8) \<Rightarrow> nat \<Rightarrow> u8 list" where
  "png_pixel s row x =
     (let depth = p_depth s; sm = (\<lambda>i. get_sample row i depth); v = (\<lambda>i. scale_to8 (get_sample row i depth) depth)
      in if p_ctype s = 3 then
           let i = sm x
           in if i > 255 then []
              else bytes_at (p_palette s) (i * 3) 3 @ (if out_channels s = 4 then [if p_have_alpha s then p_alpha s i else 0xFF] else [])
         else if p_ctype s = 0 then
           let hit = (p_key_valid s \<and> (if depth = 16 then sm x else unat (v x)) = p_key s 0)
           in replicate 3 (if hit then 0 else v x)
         else if p_ctype s = 4 then [v (x * 2), v (x * 2), v (x * 2), v (x * 2 + 1)]
         else if p_ctype s = 6 then [v (x * 4), v (x * 4 + 1), v (x * 4 + 2), v (x * 4 + 3)]
         else let key = (\<lambda>c. if depth = 16 then p_key s c else p_key s c div 256)
           in if p_key_valid s \<and> unat (v (x * 3)) = key 0 \<and> unat (v (x * 3 + 1)) = key 1 \<and> unat (v (x * 3 + 2)) = key 2
              then [0, 0, 0] else [v (x * 3), v (x * 3 + 1), v (x * 3 + 2)])"

fun png_row ::
  "png_st \<Rightarrow> (nat \<Rightarrow> u8) \<Rightarrow> nat \<Rightarrow> nat \<Rightarrow> nat \<Rightarrow> nat \<Rightarrow> nat \<Rightarrow> (nat \<Rightarrow> u8) \<Rightarrow> nat \<Rightarrow> u8" where
  "png_row s row x0 dx oy x 0 px = px"
| "png_row s row x0 dx oy x (Suc k) px =
     png_row s row x0 dx oy (Suc x) k
       (if x0 + x * dx \<ge> p_width s \<or> oy \<ge> p_height s then px
        else put_bytes px ((oy * p_width s + (x0 + x * dx)) * out_channels s) (png_pixel s row x))"

text \<open>The lines of a pass from offset \<open>rp\<close> of the data: the new offset and the samples.\<close>

fun png_lines ::
  "png_st \<Rightarrow> u8 list \<Rightarrow> nat \<Rightarrow> (nat \<times> nat \<times> nat \<times> nat \<times> nat \<times> nat) \<Rightarrow> nat \<Rightarrow> nat \<Rightarrow> nat \<Rightarrow> (nat \<Rightarrow> u8) \<Rightarrow> (nat \<Rightarrow> u8) \<Rightarrow>
     int + nat \<times> (nat \<Rightarrow> u8)" where
  "png_lines s raw len g y 0 rp prev px = Inr (rp, px)"
| "png_lines s raw len (x0, y0, dx, dy, pw, ph) y (Suc k) rp prev px =
     (if rp + 1 + len > length raw then Inl IMG_ERR_TRUNCATED
      else case png_unfilter (unat (raw ! rp)) (\<lambda>i. raw ! (rp + 1 + i)) (Some prev) len (filter_bpp s) of
          Inl e \<Rightarrow> Inl e
        | Inr cur \<Rightarrow>
            png_lines s raw len (x0, y0, dx, dy, pw, ph) (Suc y) k (rp + 1 + len) cur
              (png_row s cur x0 dx (y0 + y * dy) 0 pw px))"

fun png_passes ::
  "(nat \<Rightarrow> nat \<Rightarrow> bool) \<Rightarrow> png_st \<Rightarrow> u8 list \<Rightarrow> (nat \<times> nat \<times> nat \<times> nat \<times> nat \<times> nat) list \<Rightarrow> nat \<Rightarrow> nat \<Rightarrow> (nat \<Rightarrow> u8) \<Rightarrow>
     int + (nat \<Rightarrow> u8)" where
  "png_passes avail s raw [] al rp px = Inr px"
| "png_passes avail s raw ((x0, y0, dx, dy, pw, ph) # gs) al rp px =
     (let len = (pw * bits_per_px s + 7) div 8
      in if pw = 0 \<or> ph = 0 then png_passes avail s raw gs al rp px
         else if len = 0 then png_passes avail s raw gs al rp px
         else if \<not> avail al len \<or> \<not> avail (al + 1) len then Inl IMG_ERR_MEMORY
         else case png_lines s raw len (x0, y0, dx, dy, pw, ph) 0 ph rp (\<lambda>_. 0) px of
             Inl e \<Rightarrow> Inl e
           | Inr (rp1, px1) \<Rightarrow> png_passes avail s raw gs (al + 2) rp1 px1)"

definition max_raw :: "png_st \<Rightarrow> nat" where
  "max_raw s =
     (let sum_w = sum_list (map (\<lambda>(x0, y0, dx, dy, pw, ph). pw) (passes s));
          sum_h = sum_list (map (\<lambda>(x0, y0, dx, dy, pw, ph). ph) (passes s))
      in sum_h * ((sum_w * bits_per_px s + 7) div 8 + 1) + 64)"

section \<open>The decoder\<close>

definition png_finish ::
  "(nat \<Rightarrow> nat \<Rightarrow> bool) \<Rightarrow> huff \<Rightarrow> huff \<Rightarrow> png_st \<Rightarrow> int + image" where
  "png_finish avail lc dc s =
     (let al = p_allocs s; out = out_channels s; out_len = p_width s * p_height s * out
      in if \<not> p_ihdr s then Inl IMG_ERR_TRUNCATED
         else case p_idat s of None \<Rightarrow> Inl IMG_ERR_TRUNCATED
         | Some idat \<Rightarrow>
             if idat = [] then Inl IMG_ERR_TRUNCATED
             else if p_ctype s = 3 \<and> \<not> p_have_pal s then Inl IMG_ERR_CORRUPT
             else if \<not> avail al out_len then Inl IMG_ERR_MEMORY
             else if max_raw s > 128 * 1024 * 1024 then Inl IMG_ERR_TOOBIG
             else if \<not> avail (al + 1) (max_raw s) then Inl IMG_ERR_MEMORY
             else case zlib_inflate lc dc idat (max_raw s) of (got, raw) \<Rightarrow>
               if got < 0 then Inl (if got = -2 then IMG_ERR_MEMORY else IMG_ERR_CORRUPT)
               else case png_passes avail s (take (nat got) raw) (passes s) (al + 2) 0 (\<lambda>_. 0xFF) of
                   Inl e \<Rightarrow> Inl e
                 | Inr px \<Rightarrow> Inr (finished (p_width s) (p_height s) out (out = 4) px))"

definition png_decode ::
  "(nat \<Rightarrow> nat \<Rightarrow> bool) \<Rightarrow> huff \<Rightarrow> huff \<Rightarrow> (nat \<Rightarrow> u8) \<Rightarrow> (nat \<Rightarrow> u8) \<Rightarrow> nat \<Rightarrow> (int + image) option" where
  "png_decode avail lc dc junk d n =
     (if n < 8 then Some (Inl IMG_ERR_TRUNCATED)
      else case png_chunks avail d n 8 (png_start junk) of
          None \<Rightarrow> None
        | Some (Inl e) \<Rightarrow> Some (Inl e)
        | Some (Inr s) \<Rightarrow> Some (png_finish avail lc dc s))"

end
