(* ===== verification/QoiSpec.thy ===== *)
theory QoiSpec
  imports Qoi
begin

text \<open>
  The decoder against an encoder of the format: every image the encoder writes is read back pixel by
  pixel.  The encoder is the one of the format's description: it prefers runs of up to 62 pixels, then the table of
  recent pixels, then differences, then literal pixels.
\<close>

section \<open>The encoder\<close>

definition small :: "u8 \<Rightarrow> u8 \<Rightarrow> bool" where
  "small bias v = (v + bias < 2 * bias)"

definition qoi_code :: "(nat \<Rightarrow> rgba) \<Rightarrow> rgba \<Rightarrow> rgba \<Rightarrow> u8 list" where
  "qoi_code idx prev px =
     (let (r, g, b, a) = px; (r0, g0, b0, a0) = prev; dr = r - r0; dg = g - g0; db = b - b0
      in if idx (qoi_hash px) = px then [of_nat (qoi_hash px)]
         else if a \<noteq> a0 then [0xFF, r, g, b, a]
         else if small 2 dr \<and> small 2 dg \<and> small 2 db
         then [0x40 OR push_bit 4 (dr + 2) OR push_bit 2 (dg + 2) OR (db + 2)]
         else if small 32 dg \<and> small 8 (dr - dg) \<and> small 8 (db - dg)
         then [0x80 OR (dg + 32), push_bit 4 (dr - dg + 8) OR (db - dg + 8)]
         else [0xFE, r, g, b])"

definition qoi_run :: "nat \<Rightarrow> u8 list" where
  "qoi_run run = (if run = 0 then [] else [0xC0 OR of_nat (run - 1)])"

fun qoi_enc :: "(nat \<Rightarrow> rgba) \<Rightarrow> rgba \<Rightarrow> nat \<Rightarrow> rgba list \<Rightarrow> u8 list" where
  "qoi_enc idx prev run [] = qoi_run run"
| "qoi_enc idx prev run (px # pxs) =
     (if px = prev then
        if run = 61 then qoi_run 62 @ qoi_enc idx prev 0 pxs else qoi_enc idx prev (Suc run) pxs
      else qoi_run run @ qoi_code idx prev px @ qoi_enc (idx(qoi_hash px := px)) px 0 pxs)"

definition be_bytes :: "nat \<Rightarrow> u8 list" where
  "be_bytes v = rev (le_bytes 4 v)"

definition qoi_file :: "nat \<Rightarrow> nat \<Rightarrow> u8 \<Rightarrow> u8 \<Rightarrow> rgba list \<Rightarrow> u8 list" where
  "qoi_file w h channels space pxs =
     [0x71, 0x6F, 0x69, 0x66] @ be_bytes w @ be_bytes h @ [channels, space] @
     qoi_enc (\<lambda>_. (0, 0, 0, 0)) (0, 0, 0, 255) 0 pxs @ [0, 0, 0, 0, 0, 0, 0, 1]"

section \<open>Decoding one operation\<close>

lemma below:
  assumes "(x :: u8) < of_nat k" "k < 256" "list_all (\<lambda>i. P (of_nat i)) [0..<k]"
  shows "P x"
proof -
  have "unat x < k" using assms(1,2) by (simp add: word_less_nat_alt unsigned_of_nat take_bit_eq_mod)
  then have "unat x \<in> set [0..<k]" by simp
  with assms(3) have "P (of_nat (unat x))" unfolding list_all_iff by (rule bspec)
  then show ?thesis by simp
qed

lemma index_bits:
  assumes "k < 64"
  shows "(of_nat k :: u8) AND 0xC0 = 0 \<and> unat ((of_nat k :: u8) AND 0x3F) = k \<and> of_nat k \<noteq> (0xFE :: u8) \<and> of_nat k \<noteq> (0xFF :: u8)"
proof -
  have "list_all (\<lambda>k. (of_nat k :: u8) AND 0xC0 = 0 \<and> unat ((of_nat k :: u8) AND 0x3F) = k \<and> of_nat k \<noteq> (0xFE :: u8) \<and>
      of_nat k \<noteq> (0xFF :: u8)) [0..<64]"
    by code_simp
  then show ?thesis using assms by (simp add: list_all_iff del: upt_rec_numeral)
qed

lemma run_bits:
  assumes "k < 62"
  shows "let b = 0xC0 OR (of_nat k :: u8) in b AND 0xC0 = 0xC0 \<and> unat (b AND 0x3F) = k \<and> b \<noteq> 0xFE \<and> b \<noteq> 0xFF"
proof -
  have "list_all (\<lambda>k. let b = 0xC0 OR (of_nat k :: u8) in b AND 0xC0 = 0xC0 \<and> unat (b AND 0x3F) = k \<and> b \<noteq> 0xFE \<and>
      b \<noteq> 0xFF) [0..<62]"
    by code_simp
  then show ?thesis using assms by (simp add: list_all_iff del: upt_rec_numeral)
qed

lemma luma_bits:
  assumes "(x :: u8) < 64"
  shows "let b = 0x80 OR x in b AND 0xC0 = 0x80 \<and> b AND 0x3F = x \<and> b \<noteq> 0xFE \<and> b \<noteq> 0xFF"
  by (rule below [where k = 64]) (use assms in simp, simp, code_simp)

lemma low_bits: "(x :: u8) < 16 \<Longrightarrow> bit x i \<Longrightarrow> i < 4"
proof -
  assume "x < 16" "bit x i"
  then have "x = take_bit 4 x" by (simp add: take_bit_eq_mod word_unat_eq_iff unat_mod word_less_nat_alt)
  then show ?thesis using \<open>bit x i\<close> by (metis bit_take_bit_iff)
qed

lemma nibbles:
  assumes "(x :: u8) < 16" "(y :: u8) < 16"
  shows "drop_bit 4 (push_bit 4 x OR y) AND 0x0F = x" "(push_bit 4 x OR y) AND 0x0F = y"
proof -
  have m: "v AND 0x0F = take_bit 4 v" for v :: u8 by (simp add: take_bit_eq_mask mask_eq_exp_minus_1)
  show "drop_bit 4 (push_bit 4 x OR y) AND 0x0F = x" "(push_bit 4 x OR y) AND 0x0F = y"
    unfolding m by (rule bit_word_eqI; auto simp: bit_simps dest: low_bits [OF assms(1)] low_bits [OF assms(2)])+
qed

lemma diff_bits:
  assumes "(x :: u8) < 4" "(y :: u8) < 4" "(z :: u8) < 4"
  shows "let b = 0x40 OR push_bit 4 x OR push_bit 2 y OR z in b AND 0xC0 = 0x40 \<and> drop_bit 4 b AND 3 = x \<and>
    drop_bit 2 b AND 3 = y \<and> b AND 3 = z \<and> b \<noteq> 0xFE \<and> b \<noteq> 0xFF"
proof -
  let ?P = "\<lambda>x y z :: u8. let b = 0x40 OR push_bit 4 x OR push_bit 2 y OR z in b AND 0xC0 = 0x40 \<and>
      drop_bit 4 b AND 3 = x \<and> drop_bit 2 b AND 3 = y \<and> b AND 3 = z \<and> b \<noteq> 0xFE \<and> b \<noteq> 0xFF"
  have all: "list_all (\<lambda>i. list_all (\<lambda>j. list_all (\<lambda>k. ?P (of_nat i) (of_nat j) (of_nat k)) [0..<4]) [0..<4]) [0..<4]"
    by code_simp
  have "unat x \<in> set [0..<4]" "unat y \<in> set [0..<4]" "unat z \<in> set [0..<4]"
    using assms by (simp_all add: word_less_nat_alt del: upt_rec_numeral)
  with all have "?P (of_nat (unat x)) (of_nat (unat y)) (of_nat (unat z))" unfolding list_all_iff by blast
  then show ?thesis by simp
qed

text \<open>The bytes \<open>bs\<close> lie in the file at offset \<open>p\<close>.\<close>

definition lies :: "(nat \<Rightarrow> u8) \<Rightarrow> nat \<Rightarrow> nat \<Rightarrow> u8 list \<Rightarrow> bool" where
  "lies d n p bs \<longleftrightarrow> p + length bs \<le> n \<and> (\<forall>k < length bs. d (p + k) = bs ! k)"

lemma lies_append: "lies d n p (xs @ ys) \<longleftrightarrow> lies d n p xs \<and> lies d n (p + length xs) ys"
proof
  assume l: "lies d n p (xs @ ys)"
  have "d (p + length xs + k) = ys ! k" if "k < length ys" for k
    using l that by (auto simp: lies_def nth_append add.assoc dest: spec [of _ "length xs + k"])
  then show "lies d n p xs \<and> lies d n (p + length xs) ys" using l by (auto simp: lies_def nth_append)
next
  assume "lies d n p xs \<and> lies d n (p + length xs) ys"
  then show "lies d n p (xs @ ys)"
    by (auto simp: lies_def nth_append) (metis add.assoc le_add_diff_inverse not_less nat_add_left_cancel_less)
qed

lemma lies_Cons: "lies d n p (x # xs) \<longleftrightarrow> p < n \<and> d p = x \<and> lies d n (Suc p) xs"
proof -
  have "lies d n p [x] \<longleftrightarrow> p < n \<and> d p = x" by (auto simp: lies_def)
  then show ?thesis using lies_append [of d n p "[x]" xs] by simp
qed

lemma lies_Nil: "lies d n p [] \<longleftrightarrow> p \<le> n"
  by (simp add: lies_def)

lemma hash_less: "qoi_hash px < 64"
  by (simp add: qoi_hash_def split: prod.splits)

lemma code_decoded:
  assumes l: "lies d n (q_pos q) (qoi_code idx (q_cur q) px)" and run: "q_run q = 0"
    and idx: "idx (qoi_hash px) = px \<Longrightarrow> q_index q (qoi_hash px) = px"
  shows "qoi_op d n q = Some (q_pos q + length (qoi_code idx (q_cur q) px), 0, px)"
proof -
  obtain r g b a where px: "px = (r, g, b, a)" by (cases px)
  obtain r0 g0 b0 a0 where cur: "q_cur q = (r0, g0, b0, a0)" by (cases "q_cur q")
  let ?dr = "r - r0" and ?dg = "g - g0" and ?db = "b - b0"
  note code = qoi_code_def px cur Let_def and op = qoi_op_def cur px img_consts Let_def run lies_Cons lies_Nil
  consider (idx) "idx (qoi_hash px) = px" | (rgba) "idx (qoi_hash px) \<noteq> px" "a \<noteq> a0"
    | (diff) "idx (qoi_hash px) \<noteq> px" "a = a0" "small 2 ?dr \<and> small 2 ?dg \<and> small 2 ?db"
    | (luma) "idx (qoi_hash px) \<noteq> px" "a = a0" "\<not> (small 2 ?dr \<and> small 2 ?dg \<and> small 2 ?db)"
        "small 32 ?dg \<and> small 8 (?dr - ?dg) \<and> small 8 (?db - ?dg)"
    | (rgb) "idx (qoi_hash px) \<noteq> px" "a = a0" "\<not> (small 2 ?dr \<and> small 2 ?dg \<and> small 2 ?db)"
        "\<not> (small 32 ?dg \<and> small 8 (?dr - ?dg) \<and> small 8 (?db - ?dg))"
    by blast
  then show ?thesis
  proof cases
    case idx
    then have c: "qoi_code idx (q_cur q) px = [of_nat (qoi_hash px)]" by (simp add: qoi_code_def Let_def split: prod.splits)
    show ?thesis using l index_bits [OF hash_less, of px] assms(3) [OF idx]
      unfolding c by (simp add: op)
  next
    case rgba
    then have c: "qoi_code idx (q_cur q) px = [0xFF, r, g, b, a]" by (simp add: code)
    show ?thesis using l unfolding c by (simp add: op eval_nat_numeral)
  next
    case diff
    then have c: "qoi_code idx (q_cur q) px = [0x40 OR push_bit 4 (?dr + 2) OR push_bit 2 (?dg + 2) OR (?db + 2)]"
      by (simp add: code)
    have "?dr + 2 < 4" "?dg + 2 < 4" "?db + 2 < 4" using diff(3) by (simp_all add: small_def)
    from diff_bits [OF this] show ?thesis using l diff(2) unfolding c by (simp add: op)
  next
    case luma
    then have c: "qoi_code idx (q_cur q) px = [0x80 OR (?dg + 32), push_bit 4 (?dr - ?dg + 8) OR (?db - ?dg + 8)]"
      by (simp add: code)
    have "?dg + 32 < 64" "?dr - ?dg + 8 < 16" "?db - ?dg + 8 < 16" using luma(4) by (simp_all add: small_def)
    from luma_bits [OF this(1)] nibbles [OF this(2,3)] show ?thesis using l luma(2) unfolding c by (simp add: op)
  next
    case rgb
    then have c: "qoi_code idx (q_cur q) px = [0xFE, r, g, b]" by (simp add: code)
    show ?thesis using l rgb(2) unfolding c by (simp add: op eval_nat_numeral)
  qed
qed

section \<open>Decoding a file\<close>

fun write_px :: "(nat \<Rightarrow> u8) \<Rightarrow> nat \<Rightarrow> rgba list \<Rightarrow> nat \<Rightarrow> u8" where
  "write_px out c [] = out"
| "write_px out c (px # pxs) = write_px (put_bytes out (c * 4) (px_bytes px)) (Suc c) pxs"

lemma write_px_append: "write_px out c (xs @ ys) = write_px (write_px out c xs) (c + length xs) ys"
  by (induction xs arbitrary: out c) simp_all

lemma length_px_bytes [simp]: "length (px_bytes px) = 4"
  by (simp add: px_bytes_def split: prod.splits)

lemma write_px_at:
  "write_px out c pxs i =
     (if c * 4 \<le> i \<and> i < (c + length pxs) * 4 then px_bytes (pxs ! (i div 4 - c)) ! (i mod 4) else out i)"
proof (induction pxs arbitrary: out c)
  case (Cons px pxs)
  consider "i < c * 4" | "c * 4 \<le> i" "i < c * 4 + 4" | "c * 4 + 4 \<le> i" by linarith
  then show ?case
  proof cases
    case 2
    then have d: "i div 4 = c" by linarith
    then have "i mod 4 = i - c * 4" by (metis minus_div_mult_eq_mod)
    with d show ?thesis using 2 by (simp add: Cons put_bytes_inside)
  next
    case 3
    then have "i div 4 - c = Suc (i div 4 - Suc c)" by linarith
    then show ?thesis using 3 by (simp add: Cons put_bytes_outside)
  qed (simp add: Cons put_bytes_outside)
qed auto

lemma no_run: "q_run q = 0 \<Longrightarrow> q\<lparr>q_run := 0\<rparr> = q"
  by (cases q) simp

lemma run_pixels:
  "qoi_loop d n c (q_run q + m) q =
     qoi_loop d n (c + q_run q) m (q\<lparr>q_run := 0, q_out := write_px (q_out q) c (replicate (q_run q) (q_cur q))\<rparr>)"
proof (induction "q_run q" arbitrary: c q)
  case (Suc k)
  let ?q = "q\<lparr>q_run := k, q_out := put_bytes (q_out q) (c * 4) (px_bytes (q_cur q))\<rparr>"
  have "qoi_pixel d n c q = Some ?q" using Suc(2) [symmetric] by (simp add: qoi_pixel_def)
  then show ?case using Suc(1) [of ?q "Suc c"] by (simp flip: Suc(2))
qed (simp add: no_run)

lemma run_decoded:
  assumes l: "lies d n (q_pos q) (qoi_run run)" and run: "q_run q = 0" "0 < run" "run \<le> 62"
  shows "qoi_loop d n c (run + m) q = qoi_loop d n (c + run) m
    (q\<lparr>q_pos := Suc (q_pos q), q_index := (q_index q)(qoi_hash (q_cur q) := q_cur q),
       q_out := write_px (q_out q) c (replicate run (q_cur q))\<rparr>)"
proof -
  obtain k where k: "run = Suc k" "k < 62" using run(2,3) by (cases run) auto
  obtain r g b a where cur: "q_cur q = (r, g, b, a)" by (cases "q_cur q")
  have op: "qoi_op d n q = Some (Suc (q_pos q), k, q_cur q)"
    using l run_bits [OF k(2)] k(1) run(1)
    by (simp add: qoi_run_def qoi_op_def lies_Cons lies_Nil Let_def cur img_consts)
  let ?q = "q\<lparr>q_pos := Suc (q_pos q), q_run := k, q_index := (q_index q)(qoi_hash (q_cur q) := q_cur q),
      q_out := put_bytes (q_out q) (c * 4) (px_bytes (q_cur q))\<rparr>"
  have "qoi_pixel d n c q = Some ?q" using run(1) by (simp add: qoi_pixel_def op)
  moreover have "?q\<lparr>q_run := 0\<rparr> = ?q\<lparr>q_run := q_run q\<rparr>" using run(1) by simp
  ultimately show ?thesis using run_pixels [of d n "Suc c" ?q m] no_run [of "q\<lparr>q_pos := Suc (q_pos q),
      q_index := (q_index q)(qoi_hash (q_cur q) := q_cur q), q_out := o1\<rparr>" for o1] run(1) by (simp add: k(1))
qed

lemma code_pixel:
  assumes "lies d n (q_pos q) (qoi_code idx (q_cur q) px)" and "q_run q = 0"
    and "idx (qoi_hash px) = px \<Longrightarrow> q_index q (qoi_hash px) = px"
  shows "qoi_pixel d n c q = Some (q\<lparr>q_pos := q_pos q + length (qoi_code idx (q_cur q) px), q_cur := px,
    q_index := (q_index q)(qoi_hash px := px), q_out := put_bytes (q_out q) (c * 4) (px_bytes px)\<rparr>)"
  using assms(2) by (simp add: qoi_pixel_def code_decoded [OF assms])

text \<open>
  The decoder's table agrees with the encoder's wherever the encoder would use it.  They are not equal: on a run of
  the initial pixel the decoder stores it, the encoder does not.
\<close>

definition agree :: "(nat \<Rightarrow> rgba) \<Rightarrow> rgba \<Rightarrow> qoi_st \<Rightarrow> bool" where
  "agree idx prev q \<longleftrightarrow> q_run q = 0 \<and> q_cur q = prev \<and>
     (\<forall>px. idx (qoi_hash px) = px \<longrightarrow> q_index q (qoi_hash px) = px) \<and>
     (\<forall>px. idx (qoi_hash px) = px \<and> qoi_hash px = qoi_hash prev \<longrightarrow> px = prev)"

lemma agree_run:
  assumes "agree idx prev q"
  shows "agree idx prev (q\<lparr>q_pos := p, q_index := (q_index q)(qoi_hash prev := prev), q_out := out\<rparr>)"
  unfolding agree_def
proof (intro conjI allI impI)
  fix px assume "idx (qoi_hash px) = px"
  with assms have "q_index q (qoi_hash px) = px" "qoi_hash px = qoi_hash prev \<Longrightarrow> px = prev" by (auto simp only: agree_def)
  then show "q_index (q\<lparr>q_pos := p, q_index := (q_index q)(qoi_hash prev := prev), q_out := out\<rparr>) (qoi_hash px) = px" by auto
qed (use assms in \<open>auto simp add: agree_def simp del: split_paired_All\<close>)

lemma agree_code:
  assumes "agree idx prev q"
  shows "agree (idx(qoi_hash px := px)) px
    (q\<lparr>q_pos := p, q_cur := px, q_index := (q_index q)(qoi_hash px := px), q_out := out\<rparr>)"
  using assms unfolding agree_def by auto

lemma flush_decoded:
  assumes "lies d n (q_pos q) (qoi_run run @ bs)" "agree idx prev q" "run \<le> 62"
  obtains q1 where "\<And>m. qoi_loop d n c (run + m) q = qoi_loop d n (c + run) m q1" "agree idx prev q1"
    "lies d n (q_pos q1) bs" "q_out q1 = write_px (q_out q) c (replicate run prev)"
proof (cases "run = 0")
  case True
  then show ?thesis using that [of q] assms by (simp add: qoi_run_def)
next
  case False
  have q: "q_run q = 0" "q_cur q = prev" using assms(2) by (simp_all add: agree_def)
  let ?q = "q\<lparr>q_pos := Suc (q_pos q), q_index := (q_index q)(qoi_hash prev := prev),
      q_out := write_px (q_out q) c (replicate run prev)\<rparr>"
  show ?thesis
    by (rule that [of ?q])
      (use False run_decoded [OF _ q(1) _ assms(3), of d n c] assms(1) q agree_run [OF assms(2)] in
        \<open>simp_all add: lies_append qoi_run_def lies_Cons lies_Nil\<close>)
qed

lemma encoded_decoded:
  assumes "lies d n (q_pos q) (qoi_enc idx prev run pxs)" "agree idx prev q" "run \<le> 61"
  shows "\<exists>q1. qoi_loop d n c (run + length pxs) q = Some q1 \<and>
    q_out q1 = write_px (q_out q) c (replicate run prev @ pxs)"
  using assms
proof (induction pxs arbitrary: idx prev run q c)
  case Nil
  then have "lies d n (q_pos q) (qoi_run run @ [])" "agree idx prev q" "run \<le> 62" by simp_all
  from flush_decoded [OF this, of c] obtain q1 where "\<And>m. qoi_loop d n c (run + m) q = qoi_loop d n (c + run) m q1"
      "q_out q1 = write_px (q_out q) c (replicate run prev)" by metis
  from this(1) [of 0] this(2) show ?case by auto
next
  case (Cons px pxs)
  consider (full) "px = prev" "run = 61" | (run) "px = prev" "run < 61" | (new) "px \<noteq> prev" using Cons.prems(3) by linarith
  then show ?case
  proof cases
    case full
    with Cons.prems(1) have "lies d n (q_pos q) (qoi_run 62 @ qoi_enc idx prev 0 pxs)" by simp
    from flush_decoded [OF this Cons.prems(2), of c] obtain q1 where q1:
      "\<And>m. qoi_loop d n c (62 + m) q = qoi_loop d n (c + 62) m q1" "agree idx prev q1"
      "lies d n (q_pos q1) (qoi_enc idx prev 0 pxs)" "q_out q1 = write_px (q_out q) c (replicate 62 prev)"
      by (metis order_refl)
    obtain q2 where q2: "qoi_loop d n (c + 62) (length pxs) q1 = Some q2" "q_out q2 = write_px (q_out q1) (c + 62) pxs"
      using Cons.IH [OF q1(3,2), of "c + 62"] by (metis add_0 append_Nil le0 replicate_0)
    have e: "replicate run prev @ px # pxs = replicate 62 prev @ pxs" "run + length (px # pxs) = 62 + length pxs"
      using full by (simp_all add: replicate_app_Cons_same flip: replicate_Suc)
    show ?thesis unfolding e using q2 q1(1) [of "length pxs"] q1(4) by (simp add: write_px_append)
  next
    case run
    then have e: "replicate run prev @ px # pxs = replicate (Suc run) prev @ pxs"
        "run + length (px # pxs) = Suc run + length pxs"
      by (simp_all add: replicate_app_Cons_same)
    have "lies d n (q_pos q) (qoi_enc idx prev (Suc run) pxs)" "Suc run \<le> 61" using Cons.prems run by simp_all
    from Cons.IH [OF this(1) Cons.prems(2) this(2)] show ?thesis unfolding e .
  next
    case new
    let ?rest = "qoi_enc (idx(qoi_hash px := px)) px 0 pxs"
    have "lies d n (q_pos q) (qoi_run run @ qoi_code idx prev px @ ?rest)" "run \<le> 62" using Cons.prems(1,3) new by simp_all
    from flush_decoded [OF this(1) Cons.prems(2) this(2), of c] obtain q1 where q1:
      "\<And>m. qoi_loop d n c (run + m) q = qoi_loop d n (c + run) m q1" "agree idx prev q1"
      "lies d n (q_pos q1) (qoi_code idx prev px @ ?rest)" "q_out q1 = write_px (q_out q) c (replicate run prev)"
      by metis
    let ?q2 = "q1\<lparr>q_pos := q_pos q1 + length (qoi_code idx prev px), q_cur := px,
        q_index := (q_index q1)(qoi_hash px := px), q_out := put_bytes (q_out q1) ((c + run) * 4) (px_bytes px)\<rparr>"
    have "q_cur q1 = prev" "q_run q1 = 0" using q1(2) by (simp_all add: agree_def)
    then have step: "qoi_pixel d n (c + run) q1 = Some ?q2"
      using code_pixel [of d n q1 idx px "c + run"] q1(2,3) by (simp add: lies_append agree_def del: split_paired_All)
    have "lies d n (q_pos ?q2) ?rest" using q1(3) by (simp add: lies_append)
    from Cons.IH [OF this agree_code [OF q1(2)], of "Suc (c + run)"] obtain q3 where q3:
      "qoi_loop d n (Suc (c + run)) (length pxs) ?q2 = Some q3"
      "q_out q3 = write_px (q_out ?q2) (Suc (c + run)) pxs" by auto
    have "qoi_loop d n c (run + length (px # pxs)) q = Some q3" using q1(1) [of "Suc (length pxs)"] step q3(1) by simp
    moreover have "q_out q3 = write_px (q_out q) c (replicate run prev @ px # pxs)"
      using q3(2) q1(4) by (simp add: write_px_append)
    ultimately show ?thesis by blast
  qed
qed

section \<open>The header\<close>

lemma bytes_of_word:
  "push_bit 24 (take_bit 8 (drop_bit 24 x)) OR push_bit 16 (take_bit 8 (drop_bit 16 x)) OR
     push_bit 8 (take_bit 8 (drop_bit 8 x)) OR take_bit 8 x = (x :: u32)"
proof (rule bit_word_eqI)
  fix i assume "i < LENGTH(32)"
  then consider "i < 8" | "8 \<le> i" "i < 16" | "16 \<le> i" "i < 24" | "24 \<le> i" "i < 32" by fastforce
  then show "bit (push_bit 24 (take_bit 8 (drop_bit 24 x)) OR push_bit 16 (take_bit 8 (drop_bit 16 x)) OR
      push_bit 8 (take_bit 8 (drop_bit 8 x)) OR take_bit 8 x) i = bit x i"
    by cases (auto simp: bit_simps)
qed

lemma byte_of_word: "ucast (of_nat (v div 2 ^ k) :: u8) = take_bit 8 (drop_bit k (of_nat v :: u32))" if "k \<le> 24"
  by (rule bit_word_eqI) (use that in \<open>auto simp: bit_simps simp flip: drop_bit_eq_div\<close>)

lemma be32_bytes:
  assumes "lies d n p (be_bytes v)" "v < 2 ^ 32"
  shows "be32 d p = v"
proof -
  have b: "be_bytes v = [of_nat (v div 2 ^ 24), of_nat (v div 2 ^ 16), of_nat (v div 2 ^ 8), of_nat (v div 2 ^ 0)]"
    by (simp add: be_bytes_def le_bytes_def upt_rec)
  have le: "16 \<le> (24 :: nat)" "8 \<le> (24 :: nat)" "0 \<le> (24 :: nat)" by simp_all
  have e: "p + 1 = Suc p" "p + 2 = Suc (Suc p)" "p + 3 = Suc (Suc (Suc p))" by simp_all
  have d: "d p = of_nat (v div 2 ^ 24)" "d (p + 1) = of_nat (v div 2 ^ 16)" "d (p + 2) = of_nat (v div 2 ^ 8)"
      "d (p + 3) = of_nat (v div 2 ^ 0)"
    using assms(1) unfolding b e lies_Cons by blast+
  have "push_bit 24 (ucast (d p)) OR push_bit 16 (ucast (d (p + 1))) OR push_bit 8 (ucast (d (p + 2))) OR
      ucast (d (p + 3)) = (of_nat v :: u32)"
    unfolding d byte_of_word [OF order_refl] byte_of_word [OF le(1)] byte_of_word [OF le(2)] byte_of_word [OF le(3)]
    using bytes_of_word [of "of_nat v"] by (simp only: drop_bit_0 id_apply)
  then show ?thesis unfolding be32_def using assms(2) by (simp add: unsigned_of_nat take_bit_eq_mod)
qed

lemma file_parts:
  assumes "lies d n 0 (qoi_file w h channels space pxs)"
  shows "lies d n 0 [0x71, 0x6F, 0x69, 0x66]" "lies d n 4 (be_bytes w)" "lies d n 8 (be_bytes h)"
    "lies d n 12 [channels, space]" "lies d n 14 (qoi_enc (\<lambda>_. (0, 0, 0, 0)) (0, 0, 0, 255) 0 pxs)"
proof -
  have [simp]: "length (be_bytes v) = 4" for v by (simp add: be_bytes_def)
  show "lies d n 0 [0x71, 0x6F, 0x69, 0x66]" "lies d n 4 (be_bytes w)" "lies d n 8 (be_bytes h)"
    "lies d n 12 [channels, space]" "lies d n 14 (qoi_enc (\<lambda>_. (0, 0, 0, 0)) (0, 0, 0, 255) 0 pxs)"
    using assms unfolding qoi_file_def lies_append by (simp_all add: numeral_nat)
qed

section \<open>The round trip\<close>



section \<open>Reading within the file\<close>

lemma qoi_op_cong: "(\<forall>i < n. d i = d' i) \<Longrightarrow> qoi_op d n q = qoi_op d' n q"
  unfolding qoi_op_def by (cases "q_cur q") (simp add: Let_def)

text \<open>
  Only the bytes of the file decide the result: two buffers that agree on the first \<open>n\<close> bytes are
  decoded alike, whatever follows in memory.
\<close>

theorem qoi_reads_inside:
  assumes "\<forall>i < n. d i = d' i"
  shows "qoi_decode avail fresh d n = qoi_decode avail fresh d' n"
proof (cases "n < 14")
  case False
  have pix: "qoi_pixel d n c q = qoi_pixel d' n c q" for c q
    by (simp add: qoi_pixel_def qoi_op_cong [OF assms])
  have "qoi_loop d n c k q = qoi_loop d' n c k q" for c k q
    by (induction k arbitrary: c q) (simp_all add: pix split: option.split)
  then have "qoi_loop d n = qoi_loop d' n" by (intro ext)
  moreover have "bytes_at d 0 4 = bytes_at d' 0 4" "be32 d 4 = be32 d' 4" "be32 d 8 = be32 d' 8" "d 12 = d' 12"
    using False assms by (simp_all add: bytes_at_def be32_def upt_rec)
  ultimately show ?thesis by (simp add: qoi_decode_def Let_def cong: option.case_cong)
qed (simp add: qoi_decode_def)

lemma qoi_reads_inside_witness:
  "qoi_decode (\<lambda>_ _. True) (\<lambda>_. 0) ((!) [0x71, 0x6F]) 2 = qoi_decode (\<lambda>_ _. True) (\<lambda>_. 0) ((!) [0x71, 0x6F, 9]) 2"
  by (rule qoi_reads_inside) (simp add: less_Suc_eq numeral_2_eq_2)

end
