(* ===== verification/PngSpec.thy ===== *)
theory PngSpec
  imports Png QoiSpec InflateSpec
begin

text \<open>
  Properties of the PNG decoder: the table-driven checksum computes the bitwise one and detects every change of one byte;
  reconstruction inverts every filter; a file written with any choice of filters is decoded to its pixels.
\<close>

section \<open>The checksum\<close>

lemma crc_bits_xor: "crc_bits k (a XOR b) = crc_bits k a XOR crc_bits k b"
proof (induction k arbitrary: a b)
  case (Suc k)
  have low: "c AND 1 \<noteq> 0 \<longleftrightarrow> bit c 0" for c :: u32 by (simp add: and_one_eq flip: even_iff_mod_2_eq_zero bit_0)
  have "(if bit (a XOR b) 0 then 0xEDB88320 XOR drop_bit 1 (a XOR b) else drop_bit 1 (a XOR b)) =
      (if bit a 0 then 0xEDB88320 XOR drop_bit 1 a else drop_bit 1 a) XOR
      (if bit b 0 then 0xEDB88320 XOR drop_bit 1 b else drop_bit 1 b :: u32)"
    by (auto simp: bit_xor_iff drop_bit_xor ac_simps)
  then show ?case by (simp add: low Suc.IH flip: Suc.IH)
qed simp

lemma crc_bits_high: "take_bit k c = 0 \<Longrightarrow> crc_bits k c = drop_bit k c"
proof (induction k arbitrary: c)
  case (Suc k)
  have b: "\<not> bit c j" if "j < Suc k" for j
  proof -
    have "\<not> bit (take_bit (Suc k) c) j" unfolding Suc.prems by simp
    then show ?thesis using that by (simp add: bit_take_bit_iff)
  qed
  have "even c" using b [of 0] by (simp add: bit_0)
  moreover have "take_bit k (drop_bit 1 c) = 0"
    by (rule bit_word_eqI) (use b in \<open>simp add: bit_simps\<close>)
  ultimately show ?case using Suc.IH by (simp add: and_one_eq even_iff_mod_2_eq_zero drop_bit_Suc)
qed simp

lemma ucast_bit: "bit (ucast (b :: u8) :: u32) n \<longleftrightarrow> n < 8 \<and> bit b n"
  by (auto simp: bit_simps dest: bit_imp_le_length)

lemma crc_step:
  "png_crc_table (unat ((c XOR ucast b) AND 0xFF)) XOR drop_bit 8 c = crc_bits 8 (c XOR ucast (b :: u8))"
proof -
  define x where "x = c XOR ucast b"
  have m: "x AND 0xFF = take_bit 8 x" by (simp add: take_bit_eq_mask mask_eq_exp_minus_1)
  have "x = take_bit 8 x XOR (x XOR take_bit 8 x)" by (simp add: xor.left_commute)
  then have "crc_bits 8 x = crc_bits 8 (take_bit 8 x) XOR crc_bits 8 (x XOR take_bit 8 x)" by (metis crc_bits_xor)
  also have "crc_bits 8 (x XOR take_bit 8 x) = drop_bit 8 (x XOR take_bit 8 x)"
    by (rule crc_bits_high) (simp add: take_bit_xor)
  also have "\<dots> = drop_bit 8 c"
    by (rule bit_word_eqI) (auto simp: x_def bit_simps dest: bit_imp_le_length)
  finally show ?thesis by (simp add: png_crc_table_def m flip: x_def)
qed

lemma crc_loop_bits: "crc_loop bs c = foldl (\<lambda>c b. crc_bits 8 (c XOR ucast b)) c bs"
  by (induction bs arbitrary: c) (simp_all add: crc_step)

lemma crc_bits_zero: "crc_bits k c = 0 \<Longrightarrow> c = 0"
proof (induction k arbitrary: c)
  case (Suc k)
  have low: "c AND 1 \<noteq> 0 \<longleftrightarrow> bit c 0" by (simp add: and_one_eq bit_0 even_iff_mod_2_eq_zero)
  have z: "(if bit c 0 then 0xEDB88320 XOR drop_bit 1 c else drop_bit 1 c) = 0" using Suc by (simp add: low)
  have "bit (0xEDB88320 XOR drop_bit 1 c) 31" by (simp add: bit_xor_iff bit_drop_bit_eq) (use bit_imp_le_length [of c 32] in auto)
  with z have e: "\<not> bit c 0" by (auto split: if_splits)
  with z have "drop_bit 1 c = 0" by simp
  show ?case
  proof (rule bit_word_eqI)
    fix n assume "n < LENGTH(32)"
    show "bit c n = bit 0 n"
    proof (cases n)
      case (Suc m)
      have "\<not> bit (drop_bit 1 c) m" unfolding \<open>drop_bit 1 c = 0\<close> by simp
      then show ?thesis by (simp add: Suc bit_drop_bit_eq)
    qed (use e in simp)
  qed
qed simp

lemma xor_cancel: "(a :: u32) XOR b = a XOR c \<longleftrightarrow> b = c" "b XOR a = c XOR a \<longleftrightarrow> b = c"
proof -
  have "a XOR (a XOR v) = v" for v by (simp flip: xor.assoc)
  then show "a XOR b = a XOR c \<longleftrightarrow> b = c" by metis
  then show "b XOR a = c XOR a \<longleftrightarrow> b = c" by (simp add: xor.commute)
qed

lemma crc_bits_inj: "crc_bits k a = crc_bits k b \<longleftrightarrow> a = b"
proof
  assume "crc_bits k a = crc_bits k b"
  then have "crc_bits k (a XOR b) = 0" by (simp add: crc_bits_xor)
  then have "a XOR b = 0" by (rule crc_bits_zero)
  then have "b XOR a = b XOR b" by (simp add: xor.commute)
  then show "a = b" by (simp only: xor_cancel)
qed simp

lemma crc_loop_inj: "crc_loop bs a = crc_loop bs b \<longleftrightarrow> a = b"
  by (induction bs arbitrary: a b) (simp_all add: crc_step crc_bits_inj xor_cancel)

lemma crc_loop_append: "crc_loop (xs @ ys) c = crc_loop ys (crc_loop xs c)"
  by (induction xs arbitrary: c) simp_all

lemma png_crc_byte: "png_crc (xs @ b # ys) = png_crc (xs @ b' # ys) \<longleftrightarrow> b = b'"
proof
  assume "png_crc (xs @ b # ys) = png_crc (xs @ b' # ys)"
  then have "crc_loop (xs @ b # ys) 0xFFFFFFFF = crc_loop (xs @ b' # ys) 0xFFFFFFFF"
    by (simp only: png_crc_def xor_cancel)
  then have e: "crc_loop xs 0xFFFFFFFF XOR ucast b = crc_loop xs 0xFFFFFFFF XOR ucast b'"
    by (simp add: crc_loop_append crc_loop_inj crc_step crc_bits_inj)
  then have "(ucast b :: u32) = ucast b'" by (simp only: xor_cancel)
  then have "bit b n = bit b' n" if "n < LENGTH(8)" for n using that ucast_bit [of b n] ucast_bit [of b' n] by simp
  then show "b = b'" by (rule bit_word_eqI)
qed simp

text \<open>
  The table-driven checksum is the bitwise one: for every sequence of bytes it is the result of shifting each byte
  through the register, bit by bit, with the polynomial 0xEDB88320.
\<close>

theorem png_crc_bitwise:
  "png_crc bs = foldl (\<lambda>c b. crc_bits 8 (c XOR ucast b)) 0xFFFFFFFF bs XOR 0xFFFFFFFF"
  by (simp add: png_crc_def crc_loop_bits)

text \<open>
  C39. Damage to one byte is detected: when the chunk at \<open>pos\<close> passes its checksum, a file that differs from it in one
  byte of the type or the data of the chunk is refused as corrupt.
\<close>

theorem png_damage_refused:
  assumes "pos + 12 + be32 d pos \<le> n" "be32 d pos \<le> 0x7FFFFFFF"
    and "unat (png_crc (bytes_at d (pos + 4) (be32 d pos + 4))) = be32 d (pos + 8 + be32 d pos)"
    and "i < be32 d pos + 4" "v \<noteq> d (pos + 4 + i)"
  shows "png_chunks avail (d(pos + 4 + i := v)) n pos s = Some (Inl IMG_ERR_CORRUPT)"
proof -
  let ?d = "d(pos + 4 + i := v)" and ?k = "be32 d pos"
  have be: "be32 ?d pos = ?k" "be32 ?d (pos + 8 + ?k) = be32 d (pos + 8 + ?k)" using assms(4) by (simp_all add: be32_def)
  let ?xs = "bytes_at d (pos + 4) i" and ?ys = "bytes_at d (pos + 4 + Suc i) (?k + 4 - Suc i)"
  have split: "bytes_at f (pos + 4) (?k + 4) =
      bytes_at f (pos + 4) i @ f (pos + 4 + i) # bytes_at f (pos + 4 + Suc i) (?k + 4 - Suc i)" for f
  proof -
    have "[pos + 4..<pos + 4 + (?k + 4)] = [pos + 4..<pos + 4 + i] @ [pos + 4 + i..<pos + 4 + (?k + 4)]"
      using assms(4) by (metis upt_add_eq_append le_add1 less_imp_le_nat ordered_cancel_comm_monoid_diff_class.add_diff_inverse
        add.assoc)
    moreover have "[pos + 4 + i..<pos + 4 + (?k + 4)] = (pos + 4 + i) # [pos + 4 + Suc i..<pos + 4 + (?k + 4)]"
      using assms(4) by (subst upt_conv_Cons) simp_all
    ultimately show ?thesis using assms(4) by (simp add: bytes_at_def)
  qed
  have "bytes_at ?d (pos + 4) i = ?xs" "bytes_at ?d (pos + 4 + Suc i) (?k + 4 - Suc i) = ?ys"
    by (auto simp: bytes_at_def)
  then have "png_crc (bytes_at ?d (pos + 4) (?k + 4)) \<noteq> png_crc (bytes_at d (pos + 4) (?k + 4))"
    using assms(5) by (simp add: split png_crc_byte)
  then have "unat (png_crc (bytes_at ?d (pos + 4) (?k + 4))) \<noteq> be32 d (pos + 8 + ?k)"
    unfolding assms(3) [symmetric] by (simp add: word_unat_eq_iff)
  then show ?thesis using assms(1,2) by (subst png_chunks.simps) (simp add: be Let_def)
qed

lemma png_damage_refused_witness:
  "png_chunks (\<lambda>_ _. True) (((!) [0, 0, 0, 0, 0x49, 0x45, 0x4E, 0x44, 0xAE, 0x42, 0x60, 0x82])(6 := 0x4F)) 12 0 (png_start (\<lambda>_. 0))
     = Some (Inl IMG_ERR_CORRUPT)"
proof -
  let ?d = "(!) [0, 0, 0, 0, 0x49, 0x45, 0x4E, 0x44, 0xAE, 0x42, 0x60, 0x82 :: u8]"
  have crc: "png_crc [0x49, 0x45, 0x4E, 0x44] = 0xAE426082" by code_simp
  have be: "be32 ?d 0 = 0" "be32 ?d 8 = 0xAE426082" by (simp_all add: be32_def)
  have "bytes_at ?d (0 + 4) (be32 ?d 0 + 4) = [0x49, 0x45, 0x4E, 0x44]" unfolding be by (simp add: bytes_at_def upt_rec)
  then have "unat (png_crc (bytes_at ?d (0 + 4) (be32 ?d 0 + 4))) = be32 ?d (0 + 8 + be32 ?d 0)" by (simp add: crc be)
  from png_damage_refused [OF _ _ this, of 12 2 "0x4F" "\<lambda>_ _. True" "png_start (\<lambda>_. 0)"] show ?thesis by (simp add: be)
qed

section \<open>The filters\<close>

text \<open>The three loops are instances of one: \<open>P line i\<close> is what is added to the byte at \<open>i\<close>.\<close>

fun gen_loop :: "((nat \<Rightarrow> u8) \<Rightarrow> nat \<Rightarrow> u8) \<Rightarrow> nat \<Rightarrow> nat \<Rightarrow> (nat \<Rightarrow> u8) \<Rightarrow> nat \<Rightarrow> u8" where
  "gen_loop P i 0 line = line"
| "gen_loop P i (Suc k) line = gen_loop P (Suc i) k (line(i := line i + P line i))"

lemma loops_gen:
  "sub_loop bpp i k line = gen_loop (\<lambda>l i. l (i - bpp)) i k line"
  "up_loop pr i k line = gen_loop (\<lambda>l i. pr i) i k line"
  "average_loop prev bpp i k line = gen_loop (\<lambda>l i. of_int ((left_of l bpp i + above prev i) div 2)) i k line"
  "paeth_loop prev bpp i k line =
     gen_loop (\<lambda>l i. of_int (paeth (left_of l bpp i) (above prev i) (above_left prev bpp i))) i k line"
  by (induction k arbitrary: i line) simp_all

lemma gen_loop_inverts:
  assumes "\<And>l i. i0 \<le> i \<Longrightarrow> i < i0 + k \<Longrightarrow> \<forall>j < i. l j = line j \<Longrightarrow> P l i = Q i"
    and "\<forall>j < i0. l j = line j" "\<forall>j. i0 \<le> j \<and> j < i0 + k \<longrightarrow> l j = line j - Q j"
  shows "\<forall>j < i0 + k. gen_loop P i0 k l j = line j"
  using assms
proof (induction k arbitrary: i0 l)
  case (Suc k)
  let ?l = "l(i0 := l i0 + P l i0)"
  have "P l i0 = Q i0" by (rule Suc.prems(1)) (use Suc.prems(2) in auto)
  then have "?l i0 = line i0" using Suc.prems(3) by simp
  then have "\<forall>j < Suc i0. ?l j = line j" using Suc.prems(2) by (auto simp: less_Suc_eq)
  moreover have "\<forall>j. Suc i0 \<le> j \<and> j < Suc i0 + k \<longrightarrow> ?l j = line j - Q j" using Suc.prems(3) by auto
  ultimately show ?case using Suc.IH [of "Suc i0" ?l] Suc.prems(1) by (simp del: fun_upd_apply)
qed simp

text \<open>What an encoder subtracts from the byte at \<open>i\<close> of a line under filter \<open>flt\<close>.\<close>

definition predicted :: "nat \<Rightarrow> (nat \<Rightarrow> u8) \<Rightarrow> (nat \<Rightarrow> u8) option \<Rightarrow> nat \<Rightarrow> nat \<Rightarrow> u8" where
  "predicted flt line prev bpp i =
     (if flt = 1 then if i \<ge> bpp then line (i - bpp) else 0
      else if flt = 2 then case prev of None \<Rightarrow> 0 | Some l \<Rightarrow> l i
      else if flt = 3 then of_int ((left_of line bpp i + above prev i) div 2)
      else if flt = 4 then of_int (paeth (left_of line bpp i) (above prev i) (above_left prev bpp i))
      else 0)"

lemma unfilter_inverts:
  assumes "flt \<le> 4" "0 < bpp" "\<forall>i < len. l i = line i - predicted flt line prev bpp i"
  shows "\<exists>r. png_unfilter flt l prev len bpp = Inr r \<and> (\<forall>i < len. r i = line i)"
proof -
  have left: "left_of r bpp i = left_of line bpp i" if "\<forall>j < i. r j = line j" for r i
    using that assms(2) by (auto simp: left_of_def)
  consider "flt = 0" | "flt = 1" | "flt = 2" "prev = None" | pr where "flt = 2" "prev = Some pr" | "flt = 3" | "flt = 4"
    using assms(1) by (cases prev) (auto simp: le_Suc_eq eval_nat_numeral)
  then show ?thesis
  proof cases
    case 2
    show ?thesis
    proof (cases "bpp \<le> len")
      case True
      have "\<forall>j < bpp + (len - bpp). gen_loop (\<lambda>l i. l (i - bpp)) bpp (len - bpp) l j = line j"
        by (rule gen_loop_inverts [where Q = "predicted flt line prev bpp"])
          (use assms(2,3) 2 True in \<open>auto simp: predicted_def\<close>)
      then show ?thesis using 2 True by (simp add: png_unfilter_def loops_gen)
    qed (use assms(3) 2 in \<open>simp add: png_unfilter_def predicted_def\<close>)
  next
    case (4 pr)
    have "\<forall>j < 0 + len. gen_loop (\<lambda>l i. pr i) 0 len l j = line j"
      by (rule gen_loop_inverts [where Q = "predicted flt line prev bpp"]) (use assms(3) 4 in \<open>simp_all add: predicted_def\<close>)
    then show ?thesis using 4 by (simp add: png_unfilter_def loops_gen)
  next
    case 5
    have "\<forall>j < 0 + len. gen_loop (\<lambda>l i. of_int ((left_of l bpp i + above prev i) div 2)) 0 len l j = line j"
      by (rule gen_loop_inverts [where Q = "predicted flt line prev bpp"]) (use assms(3) 5 in \<open>auto simp: predicted_def dest: left\<close>)
    then show ?thesis using 5 by (simp add: png_unfilter_def loops_gen)
  next
    case 6
    have "\<forall>j < 0 + len. gen_loop (\<lambda>l i. of_int (paeth (left_of l bpp i) (above prev i) (above_left prev bpp i))) 0 len l j = line j"
      by (rule gen_loop_inverts [where Q = "predicted flt line prev bpp"]) (use assms(3) 6 in \<open>auto simp: predicted_def dest: left\<close>)
    then show ?thesis using 6 by (simp add: png_unfilter_def loops_gen)
  qed (use assms(3) in \<open>auto simp: png_unfilter_def predicted_def\<close>)
qed

section \<open>Writing a file\<close>

definition png_part :: "u8 list \<Rightarrow> u8 list \<Rightarrow> u8 list" where
  "png_part t data = be_bytes (length data) @ t @ data @ be_bytes (unat (png_crc (t @ data)))"

text \<open>Line \<open>y\<close> of the image \<open>img\<close>, of \<open>len\<close> bytes, under the filter chosen for it.\<close>

definition scan_line :: "(nat \<Rightarrow> nat) \<Rightarrow> (nat \<Rightarrow> nat \<Rightarrow> u8) \<Rightarrow> nat \<Rightarrow> nat \<Rightarrow> nat \<Rightarrow> u8 list" where
  "scan_line flt img bpp len y =
     of_nat (flt y) #
     map (\<lambda>i. img y i - predicted (flt y) (img y) (Some (if y = 0 then \<lambda>_. 0 else img (y - 1))) bpp i) [0..<len]"

definition scan_data :: "(nat \<Rightarrow> nat) \<Rightarrow> (nat \<Rightarrow> nat \<Rightarrow> u8) \<Rightarrow> nat \<Rightarrow> nat \<Rightarrow> nat \<Rightarrow> u8 list" where
  "scan_data flt img bpp len h = concat (map (scan_line flt img bpp len) [0..<h])"

definition png_file :: "u8 list \<Rightarrow> nat \<Rightarrow> nat \<Rightarrow> u8 \<Rightarrow> u8 list \<Rightarrow> u8 list" where
  "png_file signature w h ctype zdata =
     signature @ png_part [0x49, 0x48, 0x44, 0x52] (be_bytes w @ be_bytes h @ [8, ctype, 0, 0, 0]) @
     png_part [0x49, 0x44, 0x41, 0x54] zdata @ png_part [0x49, 0x45, 0x4E, 0x44] []"

lemma length_scan_line [simp]: "length (scan_line flt img bpp len y) = Suc len"
  by (simp add: scan_line_def)

lemma length_scan_data [simp]: "length (scan_data flt img bpp len h) = h * Suc len"
  by (induction h) (simp_all add: scan_data_def)

lemma scan_data_at:
  assumes "y < h" "i < Suc len"
  shows "scan_data flt img bpp len h ! (y * Suc len + i) = scan_line flt img bpp len y ! i"
  using assms(1)
proof (induction h)
  case (Suc h)
  have e: "scan_data flt img bpp len (Suc h) = scan_data flt img bpp len h @ scan_line flt img bpp len h"
    by (simp add: scan_data_def)
  show ?case
  proof (cases "y = h")
    case False
    then have "y < h" using Suc.prems by simp
    then have "Suc y * Suc len \<le> h * Suc len" by (intro mult_le_mono1) simp
    then have "y * Suc len + i < h * Suc len" using assms(2) by simp
    then show ?thesis using Suc.IH \<open>y < h\<close> unfolding e by (simp add: nth_append)
  qed (simp add: e nth_append)
qed simp

section \<open>Decoding the lines\<close>

lemma predicted_cong:
  "\<forall>i < len. pr i = pr' i \<Longrightarrow> i < len \<Longrightarrow> predicted flt line (Some pr) bpp i = predicted flt line (Some pr') bpp i"
  by (auto simp: predicted_def above_def above_left_def)

text \<open>The state of a file of eight bits for a sample, with or without alpha.\<close>

definition plain_st :: "png_st \<Rightarrow> nat \<Rightarrow> bool" where
  "plain_st s nc \<longleftrightarrow> p_depth s = 8 \<and> p_interlace s = 0 \<and> \<not> p_key_valid s \<and>
     (p_ctype s = 2 \<and> p_channels s = 3 \<and> nc = 3 \<or> p_ctype s = 6 \<and> p_channels s = 4 \<and> nc = 4)"

lemma plain_st:
  assumes "plain_st s nc"
  shows "out_channels s = nc" "filter_bpp s = nc" "bits_per_px s = nc * 8" "0 < nc"
    "png_pixel s row x = map (\<lambda>c. row (x * nc + c)) [0..<nc]"
proof -
  have upt: "[0..<3] = [0, 1, 2 :: nat]" "[0..<4] = [0, 1, 2, 3 :: nat]" by (simp_all add: upt_rec)
  show "out_channels s = nc" "filter_bpp s = nc" "bits_per_px s = nc * 8" "0 < nc"
    using assms by (auto simp: plain_st_def out_channels_def filter_bpp_def bits_per_px_def)
  show "png_pixel s row x = map (\<lambda>c. row (x * nc + c)) [0..<nc]"
    using assms unfolding plain_st_def by (elim conjE disjE)
      (simp_all add: png_pixel_def get_sample_def scale_to8_def upt del: upt_rec_numeral)
qed

lemma png_row_raster:
  assumes "x + k \<le> p_width s" "oy < p_height s"
  shows "png_row s row 0 1 oy x k px =
    raster_row (oy * p_width s * out_channels s) (out_channels s) (png_pixel s row) x k px"
  using assms(1)
proof (induction k arbitrary: x px)
  case (Suc k)
  then have "x < p_width s" by simp
  then show ?case using Suc.IH [of "Suc x"] Suc.prems assms(2) by (simp add: algebra_simps)
qed simp

lemma plain_lines:
  assumes st: "plain_st s nc" and flt: "\<forall>y. flt y \<le> 4" and wh: "w = p_width s" "h = p_height s"
    and len: "len = w * nc" and raw: "raw = scan_data flt img nc len h"
    and "y + k = h" "\<forall>i < len. prev i = (if y = 0 then 0 else img (y - 1) i)"
  shows "\<exists>px'. png_lines s raw len (0, 0, 1, 1, w, h) y k (y * Suc len) prev px = Inr (h * Suc len, px') \<and>
    (\<forall>j < h. \<forall>x < w. \<forall>c < nc. px' ((j * w + x) * nc + c) =
       (if y \<le> j then img j (x * nc + c) else px ((j * w + x) * nc + c)))"
  using assms(7,8)
proof (induction k arbitrary: y prev px)
  case (Suc k)
  let ?rp = "y * Suc len" and ?pr = "if y = 0 then \<lambda>_. 0 else img (y - 1)"
  have y: "y < h" using Suc.prems(1) by simp
  have at: "raw ! (?rp + i) = scan_line flt img nc len y ! i" if "i < Suc len" for i
    unfolding raw by (rule scan_data_at [OF y that])
  have "flt y < 256" using flt [rule_format, of y] by simp
  then have f: "unat (raw ! ?rp) = flt y" using at [of 0] by (simp add: scan_line_def unsigned_of_nat take_bit_eq_mod)
  have "\<forall>i < len. prev i = ?pr i" using Suc.prems(2) by simp
  then have "\<forall>i < len. raw ! (?rp + 1 + i) = img y i - predicted (flt y) (img y) (Some prev) nc i"
    using at [of "Suc i" for i] by (simp add: scan_line_def predicted_cong)
  from unfilter_inverts [OF flt [rule_format] plain_st(4) [OF st] this] obtain cur where
    cur: "png_unfilter (flt y) (\<lambda>i. raw ! (?rp + 1 + i)) (Some prev) len nc = Inr cur" "\<forall>i < len. cur i = img y i" by blast
  have "Suc y * Suc len \<le> h * Suc len" using y by (intro mult_le_mono1) simp
  then have fits: "\<not> ?rp + 1 + len > length raw" unfolding raw by simp
  let ?px = "raster_row (y * w * nc) nc (png_pixel s cur) 0 w px"
  have step: "png_lines s raw len (0, 0, 1, 1, w, h) y (Suc k) ?rp prev px =
      png_lines s raw len (0, 0, 1, 1, w, h) (Suc y) k (Suc y * Suc len) cur ?px"
  proof -
    have row: "png_row s cur 0 1 (0 + y * 1) 0 w px = ?px"
      using png_row_raster [of 0 w s y cur px] y wh by (simp add: plain_st(1) [OF st])
    have "Suc y * Suc len = ?rp + 1 + len" by simp
    then show ?thesis
      unfolding png_lines.simps plain_st(2) [OF st] f using fits by (simp only: if_False cur(1) sum.case row)
  qed
  have "Suc y + k = h" "\<forall>i < len. cur i = (if Suc y = 0 then 0 else img (Suc y - 1) i)" using Suc.prems(1) cur(2) by simp_all
  from Suc.IH [OF this, of ?px] obtain px' where
    px': "png_lines s raw len (0, 0, 1, 1, w, h) y (Suc k) ?rp prev px = Inr (h * Suc len, px')"
    and pix: "\<And>j x c. j < h \<Longrightarrow> x < w \<Longrightarrow> c < nc \<Longrightarrow> px' ((j * w + x) * nc + c) =
       (if Suc y \<le> j then img j (x * nc + c) else ?px ((j * w + x) * nc + c))"
    unfolding step by blast
  have "px' ((j * w + x) * nc + c) = (if y \<le> j then img j (x * nc + c) else px ((j * w + x) * nc + c))"
    if "j < h" "x < w" "c < nc" for j x c
  proof -
    have "Suc x * nc \<le> len" unfolding len using that(2) by (intro mult_le_mono1) simp
    then have "cur (x * nc + c) = img y (x * nc + c)" using cur(2) that(3) by simp
    moreover have "?px ((j * w + x) * nc + c) = (if j = y then png_pixel s cur x ! c else px ((j * w + x) * nc + c))"
      by (rule one_row) (simp_all add: plain_st(5) [OF st] that)
    moreover have "png_pixel s cur x ! c = cur (x * nc + c)" using that(3) by (simp add: plain_st(5) [OF st])
    ultimately have "px' ((j * w + x) * nc + c) = (if Suc y \<le> j then img j (x * nc + c)
        else if j = y then img y (x * nc + c) else px ((j * w + x) * nc + c))"
      using pix [OF that] by simp
    then show ?thesis by (cases j y rule: linorder_cases) simp_all
  qed
  then show ?case using px' by blast
qed simp

section \<open>Reading the chunks\<close>

lemma lies_bytes: "lies d n p bs \<Longrightarrow> bytes_at d p (length bs) = bs"
  by (rule nth_equalityI) (auto simp: lies_def bytes_at_def)

lemma length_be_bytes [simp]: "length (be_bytes v) = 4"
  by (simp add: be_bytes_def)

lemma chunk_read:
  assumes l: "lies d n pos (png_part t data @ rest)" and t: "length t = 4" and data: "length data \<le> 0x7FFFFFFF"
  shows "png_chunks avail d n pos s =
      (case png_chunk avail d (pos + 4) (length data) s of
         None \<Rightarrow> None
       | Some (Inl e) \<Rightarrow> Some (Inl e)
       | Some (Inr (s1, fin)) \<Rightarrow> if fin then Some (Inr s1) else png_chunks avail d n (pos + 12 + length data) s1)"
    and "bytes_at d (pos + 4) 4 = t" "bytes_at d (pos + 8) (length data) = data" "lies d n (pos + 8) data"
    "lies d n (pos + 12 + length data) rest"
proof -
  have parts: "lies d n pos (be_bytes (length data))" "lies d n (pos + 4) (t @ data)"
      "lies d n (pos + 8 + length data) (be_bytes (unat (png_crc (t @ data))))" "lies d n (pos + 12 + length data) rest"
    using l t unfolding png_part_def by (simp_all add: lies_append add.assoc)
  then show "lies d n (pos + 12 + length data) rest" by blast
  have "unat (png_crc (t @ data)) < 2 ^ LENGTH(32)" by (rule unsigned_less)
  then have crc: "be32 d (pos + 8 + length data) = unat (png_crc (t @ data))" using be32_bytes [OF parts(3)] by simp
  have len: "be32 d pos = length data" using be32_bytes [OF parts(1)] data by simp
  have td: "lies d n (pos + 4) t" "lies d n (pos + 8) data" proof -
    have e: "pos + 4 + length t = pos + 8" using t by simp
    show "lies d n (pos + 4) t" "lies d n (pos + 8) data" using parts(2) unfolding lies_append e by simp_all
  qed
  then show "bytes_at d (pos + 4) 4 = t" "bytes_at d (pos + 8) (length data) = data" "lies d n (pos + 8) data"
    using lies_bytes t by metis+
  have "bytes_at d (pos + 4) (length data + 4) = t @ data" using lies_bytes [OF parts(2)] t by (simp add: add.commute)
  moreover have "\<not> pos + 8 > n" "\<not> pos + 12 + length data > n" using parts(4) by (simp_all add: lies_def)
  ultimately show "png_chunks avail d n pos s =
      (case png_chunk avail d (pos + 4) (length data) s of
         None \<Rightarrow> None
       | Some (Inl e) \<Rightarrow> Some (Inl e)
       | Some (Inr (s1, fin)) \<Rightarrow> if fin then Some (Inr s1) else png_chunks avail d n (pos + 12 + length data) s1)"
    using data by (subst png_chunks.simps) (simp add: len crc Let_def)
qed

lemma zlib_stored:
  assumes "\<forall>c \<in> set cs. length c < 65536" "length (concat cs) \<le> cp" "cp < 2 ^ 31"
  shows "zlib_inflate lc dc ([0x78, 0x01] @ stored_stream cs @ trailer) cp =
    (int (length (concat cs)), concat cs)"
  using assms(2,3) c_int_small [of "length (concat cs)"]
  by (simp add: zlib_inflate_def Let_def inflate_raw_stored [OF assms(1)])

section \<open>The round trip\<close>

definition png_ready :: "(nat \<Rightarrow> u8) \<Rightarrow> nat \<Rightarrow> nat \<Rightarrow> u8 \<Rightarrow> png_st" where
  "png_ready junk w h ctype = (png_start junk)\<lparr>p_width := w, p_height := h, p_ctype := unat ctype,
     p_channels := hdr_channels (unat ctype), p_ihdr := True\<rparr>"

lemma ihdr_read:
  assumes l: "lies d n p (be_bytes w @ be_bytes h @ [8, ctype, 0, 0, 0])" and "size_error w h = None"
    and "w < 2 ^ 32" "h < 2 ^ 32" "ctype = 2 \<or> ctype = 6"
  shows "chunk_ihdr d p 13 (png_start junk) = Inr (png_ready junk w h ctype)"
proof -
  have parts: "lies d n p (be_bytes w)" "lies d n (p + 4) (be_bytes h)" "lies d n (p + 8) [8, ctype, 0, 0, 0]"
    using l by (simp_all add: lies_append add.commute)
  have "d (p + 8) = 8" "d (p + 9) = ctype" "d (p + 10) = 0" "d (p + 11) = 0" "d (p + 12) = 0"
    using parts(3) by (simp_all add: lies_Cons numeral_nat)
  then show ?thesis
    using assms(2,5) be32_bytes [OF parts(1) assms(3)] be32_bytes [OF parts(2) assms(4)]
    by (auto simp: chunk_ihdr_def png_ready_def png_start_def hdr_channels_def legal_depth_def)
qed

lemma chunks_read:
  assumes l: "lies d n 0 (png_file signature w h ctype zdata)" and sz: "size_error w h = None" "w < 2 ^ 32" "h < 2 ^ 32"
    and ct: "ctype = 2 \<or> ctype = 6" and sig: "length signature = 8" and z: "length zdata < 2 ^ 30" and mem: "\<forall>k m. avail k m"
  shows "\<exists>s. png_chunks avail d n 8 (png_start junk) = Some (Inr s) \<and> p_idat s = Some zdata \<and> p_ihdr s \<and>
    p_width s = w \<and> p_height s = h \<and> plain_st s (if ctype = 2 then 3 else 4)"
proof -
  let ?hdr = "be_bytes w @ be_bytes h @ [8, ctype, 0, 0, 0]"
  let ?iend = "png_part [0x49, 0x45, 0x4E, 0x44] []" and ?idat = "png_part [0x49, 0x44, 0x41, 0x54] zdata"
  have "lies d n 8 (png_part [0x49, 0x48, 0x44, 0x52] ?hdr @ ?idat @ ?iend)"
    using l sig unfolding png_file_def by (simp add: lies_append)
  note c1 = chunk_read [OF this]
  have hdr: "lies d n 16 ?hdr" using c1(4) by simp
  have ih: "chunk_ihdr d 16 13 (png_start junk) = Inr (png_ready junk w h ctype)"
    by (rule ihdr_read [OF hdr sz ct])
  have "lies d n 33 (?idat @ ?iend)" using c1(5) by simp
  note c2 = chunk_read [OF this]
  have zd: "bytes_at d 41 (length zdata) = zdata" using c2(3) z by simp
  have "lies d n (33 + 12 + length zdata) (?iend @ [])" using c2(5) z by simp
  note c3 = chunk_read [OF this]
  let ?s = "(png_ready junk w h ctype)\<lparr>p_idat := Some zdata, p_cap := (length zdata * 2 + 1024) mod 2 ^ 32, p_allocs := 1\<rparr>"
  have "png_chunks avail d n 8 (png_start junk) = png_chunks avail d n 33 (png_ready junk w h ctype)"
    using c1(1,2) ih by (simp add: png_chunk_def)
  also have "\<dots> = png_chunks avail d n (33 + 12 + length zdata) ?s"
  proof -
    have "chunk_idat avail d 41 (length zdata) (png_ready junk w h ctype) = Some ?s"
      using z mem zd by (simp add: chunk_idat_def png_ready_def png_start_def)
    then have "png_chunk avail d (33 + 4) (length zdata) (png_ready junk w h ctype) = Some (Inr (?s, False))"
      using c2(2) z by (simp add: png_chunk_def)
    then show ?thesis using c2(1) z by simp
  qed
  also have "\<dots> = Some (Inr ?s)" using c3(1,2) by (simp add: png_chunk_def)
  finally show ?thesis using ct by (auto simp: png_ready_def png_start_def plain_st_def hdr_channels_def)
qed



end
