(* ===== verification/LibcMath.thy ===== *)
theory LibcMath
  imports Prelude "HOL-Library.Signed_Division"
begin

text \<open>
  Integer arithmetic and bit manipulation in libc/systrix_libc.c.  Unsigned values are words, which wrap; an int64_t is
  an integer in the range of \<open>i64_ok\<close>, and \<^term>\<open>None\<close> is an operation that C leaves undefined: a signed result
  out of range, or a shift by the whole width.
\<close>

section \<open>The functions\<close>

definition i64_ok :: "int \<Rightarrow> bool" where "i64_ok x \<longleftrightarrow> - (2 ^ 63) \<le> x \<and> x < 2 ^ 63"
definition INT64_MAX :: int where "INT64_MAX = 2 ^ 63 - 1"
definition INT64_MIN :: int where "INT64_MIN = - (2 ^ 63)"
definition UINT64_MAX :: u64 where "UINT64_MAX = - 1"

definition signed_mul :: "int \<Rightarrow> int \<Rightarrow> int option" where
  "signed_mul a b = (if i64_ok (a * b) then Some (a * b) else None)"
definition signed_neg :: "int \<Rightarrow> int option" where
  "signed_neg a = (if i64_ok (- a) then Some (- a) else None)"

lemma unat_half: "unat (drop_bit (Suc 0) e) = unat (e :: 'a::len word) div 2"
  unfolding unat_drop_bit_eq by (simp add: drop_bit_Suc)

lemma half_less: "e \<noteq> 0 \<Longrightarrow> unat (drop_bit (Suc 0) (e :: 'a::len word)) < unat e"
  unfolding unat_half by (simp add: unat_gt_0 div_less_dividend)

function pow_u64_loop :: "u64 \<Rightarrow> u64 \<Rightarrow> u32 \<Rightarrow> u64" where
  "pow_u64_loop result base e =
     (if e = 0 then result
      else pow_u64_loop (if e AND 1 \<noteq> 0 then result * base else result) (base * base) (drop_bit 1 e))"
  by pat_completeness auto
termination by (relation "measure (\<lambda>(r, b, e). unat e)") (auto intro: half_less simp del: unat_drop_bit_eq)

definition pow_u64 :: "u64 \<Rightarrow> u32 \<Rightarrow> u64" where "pow_u64 base e = pow_u64_loop 1 base e"

function pow_i64_loop :: "int \<Rightarrow> int \<Rightarrow> u32 \<Rightarrow> int option" where
  "pow_i64_loop result base e =
     (if e = 0 then Some result
      else case (if e AND 1 \<noteq> 0 then signed_mul result base else Some result) of None \<Rightarrow> None
        | Some r \<Rightarrow> (case signed_mul base base of None \<Rightarrow> None | Some b \<Rightarrow> pow_i64_loop r b (drop_bit 1 e)))"
  by pat_completeness auto
termination by (relation "measure (\<lambda>(r, b, e). unat e)") (auto intro: half_less simp del: unat_drop_bit_eq)

declare pow_u64_loop.simps [simp del] pow_i64_loop.simps [simp del]

definition pow_i64 :: "int \<Rightarrow> u32 \<Rightarrow> int option" where "pow_i64 base e = pow_i64_loop 1 base e"

text \<open>The compiler's built-in functions; the first two are undefined at zero.\<close>

definition builtin_clzll :: "u64 \<Rightarrow> nat" where "builtin_clzll v = the (first_idx (\<lambda>i. bit v (63 - i)) 0 64)"
definition builtin_ctzll :: "u64 \<Rightarrow> nat" where "builtin_ctzll v = the (first_idx (bit v) 0 64)"
definition builtin_parityll :: "u64 \<Rightarrow> nat" where "builtin_parityll v = length (filter (bit v) [0..<64]) mod 2"

definition log2_u64 :: "u64 \<Rightarrow> int" where "log2_u64 v = (if v = 0 then -1 else 63 - int (builtin_clzll v))"

function log10_loop :: "u64 \<Rightarrow> int \<Rightarrow> int" where
  "log10_loop v n = (if v \<ge> 10 then log10_loop (v div 10) (n + 1) else n)"
  by pat_completeness auto
termination
  by (relation "measure (\<lambda>(v, n). unat v)") (auto simp: unat_div word_le_nat_alt intro!: div_less_dividend)

declare log10_loop.simps [simp del]

definition log10_u64 :: "u64 \<Rightarrow> int" where "log10_u64 v = (if v = 0 then -1 else log10_loop v 0)"

definition smear :: "nat \<Rightarrow> u64 \<Rightarrow> u64" where "smear k v = v OR drop_bit k v"

definition round_up_pow2 :: "u64 \<Rightarrow> u64" where
  "round_up_pow2 v = (if v = 0 then 1 else smear 32 (smear 16 (smear 8 (smear 4 (smear 2 (smear 1 (v - 1)))))) + 1)"

definition round_down_pow2 :: "u64 \<Rightarrow> u64" where
  "round_down_pow2 v = (if v = 0 then 0 else push_bit (nat (log2_u64 v)) 1)"

definition popcount :: "u64 \<Rightarrow> u64" where
  "popcount v =
     (let v1 = v - (drop_bit 1 v AND 0x5555555555555555);
          v2 = (v1 AND 0x3333333333333333) + (drop_bit 2 v1 AND 0x3333333333333333);
          v3 = (v2 + drop_bit 4 v2) AND 0x0f0f0f0f0f0f0f0f
      in drop_bit 56 (v3 * 0x0101010101010101))"

definition clz :: "u64 \<Rightarrow> nat" where "clz v = (if v = 0 then 64 else builtin_clzll v)"
definition ctz :: "u64 \<Rightarrow> nat" where "ctz v = (if v = 0 then 64 else builtin_ctzll v)"
definition parity_u64 :: "u64 \<Rightarrow> nat" where "parity_u64 v = builtin_parityll v"

fun reverse_loop :: "u64 \<Rightarrow> u64 \<Rightarrow> nat \<Rightarrow> u64" where
  "reverse_loop r v 0 = r"
| "reverse_loop r v (Suc k) = reverse_loop (push_bit 1 r OR (v AND 1)) (drop_bit 1 v) k"

definition reverse_bits :: "u64 \<Rightarrow> u64" where "reverse_bits v = reverse_loop 0 v 64"

definition reverse_byte :: "u8 \<Rightarrow> u8" where
  "reverse_byte v =
     (let v1 = drop_bit 4 (v AND 0xF0) OR push_bit 4 (v AND 0x0F);
          v2 = drop_bit 2 (v1 AND 0xCC) OR push_bit 2 (v1 AND 0x33)
      in drop_bit 1 (v2 AND 0xAA) OR push_bit 1 (v2 AND 0x55))"

definition shift_left :: "'a::len word \<Rightarrow> nat \<Rightarrow> 'a word option" where
  "shift_left v n = (if n < LENGTH('a) then Some (push_bit n v) else None)"
definition shift_right :: "'a::len word \<Rightarrow> nat \<Rightarrow> 'a word option" where
  "shift_right v n = (if n < LENGTH('a) then Some (drop_bit n v) else None)"

definition or_both :: "'a::len word option \<Rightarrow> 'a word option \<Rightarrow> 'a word option" where
  "or_both a b = (case a of None \<Rightarrow> None | Some x \<Rightarrow> (case b of None \<Rightarrow> None | Some y \<Rightarrow> Some (x OR y)))"

definition rotl64 :: "u64 \<Rightarrow> u32 \<Rightarrow> u64 option" where
  "rotl64 v n = (let k = unat (n AND 63) in or_both (shift_left v k) (shift_right v (64 - k)))"
definition rotr64 :: "u64 \<Rightarrow> u32 \<Rightarrow> u64 option" where
  "rotr64 v n = (let k = unat (n AND 63) in or_both (shift_right v k) (shift_left v (64 - k)))"
definition rotl32 :: "u32 \<Rightarrow> u32 \<Rightarrow> u32 option" where
  "rotl32 v n = (let k = unat (n AND 31) in or_both (shift_left v k) (shift_right v (32 - k)))"
definition rotr32 :: "u32 \<Rightarrow> u32 \<Rightarrow> u32 option" where
  "rotr32 v n = (let k = unat (n AND 31) in or_both (shift_right v k) (shift_left v (32 - k)))"

definition bswap16 :: "u16 \<Rightarrow> u16" where "bswap16 v = drop_bit 8 v OR push_bit 8 v"
definition bswap32 :: "u32 \<Rightarrow> u32" where
  "bswap32 v = push_bit 24 (v AND 0x000000FF) OR push_bit 8 (v AND 0x0000FF00) OR
     drop_bit 8 (v AND 0x00FF0000) OR drop_bit 24 (v AND 0xFF000000)"
definition bswap64 :: "u64 \<Rightarrow> u64" where
  "bswap64 v = push_bit 32 (ucast (bswap32 (ucast (v AND 0xFFFFFFFF)))) OR ucast (bswap32 (ucast (drop_bit 32 v)))"

text \<open>The overflow tests return the flag and what is stored; \<^term>\<open>None\<close> in its place is no store.\<close>

definition add_overflow_u64 :: "u64 \<Rightarrow> u64 \<Rightarrow> bool \<times> u64" where
  "add_overflow_u64 a b = (a + b < a, a + b)"
definition mul_overflow_u64 :: "u64 \<Rightarrow> u64 \<Rightarrow> bool \<times> u64 option" where
  "mul_overflow_u64 a b = (if a \<noteq> 0 \<and> b > UINT64_MAX div a then (True, None) else (False, Some (a * b)))"
definition add_overflow_i64 :: "int \<Rightarrow> int \<Rightarrow> bool \<times> int" where
  "add_overflow_i64 a b =
     (let out = sint (word_of_int a + word_of_int b :: u64) in (b > 0 \<and> out < a \<or> b < 0 \<and> out > a, out))"
definition mul_overflow_i64 :: "int \<Rightarrow> int \<Rightarrow> bool \<times> int option" where
  "mul_overflow_i64 a b =
     (if a = 0 \<or> b = 0 then (False, Some 0)
      else if a > 0 \<and> b > 0 \<and> a > INT64_MAX sdiv b then (True, None)
      else if a < 0 \<and> b < 0 \<and> a < INT64_MAX sdiv b then (True, None)
      else if a > 0 \<and> b < 0 \<and> b < INT64_MIN sdiv a then (True, None)
      else if a < 0 \<and> b > 0 \<and> a < INT64_MIN sdiv b then (True, None)
      else (False, signed_mul a b))"

function gcd_u64 :: "u64 \<Rightarrow> u64 \<Rightarrow> u64" where
  "gcd_u64 a b = (if b = 0 then a else gcd_u64 b (a mod b))"
  by pat_completeness auto
termination
  by (relation "measure (\<lambda>(a, b). unat b)") (auto simp: unat_mod unat_gt_0 intro!: mod_less_divisor)

declare gcd_u64.simps [simp del]

definition lcm_u64 :: "u64 \<Rightarrow> u64 \<Rightarrow> u64" where
  "lcm_u64 a b =
     (if a = 0 \<or> b = 0 then 0
      else case mul_overflow_u64 (a div gcd_u64 a b) b of (True, _) \<Rightarrow> 0 | (False, out) \<Rightarrow> the out)"

definition sat_add_u64 :: "u64 \<Rightarrow> u64 \<Rightarrow> u64" where
  "sat_add_u64 a b = (let r = a + b in if r < a then UINT64_MAX else r)"
definition sat_sub_u64 :: "u64 \<Rightarrow> u64 \<Rightarrow> u64" where "sat_sub_u64 a b = (if a < b then 0 else a - b)"
definition sat_add_i64 :: "int \<Rightarrow> int \<Rightarrow> int" where
  "sat_add_i64 a b =
     (case add_overflow_i64 a b of (flag, r) \<Rightarrow> if flag then if b > 0 then INT64_MAX else INT64_MIN else r)"
definition sat_sub_i64 :: "int \<Rightarrow> int \<Rightarrow> int option" where
  "sat_sub_i64 a b =
     (case signed_neg b of None \<Rightarrow> None
      | Some nb \<Rightarrow> (case add_overflow_i64 a nb of
          (flag, r) \<Rightarrow> Some (if flag then if b < 0 then INT64_MAX else INT64_MIN else r)))"

definition div_round_up :: "int \<Rightarrow> int \<Rightarrow> int option" where
  "div_round_up n d =
     (if d \<noteq> 0 \<and> i64_ok (n + d) \<and> i64_ok (n + d - 1) \<and> i64_ok ((n + d - 1) sdiv d) then Some ((n + d - 1) sdiv d) else None)"
definition udiv_round_up :: "u64 \<Rightarrow> u64 \<Rightarrow> u64 option" where
  "udiv_round_up n d = (if d = 0 then None else Some ((n + d - 1) div d))"

section \<open>Powers\<close>

lemma and_one_odd: "((e :: 'a::len word) AND 1 \<noteq> 0) = odd (unat e)"
proof -
  have "odd e = bit e 0" by (simp add: bit_0)
  also have "\<dots> = bit (unat e) 0" by (simp only: bit_unsigned_iff) simp
  finally show ?thesis by (simp add: and_one_eq bit_0 of_bool_eq_1_iff odd_iff_mod_2_eq_one)
qed

lemma split_half: "unat e = 2 * (unat e div 2) + of_bool (odd (unat e))"
  by simp

lemma pow_loop: "pow_u64_loop r b e = r * b ^ unat e"
proof (induction r b e rule: pow_u64_loop.induct)
  case (1 r b e)
  show ?case
  proof (cases "e = 0")
    case False
    have "b ^ unat e = (b * b) ^ (unat e div 2) * b ^ of_bool (odd (unat e))"
      by (subst split_half) (simp only: power_add power_mult power2_eq_square)
    then show ?thesis
      using 1 False by (subst pow_u64_loop.simps) (simp add: and_one_odd unat_half mult_ac)
  qed (simp add: pow_u64_loop.simps)
qed

lemma pow_u64_exact: "pow_u64 b e = b ^ unat e"
  by (simp add: pow_u64_def pow_loop)

lemma pow_i64_loop_sound: "pow_i64_loop r b e = Some x \<Longrightarrow> x = r * b ^ unat e"
proof (induction r b e arbitrary: x rule: pow_i64_loop.induct)
  case (1 r b e)
  show ?case
  proof (cases "e = 0")
    case False
    have "b ^ unat e = (b * b) ^ (unat e div 2) * b ^ of_bool (odd (unat e))"
      by (subst split_half) (simp only: power_add power_mult power2_eq_square)
    moreover obtain r1 b1 where s: "(if e AND 1 \<noteq> 0 then signed_mul r b else Some r) = Some r1" "signed_mul b b = Some b1"
        "pow_i64_loop r1 b1 (drop_bit 1 e) = Some x"
      using 1(2) False by (subst (asm) pow_i64_loop.simps) (auto split: option.splits)
    moreover have "x = r1 * b1 ^ (unat e div 2)" using 1(1) [OF False s] by (simp add: unat_half)
    ultimately show ?thesis by (auto simp: and_one_odd signed_mul_def split: if_splits)
  qed (use 1(2) in \<open>simp add: pow_i64_loop.simps\<close>)
qed

lemma pow_i64_sound: "pow_i64 b e = Some x \<Longrightarrow> x = b ^ unat e"
  by (drule pow_i64_loop_sound [of 1, folded pow_i64_def]) simp

lemma pow_i64_undefined: "pow_i64 (2 ^ 32) 1 = None"
  by (simp add: pow_i64_def pow_i64_loop.simps signed_mul_def i64_ok_def)

section \<open>Overflow and saturation\<close>

lemma add_overflow_u64_exact:
  "add_overflow_u64 a b = (unat a + unat b \<ge> 2 ^ 64, word_of_nat (unat a + unat b))"
proof -
  have "(a + b < a) = (unat a + unat b \<ge> 2 ^ 64)"
    using unsigned_less [of a, where 'a = nat] unsigned_less [of b, where 'a = nat]
    by (auto simp: word_less_nat_alt unat_word_ariths mod_if)
  then show ?thesis by (simp add: add_overflow_u64_def)
qed

lemma mul_overflow_u64_exact:
  "mul_overflow_u64 a b = (if unat a * unat b \<ge> 2 ^ 64 then (True, None) else (False, Some (a * b)))"
proof (cases "a = 0")
  case False
  then have "0 < unat a" by (simp add: unat_gt_0)
  moreover have "unat UINT64_MAX = 2 ^ 64 - 1" by (simp add: UINT64_MAX_def unsigned_minus_1_eq_mask mask_eq_exp_minus_1)
  ultimately have "(b > UINT64_MAX div a) = (unat a * unat b \<ge> 2 ^ 64)"
    by (simp add: word_less_nat_alt unat_div div_less_iff_less_mult) (auto simp: mult.commute)
  then show ?thesis using False by (simp add: mul_overflow_u64_def)
qed (simp add: mul_overflow_u64_def)

lemma wrap_i64: "i64_ok x \<Longrightarrow> sint (word_of_int x :: u64) = x"
  by (simp add: signed_of_int i64_ok_def signed_take_bit_int_eq_self)

lemma wrap_sum:
  assumes "i64_ok a" "i64_ok b"
  shows "sint (word_of_int a + word_of_int b :: u64) = (if i64_ok (a + b) then a + b else if a + b \<ge> 0 then a + b - 2 ^ 64 else a + b + 2 ^ 64)"
proof -
  have "(word_of_int a + word_of_int b :: u64) = word_of_int (a + b)" by simp
  moreover have "(word_of_int (a + b) :: u64) = word_of_int (a + b - 2 ^ 64)" "(word_of_int (a + b) :: u64) = word_of_int (a + b + 2 ^ 64)"
    by (simp_all add: word_of_int_eq_iff take_bit_eq_mod)
  moreover have "i64_ok (a + b) \<or> (a + b \<ge> 0 \<and> i64_ok (a + b - 2 ^ 64)) \<or> (a + b < 0 \<and> i64_ok (a + b + 2 ^ 64))"
    using assms by (auto simp: i64_ok_def)
  ultimately show ?thesis using wrap_i64 by (smt (verit))
qed

lemma add_overflow_i64_exact:
  assumes "i64_ok a" "i64_ok b"
  shows "fst (add_overflow_i64 a b) = (\<not> i64_ok (a + b)) \<and> (i64_ok (a + b) \<longrightarrow> snd (add_overflow_i64 a b) = a + b)"
  using assms wrap_sum [OF assms] by (auto simp: add_overflow_i64_def Let_def i64_ok_def split: if_splits)

lemma pos_div_less: "0 < (b :: int) \<Longrightarrow> (m div b < a) = (m < a * b)"
proof -
  assume b: "0 < b"
  have "a \<le> m div b \<longleftrightarrow> a * b \<le> m"
  proof
    assume "a \<le> m div b"
    then have "a * b \<le> m div b * b" using b by simp
    also have "\<dots> \<le> m" using div_mult_mod_eq [of m b] pos_mod_sign [OF b, of m] by linarith
    finally show "a * b \<le> m" .
  next
    assume "a * b \<le> m"
    then have "a * b div b \<le> m div b" using b by (rule zdiv_mono1)
    then show "a \<le> m div b" using b by simp
  qed
  then show ?thesis by linarith
qed

lemma mul_overflow_i64_exact:
  assumes "i64_ok a" "i64_ok b"
  shows "mul_overflow_i64 a b = (if i64_ok (a * b) then (False, Some (a * b)) else (True, None))"
proof -
  consider "a = 0 \<or> b = 0" | "a > 0" "b > 0" | "a < 0" "b < 0" | "a > 0" "b < 0" | "a < 0" "b > 0" by linarith
  then show ?thesis
  proof cases
    case 1
    then show ?thesis by (auto simp: mul_overflow_i64_def i64_ok_def)
  next
    case 2
    have "- 9223372036854775808 \<le> a * b" using mult_pos_pos [OF 2] by linarith
    then have "(a > INT64_MAX sdiv b) = (\<not> i64_ok (a * b))"
      using 2 by (auto simp: signed_divide_int_def INT64_MAX_def pos_div_less i64_ok_def)
    then show ?thesis using 2 by (simp add: mul_overflow_i64_def signed_mul_def)
  next
    case 3
    then have "(a < INT64_MAX sdiv b) = (INT64_MAX div (- b) < - a)" by (simp add: signed_divide_int_def INT64_MAX_def) linarith
    also have "\<dots> = (\<not> i64_ok (a * b))"
      using 3 mult_neg_neg [OF 3] by (auto simp: pos_div_less INT64_MAX_def i64_ok_def)
    finally show ?thesis using 3 by (simp add: mul_overflow_i64_def signed_mul_def)
  next
    case 4
    then have "(b < INT64_MIN sdiv a) = (2 ^ 63 div a < - b)" by (simp add: signed_divide_int_def INT64_MIN_def) linarith
    also have "\<dots> = (\<not> i64_ok (a * b))"
      using 4 mult_pos_neg [OF 4] by (auto simp: pos_div_less i64_ok_def mult.commute)
    finally show ?thesis using 4 by (simp add: mul_overflow_i64_def signed_mul_def)
  next
    case 5
    then have "(a < INT64_MIN sdiv b) = (2 ^ 63 div b < - a)" by (simp add: signed_divide_int_def INT64_MIN_def) linarith
    also have "\<dots> = (\<not> i64_ok (a * b))"
      using 5 mult_neg_pos [OF 5] by (auto simp: pos_div_less i64_ok_def)
    finally show ?thesis using 5 by (simp add: mul_overflow_i64_def signed_mul_def)
  qed
qed

lemma sat_add_i64_exact:
  assumes "i64_ok a" "i64_ok b"
  shows "sat_add_i64 a b = max INT64_MIN (min INT64_MAX (a + b))"
  using assms add_overflow_i64_exact [OF assms]
  by (auto simp: sat_add_i64_def i64_ok_def INT64_MIN_def INT64_MAX_def split: prod.splits)

lemma sat_sub_i64_exact:
  assumes "i64_ok a" "i64_ok b"
  shows "sat_sub_i64 a b = (if b = INT64_MIN then None else Some (max INT64_MIN (min INT64_MAX (a - b))))"
  using assms add_overflow_i64_exact [of a "- b"]
  by (auto simp: sat_sub_i64_def signed_neg_def i64_ok_def INT64_MIN_def INT64_MAX_def split: prod.splits)

lemma sat_u64_exact:
  "unat (sat_add_u64 a b) = min (2 ^ 64 - 1) (unat a + unat b)" "unat (sat_sub_u64 a b) = unat a - unat b"
proof -
  have "unat UINT64_MAX = 2 ^ 64 - 1" by (simp add: UINT64_MAX_def unsigned_minus_1_eq_mask mask_eq_exp_minus_1)
  moreover have "unat a < 2 ^ 64" "unat b < 2 ^ 64" using unsigned_less [of a, where 'a = nat] unsigned_less [of b, where 'a = nat] by simp_all
  ultimately show "unat (sat_add_u64 a b) = min (2 ^ 64 - 1) (unat a + unat b)"
    by (auto simp: sat_add_u64_def Let_def word_less_nat_alt unat_word_ariths mod_if)
  show "unat (sat_sub_u64 a b) = unat a - unat b"
    by (auto simp: sat_sub_u64_def word_less_nat_alt unat_sub_if_size)
qed

section \<open>Divisors\<close>

lemma gcd_u64_exact: "unat (gcd_u64 a b) = gcd (unat a) (unat b)"
proof (induction a b rule: gcd_u64.induct)
  case (1 a b)
  then show ?case by (subst gcd_u64.simps) (auto simp: unat_mod gcd_red_nat [of "unat a"] unsigned_eq_0_iff)
qed

lemma lcm_u64_exact:
  "unat (lcm_u64 a b) = (if lcm (unat a) (unat b) < 2 ^ 64 then lcm (unat a) (unat b) else 0)"
proof (cases "a = 0 \<or> b = 0")
  case False
  then have "unat a div gcd (unat a) (unat b) * unat b = lcm (unat a) (unat b)"
    by (simp add: lcm_nat_def dvd_div_mult)
  then show ?thesis
    using False by (auto simp: lcm_u64_def mul_overflow_u64_exact unat_div gcd_u64_exact unat_word_ariths)
qed (auto simp: lcm_u64_def)

lemma udiv_round_up_exact:
  assumes "d \<noteq> 0" "unat n + unat d \<le> 2 ^ 64"
  shows "\<exists>q. udiv_round_up n d = Some q \<and> (unat q * unat d \<ge> unat n) \<and> (unat q * unat d < unat n + unat d)"
proof -
  have d: "0 < unat d" using assms(1) by (simp add: unat_gt_0)
  have "unat (n + d - 1) = unat n + unat d - 1"
  proof -
    have "n + d - 1 = word_of_nat (unat n + unat d - 1)" using d by (simp add: of_nat_diff)
    then show ?thesis using assms(2) d by (simp only: unat_of_nat) simp
  qed
  then have "unat ((n + d - 1) div d) = (unat n + unat d - 1) div unat d" by (simp add: unat_div)
  moreover have "(unat n + unat d - 1) div unat d * unat d \<ge> unat n \<and> (unat n + unat d - 1) div unat d * unat d < unat n + unat d"
  proof -
    have "(unat n + unat d - 1) div unat d * unat d + (unat n + unat d - 1) mod unat d = unat n + unat d - 1" by simp
    moreover have "(unat n + unat d - 1) mod unat d < unat d" using d by simp
    ultimately show ?thesis using d by linarith
  qed
  ultimately show ?thesis using assms(1) by (simp add: udiv_round_up_def)
qed

section \<open>Positions of bits\<close>

lemma unat_exp: "n < 64 \<Longrightarrow> unat ((2 :: u64) ^ n) = 2 ^ n"
proof -
  assume n: "n < 64"
  have "(2 :: u64) ^ n = word_of_nat (2 ^ n)" by simp
  moreover have "(2 :: nat) ^ n < 2 ^ 64" using n by (rule power_strict_increasing) simp
  ultimately show ?thesis by (simp only: unat_of_nat) simp
qed

lemma top_bit:
  assumes "v \<noteq> 0"
  shows "builtin_clzll v < 64" "bit v (63 - builtin_clzll v)" "63 - builtin_clzll v < i \<Longrightarrow> \<not> bit v i"
proof -
  obtain n where n: "bit v n" using assms by (auto simp: bit_eq_iff)
  then have "n < 64" using bit_imp_le_length by fastforce
  then have "63 - (63 - n) = n" by simp
  with n have b: "bit v (63 - (63 - n))" by simp
  obtain k where k: "first_idx (\<lambda>i. bit v (63 - i)) 0 64 = Some k"
    by (rule first_idx_ex [of 0 "63 - n" 64 "\<lambda>i. bit v (63 - i)"]) (use b that in auto)
  note kd = first_idxD [OF k]
  have c: "builtin_clzll v = k" by (simp add: builtin_clzll_def k)
  show "builtin_clzll v < 64" "bit v (63 - builtin_clzll v)" using kd(2,3) c by simp_all
  show "\<not> bit v i" if "63 - builtin_clzll v < i" for i
  proof
    assume b: "bit v i"
    then have "i < 64" using bit_imp_le_length by fastforce
    then have "63 - i < k" "63 - (63 - i) = i" using that c kd(2) by linarith+
    then show False using kd(4) [of "63 - i"] b by simp
  qed
qed

lemma low_bit:
  assumes "v \<noteq> 0"
  shows "builtin_ctzll v < 64" "bit v (builtin_ctzll v)" "i < builtin_ctzll v \<Longrightarrow> \<not> bit v i"
proof -
  obtain n where n: "bit v n" using assms by (auto simp: bit_eq_iff)
  then have "n < 64" using bit_imp_le_length by fastforce
  then obtain k where k: "first_idx (bit v) 0 64 = Some k"
    using first_idx_ex [of 0 n 64 "bit v"] n by auto
  have c: "builtin_ctzll v = k" by (simp add: builtin_ctzll_def k)
  show "builtin_ctzll v < 64" "bit v (builtin_ctzll v)" "i < builtin_ctzll v \<Longrightarrow> \<not> bit v i"
    using first_idxD [OF k] c by simp_all
qed

lemma word_bounds:
  fixes v :: "'a::len word"
  assumes "bit v n" "\<forall>i. n < i \<longrightarrow> \<not> bit v i"
  shows "2 ^ n \<le> unat v" "unat v < 2 ^ Suc n"
proof -
  have n: "n < LENGTH('a)" using assms(1) by (rule bit_imp_le_length)
  have "take_bit (Suc n) v = v" by (rule bit_eqI) (use assms(2) in \<open>auto simp: bit_take_bit_iff not_less less_Suc_eq_le\<close>)
  then have "unat (take_bit (Suc n) v) = unat v" by simp
  then have "take_bit (Suc n) (unat v) = unat v" by (simp add: unsigned_take_bit_eq)
  then show "unat v < 2 ^ Suc n" by (metis take_bit_nat_less_exp)
  have "bit (unat v) n" using assms(1) by (simp add: bit_unsigned_iff)
  then have "odd (unat v div 2 ^ n)" by (simp add: bit_iff_odd)
  then have "unat v div 2 ^ n \<noteq> 0" by (metis even_zero)
  then show "2 ^ n \<le> unat v" by (metis div_less not_le)
qed

lemma log2_exact:
  assumes "v \<noteq> 0"
  shows "0 \<le> log2_u64 v" "2 ^ nat (log2_u64 v) \<le> unat v" "unat v < 2 ^ Suc (nat (log2_u64 v))"
proof -
  have "log2_u64 v = int (63 - builtin_clzll v)" using assms top_bit(1) [OF assms] by (simp add: log2_u64_def)
  then show "0 \<le> log2_u64 v" "2 ^ nat (log2_u64 v) \<le> unat v" "unat v < 2 ^ Suc (nat (log2_u64 v))"
    using word_bounds [OF top_bit(2) [OF assms]] top_bit(3) [OF assms] by simp_all
qed

lemma round_down_exact:
  assumes "v \<noteq> 0"
  shows "\<exists>n < 64. unat (round_down_pow2 v) = 2 ^ n \<and> 2 ^ n \<le> unat v \<and> unat v < 2 ^ Suc n"
proof -
  have "log2_u64 v = int (63 - builtin_clzll v)" using assms top_bit(1) [OF assms] by (simp add: log2_u64_def)
  then have n: "nat (log2_u64 v) < 64" by simp
  then have "unat (round_down_pow2 v) = 2 ^ nat (log2_u64 v)"
    using assms by (simp add: round_down_pow2_def unat_exp)
  then show ?thesis using n log2_exact [OF assms] by blast
qed

lemma log10_loop_exact:
  "\<exists>k. log10_loop v n = n + int k \<and> (unat v < 10 \<and> k = 0 \<or> 10 ^ k \<le> unat v \<and> unat v < 10 ^ Suc k)"
proof (induction v n rule: log10_loop.induct)
  case (1 v n)
  show ?case
  proof (cases "v \<ge> 10")
    case True
    then obtain k where k: "log10_loop (v div 10) (n + 1) = n + 1 + int k"
        "unat (v div 10) < 10 \<and> k = 0 \<or> 10 ^ k \<le> unat (v div 10) \<and> unat (v div 10) < 10 ^ Suc k" using 1 by blast
    have "unat v \<ge> 10" using True by (simp add: word_le_nat_alt)
    then have "10 ^ Suc k \<le> unat v \<and> unat v < 10 ^ Suc (Suc k)" using k(2) by (auto simp: unat_div less_eq_div_iff_mult_less_eq div_less_iff_less_mult)
    then show ?thesis using k(1) True by (intro exI [of _ "Suc k"]) (simp add: log10_loop.simps [of v])
  next
    case False
    then have "unat v < 10" by (simp add: word_le_nat_alt)
    then show ?thesis using False by (intro exI [of _ 0]) (simp add: log10_loop.simps [of v])
  qed
qed

lemma log10_exact:
  assumes "v \<noteq> 0"
  shows "\<exists>k. log10_u64 v = int k \<and> 10 ^ k \<le> unat v \<and> unat v < 10 ^ Suc k"
proof -
  have "0 < unat v" using assms by (simp add: unat_gt_0)
  then show ?thesis using log10_loop_exact [of v 0] assms by (auto simp: log10_u64_def)
qed

text \<open>Each step doubles the length of the run of ones below every bit.\<close>

lemma smear_step:
  assumes "\<forall>i. bit w i = (\<exists>j<k. bit v (i + j))"
  shows "\<forall>i. bit (smear k w) i = (\<exists>j<2 * k. bit v (i + j))"
proof
  fix i
  have "(\<exists>j<2 * k. P j) = ((\<exists>j<k. P j) \<or> (\<exists>j<k. P (k + j)))" for P :: "nat \<Rightarrow> bool"
    by (metis add_less_cancel_left le_add_diff_inverse mult_2 not_le trans_less_add1)
  then show "bit (smear k w) i = (\<exists>j<2 * k. bit v (i + j))"
    using assms by (simp add: smear_def bit_or_iff bit_drop_bit_eq ac_simps)
qed

lemma round_up_exact:
  assumes "v \<noteq> 0" "unat v \<le> 2 ^ 63"
  shows "\<exists>n. unat (round_up_pow2 v) = 2 ^ n \<and> unat v \<le> 2 ^ n \<and> (\<forall>m. unat v \<le> 2 ^ m \<longrightarrow> n \<le> m)"
proof (cases "v = 1")
  case True
  then show ?thesis by (intro exI [of _ 0]) (simp add: round_up_pow2_def smear_def)
next
  case False
  let ?u = "v - 1"
  have u0: "?u \<noteq> 0" using False by simp
  have uv: "unat v = unat ?u + 1" using assms(1) by (simp add: unat_minus_one unat_gt_0)
  define n where "n = 63 - builtin_clzll ?u"
  note t = top_bit [OF u0, folded n_def]
  have b: "2 ^ n \<le> unat ?u" "unat ?u < 2 ^ Suc n" using word_bounds [OF t(2)] t(3) by auto
  have s: "\<forall>i. bit (smear 32 (smear 16 (smear 8 (smear 4 (smear 2 (smear 1 ?u)))))) i = (\<exists>j<64. bit ?u (i + j))"
    using smear_step [OF smear_step [OF smear_step [OF smear_step [OF smear_step [OF smear_step [of ?u 1 ?u]]]]]] by simp
  have n63: "n < 63" using b(1) uv assms(2) by (metis Suc_eq_plus1 Suc_le_lessD le_less_trans power_less_imp_less_exp one_less_numeral_iff semiring_norm(76))
  have "smear 32 (smear 16 (smear 8 (smear 4 (smear 2 (smear 1 ?u))))) = mask (Suc n)"
  proof (rule bit_eqI)
    fix i assume "possible_bit TYPE(u64) i"
    have "(\<exists>j<64. bit ?u (i + j)) = (i < Suc n)"
    proof
      assume "\<exists>j<64. bit ?u (i + j)"
      then show "i < Suc n" using t(3) by (metis le_add1 less_Suc_eq_le not_le order.trans)
    next
      assume "i < Suc n"
      then have "n - i < 64" "i + (n - i) = n" using n63 by simp_all
      then show "\<exists>j<64. bit ?u (i + j)" using t(2) by metis
    qed
    then show "bit (smear 32 (smear 16 (smear 8 (smear 4 (smear 2 (smear 1 ?u)))))) i = bit (mask (Suc n) :: u64) i"
      using s n63 by (auto simp: bit_mask_iff)
  qed
  then have "round_up_pow2 v = mask (Suc n) + 1" using assms(1) by (simp add: round_up_pow2_def)
  then have "round_up_pow2 v = 2 ^ Suc n" by (simp add: mask_eq_exp_minus_1)
  then have "unat (round_up_pow2 v) = 2 ^ Suc n" using n63 unat_exp [of "Suc n"] by simp
  moreover have "Suc n \<le> m" if "unat v \<le> 2 ^ m" for m
  proof -
    have "(2::nat) ^ n < 2 ^ m" using b(1) uv that by linarith
    then show ?thesis by simp
  qed
  ultimately show ?thesis using b(2) uv by (intro exI [of _ "Suc n"]) simp
qed

end
