(* ===== verification/LibcBits.thy ===== *)
theory LibcBits
  imports LibcMath
begin

text \<open>
  The bit manipulation of libc/systrix_libc.c (defined in LibcMath) is exact: reversal, rotation and byte swapping move
  every bit where they should, and the parallel count of the bits that are set is the count.
\<close>

section \<open>Reordering bits\<close>

lemma bit_push: "bit (push_bit n (w :: 'a::len word)) i = (i < LENGTH('a) \<and> n \<le> i \<and> bit w (i - n))"
  by (auto simp: bit_push_bit_iff)

lemma bit_drop: "bit (drop_bit n (w :: 'a::len word)) i = bit w (n + i)"
  by (simp add: bit_drop_bit_eq)

lemmas bit_moves = bit_push bit_drop bit_or_iff bit_and_iff

lemma bit_lsb: "bit ((w :: 'a::len word) AND 1) i = (i = 0 \<and> bit w 0)"
  by (auto simp: bit_and_iff bit_1_iff)

lemma reverse_loop_bits:
  "k \<le> 64 \<Longrightarrow> bit (reverse_loop r v k) i = (i < 64 \<and> (if i < k then bit v (k - 1 - i) else bit r (i - k)))"
proof (induction k arbitrary: r v i)
  case 0
  then show ?case using bit_imp_le_length [of r i] by auto
next
  case (Suc k)
  then have "bit (reverse_loop r v (Suc k)) i =
      (i < 64 \<and> (if i < k then bit (drop_bit 1 v) (k - 1 - i) else bit (push_bit 1 r OR (v AND 1)) (i - k)))" by simp
  also have "\<dots> = (i < 64 \<and> (if i < Suc k then bit v (Suc k - 1 - i) else bit r (i - Suc k)))"
  proof (cases "i < k")
    case True
    then have "1 + (k - 1 - i) = Suc k - 1 - i" by simp
    then show ?thesis using True unfolding bit_drop by simp
  next
    case False
    then show ?thesis unfolding bit_or_iff bit_push bit_lsb by auto
  qed
  finally show ?case .
qed

lemma reverse_bits_exact: "bit (reverse_bits v) i = (i < 64 \<and> bit v (63 - i))"
  by (auto simp: reverse_bits_def reverse_loop_bits)

lemma reverse_bits_twice: "reverse_bits (reverse_bits v) = v"
  by (rule bit_eqI) (auto simp: reverse_bits_exact)

lemma reverse_byte_exact: "i < 8 \<Longrightarrow> bit (reverse_byte v) i = bit v (7 - i)"
proof -
  assume "i < 8"
  then consider "i = 0" | "i = 1" | "i = 2" | "i = 3" | "i = 4" | "i = 5" | "i = 6" | "i = 7" by linarith
  then show ?thesis
    by cases (simp_all only: reverse_byte_def Let_def bit_moves, simp_all add: bit_numeral_rec)
qed

lemma rotate_parts:
  assumes "0 < k" "k < LENGTH('a)"
  shows "or_both (shift_left (v :: 'a::len word) k) (shift_right v (LENGTH('a) - k)) = Some (word_rotl k v)"
    and "or_both (shift_right v k) (shift_left v (LENGTH('a) - k)) = Some (word_rotr k v)"
proof -
  have "push_bit k v OR drop_bit (LENGTH('a) - k) v = word_rotl k v"
  proof (rule bit_eqI)
    fix i assume "possible_bit TYPE('a word) i"
    then have i: "i < LENGTH('a)" by simp
    have "(i + (LENGTH('a) - k)) mod LENGTH('a) = (if k \<le> i then i - k else LENGTH('a) - k + i)"
      using i assms by (auto simp: mod_if)
    then show "bit (push_bit k v OR drop_bit (LENGTH('a) - k) v) i = bit (word_rotl k v) i"
      using i assms bit_imp_le_length [of v "LENGTH('a) - k + i"]
      unfolding bit_or_iff bit_push bit_drop bit_word_rotl_iff by (auto simp del: diff_add_assoc2)
  qed
  then show "or_both (shift_left v k) (shift_right v (LENGTH('a) - k)) = Some (word_rotl k v)"
    using assms by (simp add: or_both_def shift_left_def shift_right_def)
  have "drop_bit k v OR push_bit (LENGTH('a) - k) v = word_rotr k v"
  proof (rule bit_eqI)
    fix i assume "possible_bit TYPE('a word) i"
    then have i: "i < LENGTH('a)" by simp
    have "(i + k) mod LENGTH('a) = (if i < LENGTH('a) - k then k + i else i - (LENGTH('a) - k))"
      using i assms by (auto simp: mod_if)
    then show "bit (drop_bit k v OR push_bit (LENGTH('a) - k) v) i = bit (word_rotr k v) i"
      using i assms bit_imp_le_length [of v "k + i"]
      unfolding bit_or_iff bit_push bit_drop bit_word_rotr_iff by (auto simp del: diff_add_assoc2)
  qed
  then show "or_both (shift_right v k) (shift_left v (LENGTH('a) - k)) = Some (word_rotr k v)"
    using assms by (simp add: or_both_def shift_left_def shift_right_def)
qed

lemma rotate_amount: "unat ((n :: u32) AND 63) = unat n mod 64" "unat (n AND 31) = unat n mod 32"
proof -
  have "(63 :: u32) = mask 6" "(31 :: u32) = mask 5" by (simp_all add: mask_eq_exp_minus_1)
  then have "n AND 63 = take_bit 6 n" "n AND 31 = take_bit 5 n" by (simp_all only: take_bit_eq_mask)
  moreover have "unat (take_bit k n) = unat n mod 2 ^ k" for k
    unfolding unsigned_take_bit_eq by (rule take_bit_eq_mod)
  ultimately show "unat (n AND 63) = unat n mod 64" "unat (n AND 31) = unat n mod 32" by simp_all
qed

lemma rotates_exact:
  "rotl64 a n = (if unat n mod 64 = 0 then None else Some (word_rotl (unat n mod 64) a))"
  "rotr64 a n = (if unat n mod 64 = 0 then None else Some (word_rotr (unat n mod 64) a))"
  "rotl32 b n = (if unat n mod 32 = 0 then None else Some (word_rotl (unat n mod 32) b))"
  "rotr32 b n = (if unat n mod 32 = 0 then None else Some (word_rotr (unat n mod 32) b))"
  using rotate_parts [of "unat n mod 64" a] rotate_parts [of "unat n mod 32" b]
  by (auto simp: rotl64_def rotr64_def rotl32_def rotr32_def rotate_amount Let_def or_both_def shift_left_def shift_right_def split: option.splits)

lemma bswap16_exact: "bit (bswap16 v) i = (i < 16 \<and> bit v (if i < 8 then i + 8 else i - 8))"
  unfolding bswap16_def bit_moves using bit_imp_le_length [of v "8 + i"] by (auto simp: add.commute)

lemma bit_ff: "bit (0xFF :: u32) i = (i < 8)" "bit (0xFF00 :: u32) i = (8 \<le> i \<and> i < 16)"
    "bit (0xFF0000 :: u32) i = (16 \<le> i \<and> i < 24)" "bit (0xFF000000 :: u32) i = (24 \<le> i \<and> i < 32)"
proof -
  have "(0xFF :: u32) = mask 8" "(0xFF00 :: u32) = push_bit 8 (mask 8)" "(0xFF0000 :: u32) = push_bit 16 (mask 8)"
      "(0xFF000000 :: u32) = push_bit 24 (mask 8)"
    by (simp_all add: mask_eq_exp_minus_1)
  then show "bit (0xFF :: u32) i = (i < 8)" "bit (0xFF00 :: u32) i = (8 \<le> i \<and> i < 16)"
    "bit (0xFF0000 :: u32) i = (16 \<le> i \<and> i < 24)" "bit (0xFF000000 :: u32) i = (24 \<le> i \<and> i < 32)"
    by (auto simp only: bit_push bit_mask_iff) auto
qed

lemma in_byte: "8 * n \<le> i \<Longrightarrow> i < 8 * n + 8 \<Longrightarrow> i div 8 = n \<and> i mod 8 = i - 8 * (n :: nat)"
proof -
  assume "8 * n \<le> i" "i < 8 * n + 8"
  then obtain j where "i = 8 * n + j" "j < 8" by (metis le_Suc_ex nat_add_left_cancel_less)
  then show ?thesis by simp
qed

lemma bswap32_exact: "i < 32 \<Longrightarrow> bit (bswap32 v) i = bit v (8 * (3 - i div 8) + i mod 8)"
proof -
  assume i: "i < 32"
  then consider "i < 8" | "8 \<le> i" "i < 16" | "16 \<le> i" "i < 24" | "24 \<le> i" by linarith
  then show ?thesis
  proof cases
    case 1
    then show ?thesis unfolding bswap32_def bit_moves bit_ff by (auto simp: add.commute)
  next
    case 2
    then have "i div 8 = 1" "i mod 8 = i - 8" using in_byte [of 1 i] by simp_all
    then show ?thesis unfolding bswap32_def bit_moves bit_ff using 2 by (auto simp: add.commute)
  next
    case 3
    then have "i div 8 = 2" "i mod 8 = i - 16" using in_byte [of 2 i] by simp_all
    then show ?thesis unfolding bswap32_def bit_moves bit_ff using 3 by (auto simp: add.commute)
  next
    case 4
    then have "i div 8 = 3" "i mod 8 = i - 24" using i in_byte [of 3 i] by simp_all
    then show ?thesis unfolding bswap32_def bit_moves bit_ff using 4 i by (auto simp: add.commute)
  qed
qed

lemma bswap64_exact: "i < 64 \<Longrightarrow> bit (bswap64 v) i = bit v (8 * (7 - i div 8) + i mod 8)"
proof -
  assume i: "i < 64"
  have m: "(0xFFFFFFFF :: u64) = mask 32" by (simp add: mask_eq_exp_minus_1)
  have hi: "bit v (8 * (3 - j div 8) + j mod 8) = bit (ucast (v AND 0xFFFFFFFF) :: u32) (8 * (3 - j div 8) + j mod 8)" if "j < 32" for j
  proof -
    have "j mod 8 < 8" by simp
    then have "8 * (3 - j div 8) + j mod 8 < 32" by linarith
    then show ?thesis by (simp add: m bit_unsigned_iff bit_and_iff bit_mask_iff)
  qed
  have lo: "bit (ucast (drop_bit 32 v) :: u32) (8 * (3 - i div 8) + i mod 8) = bit v (8 * (7 - i div 8) + i mod 8)" if "i < 32"
  proof -
    have q: "8 * (3 - i div 8) + i mod 8 < 32" "32 + (8 * (3 - i div 8) + i mod 8) = 8 * (7 - i div 8) + i mod 8"
    proof -
      have "i mod 8 < 8" by simp
      then show "8 * (3 - i div 8) + i mod 8 < 32" by linarith
      have "i div 8 \<le> 3" using that by linarith
      then show "32 + (8 * (3 - i div 8) + i mod 8) = 8 * (7 - i div 8) + i mod 8" by simp
    qed
    show ?thesis unfolding bit_unsigned_iff bit_drop q(2) using q(1) by simp
  qed
  show ?thesis
  proof (cases "i < 32")
    case True
    then show ?thesis using lo by (simp add: bswap64_def bit_moves bit_unsigned_iff bswap32_exact)
  next
    case False
    then obtain j where j: "i = 32 + j" by (metis le_Suc_ex not_le)
    have "(j + 4 * 8) div 8 = 4 + j div 8" by (rule div_mult_self1) simp
    moreover have "(j + 4 * 8) mod 8 = j mod 8" by (rule mod_mult_self1)
    moreover have "i = j + 4 * 8" using j by simp
    ultimately have "i div 8 = 4 + j div 8" "i mod 8 = j mod 8" by simp_all
    then have "8 * (3 - (i - 32) div 8) + (i - 32) mod 8 = 8 * (7 - i div 8) + i mod 8" by (simp add: j)
    then show ?thesis using hi [of "i - 32"] False i bit_imp_le_length [of "bswap32 (ucast (drop_bit 32 v))" i]
      by (auto simp: bswap64_def bit_moves bit_unsigned_iff bswap32_exact)
  qed
qed

section \<open>Counting bits in parallel\<close>

text \<open>\<open>fields s ds\<close> is the number whose fields of \<open>s\<close> bits are \<open>ds\<close>, the lowest first.\<close>

fun fields :: "nat \<Rightarrow> nat list \<Rightarrow> nat" where
  "fields s [] = 0"
| "fields s (d # ds) = d + 2 ^ s * fields s ds"

fun pair_sums :: "nat list \<Rightarrow> nat list" where
  "pair_sums (a # b # ds) = (a + b) # pair_sums ds"
| "pair_sums ds = ds"

lemma bit_field: "a < 2 ^ k \<Longrightarrow> bit (a + 2 ^ k * A) i = (if i < k then bit a i else bit (A :: nat) (i - k))"
proof -
  assume a: "a < 2 ^ k"
  have "take_bit k (a + 2 ^ k * A) = a" "drop_bit k (a + 2 ^ k * A) = A"
    using a by (simp_all add: take_bit_eq_mod drop_bit_eq_div)
  then show ?thesis
    using bit_take_bit_iff [of k "a + 2 ^ k * A" i] bit_drop_bit_eq [of k "a + 2 ^ k * A"] by (cases "i < k") auto
qed

lemma and_fields:
  "a < 2 ^ k \<Longrightarrow> b < 2 ^ k \<Longrightarrow> (a + 2 ^ k * A) AND (b + 2 ^ k * B) = (a AND b) + 2 ^ k * (A AND B :: nat)"
proof -
  assume ab: "a < 2 ^ k" "b < 2 ^ k"
  have "take_bit k a = a" "take_bit k b = b" using ab by (simp_all add: take_bit_eq_mod)
  then have "take_bit k (a AND b) = a AND b" by simp
  then have "a AND b < 2 ^ k" by (metis take_bit_nat_less_exp)
  then show ?thesis using ab by (intro bit_eqI) (simp add: bit_and_iff bit_field)
qed

lemma and_low: "a < 2 ^ s \<Longrightarrow> (a + 2 ^ s * b) AND (2 ^ s - 1) = (a :: nat)"
  unfolding mask_eq_exp_minus_1 [symmetric] take_bit_eq_mask [symmetric] by (simp add: take_bit_eq_mod)

fun every_other :: "nat list \<Rightarrow> nat list" where
  "every_other (a # b # ds) = a # every_other ds"
| "every_other [] = []"
| "every_other [a] = [a]"

fun adjacent :: "nat list \<Rightarrow> nat list" where
  "adjacent (a # b # ds) = (a + b) # adjacent (b # ds)"
| "adjacent ds = ds"

definition low_halves :: "nat \<Rightarrow> nat \<Rightarrow> nat" where "low_halves s n = fields (2 * s) (replicate n (2 ^ s - 1))"

lemma two_fields: "(2 :: nat) ^ (2 * s) = 2 ^ s * 2 ^ s"
  by (simp add: mult_2 power_add)

lemma fields_halves:
  assumes "\<forall>d \<in> set ds. d < 2 ^ s" "length ds \<le> 2 * n"
  shows "fields s ds AND low_halves s n = fields (2 * s) (every_other ds)"
  using assms
proof (induction ds arbitrary: n rule: every_other.induct)
  case (1 a b ds)
  then obtain m where n: "n = Suc m" by (cases n) auto
  have ab: "a < 2 ^ s" "b < 2 ^ s" using 1(2) by auto
  have "a + 2 ^ s * b < 2 ^ s * Suc b" using ab(1) by simp
  also have "\<dots> \<le> 2 ^ s * 2 ^ s" using ab(2) by (intro mult_le_mono2) simp
  finally have lt: "a + 2 ^ s * b < 2 ^ (2 * s)" by (simp add: two_fields)
  have "(2 :: nat) ^ s \<le> 2 ^ (2 * s)" by (rule power_increasing) simp_all
  moreover have "(0 :: nat) < 2 ^ s" by simp
  ultimately have m: "(2 :: nat) ^ s - 1 < 2 ^ (2 * s)" by linarith
  have "fields s (a # b # ds) = (a + 2 ^ s * b) + 2 ^ (2 * s) * fields s ds"
    unfolding fields.simps two_fields by (simp only: algebra_simps)
  moreover have "low_halves s n = (2 ^ s - 1) + 2 ^ (2 * s) * low_halves s m" by (simp add: low_halves_def n)
  ultimately show ?case
    using 1 n by (simp only: and_fields [OF lt m] and_low [OF ab(1)]) simp
next
  case (3 d)
  then obtain m where n: "n = Suc m" by (cases n) auto
  have d: "d < 2 ^ s" using 3 by simp
  have "(2 :: nat) ^ s \<le> 2 ^ (2 * s)" by (rule power_increasing) simp_all
  moreover have "(0 :: nat) < 2 ^ s" by simp
  ultimately have m: "d < 2 ^ (2 * s)" "(2 :: nat) ^ s - 1 < 2 ^ (2 * s)" using d by linarith+
  have "low_halves s n = (2 ^ s - 1) + 2 ^ (2 * s) * low_halves s m" by (simp add: low_halves_def n)
  then show ?case using and_fields [OF m, of 0 "low_halves s m"] and_low [OF d, of 0] by simp
qed simp

lemma fields_shift: "\<forall>d \<in> set ds. d < 2 ^ s \<Longrightarrow> fields s ds div 2 ^ s = fields s (tl ds)"
  by (cases ds) auto

lemma every_other_Cons: "every_other (b # ds) = b # every_other (tl ds)"
  by (cases ds) simp_all

lemma fields_split: "even (length ds) \<Longrightarrow> fields s ds = fields (2 * s) (every_other ds) + 2 ^ s * fields (2 * s) (every_other (tl ds))"
proof (induction ds rule: every_other.induct)
  case (1 a b ds)
  then have IH: "fields s ds = fields (2 * s) (every_other ds) + 2 ^ s * fields (2 * s) (every_other (tl ds))" by simp
  show ?case unfolding every_other.simps every_other_Cons list.sel fields.simps IH two_fields by (simp only: algebra_simps)
qed simp_all

lemma fields_pairs: "even (length ds) \<Longrightarrow> fields s (every_other ds) + fields s (every_other (tl ds)) = fields s (pair_sums ds)"
proof (induction ds rule: every_other.induct)
  case (1 a b ds)
  then have IH: "fields s (pair_sums ds) = fields s (every_other ds) + fields s (every_other (tl ds))" by simp
  show ?case
    unfolding every_other.simps every_other_Cons list.sel pair_sums.simps fields.simps IH by (simp only: algebra_simps)
qed simp_all

lemma fields_adjacent: "fields s ds + fields s (tl ds) = fields s (adjacent ds)"
proof (induction ds rule: adjacent.induct)
  case (1 a b ds)
  have IH: "fields s (adjacent (b # ds)) = fields s (b # ds) + fields s ds" using 1 by simp
  show ?case unfolding adjacent.simps list.sel fields.simps(2) [of s a] fields.simps(2) [of s "a + b"] IH
    by (simp add: algebra_simps)
qed simp_all

lemma low_halves_eq: "low_halves s n * (2 ^ s + 1) + 1 = 2 ^ (2 * s * n)"
proof (induction n)
  case (Suc n)
  have "low_halves s (Suc n) = (2 ^ s - 1) + 2 ^ (2 * s) * low_halves s n" by (simp add: low_halves_def)
  then have "low_halves s (Suc n) * (2 ^ s + 1) + 1 = (2 ^ s - 1) * (2 ^ s + 1) + 1 + 2 ^ (2 * s) * (low_halves s n * (2 ^ s + 1))"
    by (simp only: algebra_simps)
  also have "((2 :: nat) ^ s - 1) * (2 ^ s + 1) + 1 = 2 ^ (2 * s)"
  proof -
    obtain k where k: "(2 :: nat) ^ s = Suc k" by (metis Suc_pred zero_less_numeral zero_less_power)
    show ?thesis unfolding two_fields k by simp
  qed
  also have "2 ^ (2 * s) + 2 ^ (2 * s) * (low_halves s n * (2 ^ s + 1)) = 2 ^ (2 * s) * (low_halves s n * (2 ^ s + 1) + 1)"
    by (simp only: algebra_simps)
  also have "\<dots> = 2 ^ (2 * s * Suc n)" unfolding Suc by (simp add: power_add)
  finally show ?case .
qed (simp add: low_halves_def)

lemma adjacent_pairs: "even (length ds) \<Longrightarrow> every_other (adjacent ds) = pair_sums ds"
proof (induction ds rule: every_other.induct)
  case (1 a b ds)
  then show ?case by (cases ds; cases "tl ds") simp_all
qed simp_all

lemma adjacent_bounds: "length (adjacent ds) = length ds" "\<forall>d \<in> set ds. d \<le> m \<Longrightarrow> \<forall>d \<in> set (adjacent ds). d \<le> 2 * m"
  by (induction ds rule: adjacent.induct) auto

lemma length_filter_sum: "length (filter P xs) = (\<Sum>x\<leftarrow>xs. of_bool (P x))"
  by (induction xs) simp_all

lemma pair_sums:
  "sum_list (pair_sums ds) = sum_list ds" "even (length ds) \<Longrightarrow> 2 * length (pair_sums ds) = length ds"
  "\<forall>d \<in> set ds. d \<le> m \<Longrightarrow> \<forall>d \<in> set (pair_sums ds). d \<le> 2 * m"
  by (induction ds rule: pair_sums.induct) auto

lemma fields_less: "\<forall>d \<in> set ds. d < 2 ^ s \<Longrightarrow> fields s ds < 2 ^ (s * length ds)"
proof (induction ds)
  case (Cons d ds)
  then have "d + 2 ^ s * fields s ds < 2 ^ s * Suc (fields s ds)" by simp
  also have "\<dots> \<le> 2 ^ s * 2 ^ (s * length ds)" using Cons by (intro mult_le_mono2) simp
  finally show ?case by (simp add: power_add)
qed simp

lemma fields_bits: "fields 1 (map (\<lambda>i. of_bool (bit v i)) [0..<n]) = take_bit n (v :: nat)"
proof -
  have "fields 1 ds = horner_sum (\<lambda>d. d) 2 ds" for ds by (induction ds) simp_all
  then have "fields 1 (map (\<lambda>i. of_bool (bit v i)) [0..<n]) = horner_sum of_bool 2 (map (bit v) [0..<n])"
    by (simp add: horner_sum_foldr foldr_map comp_def)
  then show ?thesis by (simp add: horner_sum_bit_eq_take_bit)
qed

lemma popcount_filter: "unat (popcount v) = length (filter (bit v) [0..<64])"
proof -
  define d1 where "d1 = map (\<lambda>i. of_bool (bit v i) :: nat) [0..<64]"
  define d2 where "d2 = pair_sums d1"
  define d3 where "d3 = pair_sums d2"
  define d4 where "d4 = pair_sums d3"
  have len: "length d1 = 2 * 32" "length d2 = 2 * 16" "length d3 = 2 * 8" "length d4 = 8"
    using pair_sums(2) [of d1] pair_sums(2) [of d2] pair_sums(2) [of d3] by (simp_all add: d1_def d2_def d3_def d4_def)
  have b: "\<forall>d \<in> set d1. d \<le> 1" "\<forall>d \<in> set d2. d \<le> 2" "\<forall>d \<in> set d3. d \<le> 4" "\<forall>d \<in> set d4. d \<le> 8"
    using pair_sums(3) [of d1 1] pair_sums(3) [of d2 2] pair_sums(3) [of d3 4] by (auto simp: d1_def d2_def d3_def d4_def)
  have total: "sum_list d4 = length (filter (bit v) [0..<64])"
    unfolding d4_def d3_def d2_def pair_sums(1) by (simp only: d1_def length_filter_sum)
  have f1: "fields 1 d1 = unat v"
    unfolding d1_def using fields_bits [of "unat v" 64] unsigned_less [of v, where 'a = nat] by (simp add: bit_unsigned_iff take_bit_eq_mod)
  have m: "unat (0x5555555555555555 :: u64) = low_halves 1 32" "unat (0x3333333333333333 :: u64) = low_halves 2 16"
      "unat (0x0f0f0f0f0f0f0f0f :: u64) = low_halves 4 8"
    using low_halves_eq [of 1 32] low_halves_eq [of 2 16] low_halves_eq [of 4 8] by simp_all
  have lt: "\<forall>d \<in> set d1. d < 2 ^ 1" "\<forall>d \<in> set d2. d < 2 ^ 2" "\<forall>d \<in> set d3. d < 2 ^ 4" "\<forall>d \<in> set d4. d < 2 ^ 8"
    using b by (auto intro: le_less_trans)
  have tl: "\<forall>d \<in> set (tl ds). P d" if "\<forall>d \<in> set ds. P d" for ds :: "nat list" and P using that by (cases ds) auto
  define v1 where "v1 = v - (drop_bit 1 v AND 0x5555555555555555)"
  define v2 where "v2 = (v1 AND 0x3333333333333333) + (drop_bit 2 v1 AND 0x3333333333333333)"
  define v3 where "v3 = (v2 + drop_bit 4 v2) AND 0x0f0f0f0f0f0f0f0f"
  have drop: "unat (drop_bit k w) = unat w div 2 ^ k" for k and w :: u64
    unfolding unat_drop_bit_eq by (simp add: drop_bit_eq_div take_bit_eq_mod) 
  have hi: "unat (drop_bit 1 v AND 0x5555555555555555) = fields 2 (every_other (tl d1))"
    unfolding unsigned_and_eq drop m f1 [symmetric] fields_shift [OF lt(1)]
    using fields_halves [of "tl d1" 1 32] tl [OF lt(1)] len(1) by simp
  have split: "unat v = fields 2 (every_other d1) + 2 * fields 2 (every_other (tl d1))"
    using fields_split [of d1 1] len(1) f1 by simp
  then have "unat v1 = fields 2 (every_other d1) + fields 2 (every_other (tl d1))"
    unfolding v1_def using hi by (subst unat_sub) (simp_all add: word_le_nat_alt)
  then have f2: "unat v1 = fields 2 d2" using fields_pairs [of d1 2] len(1) by (simp add: d2_def)
  have "unat (v1 AND 0x3333333333333333) = fields 4 (every_other d2)"
    unfolding unsigned_and_eq m f2 using fields_halves [OF lt(2), of 16] len(2) by simp
  moreover have "unat (drop_bit 2 v1 AND 0x3333333333333333) = fields 4 (every_other (tl d2))"
    unfolding unsigned_and_eq drop m f2 fields_shift [OF lt(2)] using fields_halves [of "tl d2" 2 16] tl [OF lt(2)] len(2) by simp
  moreover have "fields 4 (every_other d2) + fields 4 (every_other (tl d2)) = fields 4 d3"
    using fields_pairs [of d2 4] len(2) by (simp add: d3_def)
  moreover have "fields 4 d3 < 2 ^ 64" using fields_less [OF lt(3)] len(3) by simp
  ultimately have f3: "unat v2 = fields 4 d3" unfolding v2_def by (simp add: unat_word_ariths)
  have a: "\<forall>d \<in> set (adjacent d3). d < 2 ^ 4" "length (adjacent d3) = 16"
    using adjacent_bounds(2) [OF b(3)] adjacent_bounds(1) [of d3] len(3) by fastforce+
  have "unat (v2 + drop_bit 4 v2) = fields 4 (adjacent d3)"
    using fields_adjacent [of 4 d3] fields_less [OF a(1)] a(2) unfolding unat_word_ariths drop f3 fields_shift [OF lt(3)] by simp
  then have f4: "unat v3 = fields 8 d4"
    unfolding v3_def unsigned_and_eq m using fields_halves [OF a(1), of 8] a(2) adjacent_pairs [of d3] len(3) by (simp add: d4_def)
  obtain c0 c1 c2 c3 c4 c5 c6 c7 where d4: "d4 = [c0, c1, c2, c3, c4, c5, c6, c7]"
    using len(4) by (auto simp: length_Suc_conv numeral_eq_Suc)
  have "unat (v3 * 0x0101010101010101) = (fields 8 d4 * 0x0101010101010101) mod 2 ^ 64" unfolding f4 [symmetric] by (simp add: unat_word_ariths)
  then have "unat (drop_bit 56 (v3 * 0x0101010101010101)) = (fields 8 d4 * 0x0101010101010101) mod 2 ^ 64 div 2 ^ 56"
    unfolding drop by simp
  also have "\<dots> = sum_list d4"
  proof -
    define low where "low = c0 + 256 * (c0 + c1) + 65536 * (c0 + c1 + c2) + 16777216 * (c0 + c1 + c2 + c3) + 4294967296 * (c0 + c1 + c2 + c3 + c4) + 1099511627776 * (c0 + c1 + c2 + c3 + c4 + c5) + 281474976710656 * (c0 + c1 + c2 + c3 + c4 + c5 + c6)"
    define high where "high = (c1 + c2 + c3 + c4 + c5 + c6 + c7) + 256 * (c2 + c3 + c4 + c5 + c6 + c7) + 65536 * (c3 + c4 + c5 + c6 + c7) + 16777216 * (c4 + c5 + c6 + c7) + 4294967296 * (c5 + c6 + c7) + 1099511627776 * (c6 + c7) + 281474976710656 * (c7)"
    define total where "total = c0 + c1 + c2 + c3 + c4 + c5 + c6 + c7"
    have c: "c0 \<le> 8" "c1 \<le> 8" "c2 \<le> 8" "c3 \<le> 8" "c4 \<le> 8" "c5 \<le> 8" "c6 \<le> 8" "c7 \<le> 8" using b(4) d4 by simp_all
    have p: "fields 8 d4 * 0x0101010101010101 = (low + 2 ^ 56 * total) + 2 ^ 64 * high"
      by (simp add: d4 low_def high_def total_def)
    have "low < 2 ^ 56" "total < 256" using c by (simp_all add: low_def total_def)
    then have "(low + 2 ^ 56 * total) mod 2 ^ 64 = low + 2 ^ 56 * total" "(low + 2 ^ 56 * total) div 2 ^ 56 = total" by simp_all
    then show ?thesis unfolding p by (simp add: d4 total_def)
  qed
  finally show ?thesis unfolding total by (simp add: popcount_def Let_def v1_def v2_def v3_def)
qed

lemma filter_card: "length (filter P [0..<n]) = card {i. i < n \<and> P i}"
proof -
  have "length (filter P [0..<n]) = card (set (filter P [0..<n]))" by (rule distinct_card [symmetric]) simp
  moreover have "set (filter P [0..<n]) = {i. i < n \<and> P i}" by auto
  ultimately show ?thesis by simp
qed

text \<open>
  C40. The parallel count, three rounds of sums of neighbouring fields and a multiplication, is the number of bits
  that are set.
\<close>
theorem popcount_exact: "unat (popcount v) = card {i. bit v i}"
proof -
  have "{i. i < 64 \<and> bit v i} = {i. bit v i}" using bit_imp_le_length [of v] by auto
  then show ?thesis by (simp add: popcount_filter filter_card)
qed

end
