(* ===== verification/LibcSort.thy ===== *)
theory LibcSort
  imports CString "HOL-Library.Multiset"
begin

text \<open>
  Sorting and searching in libc/systrix_libc.c.  The elements of the array are abstract: \<open>_swap_bytes\<close>
  exchanges two of them, whatever their size, and \<open>cmp\<close> is the comparison that the caller passes, a
  function of two elements.  \<^term>\<open>None\<close> is an access outside the array.  The locale \<open>comparison\<close> states what the
  caller's function has to satisfy.
\<close>

section \<open>The algorithms\<close>

definition swap_elems :: "nat \<Rightarrow> nat \<Rightarrow> 'a list \<Rightarrow> 'a list" where
  "swap_elems i j xs = xs[i := xs ! j, j := xs ! i]"

text \<open>Insertion sort of the elements from \<open>base\<close> on: sinking element \<open>j\<close>, and the loop over \<open>i\<close>.\<close>

fun isort_sink :: "('a \<Rightarrow> 'a \<Rightarrow> int) \<Rightarrow> nat \<Rightarrow> nat \<Rightarrow> 'a list \<Rightarrow> 'a list" where
  "isort_sink cmp base 0 xs = xs"
| "isort_sink cmp base (Suc j) xs =
     (if cmp (xs ! (base + j)) (xs ! (base + Suc j)) > 0
      then isort_sink cmp base j (swap_elems (base + j) (base + Suc j) xs) else xs)"

fun isort_loop :: "('a \<Rightarrow> 'a \<Rightarrow> int) \<Rightarrow> nat \<Rightarrow> nat \<Rightarrow> nat \<Rightarrow> 'a list \<Rightarrow> 'a list" where
  "isort_loop cmp base i 0 xs = xs"
| "isort_loop cmp base i (Suc k) xs = isort_loop cmp base (Suc i) k (isort_sink cmp base i xs)"

definition isort :: "('a \<Rightarrow> 'a \<Rightarrow> int) \<Rightarrow> nat \<Rightarrow> nat \<Rightarrow> 'a list \<Rightarrow> 'a list" where
  "isort cmp base nmemb xs = isort_loop cmp base 1 (nmemb - 1) xs"

definition order_two :: "('a \<Rightarrow> 'a \<Rightarrow> int) \<Rightarrow> nat \<Rightarrow> nat \<Rightarrow> 'a list \<Rightarrow> 'a list" where
  "order_two cmp i j xs = (if cmp (xs ! i) (xs ! j) > 0 then swap_elems i j xs else xs)"

definition median_pivot :: "('a \<Rightarrow> 'a \<Rightarrow> int) \<Rightarrow> nat \<Rightarrow> nat \<Rightarrow> 'a list \<Rightarrow> 'a list" where
  "median_pivot cmp lo hi xs =
     (let mid = lo + (hi - lo) div 2
      in swap_elems mid (hi - 1) (order_two cmp mid hi (order_two cmp lo hi (order_two cmp lo mid xs))))"

function scan_up :: "('a \<Rightarrow> 'a \<Rightarrow> int) \<Rightarrow> 'a \<Rightarrow> 'a list \<Rightarrow> nat \<Rightarrow> nat option" where
  "scan_up cmp p xs i =
     (if i + 1 \<ge> length xs then None
      else if cmp (xs ! (i + 1)) p < 0 then scan_up cmp p xs (i + 1) else Some (i + 1))"
  by pat_completeness auto
termination by (relation "measure (\<lambda>(cmp, p, xs, i). length xs - i)") auto

declare scan_up.simps [simp del]

fun scan_down :: "('a \<Rightarrow> 'a \<Rightarrow> int) \<Rightarrow> 'a \<Rightarrow> 'a list \<Rightarrow> nat \<Rightarrow> nat \<Rightarrow> nat" where
  "scan_down cmp p xs lo 0 = 0"
| "scan_down cmp p xs lo (Suc j) =
     (if Suc j > lo then if cmp (xs ! j) p > 0 then scan_down cmp p xs lo j else j else Suc j)"

text \<open>The loop that exchanges elements on the wrong side; the pivot is at \<open>pv\<close>.\<close>

partial_function (option) partition_loop ::
  "('a \<Rightarrow> 'a \<Rightarrow> int) \<Rightarrow> nat \<Rightarrow> nat \<Rightarrow> nat \<Rightarrow> nat \<Rightarrow> 'a list \<Rightarrow> (nat \<times> 'a list) option" where
  "partition_loop cmp lo pv i j xs =
     (case scan_up cmp (xs ! pv) xs i of None \<Rightarrow> None
      | Some i1 \<Rightarrow>
          let j1 = scan_down cmp (xs ! pv) xs lo j
          in if i1 \<ge> j1 then Some (i1, xs) else partition_loop cmp lo pv i1 j1 (swap_elems i1 j1 xs))"

definition QSORT_STACK :: nat where "QSORT_STACK = 64"

text \<open>The stack of ranges, the top first.  When it is full, both parts of a range are forgotten.\<close>

partial_function (option) qsort_loop :: "('a \<Rightarrow> 'a \<Rightarrow> int) \<Rightarrow> (nat \<times> nat) list \<Rightarrow> 'a list \<Rightarrow> 'a list option" where
  "qsort_loop cmp stk xs =
     (case stk of [] \<Rightarrow> Some xs
      | r # rest \<Rightarrow>
          let lo = fst r; hi = snd r
          in if hi \<le> lo then qsort_loop cmp rest xs
             else if hi - lo < 8 then qsort_loop cmp rest (isort cmp lo (hi - lo + 1) xs)
             else case partition_loop cmp lo (hi - 1) lo (hi - 1) (median_pivot cmp lo hi xs) of
                 None \<Rightarrow> None
               | Some (i, ys) \<Rightarrow>
                   qsort_loop cmp (if length rest + 2 < QSORT_STACK then (i + 1, hi) # (lo, i - 1) # rest else rest)
                     (swap_elems i (hi - 1) ys))"

definition qsort :: "('a \<Rightarrow> 'a \<Rightarrow> int) \<Rightarrow> 'a list \<Rightarrow> 'a list option" where
  "qsort cmp xs = (if length xs < 2 then Some xs else qsort_loop cmp [(0, length xs - 1)] xs)"

function bsearch_loop :: "('k \<Rightarrow> 'a \<Rightarrow> int) \<Rightarrow> 'k \<Rightarrow> 'a list \<Rightarrow> nat \<Rightarrow> nat \<Rightarrow> nat option" where
  "bsearch_loop cmp key xs lo hi =
     (if lo < hi then
        let mid = lo + (hi - lo) div 2; r = cmp key (xs ! mid)
        in if r = 0 then Some mid
           else if r < 0 then bsearch_loop cmp key xs lo mid else bsearch_loop cmp key xs (mid + 1) hi
      else None)"
  by pat_completeness auto
termination by (relation "measure (\<lambda>(cmp, key, xs, lo, hi). hi - lo)") auto

declare bsearch_loop.simps [simp del]

definition bsearch :: "('k \<Rightarrow> 'a \<Rightarrow> int) \<Rightarrow> 'k \<Rightarrow> 'a list \<Rightarrow> nat option" where
  "bsearch cmp key xs = bsearch_loop cmp key xs 0 (length xs)"

section \<open>Exchanging elements of a range\<close>

inductive swaps :: "nat \<Rightarrow> nat \<Rightarrow> 'a list \<Rightarrow> 'a list \<Rightarrow> bool" for lo hi where
  refl [intro]: "swaps lo hi xs xs"
| step: "swaps lo hi xs ys \<Longrightarrow> lo \<le> i \<Longrightarrow> i \<le> hi \<Longrightarrow> lo \<le> j \<Longrightarrow> j \<le> hi \<Longrightarrow> hi < length xs \<Longrightarrow> swaps lo hi xs (swap_elems i j ys)"

lemma swap_length [simp]: "length (swap_elems i j xs) = length xs"
  by (simp add: swap_elems_def)

lemma swap_at:
  assumes "i < length xs" "j < length xs" "k < length xs"
  shows "swap_elems i j xs ! k = (if k = i then xs ! j else if k = j then xs ! i else xs ! k)"
  using assms by (auto simp: swap_elems_def nth_list_update)

lemma swap_mset: "i < length xs \<Longrightarrow> j < length xs \<Longrightarrow> mset (swap_elems i j xs) = mset xs"
  unfolding swap_elems_def by (metis list_update_swap list_update_overwrite mset_swap)

lemma swaps_length: "swaps lo hi xs ys \<Longrightarrow> length ys = length xs"
  by (induction rule: swaps.induct) simp_all

lemma swaps_mset: "swaps lo hi xs ys \<Longrightarrow> mset ys = mset xs"
  by (induction rule: swaps.induct) (auto simp: swap_mset swaps_length)

lemma swaps_outside: "swaps lo hi xs ys \<Longrightarrow> k < length xs \<Longrightarrow> k < lo \<or> hi < k \<Longrightarrow> ys ! k = xs ! k"
  by (induction rule: swaps.induct) (auto simp: swap_at swaps_length)

lemma swaps_trans: "swaps lo hi ys zs \<Longrightarrow> swaps lo hi xs ys \<Longrightarrow> swaps lo hi xs zs"
proof (induction rule: swaps.induct)
  case (step ys zs i j)
  then show ?case using swaps_length [OF step.prems] by (auto intro: swaps.step)
qed

lemma swaps_one: "lo \<le> i \<Longrightarrow> i \<le> hi \<Longrightarrow> lo \<le> j \<Longrightarrow> j \<le> hi \<Longrightarrow> hi < length xs \<Longrightarrow> swaps lo hi xs (swap_elems i j xs)"
  by (rule swaps.step) auto

section \<open>What the comparison has to satisfy\<close>

locale comparison =
  fixes cmp :: "'a \<Rightarrow> 'a \<Rightarrow> int" and A :: "'a set"
  assumes cmp_sym: "a \<in> A \<Longrightarrow> b \<in> A \<Longrightarrow> cmp a b > 0 \<longleftrightarrow> cmp b a < 0"
    and cmp_trans: "a \<in> A \<Longrightarrow> b \<in> A \<Longrightarrow> c \<in> A \<Longrightarrow> cmp a b \<le> 0 \<Longrightarrow> cmp b c \<le> 0 \<Longrightarrow> cmp a c \<le> 0"
begin

lemma le_total: "a \<in> A \<Longrightarrow> b \<in> A \<Longrightarrow> \<not> cmp a b \<le> 0 \<Longrightarrow> cmp b a \<le> 0"
  using cmp_sym [of a b] by simp

lemma le_refl: "a \<in> A \<Longrightarrow> cmp a a \<le> 0"
  using cmp_sym [of a a] by linarith

lemma lt_le: "a \<in> A \<Longrightarrow> b \<in> A \<Longrightarrow> cmp a b < 0 \<Longrightarrow> cmp a b \<le> 0" by simp

lemma ge_le: "a \<in> A \<Longrightarrow> b \<in> A \<Longrightarrow> \<not> cmp a b < 0 \<Longrightarrow> cmp b a \<le> 0"
  using cmp_sym [of b a] by linarith

text \<open>Elements \<open>base\<close> to \<open>base + k\<close> are in order, except that element \<open>j\<close> may be smaller than those before it.\<close>

definition nearly :: "nat \<Rightarrow> nat \<Rightarrow> nat \<Rightarrow> 'a list \<Rightarrow> bool" where
  "nearly base j k xs \<longleftrightarrow> (\<forall>a b. a < b \<and> b \<le> k \<and> b \<noteq> j \<longrightarrow> cmp (xs ! (base + a)) (xs ! (base + b)) \<le> 0)"

lemma sink_swaps: "base + j \<le> hi \<Longrightarrow> hi < length xs \<Longrightarrow> swaps base hi xs (isort_sink cmp base j xs)"
proof (induction j arbitrary: xs)
  case (Suc j)
  let ?ys = "swap_elems (base + j) (base + Suc j) xs"
  have "swaps base hi xs ?ys" using Suc.prems by (intro swaps_one) simp_all
  moreover have "swaps base hi ?ys (isort_sink cmp base j ?ys)" using Suc by simp
  ultimately show ?case by (auto intro: swaps_trans)
qed auto

lemma sink_sorts:
  assumes "nearly base j k xs" "j \<le> k" "base + k < length xs" "set xs \<subseteq> A"
  shows "nearly base (Suc k) k (isort_sink cmp base j xs)"
  using assms
proof (induction j arbitrary: xs)
  case 0
  then show ?case by (auto simp: nearly_def)
next
  case (Suc j)
  have in_A: "xs ! (base + i) \<in> A" if "i \<le> k" for i using Suc.prems(3,4) that by (auto intro!: subsetD [OF _ nth_mem])
  note le = Suc.prems(1) [unfolded nearly_def, rule_format]
  show ?case
  proof (cases "cmp (xs ! (base + j)) (xs ! (base + Suc j)) > 0")
    case True
    let ?ys = "swap_elems (base + j) (base + Suc j) xs"
    have at: "?ys ! (base + i) = (if i = j then xs ! (base + Suc j) else if i = Suc j then xs ! (base + j) else xs ! (base + i))"
      if "i \<le> k" for i using swap_at [of "base + j" xs "base + Suc j" "base + i"] Suc.prems(2,3) that by simp
    have "set ?ys \<subseteq> A" using swap_mset [of "base + j" xs "base + Suc j"] Suc.prems(2-4)
      by (metis add_left_mono le_less_trans less_or_eq_imp_le mset_eq_setD Suc_leD)
    moreover have "nearly base j k ?ys"
      unfolding nearly_def
    proof (intro allI impI)
      fix a b assume ab: "a < b \<and> b \<le> k \<and> b \<noteq> j"
      have "cmp (xs ! (base + Suc j)) (xs ! (base + j)) \<le> 0"
        using True cmp_sym [of "xs ! (base + j)" "xs ! (base + Suc j)"] in_A [of j] in_A [of "Suc j"] Suc.prems(2) by simp
      moreover have "a \<le> k" "b \<le> k" using ab by simp_all
      ultimately show "cmp (?ys ! (base + a)) (?ys ! (base + b)) \<le> 0"
        unfolding at [OF \<open>a \<le> k\<close>] at [OF \<open>b \<le> k\<close>] using ab le [of a b] le [of a j] le [of j b] le [of "Suc j" b] Suc.prems(2) by auto
    qed
    ultimately show ?thesis using Suc.IH [of ?ys] Suc.prems True by simp
  next
    case False
    have last: "cmp (xs ! (base + a)) (xs ! (base + Suc j)) \<le> 0" if "a \<le> j" for a
    proof (cases "a = j")
      case False
      then have "cmp (xs ! (base + a)) (xs ! (base + j)) \<le> 0" using le [of a j] that Suc.prems(2) by simp
      then show ?thesis using cmp_trans [of "xs ! (base + a)" "xs ! (base + j)" "xs ! (base + Suc j)"] in_A [of a] in_A [of j]
          in_A [of "Suc j"] that Suc.prems(2) \<open>\<not> cmp (xs ! (base + j)) (xs ! (base + Suc j)) > 0\<close> by simp
    qed (use False in simp)
    have "cmp (xs ! (base + a)) (xs ! (base + b)) \<le> 0" if "a < b" "b \<le> k" for a b
      using last [of a] le [of a b] that by (cases "b = Suc j") (simp_all del: add_Suc_right)
    then have "nearly base (Suc k) k xs" by (simp add: nearly_def)
    then show ?thesis using False by simp
  qed
qed

lemma isort_loop_ok:
  assumes "nearly base i (i - 1) xs" "0 < i" "base + (i + k - 1) = hi" "hi < length xs" "set xs \<subseteq> A"
  shows "swaps base hi xs (isort_loop cmp base i k xs) \<and> nearly base (i + k) (i + k - 1) (isort_loop cmp base i k xs)"
  using assms
proof (induction k arbitrary: i xs)
  case (Suc k)
  let ?ys = "isort_sink cmp base i xs"
  have i: "base + i \<le> hi" "base + i < length xs" using Suc.prems(2-4) by simp_all
  have s: "swaps base hi xs ?ys" by (rule sink_swaps) (use i Suc.prems in auto)
  have "nearly base i i xs" using Suc.prems(1,2) by (auto simp: nearly_def)
  then have "nearly base (Suc i) i ?ys" using i(2) Suc.prems(5) by (rule sink_sorts [OF _ order_refl])
  moreover have "set ?ys \<subseteq> A" "length ?ys = length xs" using s Suc.prems(5) by (auto dest: swaps_mset swaps_length mset_eq_setD)
  ultimately show ?case using Suc.IH [of "Suc i" ?ys] Suc.prems(3,4) swaps_trans [OF _ s] by simp
qed auto

lemma isort_ok:
  assumes "lo \<le> hi" "hi < length xs" "set xs \<subseteq> A"
  shows "swaps lo hi xs (isort cmp lo (hi - lo + 1) xs) \<and>
    (\<forall>a b. lo \<le> a \<and> a < b \<and> b \<le> hi \<longrightarrow> cmp (isort cmp lo (hi - lo + 1) xs ! a) (isort cmp lo (hi - lo + 1) xs ! b) \<le> 0)"
proof -
  let ?ys = "isort_loop cmp lo 1 (hi - lo) xs"
  have "nearly lo 1 (1 - 1) xs" by (simp add: nearly_def)
  from isort_loop_ok [OF this, of "hi - lo" hi] assms
  have s: "swaps lo hi xs ?ys" "nearly lo (1 + (hi - lo)) (hi - lo) ?ys" by simp_all
  have "cmp (?ys ! a) (?ys ! b) \<le> 0" if "lo \<le> a" "a < b" "b \<le> hi" for a b
  proof -
    have "a - lo < b - lo \<and> b - lo \<le> hi - lo \<and> b - lo \<noteq> 1 + (hi - lo)" "lo + (a - lo) = a" "lo + (b - lo) = b"
      using that by linarith+
    then show ?thesis using s(2) [unfolded nearly_def, rule_format, of "a - lo" "b - lo"] by simp
  qed
  then show ?thesis using s(1) by (simp add: isort_def)
qed

section \<open>Partitioning\<close>

text \<open>\<open>p\<close> is at \<open>pv\<close>; elements up to \<open>i\<close> are at most \<open>p\<close>, elements from \<open>j\<close> to \<open>hi\<close> at least.\<close>

definition split_at :: "nat \<Rightarrow> nat \<Rightarrow> nat \<Rightarrow> nat \<Rightarrow> 'a \<Rightarrow> 'a list \<Rightarrow> bool" where
  "split_at lo hi i j p xs \<longleftrightarrow>
     (\<forall>k. lo \<le> k \<and> k \<le> i \<longrightarrow> cmp (xs ! k) p \<le> 0) \<and> (\<forall>k. j \<le> k \<and> k \<le> hi \<longrightarrow> cmp p (xs ! k) \<le> 0)"

lemma scan_up_ok:
  assumes "i < pv" "pv < length xs" "set xs \<subseteq> A"
  shows "\<exists>i1. scan_up cmp (xs ! pv) xs i = Some i1 \<and> i < i1 \<and> i1 \<le> pv \<and> cmp (xs ! pv) (xs ! i1) \<le> 0 \<and>
    (\<forall>k. i < k \<and> k < i1 \<longrightarrow> cmp (xs ! k) (xs ! pv) \<le> 0)"
  using assms(1)
proof (induction "pv - i" arbitrary: i)
  case (Suc m)
  have in_A: "xs ! (i + 1) \<in> A" "xs ! pv \<in> A" using Suc.prems assms(2,3) by (auto intro!: subsetD [OF _ nth_mem])
  show ?case
  proof (cases "cmp (xs ! (i + 1)) (xs ! pv) < 0")
    case True
    have "i + 1 \<noteq> pv" using True le_refl [OF in_A(2)] cmp_sym [OF in_A(2) in_A(2)] by auto
    then have "i + 1 < pv" "m = pv - (i + 1)" using Suc.prems Suc.hyps(2) by simp_all
    from Suc.hyps(1) [OF this(2,1)] obtain i1 where i1: "scan_up cmp (xs ! pv) xs (i + 1) = Some i1" "i + 1 < i1" "i1 \<le> pv"
        "cmp (xs ! pv) (xs ! i1) \<le> 0" "\<forall>k. i + 1 < k \<and> k < i1 \<longrightarrow> cmp (xs ! k) (xs ! pv) \<le> 0" by blast
    have "scan_up cmp (xs ! pv) xs i = Some i1"
      using True i1(1) Suc.prems assms(2) by (subst scan_up.simps) simp
    moreover have "cmp (xs ! k) (xs ! pv) \<le> 0" if "i < k" "k < i1" for k
      using i1(5) True that by (cases "k = i + 1") auto
    ultimately show ?thesis using i1(2-4) by auto
  next
    case False
    then have "scan_up cmp (xs ! pv) xs i = Some (i + 1)" using Suc.prems assms(2) by (subst scan_up.simps) simp
    moreover have "cmp (xs ! pv) (xs ! (i + 1)) \<le> 0" using False ge_le in_A by blast
    ultimately show ?thesis using Suc.prems by auto
  qed
qed simp

lemma scan_down_ok:
  assumes "lo < j" "j \<le> length xs" "p \<in> A" "set xs \<subseteq> A" "cmp (xs ! lo) p \<le> 0"
  shows "lo \<le> scan_down cmp p xs lo j \<and> scan_down cmp p xs lo j < j \<and> cmp (xs ! scan_down cmp p xs lo j) p \<le> 0 \<and>
    (\<forall>k. scan_down cmp p xs lo j < k \<and> k < j \<longrightarrow> cmp p (xs ! k) \<le> 0)"
  using assms(1,2)
proof (induction j)
  case (Suc j)
  have in_A: "xs ! j \<in> A" using Suc.prems(2) assms(4) by (auto intro!: subsetD [OF _ nth_mem])
  show ?case
  proof (cases "cmp (xs ! j) p > 0")
    case True
    then have "j \<noteq> lo" using assms(5) by auto
    then have lo: "lo < j" using Suc.prems(1) by simp
    have "cmp p (xs ! j) \<le> 0" using True cmp_sym [OF in_A assms(3)] by simp
    then have "cmp p (xs ! k) \<le> 0" if "scan_down cmp p xs lo j < k" "k < Suc j" for k
      using Suc.IH lo Suc.prems(2) that by (cases "k = j") auto
    then show ?thesis using Suc.IH lo Suc.prems(2) True by auto
  qed (use Suc.prems in auto)
qed simp

lemma partition_ok:
  assumes "split_at lo hi i j (xs ! pv) xs" "lo \<le> i" "i < j" "j \<le> pv" "pv < hi" "hi < length xs" "set xs \<subseteq> A"
  shows "\<exists>i1 ys. partition_loop cmp lo pv i j xs = Some (i1, ys) \<and> swaps lo hi xs ys \<and> lo < i1 \<and> i1 \<le> pv \<and>
    ys ! pv = xs ! pv \<and> split_at lo hi (i1 - 1) i1 (xs ! pv) ys"
  using assms
proof (induction "j - i" arbitrary: i j xs rule: less_induct)
  case less
  let ?p = "xs ! pv"
  note sp = less.prems(1) [unfolded split_at_def]
  have p: "?p \<in> A" using less.prems by (auto intro!: subsetD [OF _ nth_mem])
  obtain i1 where i1: "scan_up cmp ?p xs i = Some i1" "i < i1" "i1 \<le> pv" "cmp ?p (xs ! i1) \<le> 0"
      "\<forall>k. i < k \<and> k < i1 \<longrightarrow> cmp (xs ! k) ?p \<le> 0"
    using scan_up_ok [of i pv xs] less.prems by auto
  define j1 where "j1 = scan_down cmp ?p xs lo j"
  have "cmp (xs ! lo) ?p \<le> 0" using sp less.prems(2) by simp
  then have j1: "lo \<le> j1" "j1 < j" "cmp (xs ! j1) ?p \<le> 0" "\<forall>k. j1 < k \<and> k < j \<longrightarrow> cmp ?p (xs ! k) \<le> 0"
    using scan_down_ok [of lo j xs ?p] less.prems p unfolding j1_def by auto
  have unf: "partition_loop cmp lo pv i j xs =
      (if i1 \<ge> j1 then Some (i1, xs) else partition_loop cmp lo pv i1 j1 (swap_elems i1 j1 xs))"
    by (subst partition_loop.simps) (simp add: i1(1) j1_def Let_def)
  show ?case
  proof (cases "i1 \<ge> j1")
    case True
    have "cmp (xs ! k) ?p \<le> 0" if "lo \<le> k" "k < i1" for k using sp i1(5) that by (cases "k \<le> i") auto
    moreover have "cmp ?p (xs ! k) \<le> 0" if "i1 \<le> k" "k \<le> hi" for k
      using sp i1(4) j1(4) that True by (cases "k = i1"; cases "k < j") auto
    ultimately have "split_at lo hi (i1 - 1) i1 ?p xs" using i1(2) by (auto simp: split_at_def)
    then show ?thesis using unf True i1(2,3) less.prems(2) by auto
  next
    case False
    let ?ys = "swap_elems i1 j1 xs"
    have ix: "i1 < length xs" "j1 < length xs" "j1 < pv" "i1 < pv" using False i1(3) j1(2) less.prems(4-6) by simp_all
    have s: "swaps lo hi xs ?ys" by (rule swaps_one) (use less.prems i1 j1 ix in auto)
    have pv: "?ys ! pv = ?p" using ix less.prems(5,6) by (simp add: swap_at)
    have at: "?ys ! k = (if k = i1 then xs ! j1 else if k = j1 then xs ! i1 else xs ! k)" if "k \<le> hi" for k
      using that ix less.prems(6) by (simp add: swap_at)
    have "cmp (?ys ! k) ?p \<le> 0" if "lo \<le> k" "k \<le> i1" for k
      using that False ix less.prems(5) sp i1(5) j1(3) by (cases "k \<le> i") (auto simp: at)
    moreover have "cmp ?p (?ys ! k) \<le> 0" if "j1 \<le> k" "k \<le> hi" for k
      using that False sp i1(4) j1(4) by (cases "k < j") (auto simp: at)
    ultimately have sp1: "split_at lo hi i1 j1 (?ys ! pv) ?ys" by (simp add: split_at_def pv)
    have "set ?ys \<subseteq> A" using s less.prems(7) by (auto dest: swaps_mset mset_eq_setD)
    moreover have "j1 - i1 < j - i" "lo \<le> i1" "i1 < j1" "j1 \<le> pv" "hi < length ?ys"
      using False i1(2) j1(2) less.prems(2,3,6) ix by simp_all
    ultimately obtain i2 ys where "partition_loop cmp lo pv i1 j1 ?ys = Some (i2, ys)"
        "swaps lo hi ?ys ys" "lo < i2" "i2 \<le> pv" "ys ! pv = ?p" "split_at lo hi (i2 - 1) i2 ?p ys"
      using less.hyps [OF _ sp1 _ _ _ less.prems(5)] pv by metis
    then show ?thesis using unf False swaps_trans [OF _ s] by auto
  qed
qed

lemma order_two_ok:
  assumes "lo \<le> i" "i < j" "j \<le> hi" "hi < length xs" "set xs \<subseteq> A"
  defines "ys \<equiv> order_two cmp i j xs"
  shows "swaps lo hi xs ys" "cmp (ys ! i) (ys ! j) \<le> 0" "k < length xs \<Longrightarrow> k \<noteq> i \<Longrightarrow> k \<noteq> j \<Longrightarrow> ys ! k = xs ! k"
    "ys ! i = xs ! i \<and> ys ! j = xs ! j \<or> ys ! i = xs ! j \<and> ys ! j = xs ! i \<and> cmp (xs ! j) (xs ! i) \<le> 0"
proof -
  have in_A: "xs ! i \<in> A" "xs ! j \<in> A" using assms(2-5) by (auto intro!: subsetD [OF _ nth_mem])
  have at: "swap_elems i j xs ! k = (if k = i then xs ! j else if k = j then xs ! i else xs ! k)" if "k < length xs" for k
    using swap_at [of i xs j k] assms(2-4) that by simp
  show "swaps lo hi xs ys" unfolding ys_def order_two_def using assms(1-4) by (auto intro!: swaps_one)
  have lt: "cmp (xs ! i) (xs ! j) > 0 \<Longrightarrow> cmp (xs ! j) (xs ! i) \<le> 0" using cmp_sym [OF in_A] by simp
  show "cmp (ys ! i) (ys ! j) \<le> 0" using lt assms(2-4) by (auto simp: ys_def order_two_def at)
  show "k < length xs \<Longrightarrow> k \<noteq> i \<Longrightarrow> k \<noteq> j \<Longrightarrow> ys ! k = xs ! k" by (auto simp: ys_def order_two_def at)
  show "ys ! i = xs ! i \<and> ys ! j = xs ! j \<or> ys ! i = xs ! j \<and> ys ! j = xs ! i \<and> cmp (xs ! j) (xs ! i) \<le> 0"
    using lt assms(2-4) by (auto simp: ys_def order_two_def at)
qed

lemma median_ok:
  assumes "hi - lo \<ge> 8" "hi < length xs" "set xs \<subseteq> A"
  defines "ys \<equiv> median_pivot cmp lo hi xs"
  shows "swaps lo hi xs ys" "split_at lo hi lo (hi - 1) (ys ! (hi - 1)) ys"
proof -
  define mid where "mid = lo + (hi - lo) div 2"
  have m: "lo < mid" "mid < hi - 1" "lo \<le> hi" "hi - 1 < hi" using assms(1) by (auto simp: mid_def)
  define x1 where "x1 = order_two cmp lo mid xs"
  define x2 where "x2 = order_two cmp lo hi x1"
  define x3 where "x3 = order_two cmp mid hi x2"
  have ok: "length zs = length xs \<and> set zs \<subseteq> A" if "swaps lo hi xs zs" for zs
    using that assms(3) by (auto dest: swaps_length swaps_mset mset_eq_setD)
  have p1: "lo \<le> lo" "lo < mid" "mid \<le> hi" "hi < length xs" "set xs \<subseteq> A" using m assms(2,3) by auto
  note o1 = order_two_ok [OF p1, folded x1_def]
  have s1: "swaps lo hi xs x1" by (rule o1)
  have p2: "lo \<le> lo" "lo < hi" "hi \<le> hi" "hi < length x1" "set x1 \<subseteq> A" using m assms(2) ok [OF s1] by auto
  note o2 = order_two_ok [OF p2, folded x2_def]
  have s12: "swaps lo hi xs x2" using o2(1) s1 by (rule swaps_trans)
  have p3: "lo \<le> mid" "mid < hi" "hi \<le> hi" "hi < length x2" "set x2 \<subseteq> A" using m assms(2) ok [OF s12] by auto
  note o3 = order_two_ok [OF p3, folded x3_def]
  have s13: "swaps lo hi xs x3" using o3(1) s12 by (rule swaps_trans)
  have in_A: "x3 ! k \<in> A" "x2 ! k \<in> A" "x1 ! k \<in> A" if "k \<le> hi" for k
    using that ok [OF s13] ok [OF s12] ok [OF s1] assms(2) by (auto intro!: subsetD [OF _ nth_mem])
  have l1: "cmp (x1 ! lo) (x1 ! mid) \<le> 0" by (rule o1(2))
  have l2: "cmp (x2 ! lo) (x2 ! hi) \<le> 0" by (rule o2(2))
  have mid2: "x2 ! mid = x1 ! mid" using o2(3) [of mid] m p2(4) by simp
  have l2m: "cmp (x2 ! lo) (x2 ! mid) \<le> 0"
  proof -
    have "x2 ! lo = x1 ! lo \<or> x2 ! lo = x1 ! hi \<and> cmp (x1 ! hi) (x1 ! lo) \<le> 0" using o2(4) by auto
    then show ?thesis unfolding mid2 using l1 cmp_trans [OF in_A(3) in_A(3) in_A(3), of hi lo mid] m by auto
  qed
  have l3: "cmp (x3 ! mid) (x3 ! hi) \<le> 0" by (rule o3(2))
  have "x3 ! lo = x2 ! lo" using o3(3) [of lo] m p3(4) by simp
  moreover have "x3 ! mid = x2 ! mid \<or> x3 ! mid = x2 ! hi" using o3(4) by auto
  ultimately have l3m: "cmp (x3 ! lo) (x3 ! mid) \<le> 0" using l2 l2m by auto
  have ys: "ys = swap_elems mid (hi - 1) x3"
    by (simp add: ys_def median_pivot_def mid_def x1_def x2_def x3_def Let_def)
  have "swaps lo hi x3 ys" unfolding ys by (rule swaps_one) (use m assms(2) ok [OF s13] in auto)
  then show "swaps lo hi xs ys" using s13 by (rule swaps_trans)
  have "mid < length x3" "hi - 1 < length x3" "hi < length x3" "lo < length x3" using m assms(2) ok [OF s13] by auto
  then have at: "ys ! (hi - 1) = x3 ! mid" "ys ! lo = x3 ! lo" "ys ! hi = x3 ! hi"
  proof -
    have "hi \<noteq> hi - 1" "hi \<noteq> mid" "lo \<noteq> hi - 1" "lo \<noteq> mid" "hi - 1 \<noteq> mid" using m by linarith+
    then show "ys ! (hi - 1) = x3 ! mid" "ys ! lo = x3 ! lo" "ys ! hi = x3 ! hi"
      unfolding ys using \<open>mid < length x3\<close> \<open>hi - 1 < length x3\<close> \<open>hi < length x3\<close> \<open>lo < length x3\<close> by (simp_all only: swap_at if_False if_True refl simp_thms)
  qed
  show "split_at lo hi lo (hi - 1) (ys ! (hi - 1)) ys"
    unfolding split_at_def at(1)
  proof (intro conjI allI impI)
    show "cmp (ys ! k) (x3 ! mid) \<le> 0" if "lo \<le> k \<and> k \<le> lo" for k
      using that l3m at(2) by (cases "k = lo") auto
    fix k assume "hi - 1 \<le> k \<and> k \<le> hi"
    then consider "k = hi - 1" | "k = hi" by linarith
    then show "cmp (x3 ! mid) (ys ! k) \<le> 0"
    proof cases
      case 1
      then show ?thesis unfolding 1 at(1) using le_refl [OF in_A(1), of mid] m by simp
    next
      case 2
      then show ?thesis using l3 at(3) by simp
    qed
  qed
qed

section \<open>The stack\<close>

text \<open>The ranges are not empty, lie below \<open>m\<close>, and between two of them there is at least one element.\<close>

fun separated :: "nat \<Rightarrow> (nat \<times> nat) list \<Rightarrow> bool" where
  "separated m [] = True"
| "separated m ((lo, hi) # rs) = (lo \<le> hi \<and> hi < m \<and> separated (lo - 1) rs)"

lemma separated_mono: "separated m rs \<Longrightarrow> m \<le> m' \<Longrightarrow> separated m' rs"
  by (cases rs) auto

lemma separated_length: "separated m rs \<Longrightarrow> 2 * length rs \<le> m + 1"
proof (induction m rs rule: separated.induct)
  case (2 m lo hi rs)
  then have "2 * length rs \<le> lo - 1 + 1" "lo \<le> hi" "hi < m" by simp_all
  moreover have "lo = 0 \<Longrightarrow> rs = []" using 2(2) by (cases rs) auto
  ultimately show ?case by (cases "lo = 0") auto
qed simp

lemma separated_below: "separated m rs \<Longrightarrow> (l, h) \<in> set rs \<Longrightarrow> l \<le> h \<and> h < m"
  by (induction m rs rule: separated.induct) fastforce+

definition inside :: "(nat \<times> nat) list \<Rightarrow> nat \<Rightarrow> nat \<Rightarrow> bool" where
  "inside rs i j \<longleftrightarrow> (\<exists>(lo, hi) \<in> set rs. lo \<le> i \<and> j \<le> hi)"

definition ordered :: "(nat \<times> nat) list \<Rightarrow> 'a list \<Rightarrow> bool" where
  "ordered rs xs \<longleftrightarrow> (\<forall>i j. i < j \<and> j < length xs \<and> \<not> inside rs i j \<longrightarrow> cmp (xs ! i) (xs ! j) \<le> 0)"

lemma swap_ordered:
  assumes "lo \<le> a" "a \<le> hi" "lo \<le> b" "b \<le> hi" "hi < length xs" "separated m ((lo, hi) # rs)" "ordered ((lo, hi) # rs) xs"
  shows "ordered ((lo, hi) # rs) (swap_elems a b xs)"
  unfolding ordered_def
proof (intro allI impI)
  fix i j assume ij: "i < j \<and> j < length (swap_elems a b xs) \<and> \<not> inside ((lo, hi) # rs) i j"
  define f where "f = (\<lambda>k. if k = a then b else if k = b then a else k)"
  have at: "swap_elems a b xs ! k = xs ! f k" if "k < length xs" for k
    using swap_at [of a xs b k] assms(2,4,5) that by (simp add: f_def)
  have f: "lo \<le> k \<and> k \<le> hi \<Longrightarrow> lo \<le> f k \<and> f k \<le> hi" "\<not> (lo \<le> k \<and> k \<le> hi) \<Longrightarrow> f k = k" for k
    using assms(1-4) by (auto simp: f_def)
  have below: "h < lo" if "(l, h) \<in> set rs" for l h
    using separated_below [of "lo - 1" rs l h] assms(6) that by auto
  have "\<not> (lo \<le> i \<and> j \<le> hi)" using ij by (auto simp: inside_def)
  then consider "lo \<le> i \<and> i \<le> hi" "hi < j" | "i < lo" "lo \<le> j \<and> j \<le> hi" | "\<not> (lo \<le> i \<and> i \<le> hi)" "\<not> (lo \<le> j \<and> j \<le> hi)"
    using ij by linarith
  then have "f i < f j \<and> f j < length xs \<and> \<not> inside ((lo, hi) # rs) (f i) (f j)"
  proof cases
    case 1
    then show ?thesis using f [of i] f(2) [of j] ij below by (fastforce simp: inside_def)
  next
    case 2
    then show ?thesis using f [of j] f(2) [of i] ij below assms(5) by (fastforce simp: inside_def)
  qed (use f(2) ij in auto)
  then show "cmp (swap_elems a b xs ! i) (swap_elems a b xs ! j) \<le> 0"
    using assms(7) ij at by (simp add: ordered_def)
qed

lemma swaps_ordered:
  "swaps lo hi xs ys \<Longrightarrow> separated m ((lo, hi) # rs) \<Longrightarrow> ordered ((lo, hi) # rs) xs \<Longrightarrow> ordered ((lo, hi) # rs) ys"
proof (induction rule: swaps.induct)
  case (step xs ys a b)
  then show ?case using swaps_length [OF step(1)] by (intro swap_ordered) auto
qed

lemma whole_ordered:
  assumes "ordered ((lo, hi) # rs) xs" "\<And>a b. lo \<le> a \<Longrightarrow> a < b \<Longrightarrow> b \<le> hi \<Longrightarrow> cmp (xs ! a) (xs ! b) \<le> 0"
  shows "ordered rs xs"
  unfolding ordered_def
proof (intro allI impI)
  fix i j assume ij: "i < j \<and> j < length xs \<and> \<not> inside rs i j"
  show "cmp (xs ! i) (xs ! j) \<le> 0"
  proof (cases "lo \<le> i \<and> j \<le> hi")
    case False
    then have "\<not> inside ((lo, hi) # rs) i j" using ij by (auto simp: inside_def)
    then show ?thesis using assms(1) ij by (simp add: ordered_def)
  qed (use assms(2) ij in blast)
qed

lemma pivot_ordered:
  assumes "ordered ((lo, hi) # rs) ys" "hi < length ys" "set ys \<subseteq> A" "lo < i" "i \<le> hi - 1" "hi - 1 < hi"
    and "split_at lo hi (i - 1) i (ys ! (hi - 1)) ys" "separated m ((lo, hi) # rs)"
  shows "ordered ((i + 1, hi) # (lo, i - 1) # rs) (swap_elems i (hi - 1) ys)"
proof -
  let ?zs = "swap_elems i (hi - 1) ys" and ?p = "ys ! (hi - 1)"
  have ix: "i < length ys" "hi - 1 < length ys" using assms(2,5,6) by simp_all
  have at: "?zs ! k = (if k = i then ?p else if k = hi - 1 then ys ! i else ys ! k)" if "k \<le> hi" for k
    using swap_at [OF ix, of k] assms(2) that by simp
  have in_A: "ys ! k \<in> A" if "k \<le> hi" for k using that assms(2,3) by (auto intro!: subsetD [OF _ nth_mem])
  then have in_A': "?zs ! k \<in> A" if "k \<le> hi" for k
    unfolding at [OF that] using in_A [of k] in_A [of i] in_A [of "hi - 1"] that assms(5,6) by auto
  have lower: "cmp (?zs ! k) ?p \<le> 0" if "lo \<le> k" "k \<le> i" for k
  proof (cases "k = i")
    case False
    then have "k \<le> i - 1" "k \<noteq> hi - 1" "k \<le> hi" using that assms(5) by linarith+
    then show ?thesis unfolding at [OF \<open>k \<le> hi\<close>] using False assms(7) that by (simp add: split_at_def)
  next
    case True
    have "i \<le> hi" using assms(5) by linarith
    then show ?thesis unfolding True at [OF \<open>i \<le> hi\<close>] using le_refl [OF in_A, of "hi - 1"] by simp
  qed
  have upper: "cmp ?p (?zs ! k) \<le> 0" if "i \<le> k" "k \<le> hi" for k
    unfolding at [OF that(2)] using that assms(5,7) le_refl [OF in_A, of "hi - 1"] by (auto simp: split_at_def)
  have "ordered ((lo, hi) # rs) ?zs"
    by (rule swap_ordered [OF _ _ _ _ assms(2,8,1)]) (use assms(4-6) in auto)
  then show ?thesis
    unfolding ordered_def
  proof (intro allI impI)
    fix a b
    assume o: "\<forall>a b. a < b \<and> b < length ?zs \<and> \<not> inside ((lo, hi) # rs) a b \<longrightarrow> cmp (?zs ! a) (?zs ! b) \<le> 0"
      and ab: "a < b \<and> b < length ?zs \<and> \<not> inside ((i + 1, hi) # (lo, i - 1) # rs) a b"
    show "cmp (?zs ! a) (?zs ! b) \<le> 0"
    proof (cases "lo \<le> a \<and> b \<le> hi")
      case True
      then have "a \<le> i" "i \<le> b" using ab assms(4) by (auto simp: inside_def)
      then show ?thesis
        using cmp_trans [OF in_A' in_A in_A', of a "hi - 1" b] lower [of a] upper [of b] True ab by simp
    next
      case False
      then have "\<not> inside ((lo, hi) # rs) a b" using ab by (auto simp: inside_def)
      then show ?thesis using o ab by blast
    qed
  qed
qed

lemma qsort_loop_ok:
  assumes "separated (length xs) rs" "set xs \<subseteq> A"
  shows "\<exists>ys. qsort_loop cmp rs xs = Some ys \<and> mset ys = mset xs \<and>
    (length xs \<le> 132 \<and> ordered rs xs \<longrightarrow> sorted_wrt (\<lambda>a b. cmp a b \<le> 0) ys)"
  using assms
proof (induction "sum_list (map (\<lambda>(lo, hi). Suc hi - lo) rs)" arbitrary: rs xs rule: less_induct)
  case less
  show ?case
  proof (cases rs)
    case Nil
    then show ?thesis by (subst qsort_loop.simps) (auto simp: ordered_def inside_def sorted_wrt_iff_nth_less)
  next
    case (Cons r rest)
    obtain lo hi where r: "r = (lo, hi)" by (cases r)
    have sep: "lo \<le> hi" "hi < length xs" "separated (lo - 1) rest" using less.prems(1) Cons r by simp_all
    have rest: "separated (length xs) rest" by (rule separated_mono [OF sep(3)]) (use sep(1,2) in simp)
    note unf = qsort_loop.simps [of cmp rs xs, unfolded Cons r list.case Let_def fst_conv snd_conv]
    have keep: ?thesis if q: "qsort_loop cmp rs xs = qsort_loop cmp rs1 ys" and s: "swaps lo hi xs ys"
        and sz: "sum_list (map (\<lambda>(lo, hi). Suc hi - lo) rs1) < sum_list (map (\<lambda>(lo, hi). Suc hi - lo) rs)"
        and sp: "separated (length xs) rs1" and o: "length xs \<le> 132 \<Longrightarrow> ordered rs xs \<Longrightarrow> ordered rs1 ys" for rs1 ys
    proof -
      have "set ys \<subseteq> A" "length ys = length xs" "mset ys = mset xs"
        using s less.prems(2) by (auto dest: swaps_mset swaps_length mset_eq_setD)
      then show ?thesis using less.hyps [OF sz, of ys] sp q o by auto
    qed
    have smaller: "sum_list (map (\<lambda>(lo, hi). Suc hi - lo) rest) < sum_list (map (\<lambda>(lo, hi). Suc hi - lo) rs)"
      using sep(1) by (simp add: Cons r)
    consider "hi \<le> lo" | "lo < hi" "hi - lo < 8" | "lo < hi" "hi - lo \<ge> 8" by linarith
    then show ?thesis
    proof cases
      case 1
      show ?thesis
        by (rule keep [OF _ swaps.refl smaller rest]) (use 1 unf whole_ordered [of lo hi rest xs] in \<open>auto simp: Cons r\<close>)
    next
      case 2
      let ?ys = "isort cmp lo (hi - lo + 1) xs"
      have so: "swaps lo hi xs ?ys" "\<And>a b. lo \<le> a \<Longrightarrow> a < b \<Longrightarrow> b \<le> hi \<Longrightarrow> cmp (?ys ! a) (?ys ! b) \<le> 0"
        using isort_ok [OF sep(1,2) less.prems(2)] by blast+
      show ?thesis
      proof (rule keep [OF _ so(1) smaller rest])
        show "qsort_loop cmp rs xs = qsort_loop cmp rest ?ys" using 2 unf by (simp add: Cons r)
        assume "ordered rs xs"
        then have "ordered ((lo, hi) # rest) ?ys"
          using less.prems(1) unfolding Cons r by (intro swaps_ordered [OF so(1)])
        then show "ordered rest ?ys" using so(2) by (rule whole_ordered)
      qed
    next
      case 3
      let ?ms = "median_pivot cmp lo hi xs"
      have ms: "swaps lo hi xs ?ms" "split_at lo hi lo (hi - 1) (?ms ! (hi - 1)) ?ms"
        using median_ok [OF 3(2) sep(2) less.prems(2)] by simp_all
      have len: "length ?ms = length xs" "set ?ms \<subseteq> A" using ms(1) less.prems(2) by (auto dest: swaps_length swaps_mset mset_eq_setD)
      have "lo < hi - 1" "hi - 1 < hi" "hi < length ?ms" using 3 sep(2) len by simp_all
      with partition_ok [OF ms(2) order_refl _ order_refl _ _ len(2)] obtain i ys where
        pt: "partition_loop cmp lo (hi - 1) lo (hi - 1) ?ms = Some (i, ys)" "swaps lo hi ?ms ys" "lo < i" "i \<le> hi - 1"
          "ys ! (hi - 1) = ?ms ! (hi - 1)" "split_at lo hi (i - 1) i (?ms ! (hi - 1)) ys" by blast
      let ?zs = "swap_elems i (hi - 1) ys" and ?new = "(i + 1, hi) # (lo, i - 1) # rest"
      have sy: "swaps lo hi xs ys" using pt(2) ms(1) by (rule swaps_trans)
      have ly: "length ys = length xs" "set ys \<subseteq> A" using sy less.prems(2) by (auto dest: swaps_length swaps_mset mset_eq_setD)
      have "swaps lo hi ys ?zs" by (rule swaps_one) (use pt(3,4) sep ly 3 in auto)
      then have sz: "swaps lo hi xs ?zs" using sy by (rule swaps_trans)
      show ?thesis
      proof (cases "length rest + 2 < QSORT_STACK")
        case True
        show ?thesis
        proof (rule keep [OF _ sz])
          show "qsort_loop cmp rs xs = qsort_loop cmp ?new ?zs" using 3 unf pt(1) True by (simp add: Cons r)
          show "separated (length xs) ?new" using sep pt(3,4) 3 by auto
          show "sum_list (map (\<lambda>(lo, hi). Suc hi - lo) ?new) < sum_list (map (\<lambda>(lo, hi). Suc hi - lo) rs)"
            using pt(3,4) 3 by (simp add: Cons r)
          assume "ordered rs xs"
          then have "ordered ((lo, hi) # rest) ys" using less.prems(1) unfolding Cons r by (intro swaps_ordered [OF sy])
          then show "ordered ?new ?zs"
            using pt(3-6) ly sep(2) 3 less.prems(1) by (intro pivot_ordered) (auto simp: Cons r)
        qed
      next
        case False
        show ?thesis
        proof (rule keep [OF _ sz smaller rest])
          show "qsort_loop cmp rs xs = qsort_loop cmp rest ?zs" using 3 unf pt(1) False by (simp add: Cons r)
          assume "length xs \<le> 132"
          moreover have "2 * length rest \<le> lo - 1 + 1" by (rule separated_length [OF sep(3)])
          ultimately show "ordered rest ?zs" using False 3(2) sep(2) by (simp add: QSORT_STACK_def)
        qed
      qed
    qed
  qed
qed

lemma qsort_ok:
  assumes "set xs \<subseteq> A"
  shows "\<exists>ys. qsort cmp xs = Some ys \<and> mset ys = mset xs \<and> (length xs \<le> 132 \<longrightarrow> sorted_wrt (\<lambda>a b. cmp a b \<le> 0) ys)"
proof (cases "length xs < 2")
  case True
  then have "sorted_wrt (\<lambda>a b. cmp a b \<le> 0) xs" by (cases xs) (auto simp: less_Suc_eq numeral_2_eq_2)
  then show ?thesis using True by (simp add: qsort_def)
next
  case False
  have "ordered [(0, length xs - 1)] xs" by (auto simp: ordered_def inside_def)
  moreover have "separated (length xs) [(0, length xs - 1)]" using False by simp
  ultimately show ?thesis using qsort_loop_ok [of xs "[(0, length xs - 1)]"] assms False by (auto simp: qsort_def)
qed

lemma bsearch_loop_ok:
  assumes "sorted_wrt (\<lambda>a b. cmp a b \<le> 0) ys" "set ys \<subseteq> A" "key \<in> A" "hi \<le> length ys"
    and "\<forall>i. i < length ys \<and> cmp key (ys ! i) = 0 \<longrightarrow> lo \<le> i \<and> i < hi"
  shows "case bsearch_loop cmp key ys lo hi of
      Some m \<Rightarrow> m < length ys \<and> cmp key (ys ! m) = 0
    | None \<Rightarrow> \<forall>i < length ys. cmp key (ys ! i) \<noteq> 0"
  using assms(4,5)
proof (induction "hi - lo" arbitrary: lo hi rule: less_induct)
  case less
  define mid where "mid = lo + (hi - lo) div 2"
  have in_A: "ys ! i \<in> A" if "i < length ys" for i using assms(2) that by auto
  have le: "cmp (ys ! i) (ys ! j) \<le> 0" if "i < j" "j < length ys" for i j
    using assms(1) that by (simp add: sorted_wrt_iff_nth_less)
  have unf: "bsearch_loop cmp key ys lo hi = (if lo < hi then if cmp key (ys ! mid) = 0 then Some mid
      else if cmp key (ys ! mid) < 0 then bsearch_loop cmp key ys lo mid else bsearch_loop cmp key ys (mid + 1) hi else None)"
    by (subst bsearch_loop.simps) (simp add: mid_def Let_def)
  consider "hi \<le> lo" | "lo < hi" "cmp key (ys ! mid) = 0" | "lo < hi" "cmp key (ys ! mid) < 0" | "lo < hi" "cmp key (ys ! mid) > 0"
    by linarith
  then show ?case
  proof cases
    case 1
    then show ?thesis using less.prems unf by fastforce
  next
    case 2
    then show ?thesis using less.prems(1) unf by (simp add: mid_def)
  next
    case 3
    have m: "lo \<le> mid" "mid < hi" using 3 by (auto simp: mid_def)
    have "i < mid" if i: "i < length ys" "cmp key (ys ! i) = 0" for i
    proof (rule ccontr)
      assume "\<not> i < mid"
      moreover have "i \<noteq> mid" using 3 i by auto
      ultimately have "cmp (ys ! mid) (ys ! i) \<le> 0" using le i(1) by simp
      moreover have "cmp (ys ! i) key \<le> 0" using i cmp_sym [OF assms(3) in_A [OF i(1)]] cmp_sym [OF in_A [OF i(1)] assms(3)] by simp
      ultimately have "cmp (ys ! mid) key \<le> 0" using cmp_trans in_A i(1) m less.prems(1) assms(3) by (meson less_le_trans)
      then show False using 3 cmp_sym [OF in_A assms(3), of mid] m less.prems(1) by simp
    qed
    then show ?thesis using less.hyps [of mid lo] less.prems 3 unf m by simp
  next
    case 4
    have m: "lo \<le> mid" "mid < hi" using 4 by (auto simp: mid_def)
    have "mid < i" if i: "i < length ys" "cmp key (ys ! i) = 0" for i
    proof (rule ccontr)
      assume "\<not> mid < i"
      moreover have "i \<noteq> mid" using 4 i by auto
      ultimately have "cmp (ys ! i) (ys ! mid) \<le> 0" using le m less.prems(1) by simp
      then have "cmp key (ys ! mid) \<le> 0" using cmp_trans [OF assms(3) in_A in_A] i m less.prems(1) by simp
      then show False using 4 by simp
    qed
    then show ?thesis using less.hyps [of hi "mid + 1"] less.prems 4 unf m by (simp add: Suc_le_eq)
  qed
qed

lemma bsearch_ok:
  assumes "sorted_wrt (\<lambda>a b. cmp a b \<le> 0) ys" "set ys \<subseteq> A" "key \<in> A"
  shows "case bsearch cmp key ys of Some m \<Rightarrow> m < length ys \<and> cmp key (ys ! m) = 0
    | None \<Rightarrow> \<forall>y \<in> set ys. cmp key y \<noteq> 0"
  using bsearch_loop_ok [OF assms order_refl, of 0] by (auto simp: bsearch_def in_set_conv_nth split: option.splits)

end

section \<open>Strings are compared by strcmp\<close>

lemma strcmp_swap: "strcmp b a = - strcmp a b"
  by (induction a b rule: strcmp.induct) (auto simp: ch_def)

lemma strcmp_head:
  assumes "0 \<notin> set (x # a)" "0 \<notin> set (y # b)"
  shows "strcmp (x # a) (y # b) \<le> 0 \<longleftrightarrow> uint x < uint y \<or> x = y \<and> strcmp a b \<le> 0"
  by (simp add: word_uint_eq_iff less_le)

lemma strcmp_nil: "strcmp [] b \<le> 0" "0 \<notin> set a \<Longrightarrow> strcmp a [] \<le> 0 \<longleftrightarrow> a = []"
proof -
  show "strcmp [] b \<le> 0" by (cases b) (simp_all add: ch_def)
  have "uint x \<noteq> 0" if "x \<noteq> 0" for x :: u8 using that by (simp add: unsigned_eq_0_iff)
  then show "0 \<notin> set a \<Longrightarrow> strcmp a [] \<le> 0 \<longleftrightarrow> a = []"
    by (cases a) (auto simp: ch_def order.antisym)
qed

lemma strcmp_order:
  "0 \<notin> set a \<Longrightarrow> 0 \<notin> set b \<Longrightarrow> 0 \<notin> set c \<Longrightarrow> strcmp a b \<le> 0 \<Longrightarrow> strcmp b c \<le> 0 \<Longrightarrow> strcmp a c \<le> 0"
proof (induction a arbitrary: b c)
  case Nil
  show ?case by (rule strcmp_nil)
next
  case (Cons x a)
  obtain y b' where b: "b = y # b'" using Cons.prems strcmp_nil(2) [of "x # a"] by (cases b) auto
  obtain z c' where c: "c = z # c'" using Cons.prems(2,5) strcmp_nil(2) [of b] b by (cases c) auto
  have "uint x < uint y \<or> x = y \<and> strcmp a b' \<le> 0" "uint y < uint z \<or> y = z \<and> strcmp b' c' \<le> 0"
    using Cons.prems strcmp_head [of x a y b'] strcmp_head [of y b' z c'] unfolding b c by blast+
  moreover have "strcmp a b' \<le> 0 \<Longrightarrow> strcmp b' c' \<le> 0 \<Longrightarrow> strcmp a c' \<le> 0"
    using Cons.IH [of b' c'] Cons.prems(1-3) unfolding b c by simp
  ultimately have "uint x < uint z \<or> x = z \<and> strcmp a c' \<le> 0" by auto
  then show ?case using strcmp_head [of x a z c'] Cons.prems unfolding c by blast
qed

interpretation strings: comparison strcmp "{s. 0 \<notin> set s}"
proof
  show "strcmp a b > 0 \<longleftrightarrow> strcmp b a < 0" for a b using strcmp_swap [of b a] by linarith
qed (use strcmp_order in blast)

lemma strings_sorted:
  assumes "\<forall>s \<in> set xs. 0 \<notin> set s" "length xs \<le> 132"
  shows "\<exists>ys. qsort strcmp xs = Some ys \<and> mset ys = mset xs \<and> sorted_wrt (\<lambda>a b. strcmp a b \<le> 0) ys"
proof -
  have "set xs \<subseteq> {s. 0 \<notin> set s}" using assms(1) by auto
  from strings.qsort_ok [OF this] show ?thesis using assms(2) by auto
qed

section \<open>Sorting, then searching\<close>

declare qsort_loop.simps [code] partition_loop.simps [code]

definition int_cmp :: "int \<Rightarrow> int \<Rightarrow> int" where "int_cmp a b = a - b"

interpretation ints: comparison int_cmp UNIV
  by unfold_locales (simp_all add: int_cmp_def)

text \<open>
  C1. With a comparison that is a total preorder on the elements, \<open>qsort\<close> stays inside the array and permutes it,
  whatever its length; an array of at most 132 elements is then in order, and \<open>bsearch\<close> in it finds an element
  equal to the key exactly when there is one.
\<close>
theorem sort_then_search:
  assumes "comparison cmp A" "set xs \<subseteq> A" "key \<in> A"
  shows "\<exists>ys. qsort cmp xs = Some ys \<and> mset ys = mset xs \<and>
    (length xs \<le> 132 \<longrightarrow> sorted_wrt (\<lambda>a b. cmp a b \<le> 0) ys \<and>
       (case bsearch cmp key ys of Some m \<Rightarrow> m < length ys \<and> cmp key (ys ! m) = 0
        | None \<Rightarrow> \<forall>x \<in> set xs. cmp key x \<noteq> 0))"
proof -
  obtain ys where ys: "qsort cmp xs = Some ys" "mset ys = mset xs" "length xs \<le> 132 \<longrightarrow> sorted_wrt (\<lambda>a b. cmp a b \<le> 0) ys"
    using comparison.qsort_ok [OF assms(1,2)] by blast
  have same: "set ys = set xs" using ys(2) by (rule mset_eq_setD)
  show ?thesis
  proof (intro exI [of _ ys] conjI impI)
    assume "length xs \<le> 132"
    then show sorted: "sorted_wrt (\<lambda>a b. cmp a b \<le> 0) ys" using ys(3) by (rule rev_mp)
    have "set ys \<subseteq> A" using assms(2) same by simp
    from comparison.bsearch_ok [OF assms(1) sorted this assms(3)]
    show "case bsearch cmp key ys of Some m \<Rightarrow> m < length ys \<and> cmp key (ys ! m) = 0
      | None \<Rightarrow> \<forall>x \<in> set xs. cmp key x \<noteq> 0" unfolding same .
  qed (rule ys)+
qed

lemma sort_then_search_witness:
  "\<exists>ys. qsort strcmp [[98], [97, 99], [97], []] = Some ys \<and> mset ys = {#[98], [97, 99], [97], []#} \<and>
     sorted_wrt (\<lambda>a b. strcmp a b \<le> 0) ys \<and> bsearch strcmp [97] ys \<noteq> None"
proof -
  have key: "strcmp [97] [97] = 0" by (simp add: ch_def)
  have "set [[98], [97, 99], [97], []] \<subseteq> {s :: str. 0 \<notin> set s}" "[97] \<in> {s :: str. 0 \<notin> set s}" by simp_all
  from sort_then_search [OF strings.comparison_axioms this]
  obtain ys where ys: "qsort strcmp [[98], [97, 99], [97], []] = Some ys" "mset ys = mset [[98], [97, 99], [97], []]"
      "sorted_wrt (\<lambda>a b. strcmp a b \<le> 0) ys"
      "case bsearch strcmp [97] ys of Some m \<Rightarrow> m < length ys \<and> strcmp [97] (ys ! m) = 0
        | None \<Rightarrow> \<forall>x \<in> set [[98], [97, 99], [97], []]. strcmp [97] x \<noteq> 0"
    by (auto simp del: mset.simps list.set)
  have "bsearch strcmp [97] ys \<noteq> None" using ys(4) key by (cases "bsearch strcmp [97] ys") simp_all
  then show ?thesis using ys(1-3) by (intro exI [of _ ys]) simp
qed

text \<open>An array on which every partition splits off one element: the stack is full at the 62nd.\<close>

definition killer :: "int list" where
  "killer = [0, 103, 5, 71, 7, 127, 9, 73, 11, 105, 13, 75, 15, 121, 17, 77, 19, 107, 21, 79, 23, 129, 25, 81, 27, 109, 29, 83,
     31, 123, 33, 85, 35, 111, 37, 87, 39, 126, 41, 89, 43, 113, 45, 91, 47, 125, 49, 93, 51, 115, 53, 95, 55, 128, 57, 97, 59,
     117, 61, 99, 63, 130, 65, 101, 67, 119, 3, 2, 4, 6, 8, 10, 12, 14, 16, 18, 20, 22, 24, 26, 28, 30, 32, 34, 36, 38, 40, 42,
     44, 46, 48, 50, 52, 54, 56, 58, 60, 62, 64, 66, 68, 70, 72, 74, 76, 78, 80, 82, 84, 86, 88, 90, 92, 94, 96, 98, 100, 102,
     104, 106, 108, 110, 112, 114, 116, 118, 120, 122, 124, 132, 131, 69, 1]"

text \<open>
  The bound 132 is exact: an array of 133 different numbers is left out of order, because both parts of a range are
  dropped when the stack of 64 entries is full.
\<close>
theorem qsort_unsorted:
  "length killer = 133 \<and> distinct killer \<and> map_option sorted (qsort int_cmp killer) = Some False"
proof (intro conjI)
  show "map_option sorted (qsort int_cmp killer) = Some False" by code_simp
qed (simp_all add: killer_def)

end
