(* ===== verification/LibcRng.thy ===== *)
theory LibcRng
  imports LibcBits LibcSort
begin

text \<open>
  The random numbers of libc/systrix_libc.c: a splitmix step for the seed, a xorshift generator, ranges by rejection,
  shuffling and random identifiers.  A generator is its 64-bit state; \<^term>\<open>None\<close> is a call that does not return or a
  negation that C leaves undefined.
\<close>

section \<open>The generator\<close>

definition rng_seed :: "u64 \<Rightarrow> u64" where
  "rng_seed seed =
     (let a = seed + 0x9e3779b97f4a7c15;
          b = (a XOR drop_bit 30 a) * 0xbf58476d1ce4e5b9;
          c = (b XOR drop_bit 27 b) * 0x94d049bb133111eb;
          d = c XOR drop_bit 31 c
      in if d = 0 then 1 else d)"

text \<open>The result is the new state.\<close>

definition rng_next :: "u64 \<Rightarrow> u64" where
  "rng_next s = (let x = s XOR push_bit 13 s; y = x XOR drop_bit 7 x in y XOR push_bit 17 y)"

definition rng_u32 :: "u64 \<Rightarrow> u32 \<times> u64" where
  "rng_u32 s = (let x = rng_next s in (ucast (drop_bit 32 x), x))"

partial_function (option) draw :: "u64 \<Rightarrow> u64 \<Rightarrow> u64 option" where
  "draw threshold s = (let x = rng_next s in if x < threshold then draw threshold x else Some x)"

definition rng_range :: "u64 \<Rightarrow> u64 \<Rightarrow> u64 \<Rightarrow> (u64 \<times> u64) option" where
  "rng_range lo hi s =
     (if lo \<ge> hi then Some (lo, s)
      else let range = hi - lo
        in case signed_neg (sint range) of None \<Rightarrow> None
           | Some m \<Rightarrow> (case draw (word_of_int m mod range) s of None \<Rightarrow> None
               | Some x \<Rightarrow> Some (lo + x mod range, x)))"

definition le_bytes :: "u64 \<Rightarrow> u8 list" where
  "le_bytes v = map (\<lambda>i. ucast (drop_bit (8 * i) v)) [0..<8]"

text \<open>The bytes written, and the state.\<close>

function rng_fill :: "nat \<Rightarrow> u64 \<Rightarrow> u8 list \<times> u64" where
  "rng_fill n s =
     (if n = 0 then ([], s)
      else let v = rng_next s
        in if n \<ge> 8 then (case rng_fill (n - 8) v of (bs, s1) \<Rightarrow> (le_bytes v @ bs, s1)) else (take n (le_bytes v), v))"
  by pat_completeness auto
termination by (relation "measure fst") auto

declare rng_fill.simps [simp del]

fun shuffle_loop :: "nat \<Rightarrow> 'a list \<Rightarrow> u64 \<Rightarrow> ('a list \<times> u64) option" where
  "shuffle_loop 0 xs s = Some (xs, s)"
| "shuffle_loop (Suc i) xs s =
     (case rng_range 0 (word_of_nat (Suc i) + 1) s of None \<Rightarrow> None
      | Some (j, s1) \<Rightarrow>
          shuffle_loop i (if Suc i \<noteq> unat j then swap_elems (Suc i) (unat j) xs else xs) s1)"

definition rng_shuffle :: "'a list \<Rightarrow> u64 \<Rightarrow> ('a list \<times> u64) option" where
  "rng_shuffle xs s = (if length xs < 2 then Some (xs, s) else shuffle_loop (length xs - 1) xs s)"

definition global_rng :: u64 where "global_rng = 12345678901234567"
definition libc_srand :: "u64 \<Rightarrow> u64" where "libc_srand seed = rng_seed seed"
definition libc_rand :: "u64 \<Rightarrow> u64 \<times> u64" where "libc_rand g = (rng_next g, rng_next g)"
definition libc_rand_range :: "u64 \<Rightarrow> u64 \<Rightarrow> u64 \<Rightarrow> (u64 \<times> u64) option" where
  "libc_rand_range lo hi g = rng_range lo hi g"

text \<open>The identifier that \<open>snprintf\<close> writes: two digits for each byte, with four dashes.\<close>

definition hex2 :: "u8 \<Rightarrow> str" where
  "hex2 b = [lower_digit (unat (drop_bit 4 b)), lower_digit (unat (b AND 0x0F))]"

definition uuid_bytes :: "u8 list \<Rightarrow> u8 list" where
  "uuid_bytes b = b[6 := (b ! 6 AND 0x0F) OR 0x40, 8 := (b ! 8 AND 0x3F) OR 0x80]"

definition uuid_v4 :: "u64 \<Rightarrow> str \<times> u64" where
  "uuid_v4 s =
     (case rng_fill 16 s of (b, s1) \<Rightarrow>
        let c = uuid_bytes b; h = \<lambda>lo hi. concat (map hex2 (take (hi - lo) (drop lo c)))
        in (h 0 4 @ [45] @ h 4 6 @ [45] @ h 6 8 @ [45] @ h 8 10 @ [45] @ h 10 16, s1))"

section \<open>Steps are linear\<close>

text \<open>\<open>dot m x\<close> is the parity of the bits of \<open>x\<close> that the mask \<open>m\<close> selects.\<close>

definition dot :: "u64 \<Rightarrow> u64 \<Rightarrow> bool" where "dot m x = odd (card {i. bit m i \<and> bit x i})"

lemma finite_bits [simp]: "finite {i. bit (m :: u64) i \<and> P i}"
  by (rule finite_subset [of _ "{..<64}"]) (use bit_imp_le_length [of m] in auto)

lemma dot_commute: "dot m x = dot x m"
  by (simp add: dot_def conj_commute)

lemma dot_xor: "dot m (x XOR y) = (dot m x \<noteq> dot m y)"
proof -
  let ?A = "{i. bit m i \<and> bit x i}" and ?B = "{i. bit m i \<and> bit y i}"
  have "{i. bit m i \<and> bit (x XOR y) i} = (?A - ?B) \<union> (?B - ?A)" by (auto simp: bit_xor_iff)
  moreover have "card ((?A - ?B) \<union> (?B - ?A)) = card (?A - ?B) + card (?B - ?A)" by (rule card_Un_disjoint) auto
  ultimately have "card {i. bit m i \<and> bit (x XOR y) i} = card (?A - ?B) + card (?B - ?A)" by simp
  moreover have "card ?A = card (?A - ?B) + card (?A \<inter> ?B)" "card ?B = card (?B - ?A) + card (?A \<inter> ?B)"
    by (auto simp: Int_commute card_Diff_subset_Int intro!: le_add_diff_inverse2 [symmetric] card_mono)
  ultimately show ?thesis by (auto simp: dot_def)
qed

lemma dot_xor_mask: "dot (m XOR n) x = (dot m x \<noteq> dot n x)"
  using dot_xor [of x m n] by (simp add: dot_commute)

lemma dot_push: "dot m (push_bit n x) = dot (drop_bit n m) x"
proof -
  have "{i. bit m i \<and> bit (push_bit n x) i} = (\<lambda>i. n + i) ` {i. bit (drop_bit n m) i \<and> bit x i}"
  proof (intro equalityI subsetI)
    fix i assume "i \<in> {i. bit m i \<and> bit (push_bit n x) i}"
    then show "i \<in> (\<lambda>i. n + i) ` {i. bit (drop_bit n m) i \<and> bit x i}"
      by (intro image_eqI [of _ _ "i - n"]) (auto simp: bit_push bit_drop)
  qed (use bit_imp_le_length [of m] in \<open>auto simp: bit_push bit_drop\<close>)
  then show ?thesis by (simp add: dot_def card_image inj_on_def)
qed

lemma dot_drop: "dot m (drop_bit n x) = dot (push_bit n m) x"
  using dot_push [of x n m] by (simp add: dot_commute)

lemma dot_power: "j < 64 \<Longrightarrow> dot (push_bit j 1) x = bit x j"
proof -
  assume "j < 64"
  then have "{i. bit (push_bit j 1 :: u64) i \<and> bit x i} = (if bit x j then {j} else {})" by (auto simp: bit_exp_iff)
  then show ?thesis by (simp add: dot_def)
qed

text \<open>The transposed step.\<close>

definition mask_step :: "u64 \<Rightarrow> u64" where
  "mask_step m = (let a = m XOR drop_bit 17 m; b = a XOR push_bit 7 a in b XOR drop_bit 13 b)"

lemma dot_steps:
  "dot m (x XOR push_bit n x) = dot (m XOR drop_bit n m) x"
  "dot m (x XOR drop_bit n x) = dot (m XOR push_bit n m) x"
  by (simp_all add: dot_xor dot_xor_mask dot_push dot_drop)

lemma dot_next: "dot m (rng_next x) = dot (mask_step m) x"
  unfolding rng_next_def mask_step_def Let_def dot_steps ..

text \<open>The masks that select the highest bit of the first, the second, ... value drawn.\<close>

definition top_masks :: "u64 list" where
  "top_masks = [
    0x8024410200000000, 0x9220182428020008, 0x820CDB60752B7059, 0x84458B671E6C853D, 0xA6A45EA3691BAD5B, 0xF4A55045C9D5E8E1,
    0xA6351026974DDA03, 0xBC913995598BC397, 0xF425282B2C0DE9E4, 0xE68B7A87C30A2FDE, 0xA30AF0821D4436AC, 0x265B1064F23603C7,
    0xBDAF921479AD514, 0xE6A3AFF568BCEBD1, 0xB74834976BB17B43, 0x137F6D7438C1E7F7, 0xACC86764BBE3AC26, 0xC8D6F7C12A8C1F1F,
    0xA39A5A78D33E9F94, 0x6E9CA5B4752E0844, 0x20D4E946A2A3B439, 0x4AAA3A04AC4CE2FA, 0x1FA54AA4AA5C6A7A, 0xCD01964E7B9DD5D8,
    0x4DFBF85A51798D61, 0xB0110DD56C8E736F, 0xB8BE7EF50140911A, 0xE7A84ACE9E9BD52C, 0x33B529E2E78B876C, 0xE92A6568AE0ED02C,
    0x7C210E24B8671D63, 0x6CBA4FE2D489C7FF, 0x31872A737D1C0948, 0xF219FA37ACD98334, 0xFEDFE85344757E1F, 0x911081C4D5163F33,
    0x1974A4A517EDF74C, 0xA325BEB8A7EDF1B3, 0x31D3F485F0D183C1, 0xD8231B479064B65C, 0xC99E909E1CBFBAAC, 0x6E4EBDDCB73A825,
    0x74931BF50BBC0240, 0x3D0217E05AF860B4, 0xBC0359FC1B6000BD, 0xBD851521B1AB4F49, 0x7F23437B75056E1E, 0xEE9A7D68C4D6DC08,
    0xA39A04200DFBD60F, 0x6EB3D6EFE15479EF, 0x374280AACE7FF4FC, 0x960BAEB46D07A958, 0x93FDA2A57FF6D6C8, 0x6D0B2ECEC8F71434,
    0xE88079DD788CEA8D, 0xA88387096CB29902, 0xE96D3C4C8CD823D7, 0x5FCBCBBAC257D65E, 0xBA3C1A02BCB61B7D, 0xA41AE9BA20368688,
    0xA9422A2621C9D615, 0x87D7EF4B15373BC, 0x36C1A9CDE4D47470, 0x561A54F208D8C096]"

text \<open>Which of them add up to the mask of a single bit.\<close>

definition bit_sums :: "nat list" where
  "bit_sums = [
    0x8D87A3D697678093, 0xF94968DA9DF24C4E, 0x7393D0956D5510F, 0xA065E4E24E7D64F2, 0x715719C3A0585E0B, 0xBABAB4DDDE7ADE6A,
    0x4732F3218F8A1E8A, 0x97B630D8E139B3B4, 0xAE56DCCFE87E6D3, 0x94B471BFB7FF311, 0xE190F9858A169F17, 0x93F92A44E0E8E21D,
    0xCEF109C53A1E50BF, 0x44D0B6B407F9A30D, 0x40ADED10E629AA93, 0x18168B5C555D7A7A, 0xBBB82DCE43FD71C1, 0x52D8C7EE66F2CD33,
    0xF8F1EB3A7D2CA4C, 0x151F3DCD9939DD4A, 0xD74048D27E54D630, 0x325A3227490F5528, 0x2649E7F6524D2C90, 0x8C03BF9658FD5BA7,
    0xFF6E8BB9DF9D864, 0x97769BDA6F667A9C, 0x32B179D18E937847, 0xEE10CD7A1917AA93, 0xA6B3837E307BDFC7, 0xAC62FFD7AA3179B5,
    0xA817CC314266B1D8, 0xA23FB8297BD21594, 0x7681975CB713FDF6, 0xD6D5FA231CE71BD6, 0x83E77BB290333E20, 0xF279BDA1964DF299,
    0x5EFE81AA916F01C7, 0x2D89C2CD6AC2B324, 0xFEDC4390D000E94B, 0x8C01EB41642457E3, 0x355ED051C590B35B, 0xAE7EF5FF2A0B53CF,
    0x712D321136EB4E8A, 0xE35BF0D136F3F0BC, 0x35184FA5393F7D18, 0x65B74B5D224B98F0, 0x4980186626777E40, 0xA5488BF631EAF905,
    0x96C8901821AB0EAF, 0x5BF210C01B31A173, 0xD6B8B6B8C0F83795, 0x1CCB42A9C69110FF, 0x3ECCF38F14CD78B1, 0xFC2CEEFD93B07859,
    0x1BCEE75D6339434A, 0xFD2995EBF9ACD1EC, 0x8C9D783A4E531DF6, 0xB8BD2DD8F45070AC, 0x746F0237AB4A7BA, 0x8FAB702727DE4946,
    0xCECBEDEA53CEBB0, 0xA1BD91FA1B3D9B72, 0x56074C055580591D, 0x809F6A51AC489900]"

fun mask_chain :: "u64 \<Rightarrow> u64 list \<Rightarrow> bool" where
  "mask_chain m [] = True"
| "mask_chain m (n # ns) = (mask_step m = n \<and> mask_chain n ns)"

fun mask_sum :: "nat \<Rightarrow> u64 list \<Rightarrow> u64" where
  "mask_sum c [] = 0"
| "mask_sum c (m # ms) = (if odd c then m XOR mask_sum (c div 2) ms else mask_sum (c div 2) ms)"

lemma mask_sum_numeral:
  "mask_sum 0 ms = 0" "mask_sum (Suc 0) (m # ms) = m"
  "mask_sum (numeral (num.Bit0 k)) (m # ms) = mask_sum (numeral k) ms"
  "mask_sum (numeral (num.Bit1 k)) (m # ms) = m XOR mask_sum (numeral k) ms"
proof -
  show "mask_sum 0 ms = 0" for ms by (induction ms) simp_all
  then show "mask_sum (Suc 0) (m # ms) = m" by simp
qed simp_all

lemma top_masks_chain: "mask_chain (push_bit 63 1) top_masks"
  unfolding top_masks_def by (simp add: mask_step_def)

lemma bit_sums_ok: "map (\<lambda>c. mask_sum c top_masks) bit_sums = map (\<lambda>j. push_bit j 1) [0..<64]"
  unfolding top_masks_def bit_sums_def by (simp add: mask_sum_numeral upt_rec [of 0] upt_rec [of "Suc 0"] numeral_2_eq_2 [symmetric] del: mask_sum.simps(2))

lemma chain_dot: "mask_chain m ms \<Longrightarrow> k < length ms \<Longrightarrow> dot (ms ! k) x = dot m ((rng_next ^^ Suc k) x)"
proof (induction m ms arbitrary: k x rule: mask_chain.induct)
  case (2 m n ns)
  show ?case
  proof (cases k)
    case 0
    then show ?thesis using 2 by (simp add: dot_next)
  next
    case (Suc j)
    have "dot (ns ! j) x = dot n ((rng_next ^^ Suc j) x)" using 2 Suc by simp
    then show ?thesis using 2(2) Suc by (auto simp: dot_next)
  qed
qed simp

lemma mask_sum_dot: "\<forall>m \<in> set ms. \<not> dot m x \<Longrightarrow> \<not> dot (mask_sum c ms) x"
  by (induction c ms rule: mask_sum.induct) (auto simp: dot_xor_mask, simp add: dot_def)

lemma high_bit_comes:
  assumes "x \<noteq> 0"
  shows "\<exists>k < 64. bit ((rng_next ^^ Suc k) x) 63"
proof (rule ccontr)
  assume no: "\<not> ?thesis"
  have l: "length top_masks = 64" by (simp add: top_masks_def)
  have "\<not> dot m x" if m: "m \<in> set top_masks" for m
  proof -
    obtain k where k: "k < 64" "m = top_masks ! k" using m l by (auto simp: in_set_conv_nth)
    then show ?thesis using chain_dot [OF top_masks_chain, of k x] no l dot_power [of 63] by simp
  qed
  then have "\<not> dot (mask_sum c top_masks) x" for c by (intro mask_sum_dot) blast
  then have "\<forall>m \<in> set (map (\<lambda>c. mask_sum c top_masks) bit_sums). \<not> dot m x" by simp
  then have "\<not> dot (push_bit j 1) x" if "j < 64" for j unfolding bit_sums_ok using that by simp
  then have "\<not> bit x j" if "j < 64" for j using that dot_power by blast
  then have "x = 0" by (intro bit_eqI) simp
  then show False using assms by simp
qed

section \<open>Ranges\<close>

text \<open>A state is never zero.\<close>

lemma rng_next_zero: "rng_next x = 0 \<longleftrightarrow> x = 0"
proof
  assume "rng_next x = 0"
  then have z: "(rng_next ^^ Suc k) x = 0" for k
    by (induction k) (simp_all add: rng_next_def Let_def)
  show "x = 0" using high_bit_comes [of x] unfolding z by auto
qed (simp add: rng_next_def)

lemma rng_next_pow: "x \<noteq> 0 \<Longrightarrow> (rng_next ^^ k) x \<noteq> 0"
  by (induction k) (simp_all add: rng_next_zero)

lemma rng_seed_nonzero: "rng_seed seed \<noteq> 0"
  by (simp add: rng_seed_def Let_def)

text \<open>A draw returns as soon as a value reaches the threshold.\<close>

lemma draw_first:
  "(\<exists>k \<le> n. (rng_next ^^ Suc k) s \<ge> t) \<Longrightarrow> \<exists>k \<le> n. draw t s = Some ((rng_next ^^ Suc k) s) \<and> (rng_next ^^ Suc k) s \<ge> t"
proof (induction n arbitrary: s)
  case 0
  then have "\<not> rng_next s < t" "rng_next s \<ge> t" by auto
  then show ?case by (simp add: draw.simps [of t s] Let_def)
next
  case (Suc n)
  show ?case
  proof (cases "rng_next s \<ge> t")
    case True
    then have "\<not> rng_next s < t" by auto
    then show ?thesis using True by (intro exI [of _ 0]) (simp add: draw.simps [of t s] Let_def)
  next
    case False
    obtain k where k: "k \<le> Suc n" "(rng_next ^^ Suc k) s \<ge> t" using Suc.prems by blast
    then obtain j where "k = Suc j" using False by (cases k) auto
    then have "\<exists>k \<le> n. (rng_next ^^ Suc k) (rng_next s) \<ge> t" using k by (intro exI [of _ j]) (simp add: funpow_swap1)
    from Suc.IH [OF this] obtain j where j: "j \<le> n" "draw t (rng_next s) = Some ((rng_next ^^ Suc j) (rng_next s))"
        "(rng_next ^^ Suc j) (rng_next s) \<ge> t" by blast
    have "rng_next s < t" using False by simp
    then show ?thesis using j
      by (intro exI [of _ "Suc j"]) (simp add: draw.simps [of t s] Let_def funpow_swap1)
  qed
qed

lemma threshold_small:
  fixes R :: u64
  assumes "R \<noteq> 0" "R \<noteq> 2 ^ 63"
  shows "\<exists>m. signed_neg (sint R) = Some m \<and> unat (word_of_int m mod R) = 2 ^ 64 mod unat R \<and> 2 ^ 64 mod unat R \<le> 2 ^ 63"
proof -
  have r: "0 < unat R" "unat R < 2 ^ 64" using assms(1) unsigned_less [of R, where 'a = nat] by (simp_all add: unat_gt_0)
  have "- (2 ^ 63) \<le> sint R" "sint R < 2 ^ 63" using sint_ge [of R] sint_lt [of R] by simp_all
  moreover have "sint R \<noteq> - (2 ^ 63)"
  proof
    assume "sint R = - (2 ^ 63)"
    moreover have "R = word_of_int (sint R)" by simp
    ultimately have "R = word_of_int (- (2 ^ 63))" by (simp only:)
    then show False using assms(2) by simp
  qed
  ultimately have n: "signed_neg (sint R) = Some (- sint R)" by (simp add: signed_neg_def i64_ok_def)
  have "(word_of_int (- sint R) :: u64) = - R" by simp
  also have "- R = word_of_nat (2 ^ 64 - unat R)" using r by (simp add: of_nat_diff)
  finally have "unat (word_of_int (- sint R) :: u64) = 2 ^ 64 - unat R" using r by (simp only: unat_of_nat) simp
  then have "unat (word_of_int (- sint R) mod R) = (2 ^ 64 - unat R) mod unat R" unfolding unat_mod by simp
  also have "\<dots> = 2 ^ 64 mod unat R" using r by (simp add: le_mod_geq)
  finally have m: "unat (word_of_int (- sint R) mod R) = 2 ^ 64 mod unat R" .
  have "2 ^ 64 mod unat R \<le> 2 ^ 63"
  proof (cases "unat R \<le> 2 ^ 63")
    case True
    then show ?thesis using mod_less_divisor [OF r(1), of "2 ^ 64"] by linarith
  next
    case False
    have "2 ^ 64 mod unat R = (2 ^ 64 - unat R) mod unat R" using r by (simp add: le_mod_geq)
    also have "\<dots> \<le> 2 ^ 64 - unat R" by (rule mod_less_eq_dividend)
    finally show ?thesis using False by simp
  qed
  with n m show ?thesis by blast
qed

lemma high_bit_large: "bit (v :: u64) 63 \<Longrightarrow> 2 ^ 63 \<le> unat v"
proof -
  assume "bit v 63"
  then have "bit (unat v) 63" by (simp add: bit_unsigned_iff)
  then have odd: "odd (unat v div 2 ^ 63)" unfolding bit_iff_odd .
  show ?thesis
  proof (rule ccontr)
    assume "\<not> 2 ^ 63 \<le> unat v"
    then have "unat v div 2 ^ 63 = 0" by simp
    with odd show False by simp
  qed
qed

lemma range_result:
  assumes "lo < (hi :: u64)"
  shows "lo \<le> lo + x mod (hi - lo)" "lo + x mod (hi - lo) < hi" "unat (lo + x mod (hi - lo)) = unat lo + unat x mod (unat hi - unat lo)"
proof -
  have u: "unat (hi - lo) = unat hi - unat lo" "unat lo < unat hi" "unat hi < 2 ^ 64"
    using assms unsigned_less [of hi, where 'a = nat] by (auto simp: unat_sub word_less_nat_alt word_le_nat_alt)
  have "unat (x mod (hi - lo)) < unat hi - unat lo" unfolding unat_mod u(1) using u(2) by simp
  then have s: "unat (lo + x mod (hi - lo)) = unat lo + unat (x mod (hi - lo))" using u by (simp add: unat_word_ariths)
  then show "lo \<le> lo + x mod (hi - lo)" "lo + x mod (hi - lo) < hi"
    using \<open>unat (x mod (hi - lo)) < unat hi - unat lo\<close> by (simp_all add: word_le_nat_alt word_less_nat_alt)
  show "unat (lo + x mod (hi - lo)) = unat lo + unat x mod (unat hi - unat lo)" unfolding s unat_mod u(1) ..
qed

lemma rng_range_value:
  assumes "s \<noteq> 0" "lo < hi" "hi - lo \<noteq> 2 ^ 63"
  shows "\<exists>k < 64. let x = (rng_next ^^ Suc k) s; R = unat hi - unat lo
    in 2 ^ 64 mod R \<le> unat x \<and> rng_range lo hi s = Some (lo + x mod (hi - lo), x)"
proof -
  have R: "hi - lo \<noteq> 0" using assms(2) by auto
  have u: "unat (hi - lo) = unat hi - unat lo" using assms(2) by (simp add: unat_sub less_imp_le)
  obtain m where m: "signed_neg (sint (hi - lo)) = Some m" "unat (word_of_int m mod (hi - lo)) = 2 ^ 64 mod (unat hi - unat lo)"
      "2 ^ 64 mod (unat hi - unat lo) \<le> 2 ^ 63"
    using threshold_small [OF R assms(3)] unfolding u by blast
  obtain k where k: "k < 64" "bit ((rng_next ^^ Suc k) s) 63" using high_bit_comes [OF assms(1)] by blast
  have "(rng_next ^^ Suc k) s \<ge> word_of_int m mod (hi - lo)"
    unfolding word_le_nat_alt m(2) using high_bit_large [OF k(2)] m(3) by (rule order_trans [rotated])
  then obtain j where j: "j \<le> k" "draw (word_of_int m mod (hi - lo)) s = Some ((rng_next ^^ Suc j) s)"
      "(rng_next ^^ Suc j) s \<ge> word_of_int m mod (hi - lo)"
    using draw_first [of k "word_of_int m mod (hi - lo)" s] by blast
  have "rng_range lo hi s = Some (lo + (rng_next ^^ Suc j) s mod (hi - lo), (rng_next ^^ Suc j) s)"
    using assms(2) m(1) j(2) by (auto simp: rng_range_def not_le [symmetric] Let_def simp del: funpow.simps)
  moreover have "2 ^ 64 mod (unat hi - unat lo) \<le> unat ((rng_next ^^ Suc j) s)"
    using j(3) unfolding word_le_nat_alt m(2) .
  ultimately show ?thesis using j(1) k(1) by (intro exI [of _ j]) (simp add: Let_def del: funpow.simps)
qed

text \<open>Above the threshold every residue has the same number of values.\<close>

lemma residues_equal:
  assumes "0 < R" "k < (R :: nat)"
  shows "card {x. N mod R \<le> x \<and> x < N \<and> (x - N mod R) mod R = k} = N div R"
proof -
  have "{x. N mod R \<le> x \<and> x < N \<and> (x - N mod R) mod R = k} = (\<lambda>q. N mod R + (q * R + k)) ` {..<N div R}"
  proof (intro equalityI subsetI)
    fix x assume x: "x \<in> {x. N mod R \<le> x \<and> x < N \<and> (x - N mod R) mod R = k}"
    let ?y = "x - N mod R"
    have "?y < N - N mod R" using x by auto
    also have "\<dots> = N div R * R" by (metis add_diff_cancel_right' div_mult_mod_eq)
    finally have "?y div R < N div R" using assms(1) by (simp add: div_less_iff_less_mult)
    moreover have "x = N mod R + (?y div R * R + k)" using x by (auto simp: div_mult_mod_eq)
    ultimately show "x \<in> (\<lambda>q. N mod R + (q * R + k)) ` {..<N div R}" by blast
  next
    fix x assume "x \<in> (\<lambda>q. N mod R + (q * R + k)) ` {..<N div R}"
    then obtain q where q: "q < N div R" "x = N mod R + (q * R + k)" by blast
    have "q * R + k < Suc q * R" using assms(2) by simp
    also have "\<dots> \<le> N div R * R" using q(1) by (intro mult_le_mono1) simp
    finally have "x < N" using q(2) by (metis add.commute add_less_cancel_left div_mult_mod_eq)
    then show "x \<in> {x. N mod R \<le> x \<and> x < N \<and> (x - N mod R) mod R = k}" using q(2) assms by simp
  qed
  moreover have "inj_on (\<lambda>q. N mod R + (q * R + k)) {..<N div R}" using assms by (simp add: inj_on_def)
  ultimately show ?thesis by (simp add: card_image)
qed

lemma shifted_residue:
  assumes "t < (R :: nat)" "t \<le> x" "k < R"
  shows "x mod R = k \<longleftrightarrow> (x - t) mod R = (k + (R - t)) mod R"
proof
  assume "x mod R = k"
  have "(x - t) mod R = (x - t + R) mod R" by simp
  also have "x - t + R = x + (R - t)" using assms by simp
  also have "(x + (R - t)) mod R = (x mod R + (R - t)) mod R" by (rule mod_add_left_eq [symmetric])
  finally show "(x - t) mod R = (k + (R - t)) mod R" using \<open>x mod R = k\<close> by simp
next
  assume m: "(x - t) mod R = (k + (R - t)) mod R"
  have "x mod R = (x - t + t) mod R" using assms by simp
  also have "\<dots> = ((x - t) mod R + t) mod R" by (rule mod_add_left_eq [symmetric])
  also have "\<dots> = (k + (R - t) + t) mod R" unfolding m by (rule mod_add_left_eq)
  also have "\<dots> = k" using assms by simp
  finally show "x mod R = k" .
qed

lemma range_unbiased:
  assumes "k < (R :: nat)"
  shows "card {x. N mod R \<le> x \<and> x < N \<and> x mod R = k} = N div R"
proof -
  have R: "0 < R" using assms by simp
  then have t: "N mod R < R" by simp
  have "{x. N mod R \<le> x \<and> x < N \<and> x mod R = k} = {x. N mod R \<le> x \<and> x < N \<and> (x - N mod R) mod R = (k + (R - N mod R)) mod R}"
    using shifted_residue [OF t _ assms] by blast
  then show ?thesis using residues_equal [OF R, of "(k + (R - N mod R)) mod R" N] R by simp
qed



section \<open>Shuffling\<close>

lemma shuffle_loop_ok:
  "s \<noteq> 0 \<Longrightarrow> i < length xs \<Longrightarrow> length xs < 2 ^ 63 \<Longrightarrow> \<exists>ys s'. shuffle_loop i xs s = Some (ys, s') \<and> mset ys = mset xs \<and> s' \<noteq> 0"
proof (induction i arbitrary: xs s)
  case (Suc i)
  let ?hi = "word_of_nat (Suc i) + 1 :: u64"
  have u: "unat ?hi = i + 2"
  proof -
    have "?hi = word_of_nat (i + 2)" by simp
    then show ?thesis using Suc.prems by (simp only: unat_of_nat) simp
  qed
  then have lt: "0 < ?hi" by (simp add: word_less_nat_alt)
  moreover have "?hi - 0 \<noteq> 2 ^ 63"
  proof
    assume "?hi - 0 = 2 ^ 63"
    then have "unat ?hi = 2 ^ 63" using unat_exp [of 63] by simp
    then show False using u Suc.prems by simp
  qed
  ultimately obtain k where r: "rng_range 0 ?hi s = Some (0 + (rng_next ^^ Suc k) s mod (?hi - 0), (rng_next ^^ Suc k) s)"
    using rng_range_value [OF Suc.prems(1), of 0 ?hi] by (auto simp: Let_def simp del: funpow.simps)
  define j where "j = 0 + (rng_next ^^ Suc k) s mod (?hi - 0)"
  define s1 where "s1 = (rng_next ^^ Suc k) s"
  have "unat j < i + 2" using range_result(2) [OF lt, of s1] u unfolding j_def s1_def word_less_nat_alt by simp
  define ys where "ys = (if Suc i \<noteq> unat j then swap_elems (Suc i) (unat j) xs else xs)"
  have y: "length ys = length xs" "mset ys = mset xs" using \<open>unat j < i + 2\<close> Suc.prems(2) by (auto simp: ys_def swap_mset)
  have "shuffle_loop (Suc i) xs s = shuffle_loop i ys s1"
    using r [folded j_def s1_def] by (simp add: ys_def)
  moreover have "s1 \<noteq> 0" unfolding s1_def by (rule rng_next_pow [OF Suc.prems(1)])
  ultimately show ?case using Suc.IH [of s1 ys] Suc.prems y by auto
qed simp

text \<open>
  Shuffling an array returns, with a permutation of it.
\<close>
theorem rng_shuffle_permutes:
  assumes "s \<noteq> 0" "length xs < 2 ^ 63"
  shows "\<exists>ys s'. rng_shuffle xs s = Some (ys, s') \<and> mset ys = mset xs \<and> s' \<noteq> 0"
  using shuffle_loop_ok [OF assms(1), of "length xs - 1" xs] assms by (cases "length xs < 2") (auto simp: rng_shuffle_def)

lemma rng_shuffle_permutes_witness: "\<exists>ys s'. rng_shuffle [1 :: nat, 2, 3] global_rng = Some (ys, s') \<and> mset ys = {#1, 2, 3#}"
  using rng_shuffle_permutes [of global_rng "[1 :: nat, 2, 3]"] by (auto simp: global_rng_def)

section \<open>Identifiers\<close>

lemma rng_fill_length: "length (fst (rng_fill n s)) = n"
proof (induction n s rule: rng_fill.induct)
  case (1 n s)
  have l: "length (le_bytes v) = 8" for v by (simp add: le_bytes_def)
  show ?case
  proof (cases "n \<ge> 8")
    case True
    then have "length (fst (rng_fill (n - 8) (rng_next s))) = n - 8" using 1 by simp
    then show ?thesis using True by (cases "rng_fill (n - 8) (rng_next s)") (simp add: rng_fill.simps [of n] l Let_def)
  qed (simp add: rng_fill.simps [of n] l Let_def)
qed

lemma hex2_length [simp]: "length (concat (map hex2 bs)) = 2 * length bs"
  by (induction bs) (simp_all add: hex2_def)

lemma version_nibble: "unat (drop_bit 4 ((b AND 0x0F) OR 0x40 :: u8)) = 4"
proof -
  have "drop_bit 4 ((b AND 0x0F) OR 0x40 :: u8) = 4"
    by (rule bit_eqI) (auto simp: bit_moves bit_numeral_rec)
  then show ?thesis by simp
qed

lemma uuid_v4_form:
  "length (fst (uuid_v4 s)) = 36 \<and> fst (uuid_v4 s) ! 14 = 52 \<and> (\<forall>i \<in> {8, 13, 18, 23}. fst (uuid_v4 s) ! i = 45)"
proof -
  obtain b s1 where b: "rng_fill 16 s = (b, s1)" by fastforce
  then have "length b = 16" using rng_fill_length [of 16 s] by simp
  then obtain b0 b1 b2 b3 b4 b5 b6 b7 b8 b9 b10 b11 b12 b13 b14 b15
    where "b = [b0, b1, b2, b3, b4, b5, b6, b7, b8, b9, b10, b11, b12, b13, b14, b15]"
    by (auto simp: length_Suc_conv numeral_eq_Suc)
  then show ?thesis
    by (simp add: uuid_v4_def b uuid_bytes_def hex2_def Let_def version_nibble) (simp add: lower_digit_def)
qed

end
