(* ===== verification/LibcData.thy ===== *)
theory LibcData
  imports LibcBits
begin

text \<open>
  The ring buffer and the bitmap of libc/systrix_libc.c.  The elements of a ring are abstract (the code copies
  \<open>esize\<close> bytes); its two counters are 32-bit words that never stop counting.  The words of a bitmap are a list.
\<close>

section \<open>Ring buffer\<close>

record 'a sring =
  sr_buf :: "nat \<Rightarrow> 'a"
  sr_cap :: u32
  sr_head :: u32
  sr_tail :: u32

definition ring_init :: "(nat \<Rightarrow> 'a) \<Rightarrow> u32 \<Rightarrow> 'a sring option" where
  "ring_init buf cap =
     (if cap \<noteq> 0 \<and> cap AND (cap - 1) = 0 then Some \<lparr>sr_buf = buf, sr_cap = cap, sr_head = 0, sr_tail = 0\<rparr> else None)"

definition ring_empty :: "'a sring \<Rightarrow> bool" where "ring_empty r \<longleftrightarrow> sr_head r = sr_tail r"
definition ring_full :: "'a sring \<Rightarrow> bool" where "ring_full r \<longleftrightarrow> sr_head r - sr_tail r = sr_cap r"
definition ring_count :: "'a sring \<Rightarrow> u32" where "ring_count r = sr_head r - sr_tail r"

definition ring_push :: "'a \<Rightarrow> 'a sring \<Rightarrow> int \<times> 'a sring" where
  "ring_push x r =
     (if ring_full r then (-1, r)
      else (0, r\<lparr>sr_buf := (sr_buf r)(unat (sr_head r AND (sr_cap r - 1)) := x), sr_head := sr_head r + 1\<rparr>))"

text \<open>The element is stored only when the result is 0.\<close>

definition ring_pop :: "'a sring \<Rightarrow> int \<times> 'a option \<times> 'a sring" where
  "ring_pop r =
     (if ring_empty r then (-1, None, r)
      else (0, Some (sr_buf r (unat (sr_tail r AND (sr_cap r - 1)))), r\<lparr>sr_tail := sr_tail r + 1\<rparr>))"

definition ring_peek :: "'a sring \<Rightarrow> int \<times> 'a option" where
  "ring_peek r =
     (if ring_empty r then (-1, None) else (0, Some (sr_buf r (unat (sr_tail r AND (sr_cap r - 1))))))"

definition ring_clear :: "'a sring \<Rightarrow> 'a sring" where "ring_clear r = r\<lparr>sr_head := 0, sr_tail := 0\<rparr>"

section \<open>Bitmap\<close>

record bitmap =
  bm_words :: "u64 list"
  bm_nbits :: nat

definition bm_nwords :: "nat \<Rightarrow> nat" where "bm_nwords n = (n + 63) div 64"

definition bm_init :: "nat \<Rightarrow> bitmap" where
  "bm_init n = \<lparr>bm_words = replicate (bm_nwords n) 0, bm_nbits = n\<rparr>"

definition bm_update :: "(u64 \<Rightarrow> u64 \<Rightarrow> u64) \<Rightarrow> nat \<Rightarrow> bitmap \<Rightarrow> bitmap" where
  "bm_update f b bm = bm\<lparr>bm_words := (bm_words bm)[b div 64 := f (bm_words bm ! (b div 64)) (push_bit (b mod 64) 1)]\<rparr>"

definition bm_set :: "nat \<Rightarrow> bitmap \<Rightarrow> bitmap" where "bm_set b bm = bm_update (OR) b bm"
definition bm_clear :: "nat \<Rightarrow> bitmap \<Rightarrow> bitmap" where "bm_clear b bm = bm_update (\<lambda>w m. w AND NOT m) b bm"
definition bm_toggle :: "nat \<Rightarrow> bitmap \<Rightarrow> bitmap" where "bm_toggle b bm = bm_update (XOR) b bm"
definition bm_test :: "bitmap \<Rightarrow> nat \<Rightarrow> bool" where
  "bm_test bm b \<longleftrightarrow> bm_words bm ! (b div 64) AND push_bit (b mod 64) 1 \<noteq> 0"
definition bm_zero :: "bitmap \<Rightarrow> bitmap" where
  "bm_zero bm = bm\<lparr>bm_words := replicate (bm_nwords (bm_nbits bm)) 0\<rparr>"
definition bm_fill :: "bitmap \<Rightarrow> bitmap" where
  "bm_fill bm =
     (let nw = bm_nwords (bm_nbits bm); ws = replicate nw (- 1)
      in bm\<lparr>bm_words := if bm_nbits bm mod 64 \<noteq> 0 then ws[nw - 1 := push_bit (bm_nbits bm mod 64) 1 - 1] else ws\<rparr>)"

function first_set_loop :: "bitmap \<Rightarrow> nat \<Rightarrow> nat" where
  "first_set_loop bm b =
     (if b < bm_nbits bm
      then let w = drop_bit (b mod 64) (bm_words bm ! (b div 64))
        in if w \<noteq> 0 then b + ctz w else first_set_loop bm ((b div 64 + 1) * 64)
      else bm_nbits bm)"
  by pat_completeness auto
termination
proof (relation "measure (\<lambda>(bm, b). bm_nbits bm - b)")
  fix bm b w
  assume "b < bm_nbits bm"
  moreover have "b < (b div 64 + 1) * 64" by (metis dividend_less_div_times mult.commute add_mult_distrib nat_mult_1 zero_less_numeral add.commute)
  ultimately show "((bm, (b div 64 + 1) * 64), bm, b) \<in> measure (\<lambda>(bm, b). bm_nbits bm - b)" by simp
qed simp

function first_clear_loop :: "bitmap \<Rightarrow> nat \<Rightarrow> nat" where
  "first_clear_loop bm b =
     (if b < bm_nbits bm
      then let w = drop_bit (b mod 64) (NOT (bm_words bm ! (b div 64)))
        in if w \<noteq> 0 then let found = b + ctz w in if found < bm_nbits bm then found else bm_nbits bm
           else first_clear_loop bm ((b div 64 + 1) * 64)
      else bm_nbits bm)"
  by pat_completeness auto
termination
proof (relation "measure (\<lambda>(bm, b). bm_nbits bm - b)")
  fix bm b w
  assume "b < bm_nbits bm"
  moreover have "b < (b div 64 + 1) * 64" by (metis dividend_less_div_times mult.commute add_mult_distrib nat_mult_1 zero_less_numeral add.commute)
  ultimately show "((bm, (b div 64 + 1) * 64), bm, b) \<in> measure (\<lambda>(bm, b). bm_nbits bm - b)" by simp
qed simp

declare first_set_loop.simps [simp del] first_clear_loop.simps [simp del]

definition bm_first_set :: "bitmap \<Rightarrow> nat \<Rightarrow> nat" where "bm_first_set bm start = first_set_loop bm start"
definition bm_first_clear :: "bitmap \<Rightarrow> nat \<Rightarrow> nat" where "bm_first_clear bm start = first_clear_loop bm start"

definition bm_count_set :: "bitmap \<Rightarrow> nat" where
  "bm_count_set bm = sum_list (map (\<lambda>i. unat (popcount (bm_words bm ! i))) [0..<bm_nwords (bm_nbits bm)])"

section \<open>The ring is a bounded queue\<close>

definition ring_ok :: "nat \<Rightarrow> 'a sring \<Rightarrow> bool" where
  "ring_ok k r \<longleftrightarrow> k < 32 \<and> sr_cap r = 2 ^ k \<and> unat (ring_count r) \<le> 2 ^ k"

definition ring_items :: "'a sring \<Rightarrow> 'a list" where
  "ring_items r = ring_list (unat (sr_cap r)) (sr_buf r) (unat (sr_tail r) mod unat (sr_cap r)) (unat (ring_count r))"

lemma unat_exp32: "k < 32 \<Longrightarrow> unat ((2 :: u32) ^ k) = 2 ^ k"
proof -
  assume n: "k < 32"
  have "(2 :: u32) ^ k = word_of_nat (2 ^ k)" by simp
  moreover have "(2 :: nat) ^ k < 2 ^ 32" using n by (rule power_strict_increasing) simp
  ultimately show ?thesis by (simp only: unat_of_nat) simp
qed

lemma slot_of: "unat ((w :: u32) AND (2 ^ k - 1)) = unat w mod 2 ^ k"
proof -
  have "w AND (2 ^ k - 1) = take_bit k w" by (simp add: take_bit_eq_mask mask_eq_exp_minus_1)
  then have "unat (w AND (2 ^ k - 1)) = take_bit k (unat w)" by (simp only: unsigned_take_bit_eq)
  then show ?thesis by (simp only: take_bit_eq_mod)
qed

lemma mod_down: "k < 32 \<Longrightarrow> n mod 2 ^ 32 mod 2 ^ k = n mod (2 :: nat) ^ k"
  by (intro mod_mod_cancel le_imp_power_dvd) simp

lemma slot_add:
  assumes "k < 32"
  shows "unat (t + w :: u32) mod 2 ^ k = (unat t mod 2 ^ k + unat w) mod 2 ^ k"
proof -
  have "unat (t + w) = (unat t + unat w) mod 2 ^ 32" by (simp add: unat_word_ariths)
  then show ?thesis using mod_down [OF assms] by (simp add: mod_add_left_eq)
qed

lemma count_step:
  assumes "unat (w :: u32) < 2 ^ k" "k < 32"
  shows "unat (w + 1) = Suc (unat w)"
proof -
  have "(2 :: nat) ^ k \<le> 2 ^ 31" using assms(2) by (intro power_increasing) simp_all
  then show ?thesis using assms(1) by (simp add: unat_word_ariths)
qed

lemma ring_init_ok:
  assumes "k < 32"
  shows "\<exists>r. ring_init buf (2 ^ k) = Some r \<and> ring_ok k r \<and> ring_items r = []"
proof -
  have "(2 :: u32) ^ k \<noteq> 0" using unat_exp32 [OF assms] by (metis power_not_zero unsigned_0 zero_neq_numeral)
  moreover have "unat ((2 :: u32) ^ k AND (2 ^ k - 1)) = 0" unfolding slot_of unat_exp32 [OF assms] by simp
  ultimately show ?thesis using assms by (simp add: ring_init_def ring_ok_def ring_items_def ring_count_def unsigned_eq_0_iff)
qed

lemma ring_push_ok:
  assumes "ring_ok k r" "unat (ring_count r) < 2 ^ k"
  shows "fst (ring_push x r) = 0" "ring_ok k (snd (ring_push x r))" "ring_items (snd (ring_push x r)) = ring_items r @ [x]"
proof -
  have k: "k < 32" "sr_cap r = 2 ^ k" "unat (sr_cap r) = 2 ^ k" using assms(1) unat_exp32 by (auto simp: ring_ok_def)
  have nf: "\<not> ring_full r" using assms(2) k by (auto simp: ring_full_def ring_count_def)
  show "fst (ring_push x r) = 0" using nf by (simp add: ring_push_def)
  have c: "ring_count (snd (ring_push x r)) = ring_count r + 1" using nf by (simp add: ring_push_def ring_count_def)
  then have u: "unat (ring_count (snd (ring_push x r))) = Suc (unat (ring_count r))" using count_step [OF assms(2) k(1)] by simp
  then show "ring_ok k (snd (ring_push x r))" using assms k nf by (simp add: ring_ok_def ring_push_def)
  have "unat (sr_head r) mod 2 ^ k = (unat (sr_tail r) mod 2 ^ k + unat (ring_count r)) mod 2 ^ k"
    using slot_add [OF k(1), of "sr_tail r" "ring_count r"] by (simp add: ring_count_def)
  then have "sr_buf (snd (ring_push x r)) = (sr_buf r)((unat (sr_tail r) mod 2 ^ k + unat (ring_count r)) mod 2 ^ k := x)"
    using nf k(2) by (simp add: ring_push_def slot_of)
  moreover have "sr_tail (snd (ring_push x r)) = sr_tail r" "sr_cap (snd (ring_push x r)) = sr_cap r" using nf by (simp_all add: ring_push_def)
  ultimately show "ring_items (snd (ring_push x r)) = ring_items r @ [x]"
    unfolding ring_items_def u k(3) using ring_list_put [OF assms(2)] k(3) by simp
qed

lemma ring_pop_ok:
  assumes "ring_ok k r" "unat (ring_count r) \<noteq> 0"
  shows "\<exists>r'. ring_pop r = (0, Some (hd (ring_items r)), r') \<and> ring_ok k r' \<and> ring_items r' = tl (ring_items r)"
proof -
  have k: "k < 32" "sr_cap r = 2 ^ k" "unat (sr_cap r) = 2 ^ k" using assms(1) unat_exp32 by (auto simp: ring_ok_def)
  have ne: "\<not> ring_empty r" using assms(2) by (auto simp: ring_empty_def ring_count_def)
  let ?r = "r\<lparr>sr_tail := sr_tail r + 1\<rparr>"
  have "ring_count r \<noteq> 0" using assms(2) by auto
  then have u: "unat (ring_count ?r) = unat (ring_count r) - 1"
    using unat_minus_one [of "ring_count r"] by (simp add: ring_count_def diff_diff_eq [symmetric])
  have t: "unat (sr_tail r + 1) mod 2 ^ k = Suc (unat (sr_tail r) mod 2 ^ k) mod 2 ^ k"
    using slot_add [OF k(1), of "sr_tail r" 1] by simp
  have "ring_pop r = (0, Some (sr_buf r (unat (sr_tail r) mod 2 ^ k)), ?r)"
    using ne k(2) by (simp add: ring_pop_def slot_of)
  moreover have "hd (ring_items r) = sr_buf r (unat (sr_tail r) mod 2 ^ k)"
    unfolding ring_items_def k(3) using assms(2) by (simp add: ring_list_hd)
  moreover have "ring_items ?r = tl (ring_items r)"
    unfolding ring_items_def u using t k(3) assms(2) by (simp add: ring_list_tl)
  moreover have "ring_ok k ?r" using assms(1) unfolding ring_ok_def u by (auto intro: order_trans [OF diff_le_self])
  ultimately show ?thesis by simp
qed

interpretation sq: bounded_fifo
  "\<lambda>x r. snd (ring_push x r)" "\<lambda>r. (the (fst (snd (ring_pop r))), snd (snd (ring_pop r)))" "\<lambda>r. unat (ring_count r)"
  "2 ^ k" ring_items "ring_ok k" for k
proof unfold_locales
  fix r :: "'a sring" and x
  assume ok: "ring_ok k r"
  show "unat (ring_count r) = length (ring_items r)" by (simp add: ring_items_def)
  show "length (ring_items r) \<le> 2 ^ k" using ok by (simp add: ring_items_def ring_ok_def)
  show "ring_ok k (snd (ring_push x r))" "ring_items (snd (ring_push x r)) = ring_items r @ [x]" if "unat (ring_count r) < 2 ^ k"
    using ring_push_ok [OF ok that] by simp_all
next
  fix r :: "'a sring"
  assume ok: "ring_ok k r" "unat (ring_count r) \<noteq> 0"
  show "ring_ok k (snd (the (fst (snd (ring_pop r))), snd (snd (ring_pop r))))"
    "fst (the (fst (snd (ring_pop r))), snd (snd (ring_pop r))) = hd (ring_items r)"
    "ring_items (snd (the (fst (snd (ring_pop r))), snd (snd (ring_pop r)))) = tl (ring_items r)"
    using ring_pop_ok [OF ok] by auto
qed

datatype 'a ring_op = Push 'a | Pop

text \<open>A run of operations: the elements accepted, the elements handed out, and the ring at the end.\<close>

fun ring_run :: "'a ring_op list \<Rightarrow> 'a sring \<Rightarrow> 'a list \<times> 'a list \<times> 'a sring" where
  "ring_run [] r = ([], [], r)"
| "ring_run (Push x # ops) r =
     (case ring_push x r of (res, r1) \<Rightarrow> case ring_run ops r1 of (ins, outs, r2) \<Rightarrow> (if res = 0 then x # ins else ins, outs, r2))"
| "ring_run (Pop # ops) r =
     (case ring_pop r of (res, e, r1) \<Rightarrow> case ring_run ops r1 of (ins, outs, r2) \<Rightarrow> (ins, (if res = 0 then the e # outs else outs), r2))"

lemma ring_empty_items: "ring_empty r \<longleftrightarrow> ring_items r = []"
  by (simp add: ring_empty_def ring_items_def ring_count_def length_0_conv [symmetric] unsigned_eq_0_iff del: length_0_conv)

lemma ring_peek_items:
  assumes "ring_ok k r"
  shows "ring_peek r = (if ring_items r = [] then (-1, None) else (0, Some (hd (ring_items r))))"
proof (cases "ring_items r = []")
  case True
  then show ?thesis by (simp add: ring_peek_def ring_empty_items)
next
  case False
  then have "unat (ring_count r) \<noteq> 0" by (auto simp: ring_items_def)
  from ring_pop_ok [OF assms this] have "fst (snd (ring_pop r)) = Some (hd (ring_items r))" by auto
  then show ?thesis using False by (simp add: ring_peek_def ring_pop_def ring_empty_items)
qed

lemma ring_clear_ok: "ring_ok k r \<Longrightarrow> ring_ok k (ring_clear r) \<and> ring_items (ring_clear r) = []"
  by (simp add: ring_ok_def ring_clear_def ring_items_def ring_count_def)

text \<open>
  C5. The ring buffer is a queue of bounded capacity.  From every well-formed ring (\<open>ring_init\<close> gives an
  empty one) and over any sequence of pushes and pops the elements handed out and then those still in the ring are those
  that were in it and then those accepted, in order, however often the 32-bit counters wrap; the ring stays well formed.  A
  push fails exactly when the ring is full and a pop exactly when it is empty; peeking shows the element the next pop
  hands out, and clearing empties the ring.
\<close>
theorem ring_is_fifo:
  assumes "ring_ok k r"
  shows "(\<exists>ins outs r'. ring_run ops r = (ins, outs, r') \<and> ring_ok k r' \<and> ring_items r @ ins = outs @ ring_items r') \<and>
    (fst (ring_push x r) = 0 \<longleftrightarrow> length (ring_items r) < 2 ^ k) \<and>
    (fst (ring_pop r) = 0 \<longleftrightarrow> ring_items r \<noteq> []) \<and>
    ring_peek r = (if ring_items r = [] then (-1, None) else (0, Some (hd (ring_items r)))) \<and>
    ring_ok k (ring_clear r) \<and> ring_items (ring_clear r) = []"
proof -
  have full: "ring_push x r = (-1, r)" if "ring_ok k r" "\<not> unat (ring_count r) < 2 ^ k" for x and r :: "'a sring"
  proof -
    have "unat (ring_count r) = unat (sr_cap r)" using that unat_exp32 [of k] by (auto simp: ring_ok_def)
    then have "sr_head r - sr_tail r = sr_cap r" unfolding ring_count_def by (simp only: word_unat_eq_iff)
    then show ?thesis by (simp add: ring_push_def ring_full_def)
  qed
  have "\<exists>ins outs r'. ring_run ops r = (ins, outs, r') \<and> ring_ok k r' \<and> ring_items r @ ins = outs @ ring_items r'"
    using assms
  proof (induction ops arbitrary: r)
    case (Cons a ops)
    show ?case
    proof (cases a)
      case (Push y)
      show ?thesis
      proof (cases "unat (ring_count r) < 2 ^ k")
        case True
        note p = ring_push_ok [OF Cons.prems True, of y]
        from Cons.IH [OF p(2)] obtain ins outs r' where "ring_run ops (snd (ring_push y r)) = (ins, outs, r')" "ring_ok k r'"
            "ring_items r @ y # ins = outs @ ring_items r'" unfolding p(3) by auto
        then show ?thesis using Push p(1) by (cases "ring_push y r") auto
      next
        case False
        then show ?thesis using Cons full [OF Cons.prems False, of y] Push by fastforce
      qed
    next
      case Pop
      show ?thesis
      proof (cases "unat (ring_count r) = 0")
        case True
        then have "ring_pop r = (-1, None, r)" by (simp add: ring_pop_def ring_empty_def ring_count_def unsigned_eq_0_iff)
        then show ?thesis using Cons.IH [OF Cons.prems] Pop by auto
      next
        case False
        from ring_pop_ok [OF Cons.prems False] obtain r1
          where p: "ring_pop r = (0, Some (hd (ring_items r)), r1)" "ring_ok k r1" "ring_items r1 = tl (ring_items r)" by blast
        have "ring_items r \<noteq> []" using False by (simp add: ring_items_def)
        then show ?thesis using Cons.IH [OF p(2)] p Pop by (cases "ring_items r") auto
      qed
    qed
  qed simp
  moreover have "fst (ring_push x r) = 0 \<longleftrightarrow> length (ring_items r) < 2 ^ k"
    using ring_push_ok(1) [OF assms, of x] full [OF assms, of x] sq.cnt_items [OF assms] by (cases "unat (ring_count r) < 2 ^ k") auto
  moreover have "fst (ring_pop r) = 0 \<longleftrightarrow> ring_items r \<noteq> []" by (simp add: ring_pop_def ring_empty_items)
  ultimately show ?thesis using ring_peek_items [OF assms] ring_clear_ok [OF assms] by blast
qed

lemma ring_is_fifo_witness:
  "\<exists>r ins outs r'. ring_init id (2 ^ 2) = Some r \<and> ring_run [Push 5, Push 6, Pop] r = (ins, outs, r') \<and> ins = outs @ ring_items r' \<and>
     fst (ring_push 0 r) = 0 \<and> ring_peek r = (-1, None)"
proof -
  obtain r where r: "ring_init id (2 ^ 2) = Some r" "ring_ok 2 r" "ring_items r = []" using ring_init_ok [of 2 id] by auto
  from ring_is_fifo [OF r(2), of "[Push 5, Push 6, Pop]" 0] r show ?thesis by auto
qed

section \<open>The bitmap is a set\<close>

definition bit_at :: "bitmap \<Rightarrow> nat \<Rightarrow> bool" where
  "bit_at bm b \<longleftrightarrow> bit (bm_words bm ! (b div 64)) (b mod 64)"

definition bits_of :: "bitmap \<Rightarrow> nat set" where "bits_of bm = {b. b < bm_nbits bm \<and> bit_at bm b}"

text \<open>The words are there, and the bits behind the last one are clear.\<close>

definition bm_ok :: "bitmap \<Rightarrow> bool" where
  "bm_ok bm \<longleftrightarrow> length (bm_words bm) = bm_nwords (bm_nbits bm) \<and>
     (\<forall>b. bm_nbits bm \<le> b \<and> b < 64 * bm_nwords (bm_nbits bm) \<longrightarrow> \<not> bit_at bm b)"

lemma nwords_bounds: "n \<le> 64 * bm_nwords n" "b < n \<Longrightarrow> b div 64 < bm_nwords n" "b < 64 * k \<longleftrightarrow> b div 64 < k"
proof -
  show k: "b < 64 * k \<longleftrightarrow> b div 64 < k" for b k :: nat by (simp add: div_less_iff_less_mult mult.commute)
  show n: "n \<le> 64 * bm_nwords n" for n unfolding bm_nwords_def by linarith
  show "b < n \<Longrightarrow> b div 64 < bm_nwords n" using k n order_less_le_trans by blast
qed

lemma update_bit:
  assumes "bm_ok bm" "b < bm_nbits bm" "\<forall>w m i. i < 64 \<longrightarrow> bit (f w m) i = g (bit w i) (bit m i)" "\<forall>x. g x False = x"
    "c < 64 * bm_nwords (bm_nbits bm)"
  shows "bit_at (bm_update f b bm) c = (if c = b then g (bit_at bm b) True else bit_at bm c)"
proof -
  have l: "b div 64 < length (bm_words bm)" "c div 64 < length (bm_words bm)"
    using assms(1,2,5) nwords_bounds(2,3) by (auto simp: bm_ok_def)
  have m: "bit (push_bit (b mod 64) 1 :: u64) i = (i = b mod 64)" if "i < 64" for i using that by (auto simp: bit_exp_iff)
  have "c = b \<longleftrightarrow> c div 64 = b div 64 \<and> c mod 64 = b mod 64" by (metis div_mult_mod_eq)
  moreover have "c mod 64 < 64" by simp
  ultimately show ?thesis
    using l m assms(3,4) by (auto simp: bit_at_def bm_update_def nth_list_update)
qed

lemma update_ok:
  assumes "bm_ok bm" "b < bm_nbits bm" "\<forall>w m i. i < 64 \<longrightarrow> bit (f w m) i = g (bit w i) (bit m i)" "\<forall>x. g x False = x"
  shows "bm_ok (bm_update f b bm)" "bits_of (bm_update f b bm) = {c. c < bm_nbits bm \<and> (if c = b then g (b \<in> bits_of bm) True else c \<in> bits_of bm)}"
proof -
  have n: "bm_nbits (bm_update f b bm) = bm_nbits bm" "length (bm_words (bm_update f b bm)) = length (bm_words bm)"
    by (simp_all add: bm_update_def)
  show "bm_ok (bm_update f b bm)"
    using assms(1,2) update_bit [OF assms] unfolding bm_ok_def n by auto
  have "c < 64 * bm_nwords (bm_nbits bm)" if "c < bm_nbits bm" for c using that nwords_bounds(1) [of "bm_nbits bm"] by linarith
  then show "bits_of (bm_update f b bm) = {c. c < bm_nbits bm \<and> (if c = b then g (b \<in> bits_of bm) True else c \<in> bits_of bm)}"
    unfolding bits_of_def n using update_bit [OF assms] assms(2) by auto
qed

lemma bm_set_ok: "bm_ok bm \<Longrightarrow> b < bm_nbits bm \<Longrightarrow> bm_ok (bm_set b bm) \<and> bits_of (bm_set b bm) = insert b (bits_of bm)"
  using update_ok [of bm b "(OR)" "(\<or>)"] unfolding bm_set_def by (auto simp: bit_or_iff bits_of_def)

lemma bm_clear_ok: "bm_ok bm \<Longrightarrow> b < bm_nbits bm \<Longrightarrow> bm_ok (bm_clear b bm) \<and> bits_of (bm_clear b bm) = bits_of bm - {b}"
  using update_ok [of bm b "\<lambda>w m. w AND NOT m" "\<lambda>x y. x \<and> \<not> y"] unfolding bm_clear_def
  by (auto simp: bit_and_iff bit_not_iff bits_of_def)

lemma bm_toggle_ok:
  "bm_ok bm \<Longrightarrow> b < bm_nbits bm \<Longrightarrow> bm_ok (bm_toggle b bm) \<and> bits_of (bm_toggle b bm) = (if b \<in> bits_of bm then bits_of bm - {b} else insert b (bits_of bm))"
  using update_ok [of bm b "(XOR)" "\<lambda>x y. x \<noteq> y"] unfolding bm_toggle_def by (auto simp: bit_xor_iff bits_of_def)

lemma bm_test_ok: "b < bm_nbits bm \<Longrightarrow> bm_test bm b = (b \<in> bits_of bm)"
proof -
  have "(w AND push_bit n 1 \<noteq> 0) = bit w n" if "n < 64" for w :: u64 and n
    using that by (auto simp: bit_eq_iff [of _ 0] bit_eq_iff [of "w AND _"] bit_and_iff bit_exp_iff)
  then show "b < bm_nbits bm \<Longrightarrow> bm_test bm b = (b \<in> bits_of bm)" by (simp add: bm_test_def bits_of_def bit_at_def)
qed

lemma bm_zero_ok: "bm_ok (bm_zero bm)" "bits_of (bm_zero bm) = {}" "bm_ok (bm_init n)" "bits_of (bm_init n) = {}"
  using nwords_bounds(2,3) by (auto simp: bm_ok_def bits_of_def bit_at_def bm_zero_def bm_init_def)

lemma nwords_split: "bm_nwords n = n div 64 + (if n mod 64 = 0 then 0 else 1)"
proof (cases "n mod 64")
  case 0
  then have "n + 63 = 63 + (n div 64) * 64" using mult_div_mod_eq [of 64 n] by simp
  then show ?thesis using 0 unfolding bm_nwords_def by simp
next
  case (Suc s)
  then have "n + 63 = s + (n div 64 + 1) * 64" using mult_div_mod_eq [of 64 n] by simp
  moreover have "(s + (n div 64 + 1) * 64) div 64 = (n div 64 + 1) + s div 64" by (rule div_mult_self1) simp
  moreover have "s < 64" using Suc mod_less_divisor [of 64 n] by simp
  ultimately show ?thesis using Suc unfolding bm_nwords_def by simp
qed

lemma bm_fill_ok: "bm_ok (bm_fill bm)" "bits_of (bm_fill bm) = {..<bm_nbits bm}"
proof -
  let ?n = "bm_nbits bm" and ?w = "bm_nwords (bm_nbits bm)"
  have n: "bm_nbits (bm_fill bm) = ?n" "length (bm_words (bm_fill bm)) = ?w" by (simp_all add: bm_fill_def Let_def)
  have "bit_at (bm_fill bm) b = (b < ?n)" if b: "b < 64 * ?w" for b
  proof -
    have d: "b div 64 < ?w" using b nwords_bounds(3) by blast
    show ?thesis
    proof (cases "?n mod 64 = 0")
      case True
      then have "?n = 64 * ?w" using nwords_split [of ?n] mult_div_mod_eq [of 64 ?n] by simp
      then show ?thesis using b d True by (simp add: bm_fill_def bit_at_def Let_def)
    next
      case False
      then have w: "?w = ?n div 64 + 1" using nwords_split [of ?n] by simp
      have "bit (push_bit k 1 - 1 :: u64) i = (i < k)" if "k < 64" "i < 64" for k i
        using that by (simp flip: mask_eq_exp_minus_1 add: bit_mask_iff)
      moreover have "b < ?n \<longleftrightarrow> b div 64 < ?n div 64 \<or> b div 64 = ?n div 64 \<and> b mod 64 < ?n mod 64"
      proof -
        have "64 * (b div 64) + b mod 64 = b" "64 * (?n div 64) + ?n mod 64 = ?n" "b mod 64 < 64" "?n mod 64 < 64" by simp_all
        then show ?thesis by (cases "b div 64" "?n div 64" rule: linorder_cases) linarith+
      qed
      moreover have "bm_words (bm_fill bm) = (replicate ?w (- 1))[?w - 1 := push_bit (?n mod 64) 1 - 1]"
        using False by (simp add: bm_fill_def Let_def)
      then have "bm_words (bm_fill bm) ! (b div 64) = (if b div 64 = ?n div 64 then push_bit (?n mod 64) 1 - 1 else - 1)"
        using d w by (auto simp del: replicate.simps simp: nth_list_update)
      moreover have "b div 64 \<le> ?n div 64" using d w by simp
      ultimately show ?thesis unfolding bit_at_def by auto
    qed
  qed
  then show "bm_ok (bm_fill bm)" "bits_of (bm_fill bm) = {..<?n}"
    unfolding bm_ok_def bits_of_def n using nwords_bounds(1) [of ?n] by (auto simp: order_less_le_trans)
qed

lemma next_word: "b < (b div 64 + 1) * 64" for b :: nat
proof -
  define q where "q = b div 64"
  have "64 * q + b mod 64 = b" "b mod 64 < 64" by (simp_all add: q_def)
  then have "b < (q + 1) * 64" by simp
  then show ?thesis unfolding q_def .
qed

lemma in_word: "b \<le> c \<Longrightarrow> c < (b div 64 + 1) * 64 \<Longrightarrow> c div 64 = b div 64 \<and> c mod 64 = b mod 64 + (c - b)" for b c :: nat
proof -
  assume c: "b \<le> c" "c < (b div 64 + 1) * 64"
  define q r where "q = b div 64" and "r = b mod 64"
  have b: "64 * q + r = b" by (simp add: q_def r_def)
  obtain k where k: "c = b + k" using c(1) by (metis le_Suc_ex)
  have "c < (q + 1) * 64" using c(2) by (simp only: q_def)
  then have "c = (r + k) + q * 64" "r + k < 64" using b k by simp_all
  then have "c div 64 = q" "c mod 64 = r + k" by simp_all
  then show ?thesis using k by (simp add: q_def r_def)
qed

lemma scan_word:
  fixes W :: u64
  assumes P: "\<forall>c. c div 64 = b div 64 \<longrightarrow> P c = bit W (c mod 64)"
  defines "w \<equiv> drop_bit (b mod 64) W"
  shows "w = 0 \<Longrightarrow> b \<le> c \<Longrightarrow> c < (b div 64 + 1) * 64 \<Longrightarrow> \<not> P c"
    and "w \<noteq> 0 \<Longrightarrow> P (b + ctz w) \<and> b + ctz w < (b div 64 + 1) * 64 \<and> (\<forall>c. b \<le> c \<and> c < b + ctz w \<longrightarrow> \<not> P c)"
proof -
  have at: "P c = bit w (c - b)" if "b \<le> c" "c < (b div 64 + 1) * 64" for c
    using in_word [OF that] P by (simp add: w_def bit_drop)
  then show "w = 0 \<Longrightarrow> b \<le> c \<Longrightarrow> c < (b div 64 + 1) * 64 \<Longrightarrow> \<not> P c" by simp
  assume w: "w \<noteq> 0"
  define k where "k = ctz w"
  have k: "bit w k" "\<forall>i. i < k \<longrightarrow> \<not> bit w i" using low_bit [OF w] w by (simp_all add: k_def ctz_def)
  define q where "q = b div 64"
  have "64 * q + b mod 64 = b" by (simp add: q_def)
  moreover have "b mod 64 + k < 64" using k(1) bit_imp_le_length [of W "b mod 64 + k"] by (simp add: w_def bit_drop)
  ultimately have "b + k < (q + 1) * 64" by simp
  then have lt: "b + k < (b div 64 + 1) * 64" by (simp only: q_def)
  have "P (b + k)" using at [of "b + k"] lt k(1) by simp
  moreover have "\<not> P c" if "b \<le> c \<and> c < b + k" for c
  proof -
    have "c < (b div 64 + 1) * 64" "c - b < k" using that lt by linarith+
    then show ?thesis using at [of c] that k(2) by blast
  qed
  ultimately show "P (b + ctz w) \<and> b + ctz w < (b div 64 + 1) * 64 \<and> (\<forall>c. b \<le> c \<and> c < b + ctz w \<longrightarrow> \<not> P c)"
    using lt unfolding k_def by blast
qed

text \<open>\<open>r\<close> is the first number from \<open>b\<close> on with \<open>P\<close>, or \<open>n\<close> when there is none below \<open>n\<close>.\<close>

definition first_from :: "(nat \<Rightarrow> bool) \<Rightarrow> nat \<Rightarrow> nat \<Rightarrow> nat \<Rightarrow> bool" where
  "first_from P n b r \<longleftrightarrow> r \<le> n \<and> (\<forall>c. b \<le> c \<and> c < r \<longrightarrow> \<not> P c) \<and> (r < n \<longrightarrow> b \<le> r \<and> P r)"

lemma first_from_skip:
  assumes "first_from P n m r" "\<forall>c. b \<le> c \<and> c < m \<longrightarrow> \<not> P c" "b \<le> m"
  shows "first_from P n b r"
proof -
  have "\<not> P c" if "b \<le> c" "c < r" for c using assms(1,2) that by (cases "c < m") (auto simp: first_from_def)
  then show ?thesis using assms(1,3) by (auto simp: first_from_def)
qed

lemma first_set_exact: "bm_ok bm \<Longrightarrow> first_from (\<lambda>c. c \<in> bits_of bm) (bm_nbits bm) b (first_set_loop bm b)"
proof (induction bm b rule: first_set_loop.induct)
  case (1 bm b)
  show ?case
  proof (cases "b < bm_nbits bm")
    case True
    define w where "w = drop_bit (b mod 64) (bm_words bm ! (b div 64))"
    have P: "\<forall>c. c div 64 = b div 64 \<longrightarrow> bit_at bm c = bit (bm_words bm ! (b div 64)) (c mod 64)" by (simp add: bit_at_def)
    note sc = scan_word [OF P, folded w_def]
    show ?thesis
    proof (cases "w = 0")
      case w: True
      have "first_from (\<lambda>c. c \<in> bits_of bm) (bm_nbits bm) ((b div 64 + 1) * 64) (first_set_loop bm ((b div 64 + 1) * 64))"
        using 1 True w by (simp add: w_def)
      moreover have "\<forall>c. b \<le> c \<and> c < (b div 64 + 1) * 64 \<longrightarrow> c \<notin> bits_of bm" using sc(1) w by (auto simp: bits_of_def)
      ultimately have "first_from (\<lambda>c. c \<in> bits_of bm) (bm_nbits bm) b (first_set_loop bm ((b div 64 + 1) * 64))"
        by (rule first_from_skip) (use next_word [of b] in simp)
      moreover have "first_set_loop bm b = first_set_loop bm ((b div 64 + 1) * 64)"
        by (subst first_set_loop.simps) (use True w in \<open>simp add: w_def\<close>)
      ultimately show ?thesis by (simp only:)
    next
      case w: False
      have "first_set_loop bm b = b + ctz w" by (subst first_set_loop.simps) (use True w in \<open>simp add: w_def Let_def\<close>)
      moreover have "b + ctz w < bm_nbits bm"
      proof (rule ccontr)
        assume "\<not> b + ctz w < bm_nbits bm"
        moreover have "b div 64 + 1 \<le> bm_nwords (bm_nbits bm)" using nwords_bounds(2) [OF True] by simp
        then have "(b div 64 + 1) * 64 \<le> 64 * bm_nwords (bm_nbits bm)" by simp
        then have "b + ctz w < 64 * bm_nwords (bm_nbits bm)" using sc(2) [OF w] by linarith
        ultimately show False using 1(2) sc(2) [OF w] by (auto simp: bm_ok_def)
      qed
      ultimately show ?thesis using sc(2) [OF w] by (auto simp: first_from_def bits_of_def)
    qed
  qed (subst first_set_loop.simps, auto simp: first_from_def bits_of_def)
qed

lemma first_clear_exact:
  "first_from (\<lambda>c. c < bm_nbits bm \<and> c \<notin> bits_of bm) (bm_nbits bm) b (first_clear_loop bm b)"
proof (induction bm b rule: first_clear_loop.induct)
  case (1 bm b)
  show ?case
  proof (cases "b < bm_nbits bm")
    case True
    define w where "w = drop_bit (b mod 64) (NOT (bm_words bm ! (b div 64)))"
    have P: "\<forall>c. c div 64 = b div 64 \<longrightarrow> (\<not> bit_at bm c) = bit (NOT (bm_words bm ! (b div 64))) (c mod 64)"
      by (simp add: bit_at_def bit_not_iff)
    note sc = scan_word [where P = "\<lambda>c. \<not> bit_at bm c", OF P, folded w_def]
    show ?thesis
    proof (cases "w = 0")
      case w: True
      have "first_from (\<lambda>c. c < bm_nbits bm \<and> c \<notin> bits_of bm) (bm_nbits bm) ((b div 64 + 1) * 64) (first_clear_loop bm ((b div 64 + 1) * 64))"
        using 1 True w by (simp add: w_def)
      moreover have "\<forall>c. b \<le> c \<and> c < (b div 64 + 1) * 64 \<longrightarrow> \<not> (c < bm_nbits bm \<and> c \<notin> bits_of bm)" using sc(1) w by (auto simp: bits_of_def)
      ultimately have "first_from (\<lambda>c. c < bm_nbits bm \<and> c \<notin> bits_of bm) (bm_nbits bm) b (first_clear_loop bm ((b div 64 + 1) * 64))"
        by (rule first_from_skip) (use next_word [of b] in simp)
      moreover have "first_clear_loop bm b = first_clear_loop bm ((b div 64 + 1) * 64)"
        by (subst first_clear_loop.simps) (use True w in \<open>simp add: w_def\<close>)
      ultimately show ?thesis by (simp only:)
    next
      case w: False
      have "first_clear_loop bm b = (if b + ctz w < bm_nbits bm then b + ctz w else bm_nbits bm)"
        by (subst first_clear_loop.simps) (use True w in \<open>simp add: w_def Let_def\<close>)
      then show ?thesis using sc(2) [OF w] by (auto simp: first_from_def bits_of_def)
    qed
  qed (subst first_clear_loop.simps, auto simp: first_from_def)
qed

lemma card_words: "card {b. b < 64 * (n :: nat) \<and> P b} = (\<Sum>i<n. card {j. j < 64 \<and> P (64 * i + j)})"
proof (induction n)
  case (Suc n)
  have "{b. b < 64 * Suc n \<and> P b} = {b. b < 64 * n \<and> P b} \<union> (\<lambda>j. 64 * n + j) ` {j. j < 64 \<and> P (64 * n + j)}"
  proof (intro equalityI subsetI)
    fix b assume b: "b \<in> {b. b < 64 * Suc n \<and> P b}"
    show "b \<in> {b. b < 64 * n \<and> P b} \<union> (\<lambda>j. 64 * n + j) ` {j. j < 64 \<and> P (64 * n + j)}"
    proof (cases "b < 64 * n")
      case False
      then obtain j where "b = 64 * n + j" by (metis le_Suc_ex not_le)
      then show ?thesis using b by auto
    qed (use b in simp)
  qed auto
  moreover have "card ({b. b < 64 * n \<and> P b} \<union> (\<lambda>j. 64 * n + j) ` {j. j < 64 \<and> P (64 * n + j)}) =
      card {b. b < 64 * n \<and> P b} + card ((\<lambda>j. 64 * n + j) ` {j. j < 64 \<and> P (64 * n + j)})"
    by (intro card_Un_disjoint) auto
  moreover have "card ((\<lambda>j. 64 * n + j) ` {j. j < 64 \<and> P (64 * n + j)}) = card {j. j < 64 \<and> P (64 * n + j)}"
    by (intro card_image inj_onI) simp
  ultimately show ?case using Suc by simp
qed simp

lemma count_set_exact: "bm_ok bm \<Longrightarrow> bm_count_set bm = card (bits_of bm)"
proof -
  assume ok: "bm_ok bm"
  have "bits_of bm = {b. b < 64 * bm_nwords (bm_nbits bm) \<and> bit_at bm b}"
    using ok nwords_bounds(1) [of "bm_nbits bm"] by (auto simp: bits_of_def bm_ok_def not_le [symmetric])
  then have "card (bits_of bm) = (\<Sum>i<bm_nwords (bm_nbits bm). card {j. j < 64 \<and> bit_at bm (64 * i + j)})"
    using card_words [of "bm_nwords (bm_nbits bm)" "bit_at bm"] by simp
  also have "\<dots> = (\<Sum>i<bm_nwords (bm_nbits bm). unat (popcount (bm_words bm ! i)))"
    by (intro sum.cong refl) (simp add: popcount_filter filter_card bit_at_def cong: conj_cong)
  finally show ?thesis by (simp add: bm_count_set_def interv_sum_list_conv_sum_set_nat atLeast0LessThan)
qed

text \<open>
  C14. A bitmap is a set of numbers: setting, clearing and toggling a bit update the set and keep the
  unused bits of the last word clear; the test is membership, filling gives all numbers, the searches find the first
  member and the first number missing from the start on (the size when there is none), and the count is the size of the set.
\<close>
theorem bitmap_refines_set:
  assumes "bm_ok bm" "b < bm_nbits bm"
  shows "bm_ok (bm_set b bm) \<and> bits_of (bm_set b bm) = insert b (bits_of bm) \<and>
    bm_ok (bm_clear b bm) \<and> bits_of (bm_clear b bm) = bits_of bm - {b} \<and>
    bm_ok (bm_toggle b bm) \<and> bits_of (bm_toggle b bm) = (if b \<in> bits_of bm then bits_of bm - {b} else insert b (bits_of bm)) \<and>
    bm_test bm b = (b \<in> bits_of bm) \<and>
    bm_ok (bm_zero bm) \<and> bits_of (bm_zero bm) = {} \<and> bm_ok (bm_fill bm) \<and> bits_of (bm_fill bm) = {..<bm_nbits bm} \<and>
    first_from (\<lambda>c. c \<in> bits_of bm) (bm_nbits bm) start (bm_first_set bm start) \<and>
    first_from (\<lambda>c. c < bm_nbits bm \<and> c \<notin> bits_of bm) (bm_nbits bm) start (bm_first_clear bm start) \<and>
    bm_count_set bm = card (bits_of bm)"
  unfolding bm_first_set_def bm_first_clear_def
  by (simp only: bm_set_ok [OF assms] bm_clear_ok [OF assms] bm_toggle_ok [OF assms] bm_test_ok [OF assms(2)] bm_zero_ok(1,2)
    bm_fill_ok first_set_exact [OF assms(1)] first_clear_exact count_set_exact [OF assms(1)] simp_thms)

lemma bitmap_refines_set_witness: "bits_of (bm_set 69 (bm_init 70)) = {69} \<and> bm_count_set (bm_fill (bm_init 70)) = 70"
proof
  show "bits_of (bm_set 69 (bm_init 70)) = {69}"
    using bitmap_refines_set [of "bm_init 70" 69 0] bm_zero_ok(3,4) by (simp add: bm_init_def)
  have n: "bm_nbits (bm_fill (bm_init 70)) = 70" "bm_nbits (bm_init 70) = 70" by (simp_all add: bm_init_def bm_fill_def Let_def)
  show "bm_count_set (bm_fill (bm_init 70)) = 70"
    using bitmap_refines_set [of "bm_fill (bm_init 70)" 0 0] bm_fill_ok [of "bm_init 70"] unfolding n by simp
qed

end
