(* ===== verification/Spec2Isabelle.thy ===== *)
theory Spec2Isabelle
  imports Pipe Signal Ipc Futex Input InflateSpec CString Pmm Heap VfsSpec FatSpec Forking SwapSpec PollSpec TgaSpec BmpSpec PngSpec LibcRng LibcData
begin

text \<open>
  A verification library for the Systrix kernel (src/kernel, src/include) and its C library (src/libc): executable models of
  its core components, translated function by function from the C sources, with the theorems
  that state what the components promise.

  The program.  Systrix is a small single-processor kernel.  Physical pages come from a buddy
  allocator, kernel objects from a two-tier heap on top of it.  Processes live in a fixed table;
  they communicate by signals, message queues, futexes and pipes, and receive keyboard and mouse
  events through rings.  An address space is a tree of page tables with a table of areas; pages appear on
  demand, are shared after a fork and copied on writing, and can go to disk.  Sockets send and receive frames of
  a small TCP and UDP stack, and programs wait for them with epoll, poll and select.  Files are reached through a virtual file system with descriptors, inodes
  and mounts, over two drivers: FAT32 and a small journalling file system.  A DEFLATE
  decompressor serves the image decoder, and include/kernel.h carries the memory, string, number
  and formatting routines everything uses.

  The theories, in the order they build on each other.

  \<^item> Prelude: machine types, error codes, the scan over a table (\<open>first_idx\<close>), arithmetic of
    circular buffers, and the locale \<open>bounded_fifo\<close>, the interface of a queue of bounded
    capacity.  Pipe, Ipc and Input interpret it on the byte ring of a pipe, the inbox of a
    process and the two event rings; their queue properties rest on the facts it proves.
  \<^item> Pipe (kernel/pipe.c): the byte ring, reads and writes with their loops; results and contents of
    both, and that no byte is lost, duplicated or reordered over any sequence of them.
  \<^item> ProcTable (kernel/process.c, PCB in include/kernel.h), Signal (kernel/signal.c): dispositions, masks,
    pending sets, delivery on the user stack; delivery takes the lowest deliverable signal, SIGKILL cannot be
    caught and kills at once.
  \<^item> Ipc (kernel/ipc.c): inboxes and the registry of names; delivery, order of receipt, lookup after
    registration, and the loss of names of more than fifteen characters.
  \<^item> Futex (kernel/futex.c): the table of waiters; wake wakes exactly the first waiters of an address,
    and wait returns in exactly the cases described.
  \<^item> Input (kernel/input.c): key and mouse rings, repeat, modifiers, pads.
  \<^item> Inflate, Huffman, InflateSpec (kernel/inflate.c): the decompressor bit by bit; decoding is exact for the
    canonical code, the tables are built exactly for lengths that satisfy the Kraft inequality, fixed blocks of
    any token sequence and stored zlib streams are restored, and what is written never exceeds the buffer, on a failure
    either: the functions that write return the bytes written with the error.
  \<^item> CString (include/kernel.h): \<open>memmove\<close>, the string functions, number parsing and printing,
    \<open>k_vsnprintf\<close>.
  \<^item> Pmm (kernel/pmm.c): free lists, bitmap and reference counts of the buddy allocator; the invariant
    relates lists and bitmap, allocation and freeing refine removal from and addition to the set of
    free pages, and a scenario shows the fault of the coalescing test.
  \<^item> Heap (kernel/heap.c): slabs and the block list in byte-addressed memory; allocation refines first fit
    and freeing refines merging on the list of blocks.
  \<^item> Bytes: sectors and the bytes of numbers.  Inode: the types shared by file systems and the locale
    \<open>file_system\<close>, what the virtual file system relies on.
  \<^item> Jfs, JfsFiles, JfsOps (kernel/jfs.c): the journalling file system; writes refine overwriting by the longest prefix
    the free blocks allow, and
    reads refine slices of the contents of a file, a name added is found, and the first block of a new
    file system is lost.  JfsOps interprets \<open>file_system\<close>.
  \<^item> Vfs, VfsSpec (kernel/vfs.c): mounts, path names, descriptors, inodes; reference counts are exact over
    any sequence of operations (proved in the locale, used through its interpretation), the longest mount wins, and
    pipes cannot be used through their descriptors.
  \<^item> Fat, FatOps, FatSpec (the FAT32 driver of kernel/kernel.c): cached FAT, directory walks, open files;
    allocation, deletion and creation refine updates of the FAT and of the list of directory slots.
  \<^item> Vmm (kernel/vmm.c): page tables in physical memory, areas, faults, copying an address space.  The links of the
    buddy allocator are read from and written to the free pages in the same memory (\<open>pmm_of\<close>, \<open>set_pmm\<close>).  Process
    (kernel/process.c, kernel/elf.c, kernel/fork_exec.c, the memory calls of kernel/syscall.c): creation and
    end of processes, the program loader, \<open>fork\<close>, \<open>mmap\<close>, \<open>munmap\<close>, \<open>mprotect\<close>, \<open>brk\<close>.
  \<^item> VmmSpec, Paging, Forking: the address space as a map from virtual addresses to entries (\<open>transl\<close>);
    mapping, unmapping and protecting refine updates of that map under the invariant \<open>tables_ok\<close>; unmapping frees
    exactly the frames that lose their last reference, and neither tables nor other data pages suffer from the links
    written into them; a demand
    fault maps a page with the right contents, a write fault on a shared page leaves the other owner's untouched; the
    child of a fork is looked up one slot too far.
  \<^item> Vmalloc (kernel/vmalloc.c): its table of allocations is never set up, so no request succeeds.
  \<^item> Swap, SwapSpec (kernel/swap.c): a page swapped out comes back as it was; the second page written
    damages the first.
  \<^item> Tcpip, Poll (kernel/tcpip.c), TcpipSpec, PollSpec: sockets and the waiting calls; checksums verify, a
    connection opened from outside is established, the bytes of a connection are received in order, every
    operation keeps the table of sockets well formed, and epoll, poll and select answer exactly.
  \<^item> Raster (kernel/image.h, kernel/image.c): images, conversion and scaling.  Qoi and Tga (kernel/tga_pcx_qoi.c), Bmp
    (kernel/bmp.c), Png (kernel/png.c): the decoders.  QoiSpec and PngSpec: what the encoders of the formats write
    is decoded to the same pixels, for PNG through the checksum, the zlib stream and every filter; damage to a byte of a chunk
    is refused.  TgaSpec and BmpSpec: raw pixels are placed exactly; files of some standard kinds are not decoded.
  \<^item> LibcSort (libc/systrix_libc.c): \<open>qsort\<close> and \<open>bsearch\<close> over the locale \<open>comparison\<close>, what they need of the
    caller's function; interpreted on \<open>strcmp\<close> and on the order of integers.  Arrays of up to 132 elements are sorted, and one
    array of 133 is not.
  \<^item> LibcMath, LibcBits (the same file): integer arithmetic and bit manipulation; powers, logarithms, overflow tests and
    saturation are exact where C defines them, bits move where they should, and the parallel count of bits is right.
  \<^item> LibcRng (the same file): the random numbers.  The steps of the generator are linear, so a table of masks, checked by the
    simplifier, shows that a value with its highest bit set comes within 64 steps; draws from a range therefore return, and
    shuffling returns a permutation.
  \<^item> LibcData (the same file): the ring buffer, which interprets \<open>bounded_fifo\<close> while its counters wrap, and the bitmap, which
    refines a set of numbers.
  \<^item> This theory: a property that spans signals and futexes.

  Conventions.  A C array is a function on indices, a byte a word of eight bits, a struct a
  record.  Sizes and addresses are natural numbers with the reductions modulo 2 to the 32 or 64 written out where
  a caller can reach them; bit masks and values printed or parsed are words; i64 results are
  integers.  What a component does not own is a parameter: the rest of the system during a wait
  (\<open>env\<close>), memory reclaim (\<open>oom\<close>, the pages a killed process gives back; its effect on the table of
  processes is \<open>vmm_oom_kill\<close>), the address the heap returns, the clock registers, the
  contents of uninitialised locals.  Loops over data are structural or have a measure; loops that need not
  end (receiving, waiting for a socket, following a cluster chain on a damaged disk) are partial functions, where \<^term>\<open>None\<close> is
  a call that does not return, and the properties state when they do return.  The one bound chosen
  is \<open>coalesce_fuel\<close> in Heap: the heap has fewer blocks than that, so the loop ends within it.

  Not modelled: device drivers, graphics and the console, which are register or
  frame-buffer input and output; the context switch and other assembly; the network card's
  layer (kernel/net.c), the memory-safety and security checks, the dispatch of system calls and the JPEG
  decoder; user-space programs, and the parts of libc/systrix_libc.c that the list above does not name.  Of the modelled files: \<open>pmm_clear_region\<close> (a
  \<open>memset\<close>), \<open>ipc_dump_servers\<close> (prints), and \<open>fat32_ops_readdir\<close>, which clears 64 bytes
  of a local array of 32 and therefore has no defined behaviour to model.
\<close>

section \<open>Signals and futexes\<close>

text \<open>
  C33. A killed process comes back to life.  When a process that waits on a futex is killed with
  SIGKILL, its slot in the table of waiters stays; a later wake of the address that reaches the
  slot makes the dead process ready again, so the scheduler will run it.
\<close>

theorem futex_wake_revives_killed:
  assumes "pids_ok (sg_procs s)" "i < PROC_MAX" "pcb_state (sg_procs s i) = PSTATE_BLOCKED"
    and procs: "fx_procs fx = sg_procs (snd (sys_kill (Suc i) (int SIGKILL) s))"
    and waiting: "addr \<noteq> 0" "w \<in> set (waiters fx addr)" "fw_pcb (fx_table fx w) = Some i"
    and "length (waiters fx addr) \<le> val"
  shows "pcb_state (fx_procs fx i) = PSTATE_DEAD \<and>
    (\<exists>r fx'. sys_futex env addr FUTEX_WAKE val t fx = Some (r, fx') \<and> pcb_state (fx_procs fx' i) = PSTATE_READY)"
proof -
  have "sys_kill (Suc i) (int SIGKILL) s =
      (0, s\<lparr>sg_procs := (sg_procs s)(i := (sg_procs s i)\<lparr>pcb_state := PSTATE_DEAD\<rparr>)\<rparr>)"
    by (rule kill_at_once) (use assms(1-3) in \<open>simp_all add: pstate_defs\<close>)
  then have "pcb_state (fx_procs fx i) = PSTATE_DEAD" using procs by simp
  moreover have "take val (waiters fx addr) = waiters fx addr" using assms(8) by simp
  then have "\<exists>r fx'. sys_futex env addr FUTEX_WAKE val t fx = Some (r, fx') \<and> pcb_state (fx_procs fx' i) = PSTATE_READY"
    using futex_wake_spec [OF waiting(1), of val fx env t] waiting(2,3) by (auto simp: Let_def split: prod.splits)
  ultimately show ?thesis by blast
qed

lemma futex_wake_revives_killed_witness:
  "\<exists>r fx'. sys_futex id 4096 FUTEX_WAKE 1 0 (futex_demo\<lparr>fx_procs := sg_procs (snd (sys_kill 2 (int SIGKILL)
     (sig_demo\<lparr>sg_procs := fx_procs futex_demo\<rparr>)))\<rparr>) = Some (r, fx') \<and> pcb_state (fx_procs fx' 1) = PSTATE_READY"
proof -
  let ?s = "sig_demo\<lparr>sg_procs := fx_procs futex_demo\<rparr>"
  let ?fx = "futex_demo\<lparr>fx_procs := sg_procs (snd (sys_kill (Suc 1) (int SIGKILL) ?s))\<rparr>"
  have p: "pids_ok (sg_procs ?s)" "1 < PROC_MAX" "pcb_state (sg_procs ?s 1) = PSTATE_BLOCKED"
    by (simp_all add: pids_ok_def futex_demo_def process_init_def pcb_zero_def PROC_MAX_def pstate_defs)
  have "waits_on ?fx 4096 = waits_on futex_demo 4096" by (simp add: waits_on_def fun_eq_iff)
  then have w: "waiters ?fx 4096 = [0]" using futex_demo_waiters unfolding waiters_def by simp
  have "0 \<in> set (waiters ?fx 4096)" "fw_pcb (fx_table ?fx 0) = Some 1" "length (waiters ?fx 4096) \<le> 1"
    unfolding w by (simp_all add: futex_demo_def)
  from futex_wake_revives_killed [OF p _ _ this, of id 0] show ?thesis by (simp add: numeral_2_eq_2)
qed

end
